(* ===== verification/Prelude.thy ===== *)
theory Prelude
  imports Main "HOL-Library.Word" "HOL-Library.Monad_Syntax"
begin

text \<open>
  Shared material of the development: the machine types of the C code, the memory
  primitives (\<^verbatim>\<open>memcpy\<close>, \<^verbatim>\<open>malloc\<close>, \<^verbatim>\<open>free\<close>) with undefined behaviour
  as the value \<open>None\<close>, and the generic lemmas on lists and words that the component
  theories rely on.

  Conventions. A byte is an 8-bit word, \<open>size_t\<close> is a 64-bit word and \<open>int\<close> a 32-bit
  two's complement number. A C block of memory is the list of its bytes. A computation
  that may run into undefined behaviour (an access out of a block, an overlapping
  \<^verbatim>\<open>memcpy\<close>, a double free) has type \<open>'a option\<close>, and \<open>None\<close> is that behaviour;
  the safety theorems say that \<open>None\<close> is never the result.
\<close>

unbundle bit_operations_syntax

section \<open>Machine types\<close>

type_synonym byte = "8 word"
type_synonym size_t = "64 word"
type_synonym cint = "32 word"
type_synonym blockid = nat

named_theorems mem_simps \<open>rewriting of successful memory accesses\<close>
named_theorems bound_simps \<open>sizes and bounds of the fixed layouts\<close>

section \<open>Reading and writing a block\<close>

definition read_at :: "byte list \<Rightarrow> nat \<Rightarrow> nat \<Rightarrow> byte list option" where
  "read_at src off n = (if off + n \<le> length src then Some (take n (drop off src)) else None)"

definition write_at :: "byte list \<Rightarrow> nat \<Rightarrow> byte list \<Rightarrow> byte list option" where
  "write_at dst off bs =
     (if off + length bs \<le> length dst
      then Some (take off dst @ bs @ drop (off + length bs) dst) else None)"

text \<open>
  \<^verbatim>\<open>memcpy\<close> inside one block: the two regions must lie inside the block and must
  not overlap.
\<close>

definition disjoint_regions :: "nat \<Rightarrow> nat \<Rightarrow> nat \<Rightarrow> bool" where
  "disjoint_regions d s n \<longleftrightarrow> n = 0 \<or> d + n \<le> s \<or> s + n \<le> d"

definition memcpy_within :: "byte list \<Rightarrow> nat \<Rightarrow> nat \<Rightarrow> nat \<Rightarrow> byte list option" where
  "memcpy_within mem d s n =
     (if disjoint_regions d s n
      then do { bs \<leftarrow> read_at mem s n; write_at mem d bs } else None)"

text \<open>\<^verbatim>\<open>malloc\<close> leaves the block's contents indeterminate: \<open>junk\<close> is any contents.\<close>

definition malloc_bytes :: "(nat \<Rightarrow> byte) \<Rightarrow> nat \<Rightarrow> byte list" where
  "malloc_bytes junk n = map junk [0..<n]"

lemma length_malloc_bytes [simp]: "length (malloc_bytes junk n) = n"
  by (simp add: malloc_bytes_def)

lemma read_at_Some [mem_simps]:
  "off + n \<le> length src \<Longrightarrow> read_at src off n = Some (take n (drop off src))"
  by (simp add: read_at_def)

lemma write_at_Some [mem_simps]:
  "off + length bs \<le> length dst \<Longrightarrow>
   write_at dst off bs = Some (take off dst @ bs @ drop (off + length bs) dst)"
  by (simp add: write_at_def)

lemma write_at_length: "write_at dst off bs = Some dst' \<Longrightarrow> length dst' = length dst"
  by (auto simp: write_at_def split: if_splits)

lemma read_at_length: "read_at src off n = Some bs \<Longrightarrow> length bs = n"
  by (auto simp: read_at_def split: if_splits)

text \<open>A read after a write: inside the written region, and away from it.\<close>

lemma take_drop_written [simp]:
  "off \<le> length dst \<Longrightarrow> n \<le> length bs \<Longrightarrow>
   take n (drop off (take off dst @ bs @ drop (off + length bs) dst)) = take n bs"
  by simp

lemma take_drop_before:
  "a + n \<le> off \<Longrightarrow> off \<le> length dst \<Longrightarrow>
   take n (drop a (take off dst @ bs @ rest)) = take n (drop a dst)"
  by (auto simp: drop_take min_def not_le)

lemma take_drop_append_region:
  assumes "a + m \<le> length xs"
  shows "take (m + n) (drop a xs) = take m (drop a xs) @ take n (drop (a + m) xs)"
  using assms by (simp add: take_add add.commute)

lemma memcpy_within_Some [mem_simps]:
  assumes "disjoint_regions d s n" "s + n \<le> length mem" "d + n \<le> length mem"
  shows "memcpy_within mem d s n =
    Some (take d mem @ take n (drop s mem) @ drop (d + n) mem)"
  using assms by (simp add: memcpy_within_def read_at_def write_at_def)

section \<open>C strings\<close>

text \<open>A char array read as a C string, and the texts that such an array can hold.\<close>

definition c_text :: "string \<Rightarrow> string" where
  "c_text buf = takeWhile (\<lambda>c. c \<noteq> CHR 0x00) buf"

definition c_string :: "string \<Rightarrow> bool" where
  "c_string s \<longleftrightarrow> CHR 0x00 \<notin> set s"

lemma c_text_append [simp]: "c_string s \<Longrightarrow> c_text (s @ CHR 0x00 # t) = s"
  by (induction s) (auto simp: c_text_def c_string_def)

lemma c_string_simps [simp]:
  "c_string []" "c_string (c # s) \<longleftrightarrow> c \<noteq> CHR 0x00 \<and> c_string s" "c_string (s @ t) \<longleftrightarrow> c_string s \<and> c_string t"
  by (auto simp: c_string_def)

section \<open>The allocator's view of blocks\<close>

text \<open>
  Which blocks are allocated, for the claims on leaks and double frees: identifiers are
  handed out in order, and \<open>mh_live\<close> lists the blocks not yet freed.
\<close>

record mheap =
  mh_next :: blockid
  mh_live :: "blockid list"

definition heap_malloc :: "mheap \<Rightarrow> blockid \<times> mheap" where
  "heap_malloc h = (mh_next h, h\<lparr>mh_next := Suc (mh_next h), mh_live := mh_next h # mh_live h\<rparr>)"

definition heap_free :: "mheap \<Rightarrow> blockid \<Rightarrow> mheap option" where
  "heap_free h b =
     (if b \<in> set (mh_live h) then Some (h\<lparr>mh_live := remove1 b (mh_live h)\<rparr>) else None)"

definition heap_ok :: "mheap \<Rightarrow> bool" where
  "heap_ok h \<longleftrightarrow> distinct (mh_live h) \<and> (\<forall>b \<in> set (mh_live h). b < mh_next h)"

lemma heap_malloc_ok: "heap_ok h \<Longrightarrow> heap_ok (snd (heap_malloc h))"
  by (force simp: heap_ok_def heap_malloc_def)

lemma heap_malloc_fresh: "heap_ok h \<Longrightarrow> fst (heap_malloc h) \<notin> set (mh_live h)"
  by (force simp: heap_ok_def heap_malloc_def)

lemma heap_malloc_live [simp]:
  "set (mh_live (snd (heap_malloc h))) = insert (fst (heap_malloc h)) (set (mh_live h))"
  by (simp add: heap_malloc_def)

lemma heap_free_ok: "heap_ok h \<Longrightarrow> heap_free h b = Some h' \<Longrightarrow> heap_ok h'"
  by (auto simp: heap_ok_def heap_free_def split: if_splits dest: notin_set_remove1)

lemma heap_free_live:
  "heap_ok h \<Longrightarrow> heap_free h b = Some h' \<Longrightarrow> set (mh_live h') = set (mh_live h) - {b}"
  by (auto simp: heap_ok_def heap_free_def split: if_splits)

section \<open>Words\<close>

text \<open>Conversions between the integer types of the source, by truncation.\<close>

definition to_u32 :: "size_t \<Rightarrow> 32 word" where
  "to_u32 x = ucast x"

definition from_u32 :: "32 word \<Rightarrow> size_t" where
  "from_u32 x = ucast x"

text \<open>A \<open>size_t\<close> converted to \<open>int\<close>: the low 32 bits, read as two's complement.\<close>

definition int_of_size :: "nat \<Rightarrow> int" where
  "int_of_size n = sint (word_of_nat n :: 32 word)"

lemma int_of_size_small [simp]: "n < 2 ^ 31 \<Longrightarrow> int_of_size n = int n"
  by (simp add: int_of_size_def signed_of_nat signed_take_bit_int_eq_self)

lemma unat_add_no_wrap:
  fixes a b :: size_t
  assumes "unat a + unat b < 2 ^ 64"
  shows "unat (a + b) = unat a + unat b"
  using assms by (simp add: unat_word_ariths)

lemma unat_double [simp]:
  fixes a :: size_t
  assumes "2 * unat a < 2 ^ 64"
  shows "unat (2 * a) = 2 * unat a"
  using assms by (simp add: unat_word_ariths)

lemma unat_diff_no_wrap:
  fixes a b :: size_t
  assumes "b \<le> a"
  shows "unat (a - b) = unat a - unat b"
  using assms by (rule unat_sub)

lemma unat_power_two:
  assumes "k < LENGTH('a)"
  shows "unat (2 ^ k :: 'a::len word) = 2 ^ k"
proof -
  have "(2 ^ k :: 'a word) = word_of_nat (2 ^ k)"
    by simp
  moreover have "(2 :: nat) ^ k < 2 ^ LENGTH('a)"
    using assms by (rule power_strict_increasing) simp
  ultimately show ?thesis
    by (simp only: unsigned_of_nat take_bit_nat_eq_self of_nat_id)
qed

lemma unat_size_bound [simp]: "unat (x :: size_t) < 18446744073709551616"
  using unsigned_less [of x] by simp

lemma size_le_iff: "(a :: size_t) \<le> b \<longleftrightarrow> unat a \<le> unat b"
  by (rule word_le_nat_alt)

lemma size_less_iff: "(a :: size_t) < b \<longleftrightarrow> unat a < unat b"
  by (rule word_less_nat_alt)

lemma size_eq_iff: "(a :: size_t) = b \<longleftrightarrow> unat a = unat b"
  by (rule word_unat_eq_iff)

lemmas size_iffs = size_le_iff size_less_iff size_eq_iff

lemma unat_to_u32: "unat x < 2 ^ 32 \<Longrightarrow> unat (to_u32 x) = unat x"
  by (simp add: to_u32_def unsigned_ucast_eq take_bit_nat_eq_self)

lemma unat_from_u32 [simp]: "unat (from_u32 x) = unat x"
proof -
  have "unat x < 2 ^ 64"
    using unsigned_less [of x] by (rule less_trans) simp
  then show ?thesis
    by (simp add: from_u32_def unsigned_ucast_eq take_bit_nat_eq_self)
qed

end
