(* ===== verification/ByteQueue.thy ===== *)
theory ByteQueue
  imports Prelude
begin

text \<open>
  The contract between a connection's receive buffer and the code that decodes it: a
  bounded queue of bytes that the socket fills at the back and the decoder discards from
  the front. \<open>BipBuf\<close> provides it, the packet decoders rely on it.
\<close>

locale byte_queue =
  fixes invar :: "'b \<Rightarrow> bool"
    and content :: "'b \<Rightarrow> byte list"
    and capacity :: "'b \<Rightarrow> nat"
    and fill :: "'b \<Rightarrow> byte list \<Rightarrow> 'b option"
    and discard :: "'b \<Rightarrow> nat \<Rightarrow> 'b"
  assumes content_bound: "invar b \<Longrightarrow> length (content b) \<le> capacity b"
    and fill_ok: "invar b \<Longrightarrow> xs \<noteq> [] \<Longrightarrow> length (content b) + length xs \<le> capacity b \<Longrightarrow>
      \<exists>b'. fill b xs = Some b' \<and> invar b' \<and> content b' = content b @ xs \<and> capacity b' = capacity b"
    and discard_ok: "invar b \<Longrightarrow> n \<le> length (content b) \<Longrightarrow>
      invar (discard b n) \<and> content (discard b n) = drop n (content b) \<and>
      capacity (discard b n) = capacity b"
begin

text \<open>Filling with the two parts of a block in turn is filling with the block.\<close>

lemma fill_append:
  assumes "invar b" "xs \<noteq> []" "ys \<noteq> []"
    and "length (content b) + length xs + length ys \<le> capacity b"
  shows "\<exists>b1 b2 b3. fill b xs = Some b1 \<and> fill b1 ys = Some b2 \<and> fill b (xs @ ys) = Some b3 \<and>
    content b2 = content b3 \<and> content b3 = content b @ xs @ ys"
proof -
  from fill_ok [OF assms(1,2)] assms(4) obtain b1 where b1: "fill b xs = Some b1" "invar b1"
      "content b1 = content b @ xs" "capacity b1 = capacity b" by auto
  from fill_ok [OF b1(2) assms(3)] b1(3,4) assms(4) obtain b2 where
      "fill b1 ys = Some b2" "content b2 = content b1 @ ys" by auto
  moreover from fill_ok [OF assms(1), of "xs @ ys"] assms obtain b3 where
      "fill b (xs @ ys) = Some b3" "content b3 = content b @ xs @ ys" by auto
  ultimately show ?thesis using b1 by auto
qed

text \<open>First in, first out: what was there before is discarded first.\<close>

lemma fill_discard:
  assumes "invar b" "xs \<noteq> []" "length (content b) + length xs \<le> capacity b"
  shows "\<exists>b'. fill b xs = Some b' \<and> content (discard b' (length (content b))) = xs"
  using fill_ok [OF assms] discard_ok by fastforce

end

end
