(* ===== verification/RoundUp.thy ===== *)
theory RoundUp
  imports Prelude
begin

text \<open>
  Rounding up to a power of two by smearing the highest bit, the technique of \<open>next_power_of_two\<close>
  of the bip buffer and of \<open>ceilToPow2\<close> of the reader-writer queue, for words of every width.
\<close>

lemma smear_step:
  fixes x y :: "'a::len word"
  assumes "\<And>i. bit x i \<longleftrightarrow> (\<exists>j<k. bit y (i + j))"
  shows "bit (x OR drop_bit k x) i \<longleftrightarrow> (\<exists>j<k + k. bit y (i + j))"
proof -
  have "(\<exists>j<k + k. bit y (i + j)) \<longleftrightarrow> (\<exists>j<k. bit y (i + j)) \<or> (\<exists>j<k. bit y (i + (k + j)))"
    (is "?L \<longleftrightarrow> ?R")
  proof
    assume ?L
    then obtain j where j: "j < k + k" "bit y (i + j)" by blast
    show ?R
    proof (cases "j < k")
      case False
      with j have "j - k < k" "bit y (i + (k + (j - k)))" by auto
      then show ?thesis by blast
    qed (use j in blast)
  qed (auto intro: trans_less_add1 add_less_cancel_left [THEN iffD2])
  then show ?thesis
    by (simp add: bit_or_iff bit_drop_bit_eq assms add.assoc add.left_commute)
qed

lemma smear_first: "bit (y OR drop_bit 1 y) i \<longleftrightarrow> (\<exists>j<2. bit y (i + j))" for y :: "'a::len word"
  using smear_step [of y 1 y i] by (simp add: numeral_2_eq_2)

text \<open>Once every distance is covered, the result is the mask of the highest bit.\<close>

lemma smeared_mask:
  fixes r y :: "'a::len word"
  assumes smear: "\<And>i. bit r i \<longleftrightarrow> (\<exists>j<LENGTH('a). bit y (i + j))" and lo: "2 ^ m \<le> unat y" and hi: "unat y < 2 ^ Suc m"
  shows "r = mask (Suc m)"
proof (rule bit_word_eqI)
  fix n assume n: "n < LENGTH('a)"
  have top: "bit (unat y) m"
  proof -
    have "unat y div 2 ^ m = 1" using lo hi by (intro div_nat_eqI) auto
    then show ?thesis by (simp add: bit_iff_odd)
  qed
  have above: "\<not> bit (unat y) j" if "m < j" for j
  proof -
    have "unat y < 2 ^ j" using hi that by (meson Suc_leI less_le_trans one_le_numeral power_increasing)
    then show ?thesis by (simp add: bit_iff_odd)
  qed
  have ybit: "bit y j \<longleftrightarrow> bit (unat y) j" for j by (simp add: bit_unsigned_iff)
  have "(\<exists>j<LENGTH('a). bit y (n + j)) \<longleftrightarrow> n < Suc m"
  proof
    assume "n < Suc m"
    moreover have "m < LENGTH('a)" using top ybit bit_imp_le_length by blast
    ultimately have "m - n < LENGTH('a)" "bit y (n + (m - n))" using top ybit by auto
    then show "\<exists>j<LENGTH('a). bit y (n + j)" by blast
  next
    assume "\<exists>j<LENGTH('a). bit y (n + j)"
    then obtain j where "bit (unat y) (n + j)" using ybit by blast
    then have "n + j \<le> m" using above by (meson not_le)
    then show "n < Suc m" by simp
  qed
  then show "bit r n \<longleftrightarrow> bit (mask (Suc m) :: 'a word) n" using n by (simp add: smear bit_mask_iff)
qed

lemma smeared_succ:
  fixes r y :: "'a::len word"
  assumes "\<And>i. bit r i \<longleftrightarrow> (\<exists>j<LENGTH('a). bit y (i + j))" "2 ^ m \<le> unat y" "unat y < 2 ^ Suc m"
  shows "r + 1 = 2 ^ Suc m"
  using smeared_mask [OF assms] by (simp add: mask_eq_exp_minus_1)

text \<open>A function that rounds up in this way, on the numbers from 1 to the highest power of two.\<close>

lemma round_up_pow:
  fixes f :: "'a::len word \<Rightarrow> 'a word"
  assumes f: "\<And>y m. 2 ^ m \<le> unat y \<Longrightarrow> unat y < 2 ^ Suc m \<Longrightarrow> f (y + 1) = 2 ^ Suc m" and one: "f 1 = 1"
    and x: "1 \<le> unat x" "unat x \<le> 2 ^ (LENGTH('a) - 1)"
  obtains k where "k < LENGTH('a)" "unat (f x) = 2 ^ k" "unat x \<le> 2 ^ k" "2 ^ k < 2 * unat x"
proof (cases "unat x = 1")
  case True
  then have "x = 1" by (simp add: word_unat_eq_iff)
  then show ?thesis by (intro that [of 0]) (simp_all add: one)
next
  case False
  define y where "y = x - 1"
  have y: "unat y = unat x - 1" using x(1) unfolding y_def by (metis unat_minus_one unat_0 not_one_le_zero)
  with False x have "1 \<le> unat y" by simp
  then obtain m where m: "2 ^ m \<le> unat y" "unat y < 2 ^ Suc m" using ex_power_ivl1 [of 2 "unat y"] by auto
  from m(1) y x have "2 ^ m < (2 ^ (LENGTH('a) - 1) :: nat)" by linarith
  then have small: "m < LENGTH('a) - 1" by (rule power_less_imp_less_exp [rotated]) simp
  have "f x = 2 ^ Suc m" using f [OF m] by (simp add: y_def)
  moreover have "unat (2 ^ Suc m :: 'a word) = 2 ^ Suc m" using small by (intro unat_power_two) simp
  ultimately show ?thesis using m y x small by (intro that [of "Suc m"]) auto
qed

end
