(* ===== verification/BipBuf.thy ===== *)
theory BipBuf
  imports ByteQueue RoundUp
begin

text \<open>
  \<^verbatim>\<open>src/base/bip_buf.c\<close>: the receive buffer of every connection. A buffer of twice the
  usable capacity holds one contiguous committed region (region A) and at most one
  reservation directly behind it; when the reservation does not fit behind region A, the
  region is copied to the front. The theory models every operation of the file (the
  substring search is in \<open>FastStrstr\<close>), proves that the well-formedness invariant is
  kept and that no operation runs into undefined behaviour, and relates the buffer to the
  byte queue it implements.
\<close>

section \<open>Rounding up to a power of two\<close>

definition next_power_of_two :: "32 word \<Rightarrow> 32 word" where
  "next_power_of_two x =
     (let x = x - 1;
          x = x OR drop_bit 1 x;
          x = x OR drop_bit 2 x;
          x = x OR drop_bit 4 x;
          x = x OR drop_bit 8 x;
          x = x OR drop_bit 16 x
      in x + 1)"

section \<open>The buffer\<close>

text \<open>
  \<open>struct bip_buf_s\<close>. \<open>bb_self\<close> and \<open>bb_block\<close> are the allocator's blocks of the struct
  and of \<open>_buffer\<close>; a pointer into the buffer is its offset.
\<close>

record bip_buf =
  bb_self :: blockid
  bb_block :: blockid
  bb_buffer :: "byte list"
  bb_available_capacity :: size_t
  bb_committed_sum :: cint
  bb_a_start :: size_t
  bb_a_end :: size_t
  bb_r_start :: size_t
  bb_r_end :: size_t

definition bip_buf_reset :: "bip_buf \<Rightarrow> bip_buf" where
  "bip_buf_reset bb = bb\<lparr>bb_a_start := 0, bb_a_end := 0, bb_r_start := 0, bb_r_end := 0\<rparr>"

definition bip_buf_create :: "(nat \<Rightarrow> byte) \<Rightarrow> size_t \<Rightarrow> mheap \<Rightarrow> bip_buf \<times> mheap" where
  "bip_buf_create junk capacity h =
     (let (self, h1) = heap_malloc h;
          (block, h2) = heap_malloc h1;
          bb = \<lparr>bb_self = self, bb_block = block,
                bb_buffer = malloc_bytes junk (unat (capacity * 2)),
                bb_available_capacity = capacity, bb_committed_sum = 0,
                bb_a_start = 0, bb_a_end = 0, bb_r_start = 0, bb_r_end = 0\<rparr>
      in (bip_buf_reset bb, h2))"

definition bip_buf_destroy :: "bip_buf \<Rightarrow> mheap \<Rightarrow> mheap option" where
  "bip_buf_destroy bb h = do { h1 \<leftarrow> heap_free h (bb_block bb); heap_free h1 (bb_self bb) }"

definition bip_buf_get_capacity :: "bip_buf \<Rightarrow> size_t" where
  "bip_buf_get_capacity bb = bb_available_capacity bb"

definition bip_buf_get_committed_size :: "bip_buf \<Rightarrow> size_t" where
  "bip_buf_get_committed_size bb = bb_a_end bb - bb_a_start bb"

definition bip_buf_is_empty :: "bip_buf \<Rightarrow> bool" where
  "bip_buf_is_empty bb \<longleftrightarrow> 0 = bip_buf_get_committed_size bb"

definition bip_buf_is_full :: "bip_buf \<Rightarrow> bool" where
  "bip_buf_is_full bb \<longleftrightarrow> bip_buf_get_capacity bb = bip_buf_get_committed_size bb"

definition bip_buf_get_committed_sum :: "bip_buf \<Rightarrow> cint \<Rightarrow> cint \<times> bip_buf" where
  "bip_buf_get_committed_sum bb reset =
     (bb_committed_sum bb,
      bb\<lparr>bb_committed_sum := (if 0 <s reset then 0 else bb_committed_sum bb)\<rparr>)"

definition bip_buf_get_reservation_size :: "bip_buf \<Rightarrow> size_t" where
  "bip_buf_get_reservation_size bb = bb_r_end bb - bb_r_start bb"

text \<open>The contiguous block as a pointer, that is, as an offset into \<open>_buffer\<close>.\<close>

definition bip_buf_get_contiguous_block :: "bip_buf \<Rightarrow> size_t" where
  "bip_buf_get_contiguous_block bb = bb_a_start bb"

text \<open>The code shared by both reservations: make room behind region A.\<close>

definition bip_buf_check_region_a :: "bip_buf \<Rightarrow> size_t \<Rightarrow> size_t \<Rightarrow> bip_buf option" where
  "bip_buf_check_region_a bb region_a_size sz =
     (if 0 = region_a_size then Some (bb\<lparr>bb_a_start := 0, bb_a_end := 0\<rparr>)
      else if bb_available_capacity bb + bb_available_capacity bb - bb_a_end bb < sz
      then do {
        buf \<leftarrow> memcpy_within (bb_buffer bb) 0 (unat (bb_a_start bb)) (unat region_a_size);
        Some (bb\<lparr>bb_buffer := buf, bb_a_start := 0, bb_a_end := region_a_size\<rparr>) }
      else Some bb)"

text \<open>
  \<open>bip_buf_reserve\<close> never reads \<open>*size\<close>; it returns the new \<open>*size\<close> and the pointer
  (\<open>None\<close> inside the pair is NULL).
\<close>

definition bip_buf_reserve :: "bip_buf \<Rightarrow> ((size_t option \<times> size_t) \<times> bip_buf) option" where
  "bip_buf_reserve bb =
     (if bip_buf_get_reservation_size bb > 0 then Some ((None, 0), bb)
      else let region_a_size = bip_buf_get_committed_size bb;
               freespace = bb_available_capacity bb - region_a_size
           in if 0 = freespace then Some ((None, 0), bb)
              else do {
                bb1 \<leftarrow> bip_buf_check_region_a bb region_a_size freespace;
                let bb2 = bb1\<lparr>bb_r_start := bb_a_end bb1, bb_r_end := bb_a_end bb1 + freespace\<rparr>;
                Some ((Some (bb_r_start bb2), freespace), bb2) })"

text \<open>
  \<open>bip_buf_force_reserve\<close> may reallocate; it takes and returns the allocator's state. In
  the first growing branch (nothing committed) the old buffer is not freed.
\<close>

definition bip_buf_grow :: "(nat \<Rightarrow> byte) \<Rightarrow> bip_buf \<Rightarrow> size_t \<Rightarrow> mheap \<Rightarrow> (bip_buf \<times> mheap) option" where
  "bip_buf_grow junk bb sz h =
     (let buf_size = bip_buf_get_committed_size bb;
          cap = from_u32 (next_power_of_two (to_u32 (bb_available_capacity bb + sz)));
          (block, h1) = heap_malloc h;
          fresh = malloc_bytes junk (unat (cap + cap))
      in if 0 = buf_size
         then Some (bb\<lparr>bb_available_capacity := cap, bb_buffer := fresh, bb_block := block,
                       bb_a_start := 0, bb_a_end := 0\<rparr>, h1)
         else do {
           bs \<leftarrow> read_at (bb_buffer bb) (unat (bb_a_start bb)) (unat buf_size);
           buf \<leftarrow> write_at fresh 0 bs;
           h2 \<leftarrow> heap_free h1 (bb_block bb);
           Some (bb\<lparr>bb_available_capacity := cap, bb_buffer := buf, bb_block := block,
                    bb_a_start := 0, bb_a_end := buf_size\<rparr>, h2) })"

definition bip_buf_force_reserve ::
  "(nat \<Rightarrow> byte) \<Rightarrow> bip_buf \<Rightarrow> size_t \<Rightarrow> mheap \<Rightarrow> (size_t option \<times> bip_buf \<times> mheap) option" where
  "bip_buf_force_reserve junk bb sz h =
     (if bip_buf_get_reservation_size bb > 0 \<or> 0 = sz then Some (None, bb, h)
      else let region_a_size = bip_buf_get_committed_size bb;
               freespace = bb_available_capacity bb - region_a_size
           in if 0 = freespace then Some (None, bb, h)
              else do {
                (bb1, h1) \<leftarrow> (if sz > freespace then bip_buf_grow junk bb sz h
                              else do { bb1 \<leftarrow> bip_buf_check_region_a bb region_a_size sz;
                                        Some (bb1, h) });
                let bb2 = bb1\<lparr>bb_r_start := bb_a_end bb1, bb_r_end := bb_a_end bb1 + sz\<rparr>;
                Some (Some (bb_r_start bb2), bb2, h1) })"

definition bip_buf_commit :: "bip_buf \<Rightarrow> size_t \<Rightarrow> bip_buf" where
  "bip_buf_commit bb sz =
     (let reservation_size = bip_buf_get_reservation_size bb;
          (bb1, size1) =
            (if reservation_size > 0
             then let size1 = (if sz > reservation_size then reservation_size else sz)
                  in (bb\<lparr>bb_a_end := bb_r_start bb + size1\<rparr>, size1)
             else (bb, sz))
      in bb1\<lparr>bb_r_start := 0, bb_r_end := 0,
             bb_committed_sum := bb_committed_sum bb1 + ucast size1\<rparr>)"

definition bip_buf_decommit :: "bip_buf \<Rightarrow> size_t \<Rightarrow> size_t \<times> bip_buf" where
  "bip_buf_decommit bb sz =
     (let committed_size = bip_buf_get_committed_size bb;
          bytes = (if sz \<ge> committed_size then committed_size else sz)
      in (bytes, bb\<lparr>bb_a_start := bb_a_start bb + bytes\<rparr>))"

text \<open>What a client does with a reservation: it stores bytes through the returned pointer.\<close>

definition bip_buf_store :: "bip_buf \<Rightarrow> size_t \<Rightarrow> byte list \<Rightarrow> bip_buf option" where
  "bip_buf_store bb ptr bs =
     do { buf \<leftarrow> write_at (bb_buffer bb) (unat ptr) bs; Some (bb\<lparr>bb_buffer := buf\<rparr>) }"

section \<open>Rounding up: correctness\<close>

lemma next_power_of_two_top:
  assumes "2 ^ m \<le> unat y" "unat y < 2 ^ Suc m"
  shows "next_power_of_two (y + 1) = 2 ^ Suc m"
proof -
  define x1 where "x1 = y OR drop_bit 1 y"
  define x2 where "x2 = x1 OR drop_bit 2 x1"
  define x4 where "x4 = x2 OR drop_bit 4 x2"
  define x8 where "x8 = x4 OR drop_bit 8 x4"
  define x16 where "x16 = x8 OR drop_bit 16 x8"
  have b1: "bit x1 i \<longleftrightarrow> (\<exists>j<2. bit y (i + j))" for i unfolding x1_def by (rule smear_first)
  have b2: "bit x2 i \<longleftrightarrow> (\<exists>j<4. bit y (i + j))" for i using smear_step [of x1 2 y i] b1 by (simp add: x2_def)
  have b4: "bit x4 i \<longleftrightarrow> (\<exists>j<8. bit y (i + j))" for i using smear_step [of x2 4 y i] b2 by (simp add: x4_def)
  have b8: "bit x8 i \<longleftrightarrow> (\<exists>j<16. bit y (i + j))" for i using smear_step [of x4 8 y i] b4 by (simp add: x8_def)
  have b16: "bit x16 i \<longleftrightarrow> (\<exists>j<LENGTH(32). bit y (i + j))" for i using smear_step [of x8 16 y i] b8 by (simp add: x16_def)
  have "next_power_of_two (y + 1) = x16 + 1" by (simp add: next_power_of_two_def x16_def x8_def x4_def x2_def x1_def Let_def)
  then show ?thesis using smeared_succ [OF b16 assms] by simp
qed

lemma next_power_of_two_pow:
  assumes "1 \<le> unat x" "unat x \<le> 2 ^ 31"
  obtains k where "k \<le> 31" "unat (next_power_of_two x) = 2 ^ k"
    "unat x \<le> 2 ^ k" "2 ^ k < 2 * unat x"
proof (rule round_up_pow [of next_power_of_two x])
  show "next_power_of_two (y + 1) = 2 ^ Suc m" if "2 ^ m \<le> unat y" "unat y < 2 ^ Suc m" for y m by (rule next_power_of_two_top [OF that])
  show "next_power_of_two 1 = 1" by (simp add: next_power_of_two_def)
  show "unat x \<le> 2 ^ (LENGTH(32) - 1)" using assms(2) by simp
qed (use assms(1) that in auto)

section \<open>Well-formedness and contents\<close>

definition bb_content :: "bip_buf \<Rightarrow> byte list" where
  "bb_content bb =
     take (unat (bip_buf_get_committed_size bb)) (drop (unat (bip_buf_get_contiguous_block bb)) (bb_buffer bb))"

definition bb_ok :: "bip_buf \<Rightarrow> bool" where
  "bb_ok bb \<longleftrightarrow>
     length (bb_buffer bb) = 2 * unat (bb_available_capacity bb) \<and>
     2 * unat (bb_available_capacity bb) < 2 ^ 64 \<and>
     unat (bb_a_start bb) \<le> unat (bb_a_end bb) \<and>
     unat (bb_a_end bb) \<le> 2 * unat (bb_available_capacity bb) \<and>
     unat (bb_a_end bb) - unat (bb_a_start bb) \<le> unat (bb_available_capacity bb) \<and>
     unat (bb_r_start bb) \<le> unat (bb_r_end bb) \<and>
     (unat (bb_r_start bb) < unat (bb_r_end bb) \<longrightarrow>
        bb_r_start bb = bb_a_end bb \<and>
        unat (bb_r_end bb) \<le> 2 * unat (bb_available_capacity bb) \<and>
        unat (bb_r_end bb) - unat (bb_a_start bb) \<le> unat (bb_available_capacity bb))"

text \<open>The numbers of bytes committed, reserved and free, as naturals.\<close>

abbreviation bb_cap :: "bip_buf \<Rightarrow> nat" where
  "bb_cap bb \<equiv> unat (bb_available_capacity bb)"

definition bb_reserved :: "bip_buf \<Rightarrow> nat" where
  "bb_reserved bb = unat (bip_buf_get_reservation_size bb)"

lemma committed_unat [bound_simps]:
  "bb_ok bb \<Longrightarrow> unat (bip_buf_get_committed_size bb) = unat (bb_a_end bb) - unat (bb_a_start bb)"
  by (simp add: bip_buf_get_committed_size_def bb_ok_def unat_diff_no_wrap size_le_iff)

lemma reserved_unat [bound_simps]:
  "bb_ok bb \<Longrightarrow> bb_reserved bb = unat (bb_r_end bb) - unat (bb_r_start bb)"
  by (simp add: bb_reserved_def bip_buf_get_reservation_size_def bb_ok_def unat_diff_no_wrap
      size_le_iff)

lemma length_bb_content [bound_simps]:
  "bb_ok bb \<Longrightarrow> length (bb_content bb) = unat (bb_a_end bb) - unat (bb_a_start bb)"
  by (auto simp: bb_content_def committed_unat bb_ok_def bip_buf_get_contiguous_block_def)

lemma bb_content_front:
  assumes "bb_a_start bb = 0" "bb_buffer bb = xs @ ys" "unat (bb_a_end bb) = length xs"
  shows "bb_content bb = xs"
  using assms
  by (simp add: bb_content_def bip_buf_get_committed_size_def bip_buf_get_contiguous_block_def)

lemma bb_content_le_cap: "bb_ok bb \<Longrightarrow> length (bb_content bb) \<le> bb_cap bb"
  by (simp add: length_bb_content) (simp add: bb_ok_def)

lemma free_unat [bound_simps]:
  assumes "bb_ok bb"
  shows "unat (bb_available_capacity bb - bip_buf_get_committed_size bb) =
         bb_cap bb - length (bb_content bb)"
proof -
  have "bip_buf_get_committed_size bb \<le> bb_available_capacity bb"
    using assms bb_content_le_cap [OF assms]
    by (simp add: size_le_iff committed_unat length_bb_content)
  then show ?thesis
    using assms by (simp add: unat_diff_no_wrap committed_unat length_bb_content)
qed

lemma reservation_pos: "bip_buf_get_reservation_size bb > 0 \<longleftrightarrow> bb_reserved bb > 0"
  by (simp add: bb_reserved_def word_less_nat_alt)

lemma bip_buf_create_ok:
  assumes "2 * unat capacity < 2 ^ 64" and "bip_buf_create junk capacity h = (bb, h')"
  shows "bb_ok bb" "bb_content bb = []" "bb_reserved bb = 0" "bb_available_capacity bb = capacity"
proof -
  have "unat (capacity * 2) = 2 * unat capacity"
    using assms(1) by (simp add: unat_word_ariths)
  with assms show "bb_ok bb" "bb_content bb = []" "bb_reserved bb = 0"
      "bb_available_capacity bb = capacity"
    by (auto simp: bip_buf_create_def bip_buf_reset_def bb_ok_def bb_content_def bb_reserved_def
        bip_buf_get_committed_size_def bip_buf_get_reservation_size_def Let_def
        split: prod.splits)
qed

lemma bip_buf_reset_ok:
  "bb_ok bb \<Longrightarrow> bb_ok (bip_buf_reset bb) \<and> bb_content (bip_buf_reset bb) = []"
  by (simp add: bb_ok_def bip_buf_reset_def bb_content_def bip_buf_get_committed_size_def)

section \<open>Making room behind region A\<close>

text \<open>
  The copy to the front happens only when region A lies wholly behind the middle of the
  buffer, so source and destination of the \<^verbatim>\<open>memcpy\<close> never overlap.
\<close>

lemma bip_buf_check_region_a_ok:
  assumes ok: "bb_ok bb" and nores: "bb_reserved bb = 0"
    and fits: "unat sz \<le> bb_cap bb - length (bb_content bb)"
  obtains bb1 where
    "bip_buf_check_region_a bb (bip_buf_get_committed_size bb) sz = Some bb1"
    "bb_ok bb1" "bb_content bb1 = bb_content bb" "bb_reserved bb1 = 0"
    "bb_available_capacity bb1 = bb_available_capacity bb"
    "unat (bb_a_end bb1) + unat sz \<le> 2 * bb_cap bb"
    "bb_self bb1 = bb_self bb" "bb_block bb1 = bb_block bb"
    "bb_committed_sum bb1 = bb_committed_sum bb"
proof -
  let ?n = "bip_buf_get_committed_size bb"
  let ?twice = "bb_available_capacity bb + bb_available_capacity bb"
  have n: "unat ?n = unat (bb_a_end bb) - unat (bb_a_start bb)" "length (bb_content bb) = unat ?n"
    using ok by (simp_all add: committed_unat length_bb_content)
  have twice: "unat (?twice - bb_a_end bb) = 2 * bb_cap bb - unat (bb_a_end bb)"
    using ok by (subst unat_diff_no_wrap)
      (auto simp: size_le_iff bb_ok_def)
  have r: "unat (bb_r_start bb) = unat (bb_r_end bb)"
    using ok nores by (simp add: reserved_unat) (simp add: bb_ok_def)
  note defs = bip_buf_check_region_a_def bb_ok_def bb_content_def bb_reserved_def
    bip_buf_get_committed_size_def bip_buf_get_reservation_size_def
    bip_buf_get_contiguous_block_def
  consider (empty) "unat ?n = 0"
    | (copy) "unat ?n \<noteq> 0" "2 * bb_cap bb - unat (bb_a_end bb) < unat sz"
    | (stay) "unat ?n \<noteq> 0" "\<not> 2 * bb_cap bb - unat (bb_a_end bb) < unat sz"
    by blast
  then show thesis
  proof cases
    case empty
    then show thesis
      using ok nores fits n r
      by (intro that [of "bb\<lparr>bb_a_start := 0, bb_a_end := 0\<rparr>"])
        (auto simp: defs word_unat_eq_iff)
  next
    case copy
    have far: "unat ?n \<le> unat (bb_a_start bb)" "unat ?n \<le> bb_cap bb"
      using copy fits n ok by (auto simp: bb_ok_def)
    let ?buf = "take (unat ?n) (drop (unat (bb_a_start bb)) (bb_buffer bb)) @
                drop (unat ?n) (bb_buffer bb)"
    have len: "unat (bb_a_start bb) + unat ?n \<le> length (bb_buffer bb)"
      using n ok by (auto simp: bb_ok_def)
    have cp: "memcpy_within (bb_buffer bb) 0 (unat (bb_a_start bb)) (unat ?n) = Some ?buf"
      using far len by (subst memcpy_within_Some) (auto simp: disjoint_regions_def)
    show thesis
    proof (rule that [of "bb\<lparr>bb_buffer := ?buf, bb_a_start := 0, bb_a_end := ?n\<rparr>"])
      show "bip_buf_check_region_a bb ?n sz =
          Some (bb\<lparr>bb_buffer := ?buf, bb_a_start := 0, bb_a_end := ?n\<rparr>)"
        using copy cp twice
        by (auto simp: bip_buf_check_region_a_def size_less_iff word_unat_eq_iff)
    qed (use ok nores r far len n fits in \<open>auto simp: defs\<close>)
  next
    case stay
    then show thesis
      using ok nores n twice
      by (intro that [of bb])
        (auto simp: bip_buf_check_region_a_def size_less_iff word_unat_eq_iff bb_ok_def)
  qed
qed

section \<open>Reservations\<close>

text \<open>Opening a reservation of \<open>sz\<close> bytes behind region A of a buffer with room for it.\<close>

lemma open_reservation_ok:
  assumes ok: "bb_ok bb" and sz: "0 < unat sz" "unat sz \<le> bb_cap bb - length (bb_content bb)"
    and room: "unat (bb_a_end bb) + unat sz \<le> 2 * bb_cap bb"
  defines "bb' \<equiv> bb\<lparr>bb_r_start := bb_a_end bb, bb_r_end := bb_a_end bb + sz\<rparr>"
  shows "bb_ok bb'" "bb_content bb' = bb_content bb" "bb_reserved bb' = unat sz"
proof -
  have e: "unat (bb_a_end bb + sz) = unat (bb_a_end bb) + unat sz"
    using ok room by (intro unat_add_no_wrap) (simp add: bb_ok_def)
  show ok': "bb_ok bb'"
    using ok sz room e length_bb_content [OF ok] by (auto simp: bb_ok_def bb'_def)
  show "bb_content bb' = bb_content bb"
    by (simp add: bb_content_def bip_buf_get_committed_size_def bip_buf_get_contiguous_block_def
        bb'_def)
  show "bb_reserved bb' = unat sz"
    using e by (simp add: reserved_unat [OF ok']) (simp add: bb'_def)
qed

lemma bip_buf_reserve_ok:
  assumes ok: "bb_ok bb" and nores: "bb_reserved bb = 0"
    and free: "length (bb_content bb) < bb_cap bb"
  obtains bb' where
    "bip_buf_reserve bb =
       Some ((Some (bb_r_start bb'), bb_available_capacity bb - bip_buf_get_committed_size bb), bb')"
    "bb_ok bb'" "bb_content bb' = bb_content bb"
    "bb_reserved bb' = bb_cap bb - length (bb_content bb)"
    "bb_available_capacity bb' = bb_available_capacity bb"
proof -
  let ?free = "bb_available_capacity bb - bip_buf_get_committed_size bb"
  have f: "unat ?free = bb_cap bb - length (bb_content bb)"
    by (rule free_unat [OF ok])
  obtain bb1 where c: "bip_buf_check_region_a bb (bip_buf_get_committed_size bb) ?free = Some bb1"
      and bb1: "bb_ok bb1" "bb_content bb1 = bb_content bb"
        "bb_available_capacity bb1 = bb_available_capacity bb"
        "unat (bb_a_end bb1) + unat ?free \<le> 2 * bb_cap bb"
    by (rule bip_buf_check_region_a_ok [OF ok nores, of ?free]) (use f in auto)
  let ?bb2 = "bb1\<lparr>bb_r_start := bb_a_end bb1, bb_r_end := bb_a_end bb1 + ?free\<rparr>"
  have args: "0 < unat ?free" "unat ?free \<le> bb_cap bb1 - length (bb_content bb1)"
      "unat (bb_a_end bb1) + unat ?free \<le> 2 * bb_cap bb1"
    using bb1 free f by simp_all
  note new = open_reservation_ok [OF bb1(1) args]
  have pos: "?free \<noteq> 0"
    using f free by (simp add: size_eq_iff)
  have nogt: "\<not> bip_buf_get_reservation_size bb > 0"
    using nores by (simp only: reservation_pos)
  show thesis
  proof (rule that [of ?bb2])
    show "bip_buf_reserve bb = Some ((Some (bb_r_start ?bb2), ?free), ?bb2)"
      using pos nogt by (simp add: bip_buf_reserve_def c Let_def)
  qed (use new bb1 f in simp_all)
qed

lemma bip_buf_reserve_refused:
  assumes "bb_ok bb" and "bb_reserved bb > 0 \<or> length (bb_content bb) = bb_cap bb"
  shows "bip_buf_reserve bb = Some ((None, 0), bb)"
proof -
  have "unat (bb_available_capacity bb - bip_buf_get_committed_size bb) =
      bb_cap bb - length (bb_content bb)"
    by (rule free_unat [OF assms(1)])
  then show ?thesis
    using assms(2) by (auto simp: bip_buf_reserve_def reservation_pos size_eq_iff)
qed

section \<open>Growing\<close>

lemma bip_buf_grow_ok:
  assumes ok: "bb_ok bb" and nores: "bb_reserved bb = 0" and pos: "0 < unat sz"
    and small: "bb_cap bb + unat sz \<le> 2 ^ 31"
    and live: "bb_block bb \<in> set (mh_live h)"
  obtains bb1 h1 k where
    "bip_buf_grow junk bb sz h = Some (bb1, h1)"
    "bb_ok bb1" "bb_content bb1 = bb_content bb"
    "bb_cap bb1 = 2 ^ k" "bb_cap bb + unat sz \<le> bb_cap bb1"
    "bb_cap bb1 < 2 * (bb_cap bb + unat sz)"
    "unat (bb_a_end bb1) = length (bb_content bb)"
    "bb_block bb1 = mh_next h" "bb_self bb1 = bb_self bb"
    "mh_live h1 = (if bb_content bb = [] then mh_next h # mh_live h
                   else remove1 (bb_block bb) (mh_next h # mh_live h))"
    "mh_next h1 = Suc (mh_next h)"
proof -
  let ?n = "bip_buf_get_committed_size bb"
  have sum: "unat (bb_available_capacity bb + sz) = bb_cap bb + unat sz"
    using small by (intro unat_add_no_wrap) simp
  then have u: "unat (to_u32 (bb_available_capacity bb + sz)) = bb_cap bb + unat sz"
    using small by (simp add: unat_to_u32)
  let ?cap = "from_u32 (next_power_of_two (to_u32 (bb_available_capacity bb + sz)))"
  obtain k where k: "k \<le> 31" "unat ?cap = 2 ^ k" "bb_cap bb + unat sz \<le> 2 ^ k"
      "2 ^ k < 2 * (bb_cap bb + unat sz)"
    using next_power_of_two_pow [of "to_u32 (bb_available_capacity bb + sz)"] pos small u
    by (metis add_leE le_add2 less_one not_le unat_from_u32 less_eq_Suc_le One_nat_def)
  have kk: "(2 :: nat) ^ k \<le> 2 ^ 31"
    using k(1) by (rule power_increasing) simp
  have twice: "unat (?cap + ?cap) = 2 * 2 ^ k"
    using k(2) kk unat_double [of ?cap] by (simp add: mult_2 [symmetric])
  have r: "unat (bb_r_start bb) = unat (bb_r_end bb)" "unat (bb_r_end bb - bb_r_start bb) = 0"
    using ok nores by (simp add: reserved_unat, simp add: bb_ok_def)
      (use nores in \<open>simp add: bb_reserved_def bip_buf_get_reservation_size_def\<close>)
  have n: "unat ?n = length (bb_content bb)" "length (bb_content bb) \<le> bb_cap bb"
    using ok bb_content_le_cap by (simp_all add: committed_unat length_bb_content)
  show thesis
  proof (cases "bb_content bb = []")
    case True
    then have n0: "?n = 0" using n by (simp add: size_eq_iff)
    show thesis
      by (rule that [of "bb\<lparr>bb_available_capacity := ?cap, bb_buffer := malloc_bytes junk (unat (?cap + ?cap)),
            bb_block := mh_next h, bb_a_start := 0, bb_a_end := 0\<rparr>" _ k])
        (use True n0 k kk twice r in \<open>auto simp: bip_buf_grow_def heap_malloc_def bb_ok_def
          bb_content_def bip_buf_get_committed_size_def\<close>)
  next
    case False
    let ?fresh = "malloc_bytes junk (unat (?cap + ?cap))"
    let ?buf = "bb_content bb @ drop (length (bb_content bb)) ?fresh"
    have n0: "?n \<noteq> 0" using False n by (simp add: size_eq_iff)
    have rd: "read_at (bb_buffer bb) (unat (bb_a_start bb)) (unat ?n) = Some (bb_content bb)"
      using ok by (auto simp: read_at_def bb_content_def committed_unat bb_ok_def
          bip_buf_get_contiguous_block_def)
    have wr: "write_at ?fresh 0 (bb_content bb) = Some ?buf"
      using n k twice by (simp add: write_at_def)
    let ?bb1 = "bb\<lparr>bb_available_capacity := ?cap, bb_buffer := ?buf, bb_block := mh_next h,
            bb_a_start := 0, bb_a_end := ?n\<rparr>"
    show thesis
    proof (rule that)
      show "bip_buf_grow junk bb sz h = Some (?bb1, h\<lparr>mh_next := Suc (mh_next h),
          mh_live := remove1 (bb_block bb) (mh_next h # mh_live h)\<rparr>)"
        using n0 live rd wr by (auto simp: bip_buf_grow_def heap_malloc_def heap_free_def Let_def)
      show "bb_content ?bb1 = bb_content bb"
        by (rule bb_content_front) (simp_all add: n)
      show "bb_ok ?bb1"
        using n k twice r kk by (auto simp: bb_ok_def)
    qed (use False n k in simp_all)
  qed
qed

lemma bip_buf_force_reserve_ok:
  assumes ok: "bb_ok bb" and nores: "bb_reserved bb = 0" and pos: "0 < unat sz"
    and free: "length (bb_content bb) < bb_cap bb"
    and small: "bb_cap bb + unat sz \<le> 2 ^ 31"
    and live: "bb_block bb \<in> set (mh_live h)"
  obtains bb' h' where
    "bip_buf_force_reserve junk bb sz h = Some (Some (bb_r_start bb'), bb', h')"
    "bb_ok bb'" "bb_content bb' = bb_content bb" "bb_reserved bb' = unat sz"
    "bb_cap bb \<le> bb_cap bb'" "bb_cap bb' < 2 * (bb_cap bb + unat sz)"
    "unat sz \<le> bb_cap bb - length (bb_content bb) \<longrightarrow>
       bb_cap bb' = bb_cap bb \<and> bb_block bb' = bb_block bb \<and> h' = h"
    "bb_cap bb - length (bb_content bb) < unat sz \<longrightarrow>
       (\<exists>k. bb_cap bb' = 2 ^ k) \<and> bb_block bb' = mh_next h \<and>
       mh_live h' = (if bb_content bb = [] then mh_next h # mh_live h
                     else remove1 (bb_block bb) (mh_next h # mh_live h))"
    "bb_self bb' = bb_self bb"
proof -
  let ?free = "bb_available_capacity bb - bip_buf_get_committed_size bb"
  let ?res = "\<lambda>bb1. bb1\<lparr>bb_r_start := bb_a_end bb1, bb_r_end := bb_a_end bb1 + sz\<rparr>"
  have f: "unat ?free = bb_cap bb - length (bb_content bb)"
    by (rule free_unat [OF ok])
  have pos': "?free \<noteq> 0" "sz \<noteq> 0" "\<not> bip_buf_get_reservation_size bb > 0"
    using f free pos nores by (simp_all add: size_eq_iff) (simp only: reservation_pos)
  show thesis
  proof (cases "unat sz \<le> bb_cap bb - length (bb_content bb)")
    case True
    obtain bb1 where c: "bip_buf_check_region_a bb (bip_buf_get_committed_size bb) sz = Some bb1"
        and bb1: "bb_ok bb1" "bb_content bb1 = bb_content bb"
          "bb_available_capacity bb1 = bb_available_capacity bb"
          "unat (bb_a_end bb1) + unat sz \<le> 2 * bb_cap bb"
          "bb_block bb1 = bb_block bb" "bb_self bb1 = bb_self bb"
      by (rule bip_buf_check_region_a_ok [OF ok nores True])
    have args: "unat sz \<le> bb_cap bb1 - length (bb_content bb1)"
        "unat (bb_a_end bb1) + unat sz \<le> 2 * bb_cap bb1"
      using bb1 True by simp_all
    note new = open_reservation_ok [OF bb1(1) pos args]
    show thesis
    proof (rule that [of "?res bb1" h])
      show "bip_buf_force_reserve junk bb sz h = Some (Some (bb_r_start (?res bb1)), ?res bb1, h)"
        using pos' True f
        by (simp add: bip_buf_force_reserve_def c Let_def size_less_iff)
    qed (use new bb1 pos True in simp_all)
  next
    case False
    obtain bb1 h1 k where g: "bip_buf_grow junk bb sz h = Some (bb1, h1)"
        and bb1: "bb_ok bb1" "bb_content bb1 = bb_content bb" "bb_cap bb1 = 2 ^ k"
          "bb_cap bb + unat sz \<le> bb_cap bb1" "bb_cap bb1 < 2 * (bb_cap bb + unat sz)"
          "unat (bb_a_end bb1) = length (bb_content bb)"
          "bb_block bb1 = mh_next h" "bb_self bb1 = bb_self bb"
        and h1: "mh_live h1 = (if bb_content bb = [] then mh_next h # mh_live h
                               else remove1 (bb_block bb) (mh_next h # mh_live h))"
      by (rule bip_buf_grow_ok [OF ok nores pos small live])
    have args: "unat sz \<le> bb_cap bb1 - length (bb_content bb1)"
        "unat (bb_a_end bb1) + unat sz \<le> 2 * bb_cap bb1"
      using bb1(2,4,6) free by simp_all
    note new = open_reservation_ok [OF bb1(1) pos args]
    have "?free < sz"
      using False f by (simp add: size_less_iff)
    then have "bip_buf_force_reserve junk bb sz h =
        Some (Some (bb_r_start (?res bb1)), ?res bb1, h1)"
      using pos' by (simp add: bip_buf_force_reserve_def g Let_def)
    then show thesis
      by (rule that) (use new bb1 h1 False in simp_all)
  qed
qed

lemma bip_buf_force_reserve_refused:
  assumes "bb_ok bb" and "bb_reserved bb > 0 \<or> sz = 0 \<or> length (bb_content bb) = bb_cap bb"
  shows "bip_buf_force_reserve junk bb sz h = Some (None, bb, h)"
proof -
  have "unat (bb_available_capacity bb - bip_buf_get_committed_size bb) =
      bb_cap bb - length (bb_content bb)"
    by (rule free_unat [OF assms(1)])
  then show ?thesis
    using assms(2) by (auto simp: bip_buf_force_reserve_def reservation_pos size_eq_iff)
qed

section \<open>Storing, committing and decommitting\<close>

lemma bip_buf_store_ok:
  assumes ok: "bb_ok bb" and fits: "length bs \<le> bb_reserved bb" and res: "0 < bb_reserved bb"
  obtains bb' where "bip_buf_store bb (bb_r_start bb) bs = Some bb'"
    "bb_ok bb'" "bb_content bb' = bb_content bb" "bb_reserved bb' = bb_reserved bb"
    "bb_available_capacity bb' = bb_available_capacity bb"
    "take (length bs) (drop (unat (bb_r_start bb')) (bb_buffer bb')) = bs"
    "bb_self bb' = bb_self bb" "bb_block bb' = bb_block bb"
proof -
  let ?r = "unat (bb_r_start bb)"
  let ?buf = "take ?r (bb_buffer bb) @ bs @ drop (?r + length bs) (bb_buffer bb)"
  have res': "?r < unat (bb_r_end bb)"
    using res by (simp add: reserved_unat [OF ok])
  then have r: "bb_r_start bb = bb_a_end bb" "unat (bb_r_end bb) \<le> length (bb_buffer bb)"
    using ok by (auto simp: bb_ok_def)
  have room: "?r + length bs \<le> length (bb_buffer bb)"
    using fits r res' by (simp add: reserved_unat [OF ok])
  show thesis
  proof (rule that [of "bb\<lparr>bb_buffer := ?buf\<rparr>"])
    show "bip_buf_store bb (bb_r_start bb) bs = Some (bb\<lparr>bb_buffer := ?buf\<rparr>)"
      using room by (simp add: bip_buf_store_def write_at_def)
    show "bb_ok (bb\<lparr>bb_buffer := ?buf\<rparr>)"
      using ok room by (simp add: bb_ok_def)
    show "bb_content (bb\<lparr>bb_buffer := ?buf\<rparr>) = bb_content bb"
      using ok room r
      by (simp add: bb_content_def bip_buf_get_committed_size_def
          bip_buf_get_contiguous_block_def unat_diff_no_wrap size_le_iff bb_ok_def drop_take)
  qed (use room in \<open>simp_all add: bb_reserved_def bip_buf_get_reservation_size_def\<close>)
qed

lemma bip_buf_commit_ok:
  assumes ok: "bb_ok bb" and n: "unat sz \<le> bb_reserved bb"
  shows "bb_ok (bip_buf_commit bb sz)"
    "bb_content (bip_buf_commit bb sz) =
       bb_content bb @ take (unat sz) (drop (unat (bb_r_start bb)) (bb_buffer bb))"
    "bb_reserved (bip_buf_commit bb sz) = 0"
    "bb_available_capacity (bip_buf_commit bb sz) = bb_available_capacity bb"
proof -
  show "bb_reserved (bip_buf_commit bb sz) = 0"
    "bb_available_capacity (bip_buf_commit bb sz) = bb_available_capacity bb"
    by (simp_all add: bip_buf_commit_def bb_reserved_def bip_buf_get_reservation_size_def Let_def)
  have "bb_ok (bip_buf_commit bb sz) \<and>
    bb_content (bip_buf_commit bb sz) =
       bb_content bb @ take (unat sz) (drop (unat (bb_r_start bb)) (bb_buffer bb))"
  proof (cases "bb_reserved bb = 0")
    case True
    then have "\<not> bip_buf_get_reservation_size bb > 0" by (simp add: reservation_pos)
    with True ok n show ?thesis
      by (simp add: bip_buf_commit_def bb_ok_def bb_content_def Let_def
          bip_buf_get_committed_size_def bip_buf_get_contiguous_block_def)
  next
    case False
    then have pos: "bip_buf_get_reservation_size bb > 0" by (simp add: reservation_pos)
    have le: "\<not> bip_buf_get_reservation_size bb < sz"
      using n by (simp add: size_less_iff bb_reserved_def)
    have r: "unat (bb_r_start bb) < unat (bb_r_end bb)"
      using False by (simp add: reserved_unat [OF ok])
    then have a: "bb_r_start bb = bb_a_end bb" "unat (bb_r_end bb) \<le> 2 * bb_cap bb"
        "unat (bb_r_end bb) - unat (bb_a_start bb) \<le> bb_cap bb"
      using ok by (auto simp: bb_ok_def)
    have fit: "unat (bb_a_end bb) + unat sz \<le> unat (bb_r_end bb)"
      using n r a by (simp add: reserved_unat [OF ok])
    then have e: "unat (bb_a_end bb + sz) = unat (bb_a_end bb) + unat sz"
      by (intro unat_add_no_wrap le_less_trans [OF fit]) simp
    have eq: "bip_buf_commit bb sz = bb\<lparr>bb_a_end := bb_a_end bb + sz, bb_r_start := 0,
        bb_r_end := 0, bb_committed_sum := bb_committed_sum bb + ucast sz\<rparr>"
      using pos le a by (simp add: bip_buf_commit_def Let_def)
    have ok': "bb_ok (bip_buf_commit bb sz)"
      using ok a fit e by (auto simp: eq bb_ok_def)
    have st: "unat (bb_a_start bb) \<le> unat (bb_a_end bb)" "length (bb_buffer bb) = 2 * bb_cap bb"
      using ok by (auto simp: bb_ok_def)
    have "bb_content (bip_buf_commit bb sz) =
        take (unat (bb_a_end bb) - unat (bb_a_start bb) + unat sz)
          (drop (unat (bb_a_start bb)) (bb_buffer bb))"
      using st e by (simp add: bb_content_def committed_unat [OF ok'])
        (simp add: eq bip_buf_get_contiguous_block_def)
    also have "\<dots> = bb_content bb @ take (unat sz) (drop (unat (bb_a_end bb)) (bb_buffer bb))"
      using st fit a
      by (subst take_drop_append_region)
        (auto simp: bb_content_def committed_unat [OF ok] bip_buf_get_contiguous_block_def)
    finally show ?thesis using ok' a by simp
  qed
  then show "bb_ok (bip_buf_commit bb sz)"
    "bb_content (bip_buf_commit bb sz) =
       bb_content bb @ take (unat sz) (drop (unat (bb_r_start bb)) (bb_buffer bb))"
    by blast+
qed

lemma bip_buf_decommit_ok:
  assumes ok: "bb_ok bb" and d: "bip_buf_decommit bb sz = (n, bb')"
  shows "bb_ok bb'" "bb_content bb' = drop (unat sz) (bb_content bb)"
    "unat n = min (unat sz) (length (bb_content bb))" "bb_reserved bb' = bb_reserved bb"
    "bb_available_capacity bb' = bb_available_capacity bb"
proof -
  have n: "unat n = min (unat sz) (unat (bip_buf_get_committed_size bb))"
    using d by (auto simp: bip_buf_decommit_def Let_def size_le_iff split: if_splits)
  then show len: "unat n = min (unat sz) (length (bb_content bb))"
    using ok by (simp add: committed_unat length_bb_content)
  have eq: "bb' = bb\<lparr>bb_a_start := bb_a_start bb + n\<rparr>"
    using d by (auto simp: bip_buf_decommit_def Let_def)
  have le: "unat (bb_a_start bb) + unat n \<le> unat (bb_a_end bb)"
    using n ok committed_unat [OF ok] by (auto simp: bb_ok_def)
  then have s: "unat (bb_a_start bb + n) = unat (bb_a_start bb) + unat n"
    by (intro unat_add_no_wrap le_less_trans [OF le]) simp
  show ok': "bb_ok bb'"
    using ok le s by (auto simp: eq bb_ok_def)
  have "bb_content bb' = take (unat (bb_a_end bb) - (unat (bb_a_start bb) + unat n))
      (drop (unat (bb_a_start bb) + unat n) (bb_buffer bb))"
    using s by (simp add: bb_content_def committed_unat [OF ok'])
      (simp add: eq bip_buf_get_contiguous_block_def)
  also have "\<dots> = drop (unat n) (bb_content bb)"
    by (simp add: bb_content_def committed_unat [OF ok] bip_buf_get_contiguous_block_def
        drop_take add.commute)
  also have "\<dots> = drop (unat sz) (bb_content bb)"
    by (simp add: len min_def)
  finally show "bb_content bb' = drop (unat sz) (bb_content bb)" .
  show "bb_reserved bb' = bb_reserved bb" "bb_available_capacity bb' = bb_available_capacity bb"
    by (simp_all add: eq bb_reserved_def bip_buf_get_reservation_size_def)
qed

section \<open>One read of the socket\<close>

text \<open>
  What the read callbacks do with the buffer: \<^verbatim>\<open>alloc_cb\<close> reserves all free space, the
  event loop stores the received bytes there (at most as many as were reserved), and the
  read callback commits them.
\<close>

definition bip_buf_fill :: "bip_buf \<Rightarrow> byte list \<Rightarrow> bip_buf option" where
  "bip_buf_fill bb bs = do {
     ((ptr, len), bb1) \<leftarrow> bip_buf_reserve bb;
     (case ptr of None \<Rightarrow> None
      | Some p \<Rightarrow>
          if unat len < length bs then None
          else do { bb2 \<leftarrow> bip_buf_store bb1 p bs;
                    Some (bip_buf_commit bb2 (word_of_nat (length bs))) }) }"

definition bb_idle :: "bip_buf \<Rightarrow> bool" where
  "bb_idle bb \<longleftrightarrow> bb_ok bb \<and> bb_reserved bb = 0"

definition bb_discard :: "bip_buf \<Rightarrow> nat \<Rightarrow> bip_buf" where
  "bb_discard bb n = snd (bip_buf_decommit bb (word_of_nat n))"

lemma unat_length_content:
  assumes "bb_ok bb" "n \<le> bb_cap bb"
  shows "unat (word_of_nat n :: size_t) = n"
  using assms by (auto simp: unsigned_of_nat bb_ok_def intro!: take_bit_nat_eq_self)

lemma bip_buf_fill_ok:
  assumes "bb_idle bb" and "bs \<noteq> []" and fits: "length (bb_content bb) + length bs \<le> bb_cap bb"
  shows "\<exists>bb'. bip_buf_fill bb bs = Some bb' \<and> bb_idle bb' \<and>
    bb_content bb' = bb_content bb @ bs \<and> bb_available_capacity bb' = bb_available_capacity bb"
proof -
  have ok: "bb_ok bb" and nores: "bb_reserved bb = 0"
    using assms(1) by (auto simp: bb_idle_def)
  have "length (bb_content bb) < bb_cap bb"
    using assms(2) fits by (cases bs) auto
  then obtain bb1 where r: "bip_buf_reserve bb =
        Some ((Some (bb_r_start bb1), bb_available_capacity bb - bip_buf_get_committed_size bb), bb1)"
      and bb1: "bb_ok bb1" "bb_content bb1 = bb_content bb"
        "bb_reserved bb1 = bb_cap bb - length (bb_content bb)"
        "bb_available_capacity bb1 = bb_available_capacity bb"
    using bip_buf_reserve_ok [OF ok nores] by blast
  have len: "length bs \<le> bb_reserved bb1" "0 < bb_reserved bb1"
    using bb1(3) fits assms(2) by (cases bs; simp)+
  obtain bb2 where s: "bip_buf_store bb1 (bb_r_start bb1) bs = Some bb2"
      and bb2: "bb_ok bb2" "bb_content bb2 = bb_content bb1" "bb_reserved bb2 = bb_reserved bb1"
        "bb_available_capacity bb2 = bb_available_capacity bb1"
        "take (length bs) (drop (unat (bb_r_start bb2)) (bb_buffer bb2)) = bs"
    by (rule bip_buf_store_ok [OF bb1(1) len])
  have u: "unat (word_of_nat (length bs) :: size_t) = length bs"
    by (rule unat_length_content [OF ok]) (use fits in simp)
  have le: "unat (word_of_nat (length bs) :: size_t) \<le> bb_reserved bb2"
    using u len bb2 by simp
  note c = bip_buf_commit_ok [OF bb2(1) le]
  have "bip_buf_fill bb bs = Some (bip_buf_commit bb2 (word_of_nat (length bs)))"
    using len bb1(3) by (simp add: bip_buf_fill_def r s free_unat [OF ok])
  with c u bb1 bb2 show ?thesis by (simp add: bb_idle_def)
qed

lemma bb_discard_ok:
  assumes "bb_idle bb" and "n \<le> length (bb_content bb)"
  shows "bb_idle (bb_discard bb n) \<and> bb_content (bb_discard bb n) = drop n (bb_content bb) \<and>
    bb_available_capacity (bb_discard bb n) = bb_available_capacity bb"
proof -
  have ok: "bb_ok bb" using assms(1) by (simp add: bb_idle_def)
  have u: "unat (word_of_nat n :: size_t) = n"
    by (rule unat_length_content [OF ok]) (use assms(2) bb_content_le_cap [OF ok] in simp)
  obtain k bb' where d: "bip_buf_decommit bb (word_of_nat n) = (k, bb')"
    by (cases "bip_buf_decommit bb (word_of_nat n)")
  show ?thesis
    using bip_buf_decommit_ok [OF ok d] assms(1) u d by (simp add: bb_discard_def bb_idle_def)
qed

interpretation bq: byte_queue bb_idle bb_content bb_cap bip_buf_fill bb_discard
proof unfold_locales
  show "length (bb_content b) \<le> bb_cap b" if "bb_idle b" for b
    using that bb_content_le_cap by (simp add: bb_idle_def)
next
  fix b :: bip_buf and xs :: "byte list"
  assume "bb_idle b" "xs \<noteq> []" "length (bb_content b) + length xs \<le> bb_cap b"
  from bip_buf_fill_ok [OF this] show
    "\<exists>b'. bip_buf_fill b xs = Some b' \<and> bb_idle b' \<and> bb_content b' = bb_content b @ xs \<and>
      bb_cap b' = bb_cap b" by auto
next
  fix b :: bip_buf and n
  assume "bb_idle b" "n \<le> length (bb_content b)"
  from bb_discard_ok [OF this] show "bb_idle (bb_discard b n) \<and>
      bb_content (bb_discard b n) = drop n (bb_content b) \<and> bb_cap (bb_discard b n) = bb_cap b"
    by simp
qed

section \<open>Every use of a buffer\<close>

lemma bip_buf_commit_any_ok:
  assumes ok: "bb_ok bb"
  shows "bb_ok (bip_buf_commit bb sz) \<and> bb_reserved (bip_buf_commit bb sz) = 0 \<and>
    bb_content (bip_buf_commit bb sz) =
      bb_content bb @ take (min (unat sz) (bb_reserved bb)) (drop (unat (bb_r_start bb)) (bb_buffer bb))"
proof (cases "unat sz \<le> bb_reserved bb")
  case True
  with bip_buf_commit_ok [OF ok True] show ?thesis by (simp add: min_def)
next
  case False
  let ?r = "bip_buf_get_reservation_size bb"
  show ?thesis
  proof (cases "bb_reserved bb = 0")
    case True
    then have "\<not> ?r > 0" by (simp add: reservation_pos)
    with True ok show ?thesis
      by (simp add: bip_buf_commit_def bb_ok_def bb_content_def Let_def bb_reserved_def
          bip_buf_get_committed_size_def bip_buf_get_contiguous_block_def
          bip_buf_get_reservation_size_def)
  next
    case pos: False
    have "sz > ?r" using False by (simp add: size_less_iff bb_reserved_def)
    then have "bip_buf_commit bb sz = bip_buf_commit bb ?r"
      using pos by (simp add: bip_buf_commit_def Let_def reservation_pos)
    moreover have "unat ?r = bb_reserved bb" by (simp add: bb_reserved_def)
    ultimately show ?thesis
      using bip_buf_commit_ok [OF ok, of ?r] False by (simp add: min_def)
  qed
qed

text \<open>
  The calls a client can make, as a step relation on the buffer and the allocator: a
  reservation is filled through the returned pointer and only up to its size, and a forced
  reservation asks for at most \<open>2 ^ 31\<close> bytes in all, the range of the rounding.
\<close>

inductive bb_step :: "(nat \<Rightarrow> byte) \<Rightarrow> bip_buf \<times> mheap \<Rightarrow> bip_buf \<times> mheap \<Rightarrow> bool" for junk where
  reserve: "bip_buf_reserve bb = Some (res, bb') \<Longrightarrow> bb_step junk (bb, h) (bb', h)"
| force_reserve: "bip_buf_force_reserve junk bb sz h = Some (res, bb', h') \<Longrightarrow>
    bb_cap bb + unat sz \<le> 2 ^ 31 \<Longrightarrow> bb_step junk (bb, h) (bb', h')"
| store: "0 < bb_reserved bb \<Longrightarrow> length bs \<le> bb_reserved bb \<Longrightarrow>
    bip_buf_store bb (bb_r_start bb) bs = Some bb' \<Longrightarrow> bb_step junk (bb, h) (bb', h)"
| commit: "bb_step junk (bb, h) (bip_buf_commit bb sz, h)"
| decommit: "bip_buf_decommit bb sz = (n, bb') \<Longrightarrow> bb_step junk (bb, h) (bb', h)"
| get_sum: "bip_buf_get_committed_sum bb r = (n, bb') \<Longrightarrow> bb_step junk (bb, h) (bb', h)"
| reset: "bb_step junk (bb, h) (bip_buf_reset bb, h)"

inductive bb_reach :: "(nat \<Rightarrow> byte) \<Rightarrow> size_t \<Rightarrow> mheap \<Rightarrow> bip_buf \<times> mheap \<Rightarrow> bool"
  for junk capacity h0 where
  create: "bb_reach junk capacity h0 (bip_buf_create junk capacity h0)"
| step: "bb_reach junk capacity h0 s \<Longrightarrow> bb_step junk s t \<Longrightarrow> bb_reach junk capacity h0 t"

definition bb_inv :: "bip_buf \<times> mheap \<Rightarrow> bool" where
  "bb_inv s \<longleftrightarrow> bb_ok (fst s) \<and> heap_ok (snd s) \<and>
     bb_self (fst s) \<in> set (mh_live (snd s)) \<and> bb_block (fst s) \<in> set (mh_live (snd s)) \<and>
     bb_self (fst s) \<noteq> bb_block (fst s)"

lemma bip_buf_create_inv:
  assumes "heap_ok h" "2 * unat capacity < 2 ^ 64"
  shows "bb_inv (bip_buf_create junk capacity h)"
proof -
  obtain bb h' where e: "bip_buf_create junk capacity h = (bb, h')" by fastforce
  have "bb_ok bb" by (rule bip_buf_create_ok(1) [OF assms(2) e])
  moreover have "mh_next h \<notin> set (mh_live h)" "Suc (mh_next h) \<notin> set (mh_live h)"
    using assms(1) by (fastforce simp: heap_ok_def)+
  ultimately show ?thesis using e assms(1)
    by (auto simp: bb_inv_def bip_buf_create_def bip_buf_reset_def heap_malloc_def heap_ok_def
        less_Suc_eq)
qed

lemma bip_buf_reserve_total:
  assumes "bb_ok bb"
  obtains res bb' where "bip_buf_reserve bb = Some (res, bb')" "bb_ok bb'"
    "bb_self bb' = bb_self bb" "bb_block bb' = bb_block bb"
proof (cases "bb_reserved bb > 0 \<or> length (bb_content bb) = bb_cap bb")
  case True
  with bip_buf_reserve_refused [OF assms True] assms that show ?thesis by blast
next
  case False
  then have n: "bb_reserved bb = 0" "length (bb_content bb) < bb_cap bb"
    using bb_content_le_cap [OF assms] by auto
  obtain bb' where r: "bip_buf_reserve bb = Some ((Some (bb_r_start bb'),
      bb_available_capacity bb - bip_buf_get_committed_size bb), bb')" "bb_ok bb'"
    using bip_buf_reserve_ok [OF assms n] by blast
  moreover have "bb_self bb' = bb_self bb" "bb_block bb' = bb_block bb"
    using r(1) by (auto simp: bip_buf_reserve_def bip_buf_check_region_a_def Let_def
        bind_eq_Some_conv split: if_splits)
  ultimately show ?thesis using that by blast
qed

lemma bip_buf_force_reserve_total:
  assumes "bb_inv (bb, h)" "bb_cap bb + unat sz \<le> 2 ^ 31"
  obtains res bb' h' where "bip_buf_force_reserve junk bb sz h = Some (res, bb', h')"
    "bb_inv (bb', h')"
proof (cases "bb_reserved bb > 0 \<or> sz = 0 \<or> length (bb_content bb) = bb_cap bb")
  case True
  with bip_buf_force_reserve_refused [of bb sz junk h] assms that show ?thesis
    by (auto simp: bb_inv_def)
next
  case False
  have inv: "bb_ok bb" "heap_ok h" "bb_self bb \<in> set (mh_live h)" "bb_block bb \<in> set (mh_live h)"
      "bb_self bb \<noteq> bb_block bb"
    using assms(1) by (auto simp: bb_inv_def)
  have n: "bb_reserved bb = 0" "0 < unat sz" "length (bb_content bb) < bb_cap bb"
    using False bb_content_le_cap [OF inv(1)] by (auto simp: size_eq_iff)
  have fresh: "mh_next h \<notin> set (mh_live h)" using inv(2) by (auto simp: heap_ok_def)
  obtain bb' h' where r: "bip_buf_force_reserve junk bb sz h = Some (Some (bb_r_start bb'), bb', h')"
      and ok: "bb_ok bb'" and self: "bb_self bb' = bb_self bb"
      and small: "unat sz \<le> bb_cap bb - length (bb_content bb) \<longrightarrow>
        bb_cap bb' = bb_cap bb \<and> bb_block bb' = bb_block bb \<and> h' = h"
      and grown: "bb_cap bb - length (bb_content bb) < unat sz \<longrightarrow>
        (\<exists>k. bb_cap bb' = 2 ^ k) \<and> bb_block bb' = mh_next h \<and>
        mh_live h' = (if bb_content bb = [] then mh_next h # mh_live h
                      else remove1 (bb_block bb) (mh_next h # mh_live h))"
    by (rule bip_buf_force_reserve_ok [OF inv(1) n assms(2) inv(4)])
  have "bb_inv (bb', h')"
  proof (cases "unat sz \<le> bb_cap bb - length (bb_content bb)")
    case True
    with small ok self inv show ?thesis by (simp add: bb_inv_def)
  next
    case False
    then have g: "bb_block bb' = mh_next h" "mh_live h' = (if bb_content bb = [] then mh_next h # mh_live h
                      else remove1 (bb_block bb) (mh_next h # mh_live h))"
      using grown by auto
    have "mh_next h' = Suc (mh_next h)"
      using r n False free_unat [OF inv(1)]
      by (auto simp: bip_buf_force_reserve_def bip_buf_grow_def heap_malloc_def reservation_pos
          heap_free_def Let_def bind_eq_Some_conv size_less_iff size_eq_iff split: if_splits)
    with g ok self inv fresh show ?thesis
      by (auto simp: bb_inv_def heap_ok_def less_Suc_eq)
  qed
  with r show ?thesis using that by blast
qed

lemma bb_step_inv:
  assumes "bb_step junk s t" "bb_inv s"
  shows "bb_inv t"
  using assms
proof (induction rule: bb_step.induct)
  case (reserve bb res bb' h)
  from reserve(2) have "bb_ok bb" by (simp add: bb_inv_def)
  then obtain res2 bb2 where "bip_buf_reserve bb = Some (res2, bb2)" "bb_ok bb2"
      "bb_self bb2 = bb_self bb" "bb_block bb2 = bb_block bb"
    by (rule bip_buf_reserve_total)
  with reserve show ?case by (simp add: bb_inv_def)
next
  case (force_reserve bb sz h res bb' h')
  obtain res2 bb2 h2 where "bip_buf_force_reserve junk bb sz h = Some (res2, bb2, h2)"
      "bb_inv (bb2, h2)"
    using bip_buf_force_reserve_total [OF force_reserve(3,2)] by blast
  with force_reserve(1) show ?case by simp
next
  case (store bb bs bb' h)
  from store(4) have "bb_ok bb" by (simp add: bb_inv_def)
  then obtain bb2 where "bip_buf_store bb (bb_r_start bb) bs = Some bb2" "bb_ok bb2"
      "bb_self bb2 = bb_self bb" "bb_block bb2 = bb_block bb"
    using bip_buf_store_ok [OF _ store(2,1)] by metis
  with store show ?case by (simp add: bb_inv_def)
next
  case (commit bb h sz)
  moreover have "bb_self (bip_buf_commit bb sz) = bb_self bb"
      "bb_block (bip_buf_commit bb sz) = bb_block bb"
    by (simp_all add: bip_buf_commit_def Let_def)
  ultimately show ?case using bip_buf_commit_any_ok [of bb sz] by (simp add: bb_inv_def)
next
  case (decommit bb sz n bb' h)
  moreover have "bb_self bb' = bb_self bb" "bb_block bb' = bb_block bb"
    using decommit(1) by (auto simp: bip_buf_decommit_def Let_def)
  ultimately show ?case using bip_buf_decommit_ok [of bb sz n bb'] by (simp add: bb_inv_def)
next
  case (get_sum bb r n bb' h)
  then show ?case by (auto simp: bip_buf_get_committed_sum_def bb_inv_def bb_ok_def)
next
  case (reset bb h)
  then show ?case using bip_buf_reset_ok [of bb] by (simp add: bb_inv_def bip_buf_reset_def)
qed

lemma bb_reach_inv:
  assumes "bb_reach junk capacity h0 s" "heap_ok h0" "2 * unat capacity < 2 ^ 64"
  shows "bb_inv s"
  using assms
  by (induction rule: bb_reach.induct) (auto intro: bip_buf_create_inv bb_step_inv)

lemma bip_buf_destroy_ok:
  assumes "bb_inv (bb, h)"
  shows "\<exists>h'. bip_buf_destroy bb h = Some h' \<and>
    set (mh_live h') = set (mh_live h) - {bb_self bb, bb_block bb}"
proof -
  have inv: "heap_ok h" "bb_self bb \<in> set (mh_live h)" "bb_block bb \<in> set (mh_live h)"
      "bb_self bb \<noteq> bb_block bb"
    using assms by (auto simp: bb_inv_def)
  obtain h1 where h1: "heap_free h (bb_block bb) = Some h1"
    using inv by (simp add: heap_free_def)
  note l1 = heap_free_live [OF inv(1) h1] heap_free_ok [OF inv(1) h1]
  obtain h2 where h2: "heap_free h1 (bb_self bb) = Some h2"
    using l1 inv by (simp add: heap_free_def)
  show ?thesis
    using heap_free_live [OF l1(2) h2] l1 h1 h2 by (auto simp: bip_buf_destroy_def)
qed

section \<open>Properties\<close>



text \<open>
  C6. Refinement to a byte queue: a read of the socket (reserve, store, commit) that fits
  appends exactly the received bytes to the committed bytes and keeps the capacity, and a
  decommit of any size then removes that many bytes from the front and reports how many.
\<close>

theorem bip_buf_fifo:
  assumes "bb_idle bb" and "bs \<noteq> []" and "length (bb_content bb) + length bs \<le> bb_cap bb"
  shows "\<exists>bb'. bip_buf_fill bb bs = Some bb' \<and> bb_idle bb' \<and>
    bb_content bb' = bb_content bb @ bs \<and> bb_cap bb' = bb_cap bb \<and>
    (\<forall>n. bb_content (snd (bip_buf_decommit bb' n)) = drop (unat n) (bb_content bb @ bs) \<and>
         unat (fst (bip_buf_decommit bb' n)) = min (unat n) (length (bb_content bb @ bs)))"
proof -
  obtain bb' where bb': "bip_buf_fill bb bs = Some bb'" "bb_idle bb'"
      "bb_content bb' = bb_content bb @ bs" "bb_cap bb' = bb_cap bb"
    using bq.fill_ok [OF assms] by auto
  have "bb_content (snd (bip_buf_decommit bb' n)) = drop (unat n) (bb_content bb') \<and>
      unat (fst (bip_buf_decommit bb' n)) = min (unat n) (length (bb_content bb'))" for n
    using bip_buf_decommit_ok [of bb' n "fst (bip_buf_decommit bb' n)" "snd (bip_buf_decommit bb' n)"]
      bb'(2)
    by (simp add: bb_idle_def)
  with bb' show ?thesis by auto
qed

lemma bip_buf_fifo_witness:
  "\<exists>bb bb'. bip_buf_fill bb [1, 2, 3] = Some bb' \<and> bb_content bb' = [1, 2, 3] \<and>
     bb_content (snd (bip_buf_decommit bb' 2)) = [3]"
proof -
  obtain bb h where c: "bip_buf_create (\<lambda>_. 0) 4 \<lparr>mh_next = 0, mh_live = []\<rparr> = (bb, h)"
    by fastforce
  have "bb_idle bb" "bb_content bb = []" "bb_cap bb = 4"
    using bip_buf_create_ok [OF _ c] by (simp_all add: bb_idle_def)
  with bip_buf_fifo [of bb "[1, 2, 3]"] show ?thesis by force
qed

text \<open>
  What a reservation returns: with no reservation open and the buffer not full, all
  the free space is reserved and the committed bytes are unchanged, and otherwise nothing
  is reserved, NULL is returned and the buffer is left as it is.
\<close>

theorem bip_buf_reserve_exact:
  assumes "bb_ok bb"
  shows "if bb_reserved bb > 0 \<or> length (bb_content bb) = bb_cap bb
    then bip_buf_reserve bb = Some ((None, 0), bb)
    else \<exists>len bb'. bip_buf_reserve bb = Some ((Some (bb_r_start bb'), len), bb') \<and>
      unat len = bb_cap bb - length (bb_content bb) \<and> bb_reserved bb' = unat len \<and>
      bb_ok bb' \<and> bb_content bb' = bb_content bb \<and> bb_cap bb' = bb_cap bb"
proof (cases "bb_reserved bb > 0 \<or> length (bb_content bb) = bb_cap bb")
  case True
  with bip_buf_reserve_refused [OF assms True] show ?thesis by simp
next
  case False
  then have "bb_reserved bb = 0" "length (bb_content bb) < bb_cap bb"
    using bb_content_le_cap [OF assms] by auto
  from bip_buf_reserve_ok [OF assms this] False show ?thesis
    by (metis free_unat [OF assms])
qed

lemma bip_buf_reserve_exact_witness:
  "\<exists>bb len bb'. bb_ok bb \<and> bip_buf_reserve bb = Some ((Some (bb_r_start bb'), len), bb') \<and> unat len = 4"
proof -
  obtain bb h where c: "bip_buf_create (\<lambda>_. 0) 4 \<lparr>mh_next = 0, mh_live = []\<rparr> = (bb, h)"
    by fastforce
  have "bb_ok bb" "bb_content bb = []" "bb_reserved bb = 0" "bb_cap bb = 4"
    using bip_buf_create_ok [OF _ c] by simp_all
  with bip_buf_reserve_exact [of bb] show ?thesis by auto
qed

text \<open>
  A forced reservation of an idle buffer that is not full reserves exactly the size
  asked for and keeps the committed bytes. It grows the buffer only when the free space is
  too small, and then to the power of two that holds the old capacity and the size.
\<close>

theorem bip_buf_force_reserve_exact:
  assumes "bb_ok bb" and "bb_reserved bb = 0" and "0 < unat sz"
    and "length (bb_content bb) < bb_cap bb" and "bb_cap bb + unat sz \<le> 2 ^ 31"
    and "bb_block bb \<in> set (mh_live h)"
  shows "\<exists>bb' h'. bip_buf_force_reserve junk bb sz h = Some (Some (bb_r_start bb'), bb', h') \<and>
    bb_ok bb' \<and> bb_content bb' = bb_content bb \<and> bb_reserved bb' = unat sz \<and>
    (if unat sz \<le> bb_cap bb - length (bb_content bb) then bb_cap bb' = bb_cap bb
     else (\<exists>k. bb_cap bb' = 2 ^ k) \<and> bb_cap bb' < 2 * (bb_cap bb + unat sz))"
  using bip_buf_force_reserve_ok [OF assms] by (metis not_le)

lemma bip_buf_force_reserve_exact_witness:
  "\<exists>bb h bb' h'. bb_cap bb = 4 \<and>
     bip_buf_force_reserve (\<lambda>_. 0) bb 10 h = Some (Some (bb_r_start bb'), bb', h') \<and>
     bb_reserved bb' = 10"
proof -
  let ?h0 = "\<lparr>mh_next = 0, mh_live = []\<rparr> :: mheap"
  obtain bb h where c: "bip_buf_create (\<lambda>_. 0) 4 ?h0 = (bb, h)" by fastforce
  have "bb_inv (bb, h)"
    using bip_buf_create_inv [of ?h0 4 "\<lambda>_. 0"] c by (simp add: heap_ok_def)
  moreover have "bb_ok bb" "bb_content bb = []" "bb_reserved bb = 0" "bb_cap bb = 4"
    using bip_buf_create_ok [OF _ c] by simp_all
  ultimately show ?thesis
    using bip_buf_force_reserve_exact [of bb 10 h "\<lambda>_. 0"] by (auto simp: bb_inv_def)
qed

text \<open>
  A forced reservation of a full buffer is refused whatever its size: the check for
  free space comes before the code that would expand the buffer.
\<close>

theorem bip_buf_force_reserve_full:
  assumes "bb_ok bb" and "length (bb_content bb) = bb_cap bb"
  shows "bip_buf_force_reserve junk bb sz h = Some (None, bb, h)"
  using assms by (intro bip_buf_force_reserve_refused) simp_all

lemma bip_buf_force_reserve_full_witness:
  "\<exists>bb h. bb_cap bb = 2 \<and> bip_buf_force_reserve (\<lambda>_. 0) bb 100 h = Some (None, bb, h)"
proof -
  obtain bb h where c: "bip_buf_create (\<lambda>_. 0) 2 \<lparr>mh_next = 0, mh_live = []\<rparr> = (bb, h)"
    by fastforce
  have "bb_idle bb" "bb_content bb = []" "bb_cap bb = 2"
    using bip_buf_create_ok [OF _ c] by (simp_all add: bb_idle_def)
  with bip_buf_fill_ok [of bb "[7, 8]"] obtain bb' where
    "bb_idle bb'" "bb_content bb' = [7, 8]" "bb_cap bb' = 2" by force
  then show ?thesis
    using bip_buf_force_reserve_full [of bb'] by (auto simp: bb_idle_def)
qed

text \<open>
  Growing an empty buffer loses its old block: after the forced reservation and even
  after the buffer is destroyed, the block that held the old buffer is still allocated,
  although nothing refers to it.
\<close>

theorem bip_buf_grow_empty_leaks:
  assumes "bb_inv (bb, h)" and "bb_content bb = []" and "bb_reserved bb = 0"
    and "0 < bb_cap bb" and "bb_cap bb < unat sz" and "bb_cap bb + unat sz \<le> 2 ^ 31"
  shows "\<exists>p bb' h' h''. bip_buf_force_reserve junk bb sz h = Some (Some p, bb', h') \<and>
    bip_buf_destroy bb' h' = Some h'' \<and> bb_block bb \<in> set (mh_live h'')"
proof -
  have inv: "bb_ok bb" "heap_ok h" "bb_block bb \<in> set (mh_live h)" "bb_self bb \<noteq> bb_block bb"
    using assms(1) by (auto simp: bb_inv_def)
  have free: "length (bb_content bb) < bb_cap bb" "0 < unat sz"
    using assms(2,4,5) by auto
  obtain bb' h' where r: "bip_buf_force_reserve junk bb sz h = Some (Some (bb_r_start bb'), bb', h')"
      and g: "bb_block bb' = mh_next h" "mh_live h' = mh_next h # mh_live h"
      and self: "bb_self bb' = bb_self bb"
    using bip_buf_force_reserve_ok [OF inv(1) assms(3) free(2,1) assms(6) inv(3)] assms(2,5)
    by (metis list.size(3) minus_nat.diff_0)
  have inv': "bb_inv (bb', h')"
    using bip_buf_force_reserve_total [OF assms(1,6), of junk] r by (metis option.inject prod.inject)
  have "mh_next h \<noteq> bb_block bb" using inv(2,3) by (auto simp: heap_ok_def)
  with bip_buf_destroy_ok [OF inv'] r g self inv show ?thesis by auto
qed

lemma bip_buf_grow_empty_leaks_witness:
  "\<exists>bb h p bb' h' h''. bip_buf_create (\<lambda>_. 0) 4 \<lparr>mh_next = 0, mh_live = []\<rparr> = (bb, h) \<and>
     bip_buf_force_reserve (\<lambda>_. 0) bb 10 h = Some (Some p, bb', h') \<and>
     bip_buf_destroy bb' h' = Some h'' \<and> mh_live h'' \<noteq> []"
proof -
  let ?h0 = "\<lparr>mh_next = 0, mh_live = []\<rparr> :: mheap"
  obtain bb h where c: "bip_buf_create (\<lambda>_. 0) 4 ?h0 = (bb, h)" by fastforce
  have "bb_inv (bb, h)"
    using bip_buf_create_inv [of ?h0 4 "\<lambda>_. 0"] c by (simp add: heap_ok_def)
  moreover have "bb_content bb = []" "bb_reserved bb = 0" "bb_cap bb = 4"
    using bip_buf_create_ok [OF _ c] by simp_all
  ultimately obtain p bb' h' h'' where
    "bip_buf_force_reserve (\<lambda>_. 0) bb 10 h = Some (Some p, bb', h')"
    "bip_buf_destroy bb' h' = Some h''" "bb_block bb \<in> set (mh_live h'')"
    using bip_buf_grow_empty_leaks [of bb h 10 "\<lambda>_. 0"] by auto
  with c show ?thesis by (metis empty_iff empty_set)
qed

text \<open>
  The bit-smearing rounding returns the least power of two that is not below its
  argument, for every argument from 1 to \<open>2 ^ 31\<close>.
\<close>

theorem next_power_of_two_correct:
  assumes "1 \<le> unat x" and "unat x \<le> 2 ^ 31"
  shows "\<exists>k. unat (next_power_of_two x) = 2 ^ k \<and> unat x \<le> 2 ^ k \<and>
    (\<forall>j. unat x \<le> 2 ^ j \<longrightarrow> k \<le> j)"
proof -
  obtain k where k: "unat (next_power_of_two x) = 2 ^ k" "unat x \<le> 2 ^ k" "2 ^ k < 2 * unat x"
    using next_power_of_two_pow [OF assms] by metis
  have "k \<le> j" if "unat x \<le> 2 ^ j" for j
  proof -
    have "(2 :: nat) ^ k < 2 ^ Suc j" using k(3) that by simp
    then have "k < Suc j" by (rule power_less_imp_less_exp [rotated]) simp
    then show ?thesis by simp
  qed
  with k show ?thesis by blast
qed

lemma next_power_of_two_correct_witness:
  "next_power_of_two 5 = 8 \<and>
   (\<exists>k. unat (next_power_of_two 5) = 2 ^ k \<and> (5 :: nat) \<le> 2 ^ k \<and>
     (\<forall>j. (5 :: nat) \<le> 2 ^ j \<longrightarrow> k \<le> j))"
  using next_power_of_two_correct [of 5] by (simp add: next_power_of_two_def)

end
