(* ===== verification/FastStrstr.thy ===== *)
theory FastStrstr
  imports BipBuf
begin

text \<open>
  \<^verbatim>\<open>fast_strstr\<close> and \<^verbatim>\<open>bip_buf_find_str\<close> of \<^verbatim>\<open>src/base/bip_buf.c\<close>: substring search by a
  rolling sum of characters. Pointers are offsets into the two blocks; characters are
  signed, as on the x86 targets, so \<open>sums_diff\<close> adds sign-extended bytes modulo
  \<open>2 ^ 32\<close>.
\<close>

section \<open>The search\<close>

definition char_val :: "byte \<Rightarrow> 32 word" where
  "char_val c = scast c"

text \<open>\<^verbatim>\<open>memchr\<close>: the first position of a byte.\<close>

fun memchr :: "byte list \<Rightarrow> byte \<Rightarrow> nat option" where
  "memchr [] c = None"
| "memchr (x # xs) c = (if x = c then Some 0 else map_option Suc (memchr xs c))"

text \<open>The first loop: compare from the first match on, and sum up the differences.\<close>

function fast_strstr_cmp ::
  "byte list \<Rightarrow> byte list \<Rightarrow> nat \<Rightarrow> nat \<Rightarrow> 32 word \<Rightarrow> bool \<Rightarrow> nat \<times> nat \<times> 32 word \<times> bool" where
  "fast_strstr_cmp haystack needle i_haystack i_needle sums_diff identical =
     (if i_haystack < length haystack \<and> i_needle < length needle
      then fast_strstr_cmp haystack needle (Suc i_haystack) (Suc i_needle)
             (sums_diff + char_val (haystack ! i_haystack) - char_val (needle ! i_needle))
             (identical \<and> haystack ! i_haystack = needle ! i_needle)
      else (i_haystack, i_needle, sums_diff, identical))"
  by pat_completeness auto
termination
  by (relation "measure (\<lambda>(h, n, i, j, s, b). length h - i)") auto

declare fast_strstr_cmp.simps [simp del]

text \<open>The second loop: roll the window on, one character at a time.\<close>

function fast_strstr_roll ::
  "byte list \<Rightarrow> byte list \<Rightarrow> byte \<Rightarrow> nat \<Rightarrow> nat \<Rightarrow> nat \<Rightarrow> 32 word \<Rightarrow> nat option" where
  "fast_strstr_roll haystack needle needle_first needle_len_1 sub_start i_haystack sums_diff =
     (if i_haystack < length haystack
      then let sums_diff1 = sums_diff - char_val (haystack ! sub_start);
               sub_start1 = Suc sub_start;
               sums_diff2 = sums_diff1 + char_val (haystack ! i_haystack)
           in if 0 = sums_diff2 \<and> needle_first = haystack ! sub_start1 \<and>
                 take needle_len_1 (drop sub_start1 haystack) = take needle_len_1 needle
              then Some sub_start1
              else fast_strstr_roll haystack needle needle_first needle_len_1 sub_start1
                     (Suc i_haystack) sums_diff2
      else None)"
  by pat_completeness auto
termination
  by (relation "measure (\<lambda>(h, n, c, k, s, i, d). length h - i)") auto

declare fast_strstr_roll.simps [simp del]

text \<open>\<open>None\<close> as the needle is the NULL pointer; the result is an offset or NULL.\<close>

definition fast_strstr :: "byte list \<Rightarrow> byte list option \<Rightarrow> nat option" where
  "fast_strstr haystack needle_ptr =
     (case needle_ptr of None \<Rightarrow> Some 0
      | Some needle \<Rightarrow>
        if needle = [] then Some 0
        else (let needle_first = hd needle in
          case memchr haystack needle_first of None \<Rightarrow> None
          | Some first_match \<Rightarrow>
            (let (i_haystack, i_needle, sums_diff, identical) =
                   fast_strstr_cmp haystack needle (Suc first_match) 1
                     (char_val (haystack ! first_match)) True
             in if i_needle < length needle then None
                else if identical then Some first_match
                else fast_strstr_roll haystack needle needle_first (i_needle - 1) first_match
                       i_haystack sums_diff)))"

definition bip_buf_find_str :: "bip_buf \<Rightarrow> byte list option \<Rightarrow> nat option" where
  "bip_buf_find_str bb str =
     map_option (\<lambda>off. unat (bip_buf_get_contiguous_block bb) + off)
       (fast_strstr (take (unat (bip_buf_get_committed_size bb))
          (drop (unat (bip_buf_get_contiguous_block bb)) (bb_buffer bb))) str)"

definition occurs_at :: "byte list \<Rightarrow> byte list \<Rightarrow> nat \<Rightarrow> bool" where
  "occurs_at haystack needle p \<longleftrightarrow> take (length needle) (drop p haystack) = needle"

section \<open>The first loop\<close>

lemma memchr_Some:
  "memchr h c = Some i \<Longrightarrow> i < length h \<and> h ! i = c \<and> (\<forall>j<i. h ! j \<noteq> c)"
  by (induction h arbitrary: i) (fastforce simp: less_Suc_eq_0_disj split: if_splits)+

lemma memchr_None: "memchr h c = None \<longleftrightarrow> c \<notin> set h"
  by (induction h) auto

definition char_sum :: "byte list \<Rightarrow> 32 word" where
  "char_sum xs = sum_list (map char_val xs)"

lemma char_sum_simps [simp]:
  "char_sum [] = 0" "char_sum (x # xs) = char_val x + char_sum xs"
  "char_sum (xs @ ys) = char_sum xs + char_sum ys"
  by (simp_all add: char_sum_def)

text \<open>
  When the haystack is long enough, the loop consumes the rest of the needle, adds the
  difference of the two sums and decides whether the rest is equal.
\<close>

lemma fast_strstr_cmp_long:
  assumes "i + (length n - j) \<le> length h" "j \<le> length n"
  shows "fast_strstr_cmp h n i j s b =
    (i + (length n - j), length n,
     s + char_sum (take (length n - j) (drop i h)) - char_sum (drop j n),
     b \<and> take (length n - j) (drop i h) = drop j n)"
  using assms
proof (induction "length n - j" arbitrary: i j s b)
  case 0
  then show ?case by (simp add: fast_strstr_cmp.simps [of h n i j])
next
  case (Suc k)
  then have ij: "i < length h" "j < length n" by auto
  have h: "drop i h = h ! i # drop (Suc i) h" and n: "drop j n = n ! j # drop (Suc j) n"
    using ij by (simp_all add: Cons_nth_drop_Suc)
  have m: "length n - j = Suc (length n - Suc j)" using ij by simp
  have IH: "fast_strstr_cmp h n (Suc i) (Suc j) s' b' =
    (Suc i + (length n - Suc j), length n,
     s' + char_sum (take (length n - Suc j) (drop (Suc i) h)) - char_sum (drop (Suc j) n),
     b' \<and> take (length n - Suc j) (drop (Suc i) h) = drop (Suc j) n)" for s' b'
    using Suc(2) Suc.prems ij by (intro Suc(1)) auto
  show ?case
    using ij by (simp add: fast_strstr_cmp.simps [of h n i j] IH m h n algebra_simps)
qed

lemma fast_strstr_cmp_short:
  assumes "length h < i + (length n - j)" "i \<le> length h"
  shows "fst (snd (fast_strstr_cmp h n i j s b)) < length n"
  using assms
proof (induction "length h - i" arbitrary: i j s b)
  case 0
  then show ?case by (simp add: fast_strstr_cmp.simps [of h n i j])
next
  case (Suc k)
  then have "i < length h" "j < length n" by auto
  with Suc show ?case by (simp add: fast_strstr_cmp.simps [of h n i j])
qed

section \<open>The rolling loop\<close>

definition roll_hit :: "byte list \<Rightarrow> byte list \<Rightarrow> nat \<Rightarrow> bool" where
  "roll_hit h n p \<longleftrightarrow> char_sum (take (length n) (drop p h)) = char_sum (tl n) \<and> hd n = h ! p \<and>
     take (length n - 1) (drop p h) = take (length n - 1) n"

lemma window_shift:
  assumes "p + length n < length h" "n \<noteq> []"
  shows "char_sum (take (length n) (drop (Suc p) h)) =
    char_sum (take (length n) (drop p h)) - char_val (h ! p) + char_val (h ! (p + length n))"
proof -
  obtain m where m: "length n = Suc m" using assms(2) by (cases n) auto
  have "take (Suc m) (drop p h) = h ! p # take m (drop (Suc p) h)"
    using assms(1) m by (simp add: Cons_nth_drop_Suc [symmetric])
  moreover have "take (Suc m) (drop (Suc p) h) = take m (drop (Suc p) h) @ [h ! (p + Suc m)]"
    using assms(1) m by (simp add: take_Suc_conv_app_nth)
  ultimately show ?thesis by (simp add: m)
qed

lemma fast_strstr_roll_hit:
  assumes "n \<noteq> []" "i = p + length n" "i \<le> length h"
    and "s = char_sum (take (length n) (drop p h)) - char_sum (tl n)"
    and "fast_strstr_roll h n (hd n) (length n - 1) p i s = Some q"
  shows "p < q \<and> q + length n \<le> length h \<and> roll_hit h n q"
  using assms(2-)
proof (induction "length h - i" arbitrary: i p s)
  case 0
  then show ?case by (simp add: fast_strstr_roll.simps [of h n])
next
  case (Suc k)
  then have i: "i < length h" by simp
  have s': "s - char_val (h ! p) + char_val (h ! i) =
      char_sum (take (length n) (drop (Suc p) h)) - char_sum (tl n)"
    using window_shift [of p n h] Suc.prems i assms(1) by simp
  show ?case
  proof (cases "roll_hit h n (Suc p)")
    case True
    then have "q = Suc p"
      using Suc.prems(4) i s'
      by (simp add: fast_strstr_roll.simps [of h n] roll_hit_def Let_def)
    with True Suc.prems i show ?thesis by simp
  next
    case False
    then have "fast_strstr_roll h n (hd n) (length n - 1) (Suc p) (Suc i)
        (s - char_val (h ! p) + char_val (h ! i)) = Some q"
      using Suc.prems(4) i s'
      by (auto simp: fast_strstr_roll.simps [of h n _ _ p] roll_hit_def Let_def split: if_splits)
    moreover have "k = length h - Suc i" using Suc(2) by simp
    ultimately have "Suc p < q \<and> q + length n \<le> length h \<and> roll_hit h n q"
      using Suc.prems(1) i by (intro Suc(1) [OF _ _ _ s']) auto
    then show ?thesis by simp
  qed
qed

text \<open>
  A hit of the rolling loop: the window starts like the needle, but its last character is
  off by the needle's first character.
\<close>

lemma roll_hit_last:
  assumes "roll_hit h n p" "2 \<le> length n" "p + length n \<le> length h"
  shows "char_val (h ! (p + length n - 1)) + char_val (hd n) = char_val (last n)"
proof -
  obtain m where m: "length n = Suc m" "0 < m" using assms(2) by (cases "length n") auto
  have "n \<noteq> []" using m by auto
  have win: "take (Suc m) (drop p h) = take m (drop p h) @ [h ! (p + m)]"
    using assms(3) m by (simp add: take_Suc_conv_app_nth)
  have nd: "n = take m n @ [last n]"
    using m by (metis append_butlast_last_id butlast_conv_take diff_Suc_1 \<open>n \<noteq> []\<close>)
  have "char_sum n = char_val (hd n) + char_sum (tl n)"
    using \<open>n \<noteq> []\<close> by (cases n) auto
  moreover have "char_sum n = char_sum (take m n) + char_val (last n)"
    using arg_cong [OF nd, of char_sum] by simp
  moreover have "char_sum (take m n) + char_val (h ! (p + m)) = char_sum (tl n)"
    using assms(1) win m by (auto simp: roll_hit_def)
  ultimately have "char_sum (take m n) + (char_val (h ! (p + m)) + char_val (hd n)) =
      char_sum (take m n) + char_val (last n)"
    by (metis add.assoc add.commute)
  then show ?thesis
    using m by simp
qed

lemma char_val_0: "char_val c = 0 \<longleftrightarrow> c = 0"
proof
  assume "char_val c = 0"
  then have "sint (scast c :: 32 word) = 0" by (simp add: char_val_def)
  moreover have "- (2 ^ 31) \<le> sint c" "sint c < 2 ^ 31"
    using sint_ge [of c] sint_lt [of c] by simp_all
  ultimately have "sint c = 0"
    by (simp add: signed_scast_eq signed_take_bit_int_eq_self)
  then show "c = 0" by (simp add: signed_eq_0_iff)
qed (simp add: char_val_def)

lemma roll_hit_no_occurrence:
  assumes "roll_hit h n p" "2 \<le> length n" "p + length n \<le> length h" "hd n \<noteq> 0"
  shows "\<not> occurs_at h n p"
proof
  assume "occurs_at h n p"
  then have eq: "n = take (length n) (drop p h)" by (simp add: occurs_at_def)
  have "last n = n ! (length n - 1)"
    using assms(2) by (intro last_conv_nth) auto
  also have "\<dots> = h ! (p + length n - 1)"
    using assms(2,3) by (subst eq) (simp add: add.commute)
  finally have "char_val (hd n) = 0"
    using roll_hit_last [OF assms(1-3)] by simp
  with assms(4) show False by (simp add: char_val_0)
qed

section \<open>What the search returns\<close>

lemma fast_strstr_cases:
  assumes "n \<noteq> []" "memchr h (hd n) = Some fm"
  shows "fast_strstr h (Some n) =
    (if length h < fm + length n then None
     else if occurs_at h n fm then Some fm
     else fast_strstr_roll h n (hd n) (length n - 1) fm (fm + length n)
            (char_sum (take (length n) (drop fm h)) - char_sum (tl n)))"
proof -
  have fm: "fm < length h" "h ! fm = hd n" using memchr_Some [OF assms(2)] by auto
  have len: "Suc fm + (length n - 1) = fm + length n" using assms(1) by (cases n) auto
  show ?thesis
  proof (cases "length h < fm + length n")
    case True
    then have "fst (snd (fast_strstr_cmp h n (Suc fm) 1 (char_val (h ! fm)) True)) < length n"
      using fm len by (intro fast_strstr_cmp_short) auto
    with True assms show ?thesis
      by (auto simp: fast_strstr_def split: prod.splits)
  next
    case False
    obtain c n' where n: "n = c # n'" using assms(1) by (cases n) auto
    have win: "take (length n) (drop fm h) = c # take (length n') (drop (Suc fm) h)"
      using fm n by (simp add: Cons_nth_drop_Suc [symmetric])
    have "fast_strstr_cmp h n (Suc fm) 1 (char_val (h ! fm)) True =
      (fm + length n, length n,
       char_sum (take (length n) (drop fm h)) - char_sum (tl n), occurs_at h n fm)"
      using False fm n win len
      by (subst fast_strstr_cmp_long) (auto simp: occurs_at_def algebra_simps)
    with False assms show ?thesis
      by (simp add: fast_strstr_def)
  qed
qed

section \<open>Properties\<close>

text \<open>
  Where the search is right: a needle that occurs at the first position of its own
  first character is found there, and a haystack without that character has no match.
\<close>

theorem fast_strstr_first_match:
  assumes "needle \<noteq> []"
  shows "(hd needle \<notin> set haystack \<longrightarrow> fast_strstr haystack (Some needle) = None) \<and>
    (\<forall>p. memchr haystack (hd needle) = Some p \<and> occurs_at haystack needle p \<longrightarrow>
       fast_strstr haystack (Some needle) = Some p)"
proof (intro conjI allI impI)
  assume "hd needle \<notin> set haystack"
  then have "memchr haystack (hd needle) = None" by (rule memchr_None [THEN iffD2])
  with assms show "fast_strstr haystack (Some needle) = None" by (simp add: fast_strstr_def)
next
  fix p
  assume p: "memchr haystack (hd needle) = Some p \<and> occurs_at haystack needle p"
  have "length needle \<le> length haystack - p"
    using p by (metis length_drop length_take min.cobounded1 occurs_at_def)
  with memchr_Some [of haystack "hd needle" p] p have "p + length needle \<le> length haystack" by auto
  with fast_strstr_cases [OF assms] p show "fast_strstr haystack (Some needle) = Some p" by simp
qed

lemma fast_strstr_first_match_witness:
  "fast_strstr [104, 101, 97, 100, 13, 10] (Some [13, 10]) = Some 4"
  using fast_strstr_first_match [of "[13, 10]" "[104, 101, 97, 100, 13, 10]"]
  by (simp add: occurs_at_def)

text \<open>
  Where it is wrong: when the needle does not occur at the first position of its first
  character (and that character is not NUL), the search never returns an occurrence. It
  misses every later one, and the position it may return instead is no occurrence,
  because \<open>sums_diff\<close> starts without the needle's first character.
\<close>

theorem fast_strstr_misses_later:
  assumes "needle \<noteq> []" and "hd needle \<noteq> 0"
    and "memchr haystack (hd needle) = Some fm" and "\<not> occurs_at haystack needle fm"
    and "fast_strstr haystack (Some needle) = Some p"
  shows "\<not> occurs_at haystack needle p \<and> fm < p \<and>
    take (length needle - 1) (drop p haystack) = take (length needle - 1) needle"
proof -
  have len: "fm + length needle \<le> length haystack"
    and roll: "fast_strstr_roll haystack needle (hd needle) (length needle - 1) fm
      (fm + length needle) (char_sum (take (length needle) (drop fm haystack)) - char_sum (tl needle)) = Some p"
    using assms(4,5) fast_strstr_cases [OF assms(1,3)] by (auto split: if_splits)
  have hit: "fm < p" "p + length needle \<le> length haystack" "roll_hit haystack needle p"
    using fast_strstr_roll_hit [OF assms(1) refl len refl roll] by auto
  have "2 \<le> length needle"
  proof (rule ccontr)
    assume "\<not> 2 \<le> length needle"
    then obtain c where "needle = [c]" using assms(1) by (cases needle; cases "tl needle") auto
    moreover from this memchr_Some [OF assms(3)] have "occurs_at haystack needle fm"
      by (simp add: occurs_at_def take_Suc_conv_app_nth)
    ultimately show False using assms(4) by simp
  qed
  with roll_hit_no_occurrence [OF hit(3) _ hit(2) assms(2)] hit show ?thesis
    by (simp add: roll_hit_def)
qed

lemma fast_strstr_misses_later_witness:
  "fast_strstr [1, 5, 1, 2] (Some [1, 3]) = Some 2 \<and> \<not> occurs_at [1, 5, 1, 2] [1, 3] 2 \<and>
   fast_strstr [97, 97, 98] (Some [97, 98]) = None \<and> occurs_at [97, 97, 98] [97, 98] 1"
proof -
  have s: "fast_strstr [1, 5, 1, 2] (Some [1, 3]) = Some 2"
    by (simp add: fast_strstr_def fast_strstr_cmp.simps fast_strstr_roll.simps char_val_def)
  have "\<not> occurs_at [1, 5, 1, 2] [1, 3] 2"
    using fast_strstr_misses_later [of "[1, 3]" "[1, 5, 1, 2]" 0 2] s
    by (simp add: occurs_at_def)
  moreover have "fast_strstr [97, 97, 98] (Some [97, 98]) = None"
    by (simp add: fast_strstr_def fast_strstr_cmp.simps fast_strstr_roll.simps char_val_def)
  ultimately show ?thesis using s by (simp add: occurs_at_def)
qed

end
