(* ===== verification/Freelist.thy ===== *)
theory Freelist
  imports Prelude
begin

text \<open>
  Intrusive free lists: nodes linked through their own \<open>next\<close> field in a heap, as the
  packet buffers (\<^verbatim>\<open>src/tcp/TcpInnerPacket.cpp\<close>, \<^verbatim>\<open>src/tcp/TcpOuterPacket.cpp\<close>) and the
  thread-local handles, requests and buffers (\<^verbatim>\<open>src/tcp/uv/uv_tls_alloc.c\<close>) keep them. The
  theory has the heap of nodes, the link operations, the contract of an allocator with a
  free list as a locale, and the allocators of \<^verbatim>\<open>uv_tls_alloc.c\<close>.
\<close>

section \<open>A heap of linked nodes\<close>

type_synonym addr = nat

record 'p node =
  nd_payload :: 'p
  nd_next :: "addr option"

record 'p nheap =
  nh_mem :: "addr \<Rightarrow> 'p node option"
  nh_brk :: addr

definition nh_ok :: "'p nheap \<Rightarrow> bool" where
  "nh_ok h \<longleftrightarrow> (\<forall>a. nh_mem h a \<noteq> None \<longrightarrow> a < nh_brk h)"

definition nh_get :: "'p nheap \<Rightarrow> addr \<Rightarrow> 'p option" where
  "nh_get h a = map_option nd_payload (nh_mem h a)"

definition nh_put :: "'p nheap \<Rightarrow> addr \<Rightarrow> 'p \<Rightarrow> 'p nheap option" where
  "nh_put h a p =
     (case nh_mem h a of None \<Rightarrow> None
      | Some n \<Rightarrow> Some (h\<lparr>nh_mem := (nh_mem h)(a := Some (n\<lparr>nd_payload := p\<rparr>))\<rparr>))"

text \<open>\<^verbatim>\<open>malloc\<close> of a node; its link is whatever \<open>nxt\<close> is stored first.\<close>

definition nh_malloc :: "'p nheap \<Rightarrow> 'p \<Rightarrow> addr option \<Rightarrow> addr \<times> 'p nheap" where
  "nh_malloc h p nxt =
     (nh_brk h, h\<lparr>nh_mem := (nh_mem h)(nh_brk h := Some \<lparr>nd_payload = p, nd_next = nxt\<rparr>),
                 nh_brk := Suc (nh_brk h)\<rparr>)"

definition nh_free :: "'p nheap \<Rightarrow> addr \<Rightarrow> 'p nheap option" where
  "nh_free h a =
     (case nh_mem h a of None \<Rightarrow> None | Some n \<Rightarrow> Some (h\<lparr>nh_mem := (nh_mem h)(a := None)\<rparr>))"

text \<open>\<open>entry->next = *list; *list = entry\<close> and \<open>*list = (*list)->next\<close>.\<close>

definition fl_push :: "'p nheap \<Rightarrow> addr option \<Rightarrow> addr \<Rightarrow> ('p nheap \<times> addr option) option" where
  "fl_push h head a =
     (case nh_mem h a of None \<Rightarrow> None
      | Some n \<Rightarrow> Some (h\<lparr>nh_mem := (nh_mem h)(a := Some (n\<lparr>nd_next := head\<rparr>))\<rparr>, Some a))"

definition fl_next :: "'p nheap \<Rightarrow> addr \<Rightarrow> addr option option" where
  "fl_next h a = map_option nd_next (nh_mem h a)"

text \<open>The nodes a list links, in order.\<close>

fun fl_chain :: "'p nheap \<Rightarrow> addr option \<Rightarrow> addr list \<Rightarrow> bool" where
  "fl_chain h p [] \<longleftrightarrow> p = None"
| "fl_chain h p (a # as) \<longleftrightarrow>
     p = Some a \<and> (case nh_mem h a of None \<Rightarrow> False | Some n \<Rightarrow> fl_chain h (nd_next n) as)"

definition fl_ok :: "'p nheap \<Rightarrow> addr option \<Rightarrow> addr list \<Rightarrow> bool" where
  "fl_ok h p as \<longleftrightarrow> nh_ok h \<and> fl_chain h p as \<and> distinct as"

lemma fl_chain_alloc: "fl_chain h p as \<Longrightarrow> a \<in> set as \<Longrightarrow> nh_mem h a \<noteq> None"
  by (induction as arbitrary: p) (auto split: option.splits)

lemma fl_chain_frame:
  "fl_chain h p as \<Longrightarrow> (\<And>b. b \<in> set as \<Longrightarrow> map_option nd_next (nh_mem h' b) = map_option nd_next (nh_mem h b)) \<Longrightarrow>
   fl_chain h' p as"
proof (induction as arbitrary: p)
  case (Cons a as)
  then obtain n where n: "nh_mem h a = Some n" "fl_chain h (nd_next n) as" "p = Some a"
    by (auto split: option.splits)
  moreover from Cons.prems(2) [of a] n obtain n' where "nh_mem h' a = Some n'" "nd_next n' = nd_next n"
    by auto
  moreover have "fl_chain h' (nd_next n) as"
    using n(2) Cons.prems(2) by (intro Cons.IH) auto
  ultimately show ?case by simp
qed simp

lemma fl_chain_unique: "fl_chain h p as \<Longrightarrow> fl_chain h p bs \<Longrightarrow> as = bs"
proof (induction as arbitrary: p bs)
  case Nil
  then show ?case by (cases bs) auto
next
  case (Cons a as)
  then show ?case by (cases bs) (auto split: option.splits)
qed

lemma fl_chain_Some:
  assumes "fl_chain h (Some a) as"
  obtains as' n where "as = a # as'" "nh_mem h a = Some n" "fl_chain h (nd_next n) as'"
  using assms by (cases as) (auto split: option.splits)

lemma fl_chain_None: "fl_chain h None as \<longleftrightarrow> as = []"
  by (cases as) auto

lemma nh_put_ok:
  assumes "nh_mem h a \<noteq> None"
  obtains h' where "nh_put h a p = Some h'" "nh_get h' a = Some p"
    "\<And>b. b \<noteq> a \<Longrightarrow> nh_get h' b = nh_get h b"
    "\<And>b. map_option nd_next (nh_mem h' b) = map_option nd_next (nh_mem h b)"
    "nh_brk h' = nh_brk h" "\<And>b. nh_mem h' b \<noteq> None \<longleftrightarrow> nh_mem h b \<noteq> None"
  using assms by (auto simp: nh_put_def nh_get_def)

lemma fl_ok_put: "fl_ok h p as \<Longrightarrow> nh_put h a v = Some h' \<Longrightarrow> fl_ok h' p as"
  by (auto simp: fl_ok_def nh_ok_def nh_put_def elim!: fl_chain_frame split: option.splits if_splits)

lemma fl_ok_malloc:
  assumes "fl_ok h p as" "nh_malloc h v nxt = (a, h')"
  shows "fl_ok h' p as" "a \<notin> set as" "nh_mem h a = None" "nh_get h' a = Some v"
proof -
  have fresh: "nh_mem h (nh_brk h) = None" using assms(1) by (auto simp: fl_ok_def nh_ok_def)
  with fl_chain_alloc [of h p as "nh_brk h"] assms show a: "a \<notin> set as" "nh_mem h a = None"
    by (auto simp: nh_malloc_def fl_ok_def)
  have "fl_chain h' p as"
    by (rule fl_chain_frame [of h]) (use assms a in \<open>auto simp: nh_malloc_def fl_ok_def\<close>)
  moreover have "nh_ok h'"
    using assms unfolding fl_ok_def nh_ok_def nh_malloc_def
    by (metis (no_types, lifting) Pair_inject fun_upd_def less_Suc_eq nheap.select_convs(1)
        nheap.select_convs(2) nheap.surjective nheap.update_convs(1) nheap.update_convs(2))
  ultimately show "fl_ok h' p as" using assms(1) by (simp add: fl_ok_def)
  show "nh_get h' a = Some v" using assms(2) by (auto simp: nh_malloc_def nh_get_def)
qed

lemma fl_push_ok:
  assumes "fl_ok h p as" "nh_mem h a \<noteq> None" "a \<notin> set as"
  obtains h' where "fl_push h p a = Some (h', Some a)" "fl_ok h' (Some a) (a # as)"
    "\<And>b. nh_get h' b = nh_get h b" "nh_brk h' = nh_brk h"
    "\<And>b. nh_mem h' b \<noteq> None \<longleftrightarrow> nh_mem h b \<noteq> None"
    "\<And>b. b \<noteq> a \<Longrightarrow> nh_mem h' b = nh_mem h b"
proof -
  obtain n where n: "nh_mem h a = Some n" using assms(2) by auto
  let ?h = "h\<lparr>nh_mem := (nh_mem h)(a := Some (n\<lparr>nd_next := p\<rparr>))\<rparr>"
  have "fl_chain ?h p as"
    by (rule fl_chain_frame [of h]) (use assms in \<open>auto simp: fl_ok_def\<close>)
  then have "fl_chain ?h (Some a) (a # as)" by simp
  moreover have "nh_ok ?h" using assms(1,2) by (auto simp: fl_ok_def nh_ok_def)
  ultimately have "fl_ok ?h (Some a) (a # as)"
    using assms(1,3) by (auto simp only: fl_ok_def distinct.simps)
  then show thesis
    by (rule that [rotated]) (auto simp: fl_push_def nh_get_def n)
qed

section \<open>The contract of an allocator with a free list\<close>

text \<open>
  The runs of a client: it allocates, and releases only objects it holds. \<open>out\<close> lists the
  objects it holds.
\<close>

inductive client_run :: "('s \<Rightarrow> (addr \<times> 's) option) \<Rightarrow> ('s \<Rightarrow> addr \<Rightarrow> 's option) \<Rightarrow> 's \<Rightarrow> 's \<Rightarrow>
    addr list \<Rightarrow> bool"
  for alloc release s0 where
  run_start: "client_run alloc release s0 s0 []"
| run_alloc: "client_run alloc release s0 s out \<Longrightarrow> alloc s = Some (a, s') \<Longrightarrow>
    client_run alloc release s0 s' (a # out)"
| run_release: "client_run alloc release s0 s out \<Longrightarrow> a \<in> set out \<Longrightarrow> release s a = Some s' \<Longrightarrow>
    client_run alloc release s0 s' (remove1 a out)"

text \<open>
  \<open>avail s as\<close>: the free list of state \<open>s\<close> holds exactly the objects \<open>as\<close>, in order, and
  is well-formed; \<open>owned s a\<close>: \<open>a\<close> is an allocated object that is not on the list.
\<close>

locale freelist =
  fixes avail :: "'s \<Rightarrow> addr list \<Rightarrow> bool"
    and owned :: "'s \<Rightarrow> addr \<Rightarrow> bool"
    and alloc :: "'s \<Rightarrow> (addr \<times> 's) option"
    and release :: "'s \<Rightarrow> addr \<Rightarrow> 's option"
    and clear :: "'s \<Rightarrow> 's option"
  assumes avail_distinct: "avail s as \<Longrightarrow> distinct as"
    and owned_not_avail: "avail s as \<Longrightarrow> owned s a \<Longrightarrow> a \<notin> set as"
    and alloc_pop: "avail s (a # as) \<Longrightarrow>
      \<exists>s'. alloc s = Some (a, s') \<and> avail s' as \<and> (\<forall>b. owned s' b \<longleftrightarrow> b = a \<or> owned s b)"
    and alloc_new: "avail s [] \<Longrightarrow>
      \<exists>a s' as. alloc s = Some (a, s') \<and> avail s' as \<and> \<not> owned s a \<and>
        (\<forall>b. owned s' b \<longleftrightarrow> b = a \<or> owned s b)"
    and release_push: "avail s as \<Longrightarrow> owned s a \<Longrightarrow>
      \<exists>s'. release s a = Some s' \<and> avail s' (a # as) \<and> (\<forall>b. owned s' b \<longleftrightarrow> b \<noteq> a \<and> owned s b)"
    and clear_all: "avail s as \<Longrightarrow>
      \<exists>s'. clear s = Some s' \<and> avail s' [] \<and> (\<forall>b. owned s' b \<longleftrightarrow> owned s b)"
begin

text \<open>An object handed out is never handed out again before it is released.\<close>

lemma alloc_fresh:
  assumes "avail s as"
  shows "\<exists>a s' as'. alloc s = Some (a, s') \<and> \<not> owned s a \<and> avail s' as' \<and>
    (\<forall>b. owned s' b \<longleftrightarrow> b = a \<or> owned s b)"
proof (cases as)
  case Nil
  with assms show ?thesis using alloc_new by blast
next
  case (Cons a as')
  with assms owned_not_avail [OF assms, of a] show ?thesis using alloc_pop [of s a as'] by auto
qed

text \<open>The last object released is the first one reused.\<close>

lemma release_alloc:
  assumes "avail s as" "owned s a"
  shows "\<exists>s1 s2. release s a = Some s1 \<and> alloc s1 = Some (a, s2) \<and> avail s2 as \<and>
    (\<forall>b. owned s2 b \<longleftrightarrow> owned s b)"
proof -
  obtain s1 where s1: "release s a = Some s1" "avail s1 (a # as)"
      "\<forall>b. owned s1 b \<longleftrightarrow> b \<noteq> a \<and> owned s b"
    using release_push [OF assms] by blast
  from alloc_pop [OF s1(2)] s1 assms(2) show ?thesis by auto
qed

text \<open>
  The objects a client holds: pairwise distinct, exactly the owned ones, none of them on
  the free list; and every operation of the client succeeds.
\<close>

lemma client_run_owned:
  assumes "client_run alloc release s0 s out" "avail s0 as0" "\<And>a. \<not> owned s0 a"
  shows "distinct out \<and> (\<exists>as. avail s as) \<and> (\<forall>a. owned s a \<longleftrightarrow> a \<in> set out)"
  using assms
proof (induction rule: client_run.induct)
  case (run_alloc s out a s')
  then obtain as where "avail s as" by blast
  from alloc_fresh [OF this] run_alloc show ?case by auto
next
  case (run_release s out a s')
  then obtain as where "avail s as" "owned s a" by blast
  from release_push [OF this] run_release show ?case by auto
qed auto

lemma client_run_progress:
  assumes "client_run alloc release s0 s out" "avail s0 as0" "\<And>a. \<not> owned s0 a"
  shows "(\<exists>a s'. alloc s = Some (a, s') \<and> a \<notin> set out) \<and>
    (\<forall>a \<in> set out. \<exists>s'. release s a = Some s') \<and>
    (\<exists>s'. clear s = Some s' \<and> avail s' [] \<and> (\<forall>a. owned s' a \<longleftrightarrow> a \<in> set out))"
proof -
  from client_run_owned [OF assms] obtain as where
    as: "avail s as" "\<forall>a. owned s a \<longleftrightarrow> a \<in> set out" by blast
  show ?thesis
    using alloc_fresh [OF as(1)] release_push [OF as(1)] clear_all [OF as(1)] as(2) by metis
qed

end

section \<open>Freeing a whole list\<close>

text \<open>
  \<open>while (list) { item = list; list = list->next; free(item); }\<close>. Nothing bounds the loop
  beforehand, so not returning is the value \<open>None\<close>.
\<close>

partial_function (option) fl_clear :: "'p nheap \<Rightarrow> addr option \<Rightarrow> 'p nheap option" where
  "fl_clear h p =
     (case p of None \<Rightarrow> Some h
      | Some a \<Rightarrow> Option.bind (fl_next h a) (\<lambda>nxt. Option.bind (nh_free h a) (\<lambda>h'. fl_clear h' nxt)))"

lemma fl_clear_ok:
  assumes "fl_chain h p as" "distinct as"
  shows "\<exists>h'. fl_clear h p = Some h' \<and> nh_brk h' = nh_brk h \<and>
    (\<forall>a. nh_mem h' a = (if a \<in> set as then None else nh_mem h a))"
  using assms
proof (induction as arbitrary: h p)
  case Nil
  then show ?case by (simp add: fl_clear.simps)
next
  case (Cons a as)
  then obtain n where n: "nh_mem h a = Some n" "p = Some a" "fl_chain h (nd_next n) as"
    by (auto split: option.splits)
  let ?h = "h\<lparr>nh_mem := (nh_mem h)(a := None)\<rparr>"
  have "fl_chain ?h (nd_next n) as"
    by (rule fl_chain_frame [OF n(3)]) (use Cons.prems(2) in auto)
  with Cons.IH Cons.prems(2) obtain h' where h': "fl_clear ?h (nd_next n) = Some h'"
      "nh_brk h' = nh_brk h" "\<forall>b. nh_mem h' b = (if b \<in> set as then None else nh_mem ?h b)"
    by fastforce
  have "fl_clear h p = Some h'"
    using n h'(1) by (subst fl_clear.simps) (simp add: fl_next_def nh_free_def)
  with h' show ?case by auto
qed

section \<open>The thread-local allocators\<close>

text \<open>
  \<^verbatim>\<open>uv_tls_alloc.c\<close>. Each allocator has its own thread-local list head; the state is that
  head and the heap of its nodes. A reused node keeps its old contents.
\<close>

record 'p flist =
  fls_heap :: "'p nheap"
  fls_head :: "addr option"

text \<open>The payload of a handle or request node is opaque here: \<open>'p\<close> is the libuv union.\<close>

definition tls_handle_alloc :: "'p \<Rightarrow> 'p flist \<Rightarrow> (addr \<times> 'p flist) option" where
  "tls_handle_alloc junk s =
     (case fls_head s of
        Some list_item \<Rightarrow>
          do { nxt \<leftarrow> fl_next (fls_heap s) list_item; Some (list_item, s\<lparr>fls_head := nxt\<rparr>) }
      | None \<Rightarrow>
          let (list_item, h) = nh_malloc (fls_heap s) junk None in Some (list_item, s\<lparr>fls_heap := h\<rparr>))"

definition tls_handle_free :: "'p flist \<Rightarrow> addr \<Rightarrow> 'p flist option" where
  "tls_handle_free s uvhandle =
     do { (h, head) \<leftarrow> fl_push (fls_heap s) (fls_head s) uvhandle;
          Some (s\<lparr>fls_heap := h, fls_head := head\<rparr>) }"

definition tls_clear_handle_freelist :: "'p flist \<Rightarrow> 'p flist option" where
  "tls_clear_handle_freelist s =
     do { h \<leftarrow> fl_clear (fls_heap s) (fls_head s); Some (s\<lparr>fls_heap := h, fls_head := None\<rparr>) }"

definition tls_req_alloc :: "'p \<Rightarrow> 'p flist \<Rightarrow> (addr \<times> 'p flist) option" where
  "tls_req_alloc junk s =
     (case fls_head s of
        Some list_item \<Rightarrow>
          do { nxt \<leftarrow> fl_next (fls_heap s) list_item; Some (list_item, s\<lparr>fls_head := nxt\<rparr>) }
      | None \<Rightarrow>
          let (list_item, h) = nh_malloc (fls_heap s) junk None in Some (list_item, s\<lparr>fls_heap := h\<rparr>))"

definition tls_req_free :: "'p flist \<Rightarrow> addr \<Rightarrow> 'p flist option" where
  "tls_req_free s uvreq =
     do { (h, head) \<leftarrow> fl_push (fls_heap s) (fls_head s) uvreq;
          Some (s\<lparr>fls_heap := h, fls_head := head\<rparr>) }"

definition tls_clear_req_freelist :: "'p flist \<Rightarrow> 'p flist option" where
  "tls_clear_req_freelist s =
     do { h \<leftarrow> fl_clear (fls_heap s) (fls_head s); Some (s\<lparr>fls_heap := h, fls_head := None\<rparr>) }"

text \<open>
  The payload of a buffer node is its \<open>uv_buf_t\<close>. \<open>base\<close> points just behind the node, so
  it is modelled by the node's address (\<open>None\<close> is NULL). On the 64-bit targets
  \<open>sizeof(buf_list_t)\<close> is 24 and \<open>len\<close> is an \<open>unsigned int\<close>, computed by a subtraction
  that wraps for small sizes.
\<close>

record uv_buf =
  ub_base :: "addr option"
  ub_len :: "32 word"

definition sizeof_buf_list :: size_t where
  "sizeof_buf_list = 24"

definition buf_len_of :: "size_t \<Rightarrow> 32 word" where
  "buf_len_of suggested_size = ucast (ucast (ucast suggested_size :: 32 word) - sizeof_buf_list)"

text \<open>
  \<open>malloc(suggested_size)\<close> followed by the header's initialisation: a block smaller than
  the header makes the pointer arithmetic undefined.
\<close>

definition buf_new :: "size_t \<Rightarrow> uv_buf flist \<Rightarrow> (uv_buf \<times> uv_buf flist) option" where
  "buf_new suggested_size s =
     (if suggested_size < sizeof_buf_list then None
      else let buf = \<lparr>ub_base = Some (nh_brk (fls_heap s)), ub_len = buf_len_of suggested_size\<rparr>;
               (list_item, h) = nh_malloc (fls_heap s) buf None
           in Some (buf, s\<lparr>fls_heap := h\<rparr>))"

definition buf_alloc_2 :: "'handle \<Rightarrow> size_t \<Rightarrow> uv_buf flist \<Rightarrow> (uv_buf \<times> uv_buf flist) option" where
  "buf_alloc_2 handle suggested_size s = buf_new suggested_size s"

definition tls_buf_alloc_simple :: "size_t \<Rightarrow> uv_buf flist \<Rightarrow> (uv_buf \<times> uv_buf flist) option" where
  "tls_buf_alloc_simple suggested_size s =
     (case fls_head s of
        Some list_item \<Rightarrow>
          do { nxt \<leftarrow> fl_next (fls_heap s) list_item;
               buf \<leftarrow> nh_get (fls_heap s) list_item;
               Some (buf, s\<lparr>fls_head := nxt\<rparr>) }
      | None \<Rightarrow> buf_new suggested_size s)"

definition tls_buf_alloc :: "'handle \<Rightarrow> size_t \<Rightarrow> uv_buf flist \<Rightarrow> (uv_buf \<times> uv_buf flist) option" where
  "tls_buf_alloc handle suggested_size s = tls_buf_alloc_simple suggested_size s"

definition tls_buf_free :: "uv_buf flist \<Rightarrow> uv_buf \<Rightarrow> uv_buf flist option" where
  "tls_buf_free s uvbuf =
     (case ub_base uvbuf of
        None \<Rightarrow> Some s
      | Some list_item \<Rightarrow>
          do { (h, head) \<leftarrow> fl_push (fls_heap s) (fls_head s) list_item;
               Some (s\<lparr>fls_heap := h, fls_head := head\<rparr>) })"

definition tls_clear_buf_freelist :: "uv_buf flist \<Rightarrow> uv_buf flist option" where
  "tls_clear_buf_freelist s =
     do { h \<leftarrow> fl_clear (fls_heap s) (fls_head s); Some (s\<lparr>fls_heap := h, fls_head := None\<rparr>) }"

definition tls_get_buf_freelist_ptrptr :: "uv_buf flist \<Rightarrow> addr option" where
  "tls_get_buf_freelist_ptrptr s = fls_head s"

definition buf_free_2 :: "uv_buf flist \<Rightarrow> uv_buf \<Rightarrow> uv_buf flist option" where
  "buf_free_2 s uvbuf =
     (case ub_base uvbuf of None \<Rightarrow> None
      | Some list_item \<Rightarrow> do { h \<leftarrow> nh_free (fls_heap s) list_item; Some (s\<lparr>fls_heap := h\<rparr>) })"

section \<open>The allocators meet the contract\<close>

definition fls_avail :: "'p flist \<Rightarrow> addr list \<Rightarrow> bool" where
  "fls_avail s as \<longleftrightarrow> fl_ok (fls_heap s) (fls_head s) as"

definition fls_owned :: "'p flist \<Rightarrow> addr \<Rightarrow> bool" where
  "fls_owned s a \<longleftrightarrow> nh_mem (fls_heap s) a \<noteq> None \<and>
     (\<forall>as. fl_chain (fls_heap s) (fls_head s) as \<longrightarrow> a \<notin> set as)"

lemma fls_owned_iff:
  "fls_avail s as \<Longrightarrow> fls_owned s a \<longleftrightarrow> nh_mem (fls_heap s) a \<noteq> None \<and> a \<notin> set as"
  unfolding fls_avail_def fl_ok_def fls_owned_def by (metis fl_chain_unique)

lemma fls_pop:
  assumes "fls_avail s (a # as)"
  shows "\<exists>nxt. fls_head s = Some a \<and> fl_next (fls_heap s) a = Some nxt \<and>
    fls_avail (s\<lparr>fls_head := nxt\<rparr>) as \<and>
    (\<forall>b. fls_owned (s\<lparr>fls_head := nxt\<rparr>) b \<longleftrightarrow> b = a \<or> fls_owned s b)"
proof -
  obtain n where n: "fls_head s = Some a" "nh_mem (fls_heap s) a = Some n"
      "fl_chain (fls_heap s) (nd_next n) as" "distinct (a # as)" "nh_ok (fls_heap s)"
    using assms by (auto simp: fls_avail_def fl_ok_def split: option.splits)
  have av: "fls_avail (s\<lparr>fls_head := nd_next n\<rparr>) as"
    using n by (simp add: fls_avail_def fl_ok_def)
  show ?thesis
    by (rule exI [of _ "nd_next n"])
      (use n av in \<open>auto simp: fl_next_def fls_owned_iff [OF av] fls_owned_iff [OF assms]\<close>)
qed

lemma fls_new:
  assumes "fls_avail s []" "nh_malloc (fls_heap s) p None = (a, h)"
  shows "fls_head s = None" "fls_avail (s\<lparr>fls_heap := h\<rparr>) []" "\<not> fls_owned s a"
    "\<forall>b. fls_owned (s\<lparr>fls_heap := h\<rparr>) b \<longleftrightarrow> b = a \<or> fls_owned s b"
    "nh_get h a = Some p" "\<forall>b. b \<noteq> a \<longrightarrow> nh_get h b = nh_get (fls_heap s) b"
proof -
  have ok: "fl_ok (fls_heap s) (fls_head s) []" using assms(1) by (simp add: fls_avail_def)
  then show none: "fls_head s = None" by (simp add: fl_ok_def)
  note m = fl_ok_malloc [OF ok assms(2)]
  show av: "fls_avail (s\<lparr>fls_heap := h\<rparr>) []" using m(1) by (simp add: fls_avail_def)
  show "\<not> fls_owned s a" "\<forall>b. fls_owned (s\<lparr>fls_heap := h\<rparr>) b \<longleftrightarrow> b = a \<or> fls_owned s b"
    using m(3) assms(2) by (auto simp: fls_owned_iff [OF av] fls_owned_iff [OF assms(1)] nh_malloc_def)
  show "nh_get h a = Some p" "\<forall>b. b \<noteq> a \<longrightarrow> nh_get h b = nh_get (fls_heap s) b"
    using assms(2) by (auto simp: nh_malloc_def nh_get_def)
qed

lemma fls_push:
  assumes "fls_avail s as" "fls_owned s a"
  shows "\<exists>h. fl_push (fls_heap s) (fls_head s) a = Some (h, Some a) \<and>
    fls_avail (s\<lparr>fls_heap := h, fls_head := Some a\<rparr>) (a # as) \<and>
    (\<forall>b. fls_owned (s\<lparr>fls_heap := h, fls_head := Some a\<rparr>) b \<longleftrightarrow> b \<noteq> a \<and> fls_owned s b) \<and>
    (\<forall>b. nh_get h b = nh_get (fls_heap s) b)"
proof -
  have pre: "fl_ok (fls_heap s) (fls_head s) as" "nh_mem (fls_heap s) a \<noteq> None" "a \<notin> set as"
    using assms fls_owned_iff [OF assms(1)] by (auto simp: fls_avail_def)
  obtain h where h: "fl_push (fls_heap s) (fls_head s) a = Some (h, Some a)"
      "fl_ok h (Some a) (a # as)" "\<And>b. nh_get h b = nh_get (fls_heap s) b"
      "\<And>b. nh_mem h b \<noteq> None \<longleftrightarrow> nh_mem (fls_heap s) b \<noteq> None"
    using fl_push_ok [OF pre] by metis
  have av: "fls_avail (s\<lparr>fls_heap := h, fls_head := Some a\<rparr>) (a # as)"
    using h(2) by (simp add: fls_avail_def)
  show ?thesis
    by (rule exI [of _ h])
      (use h(1,3,4) av in \<open>auto simp: fls_owned_iff [OF av] fls_owned_iff [OF assms(1)]\<close>)
qed

lemma fls_cleared:
  assumes "fls_avail s as"
  shows "\<exists>h. fl_clear (fls_heap s) (fls_head s) = Some h \<and>
    fls_avail (s\<lparr>fls_heap := h, fls_head := None\<rparr>) [] \<and>
    (\<forall>b. fls_owned (s\<lparr>fls_heap := h, fls_head := None\<rparr>) b \<longleftrightarrow> fls_owned s b) \<and>
    (\<forall>b. nh_mem h b = (if b \<in> set as then None else nh_mem (fls_heap s) b))"
proof -
  obtain h where h: "fl_clear (fls_heap s) (fls_head s) = Some h" "nh_brk h = nh_brk (fls_heap s)"
      "\<forall>a. nh_mem h a = (if a \<in> set as then None else nh_mem (fls_heap s) a)"
    using assms fl_clear_ok unfolding fls_avail_def fl_ok_def by blast
  have av: "fls_avail (s\<lparr>fls_heap := h, fls_head := None\<rparr>) []"
    using assms h by (auto simp: fls_avail_def fl_ok_def nh_ok_def)
  show ?thesis
    by (rule exI [of _ h])
      (use h av in \<open>auto simp: fls_owned_iff [OF av] fls_owned_iff [OF assms]\<close>)
qed

interpretation handles: freelist fls_avail fls_owned "tls_handle_alloc junk" tls_handle_free
  tls_clear_handle_freelist for junk
proof unfold_locales
  fix s :: "'a flist" and as a
  show "fls_avail s as \<Longrightarrow> distinct as" by (simp add: fls_avail_def fl_ok_def)
  show "fls_avail s as \<Longrightarrow> fls_owned s a \<Longrightarrow> a \<notin> set as" by (simp add: fls_owned_iff)
  show "fls_avail s (a # as) \<Longrightarrow> \<exists>s'. tls_handle_alloc junk s = Some (a, s') \<and> fls_avail s' as \<and>
      (\<forall>b. fls_owned s' b \<longleftrightarrow> b = a \<or> fls_owned s b)"
    using fls_pop [of s a as] by (auto simp: tls_handle_alloc_def)
  show "fls_avail s [] \<Longrightarrow> \<exists>a s' as. tls_handle_alloc junk s = Some (a, s') \<and> fls_avail s' as \<and>
      \<not> fls_owned s a \<and> (\<forall>b. fls_owned s' b \<longleftrightarrow> b = a \<or> fls_owned s b)"
    using fls_new [of s junk] by (fastforce simp: tls_handle_alloc_def split: prod.splits)
  show "fls_avail s as \<Longrightarrow> fls_owned s a \<Longrightarrow> \<exists>s'. tls_handle_free s a = Some s' \<and>
      fls_avail s' (a # as) \<and> (\<forall>b. fls_owned s' b \<longleftrightarrow> b \<noteq> a \<and> fls_owned s b)"
    using fls_push [of s as a] by (auto simp: tls_handle_free_def)
  show "fls_avail s as \<Longrightarrow> \<exists>s'. tls_clear_handle_freelist s = Some s' \<and> fls_avail s' [] \<and>
      (\<forall>b. fls_owned s' b \<longleftrightarrow> fls_owned s b)"
    using fls_cleared [of s as] by (auto simp: tls_clear_handle_freelist_def)
qed

lemma tls_req_same:
  "tls_req_alloc = tls_handle_alloc" "tls_req_free = tls_handle_free"
  "tls_clear_req_freelist = tls_clear_handle_freelist"
  by (auto simp: fun_eq_iff tls_req_alloc_def tls_handle_alloc_def tls_req_free_def
      tls_handle_free_def tls_clear_req_freelist_def tls_clear_handle_freelist_def)

interpretation reqs: freelist fls_avail fls_owned "tls_req_alloc junk" tls_req_free
  tls_clear_req_freelist for junk
  unfolding tls_req_same by (rule handles.freelist_axioms)

text \<open>The buffers: every node's \<open>uv_buf_t\<close> points to the node itself.\<close>

definition buf_avail :: "uv_buf flist \<Rightarrow> addr list \<Rightarrow> bool" where
  "buf_avail s as \<longleftrightarrow> fls_avail s as \<and> (\<forall>a p. nh_get (fls_heap s) a = Some p \<longrightarrow> ub_base p = Some a)"

definition buf_take :: "size_t \<Rightarrow> uv_buf flist \<Rightarrow> (addr \<times> uv_buf flist) option" where
  "buf_take suggested_size s =
     do { (buf, s') \<leftarrow> tls_buf_alloc_simple suggested_size s; a \<leftarrow> ub_base buf; Some (a, s') }"

definition buf_give :: "uv_buf flist \<Rightarrow> addr \<Rightarrow> uv_buf flist option" where
  "buf_give s a = do { buf \<leftarrow> nh_get (fls_heap s) a; tls_buf_free s buf }"

lemma nh_get_Some: "nh_mem h a \<noteq> None \<Longrightarrow> \<exists>p. nh_get h a = Some p"
  by (auto simp: nh_get_def)

lemma buf_new_ok:
  assumes "buf_avail s []" "24 \<le> unat sz"
  shows "\<exists>a s'. buf_new sz s = Some (\<lparr>ub_base = Some a, ub_len = buf_len_of sz\<rparr>, s') \<and>
    buf_avail s' [] \<and> \<not> fls_owned s a \<and> (\<forall>b. fls_owned s' b \<longleftrightarrow> b = a \<or> fls_owned s b) \<and>
    nh_get (fls_heap s') a = Some \<lparr>ub_base = Some a, ub_len = buf_len_of sz\<rparr>"
proof -
  let ?b = "\<lparr>ub_base = Some (nh_brk (fls_heap s)), ub_len = buf_len_of sz\<rparr>"
  obtain h where h: "nh_malloc (fls_heap s) ?b None = (nh_brk (fls_heap s), h)"
    by (simp add: nh_malloc_def)
  have av: "fls_avail s []" using assms(1) by (simp add: buf_avail_def)
  note f = fls_new [OF av h]
  have self: "\<forall>a p. nh_get h a = Some p \<longrightarrow> ub_base p = Some a"
    using assms(1) f(5,6) unfolding buf_avail_def
    by (metis option.inject uv_buf.select_convs(1))
  have "buf_avail (s\<lparr>fls_heap := h\<rparr>) []" using f(2) self by (simp add: buf_avail_def)
  moreover have "buf_new sz s = Some (?b, s\<lparr>fls_heap := h\<rparr>)"
    using assms(2) h by (simp add: buf_new_def size_less_iff sizeof_buf_list_def)
  ultimately show ?thesis using f by auto
qed

lemma buf_size_ok: "24 \<le> unat (24 + from_u32 n)"
proof -
  have "unat (from_u32 n) < 2 ^ 32" using unsigned_less [of n] by simp
  then show ?thesis by (subst unat_add_no_wrap) simp_all
qed

interpretation bufs: freelist buf_avail fls_owned "buf_take (24 + from_u32 n)" buf_give
  tls_clear_buf_freelist for n
proof unfold_locales
  let ?sz = "24 + from_u32 n"
  fix s as a
  show "buf_avail s as \<Longrightarrow> distinct as" by (simp add: buf_avail_def fls_avail_def fl_ok_def)
  show "buf_avail s as \<Longrightarrow> fls_owned s a \<Longrightarrow> a \<notin> set as" by (auto simp: buf_avail_def fls_owned_iff)
  show "\<exists>s'. buf_take ?sz s = Some (a, s') \<and> buf_avail s' as \<and>
      (\<forall>b. fls_owned s' b \<longleftrightarrow> b = a \<or> fls_owned s b)" if got: "buf_avail s (a # as)"
  proof -
    have av: "fls_avail s (a # as)" using got by (simp add: buf_avail_def)
    then have "nh_mem (fls_heap s) a \<noteq> None"
      by (auto simp: fls_avail_def fl_ok_def split: option.splits)
    then obtain p where "nh_get (fls_heap s) a = Some p" "ub_base p = Some a"
      using got nh_get_Some unfolding buf_avail_def by blast
    then show ?thesis
      using fls_pop [OF av] got by (auto simp: buf_take_def tls_buf_alloc_simple_def buf_avail_def)
  qed
  show "buf_avail s [] \<Longrightarrow> \<exists>a s' as. buf_take ?sz s = Some (a, s') \<and> buf_avail s' as \<and>
      \<not> fls_owned s a \<and> (\<forall>b. fls_owned s' b \<longleftrightarrow> b = a \<or> fls_owned s b)"
  proof -
    assume b: "buf_avail s []"
    then have "fls_head s = None" by (simp add: buf_avail_def fls_avail_def fl_ok_def)
    then have "buf_take ?sz s = do { (buf, s') \<leftarrow> buf_new ?sz s; a \<leftarrow> ub_base buf; Some (a, s') }"
      by (simp add: buf_take_def tls_buf_alloc_simple_def)
    with buf_new_ok [OF b buf_size_ok, of n] show ?thesis by auto
  qed
  show "\<exists>s'. buf_give s a = Some s' \<and> buf_avail s' (a # as) \<and>
      (\<forall>b. fls_owned s' b \<longleftrightarrow> b \<noteq> a \<and> fls_owned s b)" if got: "buf_avail s as" "fls_owned s a"
  proof -
    have av: "fls_avail s as" using got by (simp add: buf_avail_def)
    have "nh_mem (fls_heap s) a \<noteq> None" using got(2) by (simp add: fls_owned_def)
    then obtain p where "nh_get (fls_heap s) a = Some p" "ub_base p = Some a"
      using got nh_get_Some unfolding buf_avail_def by blast
    then show ?thesis
      using fls_push [OF av got(2)] got(1) by (auto simp: buf_give_def tls_buf_free_def buf_avail_def)
  qed
  show "buf_avail s as \<Longrightarrow> \<exists>s'. tls_clear_buf_freelist s = Some s' \<and> buf_avail s' [] \<and>
      (\<forall>b. fls_owned s' b \<longleftrightarrow> fls_owned s b)"
  proof -
    assume b: "buf_avail s as"
    then obtain h where h: "fl_clear (fls_heap s) (fls_head s) = Some h"
        "fls_avail (s\<lparr>fls_heap := h, fls_head := None\<rparr>) []"
        "\<forall>b. fls_owned (s\<lparr>fls_heap := h, fls_head := None\<rparr>) b \<longleftrightarrow> fls_owned s b"
        "\<forall>b. nh_mem h b = (if b \<in> set as then None else nh_mem (fls_heap s) b)"
      using fls_cleared [of s as] unfolding buf_avail_def by blast
    have "\<forall>a p. nh_get h a = Some p \<longrightarrow> nh_get (fls_heap s) a = Some p"
      using h(4) by (simp add: nh_get_def)
    with b h(2) have "buf_avail (s\<lparr>fls_heap := h, fls_head := None\<rparr>) []"
      by (simp add: buf_avail_def)
    with h show ?thesis by (simp add: tls_clear_buf_freelist_def)
  qed
qed

section \<open>Properties of the thread-local allocators\<close>

definition fls_empty :: "'p flist" where
  "fls_empty = \<lparr>fls_heap = \<lparr>nh_mem = Map.empty, nh_brk = 0\<rparr>, fls_head = None\<rparr>"

lemma fls_empty_ok [simp]: "fls_avail fls_empty []" "\<not> fls_owned fls_empty a"
  by (simp_all add: fls_empty_def fls_avail_def fl_ok_def nh_ok_def fls_owned_def)

lemma fls_live:
  "fls_avail s [] \<Longrightarrow> nh_mem (fls_heap s) a \<noteq> None \<longleftrightarrow> fls_owned s a"
  by (simp add: fls_owned_iff)

text \<open>
  Whatever a client of the handle allocator does (allocate, free what it holds), the
  handles it holds are pairwise distinct, a further allocation succeeds and returns none of
  them, each of them can be freed without undefined behaviour, and clearing the free list
  leaves exactly the handles still held allocated: nothing leaks and nothing in use is freed.
\<close>

theorem tls_handles_exclusive:
  assumes "client_run (tls_handle_alloc junk) tls_handle_free fls_empty s out"
  shows "distinct out \<and>
    (\<exists>a s'. tls_handle_alloc junk s = Some (a, s') \<and> a \<notin> set out) \<and>
    (\<forall>a \<in> set out. \<exists>s'. tls_handle_free s a = Some s') \<and>
    (\<exists>s'. tls_clear_handle_freelist s = Some s' \<and> fls_head s' = None \<and>
       {a. nh_mem (fls_heap s') a \<noteq> None} = set out)"
proof -
  obtain s' where s': "tls_clear_handle_freelist s = Some s'" "fls_avail s' []"
      "\<forall>a. fls_owned s' a \<longleftrightarrow> a \<in> set out"
    using handles.client_run_progress [OF assms fls_empty_ok] by blast
  then have "fls_head s' = None" "{a. nh_mem (fls_heap s') a \<noteq> None} = set out"
    by (simp add: fls_avail_def fl_ok_def) (simp only: fls_live [OF s'(2)] s'(3) Collect_mem_eq)
  then show ?thesis
    using handles.client_run_progress [OF assms fls_empty_ok]
      handles.client_run_owned [OF assms fls_empty_ok] s'(1) by blast
qed

lemma tls_handles_exclusive_witness:
  "\<exists>s. client_run (tls_handle_alloc (0::byte)) tls_handle_free fls_empty s [0] \<and>
    (\<exists>a s'. tls_handle_alloc (0::byte) s = Some (a, s') \<and> a \<notin> {0})"
proof -
  obtain s where s: "tls_handle_alloc (0::byte) fls_empty = Some (0, s)"
    by (simp add: tls_handle_alloc_def fls_empty_def nh_malloc_def)
  then have "client_run (tls_handle_alloc 0) tls_handle_free fls_empty s [0]"
    by (intro run_alloc [OF run_start])
  with tls_handles_exclusive [OF this] show ?thesis by auto
qed

text \<open>
  A buffer that was freed is handed out again by the next allocation with the length
  it was first allocated with, whatever size that allocation suggests.
\<close>

theorem tls_buf_reuse_ignores_size:
  assumes "buf_avail s []" "24 \<le> unat sz"
  shows "\<exists>b s1 s2 s3. tls_buf_alloc handle sz s = Some (b, s1) \<and> ub_len b = buf_len_of sz \<and>
    tls_buf_free s1 b = Some s2 \<and> tls_buf_alloc handle sz' s2 = Some (b, s3)"
proof -
  obtain a s1 where a: "buf_new sz s = Some (\<lparr>ub_base = Some a, ub_len = buf_len_of sz\<rparr>, s1)"
      "buf_avail s1 []" "fls_owned s1 a"
      "nh_get (fls_heap s1) a = Some \<lparr>ub_base = Some a, ub_len = buf_len_of sz\<rparr>"
    using buf_new_ok [OF assms] by auto
  have none: "fls_head s = None" using assms(1) by (simp add: buf_avail_def fls_avail_def fl_ok_def)
  have av: "fls_avail s1 []" using a(2) by (simp add: buf_avail_def)
  obtain h where h: "fl_push (fls_heap s1) (fls_head s1) a = Some (h, Some a)"
      "fls_avail (s1\<lparr>fls_heap := h, fls_head := Some a\<rparr>) [a]" "nh_get h a = nh_get (fls_heap s1) a"
    using fls_push [OF av a(3)] by auto
  from fls_pop [OF h(2)] have "fl_next h a \<noteq> None" by auto
  with a h none show ?thesis
    by (auto simp: tls_buf_alloc_def tls_buf_alloc_simple_def tls_buf_free_def)
qed

lemma tls_buf_reuse_ignores_size_witness:
  "\<exists>b s1 s2 s3. tls_buf_alloc () 64 fls_empty = Some (b, s1) \<and> ub_len b = 40 \<and>
    tls_buf_free s1 b = Some s2 \<and> tls_buf_alloc () 65536 s2 = Some (b, s3)"
proof -
  have "buf_avail fls_empty []" by (simp add: buf_avail_def) (simp add: fls_empty_def nh_get_def)
  from tls_buf_reuse_ignores_size [OF this, of 64 "()" 65536] show ?thesis
    by (simp add: buf_len_of_def sizeof_buf_list_def)
qed

end
