(* ===== verification/TcpPacketDef.thy ===== *)
theory TcpPacketDef
  imports Prelude
begin

text \<open>
  \<^verbatim>\<open>src/tcp/tcp_packet_def.h\<close>: the wire layouts. A full packet travels as frame pages; a
  page is a two-byte leading (two flags and a 14-bit size) and its data; the first page
  starts with the packet leading (2 bytes for the outer protocol, 16 for the inner one) and
  the type name. Bit fields are words of their width, allocated from the least significant
  bit on, as the compilers of the supported (little-endian) targets do.
\<close>

section \<open>States and sizes\<close>

datatype frame_page_state =
  FRAME_PAGE_STATE_RECEIVE_LEADING
| FRAME_PAGE_STATE_RECEIVE_BODY
| FRAME_PAGE_STATE_SKIP

definition PER_FRAME_PAGE_SIZE_MAX :: nat where
  "PER_FRAME_PAGE_SIZE_MAX = 8192"

definition FULL_PACKET_MAX_SIZE_HINT :: nat where
  "FULL_PACKET_MAX_SIZE_HINT = 0xF0000"

definition SIZE_OF_FRAME_PAGE_LEADING :: nat where
  "SIZE_OF_FRAME_PAGE_LEADING = 2"

text \<open>The two protocols: \<open>CTcpInnerPacket\<close> between servers, \<open>CTcpOuterPacket\<close> to clients.\<close>

datatype pkt_class = Inner | Outer

definition SIZE_OF_PACKET_LEADING :: "pkt_class \<Rightarrow> nat" where
  "SIZE_OF_PACKET_LEADING cls = (case cls of Inner \<Rightarrow> 16 | Outer \<Rightarrow> 2)"

section \<open>The page leading\<close>

record page_leading =
  pg_start :: "1 word"
  pg_end :: "1 word"
  pg_data_size :: "14 word"

definition page_leading_word :: "page_leading \<Rightarrow> 16 word" where
  "page_leading_word pl =
     ucast (pg_start pl) OR push_bit 1 (ucast (pg_end pl)) OR push_bit 2 (ucast (pg_data_size pl))"

definition page_leading_bytes :: "page_leading \<Rightarrow> byte list" where
  "page_leading_bytes pl =
     (let v = page_leading_word pl in [ucast v, ucast (drop_bit 8 v)])"

definition page_leading_at :: "byte list \<Rightarrow> page_leading option" where
  "page_leading_at bs =
     (case bs of
        b0 # b1 # _ \<Rightarrow>
          (let v = (ucast b0 OR push_bit 8 (ucast b1) :: 16 word)
           in Some \<lparr>pg_start = ucast v, pg_end = ucast (drop_bit 1 v), pg_data_size = ucast (drop_bit 2 v)\<rparr>)
      | _ \<Rightarrow> None)"

section \<open>The packet leading\<close>

definition le_bytes :: "64 word \<Rightarrow> byte list" where
  "le_bytes w = map (\<lambda>i. ucast (drop_bit (8 * i) w)) [0..<8]"

definition le_word :: "byte list \<Rightarrow> 64 word" where
  "le_word bs = foldr (\<lambda>b acc. ucast b OR push_bit 8 acc) bs 0"

text \<open>
  The name length is the first byte of both leadings, the serial number the second; the
  inner leading has the identifier in bytes 8 to 15.
\<close>

definition pl_name_len :: "byte list \<Rightarrow> byte option" where
  "pl_name_len bs = (case bs of [] \<Rightarrow> None | b # _ \<Rightarrow> Some b)"

definition pl_serial_no :: "byte list \<Rightarrow> byte option" where
  "pl_serial_no bs = (case bs of _ # b # _ \<Rightarrow> Some b | _ \<Rightarrow> None)"

definition pl_inner_uuid :: "byte list \<Rightarrow> 64 word option" where
  "pl_inner_uuid bs = map_option le_word (read_at bs 8 8)"

section \<open>Facts\<close>

lemma frame_sizes [simp]:
  "PER_FRAME_PAGE_SIZE_MAX = 8192" "FULL_PACKET_MAX_SIZE_HINT = 983040"
  "SIZE_OF_FRAME_PAGE_LEADING = 2"
  "SIZE_OF_PACKET_LEADING Inner = 16" "SIZE_OF_PACKET_LEADING Outer = 2"
  by (simp_all add: PER_FRAME_PAGE_SIZE_MAX_def FULL_PACKET_MAX_SIZE_HINT_def
      SIZE_OF_FRAME_PAGE_LEADING_def SIZE_OF_PACKET_LEADING_def)

lemma packet_leading_bounds: "2 \<le> SIZE_OF_PACKET_LEADING cls" "SIZE_OF_PACKET_LEADING cls \<le> 16"
  by (cases cls; simp)+

lemma length_page_leading_bytes [simp]: "length (page_leading_bytes pl) = 2"
  by (simp add: page_leading_bytes_def Let_def)

lemma length_le_bytes [simp]: "length (le_bytes w) = 8"
  by (simp add: le_bytes_def)

lemmas word_bit_iffs = bit_or_iff bit_push_bit_iff bit_drop_bit_eq comp_apply bit_unsigned_iff

lemma page_leading_roundtrip [simp]: "page_leading_at (page_leading_bytes pl @ rest) = Some pl"
proof -
  let ?v = "page_leading_word pl"
  have v: "(ucast (ucast ?v :: byte) OR push_bit 8 (ucast (ucast (drop_bit 8 ?v) :: byte)) :: 16 word) = ?v"
    by (rule bit_word_eqI) (simp only: word_bit_iffs, auto)
  have "(ucast ?v :: 1 word) = pg_start pl" "(ucast (drop_bit 1 ?v) :: 1 word) = pg_end pl"
    "(ucast (drop_bit 2 ?v) :: 14 word) = pg_data_size pl"
    by (rule bit_word_eqI; simp only: page_leading_word_def word_bit_iffs; auto dest: bit_imp_le_length)+
  then show ?thesis
    by (simp only: page_leading_at_def page_leading_bytes_def Let_def append_Cons list.case v) simp
qed

lemma page_leading_word_fields:
  fixes v :: "16 word"
  shows "page_leading_word \<lparr>pg_start = ucast v, pg_end = ucast (drop_bit 1 v), pg_data_size = ucast (drop_bit 2 v)\<rparr> = v"
proof (rule bit_word_eqI)
  fix n
  assume "n < LENGTH(16)"
  then consider "n = 0" | "n = 1" | m where "n = 2 + m" by (metis One_nat_def Suc_1 add_2_eq_Suc nat.exhaust)
  then show "bit (page_leading_word \<lparr>pg_start = ucast v, pg_end = ucast (drop_bit 1 v), pg_data_size = ucast (drop_bit 2 v)\<rparr>) n = bit v n"
    by cases (simp only: page_leading_word_def word_bit_iffs page_leading.select_convs; use \<open>n < LENGTH(16)\<close> in auto)+
qed

lemma page_leading_bytes_at:
  assumes "page_leading_at bs = Some pl"
  shows "\<exists>rest. bs = page_leading_bytes pl @ rest"
proof -
  obtain b0 b1 rest where bs: "bs = b0 # b1 # rest"
    using assms by (auto simp: page_leading_at_def split: list.splits)
  let ?v = "ucast b0 OR push_bit 8 (ucast b1) :: 16 word"
  have pl: "page_leading_word pl = ?v"
    using assms page_leading_word_fields [of ?v] by (simp add: bs page_leading_at_def Let_def)
  have "(ucast ?v :: byte) = b0" "(ucast (drop_bit 8 ?v) :: byte) = b1"
    by (rule bit_word_eqI; simp only: word_bit_iffs; auto dest: bit_imp_le_length)+
  then show ?thesis by (simp add: bs page_leading_bytes_def Let_def pl)
qed

lemma page_leading_at_some: "2 \<le> length bs \<Longrightarrow> \<exists>pl. page_leading_at bs = Some pl"
  by (auto simp: page_leading_at_def Let_def numeral_2_eq_2 Suc_le_length_iff split: list.splits)

lemma page_leading_at_append:
  "2 \<le> length bs \<Longrightarrow> page_leading_at (bs @ rest) = page_leading_at bs"
  by (auto simp: page_leading_at_def numeral_2_eq_2 Suc_le_length_iff)

lemma le_word_Cons: "le_word (b # bs) = ucast b OR push_bit 8 (le_word bs)"
  by (simp add: le_word_def)

lemma le_word_upto:
  "n \<le> 8 \<Longrightarrow> le_word (map (\<lambda>i. ucast (drop_bit (8 * i) w)) [8 - n..<8]) = drop_bit (8 * (8 - n)) w"
proof (induction n)
  case 0
  have "drop_bit 64 w = 0" by (rule bit_word_eqI) (auto simp: bit_drop_bit_eq dest: bit_imp_le_length)
  then show ?case by (simp add: le_word_def)
next
  case (Suc n)
  have step: "8 - n = Suc (8 - Suc n)" using Suc.prems by simp
  let ?k = "8 - Suc n"
  have "[?k..<8] = ?k # [8 - n..<8]" using Suc.prems by (subst upt_rec) (simp add: step)
  then have "le_word (map (\<lambda>i. ucast (drop_bit (8 * i) w)) [?k..<8]) =
      ucast (ucast (drop_bit (8 * ?k) w) :: byte) OR push_bit 8 (drop_bit (8 * (8 - n)) w)"
    using Suc by (simp add: le_word_Cons)
  also have "\<dots> = drop_bit (8 * ?k) w"
  proof (rule bit_word_eqI)
    fix i
    assume "i < LENGTH(64)"
    then consider "i < 8" | j where "i = 8 + j" by (metis le_Suc_ex not_le)
    then show "bit (ucast (ucast (drop_bit (8 * ?k) w) :: byte) OR push_bit 8 (drop_bit (8 * (8 - n)) w)) i =
        bit (drop_bit (8 * ?k) w) i"
      by cases (simp only: word_bit_iffs step; use \<open>i < LENGTH(64)\<close> in \<open>auto simp: ac_simps\<close>)+
  qed
  finally show ?case .
qed

lemma le_word_bytes [simp]: "le_word (le_bytes w) = w"
  using le_word_upto [of 8 w] by (simp add: le_bytes_def)

end
