(* ===== verification/PacketBuffer.thy ===== *)
theory PacketBuffer
  imports Freelist TcpPacketDef
begin

text \<open>
  The packet buffers of \<^verbatim>\<open>src/tcp/TcpInnerPacket.cpp\<close> and \<^verbatim>\<open>src/tcp/TcpOuterPacket.cpp\<close>:
  \<open>packet_buffer_t\<close> nodes on static free lists. Both files have the same three functions;
  the difference is the number of nodes a refill allocates, an argument here.
\<close>

section \<open>The functions\<close>

text \<open>\<open>struct packet_buffer_t\<close>; \<open>pb_data\<close> is the part of the block behind the struct.\<close>

record packet_buffer =
  pb_data :: "byte list"
  pb_size :: size_t
  pb_cap_size :: size_t

definition sizeof_packet_buffer :: size_t where
  "sizeof_packet_buffer = 32"

text \<open>One round of the refill loop: allocate a node and push it.\<close>

definition packet_buffer_new ::
  "(addr \<Rightarrow> nat \<Rightarrow> byte) \<Rightarrow> size_t \<Rightarrow> packet_buffer flist \<Rightarrow> packet_buffer flist option" where
  "packet_buffer_new junk capacity_hint s =
     (if capacity_hint < sizeof_packet_buffer then None
      else let cap = capacity_hint - sizeof_packet_buffer;
               buf = \<lparr>pb_data = malloc_bytes (junk (nh_brk (fls_heap s))) (unat cap),
                      pb_size = 0, pb_cap_size = cap\<rparr>;
               (tmp, h) = nh_malloc (fls_heap s) buf (fls_head s)
           in Some (s\<lparr>fls_heap := h, fls_head := Some tmp\<rparr>))"

primrec packet_buffer_refill ::
  "(addr \<Rightarrow> nat \<Rightarrow> byte) \<Rightarrow> size_t \<Rightarrow> nat \<Rightarrow> packet_buffer flist \<Rightarrow> packet_buffer flist option" where
  "packet_buffer_refill junk capacity_hint 0 s = Some s"
| "packet_buffer_refill junk capacity_hint (Suc n) s =
     Option.bind (packet_buffer_new junk capacity_hint s) (packet_buffer_refill junk capacity_hint n)"

text \<open>
  The allocation calls itself after a refill: with \<open>num_hint\<close> 0 it never returns, which is
  the value \<open>None\<close>.
\<close>

partial_function (option) packet_buffer_alloc ::
  "(addr \<Rightarrow> nat \<Rightarrow> byte) \<Rightarrow> size_t \<Rightarrow> nat \<Rightarrow> packet_buffer flist \<Rightarrow> (addr \<times> packet_buffer flist) option" where
  "packet_buffer_alloc junk capacity_hint num_hint s =
     (case fls_head s of
        Some entry \<Rightarrow>
          Option.bind (fl_next (fls_heap s) entry) (\<lambda>nxt.
          Option.bind (nh_get (fls_heap s) entry) (\<lambda>buf.
          Option.bind (nh_put (fls_heap s) entry (buf\<lparr>pb_size := 0\<rparr>)) (\<lambda>h.
          Some (entry, s\<lparr>fls_heap := h, fls_head := nxt\<rparr>))))
      | None \<Rightarrow>
          Option.bind (packet_buffer_refill junk capacity_hint num_hint s) (\<lambda>s'.
          packet_buffer_alloc junk capacity_hint num_hint s'))"

definition packet_buffer_free :: "packet_buffer flist \<Rightarrow> addr \<Rightarrow> packet_buffer flist option" where
  "packet_buffer_free s entry =
     do { (h, head) \<leftarrow> fl_push (fls_heap s) (fls_head s) entry;
          Some (s\<lparr>fls_heap := h, fls_head := head\<rparr>) }"

definition packet_buffer_real_free :: "packet_buffer flist \<Rightarrow> packet_buffer flist option" where
  "packet_buffer_real_free s =
     do { h \<leftarrow> fl_clear (fls_heap s) (fls_head s); Some (s\<lparr>fls_heap := h, fls_head := None\<rparr>) }"

section \<open>Well-formed lists of packet buffers\<close>

definition pb_ok :: "size_t \<Rightarrow> packet_buffer \<Rightarrow> bool" where
  "pb_ok hint b \<longleftrightarrow> pb_cap_size b = hint - sizeof_packet_buffer \<and>
     length (pb_data b) = unat (pb_cap_size b) \<and> unat (pb_size b) \<le> unat (pb_cap_size b)"

definition pb_avail :: "size_t \<Rightarrow> packet_buffer flist \<Rightarrow> addr list \<Rightarrow> bool" where
  "pb_avail hint s as \<longleftrightarrow> fls_avail s as \<and> (\<forall>a b. nh_get (fls_heap s) a = Some b \<longrightarrow> pb_ok hint b)"

text \<open>The bytes a buffer holds.\<close>

definition pb_bytes :: "packet_buffer \<Rightarrow> byte list" where
  "pb_bytes b = take (unat (pb_size b)) (pb_data b)"

lemma all_nodes_upd:
  assumes "\<forall>c b. nh_get h c = Some b \<longrightarrow> P b" "nh_get h' a = Some b0" "P b0"
    and "\<And>c. c \<noteq> a \<Longrightarrow> nh_get h' c = nh_get h c"
  shows "\<forall>c b. nh_get h' c = Some b \<longrightarrow> P b"
  using assms by (metis option.inject)

lemma packet_buffer_new_ok:
  assumes "pb_avail hint s as" "32 \<le> unat hint"
  shows "\<exists>a s'. packet_buffer_new junk hint s = Some s' \<and> pb_avail hint s' (a # as) \<and>
    \<not> fls_owned s a \<and> (\<forall>b. fls_owned s' b \<longleftrightarrow> fls_owned s b) \<and>
    (\<forall>b. fls_owned s b \<longrightarrow> nh_get (fls_heap s') b = nh_get (fls_heap s) b)"
proof -
  let ?buf = "\<lparr>pb_data = malloc_bytes (junk (nh_brk (fls_heap s))) (unat (hint - sizeof_packet_buffer)),
    pb_size = 0, pb_cap_size = hint - sizeof_packet_buffer\<rparr>"
  let ?a = "nh_brk (fls_heap s)"
  obtain h where h: "nh_malloc (fls_heap s) ?buf (fls_head s) = (?a, h)"
    by (simp add: nh_malloc_def)
  have av: "fls_avail s as" and oks: "\<forall>a b. nh_get (fls_heap s) a = Some b \<longrightarrow> pb_ok hint b"
    using assms(1) by (auto simp: pb_avail_def)
  have ok: "fl_ok (fls_heap s) (fls_head s) as" using av by (simp add: fls_avail_def)
  note m = fl_ok_malloc [OF ok h]
  let ?s = "s\<lparr>fls_heap := h, fls_head := Some ?a\<rparr>"
  have mem: "nh_mem h ?a = Some \<lparr>nd_payload = ?buf, nd_next = fls_head s\<rparr>"
    "\<And>b. b \<noteq> ?a \<Longrightarrow> nh_mem h b = nh_mem (fls_heap s) b"
    using h by (auto simp: nh_malloc_def)
  have av': "fls_avail ?s (?a # as)"
    using m(1,2) mem(1) by (simp add: fls_avail_def fl_ok_def)
  have "pb_ok hint ?buf" by (simp add: pb_ok_def)
  from all_nodes_upd [OF oks m(4) this] mem(2) av' have "pb_avail hint ?s (?a # as)"
    by (simp add: pb_avail_def nh_get_def)
  moreover have "packet_buffer_new junk hint s = Some ?s"
    using assms(2) h by (simp add: packet_buffer_new_def sizeof_packet_buffer_def size_less_iff Let_def)
  moreover have "\<forall>b. fls_owned ?s b \<longleftrightarrow> fls_owned s b"
    using m(3) mem by (auto simp: fls_owned_iff [OF av'] fls_owned_iff [OF av]) (metis mem(2))+
  moreover have "\<not> fls_owned s ?a" using m(3) by (simp add: fls_owned_iff [OF av])
  moreover have "\<forall>b. fls_owned s b \<longrightarrow> nh_get h b = nh_get (fls_heap s) b"
    using m(3) mem(2) by (metis fls_owned_iff [OF av] nh_get_def)
  ultimately show ?thesis by auto
qed

lemma packet_buffer_refill_ok:
  assumes "pb_avail hint s as" "32 \<le> unat hint"
  shows "\<exists>s' bs. packet_buffer_refill junk hint n s = Some s' \<and> pb_avail hint s' (bs @ as) \<and>
    length bs = n \<and> (\<forall>a \<in> set bs. \<not> fls_owned s a) \<and> (\<forall>b. fls_owned s' b \<longleftrightarrow> fls_owned s b) \<and>
    (\<forall>b. fls_owned s b \<longrightarrow> nh_get (fls_heap s') b = nh_get (fls_heap s) b)"
  using assms(1)
proof (induction n arbitrary: s as)
  case 0
  then show ?case by (auto intro!: exI [of _ "[]"])
next
  case (Suc n)
  obtain a s1 where s1: "packet_buffer_new junk hint s = Some s1" "pb_avail hint s1 (a # as)"
      "\<not> fls_owned s a" "\<forall>b. fls_owned s1 b \<longleftrightarrow> fls_owned s b"
      "\<forall>b. fls_owned s b \<longrightarrow> nh_get (fls_heap s1) b = nh_get (fls_heap s) b"
    using packet_buffer_new_ok [OF Suc.prems assms(2)] by blast
  obtain s2 bs where s2: "packet_buffer_refill junk hint n s1 = Some s2" "pb_avail hint s2 (bs @ a # as)"
      "length bs = n" "\<forall>a \<in> set bs. \<not> fls_owned s1 a" "\<forall>b. fls_owned s2 b \<longleftrightarrow> fls_owned s1 b"
      "\<forall>b. fls_owned s1 b \<longrightarrow> nh_get (fls_heap s2) b = nh_get (fls_heap s1) b"
    using Suc.IH [OF s1(2)] by blast
  show ?case
    by (rule exI [of _ s2], rule exI [of _ "bs @ [a]"]) (use s1 s2 in auto)
qed

text \<open>What an allocation promises: an empty buffer of the list's capacity, owned by the caller.\<close>

lemma packet_buffer_pop_ok:
  assumes "pb_avail hint s (a # as)"
  shows "\<exists>s' b. packet_buffer_alloc junk hint n s = Some (a, s') \<and> pb_avail hint s' as \<and>
    (\<forall>c. fls_owned s' c \<longleftrightarrow> c = a \<or> fls_owned s c) \<and>
    nh_get (fls_heap s') a = Some b \<and> pb_size b = 0 \<and>
    (\<forall>c. c \<noteq> a \<longrightarrow> nh_get (fls_heap s') c = nh_get (fls_heap s) c)"
proof -
  have av: "fls_avail s (a # as)" and oks: "\<forall>a b. nh_get (fls_heap s) a = Some b \<longrightarrow> pb_ok hint b"
    using assms by (auto simp: pb_avail_def)
  obtain nxt where nxt: "fls_head s = Some a" "fl_next (fls_heap s) a = Some nxt"
      "fls_avail (s\<lparr>fls_head := nxt\<rparr>) as"
      "\<forall>b. fls_owned (s\<lparr>fls_head := nxt\<rparr>) b \<longleftrightarrow> b = a \<or> fls_owned s b"
    using fls_pop [OF av] by blast
  have mem: "nh_mem (fls_heap s) a \<noteq> None" using nxt(2) by (auto simp: fl_next_def)
  then obtain b where b: "nh_get (fls_heap s) a = Some b" by (auto simp: nh_get_def)
  let ?b = "b\<lparr>pb_size := 0\<rparr>"
  obtain h where h: "nh_put (fls_heap s) a ?b = Some h" "nh_get h a = Some ?b"
      "\<And>c. c \<noteq> a \<Longrightarrow> nh_get h c = nh_get (fls_heap s) c"
      "\<And>c. nh_mem h c \<noteq> None \<longleftrightarrow> nh_mem (fls_heap s) c \<noteq> None"
    using nh_put_ok [OF mem] by metis
  let ?s = "s\<lparr>fls_heap := h, fls_head := nxt\<rparr>"
  have av': "fls_avail ?s as"
    using fl_ok_put [OF _ h(1)] nxt(3) by (simp add: fls_avail_def)
  have own: "\<forall>c. fls_owned ?s c \<longleftrightarrow> c = a \<or> fls_owned s c"
    using nxt(4) h(4) by (simp add: fls_owned_iff [OF av'] fls_owned_iff [OF nxt(3)])
  have "pb_ok hint ?b" using oks b by (auto simp: pb_ok_def)
  from all_nodes_upd [OF oks h(2) this h(3)] av' have "pb_avail hint ?s as"
    by (simp add: pb_avail_def)
  moreover have "packet_buffer_alloc junk hint n s = Some (a, ?s)"
    using nxt b h by (subst packet_buffer_alloc.simps) simp
  ultimately show ?thesis using h own by auto
qed

lemma packet_buffer_alloc_ok:
  assumes "pb_avail hint s as" "32 \<le> unat hint" "0 < n"
  shows "\<exists>a s' as' b. packet_buffer_alloc junk hint n s = Some (a, s') \<and> pb_avail hint s' as' \<and>
    \<not> fls_owned s a \<and> (\<forall>c. fls_owned s' c \<longleftrightarrow> c = a \<or> fls_owned s c) \<and>
    nh_get (fls_heap s') a = Some b \<and> pb_size b = 0 \<and>
    (\<forall>c. fls_owned s c \<longrightarrow> nh_get (fls_heap s') c = nh_get (fls_heap s) c)"
proof (cases as)
  case (Cons a as')
  have "\<not> fls_owned s a" using assms(1) fls_owned_iff [of s as a] Cons by (simp add: pb_avail_def)
  with packet_buffer_pop_ok [of hint s a as' junk n] assms(1) Cons show ?thesis by metis
next
  case Nil
  obtain s1 bs where s1: "packet_buffer_refill junk hint n s = Some s1" "pb_avail hint s1 bs"
      "length bs = n" "\<forall>a \<in> set bs. \<not> fls_owned s a" "\<forall>b. fls_owned s1 b \<longleftrightarrow> fls_owned s b"
      "\<forall>b. fls_owned s b \<longrightarrow> nh_get (fls_heap s1) b = nh_get (fls_heap s) b"
    using packet_buffer_refill_ok [OF assms(1,2), of junk n] Nil by auto
  from s1(3) assms(3) obtain a bs' where bs: "bs = a # bs'" by (cases bs) auto
  have "fls_head s = None" using assms(1) Nil by (simp add: pb_avail_def fls_avail_def fl_ok_def)
  then have "packet_buffer_alloc junk hint n s = packet_buffer_alloc junk hint n s1"
    using s1(1) by (subst packet_buffer_alloc.simps) simp
  moreover have "\<not> fls_owned s a" using s1(4) bs by simp
  ultimately show ?thesis
    using packet_buffer_pop_ok [of hint s1 a bs' junk n] s1(2,5,6) bs by metis
qed

lemma packet_buffer_free_ok:
  assumes "pb_avail hint s as" "fls_owned s a"
  shows "\<exists>s'. packet_buffer_free s a = Some s' \<and> pb_avail hint s' (a # as) \<and>
    (\<forall>b. fls_owned s' b \<longleftrightarrow> b \<noteq> a \<and> fls_owned s b) \<and>
    (\<forall>b. nh_get (fls_heap s') b = nh_get (fls_heap s) b)"
proof -
  have av: "fls_avail s as" using assms(1) by (simp add: pb_avail_def)
  from fls_push [OF av assms(2)] assms(1) show ?thesis
    by (auto simp: packet_buffer_free_def pb_avail_def)
qed

lemma packet_buffer_real_free_ok:
  assumes "pb_avail hint s as"
  shows "\<exists>s'. packet_buffer_real_free s = Some s' \<and> pb_avail hint s' [] \<and>
    (\<forall>b. fls_owned s' b \<longleftrightarrow> fls_owned s b)"
proof -
  obtain h where h: "fl_clear (fls_heap s) (fls_head s) = Some h"
      "fls_avail (s\<lparr>fls_heap := h, fls_head := None\<rparr>) []"
      "\<forall>b. fls_owned (s\<lparr>fls_heap := h, fls_head := None\<rparr>) b \<longleftrightarrow> fls_owned s b"
      "\<forall>b. nh_mem h b = (if b \<in> set as then None else nh_mem (fls_heap s) b)"
    using fls_cleared [of s as] assms unfolding pb_avail_def by blast
  have "\<forall>a b. nh_get h a = Some b \<longrightarrow> nh_get (fls_heap s) a = Some b"
    using h(4) by (simp add: nh_get_def)
  with assms h(2) have "pb_avail hint (s\<lparr>fls_heap := h, fls_head := None\<rparr>) []"
    by (auto simp: pb_avail_def)
  with h show ?thesis by (simp add: packet_buffer_real_free_def)
qed

text \<open>Replacing the contents of an owned buffer.\<close>

lemma pb_put_ok:
  assumes "pb_avail hint s as" "fls_owned s a" "pb_ok hint b"
  shows "\<exists>h. nh_put (fls_heap s) a b = Some h \<and> pb_avail hint (s\<lparr>fls_heap := h\<rparr>) as \<and>
    (\<forall>c. fls_owned (s\<lparr>fls_heap := h\<rparr>) c \<longleftrightarrow> fls_owned s c) \<and> nh_get h a = Some b \<and>
    (\<forall>c. c \<noteq> a \<longrightarrow> nh_get h c = nh_get (fls_heap s) c)"
proof -
  have av: "fls_avail s as" and oks: "\<forall>a b. nh_get (fls_heap s) a = Some b \<longrightarrow> pb_ok hint b"
    using assms(1) by (auto simp: pb_avail_def)
  have mem: "nh_mem (fls_heap s) a \<noteq> None" using assms(2) by (simp add: fls_owned_def)
  obtain h where h: "nh_put (fls_heap s) a b = Some h" "nh_get h a = Some b"
      "\<And>c. c \<noteq> a \<Longrightarrow> nh_get h c = nh_get (fls_heap s) c"
      "\<And>c. nh_mem h c \<noteq> None \<longleftrightarrow> nh_mem (fls_heap s) c \<noteq> None"
    using nh_put_ok [OF mem] by metis
  have av': "fls_avail (s\<lparr>fls_heap := h\<rparr>) as"
    using fl_ok_put [OF _ h(1)] av by (simp add: fls_avail_def)
  with all_nodes_upd [OF oks h(2) assms(3) h(3)] have "pb_avail hint (s\<lparr>fls_heap := h\<rparr>) as"
    by (simp add: pb_avail_def)
  moreover have "\<forall>c. fls_owned (s\<lparr>fls_heap := h\<rparr>) c \<longleftrightarrow> fls_owned s c"
    using h(4) by (simp add: fls_owned_iff [OF av'] fls_owned_iff [OF av])
  ultimately show ?thesis using h by auto
qed

lemma pb_owned_get:
  "pb_avail hint s as \<Longrightarrow> fls_owned s a \<Longrightarrow> \<exists>b. nh_get (fls_heap s) a = Some b \<and> pb_ok hint b"
  using nh_get_Some unfolding pb_avail_def fls_owned_def by blast

section \<open>The contract\<close>

lemma hint_ok: "32 \<le> unat (32 + from_u32 n)"
proof -
  have "unat (from_u32 n) < 2 ^ 32" using unsigned_less [of n] by simp
  then show ?thesis by (subst unat_add_no_wrap) simp_all
qed

interpretation pbufs: freelist "pb_avail (32 + from_u32 c)" fls_owned
  "packet_buffer_alloc junk (32 + from_u32 c) (Suc n)" packet_buffer_free packet_buffer_real_free
  for c junk n
proof unfold_locales
  let ?hint = "32 + from_u32 c"
  fix s as a
  show "pb_avail ?hint s as \<Longrightarrow> distinct as" by (simp add: pb_avail_def fls_avail_def fl_ok_def)
  show "pb_avail ?hint s as \<Longrightarrow> fls_owned s a \<Longrightarrow> a \<notin> set as"
    by (auto simp: pb_avail_def fls_owned_iff)
  show "pb_avail ?hint s (a # as) \<Longrightarrow> \<exists>s'. packet_buffer_alloc junk ?hint (Suc n) s = Some (a, s') \<and>
      pb_avail ?hint s' as \<and> (\<forall>b. fls_owned s' b \<longleftrightarrow> b = a \<or> fls_owned s b)"
    using packet_buffer_pop_ok by metis
  show "pb_avail ?hint s [] \<Longrightarrow> \<exists>a s' as. packet_buffer_alloc junk ?hint (Suc n) s = Some (a, s') \<and>
      pb_avail ?hint s' as \<and> \<not> fls_owned s a \<and> (\<forall>b. fls_owned s' b \<longleftrightarrow> b = a \<or> fls_owned s b)"
    using packet_buffer_alloc_ok [OF _ hint_ok, of c s "[]" "Suc n" junk] by auto
  show "pb_avail ?hint s as \<Longrightarrow> fls_owned s a \<Longrightarrow> \<exists>s'. packet_buffer_free s a = Some s' \<and>
      pb_avail ?hint s' (a # as) \<and> (\<forall>b. fls_owned s' b \<longleftrightarrow> b \<noteq> a \<and> fls_owned s b)"
    using packet_buffer_free_ok by metis
  show "pb_avail ?hint s as \<Longrightarrow> \<exists>s'. packet_buffer_real_free s = Some s' \<and> pb_avail ?hint s' [] \<and>
      (\<forall>b. fls_owned s' b \<longleftrightarrow> fls_owned s b)"
    using packet_buffer_real_free_ok by metis
qed

lemma fls_empty_avail [simp]: "pb_avail hint fls_empty []"
  by (simp add: pb_avail_def) (simp add: fls_empty_def nh_get_def)

text \<open>
  C23. Whatever a client of a packet buffer list does (allocate with any capacity that holds
  the struct and any positive number of nodes per refill, free what it holds), allocation
  returns, never a buffer that is still held; every held buffer can be freed without
  undefined behaviour; and the final \<open>packet_buffer_real_free\<close> leaves exactly the held
  buffers allocated.
\<close>

theorem packet_buffers_exclusive:
  assumes "client_run (packet_buffer_alloc junk (32 + from_u32 c) (Suc n)) packet_buffer_free
    fls_empty s out"
  shows "distinct out \<and>
    (\<exists>a s'. packet_buffer_alloc junk (32 + from_u32 c) (Suc n) s = Some (a, s') \<and> a \<notin> set out) \<and>
    (\<forall>a \<in> set out. \<exists>s'. packet_buffer_free s a = Some s') \<and>
    (\<exists>s'. packet_buffer_real_free s = Some s' \<and> fls_head s' = None \<and>
       {a. nh_mem (fls_heap s') a \<noteq> None} = set out)"
proof -
  note prog = pbufs.client_run_progress [OF assms fls_empty_avail fls_empty_ok(2)]
  obtain s' where s': "packet_buffer_real_free s = Some s'" "pb_avail (32 + from_u32 c) s' []"
      "\<forall>a. fls_owned s' a \<longleftrightarrow> a \<in> set out"
    using prog by blast
  have av: "fls_avail s' []" using s'(2) by (simp add: pb_avail_def)
  then have "fls_head s' = None" "{a. nh_mem (fls_heap s') a \<noteq> None} = set out"
    by (simp add: fls_avail_def fl_ok_def) (simp only: fls_live [OF av] s'(3) Collect_mem_eq)
  then show ?thesis
    using prog pbufs.client_run_owned [OF assms fls_empty_avail fls_empty_ok(2)] s'(1) by blast
qed

lemma packet_buffers_exclusive_witness:
  "\<exists>s a. client_run (packet_buffer_alloc (\<lambda>_ _. 0) (32 + from_u32 64) (Suc 1)) packet_buffer_free
      fls_empty s [a] \<and>
    (\<exists>b s'. packet_buffer_alloc (\<lambda>_ _. 0) (32 + from_u32 64) (Suc 1) s = Some (b, s') \<and> b \<noteq> a)"
proof -
  obtain a s where "packet_buffer_alloc (\<lambda>_ _. 0) (32 + from_u32 64) (Suc 1) fls_empty = Some (a, s)"
    using pbufs.alloc_fresh [OF fls_empty_avail] by blast
  then have "client_run (packet_buffer_alloc (\<lambda>_ _. 0) (32 + from_u32 64) (Suc 1)) packet_buffer_free
      fls_empty s [a]"
    by (intro run_alloc [OF run_start])
  with packet_buffers_exclusive [OF this] show ?thesis by auto
qed

end
