(* ===== verification/TcpPacket.thy ===== *)
theory TcpPacket
  imports PacketBuffer BipBuf
begin

text \<open>
  \<open>CTcpInnerPacket\<close> (\<^verbatim>\<open>src/tcp/TcpInnerPacket.cpp\<close>) and \<open>CTcpOuterPacket\<close>
  (\<^verbatim>\<open>src/tcp/TcpOuterPacket.cpp\<close>): framing packets into pages and reassembling them. The two
  files are the same text up to the packet leading, the refill count of the receive buffers
  and the test of a return code; \<open>pkt_class\<close> selects these. The packets handed to
  \<open>_gotPacketCb\<close> are collected in \<open>pk_got\<close>.
\<close>

section \<open>State\<close>

record pkt_state =
  pk_recv_state :: frame_page_state
  pk_recv_page_leading :: page_leading
  pk_ref_recv_buf :: "addr option"
  pk_ref_send_buf :: "addr option"
  pk_recv_list :: "packet_buffer flist"
  pk_send_list :: "packet_buffer flist"
  pk_got :: "byte list list"

definition s_RECV_PACKET_BUFFER_CAPACITY_HINT :: size_t where
  "s_RECV_PACKET_BUFFER_CAPACITY_HINT = word_of_nat FULL_PACKET_MAX_SIZE_HINT"

definition s_SEND_PACKET_BUFFER_CAPACITY_HINT :: size_t where
  "s_SEND_PACKET_BUFFER_CAPACITY_HINT = word_of_nat (PER_FRAME_PAGE_SIZE_MAX * 2)"

definition recv_num_hint :: "pkt_class \<Rightarrow> nat" where
  "recv_num_hint cls = (case cls of Inner \<Rightarrow> 1 | Outer \<Rightarrow> 64)"

text \<open>The constructor; the lists are static members.\<close>

definition tcp_packet_new :: "packet_buffer flist \<Rightarrow> packet_buffer flist \<Rightarrow> pkt_state" where
  "tcp_packet_new recv_list send_list =
     \<lparr>pk_recv_state = FRAME_PAGE_STATE_RECEIVE_LEADING,
      pk_recv_page_leading = \<lparr>pg_start = 0, pg_end = 0, pg_data_size = 0\<rparr>,
      pk_ref_recv_buf = None, pk_ref_send_buf = None,
      pk_recv_list = recv_list, pk_send_list = send_list, pk_got = []\<rparr>"

definition packet_release :: "packet_buffer flist \<Rightarrow> addr option \<Rightarrow> packet_buffer flist option" where
  "packet_release lst ref = (case ref of None \<Rightarrow> Some lst | Some a \<Rightarrow> packet_buffer_free lst a)"

definition tcp_clear :: "pkt_state \<Rightarrow> pkt_state option" where
  "tcp_clear st =
     do { rl \<leftarrow> packet_release (pk_recv_list st) (pk_ref_recv_buf st);
          sl \<leftarrow> packet_release (pk_send_list st) (pk_ref_send_buf st);
          Some (st\<lparr>pk_recv_state := FRAME_PAGE_STATE_RECEIVE_LEADING,
                   pk_recv_list := rl, pk_ref_recv_buf := None,
                   pk_send_list := sl, pk_ref_send_buf := None\<rparr>) }"

section \<open>Sending\<close>

text \<open>
  The stores through \<open>packet_leading\<close>; the fields \<open>_1\<close> and \<open>_2\<close> of the inner leading are
  not written.
\<close>

definition put_packet_leading ::
  "pkt_class \<Rightarrow> byte list \<Rightarrow> 64 word \<Rightarrow> byte \<Rightarrow> nat \<Rightarrow> byte list option" where
  "put_packet_leading cls d uuid serial name_len =
     (case cls of
        Inner \<Rightarrow> do { d' \<leftarrow> write_at d 2 [word_of_nat name_len, serial]; write_at d' 10 (le_bytes uuid) }
      | Outer \<Rightarrow> write_at d 2 [word_of_nat name_len, serial])"

text \<open>
  \<open>EncodeStream\<close>: the leading of the first page, the packet leading and the type name; the
  result is \<open>nOutBodyOffset\<close>. A failed assertion is \<open>None\<close>.
\<close>

definition encode_stream ::
  "pkt_class \<Rightarrow> pkt_state \<Rightarrow> 64 word \<Rightarrow> byte \<Rightarrow> byte list \<Rightarrow> nat \<Rightarrow> (int \<times> pkt_state) option" where
  "encode_stream cls st uuid serial sTypeName szBodyLen =
     do { a \<leftarrow> pk_ref_send_buf st;
          b \<leftarrow> nh_get (fls_heap (pk_send_list st)) a;
          let nDataSize = int_of_size (SIZE_OF_PACKET_LEADING cls + length sTypeName + szBodyLen);
          let nOutBodyOffset = int_of_size (SIZE_OF_FRAME_PAGE_LEADING + SIZE_OF_PACKET_LEADING cls +
                                            length sTypeName);
          if \<not> word_of_int nOutBodyOffset < pb_cap_size b then None
          else do {
            d1 \<leftarrow> write_at (pb_data b) 0
              (page_leading_bytes \<lparr>pg_start = 1, pg_end = 0, pg_data_size = word_of_int nDataSize\<rparr>);
            d2 \<leftarrow> put_packet_leading cls d1 uuid serial (length sTypeName);
            d3 \<leftarrow> write_at d2 (SIZE_OF_FRAME_PAGE_LEADING + SIZE_OF_PACKET_LEADING cls) sTypeName;
            h \<leftarrow> nh_put (fls_heap (pk_send_list st)) a
              (b\<lparr>pb_data := d3, pb_size := word_of_int nOutBodyOffset + word_of_nat szBodyLen\<rparr>);
            Some (nOutBodyOffset, st\<lparr>pk_send_list := (pk_send_list st)\<lparr>fls_heap := h\<rparr>\<rparr>) } }"

text \<open>
  The page loop of \<open>Post\<close>, on the send buffer \<open>b\<close>. \<open>send\<close> is \<open>_refConn->SendRaw\<close> on a
  connection state \<open>'c\<close>; it is \<open>None\<close> when the call disposes of the connection and so
  deletes this packet object, since every continuation of the loop uses the object again. A
  negative count for \<^verbatim>\<open>memcpy\<close> is \<open>None\<close> too.
\<close>

type_synonym 'c send_raw = "'c \<Rightarrow> byte list \<Rightarrow> (size_t \<times> 'c) option"

partial_function (option) post_pages ::
  "'c send_raw \<Rightarrow> byte list \<Rightarrow> nat \<Rightarrow> int \<Rightarrow> int \<Rightarrow> size_t \<Rightarrow> packet_buffer \<Rightarrow> 'c \<Rightarrow>
   (size_t \<times> packet_buffer \<times> 'c) option" where
  "post_pages send sBody ptr nOffset nremains szSend b c =
     Option.bind (page_leading_at (pb_data b)) (\<lambda>pl.
     if pg_end pl \<noteq> 0 then Some (szSend, b, c)
     else
       let nsends = min (int PER_FRAME_PAGE_SIZE_MAX - nOffset) nremains;
           nremains' = nremains - nsends;
           sz = word_of_int (nOffset + nsends);
           pl' = pl\<lparr>pg_end := (if nremains' \<le> 0 then 1 else 0),
                    pg_data_size := ucast (sz - word_of_nat SIZE_OF_FRAME_PAGE_LEADING)\<rparr>
       in if nsends < 0 \<or> nOffset < 0 then None
          else
            Option.bind (read_at sBody ptr (nat nsends)) (\<lambda>bs.
            Option.bind (write_at (pb_data b) (nat nOffset) bs) (\<lambda>d.
            Option.bind (write_at d 0 (page_leading_bytes pl')) (\<lambda>d1.
            Option.bind (read_at d1 0 (unat sz)) (\<lambda>page.
            Option.bind (send c page) (\<lambda>(n, c').
            Option.bind (write_at d1 0 (page_leading_bytes (pl'\<lparr>pg_start := 0\<rparr>))) (\<lambda>d2.
            post_pages send sBody (ptr + nat nsends) (int SIZE_OF_FRAME_PAGE_LEADING) nremains'
              (szSend + n) (b\<lparr>pb_data := d2, pb_size := sz\<rparr>) c')))))))"

type_synonym packet_content = "64 word \<times> byte \<times> byte list \<times> byte list"

definition tcp_post ::
  "pkt_class \<Rightarrow> (addr \<Rightarrow> nat \<Rightarrow> byte) \<Rightarrow> 'c send_raw \<Rightarrow> bool \<Rightarrow> packet_content \<Rightarrow> pkt_state \<Rightarrow> 'c \<Rightarrow>
   (size_t \<times> pkt_state \<times> 'c) option" where
  "tcp_post cls junk send is_ready content st c =
     (case content of (uInnerUuid, uSerialNo, sTypeName, sBody) \<Rightarrow>
        if \<not> is_ready then Some (0, st, c)
        else do {
          (a, sl) \<leftarrow> packet_buffer_alloc junk s_SEND_PACKET_BUFFER_CAPACITY_HINT 1 (pk_send_list st);
          let st1 = st\<lparr>pk_send_list := sl, pk_ref_send_buf := Some a\<rparr>;
          (nOffset, st2) \<leftarrow> encode_stream cls st1 uInnerUuid uSerialNo sTypeName (length sBody);
          b \<leftarrow> nh_get (fls_heap (pk_send_list st2)) a;
          (szSend, b', c') \<leftarrow> post_pages send sBody 0 nOffset (int_of_size (length sBody)) 0 b c;
          h \<leftarrow> nh_put (fls_heap (pk_send_list st2)) a b';
          sl' \<leftarrow> packet_buffer_free ((pk_send_list st2)\<lparr>fls_heap := h\<rparr>) a;
          Some (szSend, st2\<lparr>pk_send_list := sl', pk_ref_send_buf := None\<rparr>, c') })"

section \<open>Receiving\<close>

text \<open>The test on the packet leading: a non-empty name that lies inside the packet.\<close>

definition packet_leading_ok :: "pkt_class \<Rightarrow> byte list \<Rightarrow> nat \<Rightarrow> bool option" where
  "packet_leading_ok cls bs len =
     map_option (\<lambda>nl. 0 < nl \<and> SIZE_OF_PACKET_LEADING cls + unat nl \<le> len) (pl_name_len bs)"

definition recv_fits :: "packet_buffer \<Rightarrow> nat \<Rightarrow> bool" where
  "recv_fits b nLen \<longleftrightarrow> pb_size b + word_of_nat nLen \<le> pb_cap_size b"

definition recv_append :: "packet_buffer \<Rightarrow> byte list \<Rightarrow> packet_buffer option" where
  "recv_append b page =
     do { d \<leftarrow> write_at (pb_data b) (unat (pb_size b)) page;
          Some (b\<lparr>pb_data := d, pb_size := pb_size b + word_of_nat (length page)\<rparr>) }"

text \<open>Freeing the receive buffer, as every error branch and the last page do.\<close>

definition recv_drop :: "pkt_state \<Rightarrow> packet_buffer flist \<Rightarrow> addr \<Rightarrow> pkt_state option" where
  "recv_drop st rl a =
     do { rl' \<leftarrow> packet_buffer_free rl a; Some (st\<lparr>pk_recv_list := rl', pk_ref_recv_buf := None\<rparr>) }"

definition consume_first_page ::
  "pkt_class \<Rightarrow> (addr \<Rightarrow> nat \<Rightarrow> byte) \<Rightarrow> pkt_state \<Rightarrow> byte list \<Rightarrow> (int \<times> pkt_state) option" where
  "consume_first_page cls junk st page =
     do { (a, rl) \<leftarrow> packet_buffer_alloc junk s_RECV_PACKET_BUFFER_CAPACITY_HINT (recv_num_hint cls)
            (pk_recv_list st);
          b \<leftarrow> nh_get (fls_heap rl) a;
          if recv_fits b (length page)
          then do {
            b' \<leftarrow> recv_append b page;
            h \<leftarrow> nh_put (fls_heap rl) a b';
            Some (0, st\<lparr>pk_recv_list := rl\<lparr>fls_heap := h\<rparr>, pk_ref_recv_buf := Some a\<rparr>) }
          else do { st' \<leftarrow> recv_drop st rl a; Some (-2, st') } }"

definition consume_last_page ::
  "pkt_class \<Rightarrow> pkt_state \<Rightarrow> addr \<Rightarrow> packet_buffer \<Rightarrow> byte list \<Rightarrow> (int \<times> pkt_state) option" where
  "consume_last_page cls st a b page =
     (if recv_fits b (length page)
      then do {
        b' \<leftarrow> recv_append b page;
        h \<leftarrow> nh_put (fls_heap (pk_recv_list st)) a b';
        ok \<leftarrow> packet_leading_ok cls (pb_data b') (unat (pb_size b'));
        packet \<leftarrow> read_at (pb_data b') 0 (unat (pb_size b'));
        let st1 = (if ok then st\<lparr>pk_got := pk_got st @ [packet]\<rparr> else st);
        st2 \<leftarrow> recv_drop st1 ((pk_recv_list st)\<lparr>fls_heap := h\<rparr>) a;
        Some (if ok then 0 else -3, st2) }
      else do { st' \<leftarrow> recv_drop st (pk_recv_list st) a; Some (-4, st') })"

definition consume_middle_page ::
  "pkt_state \<Rightarrow> addr \<Rightarrow> packet_buffer \<Rightarrow> byte list \<Rightarrow> (int \<times> pkt_state) option" where
  "consume_middle_page st a b page =
     (if recv_fits b (length page)
      then do {
        b' \<leftarrow> recv_append b page;
        h \<leftarrow> nh_put (fls_heap (pk_recv_list st)) a b';
        Some (0, st\<lparr>pk_recv_list := (pk_recv_list st)\<lparr>fls_heap := h\<rparr>\<rparr>) }
      else do { st' \<leftarrow> recv_drop st (pk_recv_list st) a; Some (-5, st') })"

definition consume_packet ::
  "pkt_class \<Rightarrow> (addr \<Rightarrow> nat \<Rightarrow> byte) \<Rightarrow> pkt_state \<Rightarrow> byte list \<Rightarrow> (int \<times> pkt_state) option" where
  "consume_packet cls junk st page =
     (let pl = pk_recv_page_leading st in
      if pg_start pl > 0 \<and> pg_end pl > 0
      then do {
        ok \<leftarrow> packet_leading_ok cls page (length page);
        Some (if ok then (0, st\<lparr>pk_got := pk_got st @ [page]\<rparr>) else (-1, st)) }
      else if pg_start pl > 0 then consume_first_page cls junk st page
      else (case pk_ref_recv_buf st of
              None \<Rightarrow> Some (-6, st)
            | Some a \<Rightarrow>
                do { b \<leftarrow> nh_get (fls_heap (pk_recv_list st)) a;
                     if pg_end pl > 0 then consume_last_page cls st a b page
                     else consume_middle_page st a b page }))"

text \<open>The test of the return code differs between the classes.\<close>

definition consume_failed :: "pkt_class \<Rightarrow> int \<Rightarrow> bool" where
  "consume_failed cls rc = (case cls of Inner \<Rightarrow> rc < 0 | Outer \<Rightarrow> 0 \<noteq> rc)"

lemma page_consumed_less:
  "\<not> n < 2 + uint d \<Longrightarrow> Suc (2 * nat (n - (2 + uint d))) < 2 * nat n"
  using uint_ge_0 [of d] by linarith

text \<open>
  The loop of \<open>ConsumeFramePage\<close>: \<open>ptr\<close> is the memory from the read pointer on. A round
  either halts, goes from the leading to the body, or consumes at least two bytes.
\<close>

function consume_loop ::
  "pkt_class \<Rightarrow> (addr \<Rightarrow> nat \<Rightarrow> byte) \<Rightarrow> int \<Rightarrow> byte list \<Rightarrow> int \<Rightarrow> int \<Rightarrow> pkt_state \<Rightarrow>
   (int \<times> pkt_state) option" where
  "consume_loop cls junk nCapacity ptr nremains nconsumed st =
     (case pk_recv_state st of
        FRAME_PAGE_STATE_RECEIVE_LEADING \<Rightarrow>
          (let nwants = int SIZE_OF_FRAME_PAGE_LEADING in
           if nremains < nwants then Some (nconsumed, st)
           else (case page_leading_at ptr of
             None \<Rightarrow> None
           | Some pl \<Rightarrow>
               (let st1 = st\<lparr>pk_recv_page_leading := pl\<rparr> in
                if pg_data_size pl = 0 then Some (-99, st1)
                else if nwants + uint (pg_data_size pl) \<le> nCapacity
                then consume_loop cls junk nCapacity ptr nremains nconsumed
                       (st1\<lparr>pk_recv_state := FRAME_PAGE_STATE_RECEIVE_BODY\<rparr>)
                else let nskip = nremains
                     in Some (nconsumed + nskip,
                          st1\<lparr>pk_recv_page_leading :=
                                pl\<lparr>pg_data_size := pg_data_size pl - word_of_int (nskip - nwants)\<rparr>,
                              pk_recv_state := FRAME_PAGE_STATE_SKIP\<rparr>))))
      | FRAME_PAGE_STATE_RECEIVE_BODY \<Rightarrow>
          (let dsz = pg_data_size (pk_recv_page_leading st);
               nwants = int SIZE_OF_FRAME_PAGE_LEADING + uint dsz in
           if nremains < nwants then Some (nconsumed, st)
           else (case read_at ptr SIZE_OF_FRAME_PAGE_LEADING (unat dsz) of
             None \<Rightarrow> None
           | Some page \<Rightarrow>
               (case consume_packet cls junk st page of
                  None \<Rightarrow> None
                | Some (rc, st1) \<Rightarrow>
                    if consume_failed cls rc then Some (rc, st1)
                    else consume_loop cls junk nCapacity (drop (nat nwants) ptr) (nremains - nwants)
                           (nconsumed + nwants)
                           (st1\<lparr>pk_recv_state := FRAME_PAGE_STATE_RECEIVE_LEADING\<rparr>))))
      | FRAME_PAGE_STATE_SKIP \<Rightarrow>
          (let pl = pk_recv_page_leading st;
               nskip = min nremains (uint (pg_data_size pl));
               dsz = pg_data_size pl - word_of_int nskip
           in Some (nconsumed + nskip,
                st\<lparr>pk_recv_page_leading := pl\<lparr>pg_data_size := dsz\<rparr>,
                   pk_recv_state := (if dsz = 0 then FRAME_PAGE_STATE_RECEIVE_LEADING
                                     else FRAME_PAGE_STATE_SKIP)\<rparr>)))"
  by pat_completeness auto

termination
  by (relation "measure (\<lambda>(cls, junk, cap, ptr, nremains, nconsumed, st).
        2 * nat nremains + (if pk_recv_state st = FRAME_PAGE_STATE_RECEIVE_LEADING then 1 else 0))")
    (auto intro: page_consumed_less)

declare consume_loop.simps [simp del]

definition consume_frame_page ::
  "pkt_class \<Rightarrow> (addr \<Rightarrow> nat \<Rightarrow> byte) \<Rightarrow> byte list \<Rightarrow> int \<Rightarrow> int \<Rightarrow> pkt_state \<Rightarrow>
   (int \<times> pkt_state) option" where
  "consume_frame_page cls junk pBuf nLen nCapacity st = consume_loop cls junk nCapacity pBuf nLen 0 st"

text \<open>\<open>DecodeStream\<close>: a negative result is thrown (\<open>Inl\<close>).\<close>

definition decode_stream ::
  "pkt_class \<Rightarrow> (addr \<Rightarrow> nat \<Rightarrow> byte) \<Rightarrow> bip_buf \<Rightarrow> pkt_state \<Rightarrow> ((int + int) \<times> bip_buf \<times> pkt_state) option" where
  "decode_stream cls junk bb st =
     do { (nConsumed, st') \<leftarrow> consume_frame_page cls junk
            (drop (unat (bip_buf_get_contiguous_block bb)) (bb_buffer bb))
            (int_of_size (unat (bip_buf_get_committed_size bb)))
            (int_of_size (unat (bip_buf_get_capacity bb))) st;
          Some (if nConsumed > 0
                then (Inr nConsumed, snd (bip_buf_decommit bb (word_of_int nConsumed)), st')
                else if 0 = nConsumed then (Inr nConsumed, bb, st')
                else (Inl nConsumed, bb, st')) }"

section \<open>The static buffers\<close>

definition warm_up ::
  "(addr \<Rightarrow> nat \<Rightarrow> byte) \<Rightarrow> size_t \<Rightarrow> nat \<Rightarrow> packet_buffer flist \<Rightarrow> packet_buffer flist option" where
  "warm_up junk hint num lst =
     do { (tmp, lst') \<leftarrow> packet_buffer_alloc junk hint num lst; packet_buffer_free lst' tmp }"

definition init_packet_buffer ::
  "pkt_class \<Rightarrow> (addr \<Rightarrow> nat \<Rightarrow> byte) \<Rightarrow> packet_buffer flist \<Rightarrow> packet_buffer flist \<Rightarrow>
   (packet_buffer flist \<times> packet_buffer flist) option" where
  "init_packet_buffer cls junk recv_list send_list =
     do { rl \<leftarrow> warm_up junk s_RECV_PACKET_BUFFER_CAPACITY_HINT (recv_num_hint cls) recv_list;
          sl \<leftarrow> warm_up junk s_SEND_PACKET_BUFFER_CAPACITY_HINT 1 send_list;
          Some (rl, sl) }"

definition destroy_packet_buffer ::
  "packet_buffer flist \<Rightarrow> packet_buffer flist \<Rightarrow> (packet_buffer flist \<times> packet_buffer flist) option" where
  "destroy_packet_buffer recv_list send_list =
     do { rl \<leftarrow> packet_buffer_real_free recv_list;
          sl \<leftarrow> packet_buffer_real_free send_list;
          Some (rl, sl) }"

section \<open>Specification of the receiving side\<close>

text \<open>
  What a page does, without buffers: the packet being assembled and the packets delivered.
  The first component of the result is the return code.
\<close>

type_synonym rx = "byte list option \<times> byte list list"

definition recv_cap :: nat where
  "recv_cap = FULL_PACKET_MAX_SIZE_HINT - 32"

definition leading_ok :: "pkt_class \<Rightarrow> byte list \<Rightarrow> bool" where
  "leading_ok cls bs \<longleftrightarrow> bs \<noteq> [] \<and> hd bs \<noteq> 0 \<and> SIZE_OF_PACKET_LEADING cls + unat (hd bs) \<le> length bs"

fun page_spec :: "pkt_class \<Rightarrow> bool \<Rightarrow> bool \<Rightarrow> byte list \<Rightarrow> rx \<Rightarrow> int \<times> rx" where
  "page_spec cls True True page (acc, out) =
     (if leading_ok cls page then (0, acc, out @ [page]) else (-1, acc, out))"
| "page_spec cls True False page (acc, out) =
     (if length page \<le> recv_cap then (0, Some page, out) else (-2, None, out))"
| "page_spec cls False _ page (None, out) = (-6, None, out)"
| "page_spec cls False True page (Some xs, out) =
     (if length xs + length page \<le> recv_cap
      then if leading_ok cls (xs @ page) then (0, None, out @ [xs @ page]) else (-3, None, out)
      else (-4, None, out))"
| "page_spec cls False False page (Some xs, out) =
     (if length xs + length page \<le> recv_cap then (0, Some (xs @ page), out) else (-5, None, out))"

definition rx_rel :: "pkt_state \<Rightarrow> rx \<Rightarrow> bool" where
  "rx_rel st r \<longleftrightarrow>
     pk_got st = snd r \<and> (\<exists>as. pb_avail s_RECV_PACKET_BUFFER_CAPACITY_HINT (pk_recv_list st) as) \<and>
     (case pk_ref_recv_buf st of
        None \<Rightarrow> fst r = None
      | Some a \<Rightarrow> fls_owned (pk_recv_list st) a \<and>
          (\<exists>b. nh_get (fls_heap (pk_recv_list st)) a = Some b \<and> fst r = Some (pb_bytes b)))"

text \<open>The parts of the state the receiving side does not touch.\<close>

definition same_tx :: "pkt_state \<Rightarrow> pkt_state \<Rightarrow> bool" where
  "same_tx st st' \<longleftrightarrow> pk_send_list st' = pk_send_list st \<and> pk_ref_send_buf st' = pk_ref_send_buf st"

lemma same_tx_refl [simp]: "same_tx st st"
  by (simp add: same_tx_def)

lemma same_tx_trans: "same_tx a b \<Longrightarrow> same_tx b c \<Longrightarrow> same_tx a c"
  by (simp add: same_tx_def)

lemma recv_hint [simp]: "unat s_RECV_PACKET_BUFFER_CAPACITY_HINT = 983040"
  "unat (s_RECV_PACKET_BUFFER_CAPACITY_HINT - sizeof_packet_buffer) = recv_cap"
  by (simp_all add: s_RECV_PACKET_BUFFER_CAPACITY_HINT_def sizeof_packet_buffer_def recv_cap_def)

lemma recv_cap_value: "recv_cap = 983008"
  by (simp add: recv_cap_def)

lemma recv_num_hint_pos [simp]: "0 < recv_num_hint cls"
  by (cases cls) (simp_all add: recv_num_hint_def)

lemma pb_ok_recv:
  "pb_ok s_RECV_PACKET_BUFFER_CAPACITY_HINT b \<longleftrightarrow>
   pb_cap_size b = s_RECV_PACKET_BUFFER_CAPACITY_HINT - sizeof_packet_buffer \<and>
   length (pb_data b) = recv_cap \<and> unat (pb_size b) \<le> recv_cap"
  by (auto simp: pb_ok_def)

lemma unat_size_add:
  assumes "pb_ok s_RECV_PACKET_BUFFER_CAPACITY_HINT b" "n < 2 ^ 14"
  shows "unat (pb_size b + word_of_nat n) = unat (pb_size b) + n"
proof -
  have n: "unat (word_of_nat n :: size_t) = n"
    using assms(2) by (simp add: unsigned_of_nat take_bit_nat_eq_self)
  show ?thesis
    using assms by (subst unat_add_no_wrap) (auto simp: n pb_ok_recv recv_cap_value)
qed

lemma recv_fits_iff:
  assumes "pb_ok s_RECV_PACKET_BUFFER_CAPACITY_HINT b" "n < 2 ^ 14"
  shows "recv_fits b n \<longleftrightarrow> length (pb_bytes b) + n \<le> recv_cap"
  using assms unat_size_add [OF assms]
  by (simp add: recv_fits_def size_le_iff pb_ok_recv pb_bytes_def)

lemma recv_append_ok:
  assumes "pb_ok s_RECV_PACKET_BUFFER_CAPACITY_HINT b" "length page < 2 ^ 14"
    and "length (pb_bytes b) + length page \<le> recv_cap"
  shows "\<exists>b'. recv_append b page = Some b' \<and> pb_ok s_RECV_PACKET_BUFFER_CAPACITY_HINT b' \<and>
    pb_bytes b' = pb_bytes b @ page \<and> length (pb_bytes b') = unat (pb_size b') \<and>
    read_at (pb_data b') 0 (unat (pb_size b')) = Some (pb_bytes b')"
proof -
  have len: "unat (pb_size b) + length page \<le> recv_cap" "length (pb_data b) = recv_cap"
    using assms by (auto simp: pb_ok_recv pb_bytes_def)
  then show ?thesis
    using assms(1) unat_size_add [OF assms(1,2)]
    by (simp add: recv_append_def write_at_Some pb_ok_recv pb_bytes_def read_at_Some)
qed

lemma packet_leading_ok_iff:
  assumes "bs \<noteq> []"
  shows "packet_leading_ok cls (bs @ rest) (length bs) = Some (leading_ok cls bs)"
  using assms by (cases bs) (auto simp: packet_leading_ok_def pl_name_len_def leading_ok_def word_greater_zero_iff)

lemma packet_leading_ok_prefix:
  assumes "0 < n" "n \<le> length d"
  shows "packet_leading_ok cls d n = Some (leading_ok cls (take n d))"
proof -
  have "take n d \<noteq> []" using assms by (cases d) auto
  from packet_leading_ok_iff [OF this, of cls "drop n d"] assms(2) show ?thesis by simp
qed

section \<open>The receiving side refines its specification\<close>

lemma rx_relE:
  assumes "rx_rel st r" "pk_ref_recv_buf st = Some a"
  obtains as b where "pb_avail s_RECV_PACKET_BUFFER_CAPACITY_HINT (pk_recv_list st) as"
    "fls_owned (pk_recv_list st) a" "nh_get (fls_heap (pk_recv_list st)) a = Some b"
    "pb_ok s_RECV_PACKET_BUFFER_CAPACITY_HINT b" "r = (Some (pb_bytes b), pk_got st)"
  using assms unfolding rx_rel_def by (cases r) (auto simp: pb_avail_def)

lemma recv_drop_ok:
  assumes "pb_avail s_RECV_PACKET_BUFFER_CAPACITY_HINT rl as" "fls_owned rl a"
  shows "\<exists>st'. recv_drop st rl a = Some st' \<and> rx_rel st' (None, pk_got st) \<and> same_tx st st' \<and>
    pk_recv_state st' = pk_recv_state st \<and> pk_recv_page_leading st' = pk_recv_page_leading st"
  using packet_buffer_free_ok [OF assms] by (auto simp: recv_drop_def rx_rel_def same_tx_def)

definition refines_page ::
  "pkt_state \<Rightarrow> (int \<times> pkt_state) option \<Rightarrow> int \<times> rx \<Rightarrow> bool" where
  "refines_page st res spec \<longleftrightarrow>
     (\<exists>st'. res = Some (fst spec, st') \<and> rx_rel st' (snd spec) \<and> same_tx st st' \<and>
        pk_recv_state st' = pk_recv_state st \<and> pk_recv_page_leading st' = pk_recv_page_leading st)"

lemma consume_first_page_refines:
  assumes "rx_rel st (acc, out)" "length page < 2 ^ 14"
  shows "refines_page st (consume_first_page cls junk st page) (page_spec cls True False page (acc, out))"
proof -
  let ?H = s_RECV_PACKET_BUFFER_CAPACITY_HINT
  obtain as where as: "pb_avail ?H (pk_recv_list st) as" and got: "pk_got st = out"
    using assms(1) by (auto simp: rx_rel_def)
  obtain a rl as' b where al: "packet_buffer_alloc junk ?H (recv_num_hint cls) (pk_recv_list st) = Some (a, rl)"
      "pb_avail ?H rl as'" "fls_owned rl a" "nh_get (fls_heap rl) a = Some b" "pb_size b = 0"
    using packet_buffer_alloc_ok [OF as, of "recv_num_hint cls" junk] by auto
  have bok: "pb_ok ?H b" using al by (auto simp: pb_avail_def)
  have empty: "pb_bytes b = []" using al by (simp add: pb_bytes_def)
  note fits = recv_fits_iff [OF bok assms(2)]
  show ?thesis
  proof (cases "length page \<le> recv_cap")
    case True
    then obtain b' where b': "recv_append b page = Some b'" "pb_ok ?H b'" "pb_bytes b' = page"
      using recv_append_ok [OF bok assms(2)] empty by auto
    from pb_put_ok [OF al(2,3) b'(2)] True al b' got fits empty show ?thesis
      by (auto simp: consume_first_page_def refines_page_def rx_rel_def same_tx_def)
  next
    case False
    with recv_drop_ok [OF al(2,3), of st] al got fits empty show ?thesis
      by (auto simp: consume_first_page_def refines_page_def)
  qed
qed

lemma consume_last_page_refines:
  assumes "rx_rel st r" "pk_ref_recv_buf st = Some a" "nh_get (fls_heap (pk_recv_list st)) a = Some b"
    and "length page < 2 ^ 14" "page \<noteq> []"
  shows "refines_page st (consume_last_page cls st a b page) (page_spec cls False True page r)"
proof -
  let ?H = s_RECV_PACKET_BUFFER_CAPACITY_HINT
  obtain as where as: "pb_avail ?H (pk_recv_list st) as" "fls_owned (pk_recv_list st) a"
      "pb_ok ?H b" "r = (Some (pb_bytes b), pk_got st)"
    using rx_relE [OF assms(1,2)] assms(3) by (metis option.inject)
  note fits = recv_fits_iff [OF as(3) assms(4)]
  show ?thesis
  proof (cases "length (pb_bytes b) + length page \<le> recv_cap")
    case True
    then obtain b' where b': "recv_append b page = Some b'" "pb_ok ?H b'"
        "pb_bytes b' = pb_bytes b @ page" "length (pb_bytes b') = unat (pb_size b')"
        "read_at (pb_data b') 0 (unat (pb_size b')) = Some (pb_bytes b')"
      using recv_append_ok [OF as(3) assms(4)] by blast
    obtain h where h: "nh_put (fls_heap (pk_recv_list st)) a b' = Some h"
        "pb_avail ?H ((pk_recv_list st)\<lparr>fls_heap := h\<rparr>) as"
        "fls_owned ((pk_recv_list st)\<lparr>fls_heap := h\<rparr>) a"
      using pb_put_ok [OF as(1,2) b'(2)] as(2) by auto
    have ok: "packet_leading_ok cls (pb_data b') (unat (pb_size b')) = Some (leading_ok cls (pb_bytes b @ page))"
    proof -
      have "0 < unat (pb_size b')"
        using b'(3,4) assms(5) by (metis append_is_Nil_conv length_greater_0_conv)
      from packet_leading_ok_prefix [OF this, of "pb_data b'" cls] b'(2,3) show ?thesis
        by (simp add: pb_bytes_def pb_ok_recv)
    qed
    define st1 where "st1 = (if leading_ok cls (pb_bytes b @ page)
      then st\<lparr>pk_got := pk_got st @ [pb_bytes b @ page]\<rparr> else st)"
    obtain st2 where st2: "recv_drop st1 ((pk_recv_list st)\<lparr>fls_heap := h\<rparr>) a = Some st2"
        "rx_rel st2 (None, pk_got st1)" "same_tx st1 st2" "pk_recv_state st2 = pk_recv_state st1"
        "pk_recv_page_leading st2 = pk_recv_page_leading st1"
      using recv_drop_ok [OF h(2,3)] by blast
    have "consume_last_page cls st a b page = Some (if leading_ok cls (pb_bytes b @ page) then 0 else -3, st2)"
      using True fits b' h(1) ok st2(1) by (simp add: consume_last_page_def st1_def Let_def)
    with st2 True as(4) show ?thesis
      by (simp add: refines_page_def st1_def same_tx_def split: if_splits)
  next
    case False
    with recv_drop_ok [OF as(1,2), of st] fits as(4) show ?thesis
      by (auto simp: consume_last_page_def refines_page_def)
  qed
qed

lemma consume_middle_page_refines:
  assumes "rx_rel st r" "pk_ref_recv_buf st = Some a" "nh_get (fls_heap (pk_recv_list st)) a = Some b"
    and "length page < 2 ^ 14"
  shows "refines_page st (consume_middle_page st a b page) (page_spec cls False False page r)"
proof -
  let ?H = s_RECV_PACKET_BUFFER_CAPACITY_HINT
  obtain as where as: "pb_avail ?H (pk_recv_list st) as" "fls_owned (pk_recv_list st) a"
      "pb_ok ?H b" "r = (Some (pb_bytes b), pk_got st)"
    using rx_relE [OF assms(1,2)] assms(3) by (metis option.inject)
  note fits = recv_fits_iff [OF as(3) assms(4)]
  show ?thesis
  proof (cases "length (pb_bytes b) + length page \<le> recv_cap")
    case True
    then obtain b' where b': "recv_append b page = Some b'" "pb_ok ?H b'"
        "pb_bytes b' = pb_bytes b @ page"
      using recv_append_ok [OF as(3) assms(4)] by blast
    from pb_put_ok [OF as(1,2) b'(2)] True fits b' as assms(2) show ?thesis
      by (auto simp: consume_middle_page_def refines_page_def rx_rel_def same_tx_def)
  next
    case False
    with recv_drop_ok [OF as(1,2), of st] fits as(4) show ?thesis
      by (auto simp: consume_middle_page_def refines_page_def)
  qed
qed

definition is_start :: "page_leading \<Rightarrow> bool" where
  "is_start pl \<longleftrightarrow> pg_start pl > 0"

definition is_end :: "page_leading \<Rightarrow> bool" where
  "is_end pl \<longleftrightarrow> pg_end pl > 0"

lemma consume_packet_refines:
  assumes "rx_rel st r" "page \<noteq> []" "length page < 2 ^ 14"
  shows "refines_page st (consume_packet cls junk st page)
    (page_spec cls (is_start (pk_recv_page_leading st)) (is_end (pk_recv_page_leading st)) page r)"
proof -
  obtain acc out where r: "r = (acc, out)" by (cases r)
  let ?pl = "pk_recv_page_leading st"
  have got: "pk_got st = out" using assms(1) r by (simp add: rx_rel_def)
  have rel: "rx_rel (st\<lparr>pk_got := out'\<rparr>) (acc, out')" for out'
    using assms(1) by (auto simp: rx_rel_def r split: option.splits)
  show ?thesis
  proof (cases "is_start ?pl"; cases "is_end ?pl")
    assume "is_start ?pl" "is_end ?pl"
    moreover have "packet_leading_ok cls page (length page) = Some (leading_ok cls page)"
      using packet_leading_ok_iff [OF assms(2), of cls "[]"] by simp
    ultimately show ?thesis
      using rel assms(1) got
      by (simp add: consume_packet_def is_start_def is_end_def refines_page_def r same_tx_def Let_def)
  next
    assume "is_start ?pl" "\<not> is_end ?pl"
    then show ?thesis
      using consume_first_page_refines [OF assms(1) [unfolded r] assms(3)]
      by (simp add: consume_packet_def is_start_def is_end_def r)
  next
    assume f: "\<not> is_start ?pl" "is_end ?pl"
    show ?thesis
    proof (cases "pk_ref_recv_buf st")
      case None
      with f assms(1) r show ?thesis
        by (auto simp: consume_packet_def is_start_def is_end_def refines_page_def rx_rel_def)
    next
      case (Some a)
      obtain b where "nh_get (fls_heap (pk_recv_list st)) a = Some b"
        using rx_relE [OF assms(1) Some] by blast
      with consume_last_page_refines [OF assms(1) Some this assms(3,2)] f Some show ?thesis
        by (simp add: consume_packet_def is_start_def is_end_def)
    qed
  next
    assume f: "\<not> is_start ?pl" "\<not> is_end ?pl"
    show ?thesis
    proof (cases "pk_ref_recv_buf st")
      case None
      with f assms(1) r show ?thesis
        by (auto simp: consume_packet_def is_start_def is_end_def refines_page_def rx_rel_def)
    next
      case (Some a)
      obtain b where "nh_get (fls_heap (pk_recv_list st)) a = Some b"
        using rx_relE [OF assms(1) Some] by blast
      with consume_middle_page_refines [OF assms(1) Some this assms(3)] f Some show ?thesis
        by (simp add: consume_packet_def is_start_def is_end_def)
    qed
  qed
qed

end
