(* ===== verification/TcpReceive.thy ===== *)
theory TcpReceive
  imports TcpPacket
begin

text \<open>
  The receive loop of the packet classes. First for any bytes a peer may send: no undefined
  behaviour, the return code and the amount consumed are in range, every packet delivered
  has a leading that lies inside it, and the receive buffer never fills up without progress.
  Then for well-formed pages: the loop performs exactly the page specifications, whatever
  part of the last page has arrived.
\<close>

section \<open>Arbitrary input\<close>

text \<open>The receiver's own state, for a receive buffer of capacity \<open>cap\<close>.\<close>

definition rs_ok :: "int \<Rightarrow> pkt_state \<Rightarrow> bool" where
  "rs_ok cap st \<longleftrightarrow>
     (case pk_recv_state st of
        FRAME_PAGE_STATE_RECEIVE_LEADING \<Rightarrow> True
      | FRAME_PAGE_STATE_RECEIVE_BODY \<Rightarrow>
          pg_data_size (pk_recv_page_leading st) \<noteq> 0 \<and> 2 + uint (pg_data_size (pk_recv_page_leading st)) \<le> cap
      | FRAME_PAGE_STATE_SKIP \<Rightarrow> pg_data_size (pk_recv_page_leading st) \<noteq> 0)"

definition delivers :: "pkt_class \<Rightarrow> byte list list \<Rightarrow> byte list list \<Rightarrow> bool" where
  "delivers cls out out' \<longleftrightarrow> (\<exists>new. out' = out @ new \<and> (\<forall>p \<in> set new. leading_ok cls p))"

lemma delivers_refl [simp]: "delivers cls out out"
  by (simp add: delivers_def)

lemma delivers_trans: "delivers cls a b \<Longrightarrow> delivers cls b c \<Longrightarrow> delivers cls a c"
  unfolding delivers_def by (metis Un_iff append.assoc set_append)

lemma page_spec_delivers: "delivers cls (snd r) (snd (snd (page_spec cls s e page r)))"
proof -
  have "delivers cls out (out @ [p])" if "leading_ok cls p" for out p
    using that by (auto simp: delivers_def)
  then show ?thesis by (cases "(cls, s, e, page, r)" rule: page_spec.cases) auto
qed

lemma page_spec_code:
  "fst (page_spec cls s e page r) \<in> {0, -1, -2, -3, -4, -5, -6}"
  by (cases "(cls, s, e, page, r)" rule: page_spec.cases) auto

lemma consume_failed_iff: "rc \<in> {0, -1, -2, -3, -4, -5, -6} \<Longrightarrow> consume_failed cls rc \<longleftrightarrow> rc \<noteq> 0"
  by (cases cls) (auto simp: consume_failed_def)

text \<open>One round of the loop in each state.\<close>

lemma uint_le_14: "uint (x :: 14 word) < 2 ^ 14"
  using uint_bounded [of x] by simp

lemma uint_minus_14:
  fixes x :: "14 word"
  assumes "0 \<le> k" "k \<le> uint x"
  shows "uint (x - word_of_int k) = uint x - k"
proof -
  have "k < 2 ^ 14" using assms(2) uint_le_14 [of x] by linarith
  then have "uint (word_of_int k :: 14 word) = k"
    using assms(1) by (simp add: unsigned_of_int take_bit_int_eq_self)
  with assms(2) uint_sub_lem [of "word_of_int k" x] show ?thesis by simp
qed

lemma rx_rel_loop [simp]:
  "rx_rel (st\<lparr>pk_recv_page_leading := pl\<rparr>) r \<longleftrightarrow> rx_rel st r"
  "rx_rel (st\<lparr>pk_recv_state := s\<rparr>) r \<longleftrightarrow> rx_rel st r"
  by (simp_all add: rx_rel_def split: option.splits)

lemma same_tx_loop [simp]:
  "same_tx st (st'\<lparr>pk_recv_page_leading := pl\<rparr>) \<longleftrightarrow> same_tx st st'"
  "same_tx st (st'\<lparr>pk_recv_state := s\<rparr>) \<longleftrightarrow> same_tx st st'"
  "same_tx (st\<lparr>pk_recv_page_leading := pl\<rparr>) st' \<longleftrightarrow> same_tx st st'"
  "same_tx (st\<lparr>pk_recv_state := s\<rparr>) st' \<longleftrightarrow> same_tx st st'"
  by (simp_all add: same_tx_def)

text \<open>
  The outcome of the loop on any input: \<open>n\<close> is the result, \<open>st'\<close> the new state. Either an
  error, or an amount between what was consumed before and everything, leaving less than a
  full buffer.
\<close>

definition loop_outcome ::
  "pkt_class \<Rightarrow> int \<Rightarrow> pkt_state \<Rightarrow> rx \<Rightarrow> int \<Rightarrow> int \<Rightarrow> (int \<times> pkt_state) option \<Rightarrow> bool" where
  "loop_outcome cls cap st r nremains nconsumed res \<longleftrightarrow>
     (\<exists>n st' r'. res = Some (n, st') \<and> rx_rel st' r' \<and> rs_ok cap st' \<and> same_tx st st' \<and>
        delivers cls (snd r) (snd r') \<and>
        (n \<in> {-1, -2, -3, -4, -5, -6, -99} \<or>
         nconsumed \<le> n \<and> n \<le> nconsumed + nremains \<and> nconsumed + nremains - n < cap))"

lemma loop_outcomeI:
  assumes "rx_rel st' r'" "rs_ok cap st'" "same_tx st st'" "delivers cls (snd r) (snd r')"
    and "n \<in> {-1, -2, -3, -4, -5, -6, -99} \<or>
      nconsumed \<le> n \<and> n \<le> nconsumed + nremains \<and> nconsumed + nremains - n < cap"
  shows "loop_outcome cls cap st r nremains nconsumed (Some (n, st'))"
  using assms unfolding loop_outcome_def by blast

lemma consume_loop_leading:
  assumes "pk_recv_state st = FRAME_PAGE_STATE_RECEIVE_LEADING" "2 \<le> nremains"
    and "page_leading_at ptr = Some pl" "pg_data_size pl \<noteq> 0" "2 + uint (pg_data_size pl) \<le> cap"
  shows "consume_loop cls junk cap ptr nremains nconsumed st =
    consume_loop cls junk cap ptr nremains nconsumed
      (st\<lparr>pk_recv_page_leading := pl, pk_recv_state := FRAME_PAGE_STATE_RECEIVE_BODY\<rparr>)"
  using assms by (subst consume_loop.simps) (simp add: Let_def)

lemma consume_loop_body:
  assumes "pk_recv_state st = FRAME_PAGE_STATE_RECEIVE_BODY"
    and "2 + uint (pg_data_size (pk_recv_page_leading st)) \<le> nremains"
    and "read_at ptr 2 (unat (pg_data_size (pk_recv_page_leading st))) = Some page"
    and "consume_packet cls junk st page = Some (rc, st1)"
  shows "consume_loop cls junk cap ptr nremains nconsumed st =
    (if consume_failed cls rc then Some (rc, st1)
     else consume_loop cls junk cap (drop (2 + unat (pg_data_size (pk_recv_page_leading st))) ptr)
       (nremains - (2 + uint (pg_data_size (pk_recv_page_leading st))))
       (nconsumed + (2 + uint (pg_data_size (pk_recv_page_leading st))))
       (st1\<lparr>pk_recv_state := FRAME_PAGE_STATE_RECEIVE_LEADING\<rparr>))"
  using assms by (subst consume_loop.simps) (simp add: Let_def nat_add_distrib)

lemma consume_loop_skip:
  assumes "pk_recv_state st = FRAME_PAGE_STATE_SKIP" "pk_recv_page_leading st = pl" "0 \<le> nremains"
  shows "\<exists>st'. consume_loop cls junk cap ptr nremains nconsumed st =
      Some (nconsumed + min nremains (uint (pg_data_size pl)), st') \<and>
    uint (pg_data_size (pk_recv_page_leading st')) = uint (pg_data_size pl) - min nremains (uint (pg_data_size pl)) \<and>
    (pk_recv_state st' = FRAME_PAGE_STATE_RECEIVE_LEADING \<longleftrightarrow> uint (pg_data_size pl) \<le> nremains)"
proof -
  let ?k = "min nremains (uint (pg_data_size pl))"
  define d where "d = pg_data_size pl - word_of_int ?k"
  have u: "uint d = uint (pg_data_size pl) - ?k"
    unfolding d_def by (rule uint_minus_14) (use assms(3) in auto)
  have z: "d = 0 \<longleftrightarrow> uint (pg_data_size pl) \<le> nremains"
    unfolding uint_0_iff [symmetric] u by linarith
  then have "pg_data_size pl = word_of_int ?k \<longleftrightarrow> uint (pg_data_size pl) \<le> nremains"
    by (simp add: d_def)
  then show ?thesis
    using assms(1,2) u
    by (subst consume_loop.simps) (simp add: Let_def d_def [symmetric])
qed

lemma page_consumed_bounds:
  assumes "\<not> n < 2 + int u" "0 \<le> k" "nat n \<le> len"
  shows "0 \<le> n - (2 + int u)" "nat (n - (2 + int u)) \<le> len - (2 + u)" "0 \<le> k + (2 + int u)"
    "nat (n - (2 + int u)) + 2 \<le> nat n"
  using assms by linarith+

lemma consume_loop_outcome:
  assumes "rx_rel st r" "rs_ok cap st" "0 \<le> nremains" "nremains \<le> cap" "nat nremains \<le> length ptr"
    and "2 \<le> cap" "0 \<le> nconsumed"
  shows "loop_outcome cls cap st r nremains nconsumed (consume_loop cls junk cap ptr nremains nconsumed st)"
  using assms
proof (induction "2 * nat nremains + (if pk_recv_state st = FRAME_PAGE_STATE_RECEIVE_LEADING then 1 else 0 :: nat)"
    arbitrary: st r nremains ptr nconsumed rule: less_induct)
  case less
  show ?case
  proof (cases "pk_recv_state st")
    case FRAME_PAGE_STATE_RECEIVE_LEADING
    show ?thesis
    proof (cases "nremains < 2")
      case True
      with FRAME_PAGE_STATE_RECEIVE_LEADING less.prems show ?thesis
        by (subst consume_loop.simps) (auto intro!: loop_outcomeI)
    next
      case False
      then have "2 \<le> length ptr" using less.prems by linarith
      then obtain pl where pl: "page_leading_at ptr = Some pl" using page_leading_at_some by blast
      consider (zero) "pg_data_size pl = 0"
        | (body) "pg_data_size pl \<noteq> 0" "2 + uint (pg_data_size pl) \<le> cap"
        | (over) "pg_data_size pl \<noteq> 0" "\<not> 2 + uint (pg_data_size pl) \<le> cap" by blast
      then show ?thesis
      proof cases
        case zero
        with FRAME_PAGE_STATE_RECEIVE_LEADING False pl less.prems show ?thesis
          by (subst consume_loop.simps) (auto simp: Let_def rs_ok_def intro!: loop_outcomeI)
      next
        case body
        let ?st = "st\<lparr>pk_recv_page_leading := pl, pk_recv_state := FRAME_PAGE_STATE_RECEIVE_BODY\<rparr>"
        have "loop_outcome cls cap ?st r nremains nconsumed (consume_loop cls junk cap ptr nremains nconsumed ?st)"
          using less.prems FRAME_PAGE_STATE_RECEIVE_LEADING body
          by (intro less.hyps) (auto simp: rs_ok_def)
        then show ?thesis
          using consume_loop_leading [OF FRAME_PAGE_STATE_RECEIVE_LEADING _ pl body, of nremains] False
          by (simp add: loop_outcome_def)
      next
        case over
        have u: "uint (pg_data_size pl - word_of_int (nremains - 2)) = uint (pg_data_size pl) - (nremains - 2)"
          using over(2) False less.prems by (intro uint_minus_14) auto
        have "pg_data_size pl - word_of_int (nremains - 2) \<noteq> 0"
        proof
          assume "pg_data_size pl - word_of_int (nremains - 2) = 0"
          with u have "uint (pg_data_size pl) = nremains - 2" by simp
          with over(2) less.prems(4) show False by simp
        qed
        with FRAME_PAGE_STATE_RECEIVE_LEADING False pl over less.prems show ?thesis
          by (subst consume_loop.simps) (auto simp: Let_def rs_ok_def intro!: loop_outcomeI)
      qed
    qed
  next
    case FRAME_PAGE_STATE_RECEIVE_BODY
    let ?d = "pg_data_size (pk_recv_page_leading st)"
    have d: "?d \<noteq> 0" "2 + uint ?d \<le> cap" using less.prems(2) FRAME_PAGE_STATE_RECEIVE_BODY by (auto simp: rs_ok_def)
    show ?thesis
    proof (cases "nremains < 2 + uint ?d")
      case True
      with FRAME_PAGE_STATE_RECEIVE_BODY d less.prems show ?thesis
        by (subst consume_loop.simps) (auto simp: Let_def intro!: loop_outcomeI)
    next
      case False
      have ud: "uint ?d = int (unat ?d)" by simp
      have len: "2 + unat ?d \<le> length ptr" using False less.prems ud by linarith
      let ?page = "take (unat ?d) (drop 2 ptr)"
      have page: "read_at ptr 2 (unat ?d) = Some ?page" using len by (simp add: read_at_Some)
      have plen: "length ?page = unat ?d" "length ?page < 2 ^ 14" "?page \<noteq> []"
      proof -
        have "unat ?d < 2 ^ 14" using unsigned_less [of ?d] by simp
        moreover have "0 < unat ?d" using d(1) unat_eq_0 [of ?d] by simp
        ultimately show "length ?page = unat ?d" "length ?page < 2 ^ 14" "?page \<noteq> []"
          using len by auto
      qed
      let ?spec = "page_spec cls (is_start (pk_recv_page_leading st)) (is_end (pk_recv_page_leading st)) ?page r"
      obtain st1 where st1: "consume_packet cls junk st ?page = Some (fst ?spec, st1)"
          "rx_rel st1 (snd ?spec)" "same_tx st st1" "pk_recv_state st1 = pk_recv_state st"
          "pk_recv_page_leading st1 = pk_recv_page_leading st"
        using consume_packet_refines [OF less.prems(1) plen(3,2)] unfolding refines_page_def by blast
      note body = consume_loop_body [OF FRAME_PAGE_STATE_RECEIVE_BODY _ page st1(1), of nremains cap nconsumed]
      have failed: "consume_failed cls (fst ?spec) \<longleftrightarrow> fst ?spec \<noteq> 0"
        using page_spec_code by (rule consume_failed_iff)
      have dl: "delivers cls (snd r) (snd (snd ?spec))" by (rule page_spec_delivers)
      show ?thesis
      proof (cases "fst ?spec = 0")
        case True
        let ?st = "st1\<lparr>pk_recv_state := FRAME_PAGE_STATE_RECEIVE_LEADING\<rparr>"
        let ?n = "nremains - (2 + uint ?d)" and ?k = "nconsumed + (2 + uint ?d)"
        have nn: "0 \<le> ?n" "nat ?n \<le> length (drop (2 + unat ?d) ptr)" "0 \<le> ?k"
          "nat ?n + 2 \<le> nat nremains"
          using page_consumed_bounds [of nremains "unat ?d" nconsumed "length ptr"] False less.prems
          by simp_all
        have "loop_outcome cls cap ?st (snd ?spec) ?n ?k (consume_loop cls junk cap (drop (2 + unat ?d) ptr) ?n ?k ?st)"
          using nn less.prems st1(2) FRAME_PAGE_STATE_RECEIVE_BODY uint_ge_0 [of ?d]
          by (intro less.hyps) (auto simp: rs_ok_def)
        then obtain n st' r' where res: "consume_loop cls junk cap (drop (2 + unat ?d) ptr) ?n ?k ?st = Some (n, st')"
            "rx_rel st' r'" "rs_ok cap st'" "same_tx st1 st'" "delivers cls (snd (snd ?spec)) (snd r')"
            "n \<in> {-1, -2, -3, -4, -5, -6, -99} \<or> ?k \<le> n \<and> n \<le> ?k + ?n \<and> ?k + ?n - n < cap"
          unfolding loop_outcome_def by auto
        have "consume_loop cls junk cap ptr nremains nconsumed st = Some (n, st')"
          using body False failed True res(1) by simp
        moreover have "n \<in> {-1, -2, -3, -4, -5, -6, -99} \<or>
            nconsumed \<le> n \<and> n \<le> nconsumed + nremains \<and> nconsumed + nremains - n < cap"
        proof -
          have mono: "nconsumed \<le> ?k" and total: "?k + ?n = nconsumed + nremains" by simp_all
          show ?thesis using res(6) unfolding total using mono by (blast intro: order_trans)
        qed
        ultimately show ?thesis
          using res(2,3) same_tx_trans [OF st1(3) res(4)] delivers_trans [OF dl res(5)]
          by (auto intro!: loop_outcomeI)
      next
        case bad: False
        have "consume_loop cls junk cap ptr nremains nconsumed st = Some (fst ?spec, st1)"
          using body False failed bad by simp
        moreover have "rs_ok cap st1"
          using less.prems(2) FRAME_PAGE_STATE_RECEIVE_BODY st1(4,5) by (simp add: rs_ok_def)
        ultimately show ?thesis
          using st1 dl bad page_spec_code [of cls "is_start (pk_recv_page_leading st)" "is_end (pk_recv_page_leading st)" ?page r]
          by (auto intro!: loop_outcomeI)
      qed
    qed
  next
    case FRAME_PAGE_STATE_SKIP
    let ?d = "pg_data_size (pk_recv_page_leading st)"
    have "?d \<noteq> 0" using less.prems(2) FRAME_PAGE_STATE_SKIP by (simp add: rs_ok_def)
    then have pos: "0 < uint ?d" using uint_ge_0 [of ?d] by (metis less_le uint_0_iff)
    with FRAME_PAGE_STATE_SKIP less.prems show ?thesis
      by (subst consume_loop.simps) (auto simp: Let_def rs_ok_def intro!: loop_outcomeI)
  qed
qed

section \<open>Well-formed pages\<close>

text \<open>A page: is it the first one, is it the last one, its data.\<close>

type_synonym page = "bool \<times> bool \<times> byte list"

definition page_leading_for :: "page \<Rightarrow> page_leading" where
  "page_leading_for pg = (case pg of (s, e, pay) \<Rightarrow>
     \<lparr>pg_start = of_bool s, pg_end = of_bool e, pg_data_size = word_of_nat (length pay)\<rparr>)"

definition page_wire :: "page \<Rightarrow> byte list" where
  "page_wire pg = page_leading_bytes (page_leading_for pg) @ snd (snd pg)"

definition valid_page :: "nat \<Rightarrow> page \<Rightarrow> bool" where
  "valid_page cap pg \<longleftrightarrow> snd (snd pg) \<noteq> [] \<and> length (snd (snd pg)) + 2 \<le> cap \<and> length (snd (snd pg)) < 2 ^ 14"

fun pages_run :: "pkt_class \<Rightarrow> page list \<Rightarrow> rx \<Rightarrow> rx option" where
  "pages_run cls [] r = Some r"
| "pages_run cls ((s, e, pay) # pgs) r =
     (case page_spec cls s e pay r of (rc, r') \<Rightarrow> if rc = 0 then pages_run cls pgs r' else None)"

abbreviation wire :: "page list \<Rightarrow> byte list" where
  "wire pgs \<equiv> concat (map page_wire pgs)"

text \<open>\<open>part\<close> is what has arrived of the page after the complete ones.\<close>

definition partial_page :: "nat \<Rightarrow> byte list \<Rightarrow> bool" where
  "partial_page cap part \<longleftrightarrow>
     part = [] \<or> (\<exists>pg rest. valid_page cap pg \<and> rest \<noteq> [] \<and> page_wire pg = part @ rest)"

text \<open>The loop has halted in front of the bytes \<open>bs\<close>, or has read the leading in front of them.\<close>

definition halted_at :: "byte list \<Rightarrow> pkt_state \<Rightarrow> bool" where
  "halted_at bs st \<longleftrightarrow>
     pk_recv_state st = FRAME_PAGE_STATE_RECEIVE_LEADING \<or>
     pk_recv_state st = FRAME_PAGE_STATE_RECEIVE_BODY \<and> page_leading_at bs = Some (pk_recv_page_leading st)"

lemma halted_at_append: "halted_at bs st \<Longrightarrow> halted_at (bs @ more_bs) st"
  unfolding halted_at_def
  by (metis length_append length_page_leading_bytes le_add1 page_leading_at_append page_leading_bytes_at)

lemma length_page_wire [simp]: "length (page_wire pg) = 2 + length (snd (snd pg))"
  by (simp add: page_wire_def)

lemma page_leading_for_fields:
  assumes "valid_page cap (s, e, pay)"
  shows "is_start (page_leading_for (s, e, pay)) = s" "is_end (page_leading_for (s, e, pay)) = e"
    "unat (pg_data_size (page_leading_for (s, e, pay))) = length pay"
  using assms
  by (auto simp: page_leading_for_def is_start_def is_end_def valid_page_def unsigned_of_nat take_bit_nat_eq_self)

lemma page_leading_at_wire: "page_leading_at (page_wire pg @ rest) = Some (page_leading_for pg)"
  by (simp add: page_wire_def)

lemma valid_page_size:
  assumes "valid_page cap pg"
  shows "pg_data_size (page_leading_for pg) \<noteq> 0" "2 + uint (pg_data_size (page_leading_for pg)) \<le> int cap"
    "uint (pg_data_size (page_leading_for pg)) = int (length (snd (snd pg)))"
proof -
  obtain s e pay where pg: "pg = (s, e, pay)" by (cases pg)
  have u: "unat (pg_data_size (page_leading_for pg)) = length pay"
    using page_leading_for_fields(3) assms pg by simp
  then show "uint (pg_data_size (page_leading_for pg)) = int (length (snd (snd pg)))"
    by (metis pg snd_conv uint_nat)
  then show "2 + uint (pg_data_size (page_leading_for pg)) \<le> int cap"
    using assms pg by (simp add: valid_page_def)
  show "pg_data_size (page_leading_for pg) \<noteq> 0"
    using u assms pg by (auto simp: valid_page_def)
qed

text \<open>A complete page at the front is consumed; its specification is performed.\<close>

lemma consume_one_page:
  assumes rel: "rx_rel st r" and valid: "valid_page cap (s, e, pay)"
    and spec: "page_spec cls s e pay r = (0, r')"
    and halted: "halted_at (page_wire (s, e, pay) @ rest) st"
    and n: "nremains = int (2 + length pay + m)"
  obtains st1 where "rx_rel st1 r'" "same_tx st st1"
    "pk_recv_state st1 = FRAME_PAGE_STATE_RECEIVE_LEADING"
    "consume_loop cls junk (int cap) (page_wire (s, e, pay) @ rest) nremains nconsumed st =
     consume_loop cls junk (int cap) rest (int m) (nconsumed + int (2 + length pay)) st1"
proof -
  let ?pg = "(s, e, pay)" and ?ptr = "page_wire (s, e, pay) @ rest"
  let ?pl = "page_leading_for ?pg"
  let ?st = "st\<lparr>pk_recv_page_leading := ?pl, pk_recv_state := FRAME_PAGE_STATE_RECEIVE_BODY\<rparr>"
  note size = valid_page_size [OF valid]
  have "consume_loop cls junk (int cap) ?ptr nremains nconsumed st =
      consume_loop cls junk (int cap) ?ptr nremains nconsumed ?st"
  proof (cases "pk_recv_state st = FRAME_PAGE_STATE_RECEIVE_LEADING")
    case True
    show ?thesis
      by (rule consume_loop_leading [OF True _ page_leading_at_wire size(1,2)]) (simp add: n)
  next
    case False
    with halted have "?st = st" by (simp add: halted_at_def page_leading_at_wire)
    then show ?thesis by simp
  qed
  moreover have page: "read_at ?ptr 2 (unat (pg_data_size ?pl)) = Some pay"
    using page_leading_for_fields(3) [OF valid] by (simp add: read_at_def page_wire_def)
  moreover obtain st1 where st1: "consume_packet cls junk ?st pay = Some (0, st1)" "rx_rel st1 r'"
      "same_tx ?st st1"
    using consume_packet_refines [of ?st r pay cls junk] rel valid spec page_leading_for_fields(1,2) [OF valid]
    by (auto simp: refines_page_def valid_page_def)
  ultimately have "consume_loop cls junk (int cap) ?ptr nremains nconsumed st =
      consume_loop cls junk (int cap) rest (int m) (nconsumed + int (2 + length pay))
        (st1\<lparr>pk_recv_state := FRAME_PAGE_STATE_RECEIVE_LEADING\<rparr>)"
    using consume_loop_body [of ?st nremains ?ptr pay cls junk 0 st1 "int cap" nconsumed] size(3) n
      page_leading_for_fields(3) [OF valid]
    by (cases cls) (simp_all add: consume_failed_def page_wire_def)
  then show thesis
    using st1 by (intro that [of "st1\<lparr>pk_recv_state := FRAME_PAGE_STATE_RECEIVE_LEADING\<rparr>"]) simp_all
qed

text \<open>An incomplete page halts the loop.\<close>

lemma consume_partial_page:
  assumes "partial_page cap part" "halted_at part st" "rx_rel st r"
  shows "\<exists>st'. consume_loop cls junk (int cap) (part @ rest) (int (length part)) nconsumed st = Some (nconsumed, st') \<and>
    rx_rel st' r \<and> same_tx st st' \<and> halted_at part st'"
proof (cases "length part < 2")
  case True
  have "pk_recv_state st = FRAME_PAGE_STATE_RECEIVE_LEADING"
    using assms(2) True page_leading_bytes_at [of part]
    by (auto simp: halted_at_def)
  then show ?thesis
    using True assms by (subst consume_loop.simps) (auto simp: Let_def)
next
  case False
  then obtain pg more_bs where pg: "valid_page cap pg" "more_bs \<noteq> []" "page_wire pg = part @ more_bs"
    using assms(1) by (auto simp: partial_page_def)
  let ?pl = "page_leading_for pg"
  let ?st = "st\<lparr>pk_recv_page_leading := ?pl, pk_recv_state := FRAME_PAGE_STATE_RECEIVE_BODY\<rparr>"
  note size = valid_page_size [OF pg(1)]
  have at: "page_leading_at part = Some ?pl"
    using page_leading_at_wire [of pg "[]"] page_leading_at_append [of part more_bs] False pg(3) by simp
  then have at': "page_leading_at (part @ rest) = Some ?pl"
    using page_leading_at_append [of part rest] False by simp
  have "length part < 2 + length (snd (snd pg))"
    using arg_cong [OF pg(3), of length] pg(2) by (cases more_bs) auto
  then have halt: "consume_loop cls junk (int cap) (part @ rest) (int (length part)) nconsumed ?st = Some (nconsumed, ?st)"
    using size(3) by (subst consume_loop.simps) (simp add: Let_def)
  have "consume_loop cls junk (int cap) (part @ rest) (int (length part)) nconsumed st =
      consume_loop cls junk (int cap) (part @ rest) (int (length part)) nconsumed ?st"
  proof (cases "pk_recv_state st = FRAME_PAGE_STATE_RECEIVE_LEADING")
    case True
    show ?thesis
      by (rule consume_loop_leading [OF True _ at' size(1,2)]) (use False in simp)
  next
    case False
    with assms(2) at have "?st = st" by (simp add: halted_at_def)
    then show ?thesis by simp
  qed
  with halt assms(3) at show ?thesis by (auto simp: halted_at_def)
qed

lemma consume_pages:
  assumes "rx_rel st r" "list_all (valid_page cap) pgs" "pages_run cls pgs r = Some r'"
    and "partial_page cap part" "halted_at (wire pgs @ part) st"
  shows "\<exists>st'. consume_loop cls junk (int cap) (wire pgs @ part @ rest) (int (length (wire pgs @ part))) nconsumed st =
      Some (nconsumed + int (length (wire pgs)), st') \<and>
    rx_rel st' r' \<and> same_tx st st' \<and> halted_at part st'"
  using assms
proof (induction pgs arbitrary: st r nconsumed)
  case Nil
  then show ?case using consume_partial_page [of cap part st r cls junk rest nconsumed] by simp
next
  case (Cons pg pgs)
  obtain s e pay where pg: "pg = (s, e, pay)" by (cases pg)
  obtain r1 where r1: "page_spec cls s e pay r = (0, r1)" "pages_run cls pgs r1 = Some r'"
    using Cons.prems(3) pg by (auto split: prod.splits if_splits)
  have valid: "valid_page cap (s, e, pay)" "list_all (valid_page cap) pgs" using Cons.prems(2) pg by simp_all
  have halted: "halted_at (page_wire (s, e, pay) @ wire pgs @ part @ rest) st"
    using halted_at_append [OF Cons.prems(5), of rest] by (simp add: pg)
  obtain st1 where st1: "rx_rel st1 r1" "same_tx st st1"
      "pk_recv_state st1 = FRAME_PAGE_STATE_RECEIVE_LEADING"
      "consume_loop cls junk (int cap) (page_wire (s, e, pay) @ wire pgs @ part @ rest)
         (int (length (wire (pg # pgs) @ part))) nconsumed st =
       consume_loop cls junk (int cap) (wire pgs @ part @ rest) (int (length (wire pgs @ part)))
         (nconsumed + int (2 + length pay)) st1"
    by (rule consume_one_page [OF Cons.prems(1) valid(1) r1(1) halted,
          of "int (length (wire (pg # pgs) @ part))" "length (wire pgs @ part)" junk nconsumed])
      (auto simp: pg)
  have "halted_at (wire pgs @ part) st1" using st1(3) by (simp add: halted_at_def)
  from Cons.IH [OF st1(1) valid(2) r1(2) Cons.prems(4) this, of "nconsumed + int (2 + length pay)"]
  show ?case using st1 pg by (auto simp: add.assoc intro: same_tx_trans)
qed

end
