(* ===== verification/TcpSend.thy ===== *)
theory TcpSend
  imports TcpReceive
begin

text \<open>
  The sending side of the packet classes: \<open>Post\<close> hands to the connection exactly the pages
  of the packet, in order, and puts its buffer back. The packet is cut into pages of at most
  \<open>PER_FRAME_PAGE_SIZE_MAX\<close> bytes; only the first one carries the start flag, only the last
  one the end flag.
\<close>

section \<open>Specification\<close>

definition page_data_max :: nat where
  "page_data_max = PER_FRAME_PAGE_SIZE_MAX - SIZE_OF_FRAME_PAGE_LEADING"

lemma page_data_max_value [simp]: "page_data_max = 8190"
  by (simp add: page_data_max_def)

function pages_of :: "bool \<Rightarrow> byte list \<Rightarrow> page list" where
  "pages_of s bs =
     (if length bs \<le> page_data_max then [(s, True, bs)]
      else (s, False, take page_data_max bs) # pages_of False (drop page_data_max bs))"
  by pat_completeness auto

termination
  by (relation "measure (\<lambda>(s, bs). length bs)") auto

declare pages_of.simps [simp del]

text \<open>
  The bytes of a packet. The inner leading has six bytes the sender never writes: \<open>pad\<close>.
\<close>

definition packet_leading_bytes :: "pkt_class \<Rightarrow> byte list \<Rightarrow> 64 word \<Rightarrow> byte \<Rightarrow> nat \<Rightarrow> byte list" where
  "packet_leading_bytes cls pad uuid serial name_len =
     (case cls of
        Inner \<Rightarrow> [word_of_nat name_len, serial] @ pad @ le_bytes uuid
      | Outer \<Rightarrow> [word_of_nat name_len, serial])"

fun packet_bytes :: "pkt_class \<Rightarrow> byte list \<Rightarrow> packet_content \<Rightarrow> byte list" where
  "packet_bytes cls pad (uuid, serial, name, body) =
     packet_leading_bytes cls pad uuid serial (length name) @ name @ body"

lemma length_packet_leading_bytes:
  "length pad = 6 \<Longrightarrow> length (packet_leading_bytes cls pad uuid serial n) = SIZE_OF_PACKET_LEADING cls"
  by (cases cls) (simp_all add: packet_leading_bytes_def)

text \<open>Handing pages to the connection one after the other, adding up what it reports.\<close>

fun send_all :: "'c send_raw \<Rightarrow> byte list list \<Rightarrow> size_t \<Rightarrow> 'c \<Rightarrow> (size_t \<times> 'c) option" where
  "send_all send [] sz c = Some (sz, c)"
| "send_all send (p # ps) sz c =
     (case send c p of None \<Rightarrow> None | Some (n, c') \<Rightarrow> send_all send ps (sz + n) c')"

section \<open>The page loop\<close>

lemma send_hint [simp]: "unat s_SEND_PACKET_BUFFER_CAPACITY_HINT = 16384"
  "unat (s_SEND_PACKET_BUFFER_CAPACITY_HINT - sizeof_packet_buffer) = 16352"
  by (simp_all add: s_SEND_PACKET_BUFFER_CAPACITY_HINT_def sizeof_packet_buffer_def)

lemma pb_ok_send:
  "pb_ok s_SEND_PACKET_BUFFER_CAPACITY_HINT b \<longleftrightarrow>
   pb_cap_size b = s_SEND_PACKET_BUFFER_CAPACITY_HINT - sizeof_packet_buffer \<and>
   length (pb_data b) = 16352 \<and> unat (pb_size b) \<le> 16352"
  by (auto simp: pb_ok_def)

text \<open>The send buffer starts with a page leading and the bytes \<open>hdr\<close>.\<close>

definition starts_with :: "byte list \<Rightarrow> page_leading \<Rightarrow> byte list \<Rightarrow> bool" where
  "starts_with d pl hdr \<longleftrightarrow> (\<exists>rest. d = page_leading_bytes pl @ hdr @ rest)"

lemma starts_with_leading: "starts_with d pl hdr \<Longrightarrow> page_leading_at d = Some pl"
  by (auto simp: starts_with_def)

text \<open>Filling the page behind \<open>hdr\<close> and patching its leading.\<close>

lemma page_fill:
  assumes "starts_with d pl hdr" "2 + length hdr + length bs \<le> length d"
  shows "\<exists>d1 rest. write_at d (2 + length hdr) bs = Some d1 \<and>
    d1 = page_leading_bytes pl @ hdr @ bs @ rest \<and> length d1 = length d"
  using assms by (auto simp: starts_with_def write_at_def)

lemma page_patch:
  "write_at (page_leading_bytes pl @ rest) 0 (page_leading_bytes pl') = Some (page_leading_bytes pl' @ rest)"
  by (simp add: write_at_def)

lemma unat_page_size:
  assumes "n \<le> 8192"
  shows "unat (word_of_int (int n) :: size_t) = n"
  using assms by (simp add: unsigned_of_nat take_bit_nat_eq_self)

lemma page_size_field:
  assumes "n \<le> 8190"
  shows "ucast (word_of_int (int (2 + n)) - word_of_nat SIZE_OF_FRAME_PAGE_LEADING :: size_t) = (word_of_nat n :: 14 word)"
proof -
  have "(word_of_int (int (2 + n)) - word_of_nat SIZE_OF_FRAME_PAGE_LEADING :: size_t) = word_of_nat n"
    by simp
  then show ?thesis by (simp add: unsigned_of_nat take_bit_nat_eq_self word_unat_eq_iff unsigned_ucast_eq)
qed

lemma post_pages_step:
  assumes "page_leading_at (pb_data b) = Some pl" "pg_end pl = 0"
    and "min (int PER_FRAME_PAGE_SIZE_MAX - nOffset) nremains = int k"
    and "\<not> nOffset < 0" "nat nOffset = off"
    and "word_of_int (nOffset + int k) = sz"
    and "pl\<lparr>pg_end := (if nremains - int k \<le> 0 then 1 else 0),
      pg_data_size := ucast (sz - word_of_nat SIZE_OF_FRAME_PAGE_LEADING)\<rparr> = pl'"
    and "read_at sBody ptr k = Some bs" "write_at (pb_data b) off bs = Some d1"
    and "write_at d1 0 (page_leading_bytes pl') = Some d2" "read_at d2 0 (unat sz) = Some page"
    and "write_at d2 0 (page_leading_bytes (pl'\<lparr>pg_start := 0\<rparr>)) = Some d3"
  shows "post_pages send sBody ptr nOffset nremains szSend b c =
    (case send c page of None \<Rightarrow> None
     | Some (n, c') \<Rightarrow> post_pages send sBody (ptr + k) (int SIZE_OF_FRAME_PAGE_LEADING) (nremains - int k)
         (szSend + n) (b\<lparr>pb_data := d3, pb_size := sz\<rparr>) c')"
  by (subst post_pages.simps)
    (simp only: assms Let_def Option.bind.simps simp_thms if_False of_nat_less_0_iff nat_int if_True,
      simp split: option.split)

text \<open>One round: the page \<open>hdr @ bs\<close> is sent, and the next one starts without \<open>hdr\<close>.\<close>

lemma post_pages_round:
  assumes d: "starts_with (pb_data b) pl hdr" "length (pb_data b) = 16352"
    and pl: "pg_start pl = of_bool s" "pg_end pl = 0"
    and off: "nOffset = int (2 + length hdr)" "length hdr \<le> 8190"
    and rest: "ptr + length rest = length sBody" "rest = drop ptr sBody" "nremains = int (length rest)"
    and k: "k = min (8190 - length hdr) (length rest)"
  defines "fin \<equiv> (k = length rest)"
  shows "\<exists>b' pl'. starts_with (pb_data b') pl' [] \<and> length (pb_data b') = 16352 \<and>
    pg_start pl' = 0 \<and> pg_end pl' = of_bool fin \<and> pb_cap_size b' = pb_cap_size b \<and> unat (pb_size b') \<le> 8192 \<and>
    post_pages send sBody ptr nOffset nremains szSend b c =
      (case send c (page_wire (s, fin, hdr @ take k rest)) of
         None \<Rightarrow> None
       | Some (n, c') \<Rightarrow>
           post_pages send sBody (ptr + k) 2 (int (length rest - k)) (szSend + n) b' c')"
proof -
  let ?bs = "take k rest"
  have len: "length ?bs = k" "length hdr + k \<le> 8190" using k off(2) by auto
  have nsends: "min (int PER_FRAME_PAGE_SIZE_MAX - nOffset) nremains = int k"
  proof -
    have "int PER_FRAME_PAGE_SIZE_MAX - nOffset = int (8190 - length hdr)"
      using off by (simp add: of_nat_diff)
    then show ?thesis using k rest(3) by (simp only: of_nat_min)
  qed
  have rd: "read_at sBody ptr k = Some ?bs"
    using rest k by (simp add: read_at_def)
  obtain d1 r1 where d1: "write_at (pb_data b) (2 + length hdr) ?bs = Some d1"
      "d1 = page_leading_bytes pl @ hdr @ ?bs @ r1" "length d1 = length (pb_data b)"
    using page_fill [OF d(1), of ?bs] len d(2) by auto
  let ?sz = "word_of_int (int (2 + length hdr) + int k) :: size_t"
  define pl' where "pl' = pl\<lparr>pg_end := (if nremains - int k \<le> 0 then 1 else 0),
    pg_data_size := ucast (?sz - word_of_nat SIZE_OF_FRAME_PAGE_LEADING)\<rparr>"
  have sz: "?sz = word_of_int (int (2 + (length hdr + k)))" by simp
  have fields: "pl' = page_leading_for (s, fin, hdr @ ?bs)"
  proof -
    have "(if nremains - int k \<le> 0 then 1 else 0 :: 1 word) = of_bool fin"
      using rest(3) k by (auto simp: fin_def)
    moreover have "ucast (?sz - word_of_nat SIZE_OF_FRAME_PAGE_LEADING) = (word_of_nat (length hdr + k) :: 14 word)"
      unfolding sz by (rule page_size_field) (use len in simp)
    ultimately show ?thesis using pl(1) len(1) by (simp add: pl'_def page_leading_for_def)
  qed
  let ?d2 = "page_leading_bytes pl' @ hdr @ ?bs @ r1"
  let ?d3 = "page_leading_bytes (pl'\<lparr>pg_start := 0\<rparr>) @ hdr @ ?bs @ r1"
  have usz: "unat ?sz = 2 + length hdr + k"
    unfolding sz by (subst unat_page_size) (use len in auto)
  have page: "read_at ?d2 0 (unat ?sz) = Some (page_wire (s, fin, hdr @ ?bs))"
    unfolding usz using len fields by (simp add: read_at_def page_wire_def)
  define b' where "b' = b\<lparr>pb_data := ?d3, pb_size := ?sz\<rparr>"
  have step: "post_pages send sBody ptr nOffset nremains szSend b c =
      (case send c (page_wire (s, fin, hdr @ ?bs)) of
         None \<Rightarrow> None
       | Some (n, c') \<Rightarrow> post_pages send sBody (ptr + k) 2 (int (length rest - k)) (szSend + n) b' c')"
  proof -
    have rem: "nremains - int k = int (length rest - k)" using rest(3) k by simp
    have "word_of_int (nOffset + int k) = ?sz" "\<not> nOffset < 0" "nat nOffset = 2 + length hdr"
      by (simp_all add: off(1))
    note post_pages_step [OF starts_with_leading [OF d(1)] pl(2) nsends this(2,3,1) pl'_def [symmetric] rd
        d1(1) [unfolded d1(2)] page_patch page page_patch, of send szSend c]
    moreover have "int SIZE_OF_FRAME_PAGE_LEADING = 2" by simp
    ultimately show ?thesis unfolding rem b'_def by (simp only:)
  qed
  have end': "pg_end pl' = of_bool fin" by (simp add: fields page_leading_for_def)
  show ?thesis
    by (rule exI [of _ b'], rule exI [of _ "pl'\<lparr>pg_start := 0\<rparr>"])
      (use step d1(2,3) d(2) usz len end' in \<open>auto simp: b'_def starts_with_def\<close>)
qed

text \<open>The whole loop: the pages of \<open>hdr @ rest\<close> are sent in order.\<close>

lemma post_pages_ok:
  assumes "starts_with (pb_data b) pl hdr" "pb_ok s_SEND_PACKET_BUFFER_CAPACITY_HINT (b\<lparr>pb_size := 0\<rparr>)"
    and "pg_start pl = of_bool s" "pg_end pl = 0" "length hdr \<le> 8190"
    and "ptr + length rest = length sBody" "rest = drop ptr sBody"
  shows "\<exists>b'. pb_ok s_SEND_PACKET_BUFFER_CAPACITY_HINT b' \<and>
    post_pages send sBody ptr (int (2 + length hdr)) (int (length rest)) szSend b c =
      map_option (\<lambda>(sz, c'). (sz, b', c'))
        (send_all send (map page_wire (pages_of s (hdr @ rest))) szSend c)"
  using assms
proof (induction "length (hdr @ rest)" arbitrary: hdr rest s b pl ptr szSend c rule: less_induct)
  case less
  define k where "k = min (8190 - length hdr) (length rest)"
  let ?page = "page_wire (s, k = length rest, hdr @ take k rest)"
  have d: "length (pb_data b) = 16352" using less.prems(2) by (simp add: pb_ok_send)
  from post_pages_round [OF less.prems(1) d less.prems(3,4) refl less.prems(5,6,7) refl k_def, of send szSend c]
  obtain b' pl' where b': "starts_with (pb_data b') pl' []" "length (pb_data b') = 16352"
      "pg_start pl' = 0" "pg_end pl' = of_bool (k = length rest)" "pb_cap_size b' = pb_cap_size b"
      "unat (pb_size b') \<le> 8192"
      "post_pages send sBody ptr (int (2 + length hdr)) (int (length rest)) szSend b c =
        (case send c ?page of None \<Rightarrow> None
         | Some (n, c') \<Rightarrow> post_pages send sBody (ptr + k) 2 (int (length rest - k)) (szSend + n) b' c')"
    by blast
  have ok: "pb_ok s_SEND_PACKET_BUFFER_CAPACITY_HINT b'"
    "pb_ok s_SEND_PACKET_BUFFER_CAPACITY_HINT (b'\<lparr>pb_size := 0\<rparr>)"
    using b' less.prems(2) by (simp_all add: pb_ok_send)
  show ?case
  proof (cases "k = length rest")
    case True
    then have "pages_of s (hdr @ rest) = [(s, True, hdr @ rest)]"
      using less.prems(5) by (subst pages_of.simps) (auto simp: k_def)
    moreover have "post_pages send sBody (ptr + k) 2 0 sz b' c' = Some (sz, b', c')" for sz c'
      using starts_with_leading [OF b'(1)] b'(4) True by (subst post_pages.simps) simp
    ultimately show ?thesis
      using b'(7) ok(1) True by (auto split: option.splits)
  next
    case False
    then have k: "k = 8190 - length hdr" "k < length rest" by (auto simp: k_def)
    have pages: "pages_of s (hdr @ rest) = (s, False, hdr @ take k rest) # pages_of False (drop k rest)"
      using k less.prems(5) by (subst pages_of.simps) simp
    show ?thesis
    proof (cases "send c ?page")
      case None
      with b'(7) ok(1) pages False show ?thesis by auto
    next
      case (Some nc)
      obtain n c' where nc: "nc = (n, c')" by (cases nc)
      have "\<exists>b''. pb_ok s_SEND_PACKET_BUFFER_CAPACITY_HINT b'' \<and>
        post_pages send sBody (ptr + k) (int (2 + length ([] :: byte list))) (int (length (drop k rest))) (szSend + n) b' c' =
          map_option (\<lambda>(sz, c'). (sz, b'', c'))
            (send_all send (map page_wire (pages_of False ([] @ drop k rest))) (szSend + n) c')"
        by (rule less.hyps [OF _ b'(1) ok(2)]) (use less.prems b'(3,4) k False in \<open>auto simp: drop_drop add.commute\<close>)
      with b'(7) pages Some nc False show ?thesis by auto
    qed
  qed
qed

section \<open>Encoding the first page\<close>

lemma write_at_append:
  "length bs \<le> length ys \<Longrightarrow> write_at (xs @ ys) (length xs) bs = Some (xs @ bs @ drop (length bs) ys)"
  by (simp add: write_at_def)

lemma put_packet_leading_ok:
  assumes "length pre = 2" "16 \<le> length d"
  shows "\<exists>pad rest. length pad = 6 \<and> length rest + SIZE_OF_PACKET_LEADING cls = length d \<and>
    put_packet_leading cls (pre @ d) uuid serial n =
      Some (pre @ packet_leading_bytes cls pad uuid serial n @ rest)"
proof (cases cls)
  case Inner
  let ?hd = "[word_of_nat n, serial] :: byte list"
  let ?pad = "take 6 (drop 2 d)"
  have w1: "write_at (pre @ d) 2 ?hd = Some (pre @ ?hd @ drop 2 d)"
    using write_at_append [of ?hd d pre] assms by (simp add: numeral_2_eq_2)
  have split: "pre @ ?hd @ drop 2 d = (pre @ ?hd @ ?pad) @ drop 8 d"
    using append_take_drop_id [of 6 "drop 2 d"] by simp
  have w2: "write_at (pre @ ?hd @ drop 2 d) 10 (le_bytes uuid) =
      Some ((pre @ ?hd @ ?pad) @ le_bytes uuid @ drop 16 d)"
    unfolding split using write_at_append [of "le_bytes uuid" "drop 8 d" "pre @ ?hd @ ?pad"] assms by simp
  show ?thesis
    by (rule exI [of _ ?pad], rule exI [of _ "drop 16 d"])
      (use Inner assms w1 w2 in \<open>simp add: put_packet_leading_def packet_leading_bytes_def\<close>)
next
  case Outer
  then show ?thesis
    using write_at_append [of "[word_of_nat n, serial]" d pre] assms
    by (intro exI [of _ "replicate 6 0"] exI [of _ "drop (Suc (Suc 0)) d"])
      (simp add: put_packet_leading_def packet_leading_bytes_def)
qed

lemma encode_stream_ok:
  assumes a: "pk_ref_send_buf st = Some a" "nh_get (fls_heap (pk_send_list st)) a = Some b"
    and b: "pb_ok s_SEND_PACKET_BUFFER_CAPACITY_HINT b"
    and n: "SIZE_OF_PACKET_LEADING cls + length sTypeName \<le> 8190"
  shows "\<exists>b1 h pl pad. length pad = 6 \<and> nh_put (fls_heap (pk_send_list st)) a b1 = Some h \<and>
    starts_with (pb_data b1) pl (packet_leading_bytes cls pad uuid serial (length sTypeName) @ sTypeName) \<and>
    pg_start pl = 1 \<and> pg_end pl = 0 \<and> pb_ok s_SEND_PACKET_BUFFER_CAPACITY_HINT (b1\<lparr>pb_size := 0\<rparr>) \<and>
    encode_stream cls st uuid serial sTypeName szBodyLen =
      Some (int (2 + (SIZE_OF_PACKET_LEADING cls + length sTypeName)),
            st\<lparr>pk_send_list := (pk_send_list st)\<lparr>fls_heap := h\<rparr>\<rparr>)"
proof -
  let ?L = "SIZE_OF_PACKET_LEADING cls"
  let ?pl = "\<lparr>pg_start = 1, pg_end = 0, pg_data_size = word_of_int (int_of_size (?L + length sTypeName + szBodyLen))\<rparr>"
  let ?d = "drop 2 (pb_data b)"
  have len: "length (pb_data b) = 16352" and cap: "unat (pb_cap_size b) = 16352"
    using b by (simp_all add: pb_ok_send)
  have off: "int_of_size (2 + ?L + length sTypeName) = int (2 + (?L + length sTypeName))"
    using n by (subst int_of_size_small) auto
  have fits: "word_of_int (int (2 + (?L + length sTypeName))) < pb_cap_size b"
    unfolding size_less_iff by (subst unat_page_size) (use n cap in auto)
  have w1: "write_at (pb_data b) 0 (page_leading_bytes ?pl) = Some (page_leading_bytes ?pl @ ?d)"
    using len by (simp add: write_at_def numeral_2_eq_2)
  obtain pad rest where p: "length pad = 6" "length rest + ?L = length ?d"
      "put_packet_leading cls (page_leading_bytes ?pl @ ?d) uuid serial (length sTypeName) =
       Some (page_leading_bytes ?pl @ packet_leading_bytes cls pad uuid serial (length sTypeName) @ rest)"
    using put_packet_leading_ok [of "page_leading_bytes ?pl" ?d cls uuid serial "length sTypeName"] len by auto
  let ?pre = "page_leading_bytes ?pl @ packet_leading_bytes cls pad uuid serial (length sTypeName)"
  have pre: "length ?pre = 2 + ?L" using length_packet_leading_bytes [OF p(1)] by simp
  have room: "length sTypeName \<le> length rest" using p(2) len n by simp
  have w3: "write_at (?pre @ rest) (2 + ?L) sTypeName = Some (?pre @ sTypeName @ drop (length sTypeName) rest)"
    using write_at_append [OF room, of ?pre] pre by simp
  define b1 where "b1 = b\<lparr>pb_data := ?pre @ sTypeName @ drop (length sTypeName) rest,
    pb_size := word_of_int (int (2 + (?L + length sTypeName))) + word_of_nat szBodyLen\<rparr>"
  have mem: "nh_mem (fls_heap (pk_send_list st)) a \<noteq> None" using a(2) by (auto simp: nh_get_def)
  obtain h where h: "nh_put (fls_heap (pk_send_list st)) a b1 = Some h"
    using nh_put_ok [OF mem] by metis
  have "length (pb_data b1) = 16352"
    using pre room p(2) len by (simp add: b1_def)
  then have ok: "pb_ok s_SEND_PACKET_BUFFER_CAPACITY_HINT (b1\<lparr>pb_size := 0\<rparr>)"
    using b by (simp add: pb_ok_send b1_def)
  have "encode_stream cls st uuid serial sTypeName szBodyLen =
      Some (int (2 + (?L + length sTypeName)), st\<lparr>pk_send_list := (pk_send_list st)\<lparr>fls_heap := h\<rparr>\<rparr>)"
    using a fits w1 p(3) w3 h off unfolding encode_stream_def b1_def
    by (simp del: of_nat_add of_int_of_nat_eq)
  moreover have "starts_with (pb_data b1) ?pl (packet_leading_bytes cls pad uuid serial (length sTypeName) @ sTypeName)"
    by (auto simp: starts_with_def b1_def)
  ultimately show ?thesis using p(1) h ok by fastforce
qed

section \<open>Posting a packet\<close>

definition tx_ok :: "pkt_state \<Rightarrow> bool" where
  "tx_ok st \<longleftrightarrow> (\<exists>as. pb_avail s_SEND_PACKET_BUFFER_CAPACITY_HINT (pk_send_list st) as) \<and>
     pk_ref_send_buf st = None"

definition same_rx :: "pkt_state \<Rightarrow> pkt_state \<Rightarrow> bool" where
  "same_rx st st' \<longleftrightarrow> pk_recv_state st' = pk_recv_state st \<and>
     pk_recv_page_leading st' = pk_recv_page_leading st \<and> pk_ref_recv_buf st' = pk_ref_recv_buf st \<and>
     pk_recv_list st' = pk_recv_list st \<and> pk_got st' = pk_got st"

lemma nh_put_put: "nh_put h a x = Some h1 \<Longrightarrow> nh_put h1 a y = nh_put h a y"
  by (auto simp: nh_put_def split: option.splits)

lemma nh_get_put: "nh_put h a x = Some h1 \<Longrightarrow> nh_get h1 a = Some x"
  by (auto simp: nh_put_def nh_get_def split: option.splits)

lemma tcp_post_pages:
  assumes tx: "tx_ok st" and n: "SIZE_OF_PACKET_LEADING cls + length name \<le> 8190"
    and body: "length body < 2 ^ 31"
  shows "\<exists>pad st'. length pad = 6 \<and> tx_ok st' \<and> same_rx st st' \<and>
    (\<forall>a. fls_owned (pk_send_list st') a \<longleftrightarrow> fls_owned (pk_send_list st) a) \<and>
    tcp_post cls junk send True (uuid, serial, name, body) st c =
      map_option (\<lambda>(sz, c'). (sz, st', c'))
        (send_all send (map page_wire (pages_of True (packet_bytes cls pad (uuid, serial, name, body)))) 0 c)"
proof -
  let ?H = s_SEND_PACKET_BUFFER_CAPACITY_HINT and ?L = "SIZE_OF_PACKET_LEADING cls"
  obtain as where as: "pb_avail ?H (pk_send_list st) as" using tx by (auto simp: tx_ok_def)
  obtain a sl as' b where al: "packet_buffer_alloc junk ?H 1 (pk_send_list st) = Some (a, sl)"
      "pb_avail ?H sl as'" "\<not> fls_owned (pk_send_list st) a"
      "\<forall>c. fls_owned sl c \<longleftrightarrow> c = a \<or> fls_owned (pk_send_list st) c" "nh_get (fls_heap sl) a = Some b"
    using packet_buffer_alloc_ok [OF as, of 1 junk] by auto
  have bok: "pb_ok ?H b" using al(2,5) by (auto simp: pb_avail_def)
  let ?st1 = "st\<lparr>pk_send_list := sl, pk_ref_send_buf := Some a\<rparr>"
  obtain b1 h1 pl pad where e: "length pad = 6" "nh_put (fls_heap sl) a b1 = Some h1"
      "starts_with (pb_data b1) pl (packet_leading_bytes cls pad uuid serial (length name) @ name)"
      "pg_start pl = 1" "pg_end pl = 0" "pb_ok ?H (b1\<lparr>pb_size := 0\<rparr>)"
      "encode_stream cls ?st1 uuid serial name (length body) =
        Some (int (2 + (?L + length name)), ?st1\<lparr>pk_send_list := sl\<lparr>fls_heap := h1\<rparr>\<rparr>)"
    using encode_stream_ok [of ?st1 a b cls name uuid serial "length body"] al(5) bok n by auto
  let ?hdr = "packet_leading_bytes cls pad uuid serial (length name) @ name"
  have hdr: "length ?hdr = ?L + length name" using length_packet_leading_bytes [OF e(1)] by simp
  have "\<exists>b'. pb_ok ?H b' \<and> post_pages send body 0 (int (2 + length ?hdr)) (int (length body)) 0 b1 c =
      map_option (\<lambda>(sz, c'). (sz, b', c')) (send_all send (map page_wire (pages_of True (?hdr @ body))) 0 c)"
    by (rule post_pages_ok [OF e(3,6)]) (use e(4,5) n hdr in auto)
  then obtain b' where b': "pb_ok ?H b'"
      "post_pages send body 0 (int (2 + (?L + length name))) (int (length body)) 0 b1 c =
       map_option (\<lambda>(sz, c'). (sz, b', c'))
         (send_all send (map page_wire (pages_of True (packet_bytes cls pad (uuid, serial, name, body)))) 0 c)"
    unfolding hdr by auto
  obtain h2 where h2: "nh_put (fls_heap sl) a b' = Some h2" "pb_avail ?H (sl\<lparr>fls_heap := h2\<rparr>) as'"
      "\<forall>c. fls_owned (sl\<lparr>fls_heap := h2\<rparr>) c \<longleftrightarrow> fls_owned sl c"
    using pb_put_ok [OF al(2) _ b'(1)] al(4) by blast
  obtain sl' where sl': "packet_buffer_free (sl\<lparr>fls_heap := h2\<rparr>) a = Some sl'" "pb_avail ?H sl' (a # as')"
      "\<forall>c. fls_owned sl' c \<longleftrightarrow> c \<noteq> a \<and> fls_owned sl c"
    using packet_buffer_free_ok [OF h2(2), of a] h2(3) al(4) by blast
  define st' where "st' = st\<lparr>pk_send_list := sl', pk_ref_send_buf := None\<rparr>"
  have h12: "nh_put h1 a b' = Some h2" using nh_put_put [OF e(2)] h2(1) by simp
  have "tcp_post cls junk send True (uuid, serial, name, body) st c =
      map_option (\<lambda>(sz, c'). (sz, st', c'))
        (send_all send (map page_wire (pages_of True (packet_bytes cls pad (uuid, serial, name, body)))) 0 c)"
    using al(1) e(7) nh_get_put [OF e(2)] b'(2) body h12 sl'(1)
    by (cases "send_all send (map page_wire (pages_of True (packet_bytes cls pad (uuid, serial, name, body)))) 0 c")
      (auto simp: tcp_post_def st'_def simp del: of_nat_add packet_bytes.simps)
  moreover have "tx_ok st'" "same_rx st st'"
    using sl'(2) by (auto simp: tx_ok_def same_rx_def st'_def)
  moreover have "\<forall>c. fls_owned (pk_send_list st') c \<longleftrightarrow> fls_owned (pk_send_list st) c"
    using sl'(3) al(3,4) by (auto simp: st'_def)
  ultimately show ?thesis using e(1) by blast
qed

end
