(* ===== verification/UnitStream.thy ===== *)
theory UnitStream
  imports ByteQueue
begin

text \<open>
  Receiving a stream of self-delimiting units through a bounded queue, whatever the sizes of
  the reads: the contract between the read callbacks of a connection, its receive buffer and
  its decoder, and what follows from it. The decoder is asked after every read and consumes
  the complete units at the front of the buffer.
\<close>

section \<open>Reading\<close>

text \<open>
  One element of \<open>ns\<close> per read: the event loop stores at most \<open>n\<close> bytes, at most what the
  buffer has room for and at most what has arrived; then the decoder runs.
\<close>

fun pump ::
  "('b \<Rightarrow> byte list) \<Rightarrow> ('b \<Rightarrow> nat) \<Rightarrow> ('b \<Rightarrow> byte list \<Rightarrow> 'b option) \<Rightarrow> ('b \<Rightarrow> 's \<Rightarrow> ('b \<times> 's) option) \<Rightarrow>
   nat list \<Rightarrow> byte list \<Rightarrow> 'b \<Rightarrow> 's \<Rightarrow> (byte list \<times> 'b \<times> 's) option" where
  "pump content capacity fill decode [] w b s = Some (w, b, s)"
| "pump content capacity fill decode (n # ns) w b s =
     (let k = min n (min (capacity b - length (content b)) (length w)) in
      if k = 0 then pump content capacity fill decode ns w b s
      else do {
        b1 \<leftarrow> fill b (take k w);
        (b2, s2) \<leftarrow> decode b1 s;
        pump content capacity fill decode ns (drop k w) b2 s2 })"

definition incomplete :: "('u \<Rightarrow> byte list) \<Rightarrow> (nat \<Rightarrow> 'u \<Rightarrow> bool) \<Rightarrow> nat \<Rightarrow> byte list \<Rightarrow> bool" where
  "incomplete uwire valid cap part \<longleftrightarrow>
     part = [] \<or> (\<exists>u rest. valid cap u \<and> rest \<noteq> [] \<and> uwire u = part @ rest)"

text \<open>\<open>part\<close> is a proper part of the first of the units \<open>us\<close>, or nothing is left.\<close>

definition in_front :: "('u \<Rightarrow> byte list) \<Rightarrow> byte list \<Rightarrow> 'u list \<Rightarrow> bool" where
  "in_front uwire part us \<longleftrightarrow>
     (case us of [] \<Rightarrow> part = [] | u # _ \<Rightarrow> \<exists>rest. rest \<noteq> [] \<and> uwire u = part @ rest)"

lemma split_units:
  assumes "xs @ ys = concat (map uwire us)" "\<forall>u \<in> set us. uwire u \<noteq> []"
  shows "\<exists>j part. j \<le> length us \<and> xs = concat (map uwire (take j us)) @ part \<and>
    part @ ys = concat (map uwire (drop j us)) \<and> in_front uwire part (drop j us)"
  using assms
proof (induction us arbitrary: xs)
  case Nil
  then show ?case by (simp add: in_front_def)
next
  case (Cons u us)
  show ?case
  proof (cases "length (uwire u) \<le> length xs")
    case True
    from Cons.prems(1) have eq: "xs @ ys = uwire u @ concat (map uwire us)" by simp
    then obtain xs' where xs: "xs = uwire u @ xs'" "xs' @ ys = concat (map uwire us)"
    proof -
      have "take (length (uwire u)) (xs @ ys) = uwire u" "drop (length (uwire u)) (xs @ ys) = concat (map uwire us)"
        using eq by simp_all
      then have "take (length (uwire u)) xs = uwire u" "drop (length (uwire u)) xs @ ys = concat (map uwire us)"
        using True by simp_all
      then show thesis using that [of "drop (length (uwire u)) xs"] append_take_drop_id by metis
    qed
    from Cons.IH [OF xs(2)] Cons.prems(2) obtain j part where "j \<le> length us"
        "xs' = concat (map uwire (take j us)) @ part" "part @ ys = concat (map uwire (drop j us))"
        "in_front uwire part (drop j us)" by auto
    then show ?thesis using xs by (intro exI [of _ "Suc j"] exI [of _ part]) auto
  next
    case False
    from Cons.prems(1) have eq: "xs @ ys = uwire u @ concat (map uwire us)" by simp
    with False obtain rest where "uwire u = xs @ rest" "rest \<noteq> []"
      by (auto simp: append_eq_append_conv2) (metis append_Nil2 le_refl)
    then show ?thesis using eq by (intro exI [of _ 0] exI [of _ xs]) (auto simp: in_front_def)
  qed
qed

section \<open>The contract\<close>

text \<open>
  \<open>seen a bs s\<close>: the decoder's state \<open>s\<close> has reached the abstract state \<open>a\<close> and may have
  looked at the bytes \<open>bs\<close>, which it has not consumed.
\<close>

locale unit_stream = byte_queue invar content capacity fill discard
  for invar :: "'b \<Rightarrow> bool" and content capacity fill discard +
  fixes decode :: "'b \<Rightarrow> 's \<Rightarrow> ('b \<times> 's) option"
    and seen :: "'a \<Rightarrow> byte list \<Rightarrow> 's \<Rightarrow> bool"
    and uwire :: "'u \<Rightarrow> byte list"
    and valid :: "nat \<Rightarrow> 'u \<Rightarrow> bool"
    and run :: "'u list \<Rightarrow> 'a \<Rightarrow> 'a option"
  assumes decode_units: "invar b \<Longrightarrow> seen a (content b) s \<Longrightarrow>
      content b = concat (map uwire us) @ part \<Longrightarrow> list_all (valid (capacity b)) us \<Longrightarrow>
      incomplete uwire valid (capacity b) part \<Longrightarrow> run us a = Some a' \<Longrightarrow>
      \<exists>b' s'. decode b s = Some (b', s') \<and> invar b' \<and> capacity b' = capacity b \<and>
        content b' = part \<and> seen a' part s'"
    and seen_more: "seen a xs s \<Longrightarrow> seen a (xs @ ys) s"
    and run_nil: "run [] a = Some a"
    and run_append: "run (us @ vs) a = Option.bind (run us a) (run vs)"
    and uwire_size: "valid cap u \<Longrightarrow> uwire u \<noteq> [] \<and> length (uwire u) \<le> cap"
begin

lemma run_prefix: "run us a \<noteq> None \<Longrightarrow> \<exists>a'. run (take j us) a = Some a' \<and> run (drop j us) a' = run us a"
  using run_append [of "take j us" "drop j us" a] by (cases "run (take j us) a") auto

lemma in_front_incomplete:
  "list_all (valid cap) us \<Longrightarrow> in_front uwire part us \<Longrightarrow> incomplete uwire valid cap part"
  by (cases us) (auto simp: in_front_def incomplete_def)

lemma in_front_Nil: "list_all (valid cap) us \<Longrightarrow> in_front uwire [] us"
  using uwire_size by (cases us) (auto simp: in_front_def)

text \<open>In front of an incomplete unit there is room in the buffer.\<close>

lemma in_front_room:
  assumes "list_all (valid cap) us" "in_front uwire part us" "us \<noteq> []"
  shows "length part < cap"
proof -
  obtain u us' rest where u: "us = u # us'" "rest \<noteq> []" "uwire u = part @ rest" "valid cap u"
    using assms by (cases us) (auto simp: in_front_def)
  have "length (part @ rest) \<le> cap" using uwire_size [OF u(4)] u(3) by simp
  with u(2) show ?thesis by (cases rest) auto
qed

text \<open>One read.\<close>

lemma one_read:
  assumes b: "invar b" "seen a (content b) s" "content b @ w = concat (map uwire us)"
    and us: "list_all (valid (capacity b)) us" "run us a \<noteq> None"
    and k: "0 < k" "k \<le> length w" "length (content b) + k \<le> capacity b"
  shows "\<exists>b1 b2 s2 j a'. fill b (take k w) = Some b1 \<and> decode b1 s = Some (b2, s2) \<and> invar b2 \<and>
    capacity b2 = capacity b \<and> j \<le> length us \<and> run (take j us) a = Some a' \<and>
    run (drop j us) a' = run us a \<and> seen a' (content b2) s2 \<and>
    content b2 @ drop k w = concat (map uwire (drop j us)) \<and> in_front uwire (content b2) (drop j us)"
proof -
  have xs: "take k w \<noteq> []" "length (content b) + length (take k w) \<le> capacity b" using k by auto
  obtain b1 where b1: "fill b (take k w) = Some b1" "invar b1" "content b1 = content b @ take k w"
      "capacity b1 = capacity b"
    using fill_ok [OF b(1) xs] by blast
  have whole: "content b1 @ drop k w = concat (map uwire us)" using b(3) b1(3) by simp
  have ne: "\<forall>u \<in> set us. uwire u \<noteq> []" using us(1) uwire_size by (auto simp: list_all_iff)
  obtain j part where j: "j \<le> length us" "content b1 = concat (map uwire (take j us)) @ part"
      "part @ drop k w = concat (map uwire (drop j us))" "in_front uwire part (drop j us)"
    using split_units [OF whole ne] by blast
  obtain a' where a': "run (take j us) a = Some a'" "run (drop j us) a' = run us a"
    using run_prefix [OF us(2)] by blast
  have v: "list_all (valid (capacity b1)) (take j us)" "list_all (valid (capacity b1)) (drop j us)"
    using us(1) b1(4) by (auto simp: list_all_iff dest: in_set_takeD in_set_dropD)
  have "seen a (content b1) s" using seen_more [OF b(2)] b1(3) by simp
  from decode_units [OF b1(2) this j(2) v(1) in_front_incomplete [OF v(2) j(4)] a'(1)]
  show ?thesis using b1 j a' by metis
qed

text \<open>
  Any sequence of reads: exactly the complete units among the bytes received have been run,
  and every read of at least one byte makes progress.
\<close>

lemma pump_ok:
  assumes "invar b" "seen a (content b) s" "content b @ w = concat (map uwire us)"
    and "in_front uwire (content b) us" "list_all (valid (capacity b)) us" "run us a \<noteq> None"
  shows "\<exists>w' b' s' j a'. pump content capacity fill decode ns w b s = Some (w', b', s') \<and>
    invar b' \<and> capacity b' = capacity b \<and> j \<le> length us \<and> run (take j us) a = Some a' \<and>
    seen a' (content b') s' \<and> content b' @ w' = concat (map uwire (drop j us)) \<and>
    in_front uwire (content b') (drop j us) \<and>
    (list_all (\<lambda>n. 0 < n) ns \<longrightarrow> length w' + length ns \<le> length w \<or> w' = [])"
  using assms
proof (induction ns arbitrary: w b s us a)
  case Nil
  then show ?case
    by (intro exI [of _ w] exI [of _ b] exI [of _ s] exI [of _ 0] exI [of _ a]) (auto simp: run_nil)
next
  case (Cons n ns)
  define k where "k = min n (min (capacity b - length (content b)) (length w))"
  show ?case
  proof (cases "k = 0")
    case True
    have same: "pump content capacity fill decode (n # ns) w b s = pump content capacity fill decode ns w b s"
      using True by (simp add: k_def Let_def)
    have w: "w = []" if "0 < n"
    proof -
      have "length (content b) < capacity b" if "us \<noteq> []"
        using in_front_room Cons.prems(4,5) that by blast
      then show ?thesis using True that Cons.prems(3) by (cases "us = []") (auto simp: k_def min_def split: if_splits)
    qed
    from Cons.IH [OF Cons.prems] obtain w' b' s' j a' where
      ih: "pump content capacity fill decode ns w b s = Some (w', b', s')" "invar b'"
        "capacity b' = capacity b" "j \<le> length us" "run (take j us) a = Some a'"
        "seen a' (content b') s'" "content b' @ w' = concat (map uwire (drop j us))"
        "in_front uwire (content b') (drop j us)"
        "list_all (\<lambda>n. 0 < n) ns \<longrightarrow> length w' + length ns \<le> length w \<or> w' = []" by blast
    have "list_all (\<lambda>n. 0 < n) (n # ns) \<longrightarrow> w' = []" using ih(9) w by auto
    then show ?thesis unfolding same using ih by blast
  next
    case False
    have k: "0 < k" "k \<le> length w" "length (content b) + k \<le> capacity b"
      using False content_bound [OF Cons.prems(1)] by (auto simp: k_def)
    obtain b1 b2 s2 i a1 where r: "fill b (take k w) = Some b1" "decode b1 s = Some (b2, s2)" "invar b2"
        "capacity b2 = capacity b" "i \<le> length us" "run (take i us) a = Some a1"
        "run (drop i us) a1 = run us a" "seen a1 (content b2) s2"
        "content b2 @ drop k w = concat (map uwire (drop i us))" "in_front uwire (content b2) (drop i us)"
      using one_read [OF Cons.prems(1,2,3,5,6) k] by blast
    have v: "list_all (valid (capacity b2)) (drop i us)"
      using Cons.prems(5) r(4) by (auto simp: list_all_iff dest: in_set_dropD)
    have "run (drop i us) a1 \<noteq> None" using r(7) Cons.prems(6) by simp
    from Cons.IH [OF r(3,8,9,10) v this] obtain w' b' s' j a' where
      ih: "pump content capacity fill decode ns (drop k w) b2 s2 = Some (w', b', s')" "invar b'"
        "capacity b' = capacity b2" "j \<le> length (drop i us)" "run (take j (drop i us)) a1 = Some a'"
        "seen a' (content b') s'" "content b' @ w' = concat (map uwire (drop j (drop i us)))"
        "in_front uwire (content b') (drop j (drop i us))"
        "list_all (\<lambda>n. 0 < n) ns \<longrightarrow> length w' + length ns \<le> length (drop k w) \<or> w' = []" by blast
    have step: "pump content capacity fill decode (n # ns) w b s = Some (w', b', s')"
      using False r(1,2) ih(1) by (simp only: pump.simps Let_def k_def [symmetric]) simp
    have run: "run (take (i + j) us) a = Some a'"
      using run_append [of "take i us" "take j (drop i us)" a] r(6) ih(5) by (simp add: take_add)
    have dr: "drop j (drop i us) = drop (i + j) us" by (simp add: add.commute)
    have prog: "list_all (\<lambda>n. 0 < n) (n # ns) \<longrightarrow> length w' + length (n # ns) \<le> length w \<or> w' = []"
      using ih(9) k by auto
    show ?thesis
      using step ih(2,3,6,7,8) run r(4,5) ih(4) prog unfolding dr
      by (intro exI [of _ w'] exI [of _ b'] exI [of _ s'] exI [of _ "i + j"] exI [of _ a']) auto
  qed
qed

end

end
