(* ===== verification/TcpStream.thy ===== *)
theory TcpStream
  imports TcpSend UnitStream
begin

text \<open>
  Packets over a TCP stream: the receive buffer of a connection (\<open>BipBuf\<close>) and the decoders
  of the packet classes meet the contract of \<open>UnitStream\<close>, with frame pages as the units.
  Hence every packet that was posted is delivered, once and in order, however the stream is
  cut into reads.
\<close>

section \<open>The decoder on the receive buffer\<close>

definition tcp_decode ::
  "pkt_class \<Rightarrow> (addr \<Rightarrow> nat \<Rightarrow> byte) \<Rightarrow> bip_buf \<Rightarrow> pkt_state \<Rightarrow> (bip_buf \<times> pkt_state) option" where
  "tcp_decode cls junk bb st =
     (case decode_stream cls junk bb st of
        Some (Inr n, bb', st') \<Rightarrow> Some (bb', st')
      | _ \<Rightarrow> None)"

definition tcp_buf_ok :: "bip_buf \<Rightarrow> bool" where
  "tcp_buf_ok bb \<longleftrightarrow> bb_idle bb \<and> bb_cap bb < 2 ^ 31"

definition tcp_seen :: "rx \<Rightarrow> byte list \<Rightarrow> pkt_state \<Rightarrow> bool" where
  "tcp_seen r bs st \<longleftrightarrow> rx_rel st r \<and> halted_at bs st"

lemma contiguous_block:
  assumes "bb_ok bb"
  obtains rest where "drop (unat (bip_buf_get_contiguous_block bb)) (bb_buffer bb) = bb_content bb @ rest"
  unfolding bb_content_def using append_take_drop_id by metis

lemma decode_stream_args:
  assumes "tcp_buf_ok bb"
  shows "int_of_size (unat (bip_buf_get_committed_size bb)) = int (length (bb_content bb))"
    "int_of_size (unat (bip_buf_get_capacity bb)) = int (bb_cap bb)"
proof -
  have ok: "bb_ok bb" "bb_cap bb < 2 ^ 31" using assms by (auto simp: tcp_buf_ok_def bb_idle_def)
  have "unat (bip_buf_get_committed_size bb) = length (bb_content bb)"
    using ok(1) by (simp add: committed_unat length_bb_content)
  then show "int_of_size (unat (bip_buf_get_committed_size bb)) = int (length (bb_content bb))"
    using ok(2) bb_content_le_cap [OF ok(1)] by (simp add: int_of_size_small)
  show "int_of_size (unat (bip_buf_get_capacity bb)) = int (bb_cap bb)"
    using ok(2) by (simp add: bip_buf_get_capacity_def int_of_size_small)
qed

lemma decode_stream_consumed:
  assumes "tcp_buf_ok bb" "n \<le> length (bb_content bb)"
    and "consume_loop cls junk (int (bb_cap bb)) (drop (unat (bip_buf_get_contiguous_block bb)) (bb_buffer bb))
      (int (length (bb_content bb))) 0 st = Some (int n, st')"
  shows "\<exists>bb'. decode_stream cls junk bb st = Some (Inr (int n), bb', st') \<and> tcp_buf_ok bb' \<and>
    bb_content bb' = drop n (bb_content bb) \<and> bb_cap bb' = bb_cap bb"
proof -
  have idle: "bb_idle bb" and ok: "bb_ok bb" using assms(1) by (auto simp: tcp_buf_ok_def bb_idle_def)
  have loop: "consume_frame_page cls junk (drop (unat (bip_buf_get_contiguous_block bb)) (bb_buffer bb))
      (int_of_size (unat (bip_buf_get_committed_size bb))) (int_of_size (unat (bip_buf_get_capacity bb))) st =
      Some (int n, st')"
    unfolding consume_frame_page_def decode_stream_args [OF assms(1)] by (rule assms(3))
  show ?thesis
  proof (cases "n = 0")
    case True
    with loop assms(1) show ?thesis by (simp add: decode_stream_def)
  next
    case False
    have w: "(word_of_int (int n) :: size_t) = word_of_nat n" by simp
    have "decode_stream cls junk bb st = Some (Inr (int n), bb_discard bb n, st')"
      using loop False by (simp add: decode_stream_def bb_discard_def)
    with bb_discard_ok [OF idle assms(2)] assms(1) show ?thesis by (auto simp: tcp_buf_ok_def)
  qed
qed

lemma tcp_decode_pages:
  assumes "tcp_buf_ok bb" "tcp_seen r (bb_content bb) st" "bb_content bb = wire pgs @ part"
    and "list_all (valid_page (bb_cap bb)) pgs" "incomplete page_wire valid_page (bb_cap bb) part"
    and "pages_run cls pgs r = Some r'"
  shows "\<exists>bb' st'. tcp_decode cls junk bb st = Some (bb', st') \<and> tcp_buf_ok bb' \<and>
    bb_cap bb' = bb_cap bb \<and> bb_content bb' = part \<and> tcp_seen r' part st'"
proof -
  have part: "partial_page (bb_cap bb) part" using assms(5) by (simp add: partial_page_def incomplete_def)
  have seen: "rx_rel st r" "halted_at (wire pgs @ part) st" using assms(2,3) by (simp_all add: tcp_seen_def)
  let ?n = "length (wire pgs)"
  have "bb_ok bb" using assms(1) by (simp add: tcp_buf_ok_def bb_idle_def)
  then obtain rest where block: "drop (unat (bip_buf_get_contiguous_block bb)) (bb_buffer bb) = bb_content bb @ rest"
    by (rule contiguous_block)
  obtain st' where st': "consume_loop cls junk (int (bb_cap bb)) (bb_content bb @ rest)
      (int (length (bb_content bb))) 0 st = Some (int ?n, st')" "rx_rel st' r'" "halted_at part st'"
    using consume_pages [OF seen(1) assms(4,6) part seen(2), of junk rest 0] assms(3) by auto
  obtain bb' where "decode_stream cls junk bb st = Some (Inr (int ?n), bb', st')" "tcp_buf_ok bb'"
      "bb_content bb' = drop ?n (bb_content bb)" "bb_cap bb' = bb_cap bb"
    using decode_stream_consumed [OF assms(1) _ st'(1) [folded block]] assms(3) by auto
  with st' assms(3) show ?thesis by (auto simp: tcp_decode_def tcp_seen_def)
qed

lemma pages_run_append:
  "pages_run cls (us @ vs) r = Option.bind (pages_run cls us r) (pages_run cls vs)"
  by (induction us r rule: pages_run.induct) (auto split: prod.splits)

interpretation tcps: unit_stream tcp_buf_ok bb_content bb_cap bip_buf_fill bb_discard
  "tcp_decode cls junk" tcp_seen page_wire valid_page "pages_run cls" for cls junk
proof unfold_locales
  show "length (bb_content b) \<le> bb_cap b" if "tcp_buf_ok b" for b
    using that bq.content_bound by (simp add: tcp_buf_ok_def)
next
  fix b :: bip_buf and xs :: "byte list"
  assume "tcp_buf_ok b" "xs \<noteq> []" "length (bb_content b) + length xs \<le> bb_cap b"
  with bq.fill_ok [of b xs] show "\<exists>b'. bip_buf_fill b xs = Some b' \<and> tcp_buf_ok b' \<and>
      bb_content b' = bb_content b @ xs \<and> bb_cap b' = bb_cap b"
    by (auto simp: tcp_buf_ok_def)
next
  fix b :: bip_buf and n
  assume "tcp_buf_ok b" "n \<le> length (bb_content b)"
  with bq.discard_ok [of b n] show "tcp_buf_ok (bb_discard b n) \<and>
      bb_content (bb_discard b n) = drop n (bb_content b) \<and> bb_cap (bb_discard b n) = bb_cap b"
    by (auto simp: tcp_buf_ok_def)
next
  fix b a s us part a'
  assume "tcp_buf_ok b" "tcp_seen a (bb_content b) s" "bb_content b = concat (map page_wire us) @ part"
    "list_all (valid_page (bb_cap b)) us" "incomplete page_wire valid_page (bb_cap b) part"
    "pages_run cls us a = Some a'"
  then show "\<exists>b' s'. tcp_decode cls junk b s = Some (b', s') \<and> tcp_buf_ok b' \<and> bb_cap b' = bb_cap b \<and>
      bb_content b' = part \<and> tcp_seen a' part s'"
    using tcp_decode_pages by blast
next
  show "tcp_seen a (xs @ ys) s" if "tcp_seen a xs s" for a xs ys s
    using that halted_at_append by (auto simp: tcp_seen_def)
next
  show "page_wire u \<noteq> [] \<and> length (page_wire u) \<le> cap" if "valid_page cap u" for cap u
    using that by (auto simp: valid_page_def page_wire_def page_leading_bytes_def Let_def)
qed (simp_all add: pages_run_append)

section \<open>The pages of a packet\<close>

definition sendable :: "pkt_class \<Rightarrow> packet_content \<Rightarrow> bool" where
  "sendable cls p \<longleftrightarrow> (case p of (uuid, serial, name, body) \<Rightarrow>
     name \<noteq> [] \<and> length name \<le> 255 \<and>
     SIZE_OF_PACKET_LEADING cls + length name + length body \<le> recv_cap)"

definition packet_pages :: "pkt_class \<Rightarrow> byte list \<times> packet_content \<Rightarrow> page list" where
  "packet_pages cls pp = pages_of True (packet_bytes cls (fst pp) (snd pp))"

abbreviation packet_wire :: "pkt_class \<Rightarrow> byte list \<times> packet_content \<Rightarrow> byte list" where
  "packet_wire cls pp \<equiv> wire (packet_pages cls pp)"

abbreviation packet_data :: "pkt_class \<Rightarrow> byte list \<times> packet_content \<Rightarrow> byte list" where
  "packet_data cls pp \<equiv> packet_bytes cls (fst pp) (snd pp)"

definition good_packet :: "pkt_class \<Rightarrow> byte list \<times> packet_content \<Rightarrow> bool" where
  "good_packet cls pp \<longleftrightarrow> length (fst pp) = 6 \<and> sendable cls (snd pp)"

lemma unat_byte_length: "n \<le> 255 \<Longrightarrow> unat (word_of_nat n :: byte) = n"
  by (simp add: unsigned_of_nat take_bit_nat_eq_self)

lemma packet_bytes_leading:
  assumes "good_packet cls pp"
  shows "leading_ok cls (packet_data cls pp)" "length (packet_data cls pp) \<le> recv_cap"
proof -
  obtain pad uuid serial name body where pp: "pp = (pad, uuid, serial, name, body)" by (cases pp) auto
  have n: "name \<noteq> []" "length name \<le> 255" "length pad = 6"
    "SIZE_OF_PACKET_LEADING cls + length name + length body \<le> recv_cap"
    using assms by (auto simp: pp good_packet_def sendable_def)
  have hd: "hd (packet_data cls pp) = word_of_nat (length name)" "packet_data cls pp \<noteq> []"
    by (cases cls; simp add: pp packet_leading_bytes_def)+
  have len: "length (packet_data cls pp) = SIZE_OF_PACKET_LEADING cls + length name + length body"
    using length_packet_leading_bytes [OF n(3)] by (simp add: pp)
  with n show "length (packet_data cls pp) \<le> recv_cap" by simp
  have "hd (packet_data cls pp) \<noteq> 0"
    using n(1) unat_byte_length [OF n(2)] hd(1) by auto
  then show "leading_ok cls (packet_data cls pp)"
    using hd len unat_byte_length [OF n(2)] by (simp add: leading_ok_def del: packet_bytes.simps)
qed

lemma pages_of_valid: "bs \<noteq> [] \<Longrightarrow> list_all (valid_page 8192) (pages_of s bs)"
proof (induction s bs rule: pages_of.induct)
  case (1 s bs)
  then show ?case
    by (subst pages_of.simps) (auto simp: valid_page_def [of _ "(_, _)"])
qed

lemma valid_page_mono: "valid_page cap pg \<Longrightarrow> cap \<le> cap' \<Longrightarrow> valid_page cap' pg"
  by (auto simp: valid_page_def)

text \<open>Running the pages of the rest of a packet, and a proper part of them.\<close>

lemma pages_run_rest:
  assumes "bs \<noteq> []" "length (xs @ bs) \<le> recv_cap" "leading_ok cls (xs @ bs)"
  shows "pages_run cls (pages_of False bs) (Some xs, out) = Some (None, out @ [xs @ bs])"
  using assms
proof (induction False bs arbitrary: xs rule: pages_of.induct)
  case (1 bs)
  show ?case
  proof (cases "length bs \<le> page_data_max")
    case True
    with 1(2-) show ?thesis by (subst pages_of.simps) simp
  next
    case False
    have "pages_run cls (pages_of False (drop page_data_max bs)) (Some (xs @ take page_data_max bs), out) =
        Some (None, out @ [(xs @ take page_data_max bs) @ drop page_data_max bs])"
      by (rule 1(1)) (use 1(2-) False in simp_all)
    with 1(2-) False show ?thesis by (subst pages_of.simps) simp
  qed
qed

lemma pages_run_packet:
  assumes "bs \<noteq> []" "length bs \<le> recv_cap" "leading_ok cls bs"
  shows "pages_run cls (pages_of True bs) (None, out) = Some (None, out @ [bs])"
proof (cases "length bs \<le> page_data_max")
  case True
  with assms show ?thesis by (subst pages_of.simps) simp
next
  case False
  have "pages_run cls (pages_of False (drop page_data_max bs)) (Some (take page_data_max bs), out) =
      Some (None, out @ [take page_data_max bs @ drop page_data_max bs])"
    by (rule pages_run_rest) (use False assms in simp_all)
  with assms False show ?thesis by (subst pages_of.simps) simp
qed

lemma pages_run_proper:
  assumes "j < length (pages_of s bs)" "pages_run cls (take j (pages_of s bs)) (acc, out) = Some (acc', out')"
  shows "out' = out"
  using assms
proof (induction s bs arbitrary: j acc rule: pages_of.induct)
  case (1 s bs)
  show ?case
  proof (cases "length bs \<le> page_data_max")
    case True
    then have "pages_of s bs = [(s, True, bs)]" by (simp add: pages_of.simps)
    with 1(2,3) show ?thesis by simp
  next
    case False
    let ?rest = "pages_of False (drop page_data_max bs)"
    have pages: "pages_of s bs = (s, False, take page_data_max bs) # ?rest"
      using False by (simp add: pages_of.simps)
    show ?thesis
    proof (cases j)
      case 0
      with 1(3) show ?thesis by simp
    next
      case (Suc i)
      obtain rc acc1 out1 where spec: "page_spec cls s False (take page_data_max bs) (acc, out) = (rc, acc1, out1)"
        by (cases "page_spec cls s False (take page_data_max bs) (acc, out)") auto
      have run: "rc = 0" "pages_run cls (take i ?rest) (acc1, out1) = Some (acc', out')"
        using 1(3) pages Suc spec by (auto split: if_splits)
      have "out1 = out" using spec run(1) by (cases s; cases acc) (auto split: if_splits)
      moreover have "i < length ?rest" using 1(2) pages Suc by simp
      ultimately show ?thesis using 1(1) [OF False] run(2) by blast
    qed
  qed
qed

section \<open>Packets\<close>

text \<open>The packets that lie completely in the first \<open>m\<close> bytes of the stream.\<close>

fun completed :: "pkt_class \<Rightarrow> (byte list \<times> packet_content) list \<Rightarrow> nat \<Rightarrow> (byte list \<times> packet_content) list" where
  "completed cls [] m = []"
| "completed cls (p # ps) m =
     (if length (packet_wire cls p) \<le> m then p # completed cls ps (m - length (packet_wire cls p)) else [])"

lemma completed_all:
  "m = length (concat (map (packet_wire cls) ps)) \<Longrightarrow> completed cls ps m = ps"
  by (induction ps arbitrary: m) auto

abbreviation all_pages :: "pkt_class \<Rightarrow> (byte list \<times> packet_content) list \<Rightarrow> page list" where
  "all_pages cls ps \<equiv> concat (map (packet_pages cls) ps)"

lemma wire_all_pages: "wire (all_pages cls ps) = concat (map (packet_wire cls) ps)"
  by (induction ps) auto

lemma packet_pages_run:
  "good_packet cls p \<Longrightarrow> pages_run cls (packet_pages cls p) (None, out) = Some (None, out @ [packet_data cls p])"
  unfolding packet_pages_def
  by (rule pages_run_packet) (use packet_bytes_leading in \<open>auto simp: leading_ok_def\<close>)

lemma all_pages_run:
  "list_all (good_packet cls) ps \<Longrightarrow>
   pages_run cls (all_pages cls ps) (None, out) = Some (None, out @ map (packet_data cls) ps)"
  by (induction ps arbitrary: out) (auto simp: pages_run_append packet_pages_run)

lemma all_pages_valid:
  assumes "list_all (good_packet cls) ps" "8192 \<le> cap"
  shows "list_all (valid_page cap) (all_pages cls ps)"
proof -
  have "list_all (valid_page cap) (packet_pages cls p)" if "p \<in> set ps" for p
  proof -
    have "packet_data cls p \<noteq> []" using assms(1) that packet_bytes_leading(1) by (auto simp: list_all_iff leading_ok_def)
    then show ?thesis
      using pages_of_valid valid_page_mono [OF _ assms(2)] unfolding packet_pages_def by (auto simp: list_all_iff)
  qed
  then show ?thesis by (auto simp: list_all_iff)
qed

text \<open>
  After \<open>j\<close> pages and a proper part of the next one, the completed packets have been
  delivered.
\<close>

lemma completed_run:
  assumes "list_all (good_packet cls) ps" "j \<le> length (all_pages cls ps)"
    and "pages_run cls (take j (all_pages cls ps)) (None, out) = Some (acc, out')"
    and "in_front page_wire part (drop j (all_pages cls ps))"
    and "m = length (wire (take j (all_pages cls ps))) + length part"
  shows "out' = out @ map (packet_data cls) (completed cls ps m)"
  using assms
proof (induction ps arbitrary: j out m)
  case Nil
  then show ?case by simp
next
  case (Cons p ps)
  let ?n = "length (packet_pages cls p)"
  have good: "good_packet cls p" "list_all (good_packet cls) ps" using Cons.prems(1) by simp_all
  show ?case
  proof (cases "?n \<le> j")
    case True
    have tk: "take j (all_pages cls (p # ps)) = packet_pages cls p @ take (j - ?n) (all_pages cls ps)"
      using True by simp
    have run: "pages_run cls (take (j - ?n) (all_pages cls ps)) (None, out @ [packet_data cls p]) = Some (acc, out')"
      using Cons.prems(3) packet_pages_run [OF good(1)] unfolding tk by (simp add: pages_run_append)
    have "out' = (out @ [packet_data cls p]) @ map (packet_data cls) (completed cls ps (m - length (packet_wire cls p)))"
      by (rule Cons.IH [OF good(2) _ run]) (use Cons.prems(2,4,5) True tk in auto)
    then show ?thesis using Cons.prems(5) tk by simp
  next
    case False
    have tk: "take j (all_pages cls (p # ps)) = take j (packet_pages cls p)"
      "drop j (all_pages cls (p # ps)) = drop j (packet_pages cls p) @ all_pages cls ps"
      using False by simp_all
    have "out' = out"
      by (rule pages_run_proper [of j True "packet_data cls p" cls None out acc])
        (use False Cons.prems(3) tk in \<open>simp_all add: packet_pages_def\<close>)
    moreover have "m < length (packet_wire cls p)"
    proof -
      obtain u us where u: "drop j (packet_pages cls p) = u # us"
        using False by (cases "drop j (packet_pages cls p)") auto
      have "length part < length (page_wire u)"
        using Cons.prems(4) tk(2) u by (auto simp: in_front_def simp del: length_page_wire)
      moreover have "wire (packet_pages cls p) = wire (take j (packet_pages cls p)) @ page_wire u @ wire us"
        using u by (metis append_take_drop_id concat.simps(2) concat_append list.simps(9) map_append)
      ultimately show ?thesis using Cons.prems(5) unfolding tk(1) by (simp del: length_page_wire)
    qed
    ultimately show ?thesis by simp
  qed
qed

section \<open>What the connection does with a packet\<close>

text \<open>
  \<open>OnGotPacket\<close> of the connections: the identifier, the serial number, the type name and the
  body of an inner packet. A read outside the packet is \<open>None\<close>.
\<close>

definition on_got_packet :: "byte list \<Rightarrow> packet_content option" where
  "on_got_packet buf =
     do { name_len \<leftarrow> pl_name_len buf;
          serial_no \<leftarrow> pl_serial_no buf;
          uuid \<leftarrow> pl_inner_uuid buf;
          let szHeaderLen = SIZE_OF_PACKET_LEADING Inner;
          sTypeName \<leftarrow> read_at buf szHeaderLen (unat name_len);
          let szBodyLen = (word_of_nat (length buf) - ucast name_len - word_of_nat szHeaderLen :: size_t);
          sBody \<leftarrow> read_at buf (szHeaderLen + unat name_len) (unat szBodyLen);
          Some (uuid, serial_no, sTypeName, sBody) }"

lemma body_length_word:
  assumes "a + b \<le> n" "n < 2 ^ 64"
  shows "unat (word_of_nat n - word_of_nat a - word_of_nat b :: size_t) = n - a - b"
proof -
  have "(word_of_nat n - word_of_nat a - word_of_nat b :: size_t) = word_of_nat (n - a - b)"
    using assms(1) by (simp add: of_nat_diff)
  then show ?thesis using assms(2) by (simp add: unsigned_of_nat take_bit_nat_eq_self)
qed

lemma leading_ok_parses:
  assumes "leading_ok Inner buf" "length buf < 2 ^ 64"
  shows "\<exists>uuid serial. on_got_packet buf =
    Some (uuid, serial, take (unat (hd buf)) (drop 16 buf), drop (16 + unat (hd buf)) buf)"
proof -
  have len: "16 + unat (hd buf) \<le> length buf" "buf \<noteq> []" using assms(1) by (auto simp: leading_ok_def)
  obtain b0 b1 rest where buf: "buf = b0 # b1 # rest"
    using len by (cases buf; cases "tl buf") auto
  have "unat (word_of_nat (length buf) - word_of_nat (unat (hd buf)) - word_of_nat 16 :: size_t) =
      length buf - unat (hd buf) - 16"
    by (rule body_length_word) (use len assms(2) in auto)
  then show ?thesis
    using len buf
    by (simp add: on_got_packet_def pl_name_len_def pl_serial_no_def pl_inner_uuid_def read_at_def)
qed

lemma on_got_packet_bytes:
  assumes "length pad = 6" "length name \<le> 255" "length name + length body + 16 < 2 ^ 64"
  shows "on_got_packet (packet_bytes Inner pad (uuid, serial, name, body)) = Some (uuid, serial, name, body)"
proof -
  let ?buf = "packet_bytes Inner pad (uuid, serial, name, body)"
  have buf: "?buf = [word_of_nat (length name), serial] @ pad @ le_bytes uuid @ name @ body"
    by (simp add: packet_leading_bytes_def)
  have n: "unat (word_of_nat (length name) :: byte) = length name" by (rule unat_byte_length [OF assms(2)])
  have len: "length ?buf = 16 + length name + length body" unfolding buf using assms(1) by simp
  have body: "unat (word_of_nat (length ?buf) - word_of_nat (length name) - word_of_nat 16 :: size_t) = length body"
    by (subst body_length_word) (use len assms(3) in auto)
  have reads: "read_at ?buf 8 8 = Some (le_bytes uuid)" "read_at ?buf 16 (length name) = Some name"
    "read_at ?buf (16 + length name) (length body) = Some body"
    unfolding buf using assms(1) by (simp_all add: read_at_def drop_Cons')
  have "pl_name_len ?buf = Some (word_of_nat (length name))" "pl_serial_no ?buf = Some serial"
    "pl_inner_uuid ?buf = Some uuid"
    using reads(1) by (simp_all add: pl_name_len_def pl_serial_no_def pl_inner_uuid_def packet_leading_bytes_def)
  moreover have "(ucast (word_of_nat (length name) :: byte) :: size_t) = word_of_nat (length name)"
    using n by (metis of_nat_unat)
  ultimately show ?thesis
    using reads body n by (simp add: on_got_packet_def del: packet_bytes.simps)
qed

end
