(* ===== verification/TcpProps.thy ===== *)
theory TcpProps
  imports TcpStream
begin

text \<open>
  The properties of the packet classes: what \<open>Post\<close> puts on the wire, what the receiver does
  with any bytes, and that together they deliver every packet.
\<close>

section \<open>Fresh objects\<close>

abbreviation fresh_packet :: pkt_state where
  "fresh_packet \<equiv> tcp_packet_new fls_empty fls_empty"

lemma fresh_packet_ok [simp]:
  "rx_rel fresh_packet (None, [])" "tx_ok fresh_packet" "rs_ok cap fresh_packet"
  "pk_recv_state fresh_packet = FRAME_PAGE_STATE_RECEIVE_LEADING" "tcp_seen (None, []) bs fresh_packet"
  by (auto simp: rx_rel_def tx_ok_def rs_ok_def tcp_packet_new_def tcp_seen_def halted_at_def intro: fls_empty_avail)

text \<open>A receive buffer as the connections create it.\<close>

lemma fresh_buffer:
  "\<exists>bb h. bip_buf_create (\<lambda>_. 0) 8192 \<lparr>mh_next = 0, mh_live = []\<rparr> = (bb, h) \<and> tcp_buf_ok bb \<and>
    bb_content bb = [] \<and> bb_cap bb = 8192"
proof -
  obtain bb h where c: "bip_buf_create (\<lambda>_. 0) 8192 \<lparr>mh_next = 0, mh_live = []\<rparr> = (bb, h)"
    by (cases "bip_buf_create (\<lambda>_. 0) 8192 \<lparr>mh_next = 0, mh_live = []\<rparr>")
  from bip_buf_create_ok [OF _ c] have "bb_ok bb" "bb_content bb = []" "bb_reserved bb = 0"
      "bb_available_capacity bb = 8192"
    by simp_all
  then show ?thesis using c by (simp add: tcp_buf_ok_def bb_idle_def)
qed

section \<open>Reassembly\<close>

text \<open>
  C4. One frame page, on any state of the receiver: \<open>ConsumePacket\<close> returns, its return code
  and its effect on the packet being assembled and on the packets delivered are those of the
  page specification (0, or -1 to -6 for a bad leading, a packet too large for the buffer,
  or a page without a first page), and it does not touch the sending side.
\<close>

theorem consume_packet_spec:
  assumes "rx_rel st r" "page \<noteq> []" "length page < 2 ^ 14"
  shows "\<exists>st'. consume_packet cls junk st page =
      Some (fst (page_spec cls (is_start (pk_recv_page_leading st)) (is_end (pk_recv_page_leading st)) page r), st') \<and>
    rx_rel st' (snd (page_spec cls (is_start (pk_recv_page_leading st)) (is_end (pk_recv_page_leading st)) page r)) \<and>
    same_tx st st' \<and> pk_recv_state st' = pk_recv_state st"
  using consume_packet_refines [OF assms] unfolding refines_page_def by blast

lemma consume_packet_spec_witness:
  "\<exists>st'. consume_packet Outer (\<lambda>_ _. 0)
      (fresh_packet\<lparr>pk_recv_page_leading := \<lparr>pg_start = 1, pg_end = 1, pg_data_size = 3\<rparr>\<rparr>) [1, 0, 65] =
      Some (0, st') \<and> rx_rel st' (None, [[1, 0, 65]])"
proof -
  let ?st = "fresh_packet\<lparr>pk_recv_page_leading := \<lparr>pg_start = 1, pg_end = 1, pg_data_size = 3\<rparr>\<rparr>"
  have "rx_rel ?st (None, [])" by simp
  from consume_packet_spec [OF this, of "[1, 0, 65]" Outer "\<lambda>_ _. 0"] show ?thesis
    by (auto simp: is_start_def is_end_def leading_ok_def)
qed

text \<open>
  C3. Whatever bytes a peer has sent, on any buffer of less than \<^verbatim>\<open>2^31\<close> bytes and any state
  the receiver can be in: \<open>DecodeStream\<close> has no undefined behaviour. It either throws one of
  the seven error codes and leaves the buffer, or takes an amount from the front of the
  buffer that leaves room for a further read; the receiver's invariants hold again, and every
  packet it delivered has a non-empty name that lies inside the packet.
\<close>

theorem decode_stream_safe:
  assumes "tcp_buf_ok bb" "2 \<le> bb_cap bb" "rx_rel st r" "rs_ok (int (bb_cap bb)) st"
  shows "\<exists>res bb' st' r'. decode_stream cls junk bb st = Some (res, bb', st') \<and> tcp_buf_ok bb' \<and>
    bb_cap bb' = bb_cap bb \<and> rx_rel st' r' \<and> rs_ok (int (bb_cap bb')) st' \<and>
    delivers cls (snd r) (snd r') \<and>
    (case res of
       Inl e \<Rightarrow> e \<in> {-1, -2, -3, -4, -5, -6, -99} \<and> bb' = bb
     | Inr n \<Rightarrow> 0 \<le> n \<and> bb_content bb' = drop (nat n) (bb_content bb) \<and> length (bb_content bb') < bb_cap bb')"
proof -
  have ok: "bb_ok bb" using assms(1) by (simp add: tcp_buf_ok_def bb_idle_def)
  have le: "length (bb_content bb) \<le> bb_cap bb" by (rule bb_content_le_cap [OF ok])
  let ?ptr = "drop (unat (bip_buf_get_contiguous_block bb)) (bb_buffer bb)" and ?len = "int (length (bb_content bb))"
  have block: "nat ?len \<le> length ?ptr" by (simp add: bb_content_def)
  obtain n st' r' where out: "consume_loop cls junk (int (bb_cap bb)) ?ptr ?len 0 st = Some (n, st')"
      "rx_rel st' r'" "rs_ok (int (bb_cap bb)) st'" "delivers cls (snd r) (snd r')"
      "n \<in> {-1, -2, -3, -4, -5, -6, -99} \<or> 0 \<le> n \<and> n \<le> ?len \<and> ?len - n < int (bb_cap bb)"
  proof -
    have "?len \<le> int (bb_cap bb)" "2 \<le> int (bb_cap bb)" using le assms(2) by linarith+
    from consume_loop_outcome [OF assms(3,4) _ this(1) block this(2), of 0 cls junk] show thesis
      unfolding loop_outcome_def by (auto simp del: of_nat_unat intro: that)
  qed
  from out(5) show ?thesis
  proof
    assume e: "n \<in> {-1, -2, -3, -4, -5, -6, -99}"
    then have "decode_stream cls junk bb st = Some (Inl n, bb, st')"
      using out(1) by (auto simp: decode_stream_def consume_frame_page_def decode_stream_args [OF assms(1)])
    with e out assms(1) show ?thesis
      by (intro exI [of _ "Inl n"] exI [of _ bb] exI [of _ st'] exI [of _ r']) simp
  next
    assume n: "0 \<le> n \<and> n \<le> ?len \<and> ?len - n < int (bb_cap bb)"
    have "nat n \<le> length (bb_content bb)" using n by linarith
    moreover have "consume_loop cls junk (int (bb_cap bb)) ?ptr ?len 0 st = Some (int (nat n), st')"
      using out(1) n by simp
    ultimately obtain bb' where bb': "decode_stream cls junk bb st = Some (Inr (int (nat n)), bb', st')"
        "tcp_buf_ok bb'" "bb_content bb' = drop (nat n) (bb_content bb)" "bb_cap bb' = bb_cap bb"
      using decode_stream_consumed [OF assms(1)] by blast
    have "length (bb_content bb) - nat n < bb_cap bb" using n by linarith
    then have "length (bb_content bb') < bb_cap bb'" using bb'(3,4) by simp
    then show ?thesis
      using bb' out n
      by (intro exI [of _ "Inr (int (nat n))"] exI [of _ bb'] exI [of _ st'] exI [of _ r']) simp
  qed
qed

lemma decode_stream_safe_witness:
  "\<exists>bb res bb' st'. tcp_buf_ok bb \<and> decode_stream Inner (\<lambda>_ _. 0) bb fresh_packet = Some (res, bb', st')"
proof -
  obtain bb where "tcp_buf_ok bb" "bb_cap bb = 8192" using fresh_buffer by blast
  with decode_stream_safe [of bb fresh_packet "(None, [])" Inner "\<lambda>_ _. 0"] show ?thesis by auto
qed

section \<open>Delivery\<close>

lemma stream_delivery:
  assumes bb: "tcp_buf_ok bb" "8192 \<le> bb_cap bb" "bb_content bb = []"
    and st: "rx_rel st (None, [])" "pk_recv_state st = FRAME_PAGE_STATE_RECEIVE_LEADING"
    and ps: "list_all (good_packet cls) ps"
  shows "\<exists>w' bb' st'. pump bb_content bb_cap bip_buf_fill (tcp_decode cls junk) ns
      (concat (map (packet_wire cls) ps)) bb st = Some (w', bb', st') \<and>
    pk_got st' = map (packet_data cls)
      (completed cls ps (length (concat (map (packet_wire cls) ps)) - length w')) \<and>
    (list_all (\<lambda>n. 0 < n) ns \<longrightarrow> length (concat (map (packet_wire cls) ps)) \<le> length ns \<longrightarrow>
       w' = [] \<and> pk_got st' = map (packet_data cls) ps \<and> bb_content bb' = [] \<and> pk_ref_recv_buf st' = None)"
proof -
  let ?us = "all_pages cls ps" and ?w = "concat (map (packet_wire cls) ps)"
  have run: "pages_run cls ?us (None, []) = Some (None, map (packet_data cls) ps)"
    using all_pages_run [OF ps, of "[]"] by simp
  have valid: "list_all (valid_page (bb_cap bb)) ?us" by (rule all_pages_valid [OF ps bb(2)])
  have front: "in_front page_wire (bb_content bb) ?us"
    unfolding bb(3) using valid by (rule tcps.in_front_Nil)
  have seen: "tcp_seen (None, []) (bb_content bb) st" using st by (simp add: tcp_seen_def halted_at_def)
  obtain w' bb' st' j acc out where p: "pump bb_content bb_cap bip_buf_fill (tcp_decode cls junk) ns ?w bb st = Some (w', bb', st')"
      "j \<le> length ?us" "pages_run cls (take j ?us) (None, []) = Some (acc, out)"
      "tcp_seen (acc, out) (bb_content bb') st'" "bb_content bb' @ w' = wire (drop j ?us)"
      "in_front page_wire (bb_content bb') (drop j ?us)"
      "list_all (\<lambda>n. 0 < n) ns \<longrightarrow> length w' + length ns \<le> length ?w \<or> w' = []"
    using tcps.pump_ok [OF bb(1) seen _ front valid, of ?w cls junk ns] run bb(3) by (auto simp: wire_all_pages)
  have got: "pk_got st' = out" using p(4) by (simp add: tcp_seen_def rx_rel_def)
  have whole: "length ?w = length (wire (take j ?us)) + length (bb_content bb') + length w'"
  proof -
    have "wire ?us = wire (take j ?us) @ wire (drop j ?us)"
      by (metis append_take_drop_id concat_append map_append)
    then show ?thesis using p(5) by (simp flip: wire_all_pages) (metis length_append)
  qed
  have "out = [] @ map (packet_data cls) (completed cls ps (length ?w - length w'))"
    by (rule completed_run [OF ps p(2,3,6)]) (use whole in simp)
  moreover have "w' = [] \<and> pk_got st' = map (packet_data cls) ps \<and> bb_content bb' = [] \<and> pk_ref_recv_buf st' = None"
    if "list_all (\<lambda>n. 0 < n) ns" "length ?w \<le> length ns"
  proof -
    have "length w' = 0 \<or> w' = []" using p(7) that by linarith
    then have w': "w' = []" by simp
    have "drop j ?us = []"
    proof (rule ccontr)
      assume "drop j ?us \<noteq> []"
      then obtain u us where "drop j ?us = u # us" by (cases "drop j ?us") auto
      with p(5,6) w' show False by (auto simp: in_front_def)
    qed
    then have "take j ?us = ?us" "bb_content bb' = []" using p(2,5) by simp_all
    then show ?thesis using w' got p(3,4) run by (auto simp: tcp_seen_def rx_rel_def split: option.splits)
  qed
  ultimately show ?thesis using p(1) got by auto
qed

text \<open>
  C2. Let good packets (a name of 1 to 255 bytes, at most 983008 bytes in all) be on the wire,
  one after the other. However the stream is cut into reads, decoding never fails, and at
  every moment the packets delivered are exactly those whose last byte has been received,
  in order. If every read makes progress and there are enough of them, all packets are
  delivered, nothing is left in the receive buffer and no packet buffer is held.
\<close>

theorem tcp_stream_delivery:
  assumes bb: "tcp_buf_ok bb" "8192 \<le> bb_cap bb" "bb_content bb = []"
    and st: "rx_rel st (None, [])" "pk_recv_state st = FRAME_PAGE_STATE_RECEIVE_LEADING"
    and ps: "list_all (good_packet cls) ps"
  shows "\<exists>w' bb' st'. pump bb_content bb_cap bip_buf_fill (tcp_decode cls junk) ns
      (concat (map (packet_wire cls) ps)) bb st = Some (w', bb', st') \<and>
    pk_got st' = map (packet_data cls)
      (completed cls ps (length (concat (map (packet_wire cls) ps)) - length w')) \<and>
    (list_all (\<lambda>n. 0 < n) ns \<longrightarrow> length (concat (map (packet_wire cls) ps)) \<le> length ns \<longrightarrow>
       w' = [] \<and> pk_got st' = map (packet_data cls) ps \<and> bb_content bb' = [] \<and> pk_ref_recv_buf st' = None)"
  using assms by (rule stream_delivery)

lemma tcp_stream_delivery_witness:
  "\<exists>bb w' bb' st'. tcp_buf_ok bb \<and> pump bb_content bb_cap bip_buf_fill (tcp_decode Outer (\<lambda>_ _. 0)) [3, 1]
    (concat (map (packet_wire Outer) [(replicate 6 0, 7, 1, [65], [66, 67])])) bb fresh_packet = Some (w', bb', st')"
proof -
  obtain bb where "tcp_buf_ok bb" "bb_content bb = []" "bb_cap bb = 8192" using fresh_buffer by blast
  with tcp_stream_delivery [of bb fresh_packet Outer "[(replicate 6 0, 7, 1, [65], [66, 67])]" "\<lambda>_ _. 0" "[3, 1]"]
  show ?thesis by (auto simp: good_packet_def sendable_def recv_cap_value)
qed

section \<open>Posting\<close>

lemma pages_of_bound: "(s', e, pay) \<in> set (pages_of s bs) \<Longrightarrow> length pay \<le> 8190"
proof (induction s bs rule: pages_of.induct)
  case (1 s bs)
  then show ?case by (subst (asm) pages_of.simps) (auto split: if_splits)
qed

lemma pages_of_concat: "concat (map (\<lambda>(s, e, pay). pay) (pages_of s bs)) = bs"
proof (induction s bs rule: pages_of.induct)
  case (1 s bs)
  then show ?case by (subst pages_of.simps) simp
qed

text \<open>
  C24. \<open>Post\<close> on a ready connection, for a name of at most 8174 bytes and a body below
  \<^verbatim>\<open>2^31\<close> bytes, and any behaviour of \<open>SendRaw\<close>: it hands to \<open>SendRaw\<close>, in order, pages of at
  most 8192 bytes that together carry the leading, the name and the body; it returns the sum
  of what \<open>SendRaw\<close> reports; it has no undefined behaviour unless \<open>SendRaw\<close> disposes of the
  connection; and the send buffer is back on its list with nothing else changed.
\<close>

theorem tcp_post_frames:
  assumes "tx_ok st" "length name \<le> 8174" "length body < 2 ^ 31"
  shows "\<exists>pad pages st'. length pad = 6 \<and>
    concat (map (\<lambda>(s, e, pay). pay) pages) = packet_bytes cls pad (uuid, serial, name, body) \<and>
    (\<forall>pg \<in> set pages. length (page_wire pg) \<le> PER_FRAME_PAGE_SIZE_MAX) \<and>
    tx_ok st' \<and> same_rx st st' \<and>
    (\<forall>a. fls_owned (pk_send_list st') a \<longleftrightarrow> fls_owned (pk_send_list st) a) \<and>
    tcp_post cls junk send True (uuid, serial, name, body) st c =
      map_option (\<lambda>(sz, c'). (sz, st', c')) (send_all send (map page_wire pages) 0 c)"
proof -
  have n: "SIZE_OF_PACKET_LEADING cls + length name \<le> 8190"
    using assms(2) packet_leading_bounds(2) [of cls] by linarith
  from tcp_post_pages [OF assms(1) n assms(3), of junk send uuid serial c] obtain pad st' where
    p: "length pad = 6" "tx_ok st'" "same_rx st st'"
      "\<forall>a. fls_owned (pk_send_list st') a \<longleftrightarrow> fls_owned (pk_send_list st) a"
      "tcp_post cls junk send True (uuid, serial, name, body) st c =
        map_option (\<lambda>(sz, c'). (sz, st', c'))
          (send_all send (map page_wire (pages_of True (packet_bytes cls pad (uuid, serial, name, body)))) 0 c)"
    by blast
  show ?thesis
    by (rule exI [of _ pad], rule exI [of _ "pages_of True (packet_bytes cls pad (uuid, serial, name, body))"],
        rule exI [of _ st'])
      (use p pages_of_bound in \<open>auto simp: pages_of_concat simp del: packet_bytes.simps\<close>)
qed

definition send_log :: "byte list send_raw" where
  "send_log log page = Some (word_of_nat (length page), log @ page)"

lemma send_all_log:
  "send_all send_log ps sz log = Some (sz + word_of_nat (length (concat ps)), log @ concat ps)"
  by (induction ps arbitrary: sz log) (auto simp: send_log_def add.assoc)

lemma tcp_post_frames_witness:
  "\<exists>sz st' log. tcp_post Inner (\<lambda>_ _. 0) send_log True (7, 1, [65], [66, 67]) fresh_packet [] = Some (sz, st', log)"
  using tcp_post_frames [of fresh_packet "[65]" "[66, 67]" Inner 7 1 "\<lambda>_ _. 0" send_log "[]"]
  by (auto simp: send_all_log)

section \<open>From one end to the other\<close>

text \<open>A sender that posts packets one after the other; the connection keeps what it is sent.\<close>

fun post_all ::
  "pkt_class \<Rightarrow> (addr \<Rightarrow> nat \<Rightarrow> byte) \<Rightarrow> packet_content list \<Rightarrow> pkt_state \<Rightarrow> byte list \<Rightarrow> (byte list \<times> pkt_state) option" where
  "post_all cls junk [] st log = Some (log, st)"
| "post_all cls junk (p # ps) st log =
     (case tcp_post cls junk send_log True p st log of
        None \<Rightarrow> None
      | Some (sz, st', log') \<Rightarrow> post_all cls junk ps st' log')"

lemma sendable_bounds:
  assumes "sendable cls (uuid, serial, name, body)"
  shows "SIZE_OF_PACKET_LEADING cls + length name \<le> 8190" "length body < 2 ^ 31" "length name \<le> 255"
    "length name + length body + 16 < 2 ^ 64"
  using assms packet_leading_bounds [of cls] by (auto simp: sendable_def recv_cap_value)

lemma post_all_ok:
  assumes "tx_ok st" "list_all (sendable cls) ps"
  shows "\<exists>st' pads. length pads = length ps \<and> list_all (good_packet cls) (zip pads ps) \<and> tx_ok st' \<and>
    post_all cls junk ps st log = Some (log @ concat (map (packet_wire cls) (zip pads ps)), st')"
  using assms
proof (induction ps arbitrary: st log)
  case Nil
  then show ?case by auto
next
  case (Cons p ps)
  obtain uuid serial name body where p: "p = (uuid, serial, name, body)" by (cases p) auto
  have s: "sendable cls p" "list_all (sendable cls) ps" using Cons.prems(2) by simp_all
  note b = sendable_bounds [OF s(1) [unfolded p]]
  from tcp_post_pages [OF Cons.prems(1) b(1,2), of junk send_log uuid serial log] obtain pad st1 where
    st1: "length pad = 6" "tx_ok st1" "tcp_post cls junk send_log True p st log =
      Some (0 + word_of_nat (length (packet_wire cls (pad, p))), st1, log @ packet_wire cls (pad, p))"
    unfolding send_all_log packet_pages_def p by (auto simp del: packet_bytes.simps)
  from Cons.IH [OF st1(2) s(2), of "log @ packet_wire cls (pad, p)"] obtain st' pads where
    ih: "length pads = length ps" "list_all (good_packet cls) (zip pads ps)" "tx_ok st'"
      "post_all cls junk ps st1 (log @ packet_wire cls (pad, p)) =
       Some ((log @ packet_wire cls (pad, p)) @ concat (map (packet_wire cls) (zip pads ps)), st')"
    by blast
  show ?case
    by (rule exI [of _ st'], rule exI [of _ "pad # pads"])
      (use st1 ih s(1) in \<open>simp add: good_packet_def [of cls "(pad, p)"]\<close>)
qed

text \<open>
  C1. End to end: inner packets with a name of 1 to 255 bytes and at most 983008 bytes in all
  are posted on one side; whatever the padding and however the stream is cut into reads, once
  enough reads have been made the other side's \<open>OnGotPacket\<close> has been called with exactly the
  identifiers, serial numbers, names and bodies that were posted, in that order.
\<close>

theorem tcp_end_to_end:
  assumes "tx_ok snd_st" "list_all (sendable Inner) ps"
    and "tcp_buf_ok bb" "8192 \<le> bb_cap bb" "bb_content bb = []"
    and "rx_rel st (None, [])" "pk_recv_state st = FRAME_PAGE_STATE_RECEIVE_LEADING"
  shows "\<exists>w snd_st'. post_all Inner junk ps snd_st [] = Some (w, snd_st') \<and> tx_ok snd_st' \<and>
    (\<forall>ns. list_all (\<lambda>n. 0 < n) ns \<longrightarrow> length w \<le> length ns \<longrightarrow>
      (\<exists>bb' st'. pump bb_content bb_cap bip_buf_fill (tcp_decode Inner junk') ns w bb st = Some ([], bb', st') \<and>
         map on_got_packet (pk_got st') = map Some ps))"
proof -
  obtain snd_st' pads where post: "length pads = length ps" "list_all (good_packet Inner) (zip pads ps)"
      "tx_ok snd_st'" "post_all Inner junk ps snd_st [] = Some (concat (map (packet_wire Inner) (zip pads ps)), snd_st')"
    using post_all_ok [OF assms(1,2), of junk "[]"] by auto
  let ?w = "concat (map (packet_wire Inner) (zip pads ps))"
  have parse: "map on_got_packet (map (packet_data Inner) (zip pads ps)) = map Some ps"
  proof (rule nth_equalityI)
    fix i assume "i < length (map on_got_packet (map (packet_data Inner) (zip pads ps)))"
    then have i: "i < length ps" using post(1) by simp
    obtain uuid serial name body where p: "ps ! i = (uuid, serial, name, body)" by (cases "ps ! i") auto
    have "good_packet Inner (zip pads ps ! i)"
      using post(1,2) i by (simp add: list_all_length)
    then have "length (pads ! i) = 6" "sendable Inner (uuid, serial, name, body)"
      using post(1) i p by (simp_all add: good_packet_def)
    then show "map on_got_packet (map (packet_data Inner) (zip pads ps)) ! i = map Some ps ! i"
      using i post(1) p on_got_packet_bytes sendable_bounds(3,4) by (simp del: packet_bytes.simps)
  qed (use post(1) in simp)
  have "\<exists>bb' st'. pump bb_content bb_cap bip_buf_fill (tcp_decode Inner junk') ns ?w bb st = Some ([], bb', st') \<and>
      map on_got_packet (pk_got st') = map Some ps"
    if ns: "list_all (\<lambda>n. 0 < n) ns" "length ?w \<le> length ns" for ns
  proof -
    from stream_delivery [OF assms(3-7) post(2), of junk' ns] ns obtain bb' st' where
      "pump bb_content bb_cap bip_buf_fill (tcp_decode Inner junk') ns ?w bb st = Some ([], bb', st')"
      "pk_got st' = map (packet_data Inner) (zip pads ps)" by auto
    with parse show ?thesis by metis
  qed
  with post(3,4) show ?thesis by blast
qed

lemma tcp_end_to_end_witness:
  "\<exists>bb w snd_st'. tcp_buf_ok bb \<and>
    post_all Inner (\<lambda>_ _. 0) [(7, 1, [65], [66, 67]), (8, 2, [68], [])] fresh_packet [] = Some (w, snd_st') \<and>
    (\<exists>bb' st'. pump bb_content bb_cap bip_buf_fill (tcp_decode Inner (\<lambda>_ _. 0)) (replicate (length w) 5) w bb fresh_packet =
       Some ([], bb', st') \<and>
       map on_got_packet (pk_got st') = [Some (7, 1, [65], [66, 67]), Some (8, 2, [68], [])])"
proof -
  obtain bb where bb: "tcp_buf_ok bb" "bb_content bb = []" "bb_cap bb = 8192" using fresh_buffer by blast
  have "list_all (sendable Inner) [(7, 1, [65], [66, 67]), (8, 2, [68], [])]"
    by (simp add: sendable_def recv_cap_value)
  from tcp_end_to_end [OF fresh_packet_ok(2) this bb(1) _ bb(2) fresh_packet_ok(1,4), of "\<lambda>_ _. 0" "\<lambda>_ _. 0"] bb
  obtain w snd_st' where w: "post_all Inner (\<lambda>_ _. 0) [(7, 1, [65], [66, 67]), (8, 2, [68], [])] fresh_packet [] = Some (w, snd_st')"
    "\<forall>ns. list_all (\<lambda>n. 0 < n) ns \<longrightarrow> length w \<le> length ns \<longrightarrow>
      (\<exists>bb' st'. pump bb_content bb_cap bip_buf_fill (tcp_decode Inner (\<lambda>_ _. 0)) ns w bb fresh_packet = Some ([], bb', st') \<and>
         map on_got_packet (pk_got st') = map Some [(7, 1, [65], [66, 67]), (8, 2, [68], [])])"
    by auto
  have "list_all (\<lambda>n. 0 < n) (replicate (length w) (5 :: nat))" by (simp add: list_all_iff)
  with w bb(1) show ?thesis by auto
qed

section \<open>The limits of the protocol\<close>


lemma filled_buffer:
  assumes "bs \<noteq> []" "length bs \<le> 8192"
  shows "\<exists>bb. tcp_buf_ok bb \<and> bb_cap bb = 8192 \<and> bb_content bb = bs"
proof -
  obtain bb where bb: "tcp_buf_ok bb" "bb_content bb = []" "bb_cap bb = 8192" using fresh_buffer by blast
  from bip_buf_fill_ok [of bb bs] bb assms show ?thesis by (auto simp: tcp_buf_ok_def)
qed


text \<open>
  When a first page arrives while a packet is being assembled, the buffer of the
  unfinished packet stays allocated: nothing refers to it any more, and neither the rest of
  the packet nor \<open>Clear\<close> puts it back on the list.
\<close>

theorem second_first_page_leaks:
  assumes "rx_rel st r" "pk_ref_recv_buf st = Some a" "tx_ok st"
    and "is_start (pk_recv_page_leading st)" "\<not> is_end (pk_recv_page_leading st)"
    and "page \<noteq> []" "length page < 2 ^ 14"
  shows "\<exists>st' st'' a'. consume_packet cls junk st page = Some (0, st') \<and>
    pk_ref_recv_buf st' = Some a' \<and> a' \<noteq> a \<and> fls_owned (pk_recv_list st') a \<and>
    tcp_clear st' = Some st'' \<and> pk_ref_recv_buf st'' = None \<and> fls_owned (pk_recv_list st'') a"
proof -
  let ?H = s_RECV_PACKET_BUFFER_CAPACITY_HINT
  obtain as where as: "pb_avail ?H (pk_recv_list st) as" "fls_owned (pk_recv_list st) a"
    using rx_relE [OF assms(1,2)] by blast
  obtain a' rl as' b where al: "packet_buffer_alloc junk ?H (recv_num_hint cls) (pk_recv_list st) = Some (a', rl)"
      "pb_avail ?H rl as'" "\<not> fls_owned (pk_recv_list st) a'"
      "\<forall>c. fls_owned rl c \<longleftrightarrow> c = a' \<or> fls_owned (pk_recv_list st) c"
      "nh_get (fls_heap rl) a' = Some b" "pb_size b = 0"
    using packet_buffer_alloc_ok [OF as(1), of "recv_num_hint cls" junk] by auto
  have bok: "pb_ok ?H b" using al by (auto simp: pb_avail_def)
  have fits: "length (pb_bytes b) + length page \<le> recv_cap"
    using al(6) assms(7) by (simp add: pb_bytes_def recv_cap_value)
  obtain b' where b': "recv_append b page = Some b'" "pb_ok ?H b'"
    using recv_append_ok [OF bok assms(7) fits] by blast
  obtain h where h: "nh_put (fls_heap rl) a' b' = Some h" "pb_avail ?H (rl\<lparr>fls_heap := h\<rparr>) as'"
      "\<forall>c. fls_owned (rl\<lparr>fls_heap := h\<rparr>) c \<longleftrightarrow> fls_owned rl c"
    using pb_put_ok [OF al(2) _ b'(2)] al(4) by blast
  let ?st = "st\<lparr>pk_recv_list := rl\<lparr>fls_heap := h\<rparr>, pk_ref_recv_buf := Some a'\<rparr>"
  have run: "consume_packet cls junk st page = Some (0, ?st)"
    using assms(4,5) al(1,5) b'(1) h(1) recv_fits_iff [OF bok assms(7)] fits
    by (simp add: consume_packet_def consume_first_page_def is_start_def is_end_def Let_def)
  obtain rl' where rl': "packet_buffer_free (rl\<lparr>fls_heap := h\<rparr>) a' = Some rl'"
      "\<forall>c. fls_owned rl' c \<longleftrightarrow> c \<noteq> a' \<and> fls_owned (rl\<lparr>fls_heap := h\<rparr>) c"
    using packet_buffer_free_ok [OF h(2), of a'] h(3) al(4) by auto
  have ne: "a' \<noteq> a" using al(3) as(2) by auto
  have own: "fls_owned (rl\<lparr>fls_heap := h\<rparr>) a" using h(3) al(4) as(2) by simp
  have clear: "\<exists>st''. tcp_clear ?st = Some st'' \<and> pk_ref_recv_buf st'' = None \<and> pk_recv_list st'' = rl'"
    using rl'(1) assms(3) by (simp add: tcp_clear_def packet_release_def tx_ok_def)
  show ?thesis using run clear ne own rl'(2) by auto
qed

lemma second_first_page_leaks_witness:
  "\<exists>st st' a. pk_ref_recv_buf st = Some a \<and> consume_packet Inner (\<lambda>_ _. 0) st [1] = Some (0, st') \<and>
    pk_ref_recv_buf st' \<noteq> Some a \<and> fls_owned (pk_recv_list st') a"
proof -
  let ?st0 = "fresh_packet\<lparr>pk_recv_page_leading := \<lparr>pg_start = 1, pg_end = 0, pg_data_size = 1\<rparr>\<rparr>"
  have rel: "rx_rel ?st0 (None, [])" by simp
  have flags: "is_start (pk_recv_page_leading ?st0)" "\<not> is_end (pk_recv_page_leading ?st0)"
    by (simp_all add: is_start_def is_end_def)
  have "refines_page ?st0 (consume_packet Inner (\<lambda>_ _. 0) ?st0 [1]) (0, Some [1], [])"
    using consume_packet_refines [OF rel, of "[1]" Inner "\<lambda>_ _. 0"] flags by (simp add: recv_cap_value)
  then obtain st where
    st: "rx_rel st (Some [1], [])" "same_tx ?st0 st" "pk_recv_page_leading st = pk_recv_page_leading ?st0"
    unfolding refines_page_def by auto
  from st(1) obtain a where a: "pk_ref_recv_buf st = Some a" by (auto simp: rx_rel_def split: option.splits)
  have tx: "tx_ok st" using st(2) fresh_packet_ok(2) by (simp add: tx_ok_def same_tx_def)
  have "is_start (pk_recv_page_leading st)" "\<not> is_end (pk_recv_page_leading st)"
    unfolding st(3) by (rule flags)+
  note leak = second_first_page_leaks [OF st(1) a tx this, of "[1]" Inner "\<lambda>_ _. 0"]
  have "[1 :: byte] \<noteq> []" "length [1 :: byte] < 2 ^ 14" by simp_all
  from leak [OF this] obtain st' a' where
    "consume_packet Inner (\<lambda>_ _. 0) st [1] = Some (0, st')" "pk_ref_recv_buf st' = Some a'" "a' \<noteq> a"
    "fls_owned (pk_recv_list st') a" by blast
  with a show ?thesis by (intro exI [of _ st] exI [of _ st'] exI [of _ a]) simp
qed

text \<open>
  A page larger than the receive buffer: its leading and everything received of it are
  discarded, and the receiver remembers exactly how much is still to be discarded; from then
  on each call discards that much and returns to the normal state exactly when the whole
  page has gone by.
\<close>

theorem oversized_page_skipped:
  assumes "pk_recv_state st = FRAME_PAGE_STATE_RECEIVE_LEADING" "page_leading_at ptr = Some pl"
    and "cap < 2 + uint (pg_data_size pl)" "2 \<le> nremains" "nremains \<le> cap" "0 < m"
  shows "\<exists>st1. consume_frame_page cls junk ptr nremains cap st = Some (nremains, st1) \<and>
    pk_recv_state st1 = FRAME_PAGE_STATE_SKIP \<and> pk_got st1 = pk_got st \<and>
    uint (pg_data_size (pk_recv_page_leading st1)) = 2 + uint (pg_data_size pl) - nremains \<and>
    (\<exists>st2. consume_frame_page cls junk ptr' m cap st1 =
         Some (min m (2 + uint (pg_data_size pl) - nremains), st2) \<and>
       uint (pg_data_size (pk_recv_page_leading st2)) =
         2 + uint (pg_data_size pl) - nremains - min m (2 + uint (pg_data_size pl) - nremains) \<and>
       (pk_recv_state st2 = FRAME_PAGE_STATE_RECEIVE_LEADING \<longleftrightarrow> 2 + uint (pg_data_size pl) - nremains \<le> m))"
proof -
  let ?d = "pg_data_size pl" and ?k = "2 + uint (pg_data_size pl) - nremains"
  have nz: "?d \<noteq> 0" using assms(3-5) by auto
  define d1 where "d1 = ?d - word_of_int (nremains - 2)"
  define st1 where "st1 = st\<lparr>pk_recv_page_leading := pl\<lparr>pg_data_size := d1\<rparr>, pk_recv_state := FRAME_PAGE_STATE_SKIP\<rparr>"
  have u1: "uint d1 = ?k"
    using uint_minus_14 [of "nremains - 2" ?d] assms(3-5) by (simp add: d1_def)
  have first: "consume_frame_page cls junk ptr nremains cap st = Some (nremains, st1)"
    unfolding consume_frame_page_def
    by (subst consume_loop.simps) (use assms(1-5) nz in \<open>simp add: Let_def d1_def st1_def\<close>)
  have "pk_recv_state st1 = FRAME_PAGE_STATE_SKIP" "pk_recv_page_leading st1 = pl\<lparr>pg_data_size := d1\<rparr>"
    "pk_got st1 = pk_got st"
    by (simp_all add: st1_def)
  moreover from consume_loop_skip [OF this(1,2), of m cls junk cap ptr' 0] assms(6) u1
  have "\<exists>st2. consume_frame_page cls junk ptr' m cap st1 = Some (min m ?k, st2) \<and>
      uint (pg_data_size (pk_recv_page_leading st2)) = ?k - min m ?k \<and>
      (pk_recv_state st2 = FRAME_PAGE_STATE_RECEIVE_LEADING \<longleftrightarrow> ?k \<le> m)"
    by (simp add: consume_frame_page_def)
  ultimately show ?thesis using first u1 by auto
qed

lemma oversized_page_skipped_witness:
  "\<exists>st1. consume_frame_page Inner (\<lambda>_ _. 0)
     (page_leading_bytes \<lparr>pg_start = 1, pg_end = 1, pg_data_size = 10000\<rparr>) 2 8192 fresh_packet = Some (2, st1) \<and>
    pk_recv_state st1 = FRAME_PAGE_STATE_SKIP"
proof -
  let ?pl = "\<lparr>pg_start = 1, pg_end = 1, pg_data_size = 10000\<rparr>"
  have "page_leading_at (page_leading_bytes ?pl) = Some ?pl"
    using page_leading_roundtrip [of ?pl "[]"] by simp
  from oversized_page_skipped [OF fresh_packet_ok(4) this, of 8192 2 1 Inner "\<lambda>_ _. 0" "[]"]
  show ?thesis by auto
qed

end
