(* ===== verification/FastMemcpy.thy ===== *)
theory FastMemcpy
  imports Prelude
begin

text \<open>
  \<^verbatim>\<open>src/base/snprintf/fast_memcpy.h\<close>: a memory copy with SSE registers and a jump table for
  small sizes. Memory is a function from addresses to bytes; every load and store is checked
  against the two regions the caller owns, and the aligned instructions against the alignment
  of their address, so that \<open>None\<close> is an access outside the regions or an alignment fault.
  Streaming stores, prefetches and the fence do not differ from plain ones in this model.
\<close>

section \<open>Memory\<close>

type_synonym memory = "nat \<Rightarrow> byte"

text \<open>The regions: \<open>ce_size\<close> bytes may be read at \<open>ce_src\<close> and written at \<open>ce_dst\<close>.\<close>

record copy_env =
  ce_dst :: nat
  ce_src :: nat
  ce_size :: nat

definition load :: "copy_env \<Rightarrow> nat \<Rightarrow> nat \<Rightarrow> memory \<Rightarrow> byte list option" where
  "load env w s mem =
     (if ce_src env \<le> s \<and> s + w \<le> ce_src env + ce_size env
      then Some (map (\<lambda>i. mem (s + i)) [0..<w]) else None)"

definition store :: "copy_env \<Rightarrow> nat \<Rightarrow> byte list \<Rightarrow> memory \<Rightarrow> memory option" where
  "store env d bs mem =
     (if ce_dst env \<le> d \<and> d + length bs \<le> ce_dst env + ce_size env
      then Some (\<lambda>a. if d \<le> a \<and> a < d + length bs then bs ! (a - d) else mem a) else None)"

text \<open>The registers \<open>m0, m1, ...\<close> loaded from consecutive addresses, then stored.\<close>

primrec loadu :: "copy_env \<Rightarrow> nat \<Rightarrow> nat \<Rightarrow> memory \<Rightarrow> byte list list option" where
  "loadu env 0 s mem = Some []"
| "loadu env (Suc k) s mem =
     do { m \<leftarrow> load env 16 s mem; ms \<leftarrow> loadu env k (s + 16) mem; Some (m # ms) }"

primrec storeu :: "copy_env \<Rightarrow> nat \<Rightarrow> byte list list \<Rightarrow> memory \<Rightarrow> memory option" where
  "storeu env d [] mem = Some mem"
| "storeu env d (m # ms) mem = do { mem' \<leftarrow> store env d m mem; storeu env (d + 16) ms mem' }"

definition load_aligned :: "copy_env \<Rightarrow> nat \<Rightarrow> nat \<Rightarrow> memory \<Rightarrow> byte list list option" where
  "load_aligned env k s mem = (if s mod 16 = 0 then loadu env k s mem else None)"

definition store_aligned :: "copy_env \<Rightarrow> nat \<Rightarrow> byte list list \<Rightarrow> memory \<Rightarrow> memory option" where
  "store_aligned env d ms mem = (if d mod 16 = 0 then storeu env d ms mem else None)"

definition memcpy_sse2_16 :: "copy_env \<Rightarrow> nat \<Rightarrow> nat \<Rightarrow> memory \<Rightarrow> memory option" where
  "memcpy_sse2_16 env dst src mem = do { ms \<leftarrow> loadu env 1 src mem; storeu env dst ms mem }"

definition memcpy_sse2_32 :: "copy_env \<Rightarrow> nat \<Rightarrow> nat \<Rightarrow> memory \<Rightarrow> memory option" where
  "memcpy_sse2_32 env dst src mem = do { ms \<leftarrow> loadu env 2 src mem; storeu env dst ms mem }"

definition memcpy_sse2_64 :: "copy_env \<Rightarrow> nat \<Rightarrow> nat \<Rightarrow> memory \<Rightarrow> memory option" where
  "memcpy_sse2_64 env dst src mem = do { ms \<leftarrow> loadu env 4 src mem; storeu env dst ms mem }"

definition memcpy_sse2_128 :: "copy_env \<Rightarrow> nat \<Rightarrow> nat \<Rightarrow> memory \<Rightarrow> memory option" where
  "memcpy_sse2_128 env dst src mem = do { ms \<leftarrow> loadu env 8 src mem; storeu env dst ms mem }"

section \<open>The jump table\<close>

text \<open>
  The statements of a case, in order: \<open>U w k\<close> moves one integer of \<open>w\<close> bytes from \<open>ss - k\<close> to
  \<open>dd - k\<close>, the others call the SSE copies on these addresses. The cases 64 to 127 copy 64
  bytes and fall through into the case 64 below.
\<close>

datatype tiny_op = U nat nat | Sse16 nat | Sse32 nat | Sse64 nat | Sse128 nat

definition tiny_cases_0 :: "tiny_op list list" where
  "tiny_cases_0 =
     [[], [U 1 1],
      [U 2 2], [U 2 3, U 1 1],
      [U 4 4], [U 4 5, U 1 1],
      [U 4 6, U 2 2], [U 4 7, U 4 4],
      [U 8 8], [U 8 9, U 1 1],
      [U 8 10, U 2 2], [U 8 11, U 4 4],
      [U 8 12, U 4 4], [U 8 13, U 4 5, U 1 1],
      [U 8 14, U 8 8], [U 8 15, U 8 8]]"

definition tiny_cases_16 :: "tiny_op list list" where
  "tiny_cases_16 =
     [[Sse16 16], [Sse16 17, U 1 1],
      [Sse16 18, U 2 2], [Sse16 19, U 2 3, U 1 1],
      [Sse16 20, U 4 4], [Sse16 21, U 4 5, U 1 1],
      [Sse16 22, U 4 6, U 2 2], [Sse16 23, U 4 7, U 4 4],
      [Sse16 24, Sse16 16], [Sse16 25, Sse16 16],
      [Sse16 26, Sse16 16], [Sse16 27, Sse16 16],
      [Sse16 28, Sse16 16], [Sse16 29, Sse16 16],
      [Sse16 30, Sse16 16], [Sse16 31, Sse16 16]]"

definition tiny_cases_32 :: "tiny_op list list" where
  "tiny_cases_32 =
     [[Sse32 32], [Sse32 33, U 1 1],
      [Sse32 34, U 2 2], [Sse32 35, U 2 3, U 1 1],
      [Sse32 36, U 4 4], [Sse32 37, U 4 5, U 1 1],
      [Sse32 38, U 4 6, U 2 2], [Sse32 39, U 4 7, U 4 4],
      [Sse32 40, U 8 8], [Sse32 41, U 8 9, U 1 1],
      [Sse32 42, U 8 10, U 2 2], [Sse32 43, U 8 11, U 4 4],
      [Sse32 44, U 8 12, U 4 4], [Sse32 45, U 8 13, U 4 5, U 1 1],
      [Sse32 46, U 8 14, U 8 8], [Sse32 47, U 8 15, U 8 8]]"

definition tiny_cases_48 :: "tiny_op list list" where
  "tiny_cases_48 =
     [[Sse32 48, Sse16 16], [Sse32 49, Sse16 17, U 1 1],
      [Sse32 50, Sse16 18, U 2 2], [Sse32 51, Sse16 19, U 2 3, U 1 1],
      [Sse32 52, Sse16 20, U 4 4], [Sse32 53, Sse16 21, U 4 5, U 1 1],
      [Sse32 54, Sse16 22, U 4 6, U 2 2], [Sse32 55, Sse16 23, U 4 7, U 4 4],
      [Sse32 56, Sse16 24, Sse16 16], [Sse32 57, Sse16 25, Sse16 16],
      [Sse32 58, Sse16 26, Sse16 16], [Sse32 59, Sse16 27, Sse16 16],
      [Sse32 60, Sse16 28, Sse16 16], [Sse32 61, Sse16 29, Sse16 16],
      [Sse32 62, Sse16 30, Sse16 16], [Sse32 63, Sse16 31, Sse16 16]]"

definition tiny_ops :: "nat \<Rightarrow> tiny_op list" where
  "tiny_ops sz =
     (let table = tiny_cases_0 @ tiny_cases_16 @ tiny_cases_32 @ tiny_cases_48 in
      if sz < 64 then table ! sz
      else if sz < 128 then Sse64 sz # table ! (sz - 64)
      else if sz = 128 then [Sse128 128]
      else [])"

definition tiny_step :: "copy_env \<Rightarrow> nat \<Rightarrow> nat \<Rightarrow> tiny_op \<Rightarrow> memory \<Rightarrow> memory option" where
  "tiny_step env dd ss op mem =
     (case op of
        U w k \<Rightarrow> do { bs \<leftarrow> load env w (ss - k) mem; store env (dd - k) bs mem }
      | Sse16 k \<Rightarrow> memcpy_sse2_16 env (dd - k) (ss - k) mem
      | Sse32 k \<Rightarrow> memcpy_sse2_32 env (dd - k) (ss - k) mem
      | Sse64 k \<Rightarrow> memcpy_sse2_64 env (dd - k) (ss - k) mem
      | Sse128 k \<Rightarrow> memcpy_sse2_128 env (dd - k) (ss - k) mem)"

primrec tiny_run :: "copy_env \<Rightarrow> nat \<Rightarrow> nat \<Rightarrow> tiny_op list \<Rightarrow> memory \<Rightarrow> memory option" where
  "tiny_run env dd ss [] mem = Some mem"
| "tiny_run env dd ss (op # ops) mem =
     do { mem' \<leftarrow> tiny_step env dd ss op mem; tiny_run env dd ss ops mem' }"

definition memcpy_tiny :: "copy_env \<Rightarrow> nat \<Rightarrow> nat \<Rightarrow> nat \<Rightarrow> memory \<Rightarrow> memory option" where
  "memcpy_tiny env dst src sz mem = tiny_run env (dst + sz) (src + sz) (tiny_ops sz) mem"

section \<open>The main routine\<close>

text \<open>
  The three copying loops: 128 bytes a round, loaded from the source (\<open>ld\<close> is the load
  instruction) and stored to the aligned destination. The result has the two pointers, the
  sz that is left, and the memory.
\<close>

function copy_loop ::
  "(copy_env \<Rightarrow> nat \<Rightarrow> nat \<Rightarrow> memory \<Rightarrow> byte list list option) \<Rightarrow> copy_env \<Rightarrow> nat \<Rightarrow> nat \<Rightarrow> nat \<Rightarrow> memory \<Rightarrow>
   (nat \<times> nat \<times> nat \<times> memory) option" where
  "copy_loop ld env dst src sz mem =
     (if 128 \<le> sz
      then do {
        cs \<leftarrow> ld env 8 src mem;
        mem' \<leftarrow> store_aligned env dst cs mem;
        copy_loop ld env (dst + 128) (src + 128) (sz - 128) mem' }
      else Some (dst, src, sz, mem))"
  by pat_completeness auto

termination
  by (relation "measure (\<lambda>(ld, env, dst, src, sz, mem). sz)") auto

declare copy_loop.simps [simp del]

definition cachesize :: nat where
  "cachesize = 0x200000"

definition align_head :: "copy_env \<Rightarrow> nat \<Rightarrow> nat \<Rightarrow> nat \<Rightarrow> memory \<Rightarrow> (nat \<times> nat \<times> nat \<times> memory) option" where
  "align_head env dst src sz mem =
     (let padding = (16 - (dst AND 15)) AND 15 in
      if padding > 0
      then do {
        head \<leftarrow> loadu env 1 src mem;
        mem' \<leftarrow> storeu env dst head mem;
        Some (dst + padding, src + padding, sz - padding, mem') }
      else Some (dst, src, sz, mem))"

definition fast_memcpy :: "copy_env \<Rightarrow> nat \<Rightarrow> nat \<Rightarrow> nat \<Rightarrow> memory \<Rightarrow> memory option" where
  "fast_memcpy env destination source sz mem =
     (if sz \<le> 128 then memcpy_tiny env destination source sz mem
      else do {
        (dst, src, size1, mem1) \<leftarrow> align_head env destination source sz mem;
        (dst2, src2, size2, mem2) \<leftarrow>
          (if size1 \<le> cachesize then copy_loop loadu env dst src size1 mem1
           else if src AND 15 = 0 then copy_loop load_aligned env dst src size1 mem1
           else copy_loop loadu env dst src size1 mem1);
        memcpy_tiny env dst2 src2 size2 mem2 })"

section \<open>What has been copied\<close>

text \<open>The memory in which the bytes at the offsets \<open>S\<close> have been copied.\<close>

definition copied :: "copy_env \<Rightarrow> nat set \<Rightarrow> memory \<Rightarrow> memory" where
  "copied env S mem =
     (\<lambda>a. if ce_dst env \<le> a \<and> a - ce_dst env \<in> S then mem (ce_src env + (a - ce_dst env)) else mem a)"

definition disjoint_env :: "copy_env \<Rightarrow> bool" where
  "disjoint_env env \<longleftrightarrow>
     ce_src env + ce_size env \<le> ce_dst env \<or> ce_dst env + ce_size env \<le> ce_src env"

lemma copied_empty [simp]: "copied env {} mem = mem"
  by (simp add: copied_def)

lemma load_copied:
  assumes "disjoint_env env" "S \<subseteq> {..<ce_size env}" "off + w \<le> ce_size env"
  shows "load env w (ce_src env + off) (copied env S mem) =
    Some (map (\<lambda>i. mem (ce_src env + off + i)) [0..<w])"
proof -
  have "copied env S mem (ce_src env + off + i) = mem (ce_src env + off + i)" if "i < w" for i
    using assms that by (auto simp: copied_def disjoint_env_def)
  then show ?thesis using assms(3) by (simp add: load_def)
qed

lemma store_copied:
  assumes "off + w \<le> ce_size env"
  shows "store env (ce_dst env + off) (map (\<lambda>i. mem (ce_src env + off + i)) [0..<w]) (copied env S mem) =
    Some (copied env (S \<union> {off..<off + w}) mem)"
  using assms by (auto simp: store_def copied_def fun_eq_iff)

lemma move_copied:
  assumes "disjoint_env env" "S \<subseteq> {..<ce_size env}" "off + w \<le> ce_size env"
  shows "Option.bind (load env w (ce_src env + off) (copied env S mem))
      (\<lambda>bs. store env (ce_dst env + off) bs (copied env S mem)) =
    Some (copied env (S \<union> {off..<off + w}) mem)"
  using load_copied [OF assms] store_copied [OF assms(3)] by simp

text \<open>The registers loaded at offset \<open>off\<close>.\<close>

definition regs :: "copy_env \<Rightarrow> memory \<Rightarrow> nat \<Rightarrow> nat \<Rightarrow> byte list list" where
  "regs env mem off k =
     map (\<lambda>j. map (\<lambda>i. mem (ce_src env + (off + 16 * j) + i)) [0..<16]) [0..<k]"

lemma regs_Suc: "regs env mem off (Suc k) =
    map (\<lambda>i. mem (ce_src env + off + i)) [0..<16] # regs env mem (off + 16) k"
proof -
  have "[0..<Suc k] = 0 # map Suc [0..<k]" by (simp add: upt_conv_Cons map_Suc_upt)
  then show ?thesis by (simp add: regs_def comp_def add.assoc add.left_commute)
qed

lemma loadu_copied:
  assumes "disjoint_env env" "S \<subseteq> {..<ce_size env}" "off + 16 * k \<le> ce_size env"
  shows "loadu env k (ce_src env + off) (copied env S mem) = Some (regs env mem off k)"
  using assms(3)
proof (induction k arbitrary: off)
  case 0
  then show ?case by (simp add: regs_def)
next
  case (Suc k)
  have "loadu env k (ce_src env + off + 16) (copied env S mem) = Some (regs env mem (off + 16) k)"
    using Suc.IH [of "off + 16"] Suc.prems by (simp add: add.assoc)
  moreover have "load env 16 (ce_src env + off) (copied env S mem) =
      Some (map (\<lambda>i. mem (ce_src env + off + i)) [0..<16])"
    by (rule load_copied [OF assms(1,2)]) (use Suc.prems in simp)
  ultimately show ?case by (simp add: regs_Suc)
qed

lemma storeu_copied:
  assumes "off + 16 * k \<le> ce_size env"
  shows "storeu env (ce_dst env + off) (regs env mem off k) (copied env S mem) =
    Some (copied env (S \<union> {off..<off + 16 * k}) mem)"
  using assms
proof (induction k arbitrary: off S)
  case 0
  then show ?case by (simp add: regs_def)
next
  case (Suc k)
  have "store env (ce_dst env + off) (map (\<lambda>i. mem (ce_src env + off + i)) [0..<16]) (copied env S mem) =
      Some (copied env (S \<union> {off..<off + 16}) mem)"
    by (rule store_copied) (use Suc.prems in simp)
  moreover have "storeu env (ce_dst env + (off + 16)) (regs env mem (off + 16) k)
      (copied env (S \<union> {off..<off + 16}) mem) =
      Some (copied env (S \<union> {off..<off + 16} \<union> {off + 16..<off + 16 + 16 * k}) mem)"
    by (rule Suc.IH) (use Suc.prems in simp)
  moreover have "S \<union> {off..<off + 16} \<union> {off + 16..<off + 16 + 16 * k} = S \<union> {off..<off + 16 * Suc k}"
    by auto
  ultimately show ?case by (simp add: regs_Suc add.assoc)
qed

lemma sse_copied:
  assumes "disjoint_env env" "S \<subseteq> {..<ce_size env}" "off + 16 * k \<le> ce_size env"
  shows "Option.bind (loadu env k (ce_src env + off) (copied env S mem))
      (\<lambda>ms. storeu env (ce_dst env + off) ms (copied env S mem)) =
    Some (copied env (S \<union> {off..<off + 16 * k}) mem)"
  using loadu_copied [OF assms] storeu_copied [OF assms(3)] by simp

section \<open>The jump table copies every byte\<close>

fun op_at :: "tiny_op \<Rightarrow> nat" where
  "op_at (U w k) = k" | "op_at (Sse16 k) = k" | "op_at (Sse32 k) = k" | "op_at (Sse64 k) = k" | "op_at (Sse128 k) = k"

fun op_width :: "tiny_op \<Rightarrow> nat" where
  "op_width (U w k) = w" | "op_width (Sse16 k) = 16" | "op_width (Sse32 k) = 32"
| "op_width (Sse64 k) = 64" | "op_width (Sse128 k) = 128"

text \<open>
  The last \<open>rem\<close> bytes are still to be copied: each operation starts at or before the first of
  them and stays inside the region.
\<close>

fun ops_cover :: "nat \<Rightarrow> nat \<Rightarrow> tiny_op list \<Rightarrow> bool" where
  "ops_cover sz rem [] \<longleftrightarrow> rem = 0"
| "ops_cover sz rem (op # ops) \<longleftrightarrow>
     rem \<le> op_at op \<and> op_at op \<le> sz \<and> op_width op \<le> op_at op \<and>
     ops_cover sz (min rem (op_at op - op_width op)) ops"

lemma tiny_ops_cover: "list_all (\<lambda>n. ops_cover n n (tiny_ops n)) [0..<129]"
  by code_simp

lemma tiny_step_copied:
  assumes env: "disjoint_env env" "S \<subseteq> {..<ce_size env}" "off + n \<le> ce_size env"
    and op: "op_at op \<le> n" "op_width op \<le> op_at op"
  shows "tiny_step env (ce_dst env + off + n) (ce_src env + off + n) op (copied env S mem) =
    Some (copied env (S \<union> {off + (n - op_at op)..<off + (n - op_at op) + op_width op}) mem)"
proof -
  let ?o = "off + (n - op_at op)"
  have at: "ce_dst env + off + n - op_at op = ce_dst env + ?o" "ce_src env + off + n - op_at op = ce_src env + ?o"
    using op(1) by simp_all
  have fits: "?o + op_width op \<le> ce_size env" using env(3) op by simp
  show ?thesis
    using move_copied [OF env(1,2) fits, of mem] sse_copied [OF env(1,2), of ?o 1 mem] sse_copied [OF env(1,2), of ?o 2 mem]
      sse_copied [OF env(1,2), of ?o 4 mem] sse_copied [OF env(1,2), of ?o 8 mem] fits at
    by (cases op) (simp_all add: tiny_step_def memcpy_sse2_16_def memcpy_sse2_32_def memcpy_sse2_64_def memcpy_sse2_128_def)
qed

lemma tiny_run_copied:
  assumes "disjoint_env env" "S \<subseteq> {..<ce_size env}" "off + n \<le> ce_size env"
    and "ops_cover n rem ops" "rem \<le> n" "{off..<off + (n - rem)} \<subseteq> S"
  shows "\<exists>S'. tiny_run env (ce_dst env + off + n) (ce_src env + off + n) ops (copied env S mem) =
      Some (copied env S' mem) \<and> S' = S \<union> {off..<off + n}"
  using assms(2,4-6)
proof (induction ops arbitrary: rem S)
  case Nil
  then show ?case by (auto simp: Un_absorb2)
next
  case (Cons op ops)
  let ?o = "off + (n - op_at op)"
  let ?S = "S \<union> {?o..<?o + op_width op}"
  have op: "rem \<le> op_at op" "op_at op \<le> n" "op_width op \<le> op_at op"
    "ops_cover n (min rem (op_at op - op_width op)) ops"
    using Cons.prems(2) by simp_all
  have step: "tiny_step env (ce_dst env + off + n) (ce_src env + off + n) op (copied env S mem) =
      Some (copied env ?S mem)"
    by (rule tiny_step_copied [OF assms(1) Cons.prems(1) assms(3) op(2,3)])
  have sub: "?S \<subseteq> {..<ce_size env}" using Cons.prems(1) op assms(3) by auto
  have "{off..<off + (n - min rem (op_at op - op_width op))} \<subseteq> {off..<off + (n - rem)} \<union> {?o..<?o + op_width op}"
    using op Cons.prems(3) by auto
  then have covered: "{off..<off + (n - min rem (op_at op - op_width op))} \<subseteq> ?S"
    using Cons.prems(4) by blast
  have "\<exists>S'. tiny_run env (ce_dst env + off + n) (ce_src env + off + n) ops (copied env ?S mem) =
      Some (copied env S' mem) \<and> S' = ?S \<union> {off..<off + n}"
    by (rule Cons.IH [OF sub op(4) _ covered]) (use Cons.prems(3) in simp)
  moreover have "?S \<union> {off..<off + n} = S \<union> {off..<off + n}" using op by auto
  ultimately show ?case using step by simp
qed

lemma memcpy_tiny_copied:
  assumes "disjoint_env env" "S \<subseteq> {..<ce_size env}" "off + n \<le> ce_size env" "n \<le> 128"
  shows "memcpy_tiny env (ce_dst env + off) (ce_src env + off) n (copied env S mem) =
    Some (copied env (S \<union> {off..<off + n}) mem)"
proof -
  have "ops_cover n n (tiny_ops n)"
    using tiny_ops_cover assms(4) by (simp add: list_all_iff)
  from tiny_run_copied [OF assms(1-3) this] show ?thesis
    by (auto simp: memcpy_tiny_def add.assoc)
qed

section \<open>The loops\<close>

lemma copy_loop_copied:
  assumes "disjoint_env env" "S \<subseteq> {..<ce_size env}" "off + n \<le> ce_size env"
    and "(ce_dst env + off) mod 16 = 0"
    and ld: "ld = loadu \<or> ld = load_aligned \<and> (ce_src env + off) mod 16 = 0"
  shows "\<exists>m. m < 128 \<and> m \<le> n \<and> copy_loop ld env (ce_dst env + off) (ce_src env + off) n (copied env S mem) =
    Some (ce_dst env + (off + (n - m)), ce_src env + (off + (n - m)), m,
      copied env (S \<union> {off..<off + (n - m)}) mem)"
  using assms(2-5)
proof (induction n arbitrary: off S rule: less_induct)
  case (less n)
  show ?case
  proof (cases "128 \<le> n")
    case False
    then show ?thesis by (subst copy_loop.simps) (auto intro!: exI [of _ n])
  next
    case True
    let ?S = "S \<union> {off..<off + 128}"
    have "ld env 8 (ce_src env + off) (copied env S mem) = Some (regs env mem off 8)"
      using loadu_copied [OF assms(1) less.prems(1), of off 8 mem] True less.prems(2,4)
      by (auto simp: load_aligned_def)
    moreover have "store_aligned env (ce_dst env + off) (regs env mem off 8) (copied env S mem) =
        Some (copied env ?S mem)"
      using storeu_copied [of off 8 env mem S] True less.prems(2,3) by (simp add: store_aligned_def)
    ultimately have step: "copy_loop ld env (ce_dst env + off) (ce_src env + off) n (copied env S mem) =
        copy_loop ld env (ce_dst env + (off + 128)) (ce_src env + (off + 128)) (n - 128) (copied env ?S mem)"
      using True by (subst copy_loop.simps) (simp add: add.assoc)
    have al: "(x + (off + 128)) mod 16 = (x + off) mod 16" for x :: nat
    proof -
      have "x + (off + 128) = x + off + 8 * 16" by simp
      then show ?thesis by (simp only: mod_mult_self1)
    qed
    have "\<exists>m. m < 128 \<and> m \<le> n - 128 \<and>
        copy_loop ld env (ce_dst env + (off + 128)) (ce_src env + (off + 128)) (n - 128) (copied env ?S mem) =
        Some (ce_dst env + (off + 128 + (n - 128 - m)), ce_src env + (off + 128 + (n - 128 - m)), m,
          copied env (?S \<union> {off + 128..<off + 128 + (n - 128 - m)}) mem)"
      by (rule less.IH) (use True less.prems al in auto)
    then obtain m where m: "m < 128" "m \<le> n - 128"
      "copy_loop ld env (ce_dst env + (off + 128)) (ce_src env + (off + 128)) (n - 128) (copied env ?S mem) =
        Some (ce_dst env + (off + 128 + (n - 128 - m)), ce_src env + (off + 128 + (n - 128 - m)), m,
          copied env (?S \<union> {off + 128..<off + 128 + (n - 128 - m)}) mem)" by blast
    have o: "off + 128 + (n - 128 - m) = off + (n - m)" using m(2) True by simp
    have S: "?S \<union> {off + 128..<off + (n - m)} = S \<union> {off..<off + (n - m)}" using m(2) True by auto
    show ?thesis
      by (rule exI [of _ m]) (use m True step in \<open>simp only: o S, simp\<close>)
  qed
qed

lemma padding_aligns:
  fixes d :: nat
  shows "((16 - (d AND 15)) AND 15) < 16" "(d + ((16 - (d AND 15)) AND 15)) mod 16 = 0"
proof -
  have m: "x AND 15 = x mod 16" for x :: nat
    using take_bit_eq_mask [of 4 x] by (simp add: take_bit_eq_mod mask_eq_exp_minus_1)
  show "((16 - (d AND 15)) AND 15) < 16" by (simp add: m)
  show "(d + ((16 - (d AND 15)) AND 15)) mod 16 = 0"
    unfolding m
  proof (cases "d mod 16 = 0")
    case False
    then have "(16 - d mod 16) mod 16 = 16 - d mod 16" by simp
    moreover have "d + (16 - d mod 16) = 16 * (d div 16 + 1)"
    proof -
      have "d + (16 - r) = 16 * (q + 1)" if "q * 16 + r = d" "r < 16" for q r using that by simp
      then show ?thesis using div_mult_mod_eq [of d 16] mod_less_divisor [of 16 d] by simp
    qed
    ultimately show "(d + (16 - d mod 16) mod 16) mod 16 = 0" by (simp only: mod_mult_self1_is_0)
  qed simp
qed

lemma and_15: "x AND 15 = 0 \<longleftrightarrow> (x :: nat) mod 16 = 0"
  using take_bit_eq_mask [of 4 x] by (simp add: take_bit_eq_mod mask_eq_exp_minus_1)

lemma align_head_copied:
  assumes "disjoint_env env" "128 < ce_size env"
  shows "\<exists>p. p < 16 \<and> (ce_dst env + p) mod 16 = 0 \<and>
    align_head env (ce_dst env) (ce_src env) (ce_size env) mem =
      Some (ce_dst env + p, ce_src env + p, ce_size env - p, copied env (if p = 0 then {} else {..<16}) mem)"
proof -
  let ?p = "(16 - (ce_dst env AND 15)) AND 15"
  have "Option.bind (loadu env 1 (ce_src env) mem) (\<lambda>ms. storeu env (ce_dst env) ms mem) =
      Some (copied env {..<16} mem)"
    using sse_copied [OF assms(1), of "{}" 0 1 mem] assms(2) by (simp add: lessThan_atLeast0)
  then obtain ms where "loadu env 1 (ce_src env) mem = Some ms" "storeu env (ce_dst env) ms mem = Some (copied env {..<16} mem)"
    by (auto simp: bind_eq_Some_conv)
  then show ?thesis
    using padding_aligns [of "ce_dst env"] by (intro exI [of _ ?p]) (simp add: align_head_def Let_def)
qed

text \<open>
  C7. \<open>fast_memcpy\<close> is \<^verbatim>\<open>memcpy\<close>: for any two disjoint regions of any size and any alignment it
  accesses nothing outside them, no aligned instruction faults, it returns, and afterwards the
  destination holds the bytes of the source and every other byte of the memory is as before.
\<close>

theorem fast_memcpy_correct:
  assumes "d + n \<le> s \<or> s + n \<le> d"
  shows "fast_memcpy \<lparr>ce_dst = d, ce_src = s, ce_size = n\<rparr> d s n mem =
    Some (\<lambda>a. if d \<le> a \<and> a < d + n then mem (s + (a - d)) else mem a)"
proof -
  define env where "env = \<lparr>ce_dst = d, ce_src = s, ce_size = n\<rparr>"
  have env: "ce_dst env = d" "ce_src env = s" "ce_size env = n" "disjoint_env env"
    using assms by (auto simp: env_def disjoint_env_def)
  have spec: "copied env {..<n} mem = (\<lambda>a. if d \<le> a \<and> a < d + n then mem (s + (a - d)) else mem a)"
    by (auto simp: copied_def env fun_eq_iff)
  have "fast_memcpy env (ce_dst env) (ce_src env) (ce_size env) mem = Some (copied env {..<n} mem)"
  proof (cases "n \<le> 128")
    case True
    then show ?thesis
      using memcpy_tiny_copied [OF env(4), of "{}" 0 n mem] env(3)
      by (simp add: fast_memcpy_def lessThan_atLeast0)
  next
    case False
    then obtain p where p: "p < 16" "(ce_dst env + p) mod 16 = 0"
      "align_head env (ce_dst env) (ce_src env) (ce_size env) mem =
        Some (ce_dst env + p, ce_src env + p, ce_size env - p, copied env (if p = 0 then {} else {..<16}) mem)"
      using align_head_copied [OF env(4), of mem] env(3) by auto
    let ?S = "if p = 0 then {} else {..<16 :: nat}"
    have S: "?S \<subseteq> {..<ce_size env}" using False env(3) by auto
    define ld where "ld = (if ce_size env - p \<le> cachesize then loadu
      else if (ce_src env + p) AND 15 = 0 then load_aligned else loadu)"
    have "ld = loadu \<or> ld = load_aligned \<and> (ce_src env + p) mod 16 = 0" by (auto simp: ld_def and_15)
    then obtain m where m: "m < 128" "m \<le> ce_size env - p"
      "copy_loop ld env (ce_dst env + p) (ce_src env + p) (ce_size env - p) (copied env ?S mem) =
        Some (ce_dst env + (p + (ce_size env - p - m)), ce_src env + (p + (ce_size env - p - m)), m,
          copied env (?S \<union> {p..<p + (ce_size env - p - m)}) mem)"
      using copy_loop_copied [OF env(4) S _ p(2), of "ce_size env - p" ld mem] p(1) False env(3) by auto
    let ?T = "?S \<union> {p..<p + (ce_size env - p - m)}" and ?o = "p + (ce_size env - p - m)"
    have tail: "memcpy_tiny env (ce_dst env + ?o) (ce_src env + ?o) m (copied env ?T mem) =
        Some (copied env (?T \<union> {?o..<?o + m}) mem)"
      by (rule memcpy_tiny_copied [OF env(4)]) (use S m p(1) False env(3) in auto)
    have all: "?T \<union> {?o..<?o + m} = {..<n}" using m p(1) False env(3) by auto
    have "fast_memcpy env (ce_dst env) (ce_src env) (ce_size env) mem =
        memcpy_tiny env (ce_dst env + ?o) (ce_src env + ?o) m (copied env ?T mem)"
      using False env(3) p(3) m(3) by (simp add: fast_memcpy_def ld_def split: if_splits)
    then show ?thesis using tail all by simp
  qed
  then show ?thesis unfolding spec by (simp add: env_def)
qed

lemma fast_memcpy_correct_witness:
  "fast_memcpy \<lparr>ce_dst = 3, ce_src = 5000, ce_size = 1000\<rparr> 3 5000 1000 (\<lambda>a. word_of_nat a) =
    Some (\<lambda>a. if 3 \<le> a \<and> a < 3 + 1000 then word_of_nat (5000 + (a - 3)) else word_of_nat a)"
  by (rule fast_memcpy_correct) simp

end
