(* ===== verification/MySnprintf.thy ===== *)
theory MySnprintf
  imports Prelude
begin

text \<open>
  \<^verbatim>\<open>src/base/snprintf/mysnprintf.c\<close>: the formatted output of the logging code. The theory has
  the format automaton of \<open>o_vsnprintf\<close> with its fast paths, \<open>fmtstr\<close>, \<open>fmtint\<close> and
  \<open>convert\<close>. Undefined behaviour is an error value that says what went wrong, so that the
  safety theorem can tell an access outside the buffer from a wrong argument list.

  The target is LP64: \<open>int\<close> has 32 bits, \<open>long\<close>, \<open>long long\<close>, \<open>size_t\<close>, \<open>intmax_t\<close> and
  \<open>ptrdiff_t\<close> have 64. Two things are arguments of the model (\<open>fmt_env\<close>): the separators of the C
  library's locale, and the arithmetic of \<open>LDOUBLE\<close>, so that what is proved of \<open>fmtflt\<close> holds for
  every arithmetic, rounding included.
\<close>

section \<open>Results\<close>

datatype fmt_ub = BadArgument | OutOfBounds | SignedOverflow | TableRange | FormatOverrun

definition rbind :: "('e + 'a) \<Rightarrow> ('a \<Rightarrow> 'e + 'b) \<Rightarrow> 'e + 'b" where
  "rbind r f = (case r of Inl e \<Rightarrow> Inl e | Inr x \<Rightarrow> f x)"

lemma rbind_simps [simp]: "rbind (Inl e) f = Inl e" "rbind (Inr x) f = f x"
  by (simp_all add: rbind_def)

lemma rbind_Inr: "rbind r f = Inr y \<longleftrightarrow> (\<exists>x. r = Inr x \<and> f x = Inr y)"
  by (cases r) auto

section \<open>The output buffer\<close>

text \<open>The buffer \<open>str\<close> of \<open>size\<close> bytes, and \<open>len\<close>.\<close>

record out =
  o_buf :: string
  o_len :: nat

definition o_size :: "out \<Rightarrow> nat" where
  "o_size o1 = length (o_buf o1)"

definition OUTCHAR :: "char \<Rightarrow> out \<Rightarrow> out" where
  "OUTCHAR ch o1 =
     (let o2 = (if o_len o1 + 1 < o_size o1 then o1\<lparr>o_buf := (o_buf o1)[o_len o1 := ch]\<rparr> else o1)
      in o2\<lparr>o_len := o_len o1 + 1\<rparr>)"

definition OUTCHARS :: "string \<Rightarrow> out \<Rightarrow> out" where
  "OUTCHARS cs o1 = fold OUTCHAR cs o1"

text \<open>\<open>out[len++] = ch\<close> without a test of its own.\<close>

definition out_put :: "char \<Rightarrow> out \<Rightarrow> fmt_ub + out" where
  "out_put ch o1 =
     (if o_len o1 < o_size o1
      then Inr (o1\<lparr>o_buf := (o_buf o1)[o_len o1 := ch], o_len := o_len o1 + 1\<rparr>) else Inl OutOfBounds)"

section \<open>Flags\<close>

type_synonym flagset = "32 word"

definition PRINT_F_MINUS :: flagset where "PRINT_F_MINUS = 1"
definition PRINT_F_PLUS :: flagset where "PRINT_F_PLUS = 2"
definition PRINT_F_SPACE :: flagset where "PRINT_F_SPACE = 4"
definition PRINT_F_NUM :: flagset where "PRINT_F_NUM = 8"
definition PRINT_F_ZERO :: flagset where "PRINT_F_ZERO = 16"
definition PRINT_F_QUOTE :: flagset where "PRINT_F_QUOTE = 32"
definition PRINT_F_UP :: flagset where "PRINT_F_UP = 64"
definition PRINT_F_UNSIGNED :: flagset where "PRINT_F_UNSIGNED = 128"
definition PRINT_F_TYPE_G :: flagset where "PRINT_F_TYPE_G = 256"
definition PRINT_F_TYPE_E :: flagset where "PRINT_F_TYPE_E = 512"

definition has_flag :: "flagset \<Rightarrow> flagset \<Rightarrow> bool" where
  "has_flag flags f \<longleftrightarrow> flags AND f \<noteq> 0"

datatype cflag = C_NONE | C_CHAR | C_SHORT | C_LONG | C_LLONG | C_LDOUBLE | C_SIZE | C_PTRDIFF | C_INTMAX

datatype fmt_state =
  PRINT_S_DEFAULT | PRINT_S_FLAGS | PRINT_S_WIDTH | PRINT_S_DOT | PRINT_S_PRECISION | PRINT_S_MOD | PRINT_S_CONV

definition INT_MAX :: int where "INT_MAX = 2147483647"

section \<open>Conversions\<close>

text \<open>
  The operations of \<open>LDOUBLE\<close> that the source uses; \<open>fl_trunc\<close> is the cast to \<open>UINTMAX_T\<close> and
  \<open>fl_of\<close> the conversion of an integer.
\<close>

record 'f flops =
  fl_of :: "64 word \<Rightarrow> 'f"
  fl_half :: 'f
  fl_neg :: "'f \<Rightarrow> 'f"
  fl_add :: "'f \<Rightarrow> 'f \<Rightarrow> 'f"
  fl_sub :: "'f \<Rightarrow> 'f \<Rightarrow> 'f"
  fl_mul :: "'f \<Rightarrow> 'f \<Rightarrow> 'f"
  fl_div :: "'f \<Rightarrow> 'f \<Rightarrow> 'f"
  fl_less :: "'f \<Rightarrow> 'f \<Rightarrow> bool"
  fl_le :: "'f \<Rightarrow> 'f \<Rightarrow> bool"
  fl_eq :: "'f \<Rightarrow> 'f \<Rightarrow> bool"
  fl_trunc :: "'f \<Rightarrow> 64 word"

record 'f fmt_env =
  e_thousands_sep :: "string option"
  e_decimal_point :: "char option"
  e_flops :: "'f flops"

text \<open>\<open>convert\<close>: the digits in reverse order, at most \<open>sz\<close> of them.\<close>

definition digit_char :: "bool \<Rightarrow> nat \<Rightarrow> char" where
  "digit_char caps d = (if caps then ''0123456789ABCDEF'' else ''0123456789abcdef'') ! d"

function convert :: "nat \<Rightarrow> nat \<Rightarrow> nat \<Rightarrow> bool \<Rightarrow> string" where
  "convert v sz base caps =
     digit_char caps (v mod base) #
     (if v div base \<noteq> 0 \<and> 1 < sz \<and> 1 < base then convert (v div base) (sz - 1) base caps else [])"
  by pat_completeness auto

termination
  by (relation "measure (\<lambda>(v, sz, base, caps). sz)") auto

declare convert.simps [simp del]

definition MAX_CONVERT_LENGTH :: nat where "MAX_CONVERT_LENGTH = 43"

definition printsep :: "'f fmt_env \<Rightarrow> string" where
  "printsep env = (case e_thousands_sep env of Some s \<Rightarrow> s | None \<Rightarrow> '','')"

definition getnumsep :: "'f fmt_env \<Rightarrow> nat \<Rightarrow> nat" where
  "getnumsep env digits =
     (let separators = (digits - (if digits mod 3 = 0 then 1 else 0)) div 3 in
      case e_thousands_sep env of Some s \<Rightarrow> separators * length s | None \<Rightarrow> separators)"

text \<open>\<open>fmtstr\<close>: the string up to the precision, padded with spaces to the width.\<close>

definition fmtstr :: "string option \<Rightarrow> int \<Rightarrow> int \<Rightarrow> flagset \<Rightarrow> out \<Rightarrow> out" where
  "fmtstr strvalue width precision flags o1 =
     (let noprecision = (precision = -1);
          v = (case strvalue of None \<Rightarrow> ''(null)'' | Some s \<Rightarrow> s);
          shown = (if noprecision then v else take (nat precision) v);
          strln = int (length shown);
          padlen = max 0 (width - strln);
          left = has_flag flags PRINT_F_MINUS;
          o2 = (if left then o1 else OUTCHARS (replicate (nat padlen) CHR '' '') o1);
          o3 = OUTCHARS shown o2
      in if left then OUTCHARS (replicate (nat padlen) CHR '' '') o3 else o3)"

text \<open>The digits of \<open>fmtint\<close>, most significant first, with the group separators.\<close>

primrec digits_out :: "'f fmt_env \<Rightarrow> bool \<Rightarrow> string \<Rightarrow> nat \<Rightarrow> string" where
  "digits_out env seps iconvert 0 = []"
| "digits_out env seps iconvert (Suc pos) =
     iconvert ! pos # (if seps \<and> pos > 0 \<and> pos mod 3 = 0 then printsep env else []) @
     digits_out env seps iconvert pos"

text \<open>
  \<open>fmtint\<close>. \<open>v\<close> is the \<open>intmax_t\<close> argument. The negation of the least value and a padding
  below \<open>INT_MIN\<close> overflow.
\<close>

definition fmtint ::
  "'f fmt_env \<Rightarrow> 64 word \<Rightarrow> nat \<Rightarrow> int \<Rightarrow> int \<Rightarrow> flagset \<Rightarrow> out \<Rightarrow> fmt_ub + out" where
  "fmtint env v base width precision flags o1 =
     (let unsig = has_flag flags PRINT_F_UNSIGNED;
          neg = (\<not> unsig \<and> v <s 0);
          uvalue = (if neg then unat (- v) else unat v);
          sign = (if unsig then [] else if neg then ''-'' else if has_flag flags PRINT_F_PLUS then ''+''
                  else if has_flag flags PRINT_F_SPACE then '' '' else []);
          noprecision = (precision = -1);
          iconvert = convert uvalue MAX_CONVERT_LENGTH base (has_flag flags PRINT_F_UP);
          pos = length iconvert;
          alt = (has_flag flags PRINT_F_NUM \<and> uvalue \<noteq> 0);
          precision1 = (if alt \<and> base = 8 \<and> precision \<le> int pos then int pos + 1 else precision);
          hexprefix = (if alt \<and> base = 16 then (if has_flag flags PRINT_F_UP then ''0X'' else ''0x'') else []);
          separators = (if has_flag flags PRINT_F_QUOTE then getnumsep env pos else 0);
          zpadlen0 = precision1 - int pos - int separators;
          spadlen0 = width - int separators - max precision1 (int pos) - int (length sign) - int (length hexprefix);
          zpadlen1 = max 0 zpadlen0;
          spadlen1 = max 0 spadlen0;
          left = has_flag flags PRINT_F_MINUS;
          zeros = (\<not> left \<and> has_flag flags PRINT_F_ZERO \<and> noprecision);
          zpadlen = (if zeros then zpadlen1 + spadlen1 else zpadlen1);
          spadlen = (if zeros then 0 else spadlen1)
      in if neg \<and> - v = v \<or> spadlen0 < - INT_MAX - 1 then Inl SignedOverflow
         else Inr (OUTCHARS (if left then replicate (nat spadlen) CHR '' '' else [])
                  (OUTCHARS (digits_out env (separators > 0) iconvert pos)
                  (OUTCHARS (replicate (nat zpadlen) CHR ''0'')
                  (OUTCHARS hexprefix
                  (OUTCHARS sign
                  (OUTCHARS (if left then [] else replicate (nat spadlen) CHR '' '') o1)))))))"

section \<open>Floating-point conversions\<close>

function exp_down :: "'f flops \<Rightarrow> 'f \<Rightarrow> int \<Rightarrow> 'f \<times> int" where
  "exp_down fl tmp exponent =
     (if fl_less fl tmp (fl_of fl 1) \<and> fl_less fl (fl_of fl 0) tmp
      then if -99 < exponent - 1 then exp_down fl (fl_mul fl tmp (fl_of fl 10)) (exponent - 1)
           else (tmp, exponent - 1)
      else (tmp, exponent))"
  by pat_completeness auto

termination
  by (relation "measure (\<lambda>(fl, tmp, exponent). nat (exponent + 99))") auto

function exp_up :: "'f flops \<Rightarrow> 'f \<Rightarrow> int \<Rightarrow> 'f \<times> int" where
  "exp_up fl tmp exponent =
     (if fl_le fl (fl_of fl 10) tmp
      then if exponent + 1 < 99 then exp_up fl (fl_div fl tmp (fl_of fl 10)) (exponent + 1)
           else (tmp, exponent + 1)
      else (tmp, exponent))"
  by pat_completeness auto

termination
  by (relation "measure (\<lambda>(fl, tmp, exponent). nat (99 - exponent))") auto

declare exp_down.simps [simp del] exp_up.simps [simp del]

definition getexponent :: "'f flops \<Rightarrow> 'f \<Rightarrow> int" where
  "getexponent fl v =
     (let tmp = (if fl_le fl (fl_of fl 0) v then v else fl_neg fl v);
          (tmp1, exponent) = exp_down fl tmp 0
      in snd (exp_up fl tmp1 exponent))"

definition cast :: "'f flops \<Rightarrow> 'f \<Rightarrow> 64 word" where
  "cast fl v =
     (if fl_le fl (fl_of fl (-1)) v then -1
      else let result = fl_trunc fl v in if fl_le fl (fl_of fl result) v then result else result - 1)"

definition myround :: "'f flops \<Rightarrow> 'f \<Rightarrow> 64 word" where
  "myround fl v =
     (let intpart = cast fl v
      in if fl_less fl (fl_sub fl v (fl_of fl intpart)) (fl_half fl) then intpart else intpart + 1)"

definition mypow10 :: "'f flops \<Rightarrow> int \<Rightarrow> 'f" where
  "mypow10 fl exponent =
     (if 0 \<le> exponent then ((\<lambda>r. fl_mul fl r (fl_of fl 10)) ^^ nat exponent) (fl_of fl 1)
      else ((\<lambda>r. fl_div fl r (fl_of fl 10)) ^^ nat (- exponent)) (fl_of fl 1))"

text \<open>
  \<open>fmtflt\<close> from the label \<open>again\<close> to the conversion of the exponent: the integer part, the
  fractional part, the exponent and the capped precision. \<open>None\<close> is the overflow.
\<close>

definition flt_split :: "'f flops \<Rightarrow> 'f \<Rightarrow> int \<Rightarrow> int \<Rightarrow> bool \<Rightarrow> (64 word \<times> 64 word \<times> int \<times> int) option" where
  "flt_split fl fvalue precision0 exponent estyle =
     (let precision = (if 19 < precision0 then 19 else precision0);
          ufvalue0 = (if fl_le fl (fl_of fl 0) fvalue then fvalue else fl_neg fl fvalue);
          ufvalue = (if estyle then fl_div fl ufvalue0 (mypow10 fl exponent) else ufvalue0);
          intpart = cast fl ufvalue
      in if intpart = -1 then None
         else let mask = fl_trunc fl (mypow10 fl precision);
                  fracpart = myround fl (fl_mul fl (fl_of fl mask) (fl_sub fl ufvalue (fl_of fl intpart)))
              in if mask \<le> fracpart
                 then if estyle \<and> intpart + 1 = 10 then Some (1, 0, exponent + 1, precision)
                      else Some (intpart + 1, 0, exponent, precision)
                 else Some (intpart, fracpart, exponent, precision))"

definition flt_again ::
  "'f flops \<Rightarrow> flagset \<Rightarrow> 'f \<Rightarrow> int \<Rightarrow> int \<Rightarrow> bool \<Rightarrow> ((64 word \<times> 64 word \<times> int \<times> int) \<times> bool) option" where
  "flt_again fl flags fvalue precision exponent estyle =
     (case flt_split fl fvalue precision exponent estyle of
        None \<Rightarrow> None
      | Some (intpart, fracpart, exponent1, precision1) \<Rightarrow>
          if has_flag flags PRINT_F_TYPE_G \<and> estyle \<and> exponent1 < precision1 + 1 \<and> -4 \<le> exponent1
          then map_option (\<lambda>r. (r, False)) (flt_split fl fvalue (precision1 - exponent1) exponent1 False)
          else Some ((intpart, fracpart, exponent1, precision1), estyle))"

text \<open>The characters of the exponent, in reverse order; \<open>econvert\<close> has four bytes.\<close>

definition econvert :: "flagset \<Rightarrow> int \<Rightarrow> string" where
  "econvert flags exponent =
     (let ds = convert (nat \<bar>exponent\<bar>) 2 10 False
      in ds @ (if length ds = 1 then ''0'' else []) @
         [if exponent < 0 then CHR ''-'' else CHR ''+'', if has_flag flags PRINT_F_UP then CHR ''E'' else CHR ''e''])"

definition flt_sign :: "'f flops \<Rightarrow> flagset \<Rightarrow> 'f \<Rightarrow> string" where
  "flt_sign fl flags fvalue =
     (if fl_less fl fvalue (fl_of fl 0) then ''-'' else if has_flag flags PRINT_F_PLUS then ''+''
      else if has_flag flags PRINT_F_SPACE then '' '' else [])"

definition flt_infnan :: "'f flops \<Rightarrow> flagset \<Rightarrow> 'f \<Rightarrow> string option" where
  "flt_infnan fl flags fvalue =
     (let up = has_flag flags PRINT_F_UP
      in if \<not> fl_eq fl fvalue fvalue then Some (if up then ''NAN'' else ''nan'')
         else if \<not> fl_eq fl fvalue (fl_of fl 0) \<and> fl_eq fl (fl_add fl fvalue fvalue) fvalue
         then Some (if up then ''INF'' else ''inf'') else None)"

text \<open>
  The layout: \<open>iconvert\<close>, \<open>fconvert\<close> and \<open>econv\<close> hold the digits in reverse order; \<open>omitcount\<close>
  fractional digits are left out.
\<close>

definition flt_emit ::
  "'f fmt_env \<Rightarrow> string \<Rightarrow> string \<Rightarrow> string \<Rightarrow> string \<Rightarrow> int \<Rightarrow> bool \<Rightarrow> int \<Rightarrow> flagset \<Rightarrow> out \<Rightarrow> out" where
  "flt_emit env sign iconvert fconvert econv precision0 omitzeros width flags o1 =
     (let ipos = length iconvert; fpos = length fconvert; epos = length econv;
          omitcount = (if \<not> omitzeros then 0
                       else if fpos > 0 then int (length (takeWhile (\<lambda>c. c = CHR ''0'') fconvert)) else precision0);
          leadfraczeros = (if omitzeros \<and> fpos = 0 then 0 else precision0 - int fpos);
          precision = precision0 - omitcount;
          emitpoint = (0 < precision \<or> has_flag flags PRINT_F_NUM);
          separators = (if has_flag flags PRINT_F_QUOTE then getnumsep env ipos else 0);
          padlen = max 0 (width - int ipos - int epos - precision - int separators - (if emitpoint then 1 else 0)
                          - int (length sign));
          left = has_flag flags PRINT_F_MINUS;
          zeros = (\<not> left \<and> has_flag flags PRINT_F_ZERO \<and> 0 < padlen);
          head = (if zeros then sign @ replicate (nat padlen) CHR ''0''
                  else (if left then [] else replicate (nat padlen) CHR '' '') @ sign);
          point = (if emitpoint then [case e_decimal_point env of Some c \<Rightarrow> c | None \<Rightarrow> CHR ''.''] else []);
          tail = (if left then replicate (nat padlen) CHR '' '' else [])
      in OUTCHARS tail
        (OUTCHARS (rev econv)
        (OUTCHARS (rev (drop (nat omitcount) fconvert))
        (OUTCHARS (replicate (nat leadfraczeros) CHR ''0'')
        (OUTCHARS point
        (OUTCHARS (digits_out env (separators > 0) iconvert ipos)
        (OUTCHARS head o1)))))))"

definition fmtflt :: "'f fmt_env \<Rightarrow> 'f \<Rightarrow> int \<Rightarrow> int \<Rightarrow> flagset \<Rightarrow> out \<Rightarrow> out option" where
  "fmtflt env fvalue width precision0 flags o1 =
     (let fl = e_flops env;
          precision1 = (if precision0 = -1 then 6 else precision0);
          sign = flt_sign fl flags fvalue
      in case flt_infnan fl flags fvalue of
           Some infnan \<Rightarrow> Some (fmtstr (Some (sign @ infnan)) width (int (length (sign @ infnan))) flags o1)
         | None \<Rightarrow>
             (let typeg = has_flag flags PRINT_F_TYPE_G;
                  estyle = (has_flag flags PRINT_F_TYPE_E \<or> typeg);
                  precision2 = (if typeg then precision1 - 1 else precision1);
                  omitzeros = (typeg \<and> \<not> has_flag flags PRINT_F_NUM);
                  exponent = (if estyle then getexponent fl fvalue else 0)
              in map_option (\<lambda>((intpart, fracpart, exponent1, precision), estyle1).
                   flt_emit env sign
                     (convert (unat intpart) MAX_CONVERT_LENGTH 10 False)
                     (if fracpart \<noteq> 0 then convert (unat fracpart) MAX_CONVERT_LENGTH 10 False else [])
                     (if estyle1 then econvert flags exponent1 else [])
                     precision omitzeros width flags o1)
                   (flt_again fl flags fvalue precision2 exponent estyle)))"

section \<open>The digit table and the scratch buffer\<close>

text \<open>
  \<open>atoi_tab\<close> holds the three digits of every number below 1000, four bytes each;
  \<open>scratch_buffer\<close> has 32 bytes.
\<close>

definition dec_digit :: "nat \<Rightarrow> char" where
  "dec_digit d = char_of (48 + d)"

definition atoi_tab :: string where
  "atoi_tab = concat (map (\<lambda>i. [dec_digit (i div 100), dec_digit (i div 10 mod 10), dec_digit (i mod 10), CHR 0x00])
     [0..<1000])"

definition scratch_init :: string where
  "scratch_init = map (\<lambda>i. char_of (31 - i)) [0..<32 :: nat]"

text \<open>
  The loop that writes three digits a round from the end of the scratch buffer on; \<open>s\<close> is the
  write position. The result has the position of the first digit written.
\<close>

function digit_loop :: "nat \<Rightarrow> nat \<Rightarrow> string \<Rightarrow> fmt_ub + nat \<times> string" where
  "digit_loop v1 s scratch =
     (let v2 = v1 div 1000;
          ap = 2 + 4 * (v1 - 1000 * v2)
      in if s < 2 \<or> length scratch \<le> s then Inl OutOfBounds
         else if length atoi_tab \<le> ap then Inl TableRange
         else let scratch1 = scratch[s := atoi_tab ! ap, s - 1 := atoi_tab ! (ap - 1), s - 2 := atoi_tab ! (ap - 2)]
              in if v2 > 0 then digit_loop v2 (s - 3) scratch1 else Inr (s - 2, scratch1))"
  by pat_completeness auto

termination
  by (relation "measure (\<lambda>(v1, s, scratch). v1)") auto

declare digit_loop.simps [simp del]

text \<open>\<open>while ('0' == *++s);\<close>\<close>

function skip_zeros :: "nat \<Rightarrow> string \<Rightarrow> fmt_ub + nat" where
  "skip_zeros s scratch =
     (if length scratch \<le> s then Inl OutOfBounds
      else if scratch ! s = CHR ''0'' then skip_zeros (Suc s) scratch else Inr s)"
  by pat_completeness auto

termination
  by (relation "measure (\<lambda>(s, scratch). length scratch - s)") auto

declare skip_zeros.simps [simp del]

text \<open>
  \<open>n = (len + n < size) ? n : size - len; fast_memcpy(out + len, s, n); len += n\<close>: the copy
  itself is the subject of \<open>FastMemcpy\<close>.
\<close>

definition copy_digits :: "nat \<Rightarrow> string \<Rightarrow> out \<Rightarrow> fmt_ub + out" where
  "copy_digits s scratch o1 =
     (let n0 = length scratch - s;
          n = (if o_len o1 + n0 < o_size o1 then n0 else o_size o1 - o_len o1)
      in if o_size o1 < o_len o1 + n \<or> length scratch < s + n then Inl OutOfBounds
         else Inr (o1\<lparr>o_buf := take (o_len o1) (o_buf o1) @ take n (drop s scratch) @ drop (o_len o1 + n) (o_buf o1),
                      o_len := o_len o1 + n\<rparr>))"

section \<open>The automaton\<close>

datatype 'f varg =
  VInt "32 word" | VLong "64 word" | VStr "string option" | VPtr "64 word" | VDouble 'f | VLDouble 'f | VOut nat

record 'f vs =
  v_out :: out
  v_overflow :: bool
  v_base :: nat
  v_cflags :: cflag
  v_flags :: flagset
  v_width :: int
  v_precision :: int
  v_state :: fmt_state
  v_ch :: char
  v_fmt :: string
  v_args :: "'f varg list"
  v_scratch :: string
  v_stores :: "(nat \<times> cflag \<times> nat) list"

text \<open>The outcome of a round: \<open>Over\<close> is the jump to the label \<open>over\<close>.\<close>

datatype 'f vround = Go "'f vs" | Over "'f vs"

text \<open>\<open>ch = *format++\<close>; the format includes its terminating NUL.\<close>

definition fetch :: "'f vs \<Rightarrow> fmt_ub + 'f vs" where
  "fetch st = (case v_fmt st of [] \<Rightarrow> Inl FormatOverrun | c # cs \<Rightarrow> Inr (st\<lparr>v_ch := c, v_fmt := cs\<rparr>))"

definition fmt_skip :: "nat \<Rightarrow> 'f vs \<Rightarrow> fmt_ub + 'f vs" where
  "fmt_skip k st = (if length (v_fmt st) < k then Inl FormatOverrun else Inr (st\<lparr>v_fmt := drop k (v_fmt st)\<rparr>))"

definition peek :: "nat \<Rightarrow> 'f vs \<Rightarrow> fmt_ub + char" where
  "peek i st = (if i < length (v_fmt st) then Inr (v_fmt st ! i) else Inl FormatOverrun)"

definition arg_int :: "'f vs \<Rightarrow> fmt_ub + 32 word \<times> 'f vs" where
  "arg_int st = (case v_args st of VInt w # as \<Rightarrow> Inr (w, st\<lparr>v_args := as\<rparr>) | _ \<Rightarrow> Inl BadArgument)"

definition arg_long :: "'f vs \<Rightarrow> fmt_ub + 64 word \<times> 'f vs" where
  "arg_long st = (case v_args st of VLong w # as \<Rightarrow> Inr (w, st\<lparr>v_args := as\<rparr>) | _ \<Rightarrow> Inl BadArgument)"

definition arg_str :: "'f vs \<Rightarrow> fmt_ub + string option \<times> 'f vs" where
  "arg_str st = (case v_args st of VStr s # as \<Rightarrow> Inr (s, st\<lparr>v_args := as\<rparr>) | _ \<Rightarrow> Inl BadArgument)"

definition arg_ptr :: "'f vs \<Rightarrow> fmt_ub + 64 word \<times> 'f vs" where
  "arg_ptr st = (case v_args st of VPtr w # as \<Rightarrow> Inr (w, st\<lparr>v_args := as\<rparr>) | _ \<Rightarrow> Inl BadArgument)"

definition arg_out :: "'f vs \<Rightarrow> fmt_ub + nat \<times> 'f vs" where
  "arg_out st = (case v_args st of VOut a # as \<Rightarrow> Inr (a, st\<lparr>v_args := as\<rparr>) | _ \<Rightarrow> Inl BadArgument)"

definition arg_float :: "'f vs \<Rightarrow> fmt_ub + 'f \<times> 'f vs" where
  "arg_float st =
     (case (v_cflags st = C_LDOUBLE, v_args st) of
        (True, VLDouble x # as) \<Rightarrow> Inr (x, st\<lparr>v_args := as\<rparr>)
      | (False, VDouble x # as) \<Rightarrow> Inr (x, st\<lparr>v_args := as\<rparr>)
      | _ \<Rightarrow> Inl BadArgument)"

subsection \<open>The fast paths\<close>

definition back_to_default :: "'f vs \<Rightarrow> fmt_ub + 'f vround" where
  "back_to_default st = rbind (fetch (st\<lparr>v_state := PRINT_S_DEFAULT\<rparr>)) (\<lambda>st1. Inr (Go st1))"

definition fast_c :: "'f vs \<Rightarrow> fmt_ub + 'f vround" where
  "fast_c st =
     rbind (arg_int st) (\<lambda>(w, st1).
     rbind (if o_len (v_out st1) + 1 < o_size (v_out st1) then out_put (char_of (unat w)) (v_out st1)
            else Inr (v_out st1)) (\<lambda>o1.
     back_to_default (st1\<lparr>v_out := o1\<rparr>)))"

primrec fast_copy :: "string \<Rightarrow> out \<Rightarrow> fmt_ub + out" where
  "fast_copy [] o1 = Inr o1"
| "fast_copy (c # cs) o1 =
     (if o_len o1 + 1 < o_size o1 then rbind (out_put c o1) (fast_copy cs) else Inr o1)"

definition fast_s :: "'f vs \<Rightarrow> fmt_ub + 'f vround" where
  "fast_s st =
     rbind (arg_str st) (\<lambda>(v, st1).
     (case v of
        None \<Rightarrow> Inl BadArgument
      | Some s \<Rightarrow> rbind (fast_copy s (v_out st1)) (\<lambda>o1. back_to_default (st1\<lparr>v_out := o1\<rparr>))))"

text \<open>
  The integer fast paths after the argument has been fetched: \<open>v\<close> is its value, \<open>least\<close> the least
  value of its type, \<open>k\<close> the number of format characters to skip. The branch for 0 does not skip
  them.
\<close>

definition fast_int :: "int \<Rightarrow> int \<Rightarrow> nat \<Rightarrow> 'f vs \<Rightarrow> fmt_ub + 'f vround" where
  "fast_int v least k st =
     (if o_size (v_out st) \<le> o_len (v_out st) + 1 then Inr (Over st)
      else if v = 0 then rbind (out_put CHR ''0'' (v_out st)) (\<lambda>o1. back_to_default (st\<lparr>v_out := o1\<rparr>))
      else
        rbind (if v < 0 then if v = least then Inl SignedOverflow else out_put CHR ''-'' (v_out st)
               else Inr (v_out st)) (\<lambda>o1.
        rbind (digit_loop (nat \<bar>v\<bar>) 31 (v_scratch st)) (\<lambda>(s, scratch).
        rbind (skip_zeros s scratch) (\<lambda>s1.
        rbind (copy_digits s1 scratch o1) (\<lambda>o2.
        rbind (fmt_skip k (st\<lparr>v_out := o2, v_scratch := scratch\<rparr>)) back_to_default)))))"

definition fast_d :: "'f vs \<Rightarrow> fmt_ub + 'f vround" where
  "fast_d st = rbind (arg_int st) (\<lambda>(w, st1). fast_int (sint w) (- (2 ^ 31)) 0 st1)"

definition fast_u :: "'f vs \<Rightarrow> fmt_ub + 'f vround" where
  "fast_u st = rbind (arg_int st) (\<lambda>(w, st1). fast_int (uint w) (-1) 0 st1)"

definition fast_ld :: "'f vs \<Rightarrow> fmt_ub + 'f vround" where
  "fast_ld st = rbind (arg_long st) (\<lambda>(w, st1). fast_int (sint w) (- (2 ^ 63)) 1 st1)"

definition fast_lu :: "'f vs \<Rightarrow> fmt_ub + 'f vround" where
  "fast_lu st = rbind (arg_long st) (\<lambda>(w, st1). fast_int (uint w) (-1) 1 st1)"

definition fast_lld :: "'f vs \<Rightarrow> fmt_ub + 'f vround" where
  "fast_lld st = rbind (arg_long st) (\<lambda>(w, st1). fast_int (sint w) (- (2 ^ 63)) 2 st1)"

definition fast_llu :: "'f vs \<Rightarrow> fmt_ub + 'f vround" where
  "fast_llu st = rbind (arg_long st) (\<lambda>(w, st1). fast_int (uint w) (-1) 2 st1)"

definition fast_l :: "'f vs \<Rightarrow> fmt_ub + 'f vround" where
  "fast_l st =
     rbind (peek 0 st) (\<lambda>c0.
     if c0 = CHR ''d'' \<or> c0 = CHR ''i'' then fast_ld st
     else if c0 = CHR ''u'' then fast_lu st
     else if c0 = CHR ''l'' then
       rbind (peek 1 st) (\<lambda>c1.
       if c1 = CHR ''d'' \<or> c1 = CHR ''i'' then fast_lld st
       else if c1 = CHR ''u'' then fast_llu st
       else Inr (Go (st\<lparr>v_state := PRINT_S_WIDTH\<rparr>)))
     else Inr (Go (st\<lparr>v_state := PRINT_S_WIDTH\<rparr>)))"

text \<open>\<open>%N\<close>: three digits of a number below 1000; the table is not checked against the argument.\<close>

definition fast_N :: "'f vs \<Rightarrow> fmt_ub + 'f vround" where
  "fast_N st =
     rbind (arg_int st) (\<lambda>(w, st1).
     let ap = unat (push_bit 2 w); o1 = v_out st1 in
     rbind (if o_len o1 + 3 < o_size o1
            then if length atoi_tab \<le> ap + 2 then Inl TableRange
                 else rbind (out_put (atoi_tab ! ap) o1) (\<lambda>o2.
                      rbind (out_put (atoi_tab ! (ap + 1)) o2) (out_put (atoi_tab ! (ap + 2))))
            else Inr o1) (\<lambda>o4.
     back_to_default (st1\<lparr>v_out := o4\<rparr>)))"

subsection \<open>The states\<close>

definition step_default :: "'f vs \<Rightarrow> fmt_ub + 'f vround" where
  "step_default st =
     rbind (fetch (if v_ch st = CHR ''%'' then st\<lparr>v_state := PRINT_S_FLAGS\<rparr>
                   else st\<lparr>v_out := OUTCHAR (v_ch st) (v_out st)\<rparr>)) (\<lambda>st1. Inr (Go st1))"

definition add_flag :: "flagset \<Rightarrow> 'f vs \<Rightarrow> fmt_ub + 'f vround" where
  "add_flag f st = rbind (fetch (st\<lparr>v_flags := v_flags st OR f\<rparr>)) (\<lambda>st1. Inr (Go st1))"

definition step_flags :: "'f vs \<Rightarrow> fmt_ub + 'f vround" where
  "step_flags st =
     (let ch = v_ch st in
      if ch = CHR ''-'' then add_flag PRINT_F_MINUS st
      else if ch = CHR ''+'' then add_flag PRINT_F_PLUS st
      else if ch = CHR '' '' then add_flag PRINT_F_SPACE st
      else if ch = CHR ''#'' then add_flag PRINT_F_NUM st
      else if ch = CHR ''0'' then add_flag PRINT_F_ZERO st
      else if ch = CHR 0x27 then add_flag PRINT_F_QUOTE st
      else if ch = CHR ''c'' then fast_c st
      else if ch = CHR ''s'' then fast_s st
      else if ch = CHR ''d'' \<or> ch = CHR ''i'' then fast_d st
      else if ch = CHR ''u'' then fast_u st
      else if ch = CHR ''l'' then fast_l st
      else if ch = CHR ''N'' then fast_N st
      else Inr (Go (st\<lparr>v_state := PRINT_S_WIDTH\<rparr>)))"

definition ISDIGIT :: "char \<Rightarrow> bool" where
  "ISDIGIT ch \<longleftrightarrow> 48 \<le> (of_char ch :: nat) \<and> (of_char ch :: nat) \<le> 57"

definition CHARTOINT :: "char \<Rightarrow> int" where
  "CHARTOINT ch = of_char ch - 48"

definition step_width :: "'f vs \<Rightarrow> fmt_ub + 'f vround" where
  "step_width st =
     (let ch = v_ch st in
      if ISDIGIT ch
      then if v_width st > (INT_MAX - CHARTOINT ch) div 10 then Inr (Over (st\<lparr>v_overflow := True\<rparr>))
           else rbind (fetch (st\<lparr>v_width := 10 * v_width st + CHARTOINT ch\<rparr>)) (\<lambda>st1. Inr (Go st1))
      else if ch = CHR ''*''
      then rbind (arg_int st) (\<lambda>(w, st1).
           let width = sint w in
           if width = - (2 ^ 31) then Inl SignedOverflow
           else rbind (fetch (if width < 0
                              then st1\<lparr>v_flags := v_flags st1 OR PRINT_F_MINUS, v_width := - width\<rparr>
                              else st1\<lparr>v_width := width\<rparr>)) (\<lambda>st2.
                Inr (Go (st2\<lparr>v_state := PRINT_S_DOT\<rparr>))))
      else Inr (Go (st\<lparr>v_state := PRINT_S_DOT\<rparr>)))"

definition step_dot :: "'f vs \<Rightarrow> fmt_ub + 'f vround" where
  "step_dot st =
     (if v_ch st = CHR ''.''
      then rbind (fetch (st\<lparr>v_state := PRINT_S_PRECISION\<rparr>)) (\<lambda>st1. Inr (Go st1))
      else Inr (Go (st\<lparr>v_state := PRINT_S_MOD\<rparr>)))"

definition step_precision :: "'f vs \<Rightarrow> fmt_ub + 'f vround" where
  "step_precision st0 =
     (let st = (if v_precision st0 = -1 then st0\<lparr>v_precision := 0\<rparr> else st0); ch = v_ch st in
      if ISDIGIT ch
      then if v_precision st > (INT_MAX - CHARTOINT ch) div 10 then Inr (Over (st\<lparr>v_overflow := True\<rparr>))
           else rbind (fetch (st\<lparr>v_precision := 10 * v_precision st + CHARTOINT ch\<rparr>)) (\<lambda>st1. Inr (Go st1))
      else if ch = CHR ''*''
      then rbind (arg_int st) (\<lambda>(w, st1).
           rbind (fetch (st1\<lparr>v_precision := (if sint w < 0 then -1 else sint w)\<rparr>)) (\<lambda>st2.
           Inr (Go (st2\<lparr>v_state := PRINT_S_MOD\<rparr>))))
      else Inr (Go (st\<lparr>v_state := PRINT_S_MOD\<rparr>)))"

text \<open>The length modifiers: one character, or two of the same kind.\<close>

definition step_mod :: "'f vs \<Rightarrow> fmt_ub + 'f vround" where
  "step_mod st =
     (let ch = v_ch st;
          single = (\<lambda>c. rbind (fetch (st\<lparr>v_cflags := c\<rparr>)) Inr);
          double = (\<lambda>c one two. rbind (fetch st) (\<lambda>st1.
             if v_ch st1 = c then rbind (fetch st1) (\<lambda>st2. Inr (st2\<lparr>v_cflags := two\<rparr>))
             else Inr (st1\<lparr>v_cflags := one\<rparr>)))
      in rbind (if ch = CHR ''h'' then double CHR ''h'' C_SHORT C_CHAR
                else if ch = CHR ''l'' then double CHR ''l'' C_LONG C_LLONG
                else if ch = CHR ''L'' then single C_LDOUBLE
                else if ch = CHR ''j'' then single C_INTMAX
                else if ch = CHR ''t'' then single C_PTRDIFF
                else if ch = CHR ''z'' then single C_SIZE
                else Inr st) (\<lambda>st1. Inr (Go (st1\<lparr>v_state := PRINT_S_CONV\<rparr>))))"

text \<open>The argument of \<open>d\<close> and \<open>i\<close>, sign-extended from the type the modifier names.\<close>

definition signed_arg :: "'f vs \<Rightarrow> fmt_ub + 64 word \<times> 'f vs" where
  "signed_arg st =
     (case v_cflags st of
        C_CHAR \<Rightarrow> rbind (arg_int st) (\<lambda>(w, st1). Inr (scast (ucast w :: 8 word), st1))
      | C_SHORT \<Rightarrow> rbind (arg_int st) (\<lambda>(w, st1). Inr (scast (ucast w :: 16 word), st1))
      | C_NONE \<Rightarrow> rbind (arg_int st) (\<lambda>(w, st1). Inr (scast w, st1))
      | C_LDOUBLE \<Rightarrow> rbind (arg_int st) (\<lambda>(w, st1). Inr (scast w, st1))
      | _ \<Rightarrow> arg_long st)"

definition unsigned_arg :: "'f vs \<Rightarrow> fmt_ub + 64 word \<times> 'f vs" where
  "unsigned_arg st =
     (case v_cflags st of
        C_CHAR \<Rightarrow> rbind (arg_int st) (\<lambda>(w, st1). Inr (ucast (ucast w :: 8 word), st1))
      | C_SHORT \<Rightarrow> rbind (arg_int st) (\<lambda>(w, st1). Inr (ucast (ucast w :: 16 word), st1))
      | C_NONE \<Rightarrow> rbind (arg_int st) (\<lambda>(w, st1). Inr (ucast w, st1))
      | C_LDOUBLE \<Rightarrow> rbind (arg_int st) (\<lambda>(w, st1). Inr (ucast w, st1))
      | _ \<Rightarrow> arg_long st)"

definition conv_signed :: "'f fmt_env \<Rightarrow> 'f vs \<Rightarrow> fmt_ub + 'f vround" where
  "conv_signed env st =
     rbind (signed_arg st) (\<lambda>(v, st1).
     rbind (fmtint env v 10 (v_width st1) (v_precision st1) (v_flags st1) (v_out st1)) (\<lambda>o1.
     Inr (Go (st1\<lparr>v_out := o1\<rparr>))))"

definition conv_unsigned :: "'f fmt_env \<Rightarrow> 'f vs \<Rightarrow> fmt_ub + 'f vround" where
  "conv_unsigned env st0 =
     (let ch = v_ch st0;
          st1 = (if ch = CHR ''X'' then st0\<lparr>v_flags := v_flags st0 OR PRINT_F_UP\<rparr> else st0);
          st2 = (if ch = CHR ''X'' \<or> ch = CHR ''x'' then st1\<lparr>v_base := 16\<rparr> else st1);
          st3 = (if ch \<noteq> CHR ''u'' \<and> v_base st2 = 0 then st2\<lparr>v_base := 8\<rparr> else st2);
          st4 = (if v_base st3 = 0 then st3\<lparr>v_base := 10\<rparr> else st3);
          st = st4\<lparr>v_flags := v_flags st4 OR PRINT_F_UNSIGNED\<rparr>
      in rbind (unsigned_arg st) (\<lambda>(v, st5).
         rbind (fmtint env v (v_base st5) (v_width st5) (v_precision st5) (v_flags st5) (v_out st5)) (\<lambda>o1.
         Inr (Go (st5\<lparr>v_out := o1\<rparr>)))))"

definition conv_float :: "'f fmt_env \<Rightarrow> 'f vs \<Rightarrow> fmt_ub + 'f vround" where
  "conv_float env st0 =
     (let ch = v_ch st0;
          st1 = (if ch \<in> {CHR ''A'', CHR ''F'', CHR ''E'', CHR ''G''} then st0\<lparr>v_flags := v_flags st0 OR PRINT_F_UP\<rparr> else st0);
          st = (if ch \<in> {CHR ''E'', CHR ''e''} then st1\<lparr>v_flags := v_flags st1 OR PRINT_F_TYPE_E\<rparr>
                else if ch \<in> {CHR ''G'', CHR ''g''} then st1\<lparr>v_flags := v_flags st1 OR PRINT_F_TYPE_G\<rparr>
                else st1)
      in rbind (arg_float st) (\<lambda>(x, st2).
         let st3 = (if ch \<in> {CHR ''G'', CHR ''g''} \<and> v_precision st2 = 0 then st2\<lparr>v_precision := 1\<rparr> else st2)
         in (case fmtflt env x (v_width st3) (v_precision st3) (v_flags st3) (v_out st3) of
               None \<Rightarrow> Inr (Over (st3\<lparr>v_overflow := True\<rparr>))
             | Some o1 \<Rightarrow> Inr (Go (st3\<lparr>v_out := o1\<rparr>)))))"

definition conv_ptr :: "'f fmt_env \<Rightarrow> 'f vs \<Rightarrow> fmt_ub + 'f vround" where
  "conv_ptr env st =
     rbind (arg_ptr st) (\<lambda>(p, st1).
     if p = 0 then Inr (Go (st1\<lparr>v_out := fmtstr (Some ''(nil)'') (v_width st1) (-1) (v_flags st1) (v_out st1)\<rparr>))
     else let st2 = st1\<lparr>v_flags := v_flags st1 OR PRINT_F_NUM OR PRINT_F_UNSIGNED\<rparr>
          in rbind (fmtint env p 16 (v_width st2) (v_precision st2) (v_flags st2) (v_out st2)) (\<lambda>o1.
             Inr (Go (st2\<lparr>v_out := o1\<rparr>))))"

text \<open>\<open>%n\<close>: the store through the pointer is recorded with the type the modifier names.\<close>

definition conv_n :: "'f vs \<Rightarrow> fmt_ub + 'f vround" where
  "conv_n st =
     rbind (arg_out st) (\<lambda>(a, st1).
     Inr (Go (st1\<lparr>v_stores := v_stores st1 @ [(a, v_cflags st1, o_len (v_out st1))]\<rparr>)))"

definition conv_switch :: "'f fmt_env \<Rightarrow> 'f vs \<Rightarrow> fmt_ub + 'f vround" where
  "conv_switch env st =
     (let ch = v_ch st in
      if ch = CHR ''d'' \<or> ch = CHR ''i'' then conv_signed env st
      else if ch \<in> {CHR ''X'', CHR ''x'', CHR ''o'', CHR ''u''} then conv_unsigned env st
      else if ch \<in> {CHR ''A'', CHR ''F'', CHR ''a'', CHR ''f'', CHR ''E'', CHR ''e'', CHR ''G'', CHR ''g''}
      then conv_float env st
      else if ch = CHR ''c''
      then rbind (arg_int st) (\<lambda>(w, st1). Inr (Go (st1\<lparr>v_out := OUTCHAR (char_of (unat w)) (v_out st1)\<rparr>)))
      else if ch = CHR ''s''
      then rbind (arg_str st) (\<lambda>(s, st1).
           Inr (Go (st1\<lparr>v_out := fmtstr s (v_width st1) (v_precision st1) (v_flags st1) (v_out st1)\<rparr>)))
      else if ch = CHR ''p'' then conv_ptr env st
      else if ch = CHR ''n'' then conv_n st
      else if ch = CHR ''%'' then Inr (Go (st\<lparr>v_out := OUTCHAR ch (v_out st)\<rparr>))
      else Inr (Go st))"

definition step_conv :: "'f fmt_env \<Rightarrow> 'f vs \<Rightarrow> fmt_ub + 'f vround" where
  "step_conv env st =
     rbind (conv_switch env st) (\<lambda>r.
     (case r of
        Over st1 \<Rightarrow> Inr (Over st1)
      | Go st1 \<Rightarrow>
          rbind (fetch st1) (\<lambda>st2.
          Inr (Go (st2\<lparr>v_state := PRINT_S_DEFAULT, v_base := 0, v_cflags := C_NONE, v_flags := 0, v_width := 0,
                       v_precision := -1\<rparr>)))))"

definition vs_step :: "'f fmt_env \<Rightarrow> 'f vs \<Rightarrow> fmt_ub + 'f vround" where
  "vs_step env st =
     (case v_state st of
        PRINT_S_DEFAULT \<Rightarrow> step_default st
      | PRINT_S_FLAGS \<Rightarrow> step_flags st
      | PRINT_S_WIDTH \<Rightarrow> step_width st
      | PRINT_S_DOT \<Rightarrow> step_dot st
      | PRINT_S_PRECISION \<Rightarrow> step_precision st
      | PRINT_S_MOD \<Rightarrow> step_mod st
      | PRINT_S_CONV \<Rightarrow> step_conv env st)"

subsection \<open>The loop\<close>

text \<open>
  Every round consumes a character of the format or moves on in the order of the states, so the
  loop ends.
\<close>

definition state_rank :: "fmt_state \<Rightarrow> nat" where
  "state_rank s =
     (case s of PRINT_S_FLAGS \<Rightarrow> 5 | PRINT_S_WIDTH \<Rightarrow> 4 | PRINT_S_DOT \<Rightarrow> 3 | PRINT_S_PRECISION \<Rightarrow> 3
      | PRINT_S_MOD \<Rightarrow> 2 | PRINT_S_CONV \<Rightarrow> 1 | PRINT_S_DEFAULT \<Rightarrow> 0)"

definition vs_measure :: "'f vs \<Rightarrow> nat" where
  "vs_measure st = 8 * length (v_fmt st) + state_rank (v_state st)"

text \<open>
  Weakest preconditions: \<open>rpost E Q r\<close> says that an error is one of \<open>E\<close> and a value satisfies \<open>Q\<close>.
\<close>

definition rpost :: "('e \<Rightarrow> bool) \<Rightarrow> ('a \<Rightarrow> bool) \<Rightarrow> 'e + 'a \<Rightarrow> bool" where
  "rpost E Q r = (case r of Inl e \<Rightarrow> E e | Inr x \<Rightarrow> Q x)"

named_theorems wp \<open>weakest preconditions of the automaton's steps\<close>

lemma rpost_simps [simp]: "rpost E Q (Inl e) = E e" "rpost E Q (Inr x) = Q x"
  by (simp_all add: rpost_def)

lemma rpost_bind [wp]: "rpost E (\<lambda>x. rpost E Q (f x)) r \<Longrightarrow> rpost E Q (rbind r f)"
  by (cases r) auto

lemma rpost_if [wp]: "(b \<Longrightarrow> rpost E Q r) \<Longrightarrow> (\<not> b \<Longrightarrow> rpost E Q s) \<Longrightarrow> rpost E Q (if b then r else s)"
  by simp

lemma rpost_Let [wp]: "(\<And>x. x = e \<Longrightarrow> rpost E Q (f x)) \<Longrightarrow> rpost E Q (Let e f)"
  by simp

lemma rpost_option [wp]:
  "(r = None \<Longrightarrow> rpost E Q f) \<Longrightarrow> (\<And>x. r = Some x \<Longrightarrow> rpost E Q (g x)) \<Longrightarrow>
   rpost E Q (case r of None \<Rightarrow> f | Some x \<Rightarrow> g x)"
  by (cases r) auto

lemma rpost_mono: "rpost E P r \<Longrightarrow> (\<And>x. P x \<Longrightarrow> Q x) \<Longrightarrow> rpost E Q r"
  by (cases r) auto

lemma rpost_InrD: "rpost E Q r \<Longrightarrow> r = Inr x \<Longrightarrow> Q x"
  by simp

lemma rpost_InlD: "rpost E Q r \<Longrightarrow> r = Inl e \<Longrightarrow> E e"
  by simp

lemma rpost_fetch [wp]:
  "(v_fmt st = [] \<Longrightarrow> E FormatOverrun) \<Longrightarrow>
   (\<And>c cs. v_fmt st = c # cs \<Longrightarrow> Q (st\<lparr>v_ch := c, v_fmt := cs\<rparr>)) \<Longrightarrow> rpost E Q (fetch st)"
  by (auto simp: fetch_def split: list.splits)

lemma rpost_arg_int [wp]:
  "E BadArgument \<Longrightarrow> (\<And>w as. Q (w, st\<lparr>v_args := as\<rparr>)) \<Longrightarrow> rpost E Q (arg_int st)"
  by (auto simp: arg_int_def split: list.splits varg.splits)

lemma rpost_arg_long [wp]:
  "E BadArgument \<Longrightarrow> (\<And>w as. Q (w, st\<lparr>v_args := as\<rparr>)) \<Longrightarrow> rpost E Q (arg_long st)"
  by (auto simp: arg_long_def split: list.splits varg.splits)

lemma rpost_arg_str [wp]:
  "E BadArgument \<Longrightarrow> (\<And>w as. Q (w, st\<lparr>v_args := as\<rparr>)) \<Longrightarrow> rpost E Q (arg_str st)"
  by (auto simp: arg_str_def split: list.splits varg.splits)

lemma rpost_arg_ptr [wp]:
  "E BadArgument \<Longrightarrow> (\<And>w as. Q (w, st\<lparr>v_args := as\<rparr>)) \<Longrightarrow> rpost E Q (arg_ptr st)"
  by (auto simp: arg_ptr_def split: list.splits varg.splits)

lemma rpost_arg_out [wp]:
  "E BadArgument \<Longrightarrow> (\<And>w as. Q (w, st\<lparr>v_args := as\<rparr>)) \<Longrightarrow> rpost E Q (arg_out st)"
  by (auto simp: arg_out_def split: list.splits varg.splits)

lemma rpost_arg_float [wp]:
  "E BadArgument \<Longrightarrow> (\<And>w as. Q (w, st\<lparr>v_args := as\<rparr>)) \<Longrightarrow> rpost E Q (arg_float st)"
  by (auto simp: arg_float_def split: list.splits varg.splits bool.splits)

lemma rpost_signed_arg [wp]:
  "E BadArgument \<Longrightarrow> (\<And>w as. Q (w, st\<lparr>v_args := as\<rparr>)) \<Longrightarrow> rpost E Q (signed_arg st)"
  unfolding signed_arg_def by (cases "v_cflags st") (auto intro!: wp)

lemma rpost_unsigned_arg [wp]:
  "E BadArgument \<Longrightarrow> (\<And>w as. Q (w, st\<lparr>v_args := as\<rparr>)) \<Longrightarrow> rpost E Q (unsigned_arg st)"
  unfolding unsigned_arg_def by (cases "v_cflags st") (auto intro!: wp)

text \<open>The part of a state that the conversions of arguments and the output leave alone.\<close>

definition decreases :: "nat \<Rightarrow> 'f vround \<Rightarrow> bool" where
  "decreases m r = (case r of Go st \<Rightarrow> vs_measure st < m | Over st \<Rightarrow> True)"

lemma decreases_simps [simp]: "decreases m (Go st) \<longleftrightarrow> vs_measure st < m" "decreases m (Over st)"
  by (simp_all add: decreases_def)

abbreviation runs :: "nat \<Rightarrow> fmt_ub + 'f vround \<Rightarrow> bool" where
  "runs m r \<equiv> rpost (\<lambda>_. True) (decreases m) r"

lemma back_to_default_runs:
  "8 * length (v_fmt st) \<le> m \<Longrightarrow> runs m (back_to_default st)"
  by (auto simp: back_to_default_def vs_measure_def state_rank_def intro!: wp)

lemma runs_any: "(\<And>x. runs m (f x)) \<Longrightarrow> runs m (rbind r f)"
  by (cases r) auto

lemma runs_case_prod: "(\<And>x y. p = (x, y) \<Longrightarrow> runs m (f x y)) \<Longrightarrow> runs m (case p of (x, y) \<Rightarrow> f x y)"
  by (cases p) simp

lemma runs_arg_int: "(\<And>w as. runs m (f w (st\<lparr>v_args := as\<rparr>))) \<Longrightarrow> runs m (rbind (arg_int st) (\<lambda>(w, st1). f w st1))"
  by (auto intro!: wp)

lemma runs_arg_str: "(\<And>w as. runs m (f w (st\<lparr>v_args := as\<rparr>))) \<Longrightarrow> runs m (rbind (arg_str st) (\<lambda>(w, st1). f w st1))"
  by (auto intro!: wp)

lemma fmt_skip_runs: "8 * length (v_fmt st) \<le> m \<Longrightarrow> runs m (rbind (fmt_skip k st) back_to_default)"
  by (auto simp: fmt_skip_def intro!: back_to_default_runs)

lemma fast_int_runs:
  assumes "8 * length (v_fmt st) \<le> m"
  shows "runs m (fast_int v least k st)"
  unfolding fast_int_def
  by (intro rpost_if runs_any runs_case_prod fmt_skip_runs back_to_default_runs) (simp_all add: assms)

lemma fast_runs:
  assumes "8 * length (v_fmt st) \<le> m"
  shows "runs m (fast_d st)" "runs m (fast_u st)" "runs m (fast_ld st)" "runs m (fast_lu st)"
    and "runs m (fast_lld st)" "runs m (fast_llu st)"
  unfolding fast_d_def fast_u_def fast_ld_def fast_lu_def fast_lld_def fast_llu_def
  using assms by (auto intro!: wp fast_int_runs)

lemma fast_text_runs:
  assumes "8 * length (v_fmt st) \<le> m"
  shows "runs m (fast_c st)" "runs m (fast_s st)" "runs m (fast_N st)"
proof -
  show "runs m (fast_c st)"
    unfolding fast_c_def
    by (intro runs_arg_int runs_any back_to_default_runs) (simp add: assms)
  show "runs m (fast_s st)"
    unfolding fast_s_def
    by (intro runs_arg_str) (auto split: option.split simp: assms intro!: runs_any back_to_default_runs)
  show "runs m (fast_N st)"
    unfolding fast_N_def Let_def
    by (intro runs_arg_int runs_any back_to_default_runs) (simp add: assms)
qed

lemma fast_l_runs:
  assumes "v_state st = PRINT_S_FLAGS"
  shows "runs (vs_measure st) (fast_l st)"
proof -
  have len: "8 * length (v_fmt st) \<le> vs_measure st" by (simp add: vs_measure_def)
  have width: "runs (vs_measure st) (Inr (Go (st\<lparr>v_state := PRINT_S_WIDTH\<rparr>)))"
    using assms by (simp add: vs_measure_def state_rank_def)
  show ?thesis
    unfolding fast_l_def by (intro runs_any rpost_if fast_runs len width)
qed

lemma add_flag_runs: "runs (vs_measure st) (add_flag f st)"
  by (auto simp: add_flag_def vs_measure_def intro!: wp)

lemma step_flags_runs:
  assumes "v_state st = PRINT_S_FLAGS"
  shows "runs (vs_measure st) (step_flags st)"
proof -
  have len: "8 * length (v_fmt st) \<le> vs_measure st" by (simp add: vs_measure_def)
  have width: "runs (vs_measure st) (Inr (Go (st\<lparr>v_state := PRINT_S_WIDTH\<rparr>)))"
    using assms by (simp add: vs_measure_def state_rank_def)
  show ?thesis
    unfolding step_flags_def Let_def
    by (intro rpost_if add_flag_runs fast_l_runs fast_runs fast_text_runs len width assms)
qed

lemma step_width_runs: "v_state st = PRINT_S_WIDTH \<Longrightarrow> runs (vs_measure st) (step_width st)"
  unfolding step_width_def Let_def
  by (intro rpost_if runs_arg_int rpost_bind rpost_fetch) (simp_all add: vs_measure_def state_rank_def split: if_splits)

lemma step_dot_runs: "v_state st = PRINT_S_DOT \<Longrightarrow> runs (vs_measure st) (step_dot st)"
  unfolding step_dot_def
  by (intro rpost_if rpost_bind rpost_fetch) (simp_all add: vs_measure_def state_rank_def)

lemma step_precision_runs:
  assumes "v_state st = PRINT_S_PRECISION"
  shows "runs (vs_measure st) (step_precision st)"
proof -
  obtain st1 where st1: "st1 = (if v_precision st = -1 then st\<lparr>v_precision := 0\<rparr> else st)" by simp
  have "vs_measure st1 = vs_measure st" "v_state st1 = PRINT_S_PRECISION"
    using assms by (simp_all add: st1 vs_measure_def)
  then show ?thesis
    unfolding step_precision_def Let_def st1 [symmetric]
    by (intro rpost_if runs_arg_int rpost_bind rpost_fetch) (simp_all add: vs_measure_def state_rank_def)
qed

lemma step_mod_runs:
  assumes "v_state st = PRINT_S_MOD"
  shows "runs (vs_measure st) (step_mod st)"
  unfolding step_mod_def Let_def
  by (intro rpost_if rpost_bind rpost_fetch) (use assms in \<open>simp_all add: vs_measure_def state_rank_def\<close>)

lemma step_default_runs: "v_state st = PRINT_S_DEFAULT \<Longrightarrow> runs (vs_measure st) (step_default st)"
  unfolding step_default_def
  by (intro rpost_if rpost_bind rpost_fetch) (simp_all add: vs_measure_def state_rank_def split: if_splits)

text \<open>
  A conversion leaves the format, the scratch buffer and the size of the output buffer as they are,
  and the only errors are a wrong argument list and the signed overflows of \<open>fmtint\<close>.
\<close>

lemma OUTCHAR_size [simp]: "o_size (OUTCHAR c o1) = o_size o1"
  by (simp add: OUTCHAR_def o_size_def Let_def)

lemma OUTCHARS_size [simp]: "o_size (OUTCHARS cs o1) = o_size o1"
  unfolding OUTCHARS_def by (induction cs arbitrary: o1) simp_all

lemma fmtstr_size [simp]: "o_size (fmtstr s width precision flags o1) = o_size o1"
  by (simp add: fmtstr_def Let_def)

lemma flt_emit_size [simp]: "o_size (flt_emit env sg ic fc ec precision oz width flags o1) = o_size o1"
  by (simp add: flt_emit_def Let_def)

lemma fmtflt_size: "fmtflt env x width precision flags o1 = Some o2 \<Longrightarrow> o_size o2 = o_size o1"
  by (auto simp: fmtflt_def Let_def split: option.splits prod.splits)

definition conv_frame :: "'f vs \<Rightarrow> 'f vround \<Rightarrow> bool" where
  "conv_frame st r = (case r of
     Go st1 \<Rightarrow> v_fmt st1 = v_fmt st \<and> v_scratch st1 = v_scratch st \<and> o_size (v_out st1) = o_size (v_out st)
   | Over st1 \<Rightarrow> o_size (v_out st1) = o_size (v_out st))"

lemma conv_frame_simps [simp]:
  "conv_frame st (Go st1) \<longleftrightarrow> v_fmt st1 = v_fmt st \<and> v_scratch st1 = v_scratch st \<and> o_size (v_out st1) = o_size (v_out st)"
  "conv_frame st (Over st1) \<longleftrightarrow> o_size (v_out st1) = o_size (v_out st)"
  by (simp_all add: conv_frame_def)

definition conv_err :: "fmt_ub \<Rightarrow> bool" where
  "conv_err e \<longleftrightarrow> e = BadArgument \<or> e = SignedOverflow"

lemma conv_err_simps [simp]: "conv_err BadArgument" "conv_err SignedOverflow"
  by (simp_all add: conv_err_def)

lemma rpost_fmtint [wp]:
  assumes "E SignedOverflow" "\<And>o2. o_size o2 = o_size o1 \<Longrightarrow> Q o2"
  shows "rpost E Q (fmtint env v base width precision flags o1)"
  unfolding fmtint_def
  by (intro rpost_Let rpost_if) (simp_all only: rpost_simps assms OUTCHARS_size)

lemma conv_signed_frame: "rpost conv_err (conv_frame st) (conv_signed env st)"
  unfolding conv_signed_def by (intro wp) (auto intro!: wp)

lemma conv_unsigned_frame: "rpost conv_err (conv_frame st) (conv_unsigned env st)"
  unfolding conv_unsigned_def by (intro rpost_Let rpost_bind rpost_unsigned_arg) (auto intro!: wp)

lemma conv_float_frame: "rpost conv_err (conv_frame st) (conv_float env st)"
  unfolding conv_float_def
  by (intro rpost_Let rpost_bind rpost_arg_float) (auto intro!: wp dest: fmtflt_size)

lemma conv_ptr_frame: "rpost conv_err (conv_frame st) (conv_ptr env st)"
  unfolding conv_ptr_def Let_def by (intro wp) (auto intro!: wp)

lemma conv_n_frame: "rpost conv_err (conv_frame st) (conv_n st)"
  unfolding conv_n_def by (intro wp) auto

lemma conv_switch_frame: "rpost conv_err (conv_frame st) (conv_switch env st)"
  unfolding conv_switch_def Let_def
  by (intro rpost_if conv_signed_frame conv_unsigned_frame conv_float_frame conv_ptr_frame conv_n_frame
      rpost_bind rpost_arg_int rpost_arg_str) simp_all

lemma step_conv_runs:
  assumes "v_state st = PRINT_S_CONV"
  shows "runs (vs_measure st) (step_conv env st)"
proof (cases "conv_switch env st")
  case (Inr r)
  then have "conv_frame st r" using rpost_InrD [OF conv_switch_frame] by blast
  then show ?thesis
    unfolding step_conv_def Inr
    by (cases r) (auto simp: vs_measure_def state_rank_def intro!: wp dest!: arg_cong [where f = length])
qed (simp add: step_conv_def)

lemma vs_step_runs: "runs (vs_measure st) (vs_step env st)"
  by (cases "v_state st")
    (simp_all add: vs_step_def step_default_runs step_flags_runs step_width_runs step_dot_runs
      step_precision_runs step_mod_runs step_conv_runs)

lemma vs_step_decreases: "vs_step env st = Inr (Go st1) \<Longrightarrow> vs_measure st1 < vs_measure st"
  using rpost_InrD [OF vs_step_runs] by fastforce

function vs_loop :: "'f fmt_env \<Rightarrow> 'f vs \<Rightarrow> fmt_ub + 'f vs" where
  "vs_loop env st =
     (if v_ch st = CHR 0x00 then Inr st
      else case vs_step env st of
             Inl e \<Rightarrow> Inl e
           | Inr (Over st1) \<Rightarrow> Inr st1
           | Inr (Go st1) \<Rightarrow> vs_loop env st1)"
  by pat_completeness auto

termination
  by (relation "measure (\<lambda>(env, st). vs_measure st)") (auto dest: vs_step_decreases)

declare vs_loop.simps [simp del]

text \<open>
  \<open>o_vsnprintf\<close>: \<open>None\<close> is the NULL buffer. The result has the returned value, \<open>errno\<close>, the buffer, the
  scratch buffer, and what \<open>%n\<close> stored. \<open>o_snprintf\<close> only gathers the arguments.
\<close>

datatype fmt_errno = EOVERFLOW | ERANGE

record fmt_result =
  r_ret :: int
  r_errno :: "fmt_errno option"
  r_buf :: "string option"
  r_scratch :: string
  r_stores :: "(nat \<times> cflag \<times> nat) list"

definition vs_init :: "string \<Rightarrow> string \<Rightarrow> 'f varg list \<Rightarrow> string \<Rightarrow> 'f vs" where
  "vs_init buf fmt args scratch =
     \<lparr>v_out = \<lparr>o_buf = buf, o_len = 0\<rparr>, v_overflow = False, v_base = 0, v_cflags = C_NONE, v_flags = 0,
      v_width = 0, v_precision = -1, v_state = PRINT_S_DEFAULT, v_ch = hd (fmt @ [CHR 0x00]),
      v_fmt = tl (fmt @ [CHR 0x00]), v_args = args, v_scratch = scratch, v_stores = []\<rparr>"

definition vs_finish :: "'f vs \<Rightarrow> fmt_result" where
  "vs_finish st =
     (let o1 = v_out st;
          buf = (if o_len o1 < o_size o1 then (o_buf o1)[o_len o1 := CHR 0x00]
                 else if 0 < o_size o1 then (o_buf o1)[o_size o1 - 1 := CHR 0x00] else o_buf o1);
          bad = (v_overflow st \<or> INT_MAX \<le> int (o_len o1))
      in \<lparr>r_ret = (if bad then -1 else int (o_len o1)),
          r_errno = (if bad then Some (if v_overflow st then EOVERFLOW else ERANGE) else None),
          r_buf = Some buf, r_scratch = v_scratch st, r_stores = v_stores st\<rparr>)"

definition o_vsnprintf ::
  "'f fmt_env \<Rightarrow> string option \<Rightarrow> string \<Rightarrow> 'f varg list \<Rightarrow> string \<Rightarrow> fmt_ub + fmt_result" where
  "o_vsnprintf env str fmt args scratch =
     (case str of
        None \<Rightarrow> Inr \<lparr>r_ret = 0, r_errno = None, r_buf = None, r_scratch = scratch, r_stores = []\<rparr>
      | Some buf \<Rightarrow>
          if buf = [] then Inr \<lparr>r_ret = 0, r_errno = None, r_buf = Some buf, r_scratch = scratch, r_stores = []\<rparr>
          else rbind (vs_loop env (vs_init buf fmt args scratch)) (\<lambda>st. Inr (vs_finish st)))"

end
