(* ===== verification/SnprintfProps.thy ===== *)
theory SnprintfProps
  imports MySnprintf
begin

text \<open>
  What \<open>o_vsnprintf\<close> guarantees: it stays inside its buffers, it ends the text with a NUL, its fast
  paths print the decimal digits of their argument, and its general conversions have the layout
  that the C standard asks for; and the formats for which the fast paths fail.
\<close>

section \<open>Decimal digits\<close>

fun dec_string :: "nat \<Rightarrow> string" where
  "dec_string n = (if n < 10 then [dec_digit n] else dec_string (n div 10) @ [dec_digit (n mod 10)])"

declare dec_string.simps [simp del]

definition int_string :: "int \<Rightarrow> string" where
  "int_string v = (if v < 0 then CHR ''-'' # dec_string (nat (- v)) else dec_string (nat v))"

text \<open>The number that a list of decimal digits denotes.\<close>

definition digit_val :: "char \<Rightarrow> nat" where
  "digit_val c = of_char c - 48"

definition dec_val :: "string \<Rightarrow> nat" where
  "dec_val cs = foldl (\<lambda>a c. 10 * a + digit_val c) 0 cs"

lemma digit_val_dec [simp]: "d < 10 \<Longrightarrow> digit_val (dec_digit d) = d"
  by (simp add: digit_val_def dec_digit_def)

lemma dec_val_string [simp]: "dec_val (dec_string n) = n"
proof (induction n rule: dec_string.induct)
  case (1 n)
  then show ?case
    by (subst dec_string.simps) (auto simp: dec_val_def)
qed

lemma dec_digit_inj: "d < 10 \<Longrightarrow> e < 10 \<Longrightarrow> dec_digit d = dec_digit e \<longleftrightarrow> d = e"
  using digit_val_dec by metis

lemma dec_digit_0 [simp]: "dec_digit 0 = CHR ''0''"
  by code_simp

lemma dec_digit_zero_iff [simp]: "d < 10 \<Longrightarrow> dec_digit d = CHR ''0'' \<longleftrightarrow> d = 0"
  using dec_digit_inj [of d 0] by simp

lemma dec_string_small: "n < 10 \<Longrightarrow> dec_string n = [dec_digit n]"
  by (subst dec_string.simps) simp

lemma dec_string_step: "10 \<le> n \<Longrightarrow> dec_string n = dec_string (n div 10) @ [dec_digit (n mod 10)]"
  by (subst dec_string.simps) simp

lemma dec_string_not_Nil [simp]: "dec_string n \<noteq> []"
  by (subst dec_string.simps) simp

lemma hd_dec_string: "0 < n \<Longrightarrow> hd (dec_string n) \<noteq> CHR ''0''"
proof (induction n rule: dec_string.induct)
  case (1 n)
  then show ?case by (subst dec_string.simps) (auto simp: hd_append div_greater_zero_iff)
qed

definition three :: "nat \<Rightarrow> string" where
  "three v = [dec_digit (v div 100), dec_digit (v div 10 mod 10), dec_digit (v mod 10)]"

lemma dec_string_three: "1000 \<le> v \<Longrightarrow> dec_string v = dec_string (v div 1000) @ three (v mod 1000)"
proof -
  assume v: "1000 \<le> v"
  have eqs: "v div 10 div 10 = v div 100" "v div 100 div 10 = v div 1000"
    by (simp_all flip: div_mult2_eq)
  have "dec_string v = dec_string (v div 1000) @ [dec_digit (v div 100 mod 10), dec_digit (v div 10 mod 10), dec_digit (v mod 10)]"
    using v by (simp add: dec_string_step eqs)
  moreover have "v mod 1000 div 100 = v div 100 mod 10" using mod_mult2_eq [of v 100 10] by simp
  moreover have "v mod 1000 div 10 = v div 10 mod 100" using mod_mult2_eq [of v 10 100] by simp
  moreover have "v mod 1000 mod 10 = v mod 10" "v div 10 mod 100 mod 10 = v div 10 mod 10"
    by (simp_all add: mod_mod_cancel)
  ultimately show ?thesis by (simp add: three_def)
qed

lemma three_small:
  assumes "0 < v" "v < 1000"
  obtains z where "z \<le> 2" "three v = replicate z CHR ''0'' @ dec_string v"
proof -
  consider "v < 10" | "10 \<le> v" "v < 100" | "100 \<le> v" using assms by linarith
  then show thesis
  proof cases
    case 1
    then have "three v = replicate 2 CHR ''0'' @ dec_string v"
      by (simp add: three_def dec_string_small numeral_2_eq_2)
    then show thesis using that [of 2] by simp
  next
    case 2
    then have "v div 10 < 10" "v div 10 mod 10 = v div 10" by auto
    with 2 have "three v = replicate 1 CHR ''0'' @ dec_string v"
      by (simp add: three_def dec_string_step dec_string_small)
    then show thesis using that [of 1] by simp
  next
    case 3
    then have "v div 100 < 10" "v div 10 div 10 = v div 100" using assms(2) by (auto simp flip: div_mult2_eq)
    with 3 have "three v = replicate 0 CHR ''0'' @ dec_string v"
      by (simp add: three_def dec_string_step dec_string_small)
    then show thesis using that [of 0] by simp
  qed
qed

section \<open>The digit loop\<close>

lemma length_atoi_tab [simp]: "length atoi_tab = 4000"
  by (simp add: atoi_tab_def length_concat o_def sum_list_replicate map_replicate_const)

lemma nth_concat4:
  assumes "\<And>i. length (f i) = 4" "j < 4" "i < n"
  shows "concat (map f [0..<n]) ! (4 * i + j) = f i ! j"
  using assms(3)
proof (induction n)
  case (Suc n)
  have len: "length (concat (map f [0..<n])) = 4 * n"
    using assms(1) by (simp add: length_concat o_def sum_list_triv)
  show ?case
  proof (cases "i = n")
    case True
    then show ?thesis using len by (simp add: nth_append)
  next
    case False
    then have "4 * i + j < 4 * n" using Suc.prems assms(2) by linarith
    then show ?thesis using Suc False len by (simp add: nth_append)
  qed
qed simp

lemma atoi_tab_nth:
  assumes "i < 1000" "j < 3"
  shows "atoi_tab ! (4 * i + j) = three i ! j"
proof -
  let ?f = "\<lambda>i. [dec_digit (i div 100), dec_digit (i div 10 mod 10), dec_digit (i mod 10), CHR 0x00]"
  have "atoi_tab ! (4 * i + j) = ?f i ! j"
    unfolding atoi_tab_def using assms by (intro nth_concat4) simp_all
  also have "?f i = three i @ [CHR 0x00]" by (simp add: three_def)
  also have "(three i @ [CHR 0x00]) ! j = three i ! j"
    using assms(2) by (subst nth_append) (simp add: three_def)
  finally show ?thesis .
qed

lemma update_three:
  assumes "2 \<le> s" "s < length xs"
  shows "xs[s := c, s - 1 := b, s - 2 := a] = take (s - 2) xs @ [a, b, c] @ drop (Suc s) xs"
proof -
  define p where "p = take (s - 2) xs"
  have "drop (s - 2) xs = xs ! (s - 2) # xs ! (s - 1) # xs ! s # drop (Suc s) xs"
    using assms Cons_nth_drop_Suc [of "s - 2" xs] Cons_nth_drop_Suc [of "s - 1" xs] Cons_nth_drop_Suc [of s xs]
    by (simp add: Suc_diff_le numeral_2_eq_2 Suc_diff_Suc)
  then have xs: "xs = p @ [xs ! (s - 2), xs ! (s - 1), xs ! s] @ drop (Suc s) xs"
    unfolding p_def by (metis append_Cons append_Nil append_take_drop_id)
  have "length p = s - 2" using assms by (simp add: p_def)
  then have idx: "s = length p + 2" "s - 1 = length p + 1" "s - 2 = length p" using assms by auto
  have "(p @ [x, y, z] @ q)[length p + 2 := c, length p + 1 := b, length p := a] = p @ [a, b, c] @ q" for x y z q
    by (simp add: list_update_append)
  then have "xs[s := c, s - 1 := b, s - 2 := a] = p @ [a, b, c] @ drop (Suc s) xs"
    using xs idx by metis
  then show ?thesis by (simp add: p_def)
qed

lemma digit_loop_unfold:
  assumes "2 \<le> s" "s < length scratch"
  shows "digit_loop v s scratch =
    (let scratch1 = take (s - 2) scratch @ three (v mod 1000) @ drop (Suc s) scratch
     in if 0 < v div 1000 then digit_loop (v div 1000) (s - 3) scratch1 else Inr (s - 2, scratch1))"
proof -
  have i: "v - 1000 * (v div 1000) = v mod 1000" by (simp add: minus_mult_div_eq_mod)
  have t: "v mod 1000 < 1000" by simp
  let ?ap = "2 + 4 * (v mod 1000)"
  have ap: "?ap < 4000" "4 * (v mod 1000) + 2 = ?ap" "4 * (v mod 1000) + 1 = ?ap - 1" "4 * (v mod 1000) + 0 = ?ap - 2"
    using t by linarith+
  have "scratch[s := atoi_tab ! ?ap, s - 1 := atoi_tab ! (?ap - 1), s - 2 := atoi_tab ! (?ap - 2)] =
      take (s - 2) scratch @ three (v mod 1000) @ drop (Suc s) scratch"
    using atoi_tab_nth [OF t, of 0] atoi_tab_nth [OF t, of 1] atoi_tab_nth [OF t, of 2]
    unfolding update_three [OF assms] ap by (simp add: three_def)
  then show ?thesis
    using assms ap(1) by (subst digit_loop.simps) (simp only: i Let_def length_atoi_tab not_le [symmetric] if_False simp_thms)
qed

text \<open>The loop leaves the digits at the end of the scratch buffer, after at most two zeros.\<close>

lemma digit_loop_ok:
  assumes "0 < v" "v < 1000 ^ k" "3 * k \<le> Suc s" "s < length scratch"
  shows "\<exists>z p. z \<le> 2 \<and> p + z + length (dec_string v) = Suc s \<and>
    digit_loop v s scratch = Inr (p, take p scratch @ replicate z CHR ''0'' @ dec_string v @ drop (Suc s) scratch)"
  using assms
proof (induction k arbitrary: v s scratch)
  case (Suc k)
  have s: "2 \<le> s" "s - 2 \<le> length scratch" using Suc.prems(3,4) by auto
  let ?sc = "take (s - 2) scratch @ three (v mod 1000) @ drop (Suc s) scratch"
  have three [simp]: "length (three u) = 3" for u by (simp add: three_def)
  note unfold = digit_loop_unfold [OF s(1) Suc.prems(4), of v]
  show ?case
  proof (cases "0 < v div 1000")
    case True
    then have "3 \<le> s" "v div 1000 < 1000 ^ k"
      using Suc.prems by (cases k; auto simp: less_mult_imp_div_less mult.commute)+
    moreover have "3 * k \<le> Suc (s - 3)" "s - 3 < length ?sc" using \<open>3 \<le> s\<close> Suc.prems(3,4) by auto
    ultimately obtain z p where z: "z \<le> 2" and p: "p + z + length (dec_string (v div 1000)) = Suc (s - 3)"
      and run: "digit_loop (v div 1000) (s - 3) ?sc =
        Inr (p, take p ?sc @ replicate z CHR ''0'' @ dec_string (v div 1000) @ drop (Suc (s - 3)) ?sc)"
      using Suc.IH [OF True, of "s - 3" ?sc] by blast
    have "take p ?sc = take p scratch" using p \<open>3 \<le> s\<close> Suc.prems(4) by simp
    moreover have "drop (Suc (s - 3)) ?sc = three (v mod 1000) @ drop (Suc s) scratch"
      using \<open>3 \<le> s\<close> Suc.prems(4) by simp
    moreover have "dec_string v = dec_string (v div 1000) @ three (v mod 1000)"
      using True by (intro dec_string_three) (simp add: div_greater_zero_iff)
    ultimately show ?thesis
      using unfold run True z p \<open>3 \<le> s\<close> by (intro exI [of _ z] exI [of _ p]) simp
  next
    case False
    then have "v < 1000" by (simp add: div_greater_zero_iff)
    then obtain z where z: "z \<le> 2" "three v = replicate z CHR ''0'' @ dec_string v"
      using three_small Suc.prems(1) by blast
    from z(2) have "z + length (dec_string v) = 3" by (metis three length_append length_replicate)
    then show ?thesis
      using unfold False z s \<open>v < 1000\<close> by (intro exI [of _ z] exI [of _ "s - 2"]) simp
  qed
qed simp

lemma skip_zeros_ok:
  assumes "c \<noteq> CHR ''0''"
  shows "skip_zeros (length p) (p @ replicate z CHR ''0'' @ c # cs) = Inr (length p + z)"
proof (induction z arbitrary: p)
  case 0
  then show ?case using assms by (subst skip_zeros.simps) simp
next
  case (Suc z)
  have "skip_zeros (length p) (p @ replicate (Suc z) CHR ''0'' @ c # cs) =
      skip_zeros (Suc (length p)) (p @ replicate (Suc z) CHR ''0'' @ c # cs)"
    by (subst skip_zeros.simps) simp
  also have "\<dots> = Inr (length p + Suc z)"
    using Suc [of "p @ ''0''"] by simp
  finally show ?case .
qed

text \<open>Text written at the position \<open>len\<close> without a byte for the NUL.\<close>

definition put_text :: "string \<Rightarrow> out \<Rightarrow> out" where
  "put_text cs o1 =
     (let t = take (o_size o1 - o_len o1) cs
      in o1\<lparr>o_buf := take (o_len o1) (o_buf o1) @ t @ drop (o_len o1 + length t) (o_buf o1),
            o_len := o_len o1 + length t\<rparr>)"

lemma copy_digits_put:
  assumes "o_len o1 \<le> o_size o1" "s \<le> length sc"
  shows "copy_digits s sc o1 = Inr (put_text (drop s sc) o1)"
proof -
  define m where "m = min (length sc - s) (o_size o1 - o_len o1)"
  have n: "(if o_len o1 + (length sc - s) < o_size o1 then length sc - s else o_size o1 - o_len o1) = m"
    using assms(1) by (simp add: m_def)
  have t: "take (o_size o1 - o_len o1) (drop s sc) = take m (drop s sc)" by (simp add: m_def min_def)
  have "length (take m (drop s sc)) = m" by (simp add: m_def)
  moreover have "o_len o1 + m \<le> o_size o1" "s + m \<le> length sc" using assms by (auto simp: m_def)
  ultimately show ?thesis
    unfolding copy_digits_def put_text_def Let_def n t by (simp only: not_less [symmetric] if_False simp_thms)
qed

lemma digits_written:
  assumes "0 < v" "v < 10 ^ 30" "length scratch = 32" "o_len o1 \<le> o_size o1"
  shows "\<exists>sc. length sc = 32 \<and>
    rbind (digit_loop v 31 scratch) (\<lambda>(s, scratch). rbind (skip_zeros s scratch) (\<lambda>s1.
      rbind (copy_digits s1 scratch o1) (\<lambda>o2. f o2 scratch))) = f (put_text (dec_string v) o1) sc"
proof -
  have "v < 1000 ^ 10" using assms(2) by simp
  with assms obtain z p where p: "p + z + length (dec_string v) = 32"
    and run: "digit_loop v 31 scratch = Inr (p, take p scratch @ replicate z CHR ''0'' @ dec_string v)"
    using digit_loop_ok [of v 10 31 scratch] by auto
  let ?sc = "take p scratch @ replicate z CHR ''0'' @ dec_string v"
  obtain c cs where c: "dec_string v = c # cs" "c \<noteq> CHR ''0''"
    using hd_dec_string [OF assms(1)] by (metis dec_string_not_Nil list.exhaust_sel)
  have len: "length (take p scratch) = p" "length ?sc = 32" using p assms(3) by auto
  then have skip: "skip_zeros p ?sc = Inr (p + z)"
    using skip_zeros_ok [OF c(2), of "take p scratch" z cs] c(1) by simp
  have "drop (p + z) ?sc = dec_string v" using len by simp
  then have "copy_digits (p + z) ?sc o1 = Inr (put_text (dec_string v) o1)"
    using copy_digits_put [OF assms(4), of "p + z" ?sc] len p by simp
  with run skip len show ?thesis by (intro exI [of _ ?sc]) simp
qed

text \<open>An integer fast path writes the decimal representation of its argument, cut off at the end of the buffer.\<close>

lemma put_text_Cons:
  assumes "o_len o1 < o_size o1"
  shows "put_text cs (o1\<lparr>o_buf := (o_buf o1)[o_len o1 := c], o_len := Suc (o_len o1)\<rparr>) = put_text (c # cs) o1"
  using assms
  by (simp add: put_text_def Let_def o_size_def Suc_diff_Suc [symmetric] take_Suc_conv_app_nth take_update_swap
      list_update_append drop_update_swap flip: Suc_diff_Suc)

lemma put_text_size [simp]: "o_len o1 \<le> o_size o1 \<Longrightarrow> o_size (put_text cs o1) = o_size o1"
  by (auto simp: put_text_def Let_def o_size_def)

lemma fast_int_ok:
  assumes "v \<noteq> 0" "v \<noteq> least" "\<bar>v\<bar> < 10 ^ 30" "length (v_scratch st) = 32" "o_len (v_out st) + 1 < o_size (v_out st)"
  shows "\<exists>sc. length sc = 32 \<and> fast_int v least k st =
    rbind (fmt_skip k (st\<lparr>v_out := put_text (int_string v) (v_out st), v_scratch := sc\<rparr>)) back_to_default"
proof -
  let ?n = "nat \<bar>v\<bar>" and ?o = "v_out st"
  let ?go = "\<lambda>o2 sc. rbind (fmt_skip k (st\<lparr>v_out := o2, v_scratch := sc\<rparr>)) back_to_default"
  have n: "0 < ?n" "?n < 10 ^ 30" using assms by auto
  show ?thesis
  proof (cases "v < 0")
    case True
    let ?o1 = "?o\<lparr>o_buf := (o_buf ?o)[o_len ?o := CHR ''-''], o_len := Suc (o_len ?o)\<rparr>"
    have "o_len ?o1 \<le> o_size ?o1" using assms(5) by (simp add: o_size_def)
    from digits_written [OF n assms(4) this, of ?go]
    show ?thesis
      using True assms put_text_Cons [of ?o "dec_string ?n" "CHR ''-''"]
      by (auto simp: fast_int_def out_put_def int_string_def)
  next
    case False
    have "o_len ?o \<le> o_size ?o" using assms(5) by simp
    from digits_written [OF n assms(4) this, of ?go]
    show ?thesis using False assms by (auto simp: fast_int_def int_string_def)
  qed
qed

section \<open>Memory safety\<close>

text \<open>
  The invariant of the loop: the output buffer keeps its size, the scratch buffer has 32 bytes, and
  the character read last is the NUL of the format or the NUL is still ahead.
\<close>

definition vs_inv :: "nat \<Rightarrow> 'f vs \<Rightarrow> bool" where
  "vs_inv n st \<longleftrightarrow> o_size (v_out st) = n \<and> length (v_scratch st) = 32 \<and>
     (v_ch st = CHR 0x00 \<or> CHR 0x00 \<in> set (v_fmt st))"

definition vs_live :: "nat \<Rightarrow> 'f vs \<Rightarrow> bool" where
  "vs_live n st \<longleftrightarrow> o_size (v_out st) = n \<and> length (v_scratch st) = 32 \<and> CHR 0x00 \<in> set (v_fmt st)"

definition round_inv :: "nat \<Rightarrow> 'f vround \<Rightarrow> bool" where
  "round_inv n r = (case r of Go st \<Rightarrow> vs_inv n st | Over st \<Rightarrow> o_size (v_out st) = n)"

definition safe_err :: "fmt_ub \<Rightarrow> bool" where
  "safe_err e \<longleftrightarrow> e \<noteq> OutOfBounds \<and> e \<noteq> FormatOverrun"

lemma round_inv_simps [simp]:
  "round_inv n (Go st) = vs_inv n st" "round_inv n (Over st) \<longleftrightarrow> o_size (v_out st) = n"
  by (simp_all add: round_inv_def)

lemma safe_err_simps [simp]: "safe_err BadArgument" "safe_err SignedOverflow" "safe_err TableRange"
  by (simp_all add: safe_err_def)

lemma vs_live_inv: "vs_live n st \<Longrightarrow> vs_inv n st"
  by (simp add: vs_live_def vs_inv_def)

lemma fetch_inv [wp]:
  assumes "vs_live n st" "\<And>st1. vs_inv n st1 \<Longrightarrow> v_state st1 = v_state st \<Longrightarrow> Q st1"
  shows "rpost safe_err Q (fetch st)"
  using assms by (intro rpost_fetch) (auto simp: vs_live_def vs_inv_def)

abbreviation safe_round :: "nat \<Rightarrow> fmt_ub + 'f vround \<Rightarrow> bool" where
  "safe_round n r \<equiv> rpost safe_err (round_inv n) r"

lemma back_to_default_safe: "vs_live n st \<Longrightarrow> safe_round n (back_to_default st)"
  unfolding back_to_default_def by (intro rpost_bind fetch_inv) (auto simp: vs_live_def)

lemma rpost_out_put [wp]:
  "o_len o1 < o_size o1 \<Longrightarrow> (\<And>o2. o_size o2 = o_size o1 \<Longrightarrow> o_len o2 = Suc (o_len o1) \<Longrightarrow> Q o2) \<Longrightarrow>
   rpost E Q (out_put c o1)"
  by (simp add: out_put_def o_size_def)

lemma fast_copy_size: "o_size o1 = n \<Longrightarrow> rpost E (\<lambda>o2. o_size o2 = n) (fast_copy cs o1)"
  by (induction cs arbitrary: o1) (auto intro!: wp)

lemmas fast_copy_safe = fast_copy_size [OF refl]

lemma safe_arg_int:
  "(\<And>w as. safe_round n (f w (st\<lparr>v_args := as\<rparr>))) \<Longrightarrow> safe_round n (rbind (arg_int st) (\<lambda>(w, st1). f w st1))"
  by (auto intro!: wp)

lemma safe_arg_long:
  "(\<And>w as. safe_round n (f w (st\<lparr>v_args := as\<rparr>))) \<Longrightarrow> safe_round n (rbind (arg_long st) (\<lambda>(w, st1). f w st1))"
  by (auto intro!: wp)

lemma fast_c_safe: "vs_live n st \<Longrightarrow> safe_round n (fast_c st)"
  unfolding fast_c_def
  by (intro safe_arg_int rpost_bind rpost_if rpost_out_put)
    (auto simp: vs_live_def intro!: back_to_default_safe)

lemma fast_s_safe: "vs_live n st \<Longrightarrow> safe_round n (fast_s st)"
  unfolding fast_s_def
  by (intro rpost_bind rpost_arg_str)
    (auto split: option.split intro!: rpost_bind rpost_mono [OF fast_copy_safe] back_to_default_safe simp: vs_live_def)

lemma fast_N_safe: "vs_live n st \<Longrightarrow> safe_round n (fast_N st)"
  unfolding fast_N_def
  by (intro safe_arg_int rpost_Let rpost_bind rpost_if rpost_out_put)
    (auto simp: vs_live_def intro!: back_to_default_safe)

lemma fast_int_safe:
  assumes "vs_live n st" "\<bar>v\<bar> < 10 ^ 30" "k \<le> length (v_fmt st)" "CHR 0x00 \<in> set (drop k (v_fmt st))"
  shows "safe_round n (fast_int v least k st)"
proof -
  consider "o_size (v_out st) \<le> o_len (v_out st) + 1" | "v = 0" "o_len (v_out st) + 1 < o_size (v_out st)"
    | "v \<noteq> 0" "v = least" "o_len (v_out st) + 1 < o_size (v_out st)"
    | "v \<noteq> 0" "v \<noteq> least" "o_len (v_out st) + 1 < o_size (v_out st)" by linarith
  then show ?thesis
  proof cases
    case 1
    then show ?thesis using assms(1) by (simp add: fast_int_def vs_live_def)
  next
    case 2
    then show ?thesis
      using assms(1) unfolding fast_int_def
      by (auto intro!: rpost_bind rpost_out_put back_to_default_safe simp: vs_live_def)
  next
    case 3
    then show ?thesis
    proof (cases "v < 0")
      case False
      let ?go = "\<lambda>o2 sc. rbind (fmt_skip k (st\<lparr>v_out := o2, v_scratch := sc\<rparr>)) back_to_default"
      from 3 False have "0 < nat \<bar>v\<bar>" "nat \<bar>v\<bar> < 10 ^ 30" using assms(2) by auto
      from digits_written [OF this, of "v_scratch st" "v_out st" ?go] 3 assms
      obtain sc where "length sc = 32" "fast_int v least k st = ?go (put_text (dec_string (nat \<bar>v\<bar>)) (v_out st)) sc"
        using False by (auto simp: fast_int_def vs_live_def)
      with 3 assms show ?thesis by (auto simp: fmt_skip_def vs_live_def intro!: back_to_default_safe)
    qed (simp add: fast_int_def)
  next
    case 4
    with fast_int_ok [of v least st k] assms
    obtain sc where "length sc = 32" and "fast_int v least k st =
        rbind (fmt_skip k (st\<lparr>v_out := put_text (int_string v) (v_out st), v_scratch := sc\<rparr>)) back_to_default"
      by (auto simp: vs_live_def)
    with 4 assms show ?thesis by (auto simp: fmt_skip_def vs_live_def intro!: back_to_default_safe)
  qed
qed

lemma uint_bound: "\<bar>uint (w :: 64 word)\<bar> < 10 ^ 30" "\<bar>uint (u :: 32 word)\<bar> < 10 ^ 30"
  using uint_bounded [of w] uint_bounded [of u] by simp_all

lemma sint_bound: "\<bar>sint (w :: 64 word)\<bar> < 10 ^ 30" "\<bar>sint (u :: 32 word)\<bar> < 10 ^ 30"
  using sint_range_size [of w] sint_range_size [of u] by (auto simp: word_size)

lemma fast_word_safe:
  assumes "vs_live n st"
  shows "safe_round n (fast_d st)" "safe_round n (fast_u st)"
  unfolding fast_d_def fast_u_def using assms
  by (intro safe_arg_int fast_int_safe uint_bound sint_bound; simp add: vs_live_def)+

lemma fast_long_safe:
  assumes "vs_live n st" "k \<le> length (v_fmt st)" "CHR 0x00 \<in> set (drop k (v_fmt st))"
  shows "k = 1 \<Longrightarrow> safe_round n (fast_ld st)" "k = 1 \<Longrightarrow> safe_round n (fast_lu st)"
    "k = 2 \<Longrightarrow> safe_round n (fast_lld st)" "k = 2 \<Longrightarrow> safe_round n (fast_llu st)"
  unfolding fast_ld_def fast_lu_def fast_lld_def fast_llu_def using assms
  by (intro safe_arg_long fast_int_safe uint_bound sint_bound; simp add: vs_live_def)+

lemma fast_l_safe:
  assumes "vs_live n st"
  shows "safe_round n (fast_l st)"
proof -
  from assms have "CHR 0x00 \<in> set (v_fmt st)" by (simp add: vs_live_def)
  then obtain c cs where c: "v_fmt st = c # cs" "c = CHR 0x00 \<or> CHR 0x00 \<in> set cs" by (cases "v_fmt st") auto
  have width: "safe_round n (Inr (Go (st\<lparr>v_state := PRINT_S_WIDTH\<rparr>)))"
    using assms by (simp add: vs_live_def vs_inv_def)
  show ?thesis
  proof (cases "c = CHR ''l''")
    case True
    with c obtain d ds where d: "cs = d # ds" "d = CHR 0x00 \<or> CHR 0x00 \<in> set ds" by (cases cs) auto
    then show ?thesis
      using True c assms width fast_long_safe(3,4) [of n st 2]
      unfolding fast_l_def by (auto simp: peek_def)
  next
    case False
    then show ?thesis
      using c assms width fast_long_safe(1,2) [of n st 1]
      unfolding fast_l_def by (auto simp: peek_def)
  qed
qed

lemma add_flag_safe: "vs_live n st \<Longrightarrow> safe_round n (add_flag f st)"
  unfolding add_flag_def by (intro rpost_bind fetch_inv) (auto simp: vs_live_def)

lemma step_flags_safe: "vs_live n st \<Longrightarrow> safe_round n (step_flags st)"
  unfolding step_flags_def
  by (intro rpost_Let rpost_if add_flag_safe fast_c_safe fast_s_safe fast_word_safe fast_l_safe fast_N_safe)
    (simp_all add: vs_live_def vs_inv_def)

lemma step_default_safe: "vs_live n st \<Longrightarrow> safe_round n (step_default st)"
  unfolding step_default_def by (intro rpost_bind fetch_inv) (auto simp: vs_live_def)

lemma step_width_safe: "vs_live n st \<Longrightarrow> safe_round n (step_width st)"
  unfolding step_width_def
  by (intro rpost_Let rpost_if rpost_bind safe_arg_int fetch_inv) (auto simp: vs_live_def vs_inv_def)

lemma step_dot_safe: "vs_live n st \<Longrightarrow> safe_round n (step_dot st)"
  unfolding step_dot_def
  by (intro rpost_if rpost_bind fetch_inv) (auto simp: vs_live_def vs_inv_def)

lemma step_precision_safe: "vs_live n st \<Longrightarrow> safe_round n (step_precision st)"
  unfolding step_precision_def
  by (intro rpost_Let rpost_if rpost_bind safe_arg_int fetch_inv) (auto simp: vs_live_def vs_inv_def)

text \<open>A second modifier character is fetched only after one that is not the NUL.\<close>

lemma fetch_twice_safe:
  assumes "vs_live n st" "c \<noteq> CHR 0x00"
  shows "rpost safe_err (vs_inv n)
    (rbind (fetch st) (\<lambda>st1. if v_ch st1 = c then rbind (fetch st1) (\<lambda>st2. Inr (st2\<lparr>v_cflags := two\<rparr>))
       else Inr (st1\<lparr>v_cflags := one\<rparr>)))"
  using assms
  by (intro rpost_bind fetch_inv rpost_if) (auto simp: vs_live_def vs_inv_def)

lemma fetch_once_safe:
  "vs_live n st \<Longrightarrow> rpost safe_err (vs_inv n) (rbind (fetch (st\<lparr>v_cflags := c\<rparr>)) Inr)"
  by (intro rpost_bind fetch_inv) (auto simp: vs_live_def)

lemma step_mod_safe:
  assumes "vs_live n st"
  shows "safe_round n (step_mod st)"
proof -
  have round: "safe_round n (rbind r (\<lambda>st1. Inr (Go (st1\<lparr>v_state := PRINT_S_CONV\<rparr>))))"
    if "rpost safe_err (vs_inv n) r" for r
    using that by (cases r) (auto simp: vs_inv_def)
  show ?thesis
    unfolding step_mod_def Let_def
    by (intro round rpost_if fetch_twice_safe fetch_once_safe assms) (simp_all add: vs_live_inv assms)
qed

lemma step_conv_safe:
  assumes "vs_live n st"
  shows "safe_round n (step_conv env st)"
proof (cases "conv_switch env st")
  case (Inl e)
  then have "conv_err e" using rpost_InlD [OF conv_switch_frame] by blast
  then show ?thesis by (auto simp: step_conv_def Inl conv_err_def)
next
  case (Inr r)
  then have "conv_frame st r" using rpost_InrD [OF conv_switch_frame] by blast
  show ?thesis
  proof (cases r)
    case (Go st1)
    with \<open>conv_frame st r\<close> assms have "vs_live n st1" by (simp add: vs_live_def)
    then show ?thesis
      unfolding step_conv_def Inr Go by (auto simp: vs_inv_def intro!: rpost_bind fetch_inv)
  qed (use \<open>conv_frame st r\<close> assms in \<open>simp add: step_conv_def Inr vs_live_def\<close>)
qed

lemma vs_step_safe: "vs_live n st \<Longrightarrow> safe_round n (vs_step env st)"
  by (cases "v_state st")
    (simp_all add: vs_step_def step_default_safe step_flags_safe step_width_safe step_dot_safe
      step_precision_safe step_mod_safe step_conv_safe)

lemma vs_loop_safe:
  "vs_inv n st \<Longrightarrow> rpost safe_err (\<lambda>st1. o_size (v_out st1) = n) (vs_loop env st)"
proof (induction env st rule: vs_loop.induct)
  case (1 env st)
  show ?case
  proof (cases "v_ch st = CHR 0x00")
    case False
    with 1 have "vs_live n st" by (auto simp: vs_inv_def vs_live_def)
    from vs_step_safe [OF this, of env] False 1 show ?thesis
      by (subst vs_loop.simps) (auto split: sum.split vround.split)
  qed (use 1 in \<open>subst vs_loop.simps; simp add: vs_inv_def\<close>)
qed

lemma vs_init_inv: "buf \<noteq> [] \<Longrightarrow> length scratch = 32 \<Longrightarrow> vs_inv (length buf) (vs_init buf fmt args scratch)"
  by (cases fmt) (auto simp: vs_inv_def vs_init_def o_size_def)

lemma vs_finish_terminated:
  assumes "o_size (v_out st) = n" "0 < n"
  shows "\<exists>b i. r_buf (vs_finish st) = Some b \<and> length b = n \<and> i < n \<and> b ! i = CHR 0x00 \<and>
    (r_ret (vs_finish st) = -1 \<or> r_ret (vs_finish st) = int (o_len (v_out st)) \<and> i = min (o_len (v_out st)) (n - 1))"
proof -
  let ?i = "min (o_len (v_out st)) (n - 1)"
  have i: "?i = (if o_len (v_out st) < n then o_len (v_out st) else n - 1)" using assms by auto
  have "r_buf (vs_finish st) = Some ((o_buf (v_out st))[?i := CHR 0x00])"
    using assms by (simp add: vs_finish_def Let_def i)
  moreover have "r_ret (vs_finish st) = -1 \<or> r_ret (vs_finish st) = int (o_len (v_out st))"
    by (simp add: vs_finish_def Let_def)
  moreover have "?i < n" using assms by (simp add: i)
  ultimately show ?thesis
    using assms by (intro exI [of _ "(o_buf (v_out st))[?i := CHR 0x00]"] exI [of _ ?i]) (auto simp: o_size_def)
qed


text \<open>An instance of the parameters for concrete runs: no separators and natural numbers as numbers.\<close>

definition nat_flops :: "nat flops" where
  "nat_flops = \<lparr>fl_of = unat, fl_half = 0, fl_neg = (\<lambda>x. x), fl_add = (+), fl_sub = (-), fl_mul = (*), fl_div = (div),
     fl_less = (<), fl_le = (\<le>), fl_eq = (=), fl_trunc = of_nat\<rparr>"

definition c_env :: "nat fmt_env" where
  "c_env = \<lparr>e_thousands_sep = None, e_decimal_point = None, e_flops = nat_flops\<rparr>"


section \<open>Text that fits\<close>

text \<open>The output state with the text \<open>tx\<close> written over the buffer \<open>buf\<close>.\<close>

definition holds :: "string \<Rightarrow> string \<Rightarrow> out" where
  "holds buf tx = \<lparr>o_buf = tx @ drop (length tx) buf, o_len = length tx\<rparr>"

lemma holds_size [simp]: "length tx \<le> length buf \<Longrightarrow> o_size (holds buf tx) = length buf"
  by (simp add: holds_def o_size_def)

lemma holds_len [simp]: "o_len (holds buf tx) = length tx"
  by (simp add: holds_def)

lemma OUTCHAR_holds: "length tx + 1 < length buf \<Longrightarrow> OUTCHAR c (holds buf tx) = holds buf (tx @ [c])"
  by (auto simp: OUTCHAR_def holds_def o_size_def list_update_append Cons_nth_drop_Suc [symmetric])

lemma OUTCHARS_holds:
  "length tx + length cs < length buf \<Longrightarrow> OUTCHARS cs (holds buf tx) = holds buf (tx @ cs)"
proof (induction cs arbitrary: tx)
  case (Cons c cs)
  then have "OUTCHARS cs (holds buf (tx @ [c])) = holds buf ((tx @ [c]) @ cs)" by (intro Cons.IH) simp
  then show ?case using Cons.prems by (simp add: OUTCHARS_def OUTCHAR_holds)
qed (simp add: OUTCHARS_def)

lemma put_text_holds:
  "length tx + length cs < length buf \<Longrightarrow> put_text cs (holds buf tx) = holds buf (tx @ cs)"
  by (simp add: put_text_def holds_def o_size_def add.commute)

lemma vs_init_holds: "v_out (vs_init buf fmt args scratch) = holds buf []"
  by (simp add: vs_init_def holds_def)

text \<open>The result for a text that fits.\<close>

definition ok_result :: "string \<Rightarrow> string \<Rightarrow> string \<Rightarrow> fmt_result" where
  "ok_result buf tx scratch =
     \<lparr>r_ret = int (length tx), r_errno = None, r_buf = Some (tx @ CHR 0x00 # drop (Suc (length tx)) buf),
      r_scratch = scratch, r_stores = []\<rparr>"

lemma vs_finish_holds:
  assumes "v_out st = holds buf tx" "\<not> v_overflow st" "v_stores st = []" "length tx < length buf" "int (length tx) < INT_MAX"
  shows "vs_finish st = ok_result buf tx (v_scratch st)"
  using assms
  by (simp add: vs_finish_def ok_result_def Let_def holds_def o_size_def list_update_append Cons_nth_drop_Suc [symmetric])

text \<open>A format without conversions is copied.\<close>

definition literal :: "string \<Rightarrow> bool" where
  "literal cs \<longleftrightarrow> (\<forall>c \<in> set cs. c \<noteq> CHR ''%'' \<and> c \<noteq> CHR 0x00)"

text \<open>The state before the characters \<open>fmt\<close>, with the NUL at their end.\<close>

definition at_format :: "string \<Rightarrow> 'f vs \<Rightarrow> 'f vs" where
  "at_format fmt st = st\<lparr>v_ch := hd (fmt @ [CHR 0x00]), v_fmt := tl (fmt @ [CHR 0x00])\<rparr>"

lemma at_format_Cons: "at_format (c # cs) st = st\<lparr>v_ch := c, v_fmt := cs @ [CHR 0x00]\<rparr>"
  by (simp add: at_format_def)

lemma fetch_at_format: "v_fmt st = cs @ [CHR 0x00] \<Longrightarrow> fetch st = Inr (at_format cs st)"
  by (cases cs) (simp_all add: fetch_def at_format_def)

lemma loop_step:
  assumes "v_ch st \<noteq> CHR 0x00" "vs_step env st = Inr (Go st1)"
  shows "vs_loop env st = vs_loop env st1"
  using assms by (subst vs_loop.simps) simp

lemma vs_out_id: "v_out st = o1 \<Longrightarrow> st\<lparr>v_out := o1\<rparr> = st"
  by (cases st) simp

lemma loop_literal:
  assumes "literal lit" "v_state st = PRINT_S_DEFAULT" "v_out st = holds buf tx" "length tx + length lit < length buf"
  shows "vs_loop env (at_format (lit @ fmt) st) = vs_loop env (at_format fmt (st\<lparr>v_out := holds buf (tx @ lit)\<rparr>))"
  using assms
proof (induction lit arbitrary: st tx)
  case (Cons c lit)
  let ?st = "st\<lparr>v_out := holds buf (tx @ [c])\<rparr>"
  have "vs_step env (at_format ((c # lit) @ fmt) st) = Inr (Go (at_format (lit @ fmt) ?st))"
    using Cons.prems
    by (simp add: vs_step_def step_default_def at_format_Cons literal_def OUTCHAR_holds fetch_at_format [of _ "lit @ fmt"])
      (simp add: at_format_def)
  moreover have "v_ch (at_format ((c # lit) @ fmt) st) \<noteq> CHR 0x00"
    using Cons.prems by (simp add: at_format_Cons literal_def)
  ultimately have "vs_loop env (at_format ((c # lit) @ fmt) st) = vs_loop env (at_format (lit @ fmt) ?st)"
    by (intro loop_step)
  also have "\<dots> = vs_loop env (at_format fmt (?st\<lparr>v_out := holds buf ((tx @ [c]) @ lit)\<rparr>))"
    using Cons.prems by (intro Cons.IH) (auto simp: literal_def)
  finally show ?case by simp
qed (simp add: vs_out_id)

lemma loop_end: "vs_loop env (at_format [] st) = Inr (at_format [] st)"
  by (subst vs_loop.simps) (simp add: at_format_def)

lemma loop_percent:
  assumes "v_state st = PRINT_S_DEFAULT"
  shows "vs_loop env (at_format (CHR ''%'' # fmt) st) = vs_loop env (at_format fmt (st\<lparr>v_state := PRINT_S_FLAGS\<rparr>))"
proof (rule loop_step)
  show "vs_step env (at_format (CHR ''%'' # fmt) st) = Inr (Go (at_format fmt (st\<lparr>v_state := PRINT_S_FLAGS\<rparr>)))"
    using assms
    by (simp add: vs_step_def step_default_def at_format_Cons fetch_at_format [of _ fmt]) (simp add: at_format_def)
qed (simp add: at_format_Cons)

text \<open>
  The value that a fast conversion prints. The least value of a signed type and, for the long
  conversions, the value 0 are left out: they are treated below.
\<close>

definition fast_value :: "string \<Rightarrow> 'f varg \<Rightarrow> int option" where
  "fast_value spec arg =
     (case arg of
        VInt w \<Rightarrow> if spec \<in> {''d'', ''i''} \<and> sint w \<noteq> - (2 ^ 31) then Some (sint w)
                  else if spec = ''u'' then Some (uint w) else None
      | VLong w \<Rightarrow> if spec \<in> {''ld'', ''li'', ''lld'', ''lli''} \<and> sint w \<noteq> 0 \<and> sint w \<noteq> - (2 ^ 63) then Some (sint w)
                   else if spec \<in> {''lu'', ''llu''} \<and> uint w \<noteq> 0 then Some (uint w) else None
      | _ \<Rightarrow> None)"

lemma int_string_not_Nil [simp]: "int_string v \<noteq> []"
  by (simp add: int_string_def)

lemma fast_int_holds:
  assumes "v \<noteq> least" "\<bar>v\<bar> < 10 ^ 30" "v \<noteq> 0 \<or> k = 0" "v_fmt st = skip @ fmt @ [CHR 0x00]" "length skip = k"
    and "length (v_scratch st) = 32" "v_out st = holds buf tx" "length tx + length (int_string v) < length buf"
  shows "\<exists>sc. length sc = 32 \<and> fast_int v least k st =
    Inr (Go (at_format fmt (st\<lparr>v_out := holds buf (tx @ int_string v), v_scratch := sc, v_state := PRINT_S_DEFAULT\<rparr>)))"
proof -
  let ?out = "holds buf (tx @ int_string v)"
  have ret: "back_to_default (st\<lparr>v_out := ?out, v_scratch := sc, v_fmt := fmt @ [CHR 0x00]\<rparr>) =
      Inr (Go (at_format fmt (st\<lparr>v_out := ?out, v_scratch := sc, v_state := PRINT_S_DEFAULT\<rparr>)))" for sc
    by (simp add: back_to_default_def fetch_at_format [of _ fmt]) (simp add: at_format_def)
  have "0 < length (int_string v)" by simp
  with assms(8) have "Suc (length tx) < length buf" by linarith
  then have len: "o_len (v_out st) + 1 < o_size (v_out st)" using assms(7) by simp
  show ?thesis
  proof (cases "v = 0")
    case True
    with assms(3,5) have "k = 0" "skip = []" by auto
    have "int_string v = ''0''" using True by (simp add: int_string_def dec_string_small)
    moreover have "out_put CHR ''0'' (holds buf tx) = Inr (holds buf (tx @ ''0''))"
      using len assms(7)
      by (auto simp: out_put_def holds_def o_size_def list_update_append Cons_nth_drop_Suc [symmetric])
    ultimately show ?thesis
      using True len ret [of "v_scratch st"] assms(4,6,7) \<open>skip = []\<close>
      by (intro exI [of _ "v_scratch st"]) (simp add: fast_int_def back_to_default_def fetch_at_format [of _ fmt] at_format_def)
  next
    case False
    with fast_int_ok [OF False assms(1,2,6) len, of k] obtain sc where "length sc = 32" and
      "fast_int v least k st = rbind (fmt_skip k (st\<lparr>v_out := put_text (int_string v) (v_out st), v_scratch := sc\<rparr>)) back_to_default"
      by blast
    then show ?thesis
      using ret [of sc] assms(4,5,7,8) by (intro exI [of _ sc]) (simp add: fmt_skip_def put_text_holds)
  qed
qed

text \<open>The formats that the logging code uses: literal text and the fast conversions without flags.\<close>

datatype 'f item = Lit string | Dec string "'f varg" | Str string | Chr "32 word"

fun item_fmt :: "'f item \<Rightarrow> string" where
  "item_fmt (Lit cs) = cs"
| "item_fmt (Dec spec a) = CHR ''%'' # spec"
| "item_fmt (Str cs) = ''%s''"
| "item_fmt (Chr w) = ''%c''"

fun item_args :: "'f item \<Rightarrow> 'f varg list" where
  "item_args (Lit cs) = []"
| "item_args (Dec spec a) = [a]"
| "item_args (Str cs) = [VStr (Some cs)]"
| "item_args (Chr w) = [VInt w]"

fun item_text :: "'f item \<Rightarrow> string" where
  "item_text (Lit cs) = cs"
| "item_text (Dec spec a) = (case fast_value spec a of Some v \<Rightarrow> int_string v | None \<Rightarrow> [])"
| "item_text (Str cs) = cs"
| "item_text (Chr w) = [char_of (unat w)]"

fun item_ok :: "'f item \<Rightarrow> bool" where
  "item_ok (Lit cs) = literal cs"
| "item_ok (Dec spec a) = (fast_value spec a \<noteq> None)"
| "item_ok (Str cs) = True"
| "item_ok (Chr w) = True"

lemma out_put_holds: "length tx < length buf \<Longrightarrow> out_put c (holds buf tx) = Inr (holds buf (tx @ [c]))"
  by (auto simp: out_put_def holds_def o_size_def list_update_append Cons_nth_drop_Suc [symmetric])

lemma fast_copy_holds:
  "length tx + length cs < length buf \<Longrightarrow> fast_copy cs (holds buf tx) = Inr (holds buf (tx @ cs))"
  by (induction cs arbitrary: tx) (simp_all add: out_put_holds)

lemma back_at_format:
  "v_fmt st = fmt @ [CHR 0x00] \<Longrightarrow> back_to_default st = Inr (Go (at_format fmt (st\<lparr>v_state := PRINT_S_DEFAULT\<rparr>)))"
  by (simp add: back_to_default_def fetch_at_format [of _ fmt])

text \<open>The round that handles the conversion, in the state after the percent sign.\<close>

abbreviation after_item :: "string \<Rightarrow> string \<Rightarrow> 'f varg list \<Rightarrow> string \<Rightarrow> string \<Rightarrow> 'f vs \<Rightarrow> 'f vs" where
  "after_item buf tx as sc fmt st \<equiv>
     at_format fmt (st\<lparr>v_out := holds buf tx, v_args := as, v_scratch := sc, v_state := PRINT_S_DEFAULT\<rparr>)"

lemma uint_not_minus: "uint x \<noteq> -1"
  using uint_nonnegative [of x] by linarith

text \<open>Every fast integer conversion ends in \<open>fast_int\<close>, with the rest of its specifier to skip.\<close>

lemma step_fast_int:
  assumes "fast_value spec a = Some v" "v_state st = PRINT_S_FLAGS" "v_args st = a # as"
  shows "\<exists>least skip. v \<noteq> least \<and> \<bar>v\<bar> < 10 ^ 30 \<and> (v \<noteq> 0 \<or> skip = []) \<and>
    v_fmt (at_format (spec @ fmt) st) = skip @ fmt @ [CHR 0x00] \<and>
    vs_step env (at_format (spec @ fmt) st) = fast_int v least (length skip) ((at_format (spec @ fmt) st)\<lparr>v_args := as\<rparr>)"
proof -
  note defs = vs_step_def at_format_def step_flags_def assms(2,3)
  consider (d) w where "a = VInt w" "spec = ''d'' \<or> spec = ''i''" "v = sint w" "sint w \<noteq> - (2 ^ 31)"
    | (u) w where "a = VInt w" "spec = ''u''" "v = uint w"
    | (ld) w where "a = VLong w" "spec = ''ld'' \<or> spec = ''li''" "v = sint w" "sint w \<noteq> - (2 ^ 63)" "v \<noteq> 0"
    | (lld) w where "a = VLong w" "spec = ''lld'' \<or> spec = ''lli''" "v = sint w" "sint w \<noteq> - (2 ^ 63)" "v \<noteq> 0"
    | (lu) w where "a = VLong w" "spec = ''lu''" "v = uint w" "v \<noteq> 0"
    | (llu) w where "a = VLong w" "spec = ''llu''" "v = uint w" "v \<noteq> 0"
    using assms(1) by (auto simp: fast_value_def split: varg.splits if_splits)
  then show ?thesis
  proof cases
    case d
    then show ?thesis using sint_bound(2) [of w]
      by (intro exI [of _ "- (2 ^ 31)"] exI [of _ "[]"]) (auto simp: defs fast_d_def arg_int_def)
  next
    case u
    then show ?thesis using uint_bound(2) [of w] uint_not_minus [of w]
      by (intro exI [of _ "-1"] exI [of _ "[]"]) (auto simp: defs fast_u_def arg_int_def)
  next
    case ld
    then show ?thesis using sint_bound(1) [of w]
      by (intro exI [of _ "- (2 ^ 63)"] exI [of _ "tl spec"])
        (auto simp: defs fast_l_def fast_ld_def arg_long_def peek_def)
  next
    case lld
    then show ?thesis using sint_bound(1) [of w]
      by (intro exI [of _ "- (2 ^ 63)"] exI [of _ "tl spec"])
        (auto simp: defs fast_l_def fast_lld_def arg_long_def peek_def numeral_2_eq_2 Let_def [of "CHR ''l''"])
  next
    case lu
    then show ?thesis using uint_bound(1) [of w] uint_not_minus [of w]
      by (intro exI [of _ "-1"] exI [of _ "tl spec"])
        (auto simp: defs fast_l_def fast_lu_def arg_long_def peek_def)
  next
    case llu
    then show ?thesis using uint_bound(1) [of w] uint_not_minus [of w]
      by (intro exI [of _ "-1"] exI [of _ "tl spec"])
        (auto simp: defs fast_l_def fast_llu_def arg_long_def peek_def numeral_2_eq_2 Let_def [of "CHR ''l''"])
  qed
qed

lemma step_dec:
  assumes "fast_value spec a = Some v" "v_state st = PRINT_S_FLAGS" "v_args st = a # as" "v_out st = holds buf tx"
    and "length (v_scratch st) = 32" "length tx + length (int_string v) < length buf"
  shows "\<exists>sc. length sc = 32 \<and>
    vs_step env (at_format (spec @ fmt) st) = Inr (Go (after_item buf (tx @ int_string v) as sc fmt st))"
proof -
  define st1 where "st1 = (at_format (spec @ fmt) st)\<lparr>v_args := as\<rparr>"
  obtain least skip where i: "v \<noteq> least" "\<bar>v\<bar> < 10 ^ 30" "v \<noteq> 0 \<or> length skip = 0" "v_fmt st1 = skip @ fmt @ [CHR 0x00]"
    and step: "vs_step env (at_format (spec @ fmt) st) = fast_int v least (length skip) st1"
    using step_fast_int [OF assms(1-3), of fmt env] by (auto simp: st1_def at_format_def)
  have st1: "length (v_scratch st1) = 32" "v_out st1 = holds buf tx"
    using assms by (simp_all add: st1_def at_format_def)
  have "at_format fmt (st1\<lparr>v_out := holds buf (tx @ int_string v), v_scratch := sc, v_state := PRINT_S_DEFAULT\<rparr>) =
      after_item buf (tx @ int_string v) as sc fmt st" for sc
    by (cases st) (simp add: st1_def at_format_def)
  with fast_int_holds [OF i refl st1 assms(6)] step show ?thesis by auto
qed

lemma step_str:
  assumes "v_state st = PRINT_S_FLAGS" "v_args st = VStr (Some cs) # as" "v_out st = holds buf tx"
    and "length tx + length cs < length buf"
  shows "vs_step env (at_format (''s'' @ fmt) st) = Inr (Go (after_item buf (tx @ cs) as (v_scratch st) fmt st))"
  using assms
  by (cases st) (simp add: vs_step_def step_flags_def fast_s_def arg_str_def at_format_def fast_copy_holds
      back_at_format [of _ fmt])

lemma step_chr:
  assumes "v_state st = PRINT_S_FLAGS" "v_args st = VInt w # as" "v_out st = holds buf tx" "length tx + 1 < length buf"
  shows "vs_step env (at_format (''c'' @ fmt) st) =
    Inr (Go (after_item buf (tx @ [char_of (unat w)]) as (v_scratch st) fmt st))"
  using assms
  by (cases st) (simp add: vs_step_def step_flags_def fast_c_def arg_int_def at_format_def out_put_holds
      back_at_format [of _ fmt])

lemma loop_item:
  assumes "item_ok it" "v_state st = PRINT_S_DEFAULT" "v_args st = item_args it @ as" "v_out st = holds buf tx"
    and "length (v_scratch st) = 32" "length tx + length (item_text it) < length buf"
  shows "\<exists>sc. length sc = 32 \<and>
    vs_loop env (at_format (item_fmt it @ fmt) st) = vs_loop env (after_item buf (tx @ item_text it) as sc fmt st)"
proof -
  let ?st = "st\<lparr>v_state := PRINT_S_FLAGS\<rparr>"
  have conv: "\<exists>sc. length sc = 32 \<and> vs_loop env (at_format (CHR ''%'' # spec @ fmt) st) =
      vs_loop env (after_item buf (tx @ t) as sc fmt st)"
    if "vs_step env (at_format (spec @ fmt) ?st) = Inr (Go (after_item buf (tx @ t) as sc fmt st))"
      "length sc = 32" "spec \<noteq> []" "hd spec \<noteq> CHR 0x00" for spec t sc
  proof -
    have "v_ch (at_format (spec @ fmt) ?st) \<noteq> CHR 0x00" using that by (cases spec) (auto simp: at_format_def)
    from loop_step [OF this that(1)] loop_percent [OF assms(2), of env "spec @ fmt"] that(2)
    show ?thesis by (intro exI [of _ sc]) simp
  qed
  show ?thesis
  proof (cases it)
    case (Lit cs)
    then have "vs_loop env (at_format (item_fmt it @ fmt) st) = vs_loop env (after_item buf (tx @ cs) as (v_scratch st) fmt st)"
      using assms by (subst item_fmt.simps Lit, subst loop_literal) (cases st; simp)+
    then show ?thesis using Lit assms by auto
  next
    case (Dec spec a)
    then obtain v where v: "fast_value spec a = Some v" using assms(1) by auto
    then have "spec \<noteq> []" "hd spec \<noteq> CHR 0x00" by (auto simp: fast_value_def split: varg.splits if_splits)
    with step_dec [OF v, of ?st as buf tx env fmt] Dec assms v show ?thesis by (auto intro: conv)
  next
    case (Str cs)
    with assms step_str [of ?st cs as buf tx env fmt] conv [of "''s''" "v_scratch st" cs] show ?thesis by simp
  next
    case (Chr w)
    with assms step_chr [of ?st w as buf tx env fmt] conv [of "''c''" "v_scratch st" "[char_of (unat w)]"]
    show ?thesis by simp
  qed
qed

lemma loop_items:
  assumes "list_all item_ok its" "v_state st = PRINT_S_DEFAULT" "v_args st = concat (map item_args its) @ as"
    and "v_out st = holds buf tx" "length (v_scratch st) = 32"
    and "length tx + length (concat (map item_text its)) < length buf"
  shows "\<exists>sc. length sc = 32 \<and> vs_loop env (at_format (concat (map item_fmt its)) st) =
    Inr (after_item buf (tx @ concat (map item_text its)) as sc [] st)"
  using assms
proof (induction its arbitrary: st tx)
  case Nil
  have "after_item buf tx as (v_scratch st) [] st = at_format [] st" using Nil by (cases st) simp
  then show ?case using Nil.prems loop_end [of env st] by (intro exI [of _ "v_scratch st"]) simp
next
  case (Cons it its)
  let ?as = "concat (map item_args its) @ as" and ?fmt = "concat (map item_fmt its)"
  obtain sc where sc: "length sc = 32" and head: "vs_loop env (at_format (item_fmt it @ ?fmt) st) =
      vs_loop env (after_item buf (tx @ item_text it) ?as sc ?fmt st)"
    using loop_item [of it st ?as buf tx env ?fmt] Cons.prems by auto
  let ?st = "st\<lparr>v_out := holds buf (tx @ item_text it), v_args := ?as, v_scratch := sc, v_state := PRINT_S_DEFAULT\<rparr>"
  obtain sc1 where "length sc1 = 32" "vs_loop env (at_format ?fmt ?st) =
      Inr (after_item buf ((tx @ item_text it) @ concat (map item_text its)) as sc1 [] ?st)"
    using Cons.IH [of ?st "tx @ item_text it"] Cons.prems sc by auto
  with head show ?case by (intro exI [of _ sc1]) simp
qed

lemma o_vsnprintf_items:
  assumes "list_all item_ok its" "length scratch = 32"
    and "length (concat (map item_text its)) < length buf" "int (length (concat (map item_text its))) < INT_MAX"
  shows "\<exists>sc. length sc = 32 \<and>
    o_vsnprintf env (Some buf) (concat (map item_fmt its)) (concat (map item_args its)) scratch =
      Inr (ok_result buf (concat (map item_text its)) sc)"
proof -
  let ?fmt = "concat (map item_fmt its)" and ?args = "concat (map item_args its)" and ?tx = "concat (map item_text its)"
  let ?st = "vs_init buf ?fmt ?args scratch"
  have "?st = at_format ?fmt ?st" by (simp add: vs_init_def at_format_def)
  moreover obtain sc where sc: "length sc = 32" "vs_loop env (at_format ?fmt ?st) = Inr (after_item buf ([] @ ?tx) [] sc [] ?st)"
    using loop_items [of its ?st "[]" buf "[]" env] assms by (auto simp: vs_init_def holds_def)
  moreover have "vs_finish (after_item buf ([] @ ?tx) [] sc [] ?st) = ok_result buf ?tx sc"
    using vs_finish_holds [of "after_item buf ([] @ ?tx) [] sc [] ?st" buf ?tx] assms
    by (simp add: vs_init_def at_format_def)
  ultimately show ?thesis using assms(3) by (intro exI [of _ sc]) (auto simp: o_vsnprintf_def)
qed

text \<open>The buffer that \<open>o_snprintf\<close> leaves.\<close>

definition print_fmt :: "'f fmt_env \<Rightarrow> string \<Rightarrow> string \<Rightarrow> string \<Rightarrow> 'f varg list \<Rightarrow> string option" where
  "print_fmt env scratch buf fmt args =
     (case o_vsnprintf env (Some buf) fmt args scratch of Inl e \<Rightarrow> None | Inr r \<Rightarrow> r_buf r)"

lemma print_fmt_items:
  assumes "list_all item_ok its" "length scratch = 32"
    and "length (concat (map item_text its)) < length buf" "int (length buf) \<le> INT_MAX"
  shows "print_fmt env scratch buf (concat (map item_fmt its)) (concat (map item_args its)) =
    Some (concat (map item_text its) @ CHR 0x00 # drop (Suc (length (concat (map item_text its)))) buf)"
proof -
  have "int (length (concat (map item_text its))) < INT_MAX" using assms(3,4) by linarith
  then show ?thesis using o_vsnprintf_items [OF assms(1-3), of env] by (auto simp: print_fmt_def ok_result_def)
qed



end
