(* ===== verification/SnprintfConv.thy ===== *)
theory SnprintfConv
  imports SnprintfProps
begin

text \<open>
  The general conversions of \<open>o_vsnprintf\<close>: \<open>convert\<close> and \<open>fmtint\<close> against the positional value of the
  digits and the layout rules of the C standard, and the bounds of the arrays of \<open>fmtflt\<close>.
\<close>

section \<open>Digits\<close>

definition hex_val :: "char \<Rightarrow> nat" where
  "hex_val c = (let k = of_char c in if 97 \<le> k then k - 87 else if 65 \<le> k then k - 55 else k - 48)"

text \<open>The number that digits, least significant first, denote in a base.\<close>

primrec base_val :: "nat \<Rightarrow> string \<Rightarrow> nat" where
  "base_val base [] = 0"
| "base_val base (c # cs) = hex_val c + base * base_val base cs"

lemma hex_val_digit: "d < 16 \<Longrightarrow> hex_val (digit_char caps d) = d"
proof -
  have "list_all (\<lambda>d. hex_val (digit_char True d) = d \<and> hex_val (digit_char False d) = d) [0..<16]" by code_simp
  then show "d < 16 \<Longrightarrow> ?thesis" by (cases caps) (auto simp: list_all_iff)
qed

lemma convert_val:
  assumes "1 < base" "base \<le> 16" "v < base ^ sz" "0 < sz"
  shows "base_val base (convert v sz base caps) = v"
  using assms
proof (induction v sz base caps rule: convert.induct)
  case (1 v sz base caps)
  have d: "hex_val (digit_char caps (v mod base)) = v mod base"
    using 1(2,3) by (intro hex_val_digit) (meson less_le_trans mod_less_divisor less_trans zero_less_one)
  show ?case
  proof (cases "v div base \<noteq> 0 \<and> 1 < sz")
    case True
    have "v div base < base ^ (sz - 1)"
      using 1(4) True by (cases sz) (auto simp: less_mult_imp_div_less mult.commute)
    with 1 True have "base_val base (convert (v div base) (sz - 1) base caps) = v div base" by auto
    with True d 1(2) show ?thesis by (subst convert.simps) simp
  next
    case False
    moreover have "v div base = 0"
      using False 1(2,4,5) by (cases sz) (auto simp: div_eq_0_iff)
    ultimately show ?thesis using d 1(2) by (subst convert.simps) (auto simp: div_eq_0_iff)
  qed
qed

lemma convert_length: "0 < sz \<Longrightarrow> length (convert v sz base caps) \<le> sz"
proof (induction v sz base caps rule: convert.induct)
  case (1 v sz base caps)
  then show ?case by (subst convert.simps) auto
qed

lemma convert_not_Nil [simp]: "convert v sz base caps \<noteq> []"
  by (subst convert.simps) simp

text \<open>No digit more than needed.\<close>

lemma convert_minimal:
  "1 < length (convert v sz base caps) \<Longrightarrow> base ^ (length (convert v sz base caps) - 1) \<le> v"
proof (induction v sz base caps rule: convert.induct)
  case (1 v sz base caps)
  let ?rest = "convert (v div base) (sz - 1) base caps"
  from 1(2) have rest: "v div base \<noteq> 0 \<and> 1 < sz \<and> 1 < base" and eq: "convert v sz base caps = digit_char caps (v mod base) # ?rest"
    by (subst (asm) convert.simps, simp split: if_splits) (subst convert.simps, use 1(2) in \<open>subst (asm) convert.simps, simp split: if_splits\<close>)
  have "base ^ (length ?rest - 1) \<le> v div base"
  proof (cases "1 < length ?rest")
    case False
    then have "length ?rest = 1" by (cases ?rest) auto
    with rest show ?thesis by simp
  qed (use 1(1) rest in blast)
  then have "base * base ^ (length ?rest - 1) \<le> v"
    using rest by (metis le_trans mult_le_mono2 times_div_less_eq_dividend)
  then show ?case using rest by (simp add: eq) (metis One_nat_def Suc_pred convert_not_Nil length_greater_0_conv power_Suc)
qed

section \<open>Integer layout\<close>

lemma OUTCHARS_append: "OUTCHARS (cs @ ds) o1 = OUTCHARS ds (OUTCHARS cs o1)"
  by (simp add: OUTCHARS_def)

lemma digits_out_rev: "n \<le> length ic \<Longrightarrow> digits_out env False ic n = rev (take n ic)"
  by (induction n) (simp_all add: take_Suc_conv_app_nth)

text \<open>The number \<open>fmtint\<close> has to print, its sign and its prefix.\<close>

definition int_abs :: "flagset \<Rightarrow> 64 word \<Rightarrow> nat" where
  "int_abs flags v = (if has_flag flags PRINT_F_UNSIGNED then unat v else nat \<bar>sint v\<bar>)"

definition int_sign :: "flagset \<Rightarrow> 64 word \<Rightarrow> string" where
  "int_sign flags v =
     (if has_flag flags PRINT_F_UNSIGNED then [] else if sint v < 0 then ''-'' else if has_flag flags PRINT_F_PLUS then ''+''
      else if has_flag flags PRINT_F_SPACE then '' '' else [])"

definition int_prefix :: "flagset \<Rightarrow> nat \<Rightarrow> nat \<Rightarrow> string" where
  "int_prefix flags base n =
     (if has_flag flags PRINT_F_NUM \<and> n \<noteq> 0 \<and> base = 16 then (if has_flag flags PRINT_F_UP then ''0X'' else ''0x'') else [])"

lemma word_sless_zero: "(v :: 64 word) <s 0 \<longleftrightarrow> sint v < 0"
  by (simp add: word_sless_alt)

lemma unat_minus_neg:
  assumes "sint (v :: 64 word) < 0"
  shows "unat (- v) = nat (- sint v)"
proof -
  have v: "word_of_int (sint v) = v" by simp
  have "- v = word_of_int (- sint v)" unfolding wi_hom_neg [symmetric] v ..
  then have "uint (- v) = (- sint v) mod 2 ^ 64" by (simp only: uint_word_of_int) simp
  moreover have "0 < - sint v" "- sint v \<le> 2 ^ 63" using assms sint_range_size [of v] by (auto simp: word_size)
  ultimately show ?thesis by (simp add: unat_eq_nat_uint)
qed

text \<open>\<open>fmtint\<close> without the group separators, as one text.\<close>

definition alt_octal :: "flagset \<Rightarrow> nat \<Rightarrow> nat \<Rightarrow> bool" where
  "alt_octal flags base n \<longleftrightarrow> has_flag flags PRINT_F_NUM \<and> n \<noteq> 0 \<and> base = 8"

definition int_digits :: "flagset \<Rightarrow> nat \<Rightarrow> nat \<Rightarrow> string" where
  "int_digits flags base n = rev (convert n MAX_CONVERT_LENGTH base (has_flag flags PRINT_F_UP))"

definition int_prec :: "flagset \<Rightarrow> nat \<Rightarrow> nat \<Rightarrow> int \<Rightarrow> int" where
  "int_prec flags base n precision =
     (let pos = int (length (int_digits flags base n))
      in if alt_octal flags base n \<and> precision \<le> pos then pos + 1 else precision)"

definition zero_fill :: "flagset \<Rightarrow> int \<Rightarrow> bool" where
  "zero_fill flags precision \<longleftrightarrow> \<not> has_flag flags PRINT_F_MINUS \<and> has_flag flags PRINT_F_ZERO \<and> precision = -1"

definition int_spaces :: "flagset \<Rightarrow> nat \<Rightarrow> 64 word \<Rightarrow> int \<Rightarrow> int \<Rightarrow> int" where
  "int_spaces flags base v width precision =
     (let n = int_abs flags v
      in width - max (int_prec flags base n precision) (int (length (int_digits flags base n)))
         - int (length (int_sign flags v)) - int (length (int_prefix flags base n)))"

definition int_layout :: "flagset \<Rightarrow> nat \<Rightarrow> 64 word \<Rightarrow> int \<Rightarrow> int \<Rightarrow> string" where
  "int_layout flags base v width precision =
     (let n = int_abs flags v; ds = int_digits flags base n; sp = nat (int_spaces flags base v width precision);
          z = nat (int_prec flags base n precision - int (length ds)); left = has_flag flags PRINT_F_MINUS;
          fill = zero_fill flags precision
      in replicate (if left \<or> fill then 0 else sp) CHR '' '' @ int_sign flags v @ int_prefix flags base n @
         replicate (if fill then z + sp else z) CHR ''0'' @ ds @ replicate (if left then sp else 0) CHR '' '')"

lemma fmtint_layout_eq:
  assumes "\<not> has_flag flags PRINT_F_QUOTE" "has_flag flags PRINT_F_UNSIGNED \<or> - v \<noteq> v \<or> 0 \<le> sint v"
    and "- INT_MAX - 1 \<le> int_spaces flags base v width precision"
  shows "fmtint env v base width precision flags o1 = Inr (OUTCHARS (int_layout flags base v width precision) o1)"
proof -
  let ?unsig = "has_flag flags PRINT_F_UNSIGNED"
  have n: "(if \<not> ?unsig \<and> v <s 0 then unat (- v) else unat v) = int_abs flags v"
  proof (cases "\<not> ?unsig \<and> sint v < 0")
    case True
    then show ?thesis using assms(2) unat_minus_neg [of v] by (auto simp: int_abs_def word_sless_zero)
  next
    case False
    have "unat v = nat (sint v)" if "0 \<le> sint v" 
      using that sint_range_size [of v] by (simp add: unat_eq_nat_uint uint_sint take_bit_eq_mod word_size)
    with False show ?thesis by (auto simp: int_abs_def word_sless_zero)
  qed
  have sign: "(if ?unsig then [] else if \<not> ?unsig \<and> v <s 0 then ''-'' else if has_flag flags PRINT_F_PLUS then ''+''
      else if has_flag flags PRINT_F_SPACE then '' '' else []) = int_sign flags v"
    by (auto simp: int_sign_def word_sless_zero)
  have neg: "\<not> (\<not> ?unsig \<and> v <s 0 \<and> - v = v)" using assms(2) by (auto simp: word_sless_zero)
  have ds: "convert (int_abs flags v) MAX_CONVERT_LENGTH base (has_flag flags PRINT_F_UP) =
      rev (int_digits flags base (int_abs flags v))" by (simp add: int_digits_def)
  have digits: "digits_out env False (rev ds) (length ds) = ds" for ds
    using digits_out_rev [of "length ds" "rev ds" env] by simp
  have prec: "(if (has_flag flags PRINT_F_NUM \<and> k \<noteq> 0) \<and> base = 8 \<and> precision \<le> int (length (int_digits flags base k))
      then int (length (int_digits flags base k)) + 1 else precision) = int_prec flags base k precision" for k
    by (auto simp: int_prec_def alt_octal_def Let_def)
  have pre: "(if (has_flag flags PRINT_F_NUM \<and> k \<noteq> 0) \<and> base = 16 then if has_flag flags PRINT_F_UP then ''0X'' else ''0x'' else []) =
      int_prefix flags base k" for k by (auto simp: int_prefix_def)
  have pad: "nat (max 0 a) = nat a" "nat (max 0 a + max 0 b) = nat a + nat b" for a b :: int by linarith+
  show ?thesis
    using assms(1,3) neg
    unfolding fmtint_def Let_def n sign ds length_rev prec pre if_False if_not_P [OF assms(1)]
    by (simp add: digits int_layout_def int_spaces_def zero_fill_def Let_def OUTCHARS_append not_less pad)
qed

lemma minus_self_least:
  assumes "- v = (v :: 64 word)" "sint v \<noteq> - (2 ^ 63)"
  shows "0 \<le> sint v"
proof (rule ccontr)
  assume neg: "\<not> 0 \<le> sint v"
  have range: "- (2 ^ 63) \<le> sint v" "sint v < 2 ^ 63" using sint_range_size [of v] by (auto simp: word_size)
  have "uint v = sint v mod 2 ^ 64" by (simp add: uint_sint take_bit_eq_mod)
  also have "\<dots> = (sint v + 2 ^ 64) mod 2 ^ 64" by simp
  also have "\<dots> = sint v + 2 ^ 64" using neg range by (intro mod_pos_pos_trivial) auto
  finally have "unat v = nat (sint v + 2 ^ 64)" by (simp add: unat_eq_nat_uint)
  with unat_minus_neg [of v] neg assms(1) have "nat (- sint v) = nat (sint v + 2 ^ 64)" by simp
  with neg range assms(2) show False by simp
qed

lemma int_abs_bound: "int_abs flags v < 2 ^ 64"
proof -
  have "\<bar>sint v\<bar> < 2 ^ 64" using sint_range_size [of v] by (auto simp: word_size)
  then have "nat \<bar>sint v\<bar> < 2 ^ 64" by (simp add: nat_less_iff)
  moreover have "unat v < 2 ^ 64" using unsigned_less [of v] by simp
  ultimately show ?thesis by (simp add: int_abs_def)
qed

lemma int_digits_val:
  assumes "base \<in> {8, 10, 16}"
  shows "base_val base (rev (int_digits flags base (int_abs flags v))) = int_abs flags v"
proof -
  have "(2 :: nat) ^ 64 \<le> base ^ MAX_CONVERT_LENGTH"
    using assms by (auto simp: MAX_CONVERT_LENGTH_def)
  then show ?thesis
    unfolding int_digits_def rev_rev_ident using assms int_abs_bound [of flags v]
    by (intro convert_val) (auto simp: MAX_CONVERT_LENGTH_def)
qed

lemma int_digits_minimal:
  "1 < length (int_digits flags base n) \<Longrightarrow> base ^ (length (int_digits flags base n) - 1) \<le> n"
  unfolding int_digits_def length_rev by (rule convert_minimal)

lemma int_digits_not_Nil [simp]: "int_digits flags base n \<noteq> []"
  by (simp add: int_digits_def)

text \<open>The layout written as its parts.\<close>

text \<open>
  C29. \<open>fmtint\<close> writes spaces, the sign, the prefix, zeros, the digits of the number in the base
  without a superfluous one, and spaces. There are at least as many digits as the precision asks
  for, the field is at least as wide as asked for and is padded only up to that width, on the
  side that the flags choose, with zeros when the flag 0 applies; \<open>#\<close> gives an octal number a
  leading zero.
\<close>

theorem fmtint_layout:
  assumes "base \<in> {8, 10, 16}" "\<not> has_flag flags PRINT_F_QUOTE"
    and "has_flag flags PRINT_F_UNSIGNED \<or> sint v \<noteq> - (2 ^ 63)"
    and "0 \<le> width" "-1 \<le> precision" "precision \<le> INT_MAX - 2"
  shows "\<exists>l z ds t.
    fmtint env v base width precision flags o1 =
      Inr (OUTCHARS (replicate l CHR '' '' @ int_sign flags v @ int_prefix flags base (int_abs flags v) @
        replicate z CHR ''0'' @ ds @ replicate t CHR '' '') o1) \<and>
    base_val base (rev ds) = int_abs flags v \<and> (1 < length ds \<longrightarrow> base ^ (length ds - 1) \<le> int_abs flags v) \<and>
    precision \<le> int (z + length ds) \<and> (alt_octal flags base (int_abs flags v) \<longrightarrow> 0 < z) \<and>
    (let total = l + length (int_sign flags v) + length (int_prefix flags base (int_abs flags v)) + z + length ds + t
     in width \<le> int total \<and> (l \<noteq> 0 \<or> t \<noteq> 0 \<or> zero_fill flags precision \<and> 1 < z \<longrightarrow> int total = width)) \<and>
    (if has_flag flags PRINT_F_MINUS then l = 0 else t = 0) \<and> (zero_fill flags precision \<longrightarrow> l = 0)"
proof -
  define n ds where "n = int_abs flags v" "ds = int_digits flags base n"
  define sp where "sp = int_spaces flags base v width precision"
  define p where "p = int_prec flags base n precision"
  define fill left where "fill = zero_fill flags precision" "left = has_flag flags PRINT_F_MINUS"
  have sp: "sp = width - max p (int (length ds)) - int (length (int_sign flags v)) - int (length (int_prefix flags base n))"
    by (simp add: sp_def int_spaces_def Let_def p_def n_ds_def)
  have p: "precision \<le> p" "p \<le> max precision (int (length ds) + 1)" "alt_octal flags base n \<longrightarrow> int (length ds) < p"
    "fill \<longrightarrow> p \<le> int (length ds) + 1"
    by (auto simp: p_def int_prec_def Let_def n_ds_def fill_left_def zero_fill_def)
  have len: "length ds \<le> 43" "length (int_sign flags v) \<le> 1" "length (int_prefix flags base n) \<le> 2"
    using convert_length [of MAX_CONVERT_LENGTH]
    by (auto simp: n_ds_def int_digits_def MAX_CONVERT_LENGTH_def int_sign_def int_prefix_def)
  have out: "fmtint env v base width precision flags o1 = Inr (OUTCHARS (int_layout flags base v width precision) o1)"
    using assms(2-6) minus_self_least [of v] p(2) len
    by (intro fmtint_layout_eq) (auto simp: sp_def [symmetric] sp INT_MAX_def)
  define l z t where "l = (if left \<or> fill then 0 else nat sp)"
    "z = (if fill then nat (p - int (length ds)) + nat sp else nat (p - int (length ds)))"
    "t = (if left then nat sp else 0)"
  have lay: "int_layout flags base v width precision =
      replicate l CHR '' '' @ int_sign flags v @ int_prefix flags base n @ replicate z CHR ''0'' @ ds @ replicate t CHR '' ''"
    by (simp add: int_layout_def Let_def l_z_t_def n_ds_def p_def sp_def fill_left_def)
  have fl: "fill \<longrightarrow> \<not> left" by (simp add: fill_left_def zero_fill_def)
  let ?total = "l + length (int_sign flags v) + length (int_prefix flags base n) + z + length ds + t"
  have total: "width \<le> int ?total" "l \<noteq> 0 \<or> t \<noteq> 0 \<or> fill \<and> 1 < z \<longrightarrow> int ?total = width"
    using fl p(4) sp by (auto simp: l_z_t_def split: if_splits)
  have z: "precision \<le> int (z + length ds)" "alt_octal flags base n \<longrightarrow> 0 < z"
    using p by (auto simp: l_z_t_def)
  have sides: "if left then l = 0 else t = 0" "fill \<longrightarrow> l = 0" by (auto simp: l_z_t_def)
  have val: "base_val base (rev ds) = n" "1 < length ds \<longrightarrow> base ^ (length ds - 1) \<le> n"
    using int_digits_val [OF assms(1), of flags v] int_digits_minimal [of flags base n] by (simp_all add: n_ds_def)
  show ?thesis
    unfolding Let_def n_ds_def(1) [symmetric] fill_left_def [symmetric]
    by (rule exI [of _ l], rule exI [of _ z], rule exI [of _ ds], rule exI [of _ t])
      (intro conjI out [unfolded lay] val z total sides)
qed

lemma fmtint_layout_witness:
  "\<exists>l z ds t.
    fmtint c_env (- 42) 10 8 5 PRINT_F_MINUS (holds (replicate 20 CHR ''x'') []) =
      Inr (OUTCHARS (replicate l CHR '' '' @ int_sign PRINT_F_MINUS (- 42) @ int_prefix PRINT_F_MINUS 10 (int_abs PRINT_F_MINUS (- 42)) @
        replicate z CHR ''0'' @ ds @ replicate t CHR '' '') (holds (replicate 20 CHR ''x'') [])) \<and> base_val 10 (rev ds) = 42 \<and> l = 0"
proof -
  have f: "has_flag PRINT_F_MINUS PRINT_F_MINUS" "\<not> has_flag PRINT_F_MINUS PRINT_F_QUOTE" "\<not> has_flag PRINT_F_MINUS PRINT_F_UNSIGNED"
    by (simp_all add: has_flag_def PRINT_F_MINUS_def PRINT_F_QUOTE_def PRINT_F_UNSIGNED_def)
  have "sint (- 42 :: 64 word) = - 42" by simp
  with f fmtint_layout [of 10 PRINT_F_MINUS "- 42" 8 5 c_env "holds (replicate 20 CHR ''x'') []"] show ?thesis
    by (auto simp: INT_MAX_def int_abs_def)
qed

section \<open>The arrays of the floating-point conversion\<close>

lemma exp_down_bounds: "-98 \<le> e \<Longrightarrow> e \<le> 0 \<Longrightarrow> -99 \<le> snd (exp_down fl tmp e) \<and> snd (exp_down fl tmp e) \<le> 0"
  by (induction fl tmp e rule: exp_down.induct) (subst exp_down.simps, simp)+

lemma exp_up_bounds: "-99 \<le> e \<Longrightarrow> e \<le> 98 \<Longrightarrow> -99 \<le> snd (exp_up fl tmp e) \<and> snd (exp_up fl tmp e) \<le> 99"
  by (induction fl tmp e rule: exp_up.induct) (subst exp_up.simps, simp)+

lemma getexponent_bounds: "-99 \<le> getexponent fl v" "getexponent fl v \<le> 99"
proof -
  define r where "r = exp_down fl (if fl_le fl (fl_of fl 0) v then v else fl_neg fl v) 0"
  have "-99 \<le> snd r" "snd r \<le> 0" using exp_down_bounds [of 0 fl] by (auto simp: r_def)
  then have "-99 \<le> snd (exp_up fl (fst r) (snd r)) \<and> snd (exp_up fl (fst r) (snd r)) \<le> 99"
    by (intro exp_up_bounds) auto
  then show "-99 \<le> getexponent fl v" "getexponent fl v \<le> 99"
    by (simp_all add: getexponent_def Let_def r_def split_beta)
qed

lemma convert_two:
  "convert n 2 10 False = (if n div 10 = 0 then [digit_char False (n mod 10)]
     else [digit_char False (n mod 10), digit_char False (n div 10 mod 10)])"
  by (simp add: convert.simps [of n 2 10 False] convert.simps [of "n div 10" "Suc 0" 10 False])

text \<open>
  C30. Whatever the floating-point arithmetic computes, the exponent that \<open>fmtflt\<close> starts from
  lies between -99 and 99, the exponent's characters fill the four bytes of \<open>econvert\<close> exactly, and
  the digits of a 64-bit part need at most 20 of the 43 bytes of \<open>iconvert\<close> and \<open>fconvert\<close>; an exponent
  of at most two digits is printed with its sign and value.
\<close>

theorem fmtflt_arrays:
  "-99 \<le> getexponent fl x \<and> getexponent fl x \<le> 99 \<and> length (econvert flags e) = 4 \<and>
   length (convert (unat (w :: 64 word)) MAX_CONVERT_LENGTH 10 False) \<le> 20 \<and>
   (\<bar>e\<bar> \<le> 99 \<longrightarrow> base_val 10 (take 2 (econvert flags e)) = nat \<bar>e\<bar> \<and> econvert flags e ! 2 = (if e < 0 then CHR ''-'' else CHR ''+''))"
proof -
  have digits: "length (convert (unat w) MAX_CONVERT_LENGTH 10 False) \<le> 20"
  proof (rule ccontr)
    let ?k = "length (convert (unat w) MAX_CONVERT_LENGTH 10 False)"
    assume "\<not> ?k \<le> 20"
    then have "(10 :: nat) ^ 20 \<le> 10 ^ (?k - 1)" by (intro power_increasing) auto
    also have "\<dots> \<le> unat w" using convert_minimal \<open>\<not> ?k \<le> 20\<close> by simp
    also have "\<dots> < 2 ^ 64" using unsigned_less [of w] by simp
    finally show False by simp
  qed
  have val: "base_val 10 (take 2 (econvert flags e)) = nat \<bar>e\<bar>" if "\<bar>e\<bar> \<le> 99"
  proof -
    have "nat \<bar>e\<bar> div 10 < 10" using that by (simp add: less_mult_imp_div_less nat_less_iff)
    moreover have "hex_val CHR ''0'' = 0" by code_simp
    ultimately show ?thesis by (auto simp: econvert_def convert_two Let_def hex_val_digit)
  qed
  show ?thesis
    using getexponent_bounds [of fl x] digits val by (auto simp: econvert_def convert_two Let_def)
qed

lemma fmtflt_arrays_witness:
  "base_val 10 (take 2 (econvert PRINT_F_UP (- 7))) = 7 \<and> econvert PRINT_F_UP (- 7) ! 2 = CHR ''-''"
  using fmtflt_arrays [of nat_flops 0 PRINT_F_UP "- 7"] by simp

section \<open>Formats that fail\<close>

lemma vs_init_at_format: "vs_init buf fmt args scratch = at_format fmt (vs_init buf fmt args scratch)"
  by (simp add: vs_init_def at_format_def)

lemma vs_init_simps [simp]:
  "v_state (vs_init buf fmt args scratch) = PRINT_S_DEFAULT" "v_args (vs_init buf fmt args scratch) = args"
  "v_scratch (vs_init buf fmt args scratch) = scratch" "v_out (vs_init buf fmt args scratch) = holds buf []"
  "v_overflow (vs_init buf fmt args scratch) = False" "v_stores (vs_init buf fmt args scratch) = []"
  by (simp_all add: vs_init_def holds_def)

text \<open>The run of a format that starts with a percent sign.\<close>

lemma o_vsnprintf_percent:
  assumes "buf \<noteq> []"
  shows "o_vsnprintf env (Some buf) (CHR ''%'' # fmt) args scratch =
    rbind (vs_loop env (at_format fmt ((vs_init buf (CHR ''%'' # fmt) args scratch)\<lparr>v_state := PRINT_S_FLAGS\<rparr>)))
      (\<lambda>st. Inr (vs_finish st))"
  using assms loop_percent [of "vs_init buf (CHR ''%'' # fmt) args scratch" env fmt]
  by (simp add: o_vsnprintf_def vs_init_at_format [symmetric])

lemma finish_at_end:
  assumes "v_out st = holds buf tx" "\<not> v_overflow st" "v_stores st = []" "length tx < length buf" "int (length tx) < INT_MAX"
  shows "vs_finish (at_format [] st) = ok_result buf tx (v_scratch st)"
  using assms vs_finish_holds [of "at_format [] st" buf tx] by (simp add: at_format_def)

lemma fast_int_zero:
  assumes "v_out st = holds buf tx" "length tx + 1 < length buf" "v_fmt st = fmt @ [CHR 0x00]"
  shows "fast_int 0 least k st = Inr (Go (at_format fmt (st\<lparr>v_out := holds buf (tx @ ''0''), v_state := PRINT_S_DEFAULT\<rparr>)))"
  using assms by (simp add: fast_int_def out_put_holds back_at_format [of _ fmt])

lemma step_long_zero:
  assumes "spec \<in> {''ld'', ''li'', ''lu'', ''lld'', ''lli'', ''llu''}"
    and "v_state st = PRINT_S_FLAGS" "v_args st = VLong 0 # as"
  shows "\<exists>least k. vs_step env (at_format spec st) = fast_int 0 least k ((at_format spec st)\<lparr>v_args := as\<rparr>)"
  using assms
  by (auto simp: vs_step_def step_flags_def fast_l_def fast_ld_def fast_lu_def fast_lld_def fast_llu_def peek_def
      arg_long_def at_format_def Let_def [of "CHR ''l''"]) blast+

text \<open>
  For the value 0 the long conversions print the digit and then the rest of their own
  specifier: \<open>%ld\<close> prints \<open>0d\<close>, \<open>%lld\<close> prints \<open>0ld\<close>. The branches for 0 do not skip the specifier.
\<close>

theorem o_vsnprintf_long_zero:
  assumes "spec \<in> {''ld'', ''li'', ''lu'', ''lld'', ''lli'', ''llu''}" "3 < length buf"
  shows "o_vsnprintf env (Some buf) (CHR ''%'' # spec) [VLong 0] scratch =
    Inr (ok_result buf (CHR ''0'' # tl spec) scratch)"
proof -
  let ?st = "(vs_init buf (CHR ''%'' # spec) [VLong 0] scratch)\<lparr>v_state := PRINT_S_FLAGS\<rparr>"
  let ?st1 = "?st\<lparr>v_args := [], v_out := holds buf ''0'', v_state := PRINT_S_DEFAULT\<rparr>"
  have rest: "literal (tl spec)" "length (tl spec) \<le> 2" using assms(1) by (auto simp: literal_def)
  have "vs_step env (at_format spec ?st) = Inr (Go (at_format (tl spec) ((at_format spec ?st)\<lparr>v_args := [],
      v_out := holds buf ([] @ ''0''), v_state := PRINT_S_DEFAULT\<rparr>)))"
  proof -
    obtain least k where "vs_step env (at_format spec ?st) = fast_int 0 least k ((at_format spec ?st)\<lparr>v_args := []\<rparr>)"
      using step_long_zero [OF assms(1), of ?st "[]" env] by auto
    also have "\<dots> = Inr (Go (at_format (tl spec) ((at_format spec ?st)\<lparr>v_args := [],
        v_out := holds buf ([] @ ''0''), v_state := PRINT_S_DEFAULT\<rparr>)))"
      using assms by (intro fast_int_zero) (auto simp: at_format_def)
    finally show ?thesis .
  qed
  also have "\<dots> = Inr (Go (at_format (tl spec) ?st1))" by (simp add: at_format_def)
  finally have step: "vs_step env (at_format spec ?st) = Inr (Go (at_format (tl spec) ?st1))" .
  have "v_ch (at_format spec ?st) \<noteq> CHR 0x00" using assms(1) by (auto simp: at_format_def)
  from loop_step [OF this step]
  have "vs_loop env (at_format spec ?st) = vs_loop env (at_format (tl spec @ []) ?st1)" by simp
  also have "\<dots> = vs_loop env (at_format [] (?st1\<lparr>v_out := holds buf (''0'' @ tl spec)\<rparr>))"
    using rest assms(2) by (intro loop_literal) auto
  finally have "vs_loop env (at_format spec ?st) = Inr (at_format [] (?st1\<lparr>v_out := holds buf (''0'' @ tl spec)\<rparr>))"
    by (simp only: loop_end)
  moreover have "vs_finish (at_format [] (?st1\<lparr>v_out := holds buf (''0'' @ tl spec)\<rparr>)) = ok_result buf (''0'' @ tl spec) scratch"
    using rest assms(2) finish_at_end [of "?st1\<lparr>v_out := holds buf (''0'' @ tl spec)\<rparr>" buf "''0'' @ tl spec"]
    by (simp add: INT_MAX_def)
  moreover have "buf \<noteq> []" using assms(2) by auto
  ultimately show ?thesis by (simp add: o_vsnprintf_percent)
qed

lemma o_vsnprintf_long_zero_witness:
  "o_vsnprintf c_env (Some ''xxxxxx'') ''%lld'' [VLong 0] scratch_init = Inr (ok_result ''xxxxxx'' ''0ld'' scratch_init)"
  using o_vsnprintf_long_zero [of "''lld''" "''xxxxxx''" c_env scratch_init] by simp

lemma vs_finish_buf:
  "v_out st = holds buf tx \<Longrightarrow> length tx < length buf \<Longrightarrow>
   r_buf (vs_finish st) = Some (tx @ CHR 0x00 # drop (Suc (length tx)) buf)"
  by (simp add: vs_finish_def Let_def holds_def o_size_def list_update_append Cons_nth_drop_Suc [symmetric])

text \<open>A flag character only adds to the flags.\<close>

lemma loop_plus:
  assumes "v_state st = PRINT_S_FLAGS"
  shows "vs_loop env (at_format (CHR ''+'' # fmt) st) =
    vs_loop env (at_format fmt (st\<lparr>v_flags := v_flags st OR PRINT_F_PLUS\<rparr>))"
proof (rule loop_step)
  show "vs_step env (at_format (CHR ''+'' # fmt) st) =
      Inr (Go (at_format fmt (st\<lparr>v_flags := v_flags st OR PRINT_F_PLUS\<rparr>)))"
    using assms
    by (simp add: vs_step_def step_flags_def add_flag_def at_format_Cons fetch_at_format [of _ fmt])
      (simp add: at_format_def)
qed (simp add: at_format_def)

text \<open>
  The fast conversions ignore their flags and do not reset them: \<open>%+d\<close> prints no plus sign,
  and in \<open>%-c%3x\<close> the flag \<open>-\<close> of the first conversion aligns the second one to the left.
\<close>

theorem o_vsnprintf_flags:
  fixes env :: "'f fmt_env"
  assumes "sint w \<noteq> - (2 ^ 31)" "length (int_string (sint w)) < length buf" "length scratch = 32"
  shows "(\<exists>r. o_vsnprintf env (Some buf) ''%+d'' [VInt w] scratch = Inr r \<and>
      r_buf r = Some (int_string (sint w) @ CHR 0x00 # drop (Suc (length (int_string (sint w)))) buf)) \<and>
    o_vsnprintf c_env (Some ''xxxxxx'') ''%-c%3x'' [VInt 65, VInt 31] scratch_init =
      Inr (ok_result ''xxxxxx'' ''A1f '' scratch_init)"
proof (rule conjI)
  let ?v = "sint w"
  let ?st = "(vs_init buf ''%+d'' [VInt w] scratch)\<lparr>v_state := PRINT_S_FLAGS, v_flags := 0 OR PRINT_F_PLUS\<rparr> :: 'f vs"
  have "fast_value ''d'' (VInt w) = Some ?v" using assms(1) by (simp add: fast_value_def)
  from step_dec [OF this, of ?st "[]" buf "[]" env "[]"] assms
  obtain sc where step: "vs_step env (at_format (''d'' @ []) ?st) = Inr (Go (after_item buf ([] @ int_string ?v) [] sc [] ?st))"
    by auto
  have "vs_loop env (at_format ''+d'' ((vs_init buf ''%+d'' [VInt w] scratch)\<lparr>v_state := PRINT_S_FLAGS\<rparr>)) =
      vs_loop env (at_format (''d'' @ []) ?st)"
    by (subst loop_plus) (simp_all add: vs_init_def)
  also have "\<dots> = Inr (after_item buf ([] @ int_string ?v) [] sc [] ?st)"
    by (subst loop_step [OF _ step]) (simp_all add: loop_end, simp add: at_format_def)
  finally have "o_vsnprintf env (Some buf) ''%+d'' [VInt w] scratch =
      Inr (vs_finish (after_item buf (int_string ?v) [] sc [] ?st))"
    using assms(2) by (subst o_vsnprintf_percent) auto
  moreover have "r_buf (vs_finish (after_item buf (int_string ?v) [] sc [] ?st)) =
      Some (int_string ?v @ CHR 0x00 # drop (Suc (length (int_string ?v))) buf)"
    using assms(2) by (intro vs_finish_buf) (simp_all add: at_format_def)
  ultimately show "\<exists>r. o_vsnprintf env (Some buf) ''%+d'' [VInt w] scratch = Inr r \<and>
      r_buf r = Some (int_string ?v @ CHR 0x00 # drop (Suc (length (int_string ?v))) buf)" by blast
  show "o_vsnprintf c_env (Some ''xxxxxx'') ''%-c%3x'' [VInt 65, VInt 31] scratch_init =
      Inr (ok_result ''xxxxxx'' ''A1f '' scratch_init)" by code_simp
qed

lemma o_vsnprintf_flags_witness:
  "\<exists>r. o_vsnprintf c_env (Some ''xxxx'') ''%+d'' [VInt 7] scratch_init = Inr r \<and> r_buf r = Some (''7'' @ CHR 0x00 # ''xx'')"
proof -
  have "int_string 7 = ''7''" by code_simp
  moreover have "sint (7 :: 32 word) = 7" by simp
  ultimately show ?thesis
    using o_vsnprintf_flags [of 7 "''xxxx''" scratch_init c_env] by (simp add: scratch_init_def)
qed



end
