(* ===== verification/ObjectPool.thy ===== *)
theory ObjectPool
  imports Prelude
begin

text \<open>
  \<^verbatim>\<open>src/base/ObjectPool.hpp\<close>: a fixed array of objects with a stack of unused slots. Object
  identifiers are 32-bit numbers above a base; they count down where the slots count up. An
  assertion that fails and an access outside an array are the value \<open>None\<close>.

  The contract of a pool is the locale \<open>id_pool\<close>; the class is its interpretation \<open>pool\<close>.
\<close>

type_synonym objid = "32 word"

record 'a pool_node =
  pn_data :: 'a
  pn_used :: bool

record 'a obj_pool =
  op_base_id :: objid
  op_total_size :: nat
  op_all_elements :: "'a pool_node list"
  op_unused_ids :: "objid list"
  op_unused_size :: nat

definition ConvertId :: "objid \<Rightarrow> nat \<Rightarrow> objid \<Rightarrow> objid" where
  "ConvertId base_id total_size i = 1 + base_id + of_nat total_size - i"

abbreviation op_convert :: "'a obj_pool \<Rightarrow> objid \<Rightarrow> objid" where
  "op_convert p i \<equiv> ConvertId (op_base_id p) (op_total_size p) i"

text \<open>\<open>SafeInit\<close>; \<open>junk\<close> is what the new array holds.\<close>

definition pool_SafeInit :: "(nat \<Rightarrow> 'a) \<Rightarrow> objid \<Rightarrow> nat \<Rightarrow> 'a obj_pool" where
  "pool_SafeInit junk base_id sz =
     \<lparr>op_base_id = base_id, op_total_size = sz,
      op_all_elements = map (\<lambda>i. \<lparr>pn_data = junk i, pn_used = False\<rparr>) [0..<sz],
      op_unused_ids = map (\<lambda>i. of_nat (i + 1)) [0..<sz], op_unused_size = sz\<rparr>"

text \<open>\<open>_all_elements[id - 1]._used = u\<close>.\<close>

definition set_used :: "objid \<Rightarrow> bool \<Rightarrow> 'a obj_pool \<Rightarrow> 'a obj_pool option" where
  "set_used i u p =
     (let k = unat i - 1 in
      if i = 0 \<or> length (op_all_elements p) \<le> k then None
      else Some (p\<lparr>op_all_elements := (op_all_elements p)[k := (op_all_elements p ! k)\<lparr>pn_used := u\<rparr>]\<rparr>))"

definition SafeAlloc :: "'a obj_pool \<Rightarrow> (objid \<times> 'a obj_pool) option" where
  "SafeAlloc p =
     (if op_unused_size p = 0 then Some (0, p)
      else if length (op_unused_ids p) < op_unused_size p then None
      else let i = op_unused_ids p ! (op_unused_size p - 1)
           in map_option (\<lambda>p1. (op_convert p i, p1)) (set_used i True (p\<lparr>op_unused_size := op_unused_size p - 1\<rparr>)))"

definition pool_index_ok :: "'a obj_pool \<Rightarrow> objid \<Rightarrow> bool" where
  "pool_index_ok p i \<longleftrightarrow> 1 \<le> unat i \<and> unat i \<le> op_total_size p"

text \<open>\<open>SafeAlloc(objid)\<close>: the given object, when it is unused.\<close>

definition SafeAlloc_id :: "objid \<Rightarrow> 'a obj_pool \<Rightarrow> (objid \<times> 'a obj_pool) option" where
  "SafeAlloc_id objid p =
     (let i = op_convert p objid; n = op_unused_size p in
      if \<not> pool_index_ok p i then None
      else case List.find (\<lambda>k. op_unused_ids p ! k = i) [0..<n] of
             None \<Rightarrow> Some (0, p)
           | Some k \<Rightarrow>
               map_option (\<lambda>p1. (objid, p1))
                 (set_used i True (p\<lparr>op_unused_ids := (op_unused_ids p)[k := op_unused_ids p ! (n - 1)],
                                     op_unused_size := n - 1\<rparr>)))"

definition pool_ReleaseInternal :: "objid \<Rightarrow> 'a obj_pool \<Rightarrow> 'a obj_pool option" where
  "pool_ReleaseInternal objid p =
     (let i = op_convert p objid; k = unat i - 1; n = op_unused_size p in
      if \<not> pool_index_ok p i \<or> \<not> pn_used (op_all_elements p ! k) \<or> op_total_size p \<le> n then None
      else set_used i False (p\<lparr>op_unused_size := n + 1, op_unused_ids := (op_unused_ids p)[n := i]\<rparr>))"

definition GetObjidByIndex :: "'a obj_pool \<Rightarrow> nat \<Rightarrow> objid option" where
  "GetObjidByIndex p k = (if k < op_total_size p then Some (op_convert p (of_nat (k + 1))) else None)"

text \<open>The accessors give the index of an element; the identifier 0 slots below the first fails.\<close>

definition GetByIndex :: "'a obj_pool \<Rightarrow> nat \<Rightarrow> nat option" where
  "GetByIndex p k = (if k < op_total_size p then Some k else None)"

definition pool_Get :: "'a obj_pool \<Rightarrow> objid \<Rightarrow> nat option" where
  "pool_Get p objid = (let i = op_convert p objid in if pool_index_ok p i then Some (unat i - 1) else None)"

definition GetFirst :: "'a obj_pool \<Rightarrow> nat option" where
  "GetFirst p = (if op_total_size p = 0 then None else GetByIndex p (op_total_size p - 1))"

definition GetLast :: "'a obj_pool \<Rightarrow> nat option" where
  "GetLast p = GetByIndex p 0"

definition GetObjectNum :: "'a obj_pool \<Rightarrow> nat" where
  "GetObjectNum p = op_total_size p - op_unused_size p"

text \<open>The iteration over the used objects visits the indices of \<open>used_indices\<close> in this order.\<close>

definition used_at :: "'a obj_pool \<Rightarrow> nat \<Rightarrow> bool" where
  "used_at p k \<longleftrightarrow> k < op_total_size p \<and> pn_used (op_all_elements p ! k)"

definition used_indices :: "'a obj_pool \<Rightarrow> nat list" where
  "used_indices p = filter (used_at p) [0..<op_total_size p]"

definition pool_data :: "'a obj_pool \<Rightarrow> nat \<Rightarrow> 'a" where
  "pool_data p k = pn_data (op_all_elements p ! k)"

definition pool_put :: "nat \<Rightarrow> 'a \<Rightarrow> 'a obj_pool \<Rightarrow> 'a obj_pool" where
  "pool_put k x p = p\<lparr>op_all_elements := (op_all_elements p)[k := (op_all_elements p ! k)\<lparr>pn_data := x\<rparr>]\<rparr>"

section \<open>The invariant\<close>

definition pool_inv :: "'a obj_pool \<Rightarrow> bool" where
  "pool_inv p \<longleftrightarrow>
     length (op_all_elements p) = op_total_size p \<and> length (op_unused_ids p) = op_total_size p \<and>
     op_unused_size p \<le> op_total_size p \<and> unat (op_base_id p) + op_total_size p + 1 < 2 ^ 32 \<and>
     distinct (take (op_unused_size p) (op_unused_ids p)) \<and>
     set (take (op_unused_size p) (op_unused_ids p)) = {i. pool_index_ok p i \<and> \<not> used_at p (unat i - 1)}"

text \<open>The identifier of the slot \<open>k\<close>.\<close>

definition slot_id :: "'a obj_pool \<Rightarrow> nat \<Rightarrow> objid" where
  "slot_id p k = op_convert p (of_nat (k + 1))"

definition used_ids :: "'a obj_pool \<Rightarrow> objid set" where
  "used_ids p = slot_id p ` {k. used_at p k}"

lemma pool_bounds:
  assumes "pool_inv p" "k \<le> op_total_size p"
  shows "unat (of_nat k :: objid) = k"
  using assms by (auto simp: pool_inv_def unat_of_nat)

lemma slot_id_unat:
  assumes "pool_inv p" "k < op_total_size p"
  shows "unat (slot_id p k) = unat (op_base_id p) + op_total_size p - k"
proof -
  let ?b = "unat (op_base_id p)" and ?t = "op_total_size p"
  have lt: "?b + ?t + 1 < 2 ^ 32" using assms(1) by (simp add: pool_inv_def)
  have "slot_id p k = of_nat (1 + ?b + ?t) - of_nat (k + 1)"
    by (simp add: slot_id_def ConvertId_def)
  also have "\<dots> = of_nat (1 + ?b + ?t - (k + 1))"
    using assms(2) by (subst of_nat_diff) simp_all
  finally have "unat (slot_id p k) = (1 + ?b + ?t - (k + 1)) mod 2 ^ 32" by (simp only: unat_of_nat) simp
  also have "\<dots> = ?b + ?t - k" using lt by simp
  finally show ?thesis .
qed

lemma convert_convert [simp]: "op_convert p (op_convert p i) = i"
  by (simp add: ConvertId_def)

lemma slot_convert: "op_convert p (slot_id p k) = of_nat (k + 1)"
  unfolding slot_id_def by (rule convert_convert)

lemma slot_index:
  assumes "pool_inv p" "k < op_total_size p"
  shows "unat (op_convert p (slot_id p k)) = k + 1" "pool_index_ok p (op_convert p (slot_id p k))"
  using pool_bounds [OF assms(1), of "k + 1"] assms(2) by (simp_all only: slot_convert pool_index_ok_def) auto

lemma pool_Get_slot: "pool_inv p \<Longrightarrow> k < op_total_size p \<Longrightarrow> pool_Get p (slot_id p k) = Some k"
  by (simp add: pool_Get_def slot_index)

lemma slot_id_inj: "pool_inv p \<Longrightarrow> inj_on (slot_id p) {k. k < op_total_size p}"
  by (rule inj_onI) (metis mem_Collect_eq option.inject pool_Get_slot)

lemma slot_id_not_0: "pool_inv p \<Longrightarrow> k < op_total_size p \<Longrightarrow> slot_id p k \<noteq> 0"
  using slot_id_unat [of p k] by auto

text \<open>The slots in use after setting the flag of one of them.\<close>

lemma set_used_ok:
  assumes "k < op_total_size p" "length (op_all_elements p) = op_total_size p" "unat i = k + 1"
  obtains p' where "set_used i u p = Some p'" "used_at p' = (used_at p)(k := u)" "pool_data p' = pool_data p"
    "op_base_id p' = op_base_id p" "op_total_size p' = op_total_size p" "op_unused_ids p' = op_unused_ids p"
    "op_unused_size p' = op_unused_size p" "length (op_all_elements p') = op_total_size p"
proof -
  have "i \<noteq> 0" using assms(3) by auto
  let ?p = "p\<lparr>op_all_elements := (op_all_elements p)[k := (op_all_elements p ! k)\<lparr>pn_used := u\<rparr>]\<rparr>"
  have "set_used i u p = Some ?p" using assms \<open>i \<noteq> 0\<close> by (simp add: set_used_def Let_def)
  moreover have "used_at ?p = (used_at p)(k := u)" "pool_data ?p = pool_data p"
    using assms by (auto simp: used_at_def pool_data_def nth_list_update fun_eq_iff)
  ultimately show ?thesis using that [of ?p] assms(2) by simp
qed

lemma pool_inv_D:
  assumes "pool_inv p"
  shows "length (op_all_elements p) = op_total_size p" "length (op_unused_ids p) = op_total_size p"
    "op_unused_size p \<le> op_total_size p" "distinct (take (op_unused_size p) (op_unused_ids p))"
    "set (take (op_unused_size p) (op_unused_ids p)) = {i. pool_index_ok p i \<and> \<not> used_at p (unat i - 1)}"
  using assms by (simp_all add: pool_inv_def)

lemma SafeAlloc_ok:
  assumes "pool_inv p" "0 < op_unused_size p"
  obtains k p' where "SafeAlloc p = Some (slot_id p k, p')" "k < op_total_size p" "\<not> used_at p k" "pool_inv p'"
    "used_at p' = (used_at p)(k := True)" "pool_data p' = pool_data p" "op_base_id p' = op_base_id p"
    "op_total_size p' = op_total_size p" "op_unused_size p' = op_unused_size p - 1"
proof -
  note inv = pool_inv_D [OF assms(1)]
  define n where "n = op_unused_size p - 1"
  define i where "i = op_unused_ids p ! n"
  have n: "op_unused_size p = Suc n" "n < length (op_unused_ids p)" using assms inv by (auto simp: n_def)
  have tk: "take (Suc n) (op_unused_ids p) = take n (op_unused_ids p) @ [i]"
    using n(2) by (simp add: i_def take_Suc_conv_app_nth)
  have i: "pool_index_ok p i" "\<not> used_at p (unat i - 1)" using inv(5) tk n(1) by auto
  define k where "k = unat i - 1"
  have k: "k < op_total_size p" "unat i = k + 1" using i(1) by (auto simp: k_def pool_index_ok_def)
  have conv: "op_convert p i = slot_id p k" unfolding slot_id_def k(2) [symmetric] by simp
  let ?p = "p\<lparr>op_unused_size := n\<rparr>"
  obtain p' where p': "set_used i True ?p = Some p'" "used_at p' = (used_at ?p)(k := True)" "pool_data p' = pool_data ?p"
    "op_base_id p' = op_base_id ?p" "op_total_size p' = op_total_size ?p" "op_unused_ids p' = op_unused_ids ?p"
    "op_unused_size p' = op_unused_size ?p" "length (op_all_elements p') = op_total_size ?p"
    using set_used_ok [of k ?p i True] k inv(1) by auto
  have used: "used_at ?p = used_at p" "pool_data ?p = pool_data p" by (auto simp: used_at_def pool_data_def fun_eq_iff)
  have "set (take n (op_unused_ids p)) = {j. pool_index_ok p j \<and> \<not> ((used_at p)(k := True)) (unat j - 1)}"
  proof -
    have "i \<notin> set (take n (op_unused_ids p))" using inv(4) n(1) tk by auto
    then have "set (take n (op_unused_ids p)) = {j. pool_index_ok p j \<and> \<not> used_at p (unat j - 1)} - {i}"
      using inv(5) n(1) tk by auto
    also have "\<dots> = {j. pool_index_ok p j \<and> \<not> ((used_at p)(k := True)) (unat j - 1)}"
      using k(2) by (auto simp: pool_index_ok_def k_def word_unat_eq_iff)
    finally show ?thesis .
  qed
  moreover have "distinct (take n (op_unused_ids p))" using inv(4) n(1) tk by simp
  ultimately have "pool_inv p'"
    using assms(1) inv n(1) p' used by (simp add: pool_inv_def pool_index_ok_def)
  moreover have "SafeAlloc p = Some (slot_id p k, p')"
    using n inv(3) conv p'(1) by (simp add: SafeAlloc_def Let_def i_def)
  moreover have "\<not> used_at p k" using i(2) by (simp only: k_def not_False_eq_True)
  ultimately show ?thesis using k(1) p' used n(1) by (intro that [of k p']) simp_all
qed

lemma Release_ok:
  assumes "pool_inv p" "used_at p k"
  obtains p' where "pool_ReleaseInternal (slot_id p k) p = Some p'" "pool_inv p'" "used_at p' = (used_at p)(k := False)"
    "pool_data p' = pool_data p" "op_base_id p' = op_base_id p" "op_total_size p' = op_total_size p"
    "op_unused_size p' = op_unused_size p + 1"
proof -
  note inv = pool_inv_D [OF assms(1)]
  define i where "i = op_convert p (slot_id p k)"
  define n where "n = op_unused_size p"
  have k: "k < op_total_size p" "unat i = k + 1" "pool_index_ok p i"
    using assms slot_index [OF assms(1), of k] by (auto simp: used_at_def i_def)
  have fresh: "i \<notin> set (take n (op_unused_ids p))" using inv(5) k(2) assms(2) by (simp add: n_def)
  have "n < op_total_size p"
  proof (rule ccontr)
    assume "\<not> n < op_total_size p"
    then have "card {j. pool_index_ok p j \<and> \<not> used_at p (unat j - 1)} = op_total_size p"
      using inv distinct_card [OF inv(4)] by (simp add: n_def)
    moreover have "{j. pool_index_ok p j \<and> \<not> used_at p (unat j - 1)} \<subseteq> of_nat ` ({1..op_total_size p} - {k + 1})"
    proof
      fix j
      assume j: "j \<in> {j. pool_index_ok p j \<and> \<not> used_at p (unat j - 1)}"
      then have "unat j \<in> {1..op_total_size p} - {k + 1}" using assms(2) by (auto simp: pool_index_ok_def)
      then show "j \<in> of_nat ` ({1..op_total_size p} - {k + 1})" by (intro image_eqI [of _ _ "unat j"]) simp_all
    qed
    then have "card {j. pool_index_ok p j \<and> \<not> used_at p (unat j - 1)} \<le> card ({1..op_total_size p} - {k + 1})"
      by (meson card_image_le card_mono finite_Diff finite_atLeastAtMost finite_imageI le_trans)
    moreover have "card ({1..op_total_size p} - {k + 1}) = op_total_size p - 1" using k(1) by simp
    ultimately show False using k(1) by simp
  qed
  let ?p = "p\<lparr>op_unused_size := n + 1, op_unused_ids := (op_unused_ids p)[n := i]\<rparr>"
  obtain p' where p': "set_used i False ?p = Some p'" "used_at p' = (used_at ?p)(k := False)" "pool_data p' = pool_data ?p"
    "op_base_id p' = op_base_id ?p" "op_total_size p' = op_total_size ?p" "op_unused_ids p' = op_unused_ids ?p"
    "op_unused_size p' = op_unused_size ?p" "length (op_all_elements p') = op_total_size ?p"
    using set_used_ok [of k ?p i False] k inv(1) by auto
  have used: "used_at ?p = used_at p" "pool_data ?p = pool_data p" by (auto simp: used_at_def pool_data_def fun_eq_iff)
  have tk: "take (n + 1) ((op_unused_ids p)[n := i]) = take n (op_unused_ids p) @ [i]"
    using \<open>n < op_total_size p\<close> inv(2) by (simp add: take_Suc_conv_app_nth)
  have "insert i {j. pool_index_ok p j \<and> \<not> used_at p (unat j - 1)} =
      {j. pool_index_ok p j \<and> \<not> ((used_at p)(k := False)) (unat j - 1)}"
    using k by (auto simp: pool_index_ok_def word_unat_eq_iff)
  then have "pool_inv p'"
    using assms(1) inv p' used tk fresh \<open>n < op_total_size p\<close>
    by (simp add: pool_inv_def pool_index_ok_def n_def [symmetric])
  moreover have "pool_ReleaseInternal (slot_id p k) p = Some p'"
    using k assms(2) p'(1) \<open>n < op_total_size p\<close>
    by (simp add: pool_ReleaseInternal_def Let_def i_def [symmetric] n_def [symmetric] used_at_def)
  ultimately show ?thesis using p' used by (intro that [of p']) (simp_all add: n_def)
qed

lemma SafeInit_inv:
  assumes "unat base_id + sz + 1 < 2 ^ 32"
  shows "pool_inv (pool_SafeInit junk base_id sz)" "\<not> used_at (pool_SafeInit junk base_id sz) k"
proof -
  let ?p = "pool_SafeInit junk base_id sz"
  show unused: "\<not> used_at ?p k" for k by (simp add: used_at_def pool_SafeInit_def)
  have small: "unat (of_nat j :: objid) = j" if "j \<le> sz" for j using assms that by (simp add: unat_of_nat)
  have "inj_on (\<lambda>i. of_nat (i + 1) :: objid) (set [0..<sz])"
  proof (rule inj_onI)
    fix x y
    assume "x \<in> set [0..<sz]" "y \<in> set [0..<sz]" "of_nat (x + 1) = (of_nat (y + 1) :: objid)"
    then have "x + 1 \<le> sz" "y + 1 \<le> sz" "unat (of_nat (x + 1) :: objid) = unat (of_nat (y + 1) :: objid)" by simp_all
    then have "x + 1 = y + 1" using small [of "x + 1"] small [of "y + 1"] by metis
    then show "x = y" by simp
  qed
  then have "distinct (map (\<lambda>i. of_nat (i + 1) :: objid) [0..<sz])" by (simp only: distinct_map distinct_upt simp_thms)
  moreover have "set (map (\<lambda>i. of_nat (i + 1) :: objid) [0..<sz]) = {i. 1 \<le> unat i \<and> unat i \<le> sz}"
  proof (intro equalityI subsetI)
    fix i :: objid
    assume "i \<in> {i. 1 \<le> unat i \<and> unat i \<le> sz}"
    then have "i = of_nat (unat i - 1 + 1)" "unat i - 1 \<in> set [0..<sz]" by auto
    then show "i \<in> set (map (\<lambda>i. of_nat (i + 1)) [0..<sz])" unfolding set_map by (rule image_eqI)
  next
    fix i :: objid
    assume "i \<in> set (map (\<lambda>i. of_nat (i + 1)) [0..<sz])"
    then obtain j where "i = of_nat (j + 1)" "j < sz" by auto
    then show "i \<in> {i. 1 \<le> unat i \<and> unat i \<le> sz}" using small [of "j + 1"] by auto
  qed
  ultimately show "pool_inv ?p"
    using assms unused by (simp add: pool_inv_def pool_SafeInit_def pool_index_ok_def)
qed

lemma used_finite: "finite {k. used_at p k}" "{k. used_at p k} \<subseteq> {..<op_total_size p}"
  by (auto simp: used_at_def)

lemma card_used:
  assumes "pool_inv p"
  shows "card {k. used_at p k} = GetObjectNum p"
proof -
  note inv = pool_inv_D [OF assms]
  let ?free = "{k. k < op_total_size p \<and> \<not> used_at p k}"
  have small: "unat (of_nat (k + 1) :: objid) = k + 1" if "k < op_total_size p" for k
    using pool_bounds [OF assms, of "k + 1"] that by simp
  have "bij_betw (\<lambda>k. of_nat (k + 1) :: objid) ?free {i. pool_index_ok p i \<and> \<not> used_at p (unat i - 1)}"
    by (rule bij_betw_byWitness [where f' = "\<lambda>i. unat i - 1"])
      (use small in \<open>auto simp: pool_index_ok_def simp del: of_nat_Suc of_nat_add\<close>)
  then have "card ?free = card {i. pool_index_ok p i \<and> \<not> used_at p (unat i - 1)}" by (rule bij_betw_same_card)
  also have "\<dots> = op_unused_size p"
    using distinct_card [OF inv(4)] inv(2,3,5) by simp
  finally have "card ?free = op_unused_size p" .
  moreover have "?free = {..<op_total_size p} - {k. used_at p k}" by auto
  moreover have "card ({..<op_total_size p} - {k. used_at p k}) = op_total_size p - card {k. used_at p k}"
    using used_finite by (subst card_Diff_subset) auto
  moreover have "card {k. used_at p k} \<le> op_total_size p"
    using card_mono [OF _ used_finite(2)] by simp
  ultimately show ?thesis using inv(3) by (simp add: GetObjectNum_def)
qed

lemma card_used_ids: "pool_inv p \<Longrightarrow> card (used_ids p) = GetObjectNum p"
  unfolding used_ids_def card_used [symmetric]
  by (rule card_image) (rule inj_on_subset [OF slot_id_inj], auto simp: used_at_def)

section \<open>The contract\<close>

text \<open>A client that allocates, and releases objects it holds by their position in its list.\<close>

datatype pool_op = PAlloc | PRelease nat

fun pool_client ::
  "('p \<Rightarrow> ('id \<times> 'p) option) \<Rightarrow> ('id \<Rightarrow> 'p \<Rightarrow> 'p option) \<Rightarrow> 'id \<Rightarrow> pool_op list \<Rightarrow> 'id list \<times> 'p \<Rightarrow>
   ('id list \<times> 'p) option" where
  "pool_client alloc release null [] s = Some s"
| "pool_client alloc release null (PAlloc # ops) (held, p) =
     do { (i, p') \<leftarrow> alloc p;
          pool_client alloc release null ops (if i = null then held else i # held, p') }"
| "pool_client alloc release null (PRelease n # ops) (held, p) =
     (if n < length held
      then do { p' \<leftarrow> release (held ! n) p;
                pool_client alloc release null ops (take n held @ drop (Suc n) held, p') }
      else pool_client alloc release null ops (held, p))"

locale id_pool =
  fixes inv :: "'p \<Rightarrow> bool" and used :: "'p \<Rightarrow> 'id set" and cap :: "'p \<Rightarrow> nat"
    and alloc :: "'p \<Rightarrow> ('id \<times> 'p) option" and release :: "'id \<Rightarrow> 'p \<Rightarrow> 'p option" and null :: 'id
  assumes used_bound: "inv p \<Longrightarrow> finite (used p) \<and> card (used p) \<le> cap p"
    and alloc_full: "inv p \<Longrightarrow> card (used p) = cap p \<Longrightarrow> alloc p = Some (null, p)"
    and alloc_ok: "inv p \<Longrightarrow> card (used p) < cap p \<Longrightarrow>
      \<exists>i p'. alloc p = Some (i, p') \<and> i \<noteq> null \<and> i \<notin> used p \<and> inv p' \<and> used p' = insert i (used p) \<and> cap p' = cap p"
    and release_ok: "inv p \<Longrightarrow> i \<in> used p \<Longrightarrow>
      \<exists>p'. release i p = Some p' \<and> inv p' \<and> used p' = used p - {i} \<and> cap p' = cap p"
begin

definition holds_all :: "'id list \<Rightarrow> 'p \<Rightarrow> bool" where
  "holds_all held p \<longleftrightarrow> inv p \<and> distinct held \<and> set held = used p"

lemma holds_alloc:
  assumes "holds_all held p"
  shows "\<exists>i p'. alloc p = Some (i, p') \<and> holds_all (if i = null then held else i # held) p' \<and> cap p' = cap p"
proof (cases "card (used p) = cap p")
  case True
  then show ?thesis using alloc_full assms by (auto simp: holds_all_def)
next
  case False
  then have "card (used p) < cap p" using used_bound assms by (auto simp: holds_all_def order_less_le)
  with alloc_ok [of p] assms show ?thesis by (fastforce simp: holds_all_def)
qed

lemma holds_release:
  assumes "holds_all held p" "n < length held"
  shows "\<exists>p'. release (held ! n) p = Some p' \<and> holds_all (take n held @ drop (Suc n) held) p' \<and> cap p' = cap p"
proof -
  obtain p' where p': "release (held ! n) p = Some p'" "inv p'" "used p' = used p - {held ! n}" "cap p' = cap p"
    using release_ok [of p "held ! n"] assms nth_mem by (auto simp: holds_all_def)
  have split: "held = take n held @ held ! n # drop (Suc n) held" using assms(2) by (rule id_take_nth_drop)
  have "distinct (take n held @ held ! n # drop (Suc n) held)" using assms(1) split by (simp add: holds_all_def)
  moreover have "set held = insert (held ! n) (set (take n held @ drop (Suc n) held))"
    by (subst split) auto
  ultimately have "holds_all (take n held @ drop (Suc n) held) p'"
    using p' assms(1) by (auto simp: holds_all_def)
  with p' show ?thesis by blast
qed

lemma client_ok:
  "holds_all held p \<Longrightarrow>
   \<exists>held' p'. pool_client alloc release null ops (held, p) = Some (held', p') \<and> holds_all held' p' \<and> cap p' = cap p"
proof (induction ops arbitrary: held p)
  case (Cons op ops)
  show ?case
  proof (cases op)
    case PAlloc
    obtain i p' where a: "alloc p = Some (i, p')" "holds_all (if i = null then held else i # held) p'" "cap p' = cap p"
      using holds_alloc [OF Cons.prems] by blast
    from Cons.IH [OF a(2)] a show ?thesis by (simp add: PAlloc)
  next
    case (PRelease n)
    show ?thesis
    proof (cases "n < length held")
      case True
      obtain p' where r: "release (held ! n) p = Some p'" "holds_all (take n held @ drop (Suc n) held) p'" "cap p' = cap p"
        using holds_release [OF Cons.prems True] by blast
      from Cons.IH [OF r(2)] r True show ?thesis by (simp add: PRelease)
    next
      case False
      then show ?thesis using Cons by (simp add: PRelease)
    qed
  qed
qed simp

lemma held_count: "holds_all held p \<Longrightarrow> length held = card (used p)"
  using distinct_card [of held] by (simp add: holds_all_def)

end

interpretation pool: id_pool pool_inv used_ids op_total_size SafeAlloc pool_ReleaseInternal 0
proof unfold_locales
  fix p :: "'a obj_pool"
  assume inv: "pool_inv p"
  show "finite (used_ids p) \<and> card (used_ids p) \<le> op_total_size p"
    using card_used_ids [OF inv] used_finite by (simp add: GetObjectNum_def used_ids_def)
next
  fix p :: "'a obj_pool"
  assume inv: "pool_inv p" "card (used_ids p) = op_total_size p"
  then have "op_unused_size p = 0"
    using card_used_ids [OF inv(1)] pool_inv_D(3) [OF inv(1)] by (auto simp: GetObjectNum_def)
  then show "SafeAlloc p = Some (0, p)" by (simp add: SafeAlloc_def)
next
  fix p :: "'a obj_pool"
  assume inv: "pool_inv p" "card (used_ids p) < op_total_size p"
  then have "0 < op_unused_size p" using card_used_ids [OF inv(1)] by (auto simp: GetObjectNum_def)
  with inv(1) obtain k p' where a: "SafeAlloc p = Some (slot_id p k, p')" "k < op_total_size p" "\<not> used_at p k" "pool_inv p'"
    "used_at p' = (used_at p)(k := True)" "op_base_id p' = op_base_id p" "op_total_size p' = op_total_size p"
    by (rule SafeAlloc_ok) blast
  have "slot_id p' = slot_id p" using a by (simp add: slot_id_def fun_eq_iff)
  then have "used_ids p' = insert (slot_id p k) (used_ids p)" using a(5) by (auto simp: used_ids_def)
  moreover have "slot_id p k \<notin> used_ids p"
    using a(2,3) slot_id_inj [OF inv(1)] by (auto simp: used_ids_def used_at_def dest: inj_onD)
  ultimately show "\<exists>i p'. SafeAlloc p = Some (i, p') \<and> i \<noteq> 0 \<and> i \<notin> used_ids p \<and> pool_inv p' \<and>
      used_ids p' = insert i (used_ids p) \<and> op_total_size p' = op_total_size p"
    using a slot_id_not_0 [OF inv(1) a(2)] by blast
next
  fix p :: "'a obj_pool" and i
  assume inv: "pool_inv p" "i \<in> used_ids p"
  then obtain k where k: "i = slot_id p k" "used_at p k" by (auto simp: used_ids_def)
  from inv(1) k(2) obtain p' where r: "pool_ReleaseInternal (slot_id p k) p = Some p'" "pool_inv p'"
    "used_at p' = (used_at p)(k := False)" "op_base_id p' = op_base_id p" "op_total_size p' = op_total_size p"
    by (rule Release_ok) blast
  have "slot_id p' = slot_id p" using r by (simp add: slot_id_def fun_eq_iff)
  moreover have "slot_id p j = slot_id p k \<longleftrightarrow> j = k" if "used_at p j" for j
    using that k(2) slot_id_inj [OF inv(1)] by (auto simp: used_at_def dest: inj_onD)
  ultimately have "used_ids p' = used_ids p - {i}" using r(3) k by (auto simp: used_ids_def)
  with r k show "\<exists>p'. pool_ReleaseInternal i p = Some p' \<and> pool_inv p' \<and> used_ids p' = used_ids p - {i} \<and>
      op_total_size p' = op_total_size p" by blast
qed

lemma used_ids_range:
  assumes "pool_inv p" "i \<in> used_ids p"
  shows "unat (op_base_id p) < unat i \<and> unat i \<le> unat (op_base_id p) + op_total_size p \<and>
    (\<exists>k. pool_Get p i = Some k \<and> used_at p k \<and> i = slot_id p k)"
  using assms slot_id_unat [OF assms(1)] pool_Get_slot [OF assms(1)] by (auto simp: used_ids_def used_at_def)

lemma client_total:
  assumes "pool_client alloc release null ops (held, p) = Some (held', p')"
    and a: "\<And>q i q'. alloc q = Some (i, q') \<Longrightarrow> f q' = f q" and r: "\<And>i q q'. release i q = Some q' \<Longrightarrow> f q' = f q"
  shows "f p' = f p"
  using assms(1)
proof (induction ops arbitrary: held p)
  case (Cons op ops)
  show ?case
  proof (cases op)
    case PAlloc
    then obtain i q held1 where "alloc p = Some (i, q)" "pool_client alloc release null ops (held1, q) = Some (held', p')"
      using Cons.prems by (auto simp: bind_eq_Some_conv)
    then show ?thesis using Cons.IH a by metis
  next
    case (PRelease n)
    then consider "pool_client alloc release null ops (held, p) = Some (held', p')"
      | q held1 where "release (held ! n) p = Some q" "pool_client alloc release null ops (held1, q) = Some (held', p')"
      using Cons.prems by (auto simp: bind_eq_Some_conv split: if_splits)
    then show ?thesis using Cons.IH r by metis
  qed
qed simp

lemma pool_base_stable:
  "SafeAlloc q = Some (i, q') \<Longrightarrow> op_base_id q' = op_base_id q"
  "pool_ReleaseInternal i q = Some q' \<Longrightarrow> op_base_id q' = op_base_id q"
  by (auto simp: SafeAlloc_def pool_ReleaseInternal_def set_used_def Let_def split: if_splits)

text \<open>
  C12. In every sequence of allocations and releases by a client of a new pool: no assertion
  fails, the objects held are distinct, are all the objects in use, and their number is what
  \<open>GetObjectNum\<close> returns; their identifiers lie above the base and lead back to a used slot; and an
  allocation fails exactly when all objects are held.
\<close>

theorem object_pool_exclusive:
  assumes "unat base_id + sz + 1 < 2 ^ 32"
  shows "\<exists>held p. pool_client SafeAlloc pool_ReleaseInternal 0 ops ([], pool_SafeInit junk base_id sz) = Some (held, p) \<and>
    distinct held \<and> set held = used_ids p \<and> GetObjectNum p = length held \<and> length held \<le> sz \<and>
    (\<forall>i \<in> set held. unat base_id < unat i \<and> unat i \<le> unat base_id + sz \<and> (\<exists>k. pool_Get p i = Some k \<and> used_at p k)) \<and>
    (\<exists>i p'. SafeAlloc p = Some (i, p') \<and> (i = 0 \<longleftrightarrow> length held = sz) \<and> i \<notin> set held)"
proof -
  let ?p0 = "pool_SafeInit junk base_id sz"
  have "pool.holds_all [] ?p0"
    using SafeInit_inv [OF assms, of junk] by (auto simp: pool.holds_all_def used_ids_def)
  then obtain held p where run: "pool_client SafeAlloc pool_ReleaseInternal 0 ops ([], ?p0) = Some (held, p)"
    and h: "pool.holds_all held p" and t: "op_total_size p = op_total_size ?p0"
    using pool.client_ok by blast
  have t: "op_total_size p = sz" using t by (simp add: pool_SafeInit_def)
  have b: "op_base_id p = base_id"
    using client_total [where f = op_base_id, OF run pool_base_stable] by (simp add: pool_SafeInit_def)
  have inv: "pool_inv p" "distinct held" "set held = used_ids p" using h by (auto simp: pool.holds_all_def)
  have len: "length held = GetObjectNum p" "length held \<le> sz"
    using pool.held_count [OF h] card_used_ids [OF inv(1)] pool.used_bound [OF inv(1)] t by auto
  have "\<exists>i p'. SafeAlloc p = Some (i, p') \<and> (i = 0 \<longleftrightarrow> length held = sz) \<and> i \<notin> set held"
  proof (cases "length held = sz")
    case True
    then have "SafeAlloc p = Some (0, p)" using pool.alloc_full [OF inv(1)] pool.held_count [OF h] t by simp
    moreover have "0 \<notin> used_ids p" using used_ids_range [OF inv(1), of 0] by auto
    ultimately show ?thesis using True inv(3) by auto
  next
    case False
    then have "card (used_ids p) < op_total_size p" using pool.held_count [OF h] len t by simp
    from pool.alloc_ok [OF inv(1) this] False inv(3) show ?thesis by auto
  qed
  then show ?thesis
    using run inv len used_ids_range [OF inv(1)] t b by (intro exI [of _ held] exI [of _ p]) auto
qed

lemma object_pool_exclusive_witness:
  "\<exists>held p. pool_client SafeAlloc pool_ReleaseInternal 0 [PAlloc, PAlloc, PRelease 1, PAlloc]
      ([], pool_SafeInit (\<lambda>_. ()) 600000 2) = Some (held, p) \<and> distinct held \<and> GetObjectNum p = length held"
  using object_pool_exclusive [of 600000 2 "[PAlloc, PAlloc, PRelease 1, PAlloc]" "\<lambda>_. ()"] by auto

end
