(* ===== verification/City.thy ===== *)
theory City
  imports TcpPacketDef
begin

text \<open>
  \<^verbatim>\<open>src/base/cityhash/city.cc\<close>: the hash function that the account list uses for user ids
  (\<open>CityHash64\<close>) and its 32-bit variant. The string is the list of its bytes; every fetch is checked
  against it, so that \<open>None\<close> is a read outside the string. The byte order is little endian.
\<close>

type_synonym uint64 = "64 word"
type_synonym uint32 = "32 word"

definition Fetch64 :: "byte list \<Rightarrow> int \<Rightarrow> uint64 option" where
  "Fetch64 s off = (if off < 0 then None else map_option le_word (read_at s (nat off) 8))"

definition Fetch32 :: "byte list \<Rightarrow> int \<Rightarrow> uint32 option" where
  "Fetch32 s off = (if off < 0 then None else map_option (\<lambda>bs. ucast (le_word bs)) (read_at s (nat off) 4))"

definition fetch8 :: "byte list \<Rightarrow> nat \<Rightarrow> byte option" where
  "fetch8 s off = (if off < length s then Some (s ! off) else None)"

definition k0 :: uint64 where "k0 = 0xc3a5c85c97cb3127"
definition k1 :: uint64 where "k1 = 0xb492b66fbe98f273"
definition k2 :: uint64 where "k2 = 0x9ae16a3b2f90404f"
definition c1 :: uint32 where "c1 = 0xcc9e2d51"
definition c2 :: uint32 where "c2 = 0x1b873593"

definition bswap_32 :: "uint32 \<Rightarrow> uint32" where
  "bswap_32 x = push_bit 24 x OR (push_bit 8 x AND 0xff0000) OR (drop_bit 8 x AND 0xff00) OR drop_bit 24 x"

definition bswap_64 :: "uint64 \<Rightarrow> uint64" where
  "bswap_64 x = le_word (rev (le_bytes x))"

section \<open>The 32-bit hash\<close>

definition fmix :: "uint32 \<Rightarrow> uint32" where
  "fmix h0 =
     (let h1 = h0 XOR drop_bit 16 h0; h2 = h1 * 0x85ebca6b; h3 = h2 XOR drop_bit 13 h2; h4 = h3 * 0xc2b2ae35
      in h4 XOR drop_bit 16 h4)"

definition Rotate32 :: "uint32 \<Rightarrow> nat \<Rightarrow> uint32" where
  "Rotate32 val sh = (if sh = 0 then val else drop_bit sh val OR push_bit (32 - sh) val)"

definition Mur :: "uint32 \<Rightarrow> uint32 \<Rightarrow> uint32" where
  "Mur a h = (let a1 = Rotate32 (a * c1) 17 * c2; h1 = Rotate32 (h XOR a1) 19 in h1 * 5 + 0xe6546b64)"

definition Hash32Len13to24 :: "byte list \<Rightarrow> uint32 option" where
  "Hash32Len13to24 s = do {
     let len = int (length s);
     a \<leftarrow> Fetch32 s (- 4 + len div 2);
     b \<leftarrow> Fetch32 s 4;
     c \<leftarrow> Fetch32 s (len - 8);
     d \<leftarrow> Fetch32 s (len div 2);
     e \<leftarrow> Fetch32 s 0;
     f \<leftarrow> Fetch32 s (len - 4);
     Some (fmix (Mur f (Mur e (Mur d (Mur c (Mur b (Mur a (of_int len))))))))
   }"

text \<open>The loop of \<open>Hash32Len0to4\<close> over the characters, which are signed.\<close>

definition Hash32Len0to4 :: "byte list \<Rightarrow> uint32 option" where
  "Hash32Len0to4 s =
     (let (b, c) = fold (\<lambda>v (b, c). let b1 = b * c1 + scast v in (b1, c XOR b1)) s (0, 9)
      in Some (fmix (Mur b (Mur (of_nat (length s)) c))))"

definition Hash32Len5to12 :: "byte list \<Rightarrow> uint32 option" where
  "Hash32Len5to12 s = do {
     let len = int (length s);
     let d = (of_int len :: uint32) * 5;
     a \<leftarrow> Fetch32 s 0;
     b \<leftarrow> Fetch32 s (len - 4);
     c \<leftarrow> Fetch32 s (int ((length s div 2) AND 4));
     Some (fmix (Mur (9 + c) (Mur (d + b) (Mur (of_int len + a) d))))
   }"

definition rot5 :: "uint32 \<Rightarrow> nat \<Rightarrow> uint32" where
  "rot5 h sh = Rotate32 h sh * 5 + 0xe6546b64"

text \<open>One round of \<open>CityHash32\<close> at the offset \<open>off\<close>; the state is \<open>(h, g, f)\<close>.\<close>

definition city32_round :: "byte list \<Rightarrow> int \<Rightarrow> uint32 \<times> uint32 \<times> uint32 \<Rightarrow> (uint32 \<times> uint32 \<times> uint32) option" where
  "city32_round s off st = do {
     let (h, g, f) = st;
     f0 \<leftarrow> Fetch32 s off;
     a1 \<leftarrow> Fetch32 s (off + 4);
     f2 \<leftarrow> Fetch32 s (off + 8);
     f3 \<leftarrow> Fetch32 s (off + 12);
     a4 \<leftarrow> Fetch32 s (off + 16);
     let a0 = Rotate32 (f0 * c1) 17 * c2;
     let a2 = Rotate32 (f2 * c1) 17 * c2;
     let a3 = Rotate32 (f3 * c1) 17 * c2;
     let h1 = rot5 (h XOR a0) 18;
     let f1 = Rotate32 (f + a1) 19 * c1;
     let g1 = rot5 (g + a2) 18;
     let h2 = rot5 (h1 XOR (a3 + a1)) 19;
     let g2 = bswap_32 (g1 XOR a4) * 5;
     let h3 = bswap_32 (h2 + a4 * 5);
     let f2 = f1 + a0;
     Some (f2, h3, g2)
   }"

primrec city32_loop :: "nat \<Rightarrow> byte list \<Rightarrow> int \<Rightarrow> uint32 \<times> uint32 \<times> uint32 \<Rightarrow> (uint32 \<times> uint32 \<times> uint32) option" where
  "city32_loop 0 s off st = Some st"
| "city32_loop (Suc iters) s off st = do { st1 \<leftarrow> city32_round s off st; city32_loop iters s (off + 20) st1 }"

definition CityHash32 :: "byte list \<Rightarrow> uint32 option" where
  "CityHash32 s =
     (let len = int (length s) in
      if len \<le> 24
      then (if len \<le> 12 then if len \<le> 4 then Hash32Len0to4 s else Hash32Len5to12 s else Hash32Len13to24 s)
      else do {
        let g = c1 * of_int len;
        e0 \<leftarrow> Fetch32 s (len - 4);
        e1 \<leftarrow> Fetch32 s (len - 8);
        e2 \<leftarrow> Fetch32 s (len - 16);
        e3 \<leftarrow> Fetch32 s (len - 12);
        e4 \<leftarrow> Fetch32 s (len - 20);
        let a0 = Rotate32 (e0 * c1) 17 * c2;
        let a1 = Rotate32 (e1 * c1) 17 * c2;
        let a2 = Rotate32 (e2 * c1) 17 * c2;
        let a3 = Rotate32 (e3 * c1) 17 * c2;
        let a4 = Rotate32 (e4 * c1) 17 * c2;
        let h1 = rot5 (rot5 (of_int len XOR a0) 19 XOR a2) 19;
        let g1 = rot5 (rot5 (g XOR a1) 19 XOR a3) 19;
        let f1 = rot5 (g + a4) 19;
        (h2, g2, f2) \<leftarrow> city32_loop ((length s - 1) div 20) s 0 (h1, g1, f1);
        let g3 = Rotate32 (Rotate32 g2 11 * c1) 17 * c1;
        let f3 = Rotate32 (Rotate32 f2 11 * c1) 17 * c1;
        let h3 = Rotate32 (rot5 (h2 + g3) 19) 17 * c1;
        Some (Rotate32 (rot5 (h3 + f3) 19) 17 * c1)
      })"

section \<open>The 64-bit hash\<close>

definition Rotate :: "uint64 \<Rightarrow> nat \<Rightarrow> uint64" where
  "Rotate val sh = (if sh = 0 then val else drop_bit sh val OR push_bit (64 - sh) val)"

definition ShiftMix :: "uint64 \<Rightarrow> uint64" where
  "ShiftMix val = val XOR drop_bit 47 val"

definition Hash128to64 :: "uint64 \<times> uint64 \<Rightarrow> uint64" where
  "Hash128to64 x =
     (let kMul = 0x9ddfea08eb382d69;
          a0 = (fst x XOR snd x) * kMul; a = a0 XOR drop_bit 47 a0;
          b0 = (snd x XOR a) * kMul; b = b0 XOR drop_bit 47 b0
      in b * kMul)"

definition HashLen16 :: "uint64 \<Rightarrow> uint64 \<Rightarrow> uint64" where
  "HashLen16 u v = Hash128to64 (u, v)"

definition HashLen16_mul :: "uint64 \<Rightarrow> uint64 \<Rightarrow> uint64 \<Rightarrow> uint64" where
  "HashLen16_mul u v mul =
     (let a0 = (u XOR v) * mul; a = a0 XOR drop_bit 47 a0;
          b0 = (v XOR a) * mul; b = b0 XOR drop_bit 47 b0
      in b * mul)"

definition HashLen0to16 :: "byte list \<Rightarrow> uint64 option" where
  "HashLen0to16 s =
     (let len = int (length s); mul = k2 + of_int len * 2 in
      if 8 \<le> len then do {
        f0 \<leftarrow> Fetch64 s 0;
        b \<leftarrow> Fetch64 s (len - 8);
        let a = f0 + k2;
        let c = Rotate b 37 * mul + a;
        let d = (Rotate a 25 + b) * mul;
        Some (HashLen16_mul c d mul)
      }
      else if 4 \<le> len then do {
        a \<leftarrow> Fetch32 s 0;
        b \<leftarrow> Fetch32 s (len - 4);
        Some (HashLen16_mul (of_int len + push_bit 3 (ucast a)) (ucast b) mul)
      }
      else if 0 < len then do {
        a \<leftarrow> fetch8 s 0;
        b \<leftarrow> fetch8 s (length s div 2);
        c \<leftarrow> fetch8 s (length s - 1);
        let y = (ucast a :: uint32) + push_bit 8 (ucast b);
        let z = (of_int len :: uint32) + push_bit 2 (ucast c);
        Some (ShiftMix (ucast y * k2 XOR ucast z * k0) * k2)
      }
      else Some k2)"

definition HashLen17to32 :: "byte list \<Rightarrow> uint64 option" where
  "HashLen17to32 s = do {
     let len = int (length s);
     let mul = k2 + of_int len * 2;
     f0 \<leftarrow> Fetch64 s 0;
     b \<leftarrow> Fetch64 s 8;
     f2 \<leftarrow> Fetch64 s (len - 8);
     f3 \<leftarrow> Fetch64 s (len - 16);
     let a = f0 * k1;
     let c = f2 * mul;
     let d = f3 * k2;
     Some (HashLen16_mul (Rotate (a + b) 43 + Rotate c 30 + d) (a + Rotate (b + k2) 18 + c) mul)
   }"

definition WeakHashLen32WithSeeds ::
  "uint64 \<Rightarrow> uint64 \<Rightarrow> uint64 \<Rightarrow> uint64 \<Rightarrow> uint64 \<Rightarrow> uint64 \<Rightarrow> uint64 \<times> uint64" where
  "WeakHashLen32WithSeeds w x y z a0 b0 =
     (let c = a0 + w; b1 = Rotate (b0 + c + z) 21; a2 = c + x + y in (a2 + z, b1 + Rotate a2 44 + c))"

definition weak_hash_at :: "byte list \<Rightarrow> int \<Rightarrow> uint64 \<Rightarrow> uint64 \<Rightarrow> (uint64 \<times> uint64) option" where
  "weak_hash_at s off a b = do {
     w \<leftarrow> Fetch64 s off;
     x \<leftarrow> Fetch64 s (off + 8);
     y \<leftarrow> Fetch64 s (off + 16);
     z \<leftarrow> Fetch64 s (off + 24);
     Some (WeakHashLen32WithSeeds w x y z a b)
   }"

definition HashLen33to64 :: "byte list \<Rightarrow> uint64 option" where
  "HashLen33to64 s = do {
     let len = int (length s);
     let mul = k2 + of_int len * 2;
     f0 \<leftarrow> Fetch64 s 0;
     b \<leftarrow> Fetch64 s 8;
     c \<leftarrow> Fetch64 s (len - 24);
     d \<leftarrow> Fetch64 s (len - 32);
     f4 \<leftarrow> Fetch64 s 16;
     f5 \<leftarrow> Fetch64 s 24;
     g \<leftarrow> Fetch64 s (len - 8);
     f7 \<leftarrow> Fetch64 s (len - 16);
     let a = f0 * k2;
     let e = f4 * k2;
     let f = f5 * 9;
     let h = f7 * mul;
     let u = Rotate (a + g) 43 + (Rotate b 30 + c) * 9;
     let v = ((a + g) XOR d) + f + 1;
     let w = bswap_64 ((u + v) * mul) + h;
     let x = Rotate (e + f) 42 + c;
     let y = (bswap_64 ((v + w) * mul) + g) * mul;
     let z = e + f + c;
     let a1 = bswap_64 ((x + z) * mul + y) + b;
     let b1 = ShiftMix ((z + a1) * mul + d + h) * mul;
     Some (b1 + x)
   }"

text \<open>The 56 bytes of state of the loop and one round at the offset \<open>off\<close>.\<close>

record city_state =
  cs_v :: "uint64 \<times> uint64"
  cs_w :: "uint64 \<times> uint64"
  cs_x :: uint64
  cs_y :: uint64
  cs_z :: uint64

definition city64_round :: "byte list \<Rightarrow> int \<Rightarrow> city_state \<Rightarrow> city_state option" where
  "city64_round s off st = do {
     let v = cs_v st;
     let w = cs_w st;
     f8 \<leftarrow> Fetch64 s (off + 8);
     f48 \<leftarrow> Fetch64 s (off + 48);
     f40 \<leftarrow> Fetch64 s (off + 40);
     f16 \<leftarrow> Fetch64 s (off + 16);
     let x1 = Rotate (cs_x st + cs_y st + fst v + f8) 37 * k1;
     let y1 = Rotate (cs_y st + snd v + f48) 42 * k1;
     let x2 = x1 XOR snd w;
     let y2 = y1 + (fst v + f40);
     let z1 = Rotate (cs_z st + fst w) 33 * k1;
     v1 \<leftarrow> weak_hash_at s off (snd v * k1) (x2 + fst w);
     w1 \<leftarrow> weak_hash_at s (off + 32) (z1 + snd w) (y2 + f16);
     Some \<lparr>cs_v = v1, cs_w = w1, cs_x = z1, cs_y = y2, cs_z = x2\<rparr>
   }"

primrec city64_loop :: "nat \<Rightarrow> byte list \<Rightarrow> int \<Rightarrow> city_state \<Rightarrow> city_state option" where
  "city64_loop 0 s off st = Some st"
| "city64_loop (Suc k) s off st = do { st1 \<leftarrow> city64_round s off st; city64_loop k s (off + 64) st1 }"

definition CityHash64 :: "byte list \<Rightarrow> uint64 option" where
  "CityHash64 s =
     (let len = int (length s) in
      if len \<le> 32 then if len \<le> 16 then HashLen0to16 s else HashLen17to32 s
      else if len \<le> 64 then HashLen33to64 s
      else do {
        x \<leftarrow> Fetch64 s (len - 40);
        f16 \<leftarrow> Fetch64 s (len - 16);
        f56 \<leftarrow> Fetch64 s (len - 56);
        f48 \<leftarrow> Fetch64 s (len - 48);
        f24 \<leftarrow> Fetch64 s (len - 24);
        let y = f16 + f56;
        let z = HashLen16 (f48 + of_int len) f24;
        v \<leftarrow> weak_hash_at s (len - 64) (of_int len) z;
        w \<leftarrow> weak_hash_at s (len - 32) (y + k1) x;
        f0 \<leftarrow> Fetch64 s 0;
        st \<leftarrow> city64_loop ((length s - 1) div 64) s 0 \<lparr>cs_v = v, cs_w = w, cs_x = x * k1 + f0, cs_y = y, cs_z = z\<rparr>;
        Some (HashLen16 (HashLen16 (fst (cs_v st)) (fst (cs_w st)) + ShiftMix (cs_y st) * k1 + cs_z st)
               (HashLen16 (snd (cs_v st)) (snd (cs_w st)) + cs_x st))
      })"

definition CityHash64WithSeeds :: "byte list \<Rightarrow> uint64 \<Rightarrow> uint64 \<Rightarrow> uint64 option" where
  "CityHash64WithSeeds s seed0 seed1 = map_option (\<lambda>h. HashLen16 (h - seed0) seed1) (CityHash64 s)"

definition CityHash64WithSeed :: "byte list \<Rightarrow> uint64 \<Rightarrow> uint64 option" where
  "CityHash64WithSeed s seed = CityHash64WithSeeds s k2 seed"

section \<open>Every read stays inside the string\<close>

definition runs_ok :: "'a option \<Rightarrow> bool" where
  "runs_ok m \<longleftrightarrow> (\<exists>x. m = Some x)"

named_theorems city_ok \<open>computations without a read outside the string\<close>

lemma runs_ok_Some [city_ok]: "runs_ok (Some x)"
  by (simp add: runs_ok_def)

lemma runs_ok_bind [city_ok]: "runs_ok m \<Longrightarrow> (\<And>x. runs_ok (f x)) \<Longrightarrow> runs_ok (m \<bind> f)"
  by (auto simp: runs_ok_def)

lemma runs_ok_Let [city_ok]: "(\<And>x. x = e \<Longrightarrow> runs_ok (f x)) \<Longrightarrow> runs_ok (Let e f)"
  by simp

lemma runs_ok_prod [city_ok]: "(\<And>x y. runs_ok (f x y)) \<Longrightarrow> runs_ok (case p of (x, y) \<Rightarrow> f x y)"
  by (cases p) simp

lemma runs_ok_map [city_ok]: "runs_ok m \<Longrightarrow> runs_ok (map_option f m)"
  by (auto simp: runs_ok_def)

lemma Fetch64_ok [city_ok]: "0 \<le> off \<Longrightarrow> off + 8 \<le> int (length s) \<Longrightarrow> runs_ok (Fetch64 s off)"
  by (auto simp: Fetch64_def read_at_def runs_ok_def)

lemma Fetch32_ok [city_ok]: "0 \<le> off \<Longrightarrow> off + 4 \<le> int (length s) \<Longrightarrow> runs_ok (Fetch32 s off)"
  by (auto simp: Fetch32_def read_at_def runs_ok_def)

lemma fetch8_ok [city_ok]: "off < length s \<Longrightarrow> runs_ok (fetch8 s off)"
  by (simp add: fetch8_def runs_ok_def)

lemma weak_hash_ok [city_ok]: "0 \<le> off \<Longrightarrow> off + 32 \<le> int (length s) \<Longrightarrow> runs_ok (weak_hash_at s off a b)"
  unfolding weak_hash_at_def by (intro city_ok) auto

lemma city64_round_ok: "0 \<le> off \<Longrightarrow> off + 64 \<le> int (length s) \<Longrightarrow> runs_ok (city64_round s off st)"
  unfolding city64_round_def by (intro city_ok) auto

lemma city64_loop_ok: "0 \<le> off \<Longrightarrow> off + 64 * int k \<le> int (length s) \<Longrightarrow> runs_ok (city64_loop k s off st)"
  by (induction k arbitrary: off st) (auto intro!: city_ok city64_round_ok)

lemma HashLen0to16_ok: "runs_ok (HashLen0to16 s)"
proof -
  consider "8 \<le> length s" | "length s < 8" "4 \<le> length s" | "length s < 4" "0 < length s" | "s = []" by fastforce
  then show ?thesis
    unfolding HashLen0to16_def Let_def by cases (auto intro!: city_ok)
qed

lemma HashLen17to32_ok: "16 \<le> length s \<Longrightarrow> runs_ok (HashLen17to32 s)"
  unfolding HashLen17to32_def by (intro city_ok) auto

lemma HashLen33to64_ok: "32 \<le> length s \<Longrightarrow> runs_ok (HashLen33to64 s)"
  unfolding HashLen33to64_def by (intro city_ok) auto

lemma CityHash64_ok: "runs_ok (CityHash64 s)"
proof -
  have "64 * ((length s - 1) div 64) \<le> length s" by simp
  then have "64 * int ((length s - 1) div 64) \<le> int (length s)" by linarith
  then have loop: "runs_ok (city64_loop ((length s - 1) div 64) s 0 st)" for st
    by (intro city64_loop_ok) auto
  consider "length s \<le> 16" | "16 < length s" "length s \<le> 32" | "32 < length s" "length s \<le> 64" | "64 < length s" by linarith
  then show ?thesis
  proof cases
    case 4
    then show ?thesis
      unfolding CityHash64_def Let_def
      by (simp, intro city_ok loop [simplified]) auto
  qed (auto simp: CityHash64_def Let_def HashLen0to16_ok HashLen17to32_ok HashLen33to64_ok)
qed

lemma Hash32_small_ok:
  "runs_ok (Hash32Len0to4 s)" "4 < length s \<Longrightarrow> length s \<le> 12 \<Longrightarrow> runs_ok (Hash32Len5to12 s)"
  "12 < length s \<Longrightarrow> runs_ok (Hash32Len13to24 s)"
proof -
  show "runs_ok (Hash32Len0to4 s)" by (simp add: Hash32Len0to4_def split_beta Let_def city_ok)
  show "runs_ok (Hash32Len13to24 s)" if "12 < length s"
    unfolding Hash32Len13to24_def using that by (intro city_ok) auto
  show "runs_ok (Hash32Len5to12 s)" if "4 < length s" "length s \<le> 12"
  proof -
    have "list_all (\<lambda>n :: nat. (n div 2 AND 4) + 4 \<le> n) [5..<13]" by code_simp
    note this [unfolded list_all_iff, rule_format, of "length s"]
    moreover have "length s \<in> set [5..<13]" using that by (simp only: set_upt atLeastLessThan_iff) simp
    ultimately have "(length s div 2 AND 4) + 4 \<le> length s" by blast
    then show ?thesis
      unfolding Hash32Len5to12_def using that by (intro city_ok) auto
  qed
qed

lemma city32_round_ok: "0 \<le> off \<Longrightarrow> off + 20 \<le> int (length s) \<Longrightarrow> runs_ok (city32_round s off st)"
  unfolding city32_round_def by (intro city_ok) auto

lemma city32_loop_ok: "0 \<le> off \<Longrightarrow> off + 20 * int k \<le> int (length s) \<Longrightarrow> runs_ok (city32_loop k s off st)"
  by (induction k arbitrary: off st) (auto intro!: city_ok city32_round_ok)

lemma CityHash32_ok: "runs_ok (CityHash32 s)"
proof -
  have "20 * ((length s - 1) div 20) \<le> length s" by simp
  then have "20 * int ((length s - 1) div 20) \<le> int (length s)" by linarith
  then have loop: "runs_ok (city32_loop ((length s - 1) div 20) s 0 st)" for st
    by (intro city32_loop_ok) auto
  consider "length s \<le> 4" | "4 < length s" "length s \<le> 12" | "12 < length s" "length s \<le> 24" | "24 < length s" by linarith
  then show ?thesis
  proof cases
    case 4
    then show ?thesis
      unfolding CityHash32_def Let_def by (simp, intro city_ok loop [simplified]) auto
  qed (auto simp: CityHash32_def Let_def Hash32_small_ok)
qed

text \<open>
  The hash functions return for every string and never read outside it, whichever of the
  length classes the string falls into.
\<close>

theorem city_hash_total:
  "(\<exists>h. CityHash64 s = Some h) \<and> (\<exists>h. CityHash32 s = Some h) \<and> (\<exists>h. CityHash64WithSeed s seed = Some h)"
  using CityHash64_ok [of s] CityHash32_ok [of s]
  by (auto simp: runs_ok_def CityHash64WithSeed_def CityHash64WithSeeds_def)

text \<open>The hash of a user id.\<close>

definition uid_hash :: "byte list \<Rightarrow> uint64" where
  "uid_hash s = (case CityHash64 s of Some h \<Rightarrow> h | None \<Rightarrow> 0)"

text \<open>There are more user ids than hash values.\<close>

lemma uid_hash_collision: "\<exists>s t. s \<noteq> t \<and> uid_hash s = uid_hash t \<and> length s = 9 \<and> length t = 9 \<and> 0 \<notin> set s \<and> 0 \<notin> set t"
proof -
  let ?S = "{s :: byte list. set s \<subseteq> UNIV - {0} \<and> length s = 9}"
  have "card ?S = card (UNIV - {0 :: byte}) ^ 9" by (rule card_lists_length_eq) simp
  also have "card (UNIV - {0 :: byte}) = 255" by (simp add: card_Diff_singleton card_word)
  finally have "card ?S = 255 ^ 9" .
  moreover have "card (uid_hash ` ?S) \<le> card (UNIV :: uint64 set)" by (intro card_mono) auto
  moreover have "card (UNIV :: uint64 set) = 2 ^ 64" by (simp add: card_word)
  ultimately have "card (uid_hash ` ?S) < card ?S" by simp
  then have "\<not> inj_on uid_hash ?S" using card_image [of uid_hash ?S] by linarith
  then obtain s t where "s \<in> ?S" "t \<in> ?S" "uid_hash s = uid_hash t" "s \<noteq> t" unfolding inj_on_def by blast
  then show ?thesis by blast
qed

end
