(* ===== verification/AccountList.thy ===== *)
theory AccountList
  imports ObjectPool City SnprintfProps
begin

text \<open>
  \<^verbatim>\<open>src/lobby/AccountStateList.cpp\<close> and \<^verbatim>\<open>src/lobby/AccountStateList.h\<close>: the list of accounts, an
  object pool with three caches (by the hash of the user id, by connection, by inner uuid) and a
  counter of the accounts that are online. A pointer to an account is the index of its slot. An
  assertion that fails and an access outside the pool are \<open>None\<close>.
\<close>

section \<open>Accounts\<close>

datatype acc_onoff = ONOFF_INIT | ONOFF_ONLINE | ONOFF_OFFLINE

datatype acc_login = LOGIN_IDLE | LOGIN_NEWLOGIN | LOGIN_RELOGIN | LOGIN_READY | LOGIN_LOGOUT | LOGIN_LOCKED

text \<open>The character arrays hold the text before their NUL; a null pointer is 0.\<close>

record account_state =
  acc_keyid :: objid
  acc_is_ready :: bool
  acc_uid :: string
  acc_nick :: string
  acc_pwd :: string
  acc_connid :: uint64
  acc_inner_uuid :: uint64
  acc_conn_impl :: nat
  acc_onoff :: acc_onoff
  acc_onoff_time :: int
  acc_ext_data :: nat
  acc_login_state :: acc_login
  acc_conflict_keyid :: objid

definition acc_zero :: account_state where
  "acc_zero =
     \<lparr>acc_keyid = 0, acc_is_ready = False, acc_uid = [], acc_nick = [], acc_pwd = [], acc_connid = 0,
      acc_inner_uuid = 0, acc_conn_impl = 0, acc_onoff = ONOFF_INIT, acc_onoff_time = 0, acc_ext_data = 0,
      acc_login_state = LOGIN_IDLE, acc_conflict_keyid = 0\<rparr>"

record account_list =
  al_pool :: "account_state obj_pool"
  al_online_count :: size_t
  al_uid_map :: "uint64 \<rightharpoonup> nat"
  al_conn_map :: "uint64 \<rightharpoonup> nat"
  al_uuid_map :: "uint64 \<rightharpoonup> nat"

definition al_new :: "(nat \<Rightarrow> account_state) \<Rightarrow> nat \<Rightarrow> account_list" where
  "al_new junk nReserve =
     \<lparr>al_pool = pool_SafeInit junk 600000 nReserve, al_online_count = 0, al_uid_map = Map.empty,
      al_conn_map = Map.empty, al_uuid_map = Map.empty\<rparr>"

abbreviation acc_at :: "account_list \<Rightarrow> nat \<Rightarrow> account_state" where
  "acc_at l \<equiv> pool_data (al_pool l)"

abbreviation acc_used :: "account_list \<Rightarrow> nat \<Rightarrow> bool" where
  "acc_used l \<equiv> used_at (al_pool l)"

definition al_modify :: "nat \<Rightarrow> (account_state \<Rightarrow> account_state) \<Rightarrow> account_list \<Rightarrow> account_list" where
  "al_modify k f l = l\<lparr>al_pool := pool_put k (f (acc_at l k)) (al_pool l)\<rparr>"

section \<open>Operations\<close>

text \<open>The result of \<open>Alloc\<close> and of the lookups is the slot, or \<open>None\<close> for a null pointer.\<close>

definition al_Alloc :: "account_list \<Rightarrow> (nat option \<times> account_list) option" where
  "al_Alloc l = do {
     (objid, p) \<leftarrow> SafeAlloc (al_pool l);
     if objid = 0 then Some (None, l\<lparr>al_pool := p\<rparr>)
     else do {
       k \<leftarrow> pool_Get p objid;
       Some (Some k, l\<lparr>al_pool := pool_put k (acc_zero\<lparr>acc_keyid := objid, acc_onoff := ONOFF_INIT\<rparr>) p\<rparr>)
     }
   }"

definition is_online :: "account_state \<Rightarrow> bool" where
  "is_online a \<longleftrightarrow> acc_onoff a = ONOFF_ONLINE"

definition CalcOnlineCount :: "account_list \<Rightarrow> size_t" where
  "CalcOnlineCount l =
     foldl (\<lambda>n k. n + of_bool (is_online (acc_at l k))) 0 (used_indices (al_pool l))"

definition CalcOfflineCount :: "account_list \<Rightarrow> size_t" where
  "CalcOfflineCount l =
     foldl (\<lambda>n k. n + of_bool (acc_onoff (acc_at l k) = ONOFF_OFFLINE)) 0 (used_indices (al_pool l))"

definition al_Online :: "nat \<Rightarrow> uint64 \<Rightarrow> uint64 \<Rightarrow> nat \<Rightarrow> int \<Rightarrow> account_list \<Rightarrow> account_list" where
  "al_Online k uConnId uInnerUuid pConnImpl tmNow l =
     (let l1 = al_modify k (\<lambda>a. a\<lparr>acc_connid := uConnId, acc_inner_uuid := uInnerUuid, acc_conn_impl := pConnImpl,
                                   acc_onoff := ONOFF_ONLINE, acc_onoff_time := tmNow\<rparr>) l
      in l1\<lparr>al_online_count := CalcOnlineCount l1\<rparr>)"

definition al_Offline :: "nat \<Rightarrow> int \<Rightarrow> account_list \<Rightarrow> account_list" where
  "al_Offline k tmNow l =
     (let l1 = (if is_online (acc_at l k) then l\<lparr>al_online_count := al_online_count l - 1\<rparr> else l)
      in al_modify k (\<lambda>a. a\<lparr>acc_onoff := ONOFF_OFFLINE, acc_onoff_time := tmNow\<rparr>) l1)"

definition OfflineByUid :: "string \<Rightarrow> int \<Rightarrow> account_list \<Rightarrow> nat option \<times> account_list" where
  "OfflineByUid sUid tmNow l =
     (case List.find (\<lambda>k. acc_uid (acc_at l k) = sUid) (used_indices (al_pool l)) of
        None \<Rightarrow> (None, l)
      | Some k \<Rightarrow> (Some k, al_Offline k tmNow l))"

definition KeepAlive :: "nat \<Rightarrow> int \<Rightarrow> account_list \<Rightarrow> account_list" where
  "KeepAlive k tmNow l =
     (if is_online (acc_at l k) then al_modify k (\<lambda>a. a\<lparr>acc_onoff_time := tmNow\<rparr>) l else l)"

text \<open>
  The three lookups: the cache, then a walk over the used slots whose result is cached. Both
  ways assert that the account found is ready.
\<close>

definition uid_key :: "string \<Rightarrow> uint64" where
  "uid_key sUid = uid_hash (map of_char sUid)"

definition GetByUid :: "string \<Rightarrow> account_list \<Rightarrow> (nat option \<times> account_list) option" where
  "GetByUid sUid l =
     (case al_uid_map l (uid_key sUid) of
        Some k \<Rightarrow> if acc_is_ready (acc_at l k) then Some (Some k, l) else None
      | None \<Rightarrow>
          (case List.find (\<lambda>k. acc_uid (acc_at l k) = sUid) (used_indices (al_pool l)) of
             None \<Rightarrow> Some (None, l)
           | Some k \<Rightarrow>
               if acc_is_ready (acc_at l k)
               then Some (Some k, l\<lparr>al_uid_map := (al_uid_map l)(uid_key sUid \<mapsto> k)\<rparr>) else None))"

definition GetByConnId :: "uint64 \<Rightarrow> account_list \<Rightarrow> (nat option \<times> account_list) option" where
  "GetByConnId uConnId l =
     (case al_conn_map l uConnId of
        Some k \<Rightarrow> if acc_is_ready (acc_at l k) then Some (Some k, l) else None
      | None \<Rightarrow>
          (case List.find (\<lambda>k. acc_connid (acc_at l k) = uConnId) (used_indices (al_pool l)) of
             None \<Rightarrow> Some (None, l)
           | Some k \<Rightarrow>
               if acc_is_ready (acc_at l k)
               then Some (Some k, l\<lparr>al_conn_map := (al_conn_map l)(uConnId \<mapsto> k)\<rparr>) else None))"

definition GetByInnerUuid :: "uint64 \<Rightarrow> account_list \<Rightarrow> (nat option \<times> account_list) option" where
  "GetByInnerUuid uInnerUuid l =
     (case al_uuid_map l uInnerUuid of
        Some k \<Rightarrow> if acc_is_ready (acc_at l k) then Some (Some k, l) else None
      | None \<Rightarrow>
          (case List.find (\<lambda>k. acc_inner_uuid (acc_at l k) = uInnerUuid) (used_indices (al_pool l)) of
             None \<Rightarrow> Some (None, l)
           | Some k \<Rightarrow>
               if acc_is_ready (acc_at l k)
               then Some (Some k, l\<lparr>al_uuid_map := (al_uuid_map l)(uInnerUuid \<mapsto> k)\<rparr>) else None))"

definition KeepAliveByUid :: "string \<Rightarrow> int \<Rightarrow> account_list \<Rightarrow> (nat option \<times> account_list) option" where
  "KeepAliveByUid sUid tmNow l = do {
     (r, l1) \<leftarrow> GetByUid sUid l;
     Some (r, case r of Some k \<Rightarrow> KeepAlive k tmNow l1 | None \<Rightarrow> l1)
   }"

definition keep_alive_lost :: "int \<Rightarrow> int \<Rightarrow> account_state \<Rightarrow> bool" where
  "keep_alive_lost nTolerance tmNow a \<longleftrightarrow> is_online a \<and> nTolerance \<le> tmNow - acc_onoff_time a"

definition CheckKeepAlive :: "int \<Rightarrow> int \<Rightarrow> account_list \<Rightarrow> account_list" where
  "CheckKeepAlive nTolerance tmNow l =
     foldl (\<lambda>l k. if keep_alive_lost nTolerance tmNow (acc_at l k) then al_Offline k tmNow l else l)
       l (used_indices (al_pool l))"

text \<open>\<open>ReleaseInternal\<close>: the caches forget the account, it goes offline, its slot is released.\<close>

definition al_ReleaseInternal :: "nat \<Rightarrow> int \<Rightarrow> account_list \<Rightarrow> account_list option" where
  "al_ReleaseInternal k tmNow l =
     (if acc_is_ready (acc_at l k) then
        let l1 = al_modify k (\<lambda>a. a\<lparr>acc_is_ready := False\<rparr>) l;
            a = acc_at l k;
            l2 = l1\<lparr>al_uid_map := (al_uid_map l1)(uid_key (acc_uid a) := None)\<rparr>;
            l3 = (if acc_connid a \<noteq> 0 then l2\<lparr>al_conn_map := (al_conn_map l2)(acc_connid a := None)\<rparr> else l2);
            l4 = (if acc_inner_uuid a \<noteq> 0 then l3\<lparr>al_uuid_map := (al_uuid_map l3)(acc_inner_uuid a := None)\<rparr> else l3);
            l5 = al_Offline k tmNow l4
        in map_option (\<lambda>p. l5\<lparr>al_pool := p\<rparr>) (pool_ReleaseInternal (acc_keyid (acc_at l5 k)) (al_pool l5))
      else Some l)"

definition al_Kick :: "objid \<Rightarrow> int \<Rightarrow> account_list \<Rightarrow> account_list option" where
  "al_Kick nIndexId tmNow l = do { k \<leftarrow> pool_Get (al_pool l) nIndexId; al_ReleaseInternal k tmNow l }"

definition KickByUid :: "string \<Rightarrow> int \<Rightarrow> account_list \<Rightarrow> account_list option" where
  "KickByUid sUid tmNow l = do {
     (r, l1) \<leftarrow> GetByUid sUid l;
     (case r of Some k \<Rightarrow> al_ReleaseInternal k tmNow l1 | None \<Rightarrow> Some l1)
   }"

text \<open>The loop of \<open>KickOfflineMoreThan\<close>; the flags of the slots are read as the walk reaches them.\<close>

definition offline_since :: "int \<Rightarrow> int \<Rightarrow> account_state \<Rightarrow> bool" where
  "offline_since nTolerance tmNow a \<longleftrightarrow> acc_onoff a = ONOFF_OFFLINE \<and> nTolerance \<le> tmNow - acc_onoff_time a"

fun kick_walk :: "int \<Rightarrow> nat \<Rightarrow> int \<Rightarrow> nat list \<Rightarrow> nat list \<times> account_list \<Rightarrow> (nat list \<times> account_list) option" where
  "kick_walk nTolerance nKickNumMax tmNow [] s = Some s"
| "kick_walk nTolerance nKickNumMax tmNow (k # ks) (vOut, l) =
     (if acc_used l k \<and> offline_since nTolerance tmNow (acc_at l k)
      then do {
        l1 \<leftarrow> al_ReleaseInternal k tmNow l;
        (if nKickNumMax \<le> length (vOut @ [k]) then Some (vOut @ [k], l1)
         else kick_walk nTolerance nKickNumMax tmNow ks (vOut @ [k], l1))
      }
      else kick_walk nTolerance nKickNumMax tmNow ks (vOut, l))"

definition KickOfflineMoreThan ::
  "int \<Rightarrow> nat \<Rightarrow> int \<Rightarrow> nat list \<Rightarrow> account_list \<Rightarrow> (nat list \<times> account_list) option" where
  "KickOfflineMoreThan nTolerance nKickNumMax tmNow vOut l =
     kick_walk nTolerance nKickNumMax tmNow [0..<op_total_size (al_pool l)] (vOut, l)"

definition ConfirmAccountIsReady :: "nat \<Rightarrow> uint64 \<Rightarrow> uint64 \<Rightarrow> nat \<Rightarrow> int \<Rightarrow> account_list \<Rightarrow> account_list" where
  "ConfirmAccountIsReady k uConnId uInnerUuid pConnImpl tmNow l =
     al_modify k (\<lambda>a. a\<lparr>acc_is_ready := True\<rparr>) (al_Online k uConnId uInnerUuid pConnImpl tmNow l)"

definition al_GetCount :: "account_list \<Rightarrow> nat" where
  "al_GetCount l = GetObjectNum (al_pool l)"

section \<open>The invariant\<close>

definition online_set :: "account_list \<Rightarrow> nat set" where
  "online_set l = {k. acc_used l k \<and> is_online (acc_at l k)}"

definition keyids_ok :: "account_list \<Rightarrow> bool" where
  "keyids_ok l \<longleftrightarrow> (\<forall>k. acc_used l k \<longrightarrow> acc_keyid (acc_at l k) = slot_id (al_pool l) k)"

definition uid_map_ok :: "account_list \<Rightarrow> bool" where
  "uid_map_ok l \<longleftrightarrow>
     (\<forall>h k. al_uid_map l h = Some k \<longrightarrow> acc_used l k \<and> acc_is_ready (acc_at l k) \<and> uid_key (acc_uid (acc_at l k)) = h)"

definition conn_map_ok :: "account_list \<Rightarrow> bool" where
  "conn_map_ok l \<longleftrightarrow>
     (\<forall>c k. c \<noteq> 0 \<longrightarrow> al_conn_map l c = Some k \<longrightarrow>
        acc_used l k \<and> acc_is_ready (acc_at l k) \<and> acc_connid (acc_at l k) = c)"

definition count_ok :: "account_list \<Rightarrow> bool" where
  "count_ok l \<longleftrightarrow> al_online_count l = of_nat (card (online_set l))"

definition al_inv :: "account_list \<Rightarrow> bool" where
  "al_inv l \<longleftrightarrow> pool_inv (al_pool l) \<and> keyids_ok l \<and> count_ok l \<and> uid_map_ok l \<and> conn_map_ok l"

named_theorems al_defs \<open>the parts of the account list invariant\<close>

lemmas [al_defs] = keyids_ok_def uid_map_ok_def conn_map_ok_def count_ok_def online_set_def

lemma al_inv_parts:
  assumes "al_inv l"
  shows "pool_inv (al_pool l)" "keyids_ok l" "count_ok l" "uid_map_ok l" "conn_map_ok l"
  using assms by (simp_all add: al_inv_def)

subsection \<open>Changing one account\<close>

lemma pool_put_simps [simp]:
  "op_base_id (pool_put k x p) = op_base_id p" "op_total_size (pool_put k x p) = op_total_size p"
  "op_unused_ids (pool_put k x p) = op_unused_ids p" "op_unused_size (pool_put k x p) = op_unused_size p"
  "length (op_all_elements (pool_put k x p)) = length (op_all_elements p)"
  "slot_id (pool_put k x p) = slot_id p"
  by (simp_all add: pool_put_def slot_id_def fun_eq_iff)

lemma pool_put_used [simp]: "used_at (pool_put k x p) = used_at p"
proof
  fix j
  show "used_at (pool_put k x p) j = used_at p j"
    by (cases "k < length (op_all_elements p)") (auto simp: used_at_def pool_put_def nth_list_update list_update_beyond)
qed

lemma pool_put_inv [simp]: "pool_inv (pool_put k x p) = pool_inv p"
  by (simp add: pool_inv_def pool_index_ok_def)

lemma pool_put_data:
  assumes "pool_inv p" "k < op_total_size p"
  shows "pool_data (pool_put k x p) = (pool_data p)(k := x)"
  using assms by (auto simp: pool_data_def pool_put_def pool_inv_def nth_list_update fun_eq_iff)

lemma used_less: "acc_used l k \<Longrightarrow> k < op_total_size (al_pool l)"
  by (simp add: used_at_def)

lemma al_modify_simps [simp]:
  "al_online_count (al_modify k f l) = al_online_count l" "al_uid_map (al_modify k f l) = al_uid_map l"
  "al_conn_map (al_modify k f l) = al_conn_map l" "al_uuid_map (al_modify k f l) = al_uuid_map l"
  "used_at (al_pool (al_modify k f l)) = used_at (al_pool l)" "slot_id (al_pool (al_modify k f l)) = slot_id (al_pool l)"
  "pool_inv (al_pool (al_modify k f l)) = pool_inv (al_pool l)"
  "op_total_size (al_pool (al_modify k f l)) = op_total_size (al_pool l)"
  "op_base_id (al_pool (al_modify k f l)) = op_base_id (al_pool l)"
  by (simp_all add: al_modify_def)

lemma al_modify_at:
  assumes "pool_inv (al_pool l)" "k < op_total_size (al_pool l)"
  shows "acc_at (al_modify k f l) = (acc_at l)(k := f (acc_at l k))"
  using pool_put_data [OF assms] by (simp add: al_modify_def)

lemma finite_online: "finite (online_set l)"
  using used_finite(1) [of "al_pool l"] by (simp add: online_set_def)

lemma card_online_bound:
  assumes "pool_inv (al_pool l)"
  shows "card (online_set l) < 2 ^ 32"
proof -
  have "card (online_set l) \<le> card {..<op_total_size (al_pool l)}"
    using used_finite(2) [of "al_pool l"] by (intro card_mono) (auto simp: online_set_def)
  then show ?thesis using assms by (simp add: pool_inv_def)
qed

lemma foldl_count: "foldl (\<lambda>n k. n + of_bool (P k)) (c :: 'a :: {comm_semiring_1}) ks = c + of_nat (length (filter P ks))"
  by (induction ks arbitrary: c) (simp_all add: ac_simps)

lemma CalcOnlineCount_eq: "CalcOnlineCount l = of_nat (card (online_set l))"
proof -
  have "filter (\<lambda>k. is_online (acc_at l k)) (used_indices (al_pool l)) = filter (\<lambda>k. k \<in> online_set l) [0..<op_total_size (al_pool l)]"
    by (simp add: used_indices_def online_set_def conj_commute)
  moreover have "length (filter (\<lambda>k. k \<in> online_set l) [0..<op_total_size (al_pool l)]) = card (online_set l)"
  proof -
    have "set (filter (\<lambda>k. k \<in> online_set l) [0..<op_total_size (al_pool l)]) = online_set l"
      by (auto simp: online_set_def dest: used_less)
    then show ?thesis using distinct_card [of "filter (\<lambda>k. k \<in> online_set l) [0..<op_total_size (al_pool l)]"] by simp
  qed
  ultimately show ?thesis by (simp add: CalcOnlineCount_def foldl_count)
qed

text \<open>A change of an account that the invariant does not see.\<close>

lemma al_inv_modify:
  assumes "al_inv l" "acc_used l k"
    and "acc_keyid (f (acc_at l k)) = acc_keyid (acc_at l k)" "is_online (f (acc_at l k)) = is_online (acc_at l k)"
    and "acc_is_ready (f (acc_at l k)) = acc_is_ready (acc_at l k)" "acc_connid (f (acc_at l k)) = acc_connid (acc_at l k)"
    and "\<And>h. al_uid_map l h = Some k \<Longrightarrow> uid_key (acc_uid (f (acc_at l k))) = uid_key (acc_uid (acc_at l k))"
  shows "al_inv (al_modify k f l)"
proof -
  have at: "acc_at (al_modify k f l) = (acc_at l)(k := f (acc_at l k))"
    using assms(1,2) al_inv_parts(1) used_less al_modify_at by blast
  have "online_set (al_modify k f l) = online_set l" using assms(4) by (auto simp: online_set_def at)
  then show ?thesis
    using assms by (auto simp: al_inv_def keyids_ok_def uid_map_ok_def conn_map_ok_def count_ok_def at)
qed

lemma KeepAlive_inv: "al_inv l \<Longrightarrow> acc_used l k \<Longrightarrow> al_inv (KeepAlive k tmNow l)"
  by (simp add: KeepAlive_def al_inv_modify is_online_def)

lemma al_Offline_simps [simp]:
  "al_uid_map (al_Offline k t l) = al_uid_map l" "al_conn_map (al_Offline k t l) = al_conn_map l"
  "al_uuid_map (al_Offline k t l) = al_uuid_map l"
  "used_at (al_pool (al_Offline k t l)) = used_at (al_pool l)" "slot_id (al_pool (al_Offline k t l)) = slot_id (al_pool l)"
  "pool_inv (al_pool (al_Offline k t l)) = pool_inv (al_pool l)"
  "op_total_size (al_pool (al_Offline k t l)) = op_total_size (al_pool l)"
  by (simp_all add: al_Offline_def Let_def)

lemma al_Offline_at:
  assumes "pool_inv (al_pool l)" "k < op_total_size (al_pool l)"
  shows "acc_at (al_Offline k t l) = (acc_at l)(k := (acc_at l k)\<lparr>acc_onoff := ONOFF_OFFLINE, acc_onoff_time := t\<rparr>)"
  using assms by (simp add: al_Offline_def Let_def al_modify_at)

lemma al_Offline_online_set:
  assumes "pool_inv (al_pool l)" "acc_used l k"
  shows "online_set (al_Offline k t l) = online_set l - {k}"
  using assms by (auto simp: online_set_def al_Offline_at used_less is_online_def)

lemma al_Offline_count:
  assumes "pool_inv (al_pool l)" "acc_used l k" "count_ok l"
  shows "count_ok (al_Offline k t l)"
proof (cases "is_online (acc_at l k)")
  case True
  then have "k \<in> online_set l" using assms(2) by (simp add: online_set_def)
  then have "card (online_set l) = Suc (card (online_set l - {k}))"
    using card_Suc_Diff1 [OF finite_online] by metis
  with True assms(3) show ?thesis
    by (simp add: count_ok_def al_Offline_online_set [OF assms(1,2)]) (simp add: al_Offline_def Let_def)
next
  case False
  then have "k \<notin> online_set l" by (simp add: online_set_def)
  with False assms(3) show ?thesis
    by (simp add: count_ok_def al_Offline_online_set [OF assms(1,2)]) (simp add: al_Offline_def Let_def)
qed

lemma al_Offline_inv:
  assumes "al_inv l" "acc_used l k"
  shows "al_inv (al_Offline k t l)"
  using assms al_Offline_count [of l k t] al_inv_parts [OF assms(1)] used_less [OF assms(2)]
  by (auto simp: al_inv_def keyids_ok_def uid_map_ok_def conn_map_ok_def al_Offline_at)

subsection \<open>The operations keep the invariant\<close>

definition all_ready :: "account_list \<Rightarrow> bool" where
  "all_ready l \<longleftrightarrow> (\<forall>k. acc_used l k \<longrightarrow> acc_is_ready (acc_at l k))"

lemma Confirm_at:
  assumes "pool_inv (al_pool l)" "k < op_total_size (al_pool l)"
  shows "acc_at (ConfirmAccountIsReady k c u i t l) = (acc_at l)(k := (acc_at l k)\<lparr>acc_connid := c, acc_inner_uuid := u,
    acc_conn_impl := i, acc_onoff := ONOFF_ONLINE, acc_onoff_time := t, acc_is_ready := True\<rparr>)"
  using assms by (simp add: ConfirmAccountIsReady_def al_Online_def Let_def al_modify_at)

lemma Confirm_simps [simp]:
  "al_uid_map (ConfirmAccountIsReady k c u i t l) = al_uid_map l" "al_conn_map (ConfirmAccountIsReady k c u i t l) = al_conn_map l"
  "al_uuid_map (ConfirmAccountIsReady k c u i t l) = al_uuid_map l"
  "used_at (al_pool (ConfirmAccountIsReady k c u i t l)) = used_at (al_pool l)"
  "slot_id (al_pool (ConfirmAccountIsReady k c u i t l)) = slot_id (al_pool l)"
  "pool_inv (al_pool (ConfirmAccountIsReady k c u i t l)) = pool_inv (al_pool l)"
  "op_total_size (al_pool (ConfirmAccountIsReady k c u i t l)) = op_total_size (al_pool l)"
  by (simp_all add: ConfirmAccountIsReady_def al_Online_def Let_def)

lemma Confirm_inv:
  assumes "al_inv l" "acc_used l k" "\<And>c'. c' \<noteq> 0 \<Longrightarrow> al_conn_map l c' = Some k \<Longrightarrow> c' = c"
  shows "al_inv (ConfirmAccountIsReady k c u i t l)"
proof -
  let ?l = "ConfirmAccountIsReady k c u i t l"
  have at: "acc_at ?l = (acc_at l)(k := (acc_at l k)\<lparr>acc_connid := c, acc_inner_uuid := u, acc_conn_impl := i,
      acc_onoff := ONOFF_ONLINE, acc_onoff_time := t, acc_is_ready := True\<rparr>)"
    using assms(1,2) al_inv_parts(1) used_less Confirm_at by blast
  let ?m = "al_Online k c u i t l"
  have "online_set ?l = online_set ?m"
    using assms(1,2) unfolding ConfirmAccountIsReady_def online_set_def
    by (subst al_modify_at) (auto simp: al_Online_def Let_def al_inv_def is_online_def used_less)
  moreover have "al_online_count ?m = of_nat (card (online_set ?m))"
    using CalcOnlineCount_eq [of "al_modify k (\<lambda>a. a\<lparr>acc_connid := c, acc_inner_uuid := u, acc_conn_impl := i,
      acc_onoff := ONOFF_ONLINE, acc_onoff_time := t\<rparr>) l"] by (simp add: al_Online_def Let_def online_set_def)
  ultimately have "count_ok ?l" by (simp add: count_ok_def ConfirmAccountIsReady_def)
  with assms show ?thesis
    by (auto simp: al_inv_def keyids_ok_def uid_map_ok_def conn_map_ok_def at)
qed

lemma Alloc_full: "op_unused_size (al_pool l) = 0 \<Longrightarrow> al_Alloc l = Some (None, l)"
  by (simp add: al_Alloc_def SafeAlloc_def)

lemma Alloc_ok:
  assumes "al_inv l" "op_unused_size (al_pool l) \<noteq> 0"
  obtains k l' where "al_Alloc l = Some (Some k, l')" "\<not> acc_used l k" "k < op_total_size (al_pool l)"
    "used_at (al_pool l') = (used_at (al_pool l))(k := True)"
    "acc_at l' = (acc_at l)(k := acc_zero\<lparr>acc_keyid := slot_id (al_pool l) k, acc_onoff := ONOFF_INIT\<rparr>)"
    "al_uid_map l' = al_uid_map l" "al_conn_map l' = al_conn_map l" "al_uuid_map l' = al_uuid_map l"
    "slot_id (al_pool l') = slot_id (al_pool l)" "op_total_size (al_pool l') = op_total_size (al_pool l)" "al_inv l'"
proof -
  note inv = al_inv_parts [OF assms(1)]
  obtain k p' where p': "SafeAlloc (al_pool l) = Some (slot_id (al_pool l) k, p')" "k < op_total_size (al_pool l)"
    "\<not> acc_used l k" "pool_inv p'" "used_at p' = (acc_used l)(k := True)" "pool_data p' = acc_at l"
    "op_base_id p' = op_base_id (al_pool l)" "op_total_size p' = op_total_size (al_pool l)"
    using SafeAlloc_ok [OF inv(1)] assms(2) by (metis neq0_conv)
  have slots: "slot_id p' = slot_id (al_pool l)" using p'(7,8) by (simp add: slot_id_def fun_eq_iff)
  have get: "pool_Get p' (slot_id (al_pool l) k) = Some k" using pool_Get_slot [OF p'(4), of k] p'(2,8) slots by simp
  let ?a = "acc_zero\<lparr>acc_keyid := slot_id (al_pool l) k, acc_onoff := ONOFF_INIT\<rparr>"
  let ?l = "l\<lparr>al_pool := pool_put k ?a p'\<rparr>"
  have alloc: "al_Alloc l = Some (Some k, ?l)"
    using p'(1) slot_id_not_0 [OF inv(1) p'(2)] get by (simp add: al_Alloc_def)
  have data: "pool_data (pool_put k ?a p') = (acc_at l)(k := ?a)" using pool_put_data [OF p'(4), of k ?a] p'(2,6,8) by simp
  have "online_set ?l = online_set l"
    using p'(3,5) data by (auto simp: online_set_def is_online_def)
  then have "al_inv ?l"
    using assms(1) inv p' data slots
    by (auto simp: al_inv_def keyids_ok_def uid_map_ok_def conn_map_ok_def count_ok_def)
  then show ?thesis using that alloc p' data slots by simp
qed

lemma find_used:
  "List.find P (used_indices p) = Some k \<Longrightarrow> P k \<and> used_at p k"
  "List.find P (used_indices p) = None \<Longrightarrow> used_at p k \<Longrightarrow> \<not> P k"
proof -
  show "List.find P (used_indices p) = Some k \<Longrightarrow> P k \<and> used_at p k"
    by (auto simp: find_Some_iff used_indices_def dest: nth_mem)
  show "List.find P (used_indices p) = None \<Longrightarrow> used_at p k \<Longrightarrow> \<not> P k"
    by (auto simp: find_None_iff used_indices_def used_at_def)
qed

lemma GetByUid_ok:
  assumes "al_inv l" "all_ready l"
  obtains r l' where "GetByUid sUid l = Some (r, l')" "al_inv l'" "al_pool l' = al_pool l" "al_conn_map l' = al_conn_map l"
    "al_uuid_map l' = al_uuid_map l" "al_online_count l' = al_online_count l"
    "\<And>k. r = Some k \<Longrightarrow> acc_used l k \<and> uid_key (acc_uid (acc_at l k)) = uid_key sUid"
    "\<And>k. r = None \<Longrightarrow> acc_used l k \<Longrightarrow> acc_uid (acc_at l k) \<noteq> sUid"
proof (cases "al_uid_map l (uid_key sUid)")
  case (Some k)
  then have "acc_used l k" "acc_is_ready (acc_at l k)" "uid_key (acc_uid (acc_at l k)) = uid_key sUid"
    using assms(1) by (auto simp: al_inv_def uid_map_ok_def)
  then show ?thesis using that [of "Some k" l] Some assms(1) by (simp add: GetByUid_def)
next
  case None
  show ?thesis
  proof (cases "List.find (\<lambda>k. acc_uid (acc_at l k) = sUid) (used_indices (al_pool l))")
    case find: None
    then show ?thesis using that [of None l] None assms(1) find_used(2) [OF find] by (simp add: GetByUid_def)
  next
    case find: (Some k)
    let ?l = "l\<lparr>al_uid_map := (al_uid_map l)(uid_key sUid \<mapsto> k)\<rparr>"
    have k: "acc_uid (acc_at l k) = sUid" "acc_used l k" "acc_is_ready (acc_at l k)"
      using find_used(1) [OF find] assms(2) by (auto simp: all_ready_def)
    then have "al_inv ?l"
      using assms(1) by (auto simp: al_inv_def keyids_ok_def uid_map_ok_def conn_map_ok_def count_ok_def online_set_def)
    then show ?thesis using that [of "Some k" ?l] None find k by (simp add: GetByUid_def)
  qed
qed

lemma GetByConnId_ok:
  assumes "al_inv l" "all_ready l" "c \<noteq> 0"
  obtains r l' where "GetByConnId c l = Some (r, l')" "al_inv l'" "al_pool l' = al_pool l" "al_uid_map l' = al_uid_map l"
    "\<And>k. r = Some k \<Longrightarrow> acc_used l k \<and> acc_connid (acc_at l k) = c"
    "\<And>k. r = None \<Longrightarrow> acc_used l k \<Longrightarrow> acc_connid (acc_at l k) \<noteq> c"
proof (cases "al_conn_map l c")
  case (Some k)
  then have "acc_used l k" "acc_is_ready (acc_at l k)" "acc_connid (acc_at l k) = c"
    using assms by (auto simp: al_inv_def conn_map_ok_def)
  then show ?thesis using that [of "Some k" l] Some assms(1) by (simp add: GetByConnId_def)
next
  case None
  show ?thesis
  proof (cases "List.find (\<lambda>k. acc_connid (acc_at l k) = c) (used_indices (al_pool l))")
    case find: None
    then show ?thesis using that [of None l] None assms(1) find_used(2) [OF find] by (simp add: GetByConnId_def)
  next
    case find: (Some k)
    let ?l = "l\<lparr>al_conn_map := (al_conn_map l)(c \<mapsto> k)\<rparr>"
    have k: "acc_connid (acc_at l k) = c" "acc_used l k" "acc_is_ready (acc_at l k)"
      using find_used(1) [OF find] assms(2) by (auto simp: all_ready_def)
    then have "al_inv ?l"
      using assms(1) by (auto simp: al_inv_def keyids_ok_def uid_map_ok_def conn_map_ok_def count_ok_def online_set_def)
    then show ?thesis using that [of "Some k" ?l] None find k by (simp add: GetByConnId_def)
  qed
qed

lemma ReleaseInternal_ok:
  assumes "al_inv l" "acc_used l k" "acc_is_ready (acc_at l k)"
  obtains l' where "al_ReleaseInternal k t l = Some l'" "al_inv l'" "used_at (al_pool l') = (used_at (al_pool l))(k := False)"
    "\<And>j. j \<noteq> k \<Longrightarrow> acc_at l' j = acc_at l j" "slot_id (al_pool l') = slot_id (al_pool l)"
    "op_total_size (al_pool l') = op_total_size (al_pool l)"
    "al_uuid_map l' = (if acc_inner_uuid (acc_at l k) \<noteq> 0 then (al_uuid_map l)(acc_inner_uuid (acc_at l k) := None) else al_uuid_map l)"
    "\<not> acc_is_ready (acc_at l' k)"
proof -
  note inv = al_inv_parts [OF assms(1)]
  note less = used_less [OF assms(2)]
  define a where "a = acc_at l k"
  define l1 where "l1 = al_modify k (\<lambda>a. a\<lparr>acc_is_ready := False\<rparr>) l"
  define l4 where "l4 = l1\<lparr>al_uid_map := (al_uid_map l)(uid_key (acc_uid a) := None),
     al_conn_map := (if acc_connid a \<noteq> 0 then (al_conn_map l)(acc_connid a := None) else al_conn_map l),
     al_uuid_map := (if acc_inner_uuid a \<noteq> 0 then (al_uuid_map l)(acc_inner_uuid a := None) else al_uuid_map l)\<rparr>"
  define l5 where "l5 = al_Offline k t l4"
  have at1: "acc_at l4 = (acc_at l)(k := a\<lparr>acc_is_ready := False\<rparr>)"
    using al_modify_at [OF inv(1) less] by (simp add: l4_def l1_def a_def)
  have pool4: "pool_inv (al_pool l4)" "acc_used l4 = acc_used l" "slot_id (al_pool l4) = slot_id (al_pool l)"
    "op_total_size (al_pool l4) = op_total_size (al_pool l)"
    using inv(1) by (simp_all add: l4_def l1_def)
  have at5: "acc_at l5 = (acc_at l)(k := a\<lparr>acc_is_ready := False, acc_onoff := ONOFF_OFFLINE, acc_onoff_time := t\<rparr>)"
    using al_Offline_at [OF pool4(1), of k t] less pool4(4) at1 by (simp add: l5_def)
  have "online_set l4 = online_set l" by (auto simp: online_set_def at1 pool4(2) a_def is_online_def)
  then have "count_ok l4" using inv(3) by (simp add: count_ok_def l4_def l1_def)
  then have count5: "count_ok l5" using al_Offline_count [OF pool4(1)] assms(2) pool4(2) by (simp add: l5_def)
  have "slot_id (al_pool l5) k = slot_id (al_pool l) k" using pool4(3) by (simp add: l5_def)
  then have "acc_keyid (acc_at l5 k) = slot_id (al_pool l5) k"
    using inv(2) assms(2) unfolding at5 by (simp add: a_def keyids_ok_def)
  moreover obtain p' where p': "pool_ReleaseInternal (slot_id (al_pool l5) k) (al_pool l5) = Some p'" "pool_inv p'"
    "used_at p' = (used_at (al_pool l5))(k := False)" "pool_data p' = acc_at l5" "op_base_id p' = op_base_id (al_pool l5)"
    "op_total_size p' = op_total_size (al_pool l5)"
    using Release_ok [of "al_pool l5" k] pool4 assms(2) by (auto simp: l5_def)
  moreover have l4: "l4 = (let l2 = l1\<lparr>al_uid_map := (al_uid_map l1)(uid_key (acc_uid a) := None)\<rparr>;
      l3 = (if acc_connid a \<noteq> 0 then l2\<lparr>al_conn_map := (al_conn_map l2)(acc_connid a := None)\<rparr> else l2)
    in if acc_inner_uuid a \<noteq> 0 then l3\<lparr>al_uuid_map := (al_uuid_map l3)(acc_inner_uuid a := None)\<rparr> else l3)"
    by (simp add: l4_def l1_def al_modify_def Let_def)
  ultimately have run: "al_ReleaseInternal k t l = Some (l5\<lparr>al_pool := p'\<rparr>)"
    using assms(3) unfolding al_ReleaseInternal_def a_def [symmetric] l1_def [symmetric]
    by (simp add: Let_def flip: l5_def l4 [unfolded Let_def])
  have "slot_id p' = slot_id (al_pool l5)" using p'(5,6) by (simp add: slot_id_def fun_eq_iff)
  then have slots: "slot_id p' = slot_id (al_pool l)" using pool4(3) by (simp add: l5_def)
  have used: "used_at p' = (acc_used l)(k := False)" using p'(3) pool4(2) by (simp add: l5_def)
  have "acc_used l5 = acc_used l" using pool4(2) by (simp add: l5_def)
  then have "online_set (l5\<lparr>al_pool := p'\<rparr>) = online_set l5"
    using p'(4) by (auto simp: online_set_def used at5 is_online_def)
  then have "count_ok (l5\<lparr>al_pool := p'\<rparr>)" using count5 by (simp add: count_ok_def)
  moreover have "keyids_ok (l5\<lparr>al_pool := p'\<rparr>)"
    using inv(2) by (auto simp: keyids_ok_def used slots p'(4) at5)
  moreover have maps: "al_uid_map l5 = (al_uid_map l)(uid_key (acc_uid a) := None)"
    "al_conn_map l5 = (if acc_connid a \<noteq> 0 then (al_conn_map l)(acc_connid a := None) else al_conn_map l)"
    "al_uuid_map l5 = (if acc_inner_uuid a \<noteq> 0 then (al_uuid_map l)(acc_inner_uuid a := None) else al_uuid_map l)"
    by (simp_all add: l5_def l4_def)
  moreover have "uid_map_ok (l5\<lparr>al_pool := p'\<rparr>)"
    using inv(4) by (auto simp: uid_map_ok_def used p'(4) at5 maps(1) a_def)
  moreover have "conn_map_ok (l5\<lparr>al_pool := p'\<rparr>)"
    using inv(5) by (auto simp: conn_map_ok_def used p'(4) at5 maps(2) a_def split: if_splits)
  ultimately have "al_inv (l5\<lparr>al_pool := p'\<rparr>)" using p'(2) by (simp add: al_inv_def)
  then show ?thesis
    using run used slots p'(4,6) at5 pool4(4) maps(3)
    by (intro that [of "l5\<lparr>al_pool := p'\<rparr>"]) (simp_all add: a_def, simp_all add: l5_def)
qed

lemma CheckKeepAlive_inv:
  assumes "al_inv l"
  shows "al_inv (CheckKeepAlive n t l)" "acc_used (CheckKeepAlive n t l) = acc_used l"
proof -
  have "al_inv (foldl (\<lambda>l k. if keep_alive_lost n t (acc_at l k) then al_Offline k t l else l) m ks) \<and>
      acc_used (foldl (\<lambda>l k. if keep_alive_lost n t (acc_at l k) then al_Offline k t l else l) m ks) = acc_used m"
    if "al_inv m" "\<forall>k \<in> set ks. acc_used m k" for m ks
    using that
  proof (induction ks arbitrary: m)
    case (Cons k ks)
    let ?m = "if keep_alive_lost n t (acc_at m k) then al_Offline k t m else m"
    have "al_inv ?m" "acc_used ?m = acc_used m" using Cons.prems al_Offline_inv by auto
    then show ?case using Cons.IH [of ?m] Cons.prems by simp
  qed simp
  from this [OF assms, of "used_indices (al_pool l)"]
  show "al_inv (CheckKeepAlive n t l)" "acc_used (CheckKeepAlive n t l) = acc_used l"
    by (auto simp: CheckKeepAlive_def used_indices_def)
qed

lemma al_new_inv:
  assumes "nReserve < 2 ^ 31"
  shows "al_inv (al_new junk nReserve)" "\<not> acc_used (al_new junk nReserve) k"
proof -
  have "pool_inv (pool_SafeInit junk 600000 nReserve)" "\<And>k. \<not> used_at (pool_SafeInit junk 600000 nReserve) k"
    using SafeInit_inv [of 600000 nReserve junk] assms by auto
  then show "al_inv (al_new junk nReserve)" "\<not> acc_used (al_new junk nReserve) k"
    by (simp_all add: al_inv_def al_new_def keyids_ok_def uid_map_ok_def conn_map_ok_def count_ok_def online_set_def)
qed

end
