(* ===== verification/AccountManager.thy ===== *)
theory AccountManager
  imports AccountList
begin

text \<open>
  \<^verbatim>\<open>src/lobby/SimpleAccountManager.cpp\<close>: registration of accounts on top of the account list. A
  second registration of a user from another connection gets an account of its own, and the two
  accounts name each other in their \<open>conflict_keyid\<close>. A failed assertion, a null dereference and the
  exception of \<open>Register\<close> are \<open>None\<close>.
\<close>

section \<open>Registration\<close>

datatype ACC_REG_RESULT =
    REG_ACCOUNT_LIST_IS_FULL | REG_CONFLICT_MAIN_ACCOUNT_IS_NOT_READY | REG_CONFLICT_TOO_MANY_TIMES
  | REG_BIND_UID_OVERFLOW | REG_INVALID_UID | REG_OK | REG_CONFLICT | REG_DUPLICATE_REGISTRATION

fun reg_value :: "ACC_REG_RESULT \<Rightarrow> int" where
  "reg_value REG_ACCOUNT_LIST_IS_FULL = - 5"
| "reg_value REG_CONFLICT_MAIN_ACCOUNT_IS_NOT_READY = - 4"
| "reg_value REG_CONFLICT_TOO_MANY_TIMES = - 3"
| "reg_value REG_BIND_UID_OVERFLOW = - 2"
| "reg_value REG_INVALID_UID = - 1"
| "reg_value REG_OK = 0"
| "reg_value REG_CONFLICT = 1"
| "reg_value REG_DUPLICATE_REGISTRATION = 2"

definition mgr_new :: "(nat \<Rightarrow> account_state) \<Rightarrow> account_list" where
  "mgr_new junk = al_new junk 16384"

text \<open>
  \<open>o_snprintf(dst, sizeof(dst), "%s", s)\<close> on an array of \<open>n\<close> characters, and the text it leaves there.
  The old contents of the array are taken to be zeros; \<open>bind_text_ok\<close> does not depend on them.
\<close>

definition print_text :: "'f fmt_env \<Rightarrow> string \<Rightarrow> string \<Rightarrow> string \<Rightarrow> string option" where
  "print_text env scratch buf s =
     map_option c_text (print_fmt env scratch buf ''%s'' [VStr (Some s)])"

definition bind_text :: "'f fmt_env \<Rightarrow> string \<Rightarrow> nat \<Rightarrow> string \<Rightarrow> string option" where
  "bind_text env scratch n s = print_text env scratch (replicate n (CHR 0x00)) s"

definition bind_info :: "'f fmt_env \<Rightarrow> string \<Rightarrow> nat \<Rightarrow> string \<Rightarrow> string \<Rightarrow> string \<Rightarrow> account_list \<Rightarrow> account_list option" where
  "bind_info env scratch k sUid sNick sPwd l = do {
     u \<leftarrow> bind_text env scratch 36 sUid;
     n \<leftarrow> bind_text env scratch 36 sNick;
     p \<leftarrow> bind_text env scratch 40 sPwd;
     Some (al_modify k (\<lambda>a. a\<lparr>acc_uid := u, acc_nick := n, acc_pwd := p\<rparr>) l)
   }"

text \<open>The branch of \<open>Register\<close> that has found the account \<open>k\<close>.\<close>

definition mark_conflict :: "nat \<Rightarrow> nat \<Rightarrow> account_list \<Rightarrow> account_list" where
  "mark_conflict j k l =
     (let l1 = al_modify j (\<lambda>a. a\<lparr>acc_conflict_keyid := acc_keyid (acc_at l k)\<rparr>) l
      in al_modify k (\<lambda>a. a\<lparr>acc_conflict_keyid := acc_keyid (acc_at l1 j)\<rparr>) l1)"

definition reg_found :: "nat \<Rightarrow> uint64 \<Rightarrow> account_list \<Rightarrow> (ACC_REG_RESULT \<times> nat option \<times> account_list) option" where
  "reg_found k uConnId l =
     (let a = acc_at l k in
      if acc_conflict_keyid a \<noteq> 0 then Some (REG_CONFLICT_TOO_MANY_TIMES, None, l)
      else if acc_ext_data a = 0 then Some (REG_CONFLICT_MAIN_ACCOUNT_IS_NOT_READY, None, l)
      else if uConnId \<noteq> acc_connid a then do {
        (r, l1) \<leftarrow> al_Alloc l;
        (case r of
           None \<Rightarrow> Some (REG_ACCOUNT_LIST_IS_FULL, None, l1)
         | Some j \<Rightarrow> if j = k then None else Some (REG_CONFLICT, Some j, mark_conflict j k l1))
      }
      else Some (REG_DUPLICATE_REGISTRATION, Some k, l))"

definition reg_account ::
  "string \<Rightarrow> string \<Rightarrow> string \<Rightarrow> uint64 \<Rightarrow> account_list \<Rightarrow> (ACC_REG_RESULT \<times> nat option \<times> account_list) option" where
  "reg_account sUid sNick sPwd uConnId l =
     (if length sUid \<le> 0 then Some (REG_INVALID_UID, None, l)
      else if 36 \<le> length sUid \<or> 36 \<le> length sNick \<or> 40 \<le> length sPwd then Some (REG_BIND_UID_OVERFLOW, None, l)
      else do {
        (r, l1) \<leftarrow> GetByUid sUid l;
        (case r of
           Some k \<Rightarrow> reg_found k uConnId l1
         | None \<Rightarrow> do {
             (r, l2) \<leftarrow> al_Alloc l1;
             (case r of
                None \<Rightarrow> Some (REG_ACCOUNT_LIST_IS_FULL, None, l2)
              | Some j \<Rightarrow> Some (REG_OK, Some j, l2))
           })
      })"

text \<open>\<open>Register\<close>; its second result is what it stores through \<open>ppOutAccount\<close>, when it stores.\<close>

definition Register ::
  "'f fmt_env \<Rightarrow> string \<Rightarrow> string \<Rightarrow> string \<Rightarrow> string \<Rightarrow> uint64 \<Rightarrow> uint64 \<Rightarrow> nat \<Rightarrow> int \<Rightarrow> account_list \<Rightarrow>
     (ACC_REG_RESULT \<times> nat option \<times> account_list) option" where
  "Register env scratch sUid sNick sPwd uConnId uInnerUuid pConnImpl tmNow l = do {
     (eResult, r, l1) \<leftarrow> reg_account sUid sNick sPwd uConnId l;
     (if reg_value eResult \<ge> 0
      then do {
        k \<leftarrow> r;
        l2 \<leftarrow> bind_info env scratch k sUid sNick sPwd l1;
        Some (eResult, Some k, ConfirmAccountIsReady k uConnId uInnerUuid pConnImpl tmNow l2)
      }
      else Some (eResult, None, l1))
   }"

definition Unregister :: "nat \<Rightarrow> int \<Rightarrow> account_list \<Rightarrow> account_list option" where
  "Unregister k tmNow l =
     (if acc_is_ready (acc_at l k) then
        if acc_conflict_keyid (acc_at l k) \<noteq> 0 then do {
          j \<leftarrow> pool_Get (al_pool l) (acc_conflict_keyid (acc_at l k));
          al_ReleaseInternal k tmNow
            (al_modify j (\<lambda>a. a\<lparr>acc_conflict_keyid := 0\<rparr>) (al_modify k (\<lambda>a. a\<lparr>acc_conflict_keyid := 0\<rparr>) l))
        }
        else al_ReleaseInternal k tmNow l
      else Some l)"

fun unregister_walk :: "uint64 \<Rightarrow> int \<Rightarrow> nat list \<Rightarrow> account_list \<Rightarrow> account_list option" where
  "unregister_walk uConnId tmNow [] l = Some l"
| "unregister_walk uConnId tmNow (k # ks) l =
     (if acc_used l k \<and> uConnId = acc_connid (acc_at l k)
      then do { l1 \<leftarrow> Unregister k tmNow l; unregister_walk uConnId tmNow ks l1 }
      else unregister_walk uConnId tmNow ks l)"

definition UnregisterByConnId :: "uint64 \<Rightarrow> int \<Rightarrow> account_list \<Rightarrow> account_list option" where
  "UnregisterByConnId uConnId tmNow l = unregister_walk uConnId tmNow [0..<op_total_size (al_pool l)] l"

definition LookupAccountByInnerUuid :: "uint64 \<Rightarrow> account_list \<Rightarrow> (nat option \<times> account_list) option" where
  "LookupAccountByInnerUuid uInnerUuid l = GetByInnerUuid uInnerUuid l"

section \<open>The invariant of the manager\<close>

definition conflicts_ok :: "account_list \<Rightarrow> bool" where
  "conflicts_ok l \<longleftrightarrow>
     (\<forall>k. acc_used l k \<longrightarrow> acc_conflict_keyid (acc_at l k) \<noteq> 0 \<longrightarrow>
        (\<exists>j. acc_used l j \<and> j \<noteq> k \<and> acc_conflict_keyid (acc_at l k) = slot_id (al_pool l) j \<and>
             acc_conflict_keyid (acc_at l j) = slot_id (al_pool l) k))"

definition mgr_inv :: "account_list \<Rightarrow> bool" where
  "mgr_inv l \<longleftrightarrow> al_inv l \<and> all_ready l \<and> conflicts_ok l"

lemma mgr_invD:
  assumes "mgr_inv l"
  shows "al_inv l" "all_ready l" "conflicts_ok l" "pool_inv (al_pool l)"
  using assms by (simp_all add: mgr_inv_def al_inv_def)

lemma print_text_ok:
  assumes "c_string s" "length s < length buf" "length buf \<le> 40" "length scratch = 32"
  shows "print_text env scratch buf s = Some s"
  using print_fmt_items [of "[Str s]" scratch buf env] assms by (simp add: print_text_def INT_MAX_def)

lemma bind_text_ok: "c_string s \<Longrightarrow> length s < n \<Longrightarrow> n \<le> 40 \<Longrightarrow> length scratch = 32 \<Longrightarrow> bind_text env scratch n s = Some s"
  by (simp add: bind_text_def print_text_ok)

text \<open>What \<open>Register\<close> writes into the account it returns, the conflict mark apart.\<close>

definition reg_bound ::
  "string \<Rightarrow> string \<Rightarrow> string \<Rightarrow> uint64 \<Rightarrow> uint64 \<Rightarrow> nat \<Rightarrow> int \<Rightarrow> account_state \<Rightarrow> account_state" where
  "reg_bound sUid sNick sPwd uConnId uInnerUuid pConnImpl tmNow a =
     a\<lparr>acc_uid := sUid, acc_nick := sNick, acc_pwd := sPwd, acc_connid := uConnId, acc_inner_uuid := uInnerUuid,
       acc_conn_impl := pConnImpl, acc_onoff := ONOFF_ONLINE, acc_onoff_time := tmNow, acc_is_ready := True\<rparr>"

lemma reg_bound_simps [simp]:
  "acc_is_ready (reg_bound sUid sNick sPwd c u i t a)" "acc_conflict_keyid (reg_bound sUid sNick sPwd c u i t a) = acc_conflict_keyid a"
  "acc_uid (reg_bound sUid sNick sPwd c u i t a) = sUid" "acc_connid (reg_bound sUid sNick sPwd c u i t a) = c"
  by (simp_all add: reg_bound_def)

definition reg_texts_ok :: "string \<Rightarrow> string \<Rightarrow> string \<Rightarrow> bool" where
  "reg_texts_ok sUid sNick sPwd \<longleftrightarrow> c_string sUid \<and> c_string sNick \<and> c_string sPwd"

lemma bind_confirm:
  assumes "al_inv l" "acc_used l k" "reg_texts_ok sUid sNick sPwd" "length sUid < 36" "length sNick < 36" "length sPwd < 40"
    and "length scratch = 32" "\<And>h. al_uid_map l h = Some k \<Longrightarrow> uid_key sUid = uid_key (acc_uid (acc_at l k))"
    and "\<And>c'. c' \<noteq> 0 \<Longrightarrow> al_conn_map l c' = Some k \<Longrightarrow> c' = c"
  obtains l2 l' where "bind_info env scratch k sUid sNick sPwd l = Some l2" "ConfirmAccountIsReady k c u i t l2 = l'" "al_inv l'"
    "used_at (al_pool l') = used_at (al_pool l)" "slot_id (al_pool l') = slot_id (al_pool l)"
    "op_total_size (al_pool l') = op_total_size (al_pool l)"
    "acc_at l' = (acc_at l)(k := reg_bound sUid sNick sPwd c u i t (acc_at l k))"
proof -
  let ?f = "\<lambda>a. a\<lparr>acc_uid := sUid, acc_nick := sNick, acc_pwd := sPwd\<rparr>"
  let ?l2 = "al_modify k ?f l"
  note pool = al_inv_parts(1) [OF assms(1)] used_less [OF assms(2)]
  have bind: "bind_info env scratch k sUid sNick sPwd l = Some ?l2"
    using assms(3-7) by (simp add: bind_info_def bind_text_ok reg_texts_ok_def)
  have "al_inv ?l2" using assms(1,2,8) by (intro al_inv_modify) (auto simp: is_online_def)
  then have inv: "al_inv (ConfirmAccountIsReady k c u i t ?l2)" using assms(2,9) by (intro Confirm_inv) auto
  have "acc_at (ConfirmAccountIsReady k c u i t ?l2) = (acc_at l)(k := reg_bound sUid sNick sPwd c u i t (acc_at l k))"
    using pool by (simp add: Confirm_at al_modify_at reg_bound_def)
  then show ?thesis using that [OF bind refl inv] by simp
qed

lemma mark_conflict_ok:
  assumes "al_inv l" "acc_used l j" "acc_used l k" "j \<noteq> k"
  shows "al_inv (mark_conflict j k l)" "used_at (al_pool (mark_conflict j k l)) = used_at (al_pool l)"
    "slot_id (al_pool (mark_conflict j k l)) = slot_id (al_pool l)"
    "op_total_size (al_pool (mark_conflict j k l)) = op_total_size (al_pool l)"
    "al_uid_map (mark_conflict j k l) = al_uid_map l" "al_conn_map (mark_conflict j k l) = al_conn_map l"
    "acc_at (mark_conflict j k l) = (acc_at l)
       (j := (acc_at l j)\<lparr>acc_conflict_keyid := slot_id (al_pool l) k\<rparr>, k := (acc_at l k)\<lparr>acc_conflict_keyid := slot_id (al_pool l) j\<rparr>)"
proof -
  note pool = al_inv_parts(1) [OF assms(1)] used_less [OF assms(2)] used_less [OF assms(3)]
  have keys: "acc_keyid (acc_at l j) = slot_id (al_pool l) j" "acc_keyid (acc_at l k) = slot_id (al_pool l) k"
    using al_inv_parts(2) [OF assms(1)] assms(2,3) by (simp_all add: keyids_ok_def)
  show "al_inv (mark_conflict j k l)"
    unfolding mark_conflict_def Let_def using assms by (intro al_inv_modify) (auto simp: is_online_def)
  show "acc_at (mark_conflict j k l) = (acc_at l)
       (j := (acc_at l j)\<lparr>acc_conflict_keyid := slot_id (al_pool l) k\<rparr>, k := (acc_at l k)\<lparr>acc_conflict_keyid := slot_id (al_pool l) j\<rparr>)"
    using pool assms(4) by (simp add: mark_conflict_def Let_def al_modify_at keys)
qed (simp_all add: mark_conflict_def Let_def)

text \<open>The outcome of \<open>Register\<close>, from the account that the lookup found and whether the pool is full.\<close>

definition reg_outcome :: "string \<Rightarrow> string \<Rightarrow> string \<Rightarrow> uint64 \<Rightarrow> account_state option \<Rightarrow> bool \<Rightarrow> ACC_REG_RESULT" where
  "reg_outcome sUid sNick sPwd c found full =
     (if sUid = [] then REG_INVALID_UID
      else if 36 \<le> length sUid \<or> 36 \<le> length sNick \<or> 40 \<le> length sPwd then REG_BIND_UID_OVERFLOW
      else case found of
             None \<Rightarrow> if full then REG_ACCOUNT_LIST_IS_FULL else REG_OK
           | Some a \<Rightarrow>
               if acc_conflict_keyid a \<noteq> 0 then REG_CONFLICT_TOO_MANY_TIMES
               else if acc_ext_data a = 0 then REG_CONFLICT_MAIN_ACCOUNT_IS_NOT_READY
               else if c = acc_connid a then REG_DUPLICATE_REGISTRATION
               else if full then REG_ACCOUNT_LIST_IS_FULL else REG_CONFLICT)"

text \<open>The accounts after \<open>Register\<close>: \<open>found\<close> is the account of the lookup, \<open>r\<close> the one returned.\<close>

definition reg_fresh :: "account_list \<Rightarrow> nat \<Rightarrow> account_state" where
  "reg_fresh l k = acc_zero\<lparr>acc_keyid := slot_id (al_pool l) k\<rparr>"

definition reg_accounts ::
  "ACC_REG_RESULT \<Rightarrow> nat option \<Rightarrow> (account_state \<Rightarrow> account_state) \<Rightarrow> nat option \<Rightarrow> account_list \<Rightarrow> account_list \<Rightarrow> bool" where
  "reg_accounts e found bnd r l l' \<longleftrightarrow>
     (case r of
        None \<Rightarrow> acc_used l' = acc_used l \<and> acc_at l' = acc_at l
      | Some k \<Rightarrow>
          acc_used l' = (acc_used l)(k := True) \<and>
          (if e = REG_DUPLICATE_REGISTRATION then found = Some k \<and> acc_at l' = (acc_at l)(k := bnd (acc_at l k))
           else \<not> acc_used l k \<and>
             (case found of
                None \<Rightarrow> acc_at l' = (acc_at l)(k := bnd (reg_fresh l k))
              | Some j \<Rightarrow> j \<noteq> k \<and>
                  acc_at l' = (acc_at l)(j := (acc_at l j)\<lparr>acc_conflict_keyid := slot_id (al_pool l) k\<rparr>,
                                         k := bnd ((reg_fresh l k)\<lparr>acc_conflict_keyid := slot_id (al_pool l) j\<rparr>)))))"

definition al_full :: "account_list \<Rightarrow> bool" where
  "al_full l \<longleftrightarrow> al_GetCount l = op_total_size (al_pool l)"

lemma al_full_iff: "pool_inv (al_pool l) \<Longrightarrow> al_full l \<longleftrightarrow> op_unused_size (al_pool l) = 0"
  by (auto simp: al_full_def al_GetCount_def GetObjectNum_def pool_inv_def)

lemma no_cache_unused:
  assumes "al_inv l" "\<not> acc_used l k"
  shows "al_uid_map l h \<noteq> Some k" "c \<noteq> 0 \<Longrightarrow> al_conn_map l c \<noteq> Some k"
  using assms by (auto simp: al_inv_def uid_map_ok_def conn_map_ok_def)

lemma conflicts_fresh:
  assumes "conflicts_ok l" "\<not> acc_used l k" "used_at (al_pool l') = (used_at (al_pool l))(k := True)"
    and "slot_id (al_pool l') = slot_id (al_pool l)" "acc_conflict_keyid (acc_at l' k) = 0"
    and "\<And>j. j \<noteq> k \<Longrightarrow> acc_conflict_keyid (acc_at l' j) = acc_conflict_keyid (acc_at l j)"
  shows "conflicts_ok l'"
  unfolding conflicts_ok_def
proof (intro allI impI)
  fix i assume i: "acc_used l' i" "acc_conflict_keyid (acc_at l' i) \<noteq> 0"
  then have "i \<noteq> k" "acc_used l i" "acc_conflict_keyid (acc_at l i) \<noteq> 0" using assms(3,5,6) by (auto split: if_splits)
  then obtain j where "acc_used l j" "j \<noteq> i" "acc_conflict_keyid (acc_at l i) = slot_id (al_pool l) j"
    "acc_conflict_keyid (acc_at l j) = slot_id (al_pool l) i"
    using assms(1) unfolding conflicts_ok_def by blast
  then show "\<exists>j. acc_used l' j \<and> j \<noteq> i \<and> acc_conflict_keyid (acc_at l' i) = slot_id (al_pool l') j \<and>
      acc_conflict_keyid (acc_at l' j) = slot_id (al_pool l') i"
    using assms \<open>i \<noteq> k\<close> by (intro exI [of _ j]) auto
qed

lemma conflicts_pair:
  assumes "conflicts_ok l" "acc_used l j" "acc_conflict_keyid (acc_at l j) = 0" "\<not> acc_used l k"
    and "used_at (al_pool l') = (used_at (al_pool l))(k := True)" "slot_id (al_pool l') = slot_id (al_pool l)"
    and "acc_conflict_keyid (acc_at l' k) = slot_id (al_pool l) j" "acc_conflict_keyid (acc_at l' j) = slot_id (al_pool l) k"
    and "\<And>i. i \<noteq> k \<Longrightarrow> i \<noteq> j \<Longrightarrow> acc_conflict_keyid (acc_at l' i) = acc_conflict_keyid (acc_at l i)"
    and "pool_inv (al_pool l)"
  shows "conflicts_ok l'"
  unfolding conflicts_ok_def
proof (intro allI impI)
  fix i assume i: "acc_used l' i" "acc_conflict_keyid (acc_at l' i) \<noteq> 0"
  show "\<exists>j. acc_used l' j \<and> j \<noteq> i \<and> acc_conflict_keyid (acc_at l' i) = slot_id (al_pool l') j \<and>
      acc_conflict_keyid (acc_at l' j) = slot_id (al_pool l') i"
  proof (cases "i = j \<or> i = k")
    case True
    then show ?thesis using assms by (cases "i = j") (auto intro: exI [of _ j] exI [of _ k])
  next
    case False
    then have "acc_used l i" "acc_conflict_keyid (acc_at l i) \<noteq> 0" using i assms(5,9) by auto
    then obtain m where m: "acc_used l m" "m \<noteq> i" "acc_conflict_keyid (acc_at l i) = slot_id (al_pool l) m"
      "acc_conflict_keyid (acc_at l m) = slot_id (al_pool l) i"
      using assms(1) unfolding conflicts_ok_def by blast
    have "slot_id (al_pool l) i \<noteq> 0" using slot_id_not_0 [OF assms(10)] used_less [OF \<open>acc_used l i\<close>] by simp
    then have "m \<noteq> j" "m \<noteq> k" using m assms(3,4) by auto
    then show ?thesis using m False assms by (intro exI [of _ m]) auto
  qed
qed

lemma Register_early:
  assumes "reg_value e < 0" "reg_account sUid sNick sPwd c l = Some (e, r, l1)"
  shows "Register env scratch sUid sNick sPwd c u i t l = Some (e, None, l1)"
  using assms by (simp add: Register_def)

lemma Register_late:
  assumes "0 \<le> reg_value e" "reg_account sUid sNick sPwd c l = Some (e, Some k, l1)"
    "bind_info env scratch k sUid sNick sPwd l1 = Some l2" "ConfirmAccountIsReady k c u i t l2 = l'"
  shows "Register env scratch sUid sNick sPwd c u i t l = Some (e, Some k, l')"
  using assms by (simp add: Register_def)

lemma mgr_inv_cong:
  assumes "mgr_inv l" "al_inv l'" "al_pool l' = al_pool l"
  shows "mgr_inv l'"
  using assms by (simp add: mgr_inv_def all_ready_def conflicts_ok_def)

text \<open>The three ways in which \<open>Register\<close> succeeds.\<close>

lemma Register_new:
  assumes "mgr_inv l" "reg_texts_ok sUid sNick sPwd" "sUid \<noteq> []" "length sUid < 36" "length sNick < 36" "length sPwd < 40"
    and "length scratch = 32" "GetByUid sUid l = Some (None, l0)" "al_inv l0" "al_pool l0 = al_pool l" "\<not> al_full l"
  obtains k l' where "Register env scratch sUid sNick sPwd c u i t l = Some (REG_OK, Some k, l')" "mgr_inv l'"
    "slot_id (al_pool l') = slot_id (al_pool l)" "op_total_size (al_pool l') = op_total_size (al_pool l)"
    "reg_accounts REG_OK None (reg_bound sUid sNick sPwd c u i t) (Some k) l l'"
proof -
  have "op_unused_size (al_pool l0) \<noteq> 0" using assms al_full_iff mgr_invD(4) by auto
  then obtain k l1 where l1: "al_Alloc l0 = Some (Some k, l1)" "\<not> acc_used l0 k" "used_at (al_pool l1) = (used_at (al_pool l0))(k := True)"
    "acc_at l1 = (acc_at l0)(k := acc_zero\<lparr>acc_keyid := slot_id (al_pool l0) k, acc_onoff := ONOFF_INIT\<rparr>)"
    "al_uid_map l1 = al_uid_map l0" "al_conn_map l1 = al_conn_map l0" "slot_id (al_pool l1) = slot_id (al_pool l0)"
    "op_total_size (al_pool l1) = op_total_size (al_pool l0)" "al_inv l1"
    using Alloc_ok [OF assms(9)] by metis
  have acc: "reg_account sUid sNick sPwd c l = Some (REG_OK, Some k, l1)"
    using assms l1(1) by (simp add: reg_account_def)
  obtain l2 l' where l': "bind_info env scratch k sUid sNick sPwd l1 = Some l2" "ConfirmAccountIsReady k c u i t l2 = l'" "al_inv l'"
    "used_at (al_pool l') = used_at (al_pool l1)" "slot_id (al_pool l') = slot_id (al_pool l1)"
    "op_total_size (al_pool l') = op_total_size (al_pool l1)"
    "acc_at l' = (acc_at l1)(k := reg_bound sUid sNick sPwd c u i t (acc_at l1 k))"
    using bind_confirm [OF l1(9) _ assms(2,4-7), of k c env u i t] l1(3,5,6) no_cache_unused [OF assms(9) l1(2)] by auto
  have used: "acc_used l' = (acc_used l)(k := True)" and slots: "slot_id (al_pool l') = slot_id (al_pool l)"
    and at: "acc_at l' = (acc_at l)(k := reg_bound sUid sNick sPwd c u i t (reg_fresh l k))"
    using l'(4,5,7) l1(3,4,7) assms(10) by (simp_all add: reg_fresh_def acc_zero_def)
  have "conflicts_ok l'"
    by (rule conflicts_fresh [of l k]) (use mgr_invD(3) [OF assms(1)] used slots at l1(2) assms(10) in
      \<open>simp_all add: reg_fresh_def acc_zero_def\<close>)
  moreover have "all_ready l'" using mgr_invD(2) [OF assms(1)] by (simp add: all_ready_def used at)
  ultimately have "mgr_inv l'" using l'(3) by (simp add: mgr_inv_def)
  moreover have "reg_accounts REG_OK None (reg_bound sUid sNick sPwd c u i t) (Some k) l l'"
    using used at l1(2) assms(10) by (simp add: reg_accounts_def)
  ultimately show ?thesis
    using that [OF Register_late [OF _ acc l'(1,2)]] slots l'(6) l1(8) assms(10) by simp
qed

lemma Register_second:
  assumes "mgr_inv l" "reg_texts_ok sUid sNick sPwd" "sUid \<noteq> []" "length sUid < 36" "length sNick < 36" "length sPwd < 40"
    and "length scratch = 32" "GetByUid sUid l = Some (Some j, l0)" "al_inv l0" "al_pool l0 = al_pool l" "\<not> al_full l"
    and "acc_used l j" "acc_conflict_keyid (acc_at l j) = 0" "acc_ext_data (acc_at l j) \<noteq> 0" "c \<noteq> acc_connid (acc_at l j)"
  obtains k l' where "Register env scratch sUid sNick sPwd c u i t l = Some (REG_CONFLICT, Some k, l')" "mgr_inv l'"
    "slot_id (al_pool l') = slot_id (al_pool l)" "op_total_size (al_pool l') = op_total_size (al_pool l)"
    "reg_accounts REG_CONFLICT (Some j) (reg_bound sUid sNick sPwd c u i t) (Some k) l l'"
proof -
  have "op_unused_size (al_pool l0) \<noteq> 0" using assms al_full_iff mgr_invD(4) by auto
  then obtain k l1 where l1: "al_Alloc l0 = Some (Some k, l1)" "\<not> acc_used l0 k" "used_at (al_pool l1) = (used_at (al_pool l0))(k := True)"
    "acc_at l1 = (acc_at l0)(k := acc_zero\<lparr>acc_keyid := slot_id (al_pool l0) k, acc_onoff := ONOFF_INIT\<rparr>)"
    "al_uid_map l1 = al_uid_map l0" "al_conn_map l1 = al_conn_map l0" "slot_id (al_pool l1) = slot_id (al_pool l0)"
    "op_total_size (al_pool l1) = op_total_size (al_pool l0)" "al_inv l1"
    using Alloc_ok [OF assms(9)] by metis
  have "k \<noteq> j" using l1(2) assms(10,12) by auto
  let ?m = "mark_conflict k j l1"
  note m = mark_conflict_ok [of l1 k j, OF l1(9)]
  have acc: "reg_account sUid sNick sPwd c l = Some (REG_CONFLICT, Some k, ?m)"
    using assms l1(1) \<open>k \<noteq> j\<close> by (simp add: reg_account_def reg_found_def)
  have m_used: "acc_used l1 k" "acc_used l1 j" using l1(3) assms(10,12) by auto
  note m = m [OF m_used \<open>k \<noteq> j\<close>]
  obtain l2 l' where l': "bind_info env scratch k sUid sNick sPwd ?m = Some l2" "ConfirmAccountIsReady k c u i t l2 = l'" "al_inv l'"
    "used_at (al_pool l') = used_at (al_pool ?m)" "slot_id (al_pool l') = slot_id (al_pool ?m)"
    "op_total_size (al_pool l') = op_total_size (al_pool ?m)"
    "acc_at l' = (acc_at ?m)(k := reg_bound sUid sNick sPwd c u i t (acc_at ?m k))"
    using bind_confirm [OF m(1) _ assms(2,4-7), of k c env u i t] m(2,5,6) l1(3,5,6) no_cache_unused [OF assms(9) l1(2)] by auto
  have used: "acc_used l' = (acc_used l)(k := True)" and slots: "slot_id (al_pool l') = slot_id (al_pool l)"
    using l'(4,5) m(2,3) l1(3,7) assms(10) by simp_all
  have at: "acc_at l' = (acc_at l)(j := (acc_at l j)\<lparr>acc_conflict_keyid := slot_id (al_pool l) k\<rparr>,
     k := reg_bound sUid sNick sPwd c u i t ((reg_fresh l k)\<lparr>acc_conflict_keyid := slot_id (al_pool l) j\<rparr>))"
    using l'(7) m(7) l1(4,7) assms(10) \<open>k \<noteq> j\<close> by (auto simp: reg_fresh_def acc_zero_def fun_eq_iff)
  have "conflicts_ok l'"
    by (rule conflicts_pair [of l j k]) (use mgr_invD(3,4) [OF assms(1)] used slots at l1(2) assms(10,12,13) \<open>k \<noteq> j\<close> in simp_all)
  moreover have "all_ready l'" using mgr_invD(2) [OF assms(1)] assms(12) by (simp add: all_ready_def used at)
  ultimately have "mgr_inv l'" using l'(3) by (simp add: mgr_inv_def)
  moreover have "reg_accounts REG_CONFLICT (Some j) (reg_bound sUid sNick sPwd c u i t) (Some k) l l'"
    using used at l1(2) assms(10) \<open>k \<noteq> j\<close> by (simp add: reg_accounts_def)
  ultimately show ?thesis
    using that [OF Register_late [OF _ acc l'(1,2)]] slots l'(6) m(4) l1(8) assms(10) by simp
qed

lemma conflicts_same:
  assumes "conflicts_ok l" "used_at (al_pool l') = used_at (al_pool l)" "slot_id (al_pool l') = slot_id (al_pool l)"
    and "\<And>i. acc_used l i \<Longrightarrow> acc_conflict_keyid (acc_at l' i) = acc_conflict_keyid (acc_at l i)"
  shows "conflicts_ok l'"
  using assms(1) unfolding conflicts_ok_def assms(2,3) by (metis assms(4))

lemma Register_again:
  assumes "mgr_inv l" "reg_texts_ok sUid sNick sPwd" "sUid \<noteq> []" "length sUid < 36" "length sNick < 36" "length sPwd < 40"
    and "length scratch = 32" "GetByUid sUid l = Some (Some k, l0)" "al_inv l0" "al_pool l0 = al_pool l"
    and "acc_used l k" "acc_conflict_keyid (acc_at l k) = 0" "acc_ext_data (acc_at l k) \<noteq> 0"
    and "uid_key (acc_uid (acc_at l k)) = uid_key sUid" "c = acc_connid (acc_at l k)"
  obtains l' where "Register env scratch sUid sNick sPwd c u i t l = Some (REG_DUPLICATE_REGISTRATION, Some k, l')" "mgr_inv l'"
    "slot_id (al_pool l') = slot_id (al_pool l)" "op_total_size (al_pool l') = op_total_size (al_pool l)"
    "reg_accounts REG_DUPLICATE_REGISTRATION (Some k) (reg_bound sUid sNick sPwd c u i t) (Some k) l l'"
proof -
  have acc: "reg_account sUid sNick sPwd c l = Some (REG_DUPLICATE_REGISTRATION, Some k, l0)"
    using assms by (simp add: reg_account_def reg_found_def)
  have conn: "c' = c" if "c' \<noteq> 0" "al_conn_map l0 c' = Some k" for c'
    using that al_inv_parts(5) [OF assms(9)] assms(10,15) by (simp add: conn_map_ok_def)
  obtain l2 l' where l': "bind_info env scratch k sUid sNick sPwd l0 = Some l2" "ConfirmAccountIsReady k c u i t l2 = l'" "al_inv l'"
    "used_at (al_pool l') = used_at (al_pool l0)" "slot_id (al_pool l') = slot_id (al_pool l0)"
    "op_total_size (al_pool l') = op_total_size (al_pool l0)"
    "acc_at l' = (acc_at l0)(k := reg_bound sUid sNick sPwd c u i t (acc_at l0 k))"
    using bind_confirm [where env = env and u = u and i = i and t = t and k = k and c = c, OF assms(9) _ assms(2,4-7)] assms(10,11,14) conn by auto
  have "conflicts_ok l'"
    by (rule conflicts_same [of l]) (use mgr_invD(3) [OF assms(1)] l'(4,5,7) assms(10) in simp_all)
  moreover have "all_ready l'" using mgr_invD(2) [OF assms(1)] assms(10) by (simp add: all_ready_def l'(4,7))
  ultimately have "mgr_inv l'" using l'(3) by (simp add: mgr_inv_def)
  moreover have "acc_used l' = (acc_used l)(k := True)" using l'(4) assms(10,11) by (simp add: fun_eq_iff)
  ultimately show ?thesis
    using that [OF Register_late [OF _ acc l'(1,2)]] l'(5-7) assms(10) by (simp add: reg_accounts_def)
qed

lemma Register_refused:
  assumes "mgr_inv l" "al_inv l0" "al_pool l0 = al_pool l" "reg_account sUid sNick sPwd c l = Some (e, r, l0)" "reg_value e < 0"
  shows "Register env scratch sUid sNick sPwd c u i t l = Some (e, None, l0) \<and> mgr_inv l0 \<and>
    slot_id (al_pool l0) = slot_id (al_pool l) \<and> op_total_size (al_pool l0) = op_total_size (al_pool l) \<and>
    reg_accounts e found bnd None l l0"
  using Register_early [OF assms(5,4)] mgr_inv_cong [OF assms(1-3)] assms(3) by (simp add: reg_accounts_def)

definition register_spec ::
  "'f fmt_env \<Rightarrow> string \<Rightarrow> string \<Rightarrow> string \<Rightarrow> string \<Rightarrow> uint64 \<Rightarrow> uint64 \<Rightarrow> nat \<Rightarrow> int \<Rightarrow> nat option \<Rightarrow> account_list \<Rightarrow> bool" where
  "register_spec env scratch sUid sNick sPwd c u i t found l \<longleftrightarrow>
     (\<exists>r l'. Register env scratch sUid sNick sPwd c u i t l =
        Some (reg_outcome sUid sNick sPwd c (map_option (acc_at l) found) (al_full l), r, l') \<and> mgr_inv l' \<and>
      slot_id (al_pool l') = slot_id (al_pool l) \<and> op_total_size (al_pool l') = op_total_size (al_pool l) \<and>
      reg_accounts (reg_outcome sUid sNick sPwd c (map_option (acc_at l) found) (al_full l)) found
        (reg_bound sUid sNick sPwd c u i t) r l l')"

lemma Register_early_spec:
  assumes "mgr_inv l" "al_inv l0" "al_pool l0 = al_pool l"
    and "reg_account sUid sNick sPwd c l = Some (e, r, l0)" "reg_value e < 0"
    and "e = reg_outcome sUid sNick sPwd c (map_option (acc_at l) found) (al_full l)"
  shows "register_spec env scratch sUid sNick sPwd c u i t found l"
  using Register_refused [OF assms(1-5)] assms(6) unfolding register_spec_def by blast

lemma Register_found:
  assumes inv: "mgr_inv l" and tx: "reg_texts_ok sUid sNick sPwd" "length scratch = 32"
    and good: "sUid \<noteq> []" and len: "length sUid < 36" "length sNick < 36" "length sPwd < 40"
    and get: "GetByUid sUid l = Some (Some j, l0)" and l0: "al_inv l0" "al_pool l0 = al_pool l"
    and j: "acc_used l j" "uid_key (acc_uid (acc_at l j)) = uid_key sUid"
  shows "register_spec env scratch sUid sNick sPwd c u i t (Some j) l"
proof -
  let ?a = "acc_at l j"
  have full: "al_Alloc l0 = Some (None, l0)" if "al_full l"
    using that al_full_iff [OF mgr_invD(4) [OF inv]] Alloc_full l0(2) by simp
  consider "acc_conflict_keyid ?a \<noteq> 0 \<or> acc_ext_data ?a = 0 \<or> (c \<noteq> acc_connid ?a \<and> al_full l)"
    | "acc_conflict_keyid ?a = 0" "acc_ext_data ?a \<noteq> 0" "c = acc_connid ?a"
    | "acc_conflict_keyid ?a = 0" "acc_ext_data ?a \<noteq> 0" "c \<noteq> acc_connid ?a" "\<not> al_full l" by blast
  then show ?thesis
  proof cases
    case 1
    then have "reg_account sUid sNick sPwd c l =
        Some (reg_outcome sUid sNick sPwd c (Some ?a) (al_full l), None, l0) \<and>
      reg_value (reg_outcome sUid sNick sPwd c (Some ?a) (al_full l)) < 0"
      using good len get full l0(2) by (auto simp: reg_outcome_def reg_account_def reg_found_def Let_def)
    then show ?thesis using Register_early_spec [OF inv l0] by (metis option.simps(9))
  next
    case 2
    then have "reg_outcome sUid sNick sPwd c (Some ?a) (al_full l) = REG_DUPLICATE_REGISTRATION"
      using good len by (simp add: reg_outcome_def)
    with 2 show ?thesis
      using Register_again [OF inv tx(1) good len tx(2) get l0 j(1) _ _ j(2), of c env u i t]
      unfolding register_spec_def by (metis option.simps(9))
  next
    case 3
    then have "reg_outcome sUid sNick sPwd c (Some ?a) (al_full l) = REG_CONFLICT"
      using good len by (simp add: reg_outcome_def)
    then show ?thesis
      using Register_second [OF inv tx(1) good len tx(2) get l0 3(4) j(1) 3(1-3), of env u i t]
      unfolding register_spec_def by (metis option.simps(9))
  qed
qed

lemma Register_ok:
  assumes inv: "mgr_inv l" and tx: "reg_texts_ok sUid sNick sPwd" "length scratch = 32"
    and found: "GetByUid sUid l = Some (found, l0)"
  shows "register_spec env scratch sUid sNick sPwd c u i t found l"
proof -
  note al = mgr_invD [OF inv]
  have l0: "al_inv l0" "al_pool l0 = al_pool l"
    and hit: "\<And>k. found = Some k \<Longrightarrow> acc_used l k \<and> uid_key (acc_uid (acc_at l k)) = uid_key sUid"
    using GetByUid_ok [OF al(1,2), of sUid] found by (metis option.inject prod.inject)+
  have full: "al_Alloc l0 = Some (None, l0)" if "al_full l" using that al_full_iff [OF al(4)] Alloc_full l0(2) by simp
  let ?bad = "36 \<le> length sUid \<or> 36 \<le> length sNick \<or> 40 \<le> length sPwd"
  let ?e = "reg_outcome sUid sNick sPwd c (map_option (acc_at l) found) (al_full l)"
  consider "sUid = [] \<or> ?bad" | "sUid \<noteq> []" "\<not> ?bad" "found = None" "al_full l"
    | "sUid \<noteq> []" "\<not> ?bad" "found = None" "\<not> al_full l" | j where "sUid \<noteq> []" "\<not> ?bad" "found = Some j" by (cases found) blast+
  then show ?thesis
  proof cases
    case 1
    then have "reg_account sUid sNick sPwd c l = Some (?e, None, l)" "reg_value ?e < 0"
      by (auto simp: reg_outcome_def reg_account_def)
    then show ?thesis by (rule Register_early_spec [OF inv al(1) refl _ _ refl])
  next
    case 2
    then have "reg_account sUid sNick sPwd c l = Some (?e, None, l0)" "reg_value ?e < 0"
      using found full by (auto simp: reg_outcome_def reg_account_def)
    then show ?thesis by (rule Register_early_spec [OF inv l0 _ _ refl])
  next
    case 3
    then have "length sUid < 36" "length sNick < 36" "length sPwd < 40" "?e = REG_OK" by (auto simp: reg_outcome_def)
    then show ?thesis
      using Register_new [OF inv tx(1) 3(1) _ _ _ tx(2) _ l0 3(4), of env c u i t] found 3(3) unfolding register_spec_def by metis
  next
    case 4
    then show ?thesis using Register_found [where env = env, OF inv tx 4(1) _ _ _ _ l0] found hit by simp
  qed
qed

text \<open>\<open>Unregister\<close> frees the account and clears the mark of the one that it conflicts with.\<close>

definition unmark :: "objid \<Rightarrow> account_state \<Rightarrow> account_state" where
  "unmark i a = (if acc_conflict_keyid a = i then a\<lparr>acc_conflict_keyid := 0\<rparr> else a)"

lemma slot_eq: "pool_inv (al_pool l) \<Longrightarrow> acc_used l i \<Longrightarrow> acc_used l j \<Longrightarrow> slot_id (al_pool l) i = slot_id (al_pool l) j \<longleftrightarrow> i = j"
  using slot_id_inj [of "al_pool l"] used_less [of l] by (auto simp: inj_on_def)

lemma conflict_partner:
  assumes "mgr_inv l" "acc_used l k" "acc_conflict_keyid (acc_at l k) \<noteq> 0"
  obtains j where "acc_used l j" "j \<noteq> k" "acc_conflict_keyid (acc_at l k) = slot_id (al_pool l) j"
    "acc_conflict_keyid (acc_at l j) = slot_id (al_pool l) k" "pool_Get (al_pool l) (acc_conflict_keyid (acc_at l k)) = Some j"
  using assms mgr_invD [OF assms(1)] pool_Get_slot used_less by (metis conflicts_ok_def)

lemma conflict_back:
  assumes "mgr_inv l" "acc_used l k" "acc_used l i" "acc_conflict_keyid (acc_at l i) = slot_id (al_pool l) k"
  shows "acc_conflict_keyid (acc_at l k) = slot_id (al_pool l) i"
proof -
  note pool = mgr_invD(4) [OF assms(1)]
  have "acc_conflict_keyid (acc_at l i) \<noteq> 0" using assms(4) slot_id_not_0 [OF pool] used_less [OF assms(2)] by simp
  then show ?thesis using conflict_partner [OF assms(1,3)] assms(4) slot_eq [OF pool assms(2)] by metis
qed

lemma conflicts_release:
  assumes "mgr_inv l" "acc_used l k" "used_at (al_pool l') = (used_at (al_pool l))(k := False)"
    and "slot_id (al_pool l') = slot_id (al_pool l)" "\<And>i. i \<noteq> k \<Longrightarrow> acc_used l i \<Longrightarrow> acc_at l' i = unmark (slot_id (al_pool l) k) (acc_at l i)"
  shows "conflicts_ok l'"
  unfolding conflicts_ok_def
proof (intro allI impI)
  fix i assume i: "acc_used l' i" "acc_conflict_keyid (acc_at l' i) \<noteq> 0"
  then have ik: "i \<noteq> k" "acc_used l i" using assms(3) by (auto split: if_splits)
  then have same: "acc_at l' i = acc_at l i" "acc_conflict_keyid (acc_at l i) \<noteq> 0"
    and mark: "acc_conflict_keyid (acc_at l i) \<noteq> slot_id (al_pool l) k"
    using i(2) assms(5) [of i] by (auto simp: unmark_def split: if_splits)
  obtain j where j: "acc_used l j" "j \<noteq> i" "acc_conflict_keyid (acc_at l i) = slot_id (al_pool l) j"
    "acc_conflict_keyid (acc_at l j) = slot_id (al_pool l) i"
    using conflict_partner [OF assms(1) ik(2) same(2)] by metis
  then have "j \<noteq> k" using mark by auto
  moreover have "slot_id (al_pool l) i \<noteq> slot_id (al_pool l) k"
    using slot_eq [OF mgr_invD(4) [OF assms(1)] ik(2) assms(2)] ik(1) by simp
  ultimately have "acc_at l' j = acc_at l j" using assms(5) [of j] j(1,4) by (simp add: unmark_def)
  then show "\<exists>j. acc_used l' j \<and> j \<noteq> i \<and> acc_conflict_keyid (acc_at l' i) = slot_id (al_pool l') j \<and>
      acc_conflict_keyid (acc_at l' j) = slot_id (al_pool l') i"
    using j same(1) \<open>j \<noteq> k\<close> assms(3,4) by (intro exI [of _ j]) simp
qed

lemma Unregister_ok:
  assumes "mgr_inv l" "acc_used l k"
  obtains l' where "Unregister k t l = Some l'" "mgr_inv l'" "used_at (al_pool l') = (used_at (al_pool l))(k := False)"
    "slot_id (al_pool l') = slot_id (al_pool l)" "op_total_size (al_pool l') = op_total_size (al_pool l)"
    "\<And>i. i \<noteq> k \<Longrightarrow> acc_used l i \<Longrightarrow> acc_at l' i = unmark (slot_id (al_pool l) k) (acc_at l i)" "\<not> acc_is_ready (acc_at l' k)"
proof -
  note al = mgr_invD [OF assms(1)]
  have ready: "acc_is_ready (acc_at l k)" using al(2) assms(2) by (simp add: all_ready_def)
  obtain m where m: "Unregister k t l = al_ReleaseInternal k t m" "al_inv m" "acc_used m = acc_used l"
    "slot_id (al_pool m) = slot_id (al_pool l)" "op_total_size (al_pool m) = op_total_size (al_pool l)"
    "\<And>i. acc_used l i \<Longrightarrow> i \<noteq> k \<Longrightarrow> acc_at m i = unmark (slot_id (al_pool l) k) (acc_at l i)" "acc_is_ready (acc_at m k)"
  proof (cases "acc_conflict_keyid (acc_at l k) = 0")
    case True
    have "acc_conflict_keyid (acc_at l i) \<noteq> slot_id (al_pool l) k" if "acc_used l i" for i
      using conflict_back [OF assms that] True slot_id_not_0 [OF al(4)] used_less [OF that] by auto
    then show ?thesis using that [of l] True ready al(1) by (simp add: Unregister_def unmark_def)
  next
    case False
    then obtain j where j: "acc_used l j" "j \<noteq> k" "acc_conflict_keyid (acc_at l k) = slot_id (al_pool l) j"
      "acc_conflict_keyid (acc_at l j) = slot_id (al_pool l) k" "pool_Get (al_pool l) (acc_conflict_keyid (acc_at l k)) = Some j"
      using conflict_partner [OF assms] by metis
    let ?c = "\<lambda>a. a\<lparr>acc_conflict_keyid := 0\<rparr>"
    let ?m = "al_modify j ?c (al_modify k ?c l)"
    have at: "acc_at ?m = (acc_at l)(k := ?c (acc_at l k), j := ?c (acc_at l j))"
      using al(4) used_less [OF j(1)] used_less [OF assms(2)] j(2) by (simp add: al_modify_at)
    have "al_inv ?m" using al(1) assms(2) j(1) by (intro al_inv_modify) (auto simp: is_online_def)
    moreover have "acc_at ?m i = unmark (slot_id (al_pool l) k) (acc_at l i)" if "acc_used l i" "i \<noteq> k" for i
      using conflict_back [OF assms that(1)] j slot_eq [OF al(4) that(1) j(1)] that(2) unfolding at by (auto simp: unmark_def)
    ultimately show ?thesis using that [of ?m] ready False j(2,5) at by (simp add: Unregister_def)
  qed
  obtain l' where l': "al_ReleaseInternal k t m = Some l'" "al_inv l'" "used_at (al_pool l') = (used_at (al_pool m))(k := False)"
    "\<And>j. j \<noteq> k \<Longrightarrow> acc_at l' j = acc_at m j" "slot_id (al_pool l') = slot_id (al_pool m)"
    "op_total_size (al_pool l') = op_total_size (al_pool m)" "\<not> acc_is_ready (acc_at l' k)"
    using ReleaseInternal_ok [OF m(2) _ m(7)] m(3) assms(2) by metis
  have at: "acc_at l' i = unmark (slot_id (al_pool l) k) (acc_at l i)" if "i \<noteq> k" "acc_used l i" for i
    using l'(4) m(6) that by simp
  have "conflicts_ok l'"
    using conflicts_release [OF assms] l'(3,5) m(3,4) at by simp
  moreover have "all_ready l'" using al(2) at by (auto simp: all_ready_def l'(3) m(3) unmark_def split: if_splits)
  ultimately show ?thesis using that [of l'] l' m at by (simp add: mgr_inv_def)
qed

lemma unmark_simps [simp]:
  "acc_connid (unmark i a) = acc_connid a" "acc_uid (unmark i a) = acc_uid a" "acc_is_ready (unmark i a) = acc_is_ready a"
  by (simp_all add: unmark_def)

text \<open>An account that is kept is unchanged, or has lost its conflict mark.\<close>

definition kept :: "account_state \<Rightarrow> account_state \<Rightarrow> bool" where
  "kept a b \<longleftrightarrow> b = a \<or> b = a\<lparr>acc_conflict_keyid := 0\<rparr>"

lemma kept_simps: "kept a a" "kept a (unmark i a)" "kept a b \<Longrightarrow> kept b c \<Longrightarrow> kept a c" "kept a b \<Longrightarrow> acc_connid b = acc_connid a"
  by (auto simp: kept_def unmark_def)

lemma unregister_walk_ok:
  assumes "mgr_inv l"
  shows "\<exists>l'. unregister_walk c t ks l = Some l' \<and> mgr_inv l' \<and>
    acc_used l' = (\<lambda>k. acc_used l k \<and> \<not> (k \<in> set ks \<and> acc_connid (acc_at l k) = c)) \<and>
    slot_id (al_pool l') = slot_id (al_pool l) \<and> op_total_size (al_pool l') = op_total_size (al_pool l) \<and>
    (\<forall>k. acc_used l' k \<longrightarrow> kept (acc_at l k) (acc_at l' k))"
  using assms
proof (induction ks arbitrary: l)
  case Nil
  then show ?case by (simp add: kept_simps)
next
  case (Cons k ks)
  show ?case
  proof (cases "acc_used l k \<and> c = acc_connid (acc_at l k)")
    case True
    then obtain m where m: "Unregister k t l = Some m" "mgr_inv m" "acc_used m = (acc_used l)(k := False)"
      "slot_id (al_pool m) = slot_id (al_pool l)" "op_total_size (al_pool m) = op_total_size (al_pool l)"
      "\<And>i. i \<noteq> k \<Longrightarrow> acc_used l i \<Longrightarrow> acc_at m i = unmark (slot_id (al_pool l) k) (acc_at l i)"
      using Unregister_ok [OF Cons.prems, of k t] by metis
    obtain l' where l': "unregister_walk c t ks m = Some l'" "mgr_inv l'"
      "acc_used l' = (\<lambda>k. acc_used m k \<and> \<not> (k \<in> set ks \<and> acc_connid (acc_at m k) = c))"
      "slot_id (al_pool l') = slot_id (al_pool m)" "op_total_size (al_pool l') = op_total_size (al_pool m)"
      "\<forall>k. acc_used l' k \<longrightarrow> kept (acc_at m k) (acc_at l' k)"
      using Cons.IH [OF m(2)] by blast
    have "acc_used l' = (\<lambda>j. acc_used l j \<and> \<not> (j \<in> set (k # ks) \<and> acc_connid (acc_at l j) = c))"
      using True m(3,6) by (auto simp: l'(3) fun_eq_iff)
    moreover have "kept (acc_at l j) (acc_at l' j)" if "acc_used l' j" for j
      using that l'(6) m(3,6) kept_simps(2,3) unfolding l'(3) by (metis fun_upd_apply)
    ultimately show ?thesis using True m(1,4,5) l'(1,2,4,5) by simp
  next
    case False
    then show ?thesis using Cons.IH [OF Cons.prems] by (auto simp: fun_eq_iff)
  qed
qed

lemma UnregisterByConnId_ok:
  assumes "mgr_inv l"
  obtains l' where "UnregisterByConnId c t l = Some l'" "mgr_inv l'" "acc_used l' = (\<lambda>k. acc_used l k \<and> acc_connid (acc_at l k) \<noteq> c)"
    "slot_id (al_pool l') = slot_id (al_pool l)" "\<And>k. acc_used l' k \<Longrightarrow> kept (acc_at l k) (acc_at l' k)"
proof -
  from unregister_walk_ok [OF assms, of c t "[0..<op_total_size (al_pool l)]"] obtain l' where
    l': "UnregisterByConnId c t l = Some l'" "mgr_inv l'"
    "acc_used l' = (\<lambda>k. acc_used l k \<and> \<not> (k \<in> set [0..<op_total_size (al_pool l)] \<and> acc_connid (acc_at l k) = c))"
    "slot_id (al_pool l') = slot_id (al_pool l)" "\<forall>k. acc_used l' k \<longrightarrow> kept (acc_at l k) (acc_at l' k)"
    unfolding UnregisterByConnId_def by blast
  moreover have "acc_used l' = (\<lambda>k. acc_used l k \<and> acc_connid (acc_at l k) \<noteq> c)"
    unfolding l'(3) using used_less [of l] by auto
  ultimately show ?thesis using that by blast
qed

section \<open>Sequences of operations\<close>

datatype mgr_op =
    MRegister string string string uint64 uint64 nat int
  | MUnregister nat int
  | MUnregisterByConnId uint64 int
  | MLookupByInnerUuid uint64
  | MGetByUid string
  | MGetByConnId uint64
  | MOnline nat uint64 uint64 nat int
  | MOffline nat int
  | MOfflineByUid string int
  | MKeepAlive nat int
  | MKeepAliveByUid string int
  | MCheckKeepAlive int int
  | MSetExtData nat nat

fun mgr_do :: "'f fmt_env \<Rightarrow> string \<Rightarrow> mgr_op \<Rightarrow> account_list \<Rightarrow> account_list option" where
  "mgr_do env scratch (MRegister sUid sNick sPwd c u i t) l =
     map_option (snd \<circ> snd) (Register env scratch sUid sNick sPwd c u i t l)"
| "mgr_do env scratch (MUnregister k t) l = Unregister k t l"
| "mgr_do env scratch (MUnregisterByConnId c t) l = UnregisterByConnId c t l"
| "mgr_do env scratch (MLookupByInnerUuid u) l = map_option snd (LookupAccountByInnerUuid u l)"
| "mgr_do env scratch (MGetByUid sUid) l = map_option snd (GetByUid sUid l)"
| "mgr_do env scratch (MGetByConnId c) l = map_option snd (GetByConnId c l)"
| "mgr_do env scratch (MOnline k c u i t) l = Some (al_Online k c u i t l)"
| "mgr_do env scratch (MOffline k t) l = Some (al_Offline k t l)"
| "mgr_do env scratch (MOfflineByUid sUid t) l = Some (snd (OfflineByUid sUid t l))"
| "mgr_do env scratch (MKeepAlive k t) l = Some (KeepAlive k t l)"
| "mgr_do env scratch (MKeepAliveByUid sUid t) l = map_option snd (KeepAliveByUid sUid t l)"
| "mgr_do env scratch (MCheckKeepAlive n t) l = Some (CheckKeepAlive n t l)"
| "mgr_do env scratch (MSetExtData k d) l = Some (al_modify k (\<lambda>a. a\<lparr>acc_ext_data := d\<rparr>) l)"

text \<open>
  The calls of a client: texts are C strings, handles are accounts that are registered, an account
  that comes online again does so on its connection, and the lookup by connection is for a
  connection identifier, which is never 0.
\<close>

fun mgr_call :: "account_list \<Rightarrow> mgr_op \<Rightarrow> bool" where
  "mgr_call l (MRegister sUid sNick sPwd c u i t) = reg_texts_ok sUid sNick sPwd"
| "mgr_call l (MUnregister k t) = acc_used l k"
| "mgr_call l (MGetByConnId c) = (c \<noteq> 0)"
| "mgr_call l (MOnline k c u i t) = (acc_used l k \<and> acc_connid (acc_at l k) = c)"
| "mgr_call l (MOffline k t) = acc_used l k"
| "mgr_call l (MKeepAlive k t) = acc_used l k"
| "mgr_call l (MSetExtData k d) = acc_used l k"
| "mgr_call l op = True"

inductive mgr_reachable :: "'f fmt_env \<Rightarrow> string \<Rightarrow> account_list \<Rightarrow> bool" for env scratch where
  mgr_start: "mgr_reachable env scratch (mgr_new junk)"
| mgr_step: "mgr_reachable env scratch l \<Longrightarrow> mgr_call l op \<Longrightarrow> mgr_do env scratch op l = Some l' \<Longrightarrow> mgr_reachable env scratch l'"

text \<open>A change that leaves the registered accounts and their marks.\<close>

definition same_marks :: "account_list \<Rightarrow> account_list \<Rightarrow> bool" where
  "same_marks l l' \<longleftrightarrow>
     acc_used l' = acc_used l \<and> slot_id (al_pool l') = slot_id (al_pool l) \<and>
     (\<forall>k. acc_used l k \<longrightarrow> acc_is_ready (acc_at l' k) = acc_is_ready (acc_at l k) \<and>
        acc_conflict_keyid (acc_at l' k) = acc_conflict_keyid (acc_at l k))"

lemma same_marks_refl: "same_marks l l" by (simp add: same_marks_def)

lemma same_marks_trans: "same_marks l m \<Longrightarrow> same_marks m n \<Longrightarrow> same_marks l n"
  by (simp add: same_marks_def)

lemma same_marks_pool: "al_pool l' = al_pool l \<Longrightarrow> same_marks l l'" by (simp add: same_marks_def)

lemma mgr_inv_marks:
  assumes "mgr_inv l" "al_inv l'" "same_marks l l'"
  shows "mgr_inv l'"
  using assms conflicts_same [of l l'] by (simp add: mgr_inv_def same_marks_def all_ready_def)

lemma same_marks_modify:
  assumes "al_inv l" "acc_used l k" "\<And>a. acc_is_ready (f a) = acc_is_ready a" "\<And>a. acc_conflict_keyid (f a) = acc_conflict_keyid a"
  shows "same_marks l (al_modify k f l)"
  using assms al_inv_parts(1) [OF assms(1)] used_less [OF assms(2)] by (simp add: same_marks_def al_modify_at)

lemma same_marks_Offline: "al_inv l \<Longrightarrow> acc_used l k \<Longrightarrow> same_marks l (al_Offline k t l)"
  using al_inv_parts(1) used_less by (simp add: same_marks_def al_Offline_at)

lemma same_marks_Online:
  assumes "al_inv l" "acc_used l k"
  shows "same_marks l (al_Online k c u i t l)"
proof -
  let ?m = "al_modify k (\<lambda>a. a\<lparr>acc_connid := c, acc_inner_uuid := u, acc_conn_impl := i, acc_onoff := ONOFF_ONLINE, acc_onoff_time := t\<rparr>) l"
  have "same_marks l ?m" using assms by (rule same_marks_modify) simp_all
  moreover have "al_pool (al_Online k c u i t l) = al_pool ?m" by (simp add: al_Online_def Let_def)
  ultimately show ?thesis using same_marks_pool same_marks_trans by blast
qed

lemma Online_inv:
  assumes "mgr_inv l" "acc_used l k" "acc_connid (acc_at l k) = c"
  shows "mgr_inv (al_Online k c u i t l)"
proof -
  let ?m = "al_Online k c u i t l"
  note al = mgr_invD [OF assms(1)]
  have same: "same_marks l ?m" by (rule same_marks_Online [OF al(1) assms(2)])
  have "al_inv (ConfirmAccountIsReady k c u i t l)"
    using al(1) assms(2,3) by (intro Confirm_inv) (auto simp: al_inv_def conn_map_ok_def)
  moreover have "acc_is_ready (acc_at ?m k)" using same al(2) assms(2) by (simp add: same_marks_def all_ready_def)
  then have at: "acc_at ?m = acc_at (ConfirmAccountIsReady k c u i t l)"
    using al(4) used_less [OF assms(2)] by (simp add: ConfirmAccountIsReady_def al_Online_def Let_def al_modify_at fun_eq_iff)
  moreover have "al_online_count (ConfirmAccountIsReady k c u i t l) = al_online_count ?m"
    "al_uid_map ?m = al_uid_map l" "al_conn_map ?m = al_conn_map l"
    by (simp_all add: ConfirmAccountIsReady_def al_Online_def Let_def)
  ultimately have "al_inv ?m"
    using same al(4) unfolding al_inv_def keyids_ok_def uid_map_ok_def conn_map_ok_def count_ok_def online_set_def
    by (simp add: same_marks_def) (simp add: al_Online_def Let_def)
  then show ?thesis using mgr_inv_marks [OF assms(1)] same by blast
qed

lemma CheckKeepAlive_marks:
  assumes "al_inv l"
  shows "same_marks l (CheckKeepAlive n t l)"
proof -
  let ?f = "\<lambda>l k. if keep_alive_lost n t (acc_at l k) then al_Offline k t l else l"
  have "same_marks m (foldl ?f m ks)" if "al_inv m" "\<forall>k \<in> set ks. acc_used m k" for m ks
    using that
  proof (induction ks arbitrary: m)
    case Nil
    then show ?case by (simp add: same_marks_refl)
  next
    case (Cons k ks)
    have "al_inv (?f m k)" "same_marks m (?f m k)"
      using Cons.prems al_Offline_inv same_marks_Offline same_marks_refl by auto
    then show ?case using Cons.IH [of "?f m k"] Cons.prems same_marks_trans by (simp add: same_marks_def)
  qed
  then show ?thesis using assms by (simp add: CheckKeepAlive_def used_indices_def)
qed

lemma lookups_inv:
  assumes "mgr_inv l"
  shows "\<exists>r l'. GetByUid sUid l = Some (r, l') \<and> mgr_inv l' \<and> al_pool l' = al_pool l \<and> (\<forall>k. r = Some k \<longrightarrow> acc_used l k)"
    "c \<noteq> 0 \<Longrightarrow> \<exists>r l'. GetByConnId c l = Some (r, l') \<and> mgr_inv l'"
proof -
  note al = mgr_invD [OF assms]
  show "\<exists>r l'. GetByUid sUid l = Some (r, l') \<and> mgr_inv l' \<and> al_pool l' = al_pool l \<and> (\<forall>k. r = Some k \<longrightarrow> acc_used l k)"
    by (rule GetByUid_ok [OF al(1,2), of sUid]) (use mgr_inv_cong [OF assms] in auto)
  show "\<exists>r l'. GetByConnId c l = Some (r, l') \<and> mgr_inv l'" if "c \<noteq> 0"
    by (rule GetByConnId_ok [OF al(1,2) that]) (use mgr_inv_cong [OF assms] in auto)
qed

lemma GetByInnerUuid_inv:
  assumes "mgr_inv l" "GetByInnerUuid u l = Some (r, l')"
  shows "mgr_inv l'"
proof (rule mgr_inv_cong [OF assms(1)])
  show "al_pool l' = al_pool l" using assms(2) by (auto simp: GetByInnerUuid_def split: option.splits if_splits)
  moreover have "al_online_count l' = al_online_count l" "al_uid_map l' = al_uid_map l" "al_conn_map l' = al_conn_map l"
    using assms(2) by (auto simp: GetByInnerUuid_def split: option.splits if_splits)
  ultimately show "al_inv l'"
    using mgr_invD(1) [OF assms(1)]
    by (simp add: al_inv_def keyids_ok_def uid_map_ok_def conn_map_ok_def count_ok_def online_set_def)
qed

lemma KeepAlive_mgr: "mgr_inv l \<Longrightarrow> acc_used l k \<Longrightarrow> mgr_inv (KeepAlive k t l)"
  by (rule mgr_inv_marks [of l])
    (auto simp: KeepAlive_def is_online_def same_marks_refl dest: mgr_invD(1) intro!: al_inv_modify same_marks_modify)

lemma Offline_mgr: "mgr_inv l \<Longrightarrow> acc_used l k \<Longrightarrow> mgr_inv (al_Offline k t l)"
  using mgr_inv_marks al_Offline_inv same_marks_Offline mgr_invD(1) by blast

lemma mgr_do_ok:
  assumes "mgr_inv l" "mgr_call l op" "length scratch = 32" "\<And>u. op \<noteq> MLookupByInnerUuid u"
  shows "\<exists>l'. mgr_do env scratch op l = Some l' \<and> mgr_inv l'"
proof (cases op)
  case (MRegister sUid sNick sPwd c u i t)
  obtain found l0 where "GetByUid sUid l = Some (found, l0)" using lookups_inv(1) [OF assms(1)] by metis
  then have "register_spec env scratch sUid sNick sPwd c u i t found l"
    using Register_ok [OF assms(1) _ assms(3)] assms(2) MRegister by simp
  then show ?thesis unfolding register_spec_def MRegister by auto
next
  case (MUnregister k t)
  then show ?thesis using Unregister_ok [OF assms(1), of k t] assms(2) by (metis mgr_call.simps(2) mgr_do.simps(2))
next
  case (MUnregisterByConnId c t)
  then show ?thesis using UnregisterByConnId_ok [OF assms(1), of c t] by (metis mgr_do.simps(3))
next
  case (MKeepAliveByUid sUid t)
  from lookups_inv(1) [OF assms(1), of sUid] obtain r l' where l': "GetByUid sUid l = Some (r, l')" "mgr_inv l'"
    "al_pool l' = al_pool l" "\<forall>k. r = Some k \<longrightarrow> acc_used l k" by blast
  then show ?thesis
    using MKeepAliveByUid KeepAlive_mgr by (cases r) (auto simp: KeepAliveByUid_def)
next
  case (MOfflineByUid sUid t)
  then show ?thesis
    using assms(1) Offline_mgr find_used(1) by (fastforce simp: OfflineByUid_def split: option.splits)
next
  case (MCheckKeepAlive n t)
  then show ?thesis
    using mgr_inv_marks [OF assms(1)] CheckKeepAlive_inv(1) CheckKeepAlive_marks mgr_invD(1) [OF assms(1)] by simp
next
  case (MSetExtData k d)
  then show ?thesis
    using assms(1,2) mgr_invD(1) by (auto simp: is_online_def intro!: mgr_inv_marks [of l] al_inv_modify same_marks_modify)
qed (use assms lookups_inv [OF assms(1)] Online_inv Offline_mgr KeepAlive_mgr in \<open>fastforce+\<close>)

lemma mgr_reachable_inv:
  assumes "mgr_reachable env scratch l" "length scratch = 32"
  shows "mgr_inv l"
  using assms(1)
proof induction
  case (mgr_start junk)
  show ?case using al_new_inv [of 16384 junk] by (simp add: mgr_inv_def mgr_new_def all_ready_def conflicts_ok_def)
next
  case (mgr_step l op l')
  show ?case
  proof (cases "\<exists>u. op = MLookupByInnerUuid u")
    case True
    then show ?thesis
      using mgr_step GetByInnerUuid_inv by (auto simp: LookupAccountByInnerUuid_def)
  next
    case False
    then show ?thesis using mgr_do_ok [OF mgr_step.IH mgr_step(2) assms(2), of env] mgr_step(3) by auto
  qed
qed

section \<open>Properties\<close>





text \<open>
  C25. \<open>UnregisterByConnId\<close> removes the accounts of the connection and no others; the accounts that
  remain are unchanged, or lose the mark of a conflict with a removed account.
\<close>

theorem unregister_by_connid:
  assumes "mgr_reachable env scratch l" "length scratch = 32"
  shows "\<exists>l'. UnregisterByConnId c t l = Some l' \<and> mgr_inv l' \<and>
    acc_used l' = (\<lambda>k. acc_used l k \<and> acc_connid (acc_at l k) \<noteq> c) \<and>
    (\<forall>k. acc_used l' k \<longrightarrow> kept (acc_at l k) (acc_at l' k))"
  by (rule UnregisterByConnId_ok [OF mgr_reachable_inv [OF assms], of c t]) blast

lemma unregister_by_connid_witness:
  "mgr_reachable c_env scratch_init (mgr_new (\<lambda>_. acc_zero)) \<and> length scratch_init = 32 \<and>
   (\<exists>l'. UnregisterByConnId 1000000001 5 (mgr_new (\<lambda>_. acc_zero)) = Some l' \<and> mgr_inv l')"
proof -
  have r: "mgr_reachable c_env scratch_init (mgr_new (\<lambda>_. acc_zero))" by (rule mgr_start)
  have n: "length scratch_init = 32" by (simp add: scratch_init_def)
  show ?thesis using unregister_by_connid [OF r n] r n by blast
qed

text \<open>
  C28. The lookups by user id and by connection agree with a search of the registered accounts,
  whatever the caches hold, provided no other registered user id has the same hash.
\<close>

theorem account_lookup_correct:
  assumes "mgr_reachable env scratch l" "length scratch = 32"
    and "\<And>k. acc_used l k \<Longrightarrow> uid_key (acc_uid (acc_at l k)) = uid_key sUid \<Longrightarrow> acc_uid (acc_at l k) = sUid" "c \<noteq> 0"
  shows "(\<exists>r l'. GetByUid sUid l = Some (r, l') \<and> al_pool l' = al_pool l \<and>
      (r = None \<longleftrightarrow> \<not> (\<exists>k. acc_used l k \<and> acc_uid (acc_at l k) = sUid)) \<and>
      (\<forall>k. r = Some k \<longrightarrow> acc_used l k \<and> acc_uid (acc_at l k) = sUid \<and> acc_is_ready (acc_at l k))) \<and>
    (\<exists>r l'. GetByConnId c l = Some (r, l') \<and> al_pool l' = al_pool l \<and>
      (r = None \<longleftrightarrow> \<not> (\<exists>k. acc_used l k \<and> acc_connid (acc_at l k) = c)) \<and>
      (\<forall>k. r = Some k \<longrightarrow> acc_used l k \<and> acc_connid (acc_at l k) = c \<and> acc_is_ready (acc_at l k)))"
proof
  note al = mgr_invD [OF mgr_reachable_inv [OF assms(1,2)]]
  have ready: "acc_is_ready (acc_at l k)" if "acc_used l k" for k using al(2) that by (simp add: all_ready_def)
  obtain r l' where r: "GetByUid sUid l = Some (r, l')" "al_pool l' = al_pool l"
    "\<And>k. r = Some k \<Longrightarrow> acc_used l k \<and> uid_key (acc_uid (acc_at l k)) = uid_key sUid"
    "\<And>k. r = None \<Longrightarrow> acc_used l k \<Longrightarrow> acc_uid (acc_at l k) \<noteq> sUid"
    using GetByUid_ok [OF al(1,2), of sUid] by metis
  then show "\<exists>r l'. GetByUid sUid l = Some (r, l') \<and> al_pool l' = al_pool l \<and>
      (r = None \<longleftrightarrow> \<not> (\<exists>k. acc_used l k \<and> acc_uid (acc_at l k) = sUid)) \<and>
      (\<forall>k. r = Some k \<longrightarrow> acc_used l k \<and> acc_uid (acc_at l k) = sUid \<and> acc_is_ready (acc_at l k))"
    using assms(3) ready by (cases r) auto
  obtain r l' where "GetByConnId c l = Some (r, l')" "al_pool l' = al_pool l"
    "\<And>k. r = Some k \<Longrightarrow> acc_used l k \<and> acc_connid (acc_at l k) = c"
    "\<And>k. r = None \<Longrightarrow> acc_used l k \<Longrightarrow> acc_connid (acc_at l k) \<noteq> c"
    using GetByConnId_ok [OF al(1,2) assms(4)] by metis
  then show "\<exists>r l'. GetByConnId c l = Some (r, l') \<and> al_pool l' = al_pool l \<and>
      (r = None \<longleftrightarrow> \<not> (\<exists>k. acc_used l k \<and> acc_connid (acc_at l k) = c)) \<and>
      (\<forall>k. r = Some k \<longrightarrow> acc_used l k \<and> acc_connid (acc_at l k) = c \<and> acc_is_ready (acc_at l k))"
    using ready by (cases r) auto
qed

lemma mgr_new_unused: "\<not> acc_used (mgr_new junk) k"
  using al_new_inv(2) [of 16384 junk k] by (simp add: mgr_new_def)

lemma account_lookup_correct_witness:
  "mgr_reachable c_env scratch_init (mgr_new (\<lambda>_. acc_zero)) \<and> length scratch_init = 32 \<and>
   (\<exists>l'. GetByUid ''bob'' (mgr_new (\<lambda>_. acc_zero)) = Some (None, l')) \<and>
   (\<exists>l'. GetByConnId 1000000001 (mgr_new (\<lambda>_. acc_zero)) = Some (None, l'))"
proof -
  have r: "mgr_reachable c_env scratch_init (mgr_new (\<lambda>_. acc_zero))" by (rule mgr_start)
  have n: "length scratch_init = 32" by (simp add: scratch_init_def)
  show ?thesis
    using account_lookup_correct [OF r n, of "''bob''" 1000000001] r n by (auto simp: mgr_new_unused)
qed

section \<open>Two flaws of the caches\<close>

lemma GetByUid_caches:
  assumes "GetByUid sUid l = Some (Some k, l')"
  shows "al_uid_map l' (uid_key sUid) = Some k"
  using assms by (auto simp: GetByUid_def split: option.splits if_splits)

lemma GetByUid_hit:
  "al_uid_map l (uid_key sUid) = Some k \<Longrightarrow> acc_is_ready (acc_at l k) \<Longrightarrow> GetByUid sUid l = Some (Some k, l)"
  by (simp add: GetByUid_def)

lemma GetByUid_new: "GetByUid sUid (mgr_new junk) = Some (None, mgr_new junk)"
proof -
  have "used_indices (al_pool (mgr_new junk)) = []" using mgr_new_unused by (auto simp: used_indices_def filter_empty_conv)
  then show ?thesis by (simp add: GetByUid_def mgr_new_def al_new_def)
qed

lemma mgr_new_inv: "mgr_inv (mgr_new junk)"
  using mgr_reachable_inv [OF mgr_start, of scratch_init junk] by (simp add: scratch_init_def)

lemma mgr_new_room: "\<not> al_full (mgr_new junk)"
  by (simp add: al_full_def al_GetCount_def GetObjectNum_def mgr_new_def al_new_def pool_SafeInit_def)

text \<open>The first registration, and the lookup that puts it into the cache.\<close>

lemma first_register:
  assumes "reg_texts_ok sUid sNick sPwd" "sUid \<noteq> []" "length sUid < 36" "length sNick < 36" "length sPwd < 40"
  obtains k l where "Register env scratch_init sUid sNick sPwd c u i t (mgr_new junk) = Some (REG_OK, Some k, l)" "mgr_inv l"
    "acc_used l = (\<lambda>j. j = k)" "acc_at l k = reg_bound sUid sNick sPwd c u i t (reg_fresh (mgr_new junk) k)"
proof -
  have n: "length scratch_init = 32" by (simp add: scratch_init_def)
  from Register_new [where env = env and c = c and u = u and i = i and t = t, OF mgr_new_inv assms n GetByUid_new
    mgr_invD(1) [OF mgr_new_inv] refl mgr_new_room [of junk]]
  obtain k l where l: "Register env scratch_init sUid sNick sPwd c u i t (mgr_new junk) = Some (REG_OK, Some k, l)" "mgr_inv l"
    "reg_accounts REG_OK None (reg_bound sUid sNick sPwd c u i t) (Some k) (mgr_new junk) l" by metis
  then have "acc_used l = (acc_used (mgr_new junk))(k := True)"
    "acc_at l k = reg_bound sUid sNick sPwd c u i t (reg_fresh (mgr_new junk) k)" by (simp_all add: reg_accounts_def)
  then show ?thesis using that l(1,2) mgr_new_unused by (simp add: fun_eq_iff)
qed

lemma only_account:
  assumes "mgr_inv l" "acc_used l = (\<lambda>j. j = k)" "acc_uid (acc_at l k) = sUid"
  obtains l' where "GetByUid sUid l = Some (Some k, l')" "mgr_inv l'" "al_pool l' = al_pool l" "al_uuid_map l' = al_uuid_map l"
proof -
  obtain r l' where r: "GetByUid sUid l = Some (r, l')" "al_inv l'" "al_pool l' = al_pool l" "al_uuid_map l' = al_uuid_map l"
    "\<And>k. r = Some k \<Longrightarrow> acc_used l k \<and> uid_key (acc_uid (acc_at l k)) = uid_key sUid"
    "\<And>k. r = None \<Longrightarrow> acc_used l k \<Longrightarrow> acc_uid (acc_at l k) \<noteq> sUid"
    using GetByUid_ok [OF mgr_invD(1,2) [OF assms(1)], of sUid] by metis
  then have "r = Some k" using assms(2,3) by (cases r) auto
  then show ?thesis using that [of l'] r mgr_inv_cong [OF assms(1)] by simp
qed

lemma uid_strings_collide:
  "\<exists>u v. u \<noteq> v \<and> uid_key u = uid_key v \<and> length u = 9 \<and> length v = 9 \<and> c_string u \<and> c_string v"
proof -
  obtain s t where st: "s \<noteq> t" "uid_hash s = uid_hash t" "length s = 9" "length t = 9" "0 \<notin> set s" "0 \<notin> set t"
    using uid_hash_collision by blast
  define f where "f = (\<lambda>w :: byte. char_of (unat w))"
  have unat_less: "unat w < 2 ^ LENGTH(8)" for w :: byte by (rule unsigned_less)
  have inv: "(of_char (f w) :: byte) = w" for w
  proof -
    have "(of_char (f w) :: byte) = of_nat (of_char (f w) :: nat)" by (simp only: of_nat_of_char)
    also have "(of_char (f w) :: nat) = unat w mod 256" unfolding f_def by simp
    also have "unat w mod 256 = unat w" using unat_less [of w] by simp
    finally show ?thesis by simp
  qed
  then have unmapped: "map of_char (map f s) = s" "map of_char (map f t) = t" by (simp_all add: comp_def map_idI)
  have "f w \<noteq> CHR 0x00" if "w \<noteq> 0" for w using inv [of w] that by auto
  then have "c_string (map f s)" "c_string (map f t)" using st(5,6) by (simp_all add: c_string_def image_iff) metis+
  moreover have "map f s \<noteq> map f t" using st(1) unmapped by metis
  moreover have "uid_key (map f s) = uid_key (map f t)" using st(2) unfolding uid_key_def unmapped .
  ultimately show ?thesis using st(3,4) by (intro exI [of _ "map f s"] exI [of _ "map f t"]) simp
qed

text \<open>
  The cache by the hash of the user id does not compare the ids: there are two user ids such
  that, once the first is registered and has been looked up, the lookup of the second returns the
  account of the first, and the registration of the second is refused.
\<close>

theorem uid_hash_confusion:
  "\<exists>u v k l1 l2 l3. u \<noteq> v \<and> c_string u \<and> c_string v \<and>
     Register env scratch_init u ''n'' ''p'' c x i t (mgr_new junk) = Some (REG_OK, Some k, l1) \<and>
     GetByUid u l1 = Some (Some k, l2) \<and> GetByUid v l2 = Some (Some k, l2) \<and> acc_uid (acc_at l2 k) = u \<and>
     Register env scratch_init v ''n'' ''p'' c' x' i' t' l2 = Some (REG_CONFLICT_MAIN_ACCOUNT_IS_NOT_READY, None, l3)"
proof -
  obtain u v where uv: "u \<noteq> v" "uid_key u = uid_key v" "length u = 9" "length v = 9" "c_string u" "c_string v"
    using uid_strings_collide by blast
  have tx: "reg_texts_ok u ''n'' ''p''" "reg_texts_ok v ''n'' ''p''" using uv by (simp_all add: reg_texts_ok_def c_string_def)
  obtain k l1 where l1: "Register env scratch_init u ''n'' ''p'' c x i t (mgr_new junk) = Some (REG_OK, Some k, l1)" "mgr_inv l1"
    "acc_used l1 = (\<lambda>j. j = k)" "acc_at l1 k = reg_bound u ''n'' ''p'' c x i t (reg_fresh (mgr_new junk) k)"
    by (rule first_register [OF tx(1), of env c x i t junk]) (use uv(3) in auto)
  obtain l2 where l2: "GetByUid u l1 = Some (Some k, l2)" "mgr_inv l2" "al_pool l2 = al_pool l1"
    using only_account [OF l1(2,3), of u] l1(4) by auto
  have v: "GetByUid v l2 = Some (Some k, l2)"
    using GetByUid_hit GetByUid_caches [OF l2(1)] uv(2) l1(4) l2(3) by simp
  have "acc_conflict_keyid (acc_at l2 k) = 0" "acc_ext_data (acc_at l2 k) = 0"
    using l1(4) l2(3) by (simp_all add: reg_bound_def reg_fresh_def acc_zero_def)
  then have "reg_account v ''n'' ''p'' c' l2 = Some (REG_CONFLICT_MAIN_ACCOUNT_IS_NOT_READY, None, l2)"
    using v uv(4) by (auto simp: reg_account_def reg_found_def)
  then have "Register env scratch_init v ''n'' ''p'' c' x' i' t' l2 = Some (REG_CONFLICT_MAIN_ACCOUNT_IS_NOT_READY, None, l2)"
    by (intro Register_early) simp_all
  moreover have "acc_uid (acc_at l2 k) = u" using l1(4) l2(3) by simp
  ultimately show ?thesis using uv(1,5,6) l1(1) l2(1) v by blast
qed

lemma Alloc_uuid_map: "al_Alloc l = Some (r, l') \<Longrightarrow> al_uuid_map l' = al_uuid_map l"
  by (auto simp: al_Alloc_def split: bind_splits if_splits)

lemma GetByUid_uuid_map: "GetByUid sUid l = Some (r, l') \<Longrightarrow> al_uuid_map l' = al_uuid_map l"
  by (auto simp: GetByUid_def split: option.splits if_splits)

lemma Register_uuid_map:
  assumes "Register env scratch sUid sNick sPwd c u i t l = Some (e, r, l')"
  shows "al_uuid_map l' = al_uuid_map l"
proof -
  have "al_uuid_map l1 = al_uuid_map l" if "reg_account sUid sNick sPwd c l = Some (e1, r1, l1)" for e1 r1 l1
    using that
    by (auto simp: reg_account_def reg_found_def mark_conflict_def Let_def split: if_splits bind_splits option.splits
      dest!: GetByUid_uuid_map Alloc_uuid_map)
  then show ?thesis using assms by (auto simp: Register_def bind_info_def split: if_splits bind_splits)
qed

text \<open>
  \<open>Register\<close> gives an account that registers again a new inner uuid and leaves the entry of the
  old one in the cache. After that account is released, the lookup of the old inner uuid reaches
  a released account: there is a reachable state in which it fails its assertion.
\<close>

theorem inner_uuid_cache_stale:
  "\<exists>l. mgr_reachable env scratch_init l \<and> (\<forall>k. \<not> acc_used l k) \<and> LookupAccountByInnerUuid 1 l = None"
proof -
  have n: "length scratch_init = 32" by (simp add: scratch_init_def)
  have tx: "reg_texts_ok ''bob'' ''n'' ''p''" by (simp add: reg_texts_ok_def c_string_def)
  let ?reg = "\<lambda>u. MRegister ''bob'' ''n'' ''p'' 5 u 0 0"
  obtain k l1 where l1: "Register env scratch_init ''bob'' ''n'' ''p'' 5 1 0 0 (mgr_new (\<lambda>_. acc_zero)) = Some (REG_OK, Some k, l1)"
    "mgr_inv l1" "acc_used l1 = (\<lambda>j. j = k)"
    "acc_at l1 k = reg_bound ''bob'' ''n'' ''p'' 5 1 0 0 (reg_fresh (mgr_new (\<lambda>_. acc_zero)) k)"
    by (rule first_register [OF tx, of env 5 1 0 0 "\<lambda>_. acc_zero"]) auto
  have r1: "mgr_reachable env scratch_init l1"
    by (rule mgr_step [OF mgr_start [where junk = "\<lambda>_. acc_zero"], of "?reg 1"]) (use tx l1(1) in simp_all)
  define l2 where "l2 = al_modify k (\<lambda>a. a\<lparr>acc_ext_data := 1\<rparr>) l1"
  have r2: "mgr_reachable env scratch_init l2" by (rule mgr_step [OF r1, of "MSetExtData k 1"]) (simp_all add: l1(3) l2_def)
  note inv2 = mgr_reachable_inv [OF r2 n]
  have used2: "acc_used l2 = (\<lambda>j. j = k)" using l1(3) by (simp add: l2_def)
  have at2: "acc_at l2 k = (reg_bound ''bob'' ''n'' ''p'' 5 1 0 0 (reg_fresh (mgr_new (\<lambda>_. acc_zero)) k))\<lparr>acc_ext_data := 1\<rparr>"
    using al_modify_at [OF mgr_invD(4) [OF l1(2)], of k] used_less [of l1 k] l1(3,4) by (simp add: l2_def)
  define l3 where "l3 = l2\<lparr>al_uuid_map := (al_uuid_map l2)(1 \<mapsto> k)\<rparr>"
  have "al_uuid_map l2 = Map.empty" using Register_uuid_map [OF l1(1)] by (simp add: l2_def mgr_new_def al_new_def)
  moreover have "List.find (\<lambda>k. acc_inner_uuid (acc_at l2 k) = 1) (used_indices (al_pool l2)) = Some k"
    using find_used [of "\<lambda>k. acc_inner_uuid (acc_at l2 k) = 1" "al_pool l2"] used2 at2
    by (cases "List.find (\<lambda>k. acc_inner_uuid (acc_at l2 k) = 1) (used_indices (al_pool l2))") (auto simp: reg_bound_def)
  ultimately have "GetByInnerUuid 1 l2 = Some (Some k, l3)"
    using at2 by (simp add: GetByInnerUuid_def l3_def reg_bound_def)
  then have r3: "mgr_reachable env scratch_init l3"
    by (intro mgr_step [OF r2, of "MLookupByInnerUuid 1"]) (simp_all add: LookupAccountByInnerUuid_def)
  note inv3 = mgr_reachable_inv [OF r3 n]
  obtain l30 where l30: "GetByUid ''bob'' l3 = Some (Some k, l30)" "mgr_inv l30" "al_pool l30 = al_pool l3"
    using only_account [OF inv3, of k "''bob''"] used2 at2 by (auto simp: l3_def reg_bound_def)
  obtain l4 where l4: "Register env scratch_init ''bob'' ''n'' ''p'' 5 2 0 0 l3 = Some (REG_DUPLICATE_REGISTRATION, Some k, l4)"
    "reg_accounts REG_DUPLICATE_REGISTRATION (Some k) (reg_bound ''bob'' ''n'' ''p'' 5 2 0 0) (Some k) l3 l4"
    by (rule Register_again [where env = env and u = 2 and i = 0 and t = 0 and c = 5, OF inv3 tx _ _ _ _ n l30(1) mgr_invD(1) [OF l30(2)] l30(3)])
      (use used2 at2 in \<open>simp_all add: l3_def reg_bound_def reg_fresh_def acc_zero_def\<close>)
  have r4: "mgr_reachable env scratch_init l4" by (rule mgr_step [OF r3, of "?reg 2"]) (use tx l4(1) in simp_all)
  note inv4 = mgr_reachable_inv [OF r4 n]
  have used4: "acc_used l4 = (\<lambda>j. j = k)" and at4: "acc_inner_uuid (acc_at l4 k) = 2" "acc_conflict_keyid (acc_at l4 k) = 0"
    "acc_is_ready (acc_at l4 k)"
    using l4(2) used2 at2 by (auto simp: reg_accounts_def l3_def reg_bound_def reg_fresh_def acc_zero_def fun_eq_iff)
  obtain l5 where l5: "al_ReleaseInternal k 0 l4 = Some l5" "acc_used l5 = (acc_used l4)(k := False)"
    "al_uuid_map l5 = (al_uuid_map l4)(2 := None)" "\<not> acc_is_ready (acc_at l5 k)"
    using ReleaseInternal_ok [OF mgr_invD(1) [OF inv4] _ at4(3), of 0] used4 at4(1) by auto
  have "Unregister k 0 l4 = Some l5" using l5(1) at4 by (simp add: Unregister_def)
  then have r5: "mgr_reachable env scratch_init l5"
    by (intro mgr_step [OF r4, of "MUnregister k 0"]) (simp_all add: used4)
  moreover have "al_uuid_map l5 1 = Some k" using l5(3) Register_uuid_map [OF l4(1)] by (simp add: l3_def)
  then have "LookupAccountByInnerUuid 1 l5 = None" using l5(4) by (simp add: LookupAccountByInnerUuid_def GetByInnerUuid_def)
  ultimately show ?thesis using l5(2) used4 by (intro exI [of _ l5]) (auto simp: fun_eq_iff)
qed

end
