(* ===== verification/UvWorld.thy ===== *)
theory UvWorld
  imports Prelude "HOL-Library.AList"
begin

text \<open>
  The objects of the libuv transport (\<^verbatim>\<open>src/tcp/uv\<close>) and the wrappers of \<^verbatim>\<open>uv_client.c\<close>. The world
  is a heap of sockets (\<^verbatim>\<open>uv_tcp_t\<close>), client handles (\<^verbatim>\<open>client_handle_t\<close>) and connections, with the
  maps of the connection manager. A pointer is a number, \<^verbatim>\<open>NULL\<close> is \<open>None\<close> of an option, and an address is
  never given out twice, so that a pointer to freed memory is one that is not in its heap. An
  access to freed memory, a null dereference and a failed assertion are the result \<open>None\<close>.

  libuv is not modelled; what its calls return is an argument of the operations, and which of its
  callbacks may run next is said by the step relations of the theories that follow. The memory of
  the write requests and of the resolver is left out.
\<close>

section \<open>Sockets and client handles\<close>

text \<open>
  The functions that the sources pass to \<open>uv_close\<close>. They free the socket; \<open>on_stream_close\<close> of a client
  connection or of the server first marks the connection of the socket as flushed.
\<close>

datatype close_cb = On_sock_close | On_stream_close

text \<open>
  A socket: \<open>us_data\<close> is its \<open>data\<close> pointer; once \<open>uv_close\<close> is called, \<open>us_close_cb\<close> is the callback to come;
  \<open>us_connect\<close> says that a connect request is pending, \<open>us_writes\<close> counts the pending writes.
\<close>

record usock =
  us_data :: "nat option"
  us_close_cb :: "close_cb option"
  us_connect :: bool
  us_reading :: bool
  us_writes :: nat

record client_handle =
  ch_sock :: "nat option"
  ch_conn :: "nat option"
  ch_bb :: bool

section \<open>Connections\<close>

datatype conn_kind = ClientOf nat | Isolated

datatype conn_event = CONNECTION_CONNECTED | CONNECTION_DISCONNECTED

text \<open>
  \<open>CUvClientConn\<close> and \<open>CUvIsolatedConn\<close>; \<open>cn_packet\<close> says that the packet object exists. A reconnect timer is
  present when \<open>cn_timer\<close> is not \<open>None\<close>, and started when it is \<open>Some True\<close>.
\<close>

record conn =
  cn_id :: "64 word"
  cn_kind :: conn_kind
  cn_clnt :: "nat option"
  cn_packet :: bool
  cn_timer :: "bool option"
  cn_running :: bool
  cn_connected :: bool
  cn_disposed :: bool
  cn_flushed :: bool
  cn_delay :: bool
  cn_front_produce :: "32 word"
  cn_back_consume :: "32 word"
  cn_back_produce :: "32 word"
  cn_front_consume :: "32 word"

definition IsFrontEndClean :: "conn \<Rightarrow> bool" where
  "IsFrontEndClean c \<longleftrightarrow> cn_front_produce c = cn_back_consume c"

definition IsBackEndClean :: "conn \<Rightarrow> bool" where
  "IsBackEndClean c \<longleftrightarrow> cn_back_produce c = cn_front_consume c"

definition conn_IsReady :: "conn \<Rightarrow> bool" where
  "conn_IsReady c \<longleftrightarrow> cn_id c > 0 \<and> \<not> cn_disposed c \<and> \<not> cn_flushed c"

text \<open>A new client connection of a server, and a new isolated connection.\<close>

definition new_client :: "64 word \<Rightarrow> nat \<Rightarrow> conn" where
  "new_client uConnId pServer =
     \<lparr>cn_id = uConnId, cn_kind = ClientOf pServer, cn_clnt = None, cn_packet = False, cn_timer = None,
      cn_running = True, cn_connected = False, cn_disposed = False, cn_flushed = False, cn_delay = False,
      cn_front_produce = 0, cn_back_consume = 0, cn_back_produce = 0, cn_front_consume = 0\<rparr>"

definition new_isolated :: "64 word \<Rightarrow> conn" where
  "new_isolated uConnId =
     \<lparr>cn_id = uConnId, cn_kind = Isolated, cn_clnt = None, cn_packet = False, cn_timer = None,
      cn_running = False, cn_connected = False, cn_disposed = False, cn_flushed = True, cn_delay = False,
      cn_front_produce = 0, cn_back_consume = 0, cn_back_produce = 0, cn_front_consume = 0\<rparr>"

section \<open>Servers\<close>

text \<open>
  \<open>CUvServer\<close>: \<open>sv_ready\<close> is the flag of its event manager, \<open>sv_impl\<close> says that \<open>_srvr._impl\<close> is not null, \<open>sv_streams\<close>
  is the dictionary of client handles without a connection.
\<close>

datatype listener = No_listener | Listening | Listener_closing | Listener_closed

record server =
  sv_closed :: bool
  sv_ready :: bool
  sv_impl :: bool
  sv_listener :: listener
  sv_streams :: "nat list"

section \<open>The world\<close>

text \<open>
  \<open>w_entries\<close>, \<open>w_isolated\<close>, \<open>w_count\<close>, \<open>w_recycler\<close>, \<open>w_safe\<close> and \<open>w_next_id\<close> are the members of the connection
  manager; the hash maps are association lists, in the order in which they are walked. \<open>w_deleted\<close> and
  \<open>w_events\<close> record the connections deleted and the events handed to the event manager.
\<close>

record world =
  w_fresh :: nat
  w_socks :: "nat \<rightharpoonup> usock"
  w_clnts :: "nat \<rightharpoonup> client_handle"
  w_conns :: "nat \<rightharpoonup> conn"
  w_servers :: "nat \<rightharpoonup> server"
  w_next_id :: "64 word"
  w_entries :: "(nat \<times> (64 word \<times> nat) list) list"
  w_isolated :: "(64 word \<times> nat) list"
  w_count :: size_t
  w_recycler :: "nat list"
  w_safe :: "nat list"
  w_deleted :: "nat list"
  w_events :: "(conn_event \<times> nat) list"

definition TCP_CONNID_BASE :: "64 word" where "TCP_CONNID_BASE = 1000000000"
definition TCP_CONNID_MAX :: "64 word" where "TCP_CONNID_MAX = 1000000000000"

definition new_world :: world where
  "new_world =
     \<lparr>w_fresh = 1, w_socks = Map.empty, w_clnts = Map.empty, w_conns = Map.empty, w_servers = Map.empty,
      w_next_id = TCP_CONNID_BASE, w_entries = [], w_isolated = [], w_count = 0, w_recycler = [], w_safe = [], w_deleted = [], w_events = []\<rparr>"

text \<open>Writes through a pointer.\<close>

definition upd_sock :: "nat \<Rightarrow> (usock \<Rightarrow> usock) \<Rightarrow> world \<Rightarrow> world option" where
  "upd_sock s f w = map_option (\<lambda>u. w\<lparr>w_socks := (w_socks w)(s \<mapsto> f u)\<rparr>) (w_socks w s)"

definition upd_clnt :: "nat \<Rightarrow> (client_handle \<Rightarrow> client_handle) \<Rightarrow> world \<Rightarrow> world option" where
  "upd_clnt h f w = map_option (\<lambda>cl. w\<lparr>w_clnts := (w_clnts w)(h \<mapsto> f cl)\<rparr>) (w_clnts w h)"

definition upd_conn :: "nat \<Rightarrow> (conn \<Rightarrow> conn) \<Rightarrow> world \<Rightarrow> world option" where
  "upd_conn p f w = map_option (\<lambda>c. w\<lparr>w_conns := (w_conns w)(p \<mapsto> f c)\<rparr>) (w_conns w p)"

definition upd_server :: "nat \<Rightarrow> (server \<Rightarrow> server) \<Rightarrow> world \<Rightarrow> world option" where
  "upd_server sv f w = map_option (\<lambda>x. w\<lparr>w_servers := (w_servers w)(sv \<mapsto> f x)\<rparr>) (w_servers w sv)"

text \<open>\<open>malloc\<close> of a socket, of a client handle, and \<open>new\<close> of a connection.\<close>

definition alloc_sock :: "usock \<Rightarrow> world \<Rightarrow> nat \<times> world" where
  "alloc_sock u w = (w_fresh w, w\<lparr>w_fresh := Suc (w_fresh w), w_socks := (w_socks w)(w_fresh w \<mapsto> u)\<rparr>)"

definition alloc_clnt :: "client_handle \<Rightarrow> world \<Rightarrow> nat \<times> world" where
  "alloc_clnt cl w = (w_fresh w, w\<lparr>w_fresh := Suc (w_fresh w), w_clnts := (w_clnts w)(w_fresh w \<mapsto> cl)\<rparr>)"

definition alloc_conn :: "conn \<Rightarrow> world \<Rightarrow> nat \<times> world" where
  "alloc_conn c w = (w_fresh w, w\<lparr>w_fresh := Suc (w_fresh w), w_conns := (w_conns w)(w_fresh w \<mapsto> c)\<rparr>)"

definition free_sock :: "nat \<Rightarrow> world \<Rightarrow> world option" where
  "free_sock s w = (if w_socks w s = None then None else Some (w\<lparr>w_socks := (w_socks w)(s := None)\<rparr>))"

text \<open>\<open>bip_buf_destroy(clnt->_bb); free(clnt)\<close>; destroying a buffer that is not there is an error.\<close>

definition free_clnt :: "nat \<Rightarrow> world \<Rightarrow> world option" where
  "free_clnt h w = do {
     cl \<leftarrow> w_clnts w h;
     if ch_bb cl then Some (w\<lparr>w_clnts := (w_clnts w)(h := None)\<rparr>) else None
   }"

definition log_event :: "conn_event \<Rightarrow> nat \<Rightarrow> world \<Rightarrow> world" where
  "log_event e p w = w\<lparr>w_events := w_events w @ [(e, p)]\<rparr>"

section \<open>The wrappers\<close>

text \<open>\<open>uv_close_w\<close> (\<^verbatim>\<open>uv_close_\<close>): closing a null pointer or a socket that is closing already does nothing.\<close>

definition uv_close_w :: "nat option \<Rightarrow> close_cb \<Rightarrow> world \<Rightarrow> world option" where
  "uv_close_w sockimpl cb w =
     (case sockimpl of
        None \<Rightarrow> Some w
      | Some s \<Rightarrow> do {
          u \<leftarrow> w_socks w s;
          if us_close_cb u \<noteq> None then Some w
          else upd_sock s (\<lambda>u. u\<lparr>us_close_cb := Some cb, us_reading := False\<rparr>) w
        })"

text \<open>
  \<open>uv_real_connect_w\<close> (\<^verbatim>\<open>uv_real_connect_\<close>): \<open>r_init\<close> and \<open>r_connect\<close> are the results of \<open>uv_tcp_init\<close> and \<open>uv_tcp_connect\<close>. When
  the second fails, a socket that the loop knows is freed without \<open>uv_close\<close>, which libuv forbids.
\<close>

definition uv_real_connect_w :: "int \<Rightarrow> int \<Rightarrow> nat \<Rightarrow> world \<Rightarrow> (int \<times> world) option" where
  "uv_real_connect_w r_init r_connect h w =
     (if r_init = 0 then
        if r_connect = 0 then
          let (s, w1) = alloc_sock \<lparr>us_data = Some h, us_close_cb = None, us_connect = True, us_reading = False, us_writes = 0\<rparr> w
          in map_option (\<lambda>w2. (0, w2)) (upd_clnt h (\<lambda>cl. cl\<lparr>ch_sock := Some s\<rparr>) w1)
        else None
      else Some (- 2, w))"

text \<open>\<open>uv_connect_w\<close> (\<^verbatim>\<open>uv_connect_\<close>); \<open>r_addr\<close> is the result of \<open>uv_ip4_addr\<close>. The result is the new client handle.\<close>

definition uv_connect_w :: "int \<Rightarrow> int \<Rightarrow> int \<Rightarrow> world \<Rightarrow> (nat option \<times> world) option" where
  "uv_connect_w r_addr r_init r_connect w =
     (if r_addr \<noteq> 0 then Some (None, w)
      else do {
        let (h, w1) = alloc_clnt \<lparr>ch_sock = None, ch_conn = None, ch_bb = False\<rparr> w;
        (r, w2) \<leftarrow> uv_real_connect_w r_init r_connect h w1;
        if r \<noteq> 0 then Some (None, w2\<lparr>w_clnts := (w_clnts w2)(h := None)\<rparr>)
        else do {
          w3 \<leftarrow> upd_clnt h (\<lambda>cl. cl\<lparr>ch_conn := None, ch_bb := True\<rparr>) w2;
          Some (Some h, w3)
        }
      })"

section \<open>Operations of a connection\<close>

text \<open>\<open>OnConnect\<close> and \<open>OnDisconnect\<close> are the same in both classes, up to the log.\<close>

definition OnConnect :: "nat \<Rightarrow> world \<Rightarrow> world option" where
  "OnConnect p w = do {
     c \<leftarrow> w_conns w p;
     if cn_running c \<and> \<not> cn_connected c
     then map_option (log_event CONNECTION_CONNECTED p) (upd_conn p (\<lambda>c. c\<lparr>cn_connected := True\<rparr>) w)
     else Some w
   }"

definition OnDisconnect :: "nat \<Rightarrow> world \<Rightarrow> world option" where
  "OnDisconnect p w = do {
     c \<leftarrow> w_conns w p;
     if cn_connected c
     then map_option (log_event CONNECTION_DISCONNECTED p) (upd_conn p (\<lambda>c. c\<lparr>cn_connected := False\<rparr>) w)
     else Some w
   }"

definition stream_close_cb :: "conn \<Rightarrow> close_cb" where
  "stream_close_cb c = (case cn_kind c of ClientOf _ \<Rightarrow> On_stream_close | Isolated \<Rightarrow> On_sock_close)"

definition FlushStream :: "nat \<Rightarrow> world \<Rightarrow> world option" where
  "FlushStream p w = do {
     c \<leftarrow> w_conns w p;
     (case cn_clnt c of
        None \<Rightarrow> Some w
      | Some h \<Rightarrow> do {
          cl \<leftarrow> w_clnts w h;
          if ch_sock cl \<noteq> None \<and> \<not> cn_flushed c
          then do {
            w1 \<leftarrow> uv_close_w (ch_sock cl) (stream_close_cb c) w;
            w2 \<leftarrow> upd_clnt h (\<lambda>cl. cl\<lparr>ch_sock := None\<rparr>) w1;
            upd_conn p (\<lambda>c. c\<lparr>cn_flushed := True\<rparr>) w2
          }
          else Some w
        })
   }"

text \<open>\<open>DisposeConnection\<close>; only an isolated connection has a timer to stop and free.\<close>

definition DisposeConnection :: "nat \<Rightarrow> world \<Rightarrow> world option" where
  "DisposeConnection p w = do {
     c \<leftarrow> w_conns w p;
     if cn_disposed c then Some w
     else do {
       w1 \<leftarrow> upd_conn p (\<lambda>c. c\<lparr>cn_disposed := True, cn_packet := False\<rparr>) w;
       w2 \<leftarrow> FlushStream p w1;
       upd_conn p (\<lambda>c. c\<lparr>cn_timer := None\<rparr>) w2
     }
   }"

text \<open>A client connection takes the write callback from the implementation of its server, which must be there.\<close>

definition writecb_ok :: "conn \<Rightarrow> world \<Rightarrow> unit option" where
  "writecb_ok c w =
     (case cn_kind c of
        ClientOf pServer \<Rightarrow> do { x \<leftarrow> w_servers w pServer; if sv_impl x then Some () else None }
      | Isolated \<Rightarrow> Some ())"

text \<open>
  The part of \<open>SendRaw\<close> that has an effect on the world; \<open>r\<close> is the result of \<open>uv_write\<close>, which needs a
  socket. The result is the number of bytes sent.
\<close>

definition SendRaw :: "int \<Rightarrow> nat \<Rightarrow> nat \<Rightarrow> world \<Rightarrow> (nat \<times> world) option" where
  "SendRaw r p len w = do {
     c \<leftarrow> w_conns w p;
     h \<leftarrow> cn_clnt c;
     cl \<leftarrow> w_clnts w h;
     writecb_ok c w;
     s \<leftarrow> ch_sock cl;
     u \<leftarrow> w_socks w s;
     if r < 0 then map_option (\<lambda>w1. (0, w1)) (DisposeConnection p w)
     else map_option (\<lambda>w1. (len, w1)) (upd_sock s (\<lambda>u. u\<lparr>us_writes := Suc (us_writes u)\<rparr>) w)
   }"

text \<open>
  \<open>PostPacket\<close>: the loop of \<open>CTcpInnerPacket::Post\<close> over the pages of a packet, whose lengths are given with
  the results of \<open>uv_write\<close>. The packet object belongs to the connection: when \<open>SendRaw\<close> disposes of the
  connection, the loop goes on with a deleted object.
\<close>

fun post_pages_raw :: "(int \<times> nat) list \<Rightarrow> nat \<Rightarrow> world \<Rightarrow> world option" where
  "post_pages_raw [] p w = Some w"
| "post_pages_raw ((r, len) # ps) p w = do {
     (n, w1) \<leftarrow> SendRaw r p len w;
     c \<leftarrow> w_conns w1 p;
     if cn_packet c then post_pages_raw ps p w1 else None
   }"

definition PostPacket :: "(int \<times> nat) list \<Rightarrow> nat \<Rightarrow> world \<Rightarrow> world option" where
  "PostPacket pages p w = do {
     c \<leftarrow> w_conns w p;
     if cn_packet c \<and> conn_IsReady c then post_pages_raw pages p w else Some w
   }"

text \<open>\<open>OnRawData\<close> reads the packet object; the reassembly is the subject of the packet theories.\<close>

definition OnRawData :: "nat \<Rightarrow> world \<Rightarrow> world option" where
  "OnRawData p w = do { c \<leftarrow> w_conns w p; if cn_packet c then Some w else None }"

end
