(* ===== verification/ConnManager.thy ===== *)
theory ConnManager
  imports UvWorld
begin

text \<open>
  \<^verbatim>\<open>src/tcp/TcpConnManager.cpp\<close>: the maps of connections by server and identifier, the recycler that
  deletes connections once nothing refers to them, and the operations of the connections that call
  back into the manager (\<open>Disconnect\<close> of both classes).
\<close>

section \<open>The manager\<close>

definition GetNextConnectionId :: "world \<Rightarrow> 64 word \<times> world" where
  "GetNextConnectionId w =
     (let n = w_next_id w + 1;
          n = (if TCP_CONNID_MAX \<le> n then TCP_CONNID_BASE + 1 else n)
      in (n, w\<lparr>w_next_id := n\<rparr>))"

text \<open>The clients of a server; \<open>operator[]\<close> of the map makes an empty entry.\<close>

definition entry_clients :: "nat \<Rightarrow> world \<Rightarrow> (64 word \<times> nat) list" where
  "entry_clients pServer w = (case map_of (w_entries w) pServer of None \<Rightarrow> [] | Some m \<Rightarrow> m)"

definition set_clients :: "nat \<Rightarrow> (64 word \<times> nat) list \<Rightarrow> world \<Rightarrow> world" where
  "set_clients pServer m w = w\<lparr>w_entries := AList.update pServer m (w_entries w)\<rparr>"

definition OnAddClient :: "nat \<Rightarrow> nat \<Rightarrow> world \<Rightarrow> world option" where
  "OnAddClient pServer p w = do {
     c \<leftarrow> w_conns w p;
     if pServer > 0 \<and> cn_id c > 0
     then Some ((set_clients pServer (AList.update (cn_id c) p (entry_clients pServer w)) w)\<lparr>w_count := w_count w + 1\<rparr>)
     else None
   }"

definition RecyclerPush :: "nat \<Rightarrow> world \<Rightarrow> world" where
  "RecyclerPush p w = w\<lparr>w_recycler := w_recycler w @ [p]\<rparr>"

text \<open>\<open>ReleaseConnection\<close> of the factory.\<close>

definition ReleaseConnection :: "nat \<Rightarrow> world \<Rightarrow> world option" where
  "ReleaseConnection p w = DisposeConnection p w"

definition OnRemoveClient :: "nat \<Rightarrow> nat \<Rightarrow> world \<Rightarrow> world option" where
  "OnRemoveClient pServer p w = do {
     c \<leftarrow> w_conns w p;
     if pServer > 0 \<and> cn_id c > 0
     then case map_of (entry_clients pServer w) (cn_id c) of
            None \<Rightarrow> Some w
          | Some p2 \<Rightarrow>
              if p2 = p then do {
                w1 \<leftarrow> ReleaseConnection p2 w;
                let w2 = RecyclerPush p2 (set_clients pServer (AList.delete (cn_id c) (entry_clients pServer w1)) w1);
                Some (w2\<lparr>w_count := w_count w2 - 1\<rparr>)
              }
              else None
     else None
   }"

definition OnAddIsolated :: "nat \<Rightarrow> world \<Rightarrow> world option" where
  "OnAddIsolated p w = do {
     c \<leftarrow> w_conns w p;
     if cn_id c > 0 then Some (w\<lparr>w_isolated := AList.update (cn_id c) p (w_isolated w)\<rparr>) else None
   }"

text \<open>\<open>Disconnect\<close> of a client removes it from the manager, of an isolated connection releases it.\<close>

definition Disconnect :: "nat \<Rightarrow> world \<Rightarrow> world option" where
  "Disconnect p w = do {
     c \<leftarrow> w_conns w p;
     if \<not> cn_disposed c \<and> cn_running c
     then do {
       w1 \<leftarrow> upd_conn p (\<lambda>c. c\<lparr>cn_running := False\<rparr>) w;
       w2 \<leftarrow> OnDisconnect p w1;
       (case cn_kind c of
          ClientOf pServer \<Rightarrow> OnRemoveClient pServer p w2
        | Isolated \<Rightarrow> ReleaseConnection p w2)
     }
     else Some w
   }"

fun release_clients :: "(64 word \<times> nat) list \<Rightarrow> world \<Rightarrow> world option" where
  "release_clients [] w = Some w"
| "release_clients ((uConnId, p) # ms) w = do {
     c \<leftarrow> w_conns w p;
     if uConnId = cn_id c then do {
       w1 \<leftarrow> ReleaseConnection p w;
       let w2 = RecyclerPush p w1;
       release_clients ms (w2\<lparr>w_count := w_count w2 - 1\<rparr>)
     }
     else None
   }"

definition ReleaseAllClients :: "nat \<Rightarrow> world \<Rightarrow> world option" where
  "ReleaseAllClients pServer w =
     (if pServer > 0 then
        case map_of (w_entries w) pServer of
          None \<Rightarrow> Some w
        | Some m \<Rightarrow> map_option (set_clients pServer []) (release_clients m w)
      else None)"

fun release_isolateds :: "(64 word \<times> nat) list \<Rightarrow> world \<Rightarrow> world option" where
  "release_isolateds [] w = Some w"
| "release_isolateds ((uConnId, p) # ms) w = do {
     w1 \<leftarrow> Disconnect p w;
     w2 \<leftarrow> ReleaseConnection p w1;
     release_isolateds ms (RecyclerPush p w2)
   }"

definition ReleaseAllIsolateds :: "world \<Rightarrow> world option" where
  "ReleaseAllIsolateds w = map_option (\<lambda>w1. w1\<lparr>w_isolated := []\<rparr>) (release_isolateds (w_isolated w) w)"

definition AddClientDisconnectCb :: "nat \<Rightarrow> nat \<Rightarrow> world \<Rightarrow> world option" where
  "AddClientDisconnectCb pServer p w = do { w1 \<leftarrow> OnDisconnect p w; OnRemoveClient pServer p w1 }"

text \<open>
  \<open>DisposeDownStreams\<close> walks the map with an iterator. When the body has erased the element under the
  iterator, advancing it is undefined.
\<close>

fun dispose_walk :: "nat \<Rightarrow> (64 word \<times> nat) list \<Rightarrow> world \<Rightarrow> world option" where
  "dispose_walk pServer [] w = Some w"
| "dispose_walk pServer ((uConnId, p) # ms) w = do {
     c \<leftarrow> w_conns w p;
     if cn_id c = uConnId then do {
       w1 \<leftarrow> DisposeConnection p w;
       w2 \<leftarrow> AddClientDisconnectCb pServer p w1;
       if map_of (entry_clients pServer w2) uConnId = None then None else dispose_walk pServer ms w2
     }
     else dispose_walk pServer ms w
   }"

definition DisposeDownStreams :: "nat \<Rightarrow> world \<Rightarrow> world option" where
  "DisposeDownStreams pServer w =
     (if pServer > 0 then
        case map_of (w_entries w) pServer of None \<Rightarrow> Some w | Some m \<Rightarrow> dispose_walk pServer m w
      else None)"

fun lookup_entries :: "64 word \<Rightarrow> (nat \<times> (64 word \<times> nat) list) list \<Rightarrow> nat option" where
  "lookup_entries uConnId [] = None"
| "lookup_entries uConnId ((_, m) # es) =
     (case map_of m uConnId of Some p \<Rightarrow> Some p | None \<Rightarrow> lookup_entries uConnId es)"

definition LookupClientByConnId :: "64 word \<Rightarrow> world \<Rightarrow> nat option" where
  "LookupClientByConnId uConnId w = lookup_entries uConnId (w_entries w)"

section \<open>The recycler\<close>

definition safe_to_release :: "conn \<Rightarrow> bool" where
  "safe_to_release c \<longleftrightarrow> \<not> cn_connected c \<and> IsBackEndClean c \<and> IsFrontEndClean c \<and> cn_disposed c \<and> cn_flushed c"

fun recycler_pop :: "nat list \<Rightarrow> world \<Rightarrow> (nat list \<times> nat list) option" where
  "recycler_pop [] w = Some ([], [])"
| "recycler_pop (p # ps) w = do {
     c \<leftarrow> w_conns w p;
     (keep, safe) \<leftarrow> recycler_pop ps w;
     Some (if safe_to_release c then (keep, p # safe) else (p # keep, safe))
   }"

definition RecyclerPop :: "world \<Rightarrow> world option" where
  "RecyclerPop w = do {
     (keep, safe) \<leftarrow> recycler_pop (w_recycler w) w;
     Some (w\<lparr>w_recycler := keep, w_safe := w_safe w @ safe\<rparr>)
   }"

text \<open>\<open>delete\<close> of a connection: its destructor frees the client handle and the buffer.\<close>

definition delete_conn :: "nat \<Rightarrow> world \<Rightarrow> world option" where
  "delete_conn p w = do {
     c \<leftarrow> w_conns w p;
     w1 \<leftarrow> (case cn_clnt c of None \<Rightarrow> Some w | Some h \<Rightarrow> free_clnt h w);
     Some (w1\<lparr>w_conns := (w_conns w1)(p := None), w_deleted := w_deleted w1 @ [p]\<rparr>)
   }"

fun delete_conns :: "nat list \<Rightarrow> world \<Rightarrow> world option" where
  "delete_conns [] w = Some w"
| "delete_conns (p # ps) w = do { w1 \<leftarrow> delete_conn p w; delete_conns ps w1 }"

definition SafeRelease :: "world \<Rightarrow> world option" where
  "SafeRelease w = map_option (\<lambda>w1. w1\<lparr>w_safe := []\<rparr>) (delete_conns (w_safe w) w)"

definition Recycle :: "world \<Rightarrow> (bool \<times> world) option" where
  "Recycle w = do {
     w1 \<leftarrow> RecyclerPop w;
     w2 \<leftarrow> SafeRelease w1;
     Some (w_recycler w2 \<noteq> [], w2)
   }"

end
