(* ===== verification/UvServer.thy ===== *)
theory UvServer
  imports ConnManager
begin

text \<open>
  \<^verbatim>\<open>src/tcp/uv/UvServer.cpp\<close>, \<^verbatim>\<open>uv_server.c\<close> and \<^verbatim>\<open>UvConnFactory.cpp\<close>: accepting clients, the callbacks of
  their sockets, opening and closing a server, and the shutdown of the factory.
\<close>

section \<open>Accepting a client\<close>

definition CreateTcpServer :: "world \<Rightarrow> nat \<times> world" where
  "CreateTcpServer w =
     (w_fresh w, w\<lparr>w_fresh := Suc (w_fresh w), w_servers := (w_servers w)(w_fresh w \<mapsto>
        \<lparr>sv_closed = False, sv_ready = False, sv_impl = False, sv_listener = No_listener, sv_streams = []\<rparr>)\<rparr>)"

definition CreateTcpClientOnServer :: "nat \<Rightarrow> world \<Rightarrow> (nat \<times> world) option" where
  "CreateTcpClientOnServer pServer w = do {
     let (uConnId, w1) = GetNextConnectionId w;
     let (p, w2) = alloc_conn (new_client uConnId pServer) w1;
     w3 \<leftarrow> OnAddClient pServer p w2;
     Some (p, w3)
   }"

definition server_IsReady :: "server \<Rightarrow> bool" where
  "server_IsReady x \<longleftrightarrow> \<not> sv_closed x \<and> sv_ready x"

definition AddStream :: "nat \<Rightarrow> nat \<Rightarrow> world \<Rightarrow> world option" where
  "AddStream pServer h w = upd_server pServer (\<lambda>x. x\<lparr>sv_streams := List.insert h (sv_streams x)\<rparr>) w"

definition RemoveStream :: "nat \<Rightarrow> nat \<Rightarrow> world \<Rightarrow> (nat option \<times> world) option" where
  "RemoveStream pServer h w = do {
     x \<leftarrow> w_servers w pServer;
     if h \<in> set (sv_streams x)
     then map_option (\<lambda>w1. (Some h, w1)) (upd_server pServer (\<lambda>x. x\<lparr>sv_streams := removeAll h (sv_streams x)\<rparr>) w)
     else Some (None, w)
   }"

definition ConfirmClientIsReady :: "nat \<Rightarrow> nat \<Rightarrow> nat \<Rightarrow> world \<Rightarrow> world option" where
  "ConfirmClientIsReady pServer p streamptr w = do {
     (r, w1) \<leftarrow> RemoveStream pServer streamptr w;
     w2 \<leftarrow> upd_conn p (\<lambda>c. c\<lparr>cn_clnt := r\<rparr>) w1;
     if r = None then Some w2 else upd_conn p (\<lambda>c. c\<lparr>cn_packet := True\<rparr>) w2
   }"

definition OnAcceptClient :: "nat \<Rightarrow> nat \<Rightarrow> world \<Rightarrow> (nat \<times> world) option" where
  "OnAcceptClient pServer streamptr w = do {
     (p, w1) \<leftarrow> CreateTcpClientOnServer pServer w;
     w2 \<leftarrow> ConfirmClientIsReady pServer p streamptr w1;
     w3 \<leftarrow> OnConnect p w2;
     Some (p, w3)
   }"

definition on_server_accept_client :: "nat \<Rightarrow> nat \<Rightarrow> world \<Rightarrow> (int \<times> world) option" where
  "on_server_accept_client pServer h w = do {
     x \<leftarrow> w_servers w pServer;
     if \<not> server_IsReady x then do {
       cl \<leftarrow> w_clnts w h;
       w1 \<leftarrow> uv_close_w (ch_sock cl) On_stream_close w;
       w2 \<leftarrow> upd_clnt h (\<lambda>cl. cl\<lparr>ch_sock := None\<rparr>) w1;
       Some (- 1, w2)
     }
     else do {
       w1 \<leftarrow> AddStream pServer h w;
       (p, w2) \<leftarrow> OnAcceptClient pServer h w1;
       w3 \<leftarrow> upd_clnt h (\<lambda>cl. cl\<lparr>ch_conn := Some p\<rparr>) w2;
       Some (0, w3)
     }
   }"

text \<open>
  \<open>on_connection\<close>, which reads the loop from the implementation of the server; the numbers are the status of the connection and the results of \<open>uv_tcp_init\<close>,
  \<open>uv_accept\<close> and \<open>uv_read_start\<close>. After \<open>uv_tcp_init\<close> the error branches free a socket without \<open>uv_close\<close>. The buffer
  of the new client handle is made last, also after the branch that has freed the handle.
\<close>

definition on_connection :: "nat \<Rightarrow> int \<Rightarrow> int \<Rightarrow> int \<Rightarrow> int \<Rightarrow> world \<Rightarrow> world option" where
  "on_connection pServer status r_init r_accept r_read w = do {
     x \<leftarrow> w_servers w pServer;
     if \<not> sv_impl x then None
     else if status \<noteq> 0 \<or> r_init \<noteq> 0 then Some w
      else if r_accept \<noteq> 0 \<or> r_read \<noteq> 0 then None
      else do {
        let (s, w1) = alloc_sock \<lparr>us_data = None, us_close_cb = None, us_connect = False, us_reading = True, us_writes = 0\<rparr> w;
        let (h, w2) = alloc_clnt \<lparr>ch_sock = Some s, ch_conn = None, ch_bb = False\<rparr> w1;
        w3 \<leftarrow> upd_sock s (\<lambda>u. u\<lparr>us_data := Some h\<rparr>) w2;
        (r, w4) \<leftarrow> on_server_accept_client pServer h w3;
        w5 \<leftarrow> (if r \<noteq> 0 then do {
                 cl \<leftarrow> w_clnts w4 h;
                 w5 \<leftarrow> uv_close_w (ch_sock cl) On_sock_close w4;
                 free_clnt h w5
               }
               else Some w4);
        upd_clnt h (\<lambda>cl. cl\<lparr>ch_bb := True\<rparr>) w5
      }
   }"

section \<open>The callbacks of a client socket\<close>

datatype read_result = Read_eof | Read_error | Read_none | Read_data nat

text \<open>\<open>bip_buf_commit\<close> needs the buffer.\<close>

definition commit_bb :: "nat \<Rightarrow> world \<Rightarrow> world option" where
  "commit_bb h w = do { cl \<leftarrow> w_clnts w h; if ch_bb cl then Some w else None }"

text \<open>The branch of the callbacks for a handle without a connection.\<close>

definition drop_handle :: "nat \<Rightarrow> world \<Rightarrow> world option" where
  "drop_handle h w = do {
     cl \<leftarrow> w_clnts w h;
     w1 \<leftarrow> uv_close_w (ch_sock cl) On_sock_close w;
     free_clnt h w1
   }"

definition on_client_read :: "nat \<Rightarrow> read_result \<Rightarrow> world \<Rightarrow> world option" where
  "on_client_read s nread w = do {
     u \<leftarrow> w_socks w s;
     h \<leftarrow> us_data u;
     cl \<leftarrow> w_clnts w h;
     (case nread of
        Read_eof \<Rightarrow> do {
          w1 \<leftarrow> commit_bb h w;
          (case ch_conn cl of Some p \<Rightarrow> Disconnect p w1 | None \<Rightarrow> drop_handle h w1)
        }
      | Read_error \<Rightarrow> Some w
      | Read_none \<Rightarrow> commit_bb h w
      | Read_data n \<Rightarrow> do {
          w1 \<leftarrow> commit_bb h w;
          (case ch_conn cl of Some p \<Rightarrow> OnRawData p w1 | None \<Rightarrow> Some w1)
        })
   }"

text \<open>\<open>on_client_write\<close>; \<open>io_pending\<close> says that \<open>GetLastError\<close> is \<open>ERROR_IO_PENDING\<close>. The request is no longer pending.\<close>

definition on_client_write :: "nat \<Rightarrow> int \<Rightarrow> bool \<Rightarrow> world \<Rightarrow> world option" where
  "on_client_write s status io_pending w = do {
     w0 \<leftarrow> upd_sock s (\<lambda>u. u\<lparr>us_writes := us_writes u - 1\<rparr>) w;
     if status \<noteq> 0 \<and> \<not> io_pending then do {
       u \<leftarrow> w_socks w0 s;
       h \<leftarrow> us_data u;
       cl \<leftarrow> w_clnts w0 h;
       (case ch_conn cl of Some p \<Rightarrow> Disconnect p w0 | None \<Rightarrow> drop_handle h w0)
     }
     else Some w0
   }"

text \<open>The close callback of a socket, \<open>on_sock_close\<close> or \<open>on_stream_close\<close>.\<close>

definition run_close_cb :: "nat \<Rightarrow> world \<Rightarrow> world option" where
  "run_close_cb s w = do {
     u \<leftarrow> w_socks w s;
     cb \<leftarrow> us_close_cb u;
     (case cb of
        On_sock_close \<Rightarrow> free_sock s w
      | On_stream_close \<Rightarrow> do {
          h \<leftarrow> us_data u;
          cl \<leftarrow> w_clnts w h;
          w1 \<leftarrow> (case ch_conn cl of None \<Rightarrow> Some w | Some p \<Rightarrow> upd_conn p (\<lambda>c. c\<lparr>cn_flushed := True\<rparr>) w);
          free_sock s w1
        })
   }"

definition OnDisposeClient :: "nat \<Rightarrow> nat \<Rightarrow> world \<Rightarrow> world option" where
  "OnDisposeClient pServer p w = do { w1 \<leftarrow> DisposeConnection p w; AddClientDisconnectCb pServer p w1 }"

section \<open>Opening and closing a server\<close>

text \<open>
  \<open>Open\<close> with \<open>uv_server_init_\<close>; the numbers are the results of \<open>uv_tcp_init\<close>, \<open>uv_tcp_bind\<close> and \<open>uv_listen\<close>. After a failed
  bind the socket is freed without \<open>uv_close\<close>; after a failed listen it is lost.
\<close>

definition server_Open :: "nat \<Rightarrow> int \<Rightarrow> int \<Rightarrow> int \<Rightarrow> world \<Rightarrow> (int \<times> world) option" where
  "server_Open pServer r_init r_bind r_listen w =
     (if r_init \<noteq> 0 then Some (1, w)
      else if r_bind \<noteq> 0 then None
      else if r_listen \<noteq> 0 then Some (1, w)
      else map_option (\<lambda>w1. (0, w1)) (upd_server pServer (\<lambda>x. x\<lparr>sv_impl := True, sv_listener := Listening\<rparr>) w))"

fun close_streams :: "nat list \<Rightarrow> world \<Rightarrow> world option" where
  "close_streams [] w = Some w"
| "close_streams (h # hs) w = do {
     cl \<leftarrow> w_clnts w h;
     w1 \<leftarrow> uv_close_w (ch_sock cl) On_stream_close w;
     w2 \<leftarrow> upd_clnt h (\<lambda>cl. cl\<lparr>ch_sock := None\<rparr>) w1;
     w3 \<leftarrow> free_clnt h w2;
     close_streams hs w3
   }"

text \<open>
  \<open>Close\<close> with \<open>uv_server_dispose_\<close>: \<open>_server_closed\<close> is set before \<open>uv_server_dispose_\<close> tests it, so that it does not
  wait for the close callback, and \<open>_impl\<close> is null when that callback runs.
\<close>

definition server_Close :: "nat \<Rightarrow> world \<Rightarrow> world option" where
  "server_Close pServer w = do {
     x \<leftarrow> w_servers w pServer;
     if sv_closed x then Some w
     else do {
       w1 \<leftarrow> close_streams (sv_streams x) w;
       if \<not> sv_impl x then None
       else do {
         w2 \<leftarrow> upd_server pServer (\<lambda>x. x\<lparr>sv_streams := [], sv_impl := False,
                 sv_listener := (if sv_listener x = Listening then Listener_closing else sv_listener x)\<rparr>) w1;
         w3 \<leftarrow> DisposeDownStreams pServer w2;
         upd_server pServer (\<lambda>x. x\<lparr>sv_closed := True\<rparr>) w3
       }
     }
   }"

definition on_server_close :: "nat \<Rightarrow> world \<Rightarrow> world option" where
  "on_server_close pServer w = do {
     x \<leftarrow> w_servers w pServer;
     if sv_impl x then upd_server pServer (\<lambda>x. x\<lparr>sv_listener := Listener_closed\<rparr>) w else None
   }"

definition FlushDownStream :: "nat \<Rightarrow> nat \<Rightarrow> world \<Rightarrow> world option" where
  "FlushDownStream pServer streamptr w = do {
     (r, w1) \<leftarrow> RemoveStream pServer streamptr w;
     h \<leftarrow> r;
     drop_handle h w1
   }"

text \<open>
  \<open>OnDelete\<close> of the factory up to the end of its waiting loop; \<open>n\<close> bounds the rounds of that loop, and \<open>update\<close> is
  what the loop of libuv does in \<open>OnUpdate\<close> before the recycler is called again.
\<close>

fun release_servers :: "nat list \<Rightarrow> world \<Rightarrow> world option" where
  "release_servers [] w = Some w"
| "release_servers (sv # svs) w = do { w1 \<leftarrow> ReleaseAllClients sv w; release_servers svs w1 }"

fun wait_recycle :: "nat \<Rightarrow> (world \<Rightarrow> world option) \<Rightarrow> world \<Rightarrow> world option" where
  "wait_recycle 0 update w = None"
| "wait_recycle (Suc n) update w = do {
     (more, w1) \<leftarrow> Recycle w;
     if more then do { w2 \<leftarrow> update w1; (b, w3) \<leftarrow> Recycle w2; wait_recycle n update w3 } else Some w1
   }"

definition factory_OnDelete :: "nat \<Rightarrow> (world \<Rightarrow> world option) \<Rightarrow> nat list \<Rightarrow> world \<Rightarrow> world option" where
  "factory_OnDelete n update vClosedServer w = do {
     w1 \<leftarrow> ReleaseAllIsolateds w;
     w2 \<leftarrow> release_servers vClosedServer w1;
     wait_recycle n update w2
   }"

end
