(* ===== verification/StepSystem.thy ===== *)
theory StepSystem
  imports Main
begin

text \<open>
  Systems that run in steps: \<open>can w op\<close> says that the operation \<open>op\<close> may come next in the state \<open>w\<close>, and \<open>run op w\<close> is the
  state after it, \<open>None\<close> when the code fails. The contract of such a system is an invariant that every
  operation that may come next keeps, without failing.
\<close>

inductive reaches :: "('w \<Rightarrow> 'op \<Rightarrow> bool) \<Rightarrow> ('op \<Rightarrow> 'w \<Rightarrow> 'w option) \<Rightarrow> 'w \<Rightarrow> 'w \<Rightarrow> bool"
  for can :: "'w \<Rightarrow> 'op \<Rightarrow> bool" and run :: "'op \<Rightarrow> 'w \<Rightarrow> 'w option" and w0 :: 'w where
  reaches_start: "reaches can run w0 w0"
| reaches_step: "reaches can run w0 w \<Longrightarrow> can w op \<Longrightarrow> run op w = Some w' \<Longrightarrow> reaches can run w0 w'"

lemma reaches_trans: "reaches can run w1 w2 \<Longrightarrow> reaches can run w0 w1 \<Longrightarrow> reaches can run w0 w2"
  by (induction rule: reaches.induct) (auto intro: reaches_step)

locale step_system =
  fixes can :: "'w \<Rightarrow> 'op \<Rightarrow> bool" and run :: "'op \<Rightarrow> 'w \<Rightarrow> 'w option" and start :: 'w and invar :: "'w \<Rightarrow> bool"
  assumes start_invar: "invar start"
    and run_invar: "invar w \<Longrightarrow> can w op \<Longrightarrow> \<exists>w'. run op w = Some w' \<and> invar w'"
begin

lemma reaches_invar: "reaches can run start w \<Longrightarrow> invar w"
proof (induction rule: reaches.induct)
  case (reaches_step w op w')
  then show ?case using run_invar [of w op] by auto
qed (rule start_invar)

lemma run_ok: "reaches can run start w \<Longrightarrow> can w op \<Longrightarrow> \<exists>w'. run op w = Some w' \<and> invar w'"
  using reaches_invar run_invar by blast

lemma runs_ok:
  assumes "reaches can run start w" "can w op"
  shows "\<exists>w'. run op w = Some w' \<and> reaches can run start w'"
  using assms run_ok reaches_step by metis

end

end
