(* ===== verification/UvClientProps.thy ===== *)
theory UvClientProps
  imports UvServer StepSystem
begin

text \<open>
  The life of the client connections of a server: the calls of the application and the callbacks of
  libuv as one step function, with the calls that may happen next, the invariant of the reachable
  worlds, and what it says of the connection manager.
\<close>

section \<open>Steps\<close>

datatype srv_op =
    SCreate
  | SOpen nat
  | SReady nat bool
  | SConnection nat
  | SRead nat read_result
  | SWrite nat int bool
  | SClosed nat
  | SSend nat "(int \<times> nat) list"
  | SDisconnect nat
  | SDispose nat nat
  | SRecycle

fun srv_do :: "srv_op \<Rightarrow> world \<Rightarrow> world option" where
  "srv_do SCreate w = Some (snd (CreateTcpServer w))"
| "srv_do (SOpen sv) w = map_option snd (server_Open sv 0 0 0 w)"
| "srv_do (SReady sv b) w = upd_server sv (\<lambda>x. x\<lparr>sv_ready := b\<rparr>) w"
| "srv_do (SConnection sv) w = on_connection sv 0 0 0 0 w"
| "srv_do (SRead s nread) w = on_client_read s nread w"
| "srv_do (SWrite s status io_pending) w = on_client_write s status io_pending w"
| "srv_do (SClosed s) w = run_close_cb s w"
| "srv_do (SSend p pages) w = PostPacket pages p w"
| "srv_do (SDisconnect p) w = Disconnect p w"
| "srv_do (SDispose sv p) w = OnDisposeClient sv p w"
| "srv_do SRecycle w = map_option snd (Recycle w)"

text \<open>
  The steps that may come next. The callbacks follow the documentation of libuv: no read after
  \<open>uv_close\<close>, one callback for every pending write, with an error status once the socket is closing, and the
  close callback after all of them. The application uses connections that are still registered; the
  server is ready, the identifiers have not wrapped around, and the writes do not fail at once. The
  loop has run the close callbacks when the recycler is called.
\<close>

definition registered :: "world \<Rightarrow> nat \<Rightarrow> bool" where
  "registered w p \<longleftrightarrow> (\<exists>sv m. (sv, m) \<in> set (w_entries w) \<and> p \<in> snd ` set m)"

fun srv_can :: "world \<Rightarrow> srv_op \<Rightarrow> bool" where
  "srv_can w SCreate = True"
| "srv_can w (SOpen sv) = (w_servers w sv \<noteq> None)"
| "srv_can w (SReady sv b) = (w_servers w sv \<noteq> None)"
| "srv_can w (SConnection sv) =
     (case w_servers w sv of None \<Rightarrow> False | Some x \<Rightarrow> server_IsReady x \<and> sv_listener x = Listening \<and> w_next_id w + 1 < TCP_CONNID_MAX)"
| "srv_can w (SRead s nread) = (case w_socks w s of None \<Rightarrow> False | Some u \<Rightarrow> us_close_cb u = None)"
| "srv_can w (SWrite s status io_pending) =
     (case w_socks w s of None \<Rightarrow> False | Some u \<Rightarrow> 0 < us_writes u \<and> (us_close_cb u \<noteq> None \<longrightarrow> status \<noteq> 0))"
| "srv_can w (SClosed s) = (case w_socks w s of None \<Rightarrow> False | Some u \<Rightarrow> us_close_cb u \<noteq> None \<and> us_writes u = 0)"
| "srv_can w (SSend p pages) = (registered w p \<and> (\<forall>(r, len) \<in> set pages. 0 \<le> r))"
| "srv_can w (SDisconnect p) = registered w p"
| "srv_can w (SDispose sv p) = (registered w p \<and> (\<exists>c. w_conns w p = Some c \<and> cn_kind c = ClientOf sv))"
| "srv_can w SRecycle = (\<forall>s u. w_socks w s = Some u \<longrightarrow> us_close_cb u = None)"

definition srv_reachable :: "world \<Rightarrow> bool" where
  "srv_reachable w \<longleftrightarrow> reaches srv_can srv_do new_world w"

lemma srv_start: "srv_reachable new_world"
  by (simp add: srv_reachable_def reaches_start)

lemma srv_step: "srv_reachable w \<Longrightarrow> srv_can w op \<Longrightarrow> srv_do op w = Some w' \<Longrightarrow> srv_reachable w'"
  unfolding srv_reachable_def by (rule reaches_step)

section \<open>The invariant\<close>

definition fresh_ok :: "world \<Rightarrow> bool" where
  "fresh_ok w \<longleftrightarrow> 0 < w_fresh w \<and>
     (\<forall>x. w_fresh w \<le> x \<or> x = 0 \<longrightarrow> w_socks w x = None \<and> w_clnts w x = None \<and> w_conns w x = None \<and> w_servers w x = None) \<and>
     (\<forall>p \<in> set (w_deleted w). p < w_fresh w) \<and> (\<forall>e \<in> set (w_events w). snd e < w_fresh w)"

text \<open>A connection, its client handle and its socket point to each other while it is not disposed of.\<close>

definition conn_link :: "world \<Rightarrow> nat \<Rightarrow> conn \<Rightarrow> bool" where
  "conn_link w p c \<longleftrightarrow>
     (\<exists>h cl. cn_clnt c = Some h \<and> w_clnts w h = Some cl \<and> ch_conn cl = Some p \<and> ch_bb cl \<and>
        (if cn_flushed c then ch_sock cl = None
         else \<exists>s u. ch_sock cl = Some s \<and> w_socks w s = Some u \<and> us_close_cb u = None \<and> us_data u = Some h))"

definition conn_flags :: "world \<Rightarrow> conn \<Rightarrow> bool" where
  "conn_flags w c \<longleftrightarrow> TCP_CONNID_BASE < cn_id c \<and> cn_id c \<le> w_next_id w \<and> (\<exists>sv x. cn_kind c = ClientOf sv \<and> 0 < sv \<and> w_servers w sv = Some x \<and> sv_impl x) \<and>
     cn_packet c = (\<not> cn_disposed c) \<and> cn_flushed c = cn_disposed c \<and> cn_connected c = (\<not> cn_disposed c) \<and>
     (\<not> cn_disposed c \<longrightarrow> cn_running c) \<and> cn_timer c = None \<and> IsFrontEndClean c \<and> IsBackEndClean c"

definition sock_ok :: "world \<Rightarrow> nat \<Rightarrow> usock \<Rightarrow> bool" where
  "sock_ok w s u \<longleftrightarrow>
     (\<exists>h cl p c. us_data u = Some h \<and> w_clnts w h = Some cl \<and> ch_conn cl = Some p \<and> w_conns w p = Some c \<and> cn_clnt c = Some h \<and>
        (if us_close_cb u = None then ch_sock cl = Some s else us_close_cb u = Some On_stream_close \<and> cn_flushed c))"

definition heap_ok :: "world \<Rightarrow> bool" where
  "heap_ok w \<longleftrightarrow>
     (\<forall>p c. w_conns w p = Some c \<longrightarrow> conn_link w p c \<and> conn_flags w c) \<and>
     (\<forall>s u. w_socks w s = Some u \<longrightarrow> sock_ok w s u) \<and>
     (\<forall>h cl. w_clnts w h = Some cl \<longrightarrow> (\<exists>p c. ch_conn cl = Some p \<and> w_conns w p = Some c \<and> cn_clnt c = Some h)) \<and>
     (\<forall>sv x. w_servers w sv = Some x \<longrightarrow> sv_streams x = [] \<and> (sv_listener x = Listening \<longrightarrow> sv_impl x))"

definition total_clients :: "world \<Rightarrow> nat" where
  "total_clients w = sum_list (map (\<lambda>e. length (snd e)) (w_entries w))"

text \<open>The maps hold exactly the connections that are not disposed of, the recycler holds the others.\<close>

definition maps_ok :: "world \<Rightarrow> bool" where
  "maps_ok w \<longleftrightarrow> distinct (map fst (w_entries w)) \<and>
     (\<forall>sv m. (sv, m) \<in> set (w_entries w) \<longrightarrow> distinct (map fst m)) \<and>
     (\<forall>sv i p. (i, p) \<in> set (entry_clients sv w) \<longleftrightarrow>
        (\<exists>c. w_conns w p = Some c \<and> cn_id c = i \<and> cn_kind c = ClientOf sv \<and> \<not> cn_disposed c)) \<and>
     (\<forall>p. p \<in> set (w_recycler w) \<longleftrightarrow> (\<exists>c. w_conns w p = Some c \<and> cn_disposed c)) \<and>
     distinct (w_recycler w) \<and> w_safe w = [] \<and> w_count w = of_nat (total_clients w) \<and>
     (\<forall>p q c d. w_conns w p = Some c \<longrightarrow> w_conns w q = Some d \<longrightarrow> cn_id c = cn_id d \<longrightarrow> p = q)"

text \<open>The events of a connection: connected, and disconnected when it is disposed of.\<close>

definition events_of :: "world \<Rightarrow> nat \<Rightarrow> conn_event list" where
  "events_of w p = map fst (filter (\<lambda>e. snd e = p) (w_events w))"

definition history_ok :: "world \<Rightarrow> bool" where
  "history_ok w \<longleftrightarrow> distinct (w_deleted w) \<and> (\<forall>p \<in> set (w_deleted w). w_conns w p = None) \<and>
     (\<forall>p. events_of w p =
        (case w_conns w p of
           Some c \<Rightarrow> if cn_disposed c then [CONNECTION_CONNECTED, CONNECTION_DISCONNECTED] else [CONNECTION_CONNECTED]
         | None \<Rightarrow> if p \<in> set (w_deleted w) then [CONNECTION_CONNECTED, CONNECTION_DISCONNECTED] else []))"

definition id_ok :: "world \<Rightarrow> bool" where
  "id_ok w \<longleftrightarrow> TCP_CONNID_BASE \<le> w_next_id w \<and> w_next_id w < TCP_CONNID_MAX"

definition srv_inv :: "world \<Rightarrow> bool" where
  "srv_inv w \<longleftrightarrow> fresh_ok w \<and> heap_ok w \<and> maps_ok w \<and> history_ok w \<and> id_ok w"

lemma srv_invD:
  assumes "srv_inv w"
  shows "fresh_ok w" "heap_ok w" "maps_ok w" "history_ok w" "id_ok w"
  using assms by (simp_all add: srv_inv_def)

subsection \<open>Association lists\<close>

lemma map_of_entries:
  "distinct (map fst es) \<Longrightarrow> (k, v) \<in> set es \<longleftrightarrow> map_of es k = Some v"
  by (auto dest: map_of_SomeD)

lemma entry_clients_set [simp]: "entry_clients sv (set_clients sv' m w) = (if sv = sv' then m else entry_clients sv w)"
  by (simp add: entry_clients_def set_clients_def update_conv')

lemma sum_update:
  assumes "distinct (map fst es)"
  shows "sum_list (map (\<lambda>e. length (snd e)) (AList.update k m es)) + length (case map_of es k of None \<Rightarrow> [] | Some m \<Rightarrow> m) =
    sum_list (map (\<lambda>e. length (snd e)) es) + length m"
  using assms by (induction es) (auto split: option.splits)

lemma total_set:
  assumes "distinct (map fst (w_entries w))"
  shows "total_clients (set_clients sv m w) + length (entry_clients sv w) = total_clients w + length m"
  using sum_update [OF assms, of sv m] by (simp add: total_clients_def set_clients_def entry_clients_def)

lemma length_update_new: "k \<notin> fst ` set m \<Longrightarrow> length (AList.update k v m) = Suc (length m)"
  by (induction m) auto

lemma set_update_new: "k \<notin> fst ` set m \<Longrightarrow> set (AList.update k v m) = insert (k, v) (set m)"
  by (induction m) auto

lemma length_delete:
  assumes "distinct (map fst m)" "(k, v) \<in> set m"
  shows "Suc (length (AList.delete k m)) = length m"
  using assms
proof (induction m)
  case (Cons a m)
  show ?case
  proof (cases "fst a = k")
    case True
    then have "k \<notin> fst ` set m" using Cons.prems(1) by auto
    then have "AList.delete k m = m" by (force simp: AList.delete_eq intro!: filter_True)
    then show ?thesis using True by (cases a) simp
  next
    case False
    then show ?thesis using Cons by (cases a) auto
  qed
qed simp

lemma set_delete: "distinct (map fst m) \<Longrightarrow> set (AList.delete k m) = {x \<in> set m. fst x \<noteq> k}"
  by (auto simp: AList.delete_eq)

subsection \<open>Removing a client\<close>

definition disposed_conn :: "conn \<Rightarrow> conn" where
  "disposed_conn c = c\<lparr>cn_disposed := True, cn_packet := False, cn_flushed := True, cn_connected := False\<rparr>"

text \<open>The world after a registered client is removed; \<open>run\<close> is its new running flag.\<close>

definition dropped :: "bool \<Rightarrow> nat \<Rightarrow> nat \<Rightarrow> conn \<Rightarrow> nat \<Rightarrow> client_handle \<Rightarrow> nat \<Rightarrow> usock \<Rightarrow> world \<Rightarrow> world" where
  "dropped run sv p c h cl s u w =
     w\<lparr>w_socks := (w_socks w)(s \<mapsto> u\<lparr>us_close_cb := Some On_stream_close, us_reading := False\<rparr>),
       w_clnts := (w_clnts w)(h \<mapsto> cl\<lparr>ch_sock := None\<rparr>),
       w_conns := (w_conns w)(p \<mapsto> (disposed_conn c)\<lparr>cn_running := run\<rparr>),
       w_entries := AList.update sv (AList.delete (cn_id c) (entry_clients sv w)) (w_entries w),
       w_count := w_count w - 1,
       w_recycler := w_recycler w @ [p],
       w_events := w_events w @ [(CONNECTION_DISCONNECTED, p)]\<rparr>"

text \<open>A client that is not disposed of, with all that belongs to it.\<close>

definition live :: "world \<Rightarrow> nat \<Rightarrow> nat \<Rightarrow> conn \<Rightarrow> nat \<Rightarrow> client_handle \<Rightarrow> nat \<Rightarrow> usock \<Rightarrow> bool" where
  "live w sv p c h cl s u \<longleftrightarrow>
     w_conns w p = Some c \<and> \<not> cn_disposed c \<and> cn_kind c = ClientOf sv \<and> 0 < sv \<and> 0 < cn_id c \<and> cn_clnt c = Some h \<and>
     w_clnts w h = Some cl \<and> ch_conn cl = Some p \<and> ch_bb cl \<and> ch_sock cl = Some s \<and> w_socks w s = Some u \<and>
     us_close_cb u = None \<and> us_data u = Some h \<and> cn_packet c \<and> \<not> cn_flushed c \<and> cn_timer c = None \<and> (cn_id c, p) \<in> set (entry_clients sv w) \<and> distinct (map fst (entry_clients sv w))"

lemma entry_distinct:
  assumes "maps_ok w"
  shows "distinct (map fst (entry_clients sv w))"
  using assms by (auto simp: maps_ok_def entry_clients_def dest: map_of_SomeD split: option.splits)

lemma live_conn:
  assumes "srv_inv w" "w_conns w p = Some c" "\<not> cn_disposed c"
  obtains sv h cl s u where "live w sv p c h cl s u" "cn_running c" "cn_connected c"
proof -
  have link: "conn_link w p c" "conn_flags w c" using srv_invD(2) [OF assms(1)] assms(2) by (auto simp: heap_ok_def)
  obtain sv where sv: "cn_kind c = ClientOf sv" "0 < sv" using link(2) by (auto simp: conn_flags_def)
  have "(cn_id c, p) \<in> set (entry_clients sv w)"
    using srv_invD(3) [OF assms(1)] assms(2,3) sv(1) by (simp add: maps_ok_def)
  moreover have "0 < cn_id c" using link(2) by (auto simp: conn_flags_def word_gt_0)
  ultimately show ?thesis
    using link sv assms(2,3) entry_distinct [OF srv_invD(3) [OF assms(1)], of sv] that
    unfolding conn_link_def conn_flags_def live_def by (auto split: if_splits)
qed

lemma registered_iff:
  assumes "srv_inv w"
  shows "registered w p \<longleftrightarrow> (\<exists>c. w_conns w p = Some c \<and> \<not> cn_disposed c)"
proof -
  have maps: "maps_ok w" using srv_invD(3) [OF assms] .
  have mem: "\<And>sv i p. (i, p) \<in> set (entry_clients sv w) \<longleftrightarrow>
      (\<exists>c. w_conns w p = Some c \<and> cn_id c = i \<and> cn_kind c = ClientOf sv \<and> \<not> cn_disposed c)"
    and dist: "distinct (map fst (w_entries w))"
    using maps by (simp_all add: maps_ok_def)
  show ?thesis
  proof
    assume "registered w p"
    then obtain sv m i where "(sv, m) \<in> set (w_entries w)" "(i, p) \<in> set m" by (auto simp: registered_def)
    then have "(i, p) \<in> set (entry_clients sv w)" using map_of_entries [OF dist] by (simp add: entry_clients_def)
    then show "\<exists>c. w_conns w p = Some c \<and> \<not> cn_disposed c" using mem by blast
  next
    assume "\<exists>c. w_conns w p = Some c \<and> \<not> cn_disposed c"
    then obtain c where "w_conns w p = Some c" "\<not> cn_disposed c" by blast
    then obtain sv h cl s u where "live w sv p c h cl s u" using live_conn [OF assms] by metis
    then have "(cn_id c, p) \<in> set (entry_clients sv w)" by (simp add: live_def)
    then obtain m where "map_of (w_entries w) sv = Some m" "(cn_id c, p) \<in> set m"
      by (cases "map_of (w_entries w) sv") (auto simp: entry_clients_def)
    then show "registered w p" unfolding registered_def using map_of_SomeD by force
  qed
qed

lemma dispose_live:
  assumes "live w sv p c h cl s u"
  shows "DisposeConnection p w = Some (w\<lparr>w_conns := (w_conns w)(p \<mapsto> c\<lparr>cn_disposed := True, cn_packet := False, cn_flushed := True\<rparr>),
    w_socks := (w_socks w)(s \<mapsto> u\<lparr>us_close_cb := Some On_stream_close, us_reading := False\<rparr>),
    w_clnts := (w_clnts w)(h \<mapsto> cl\<lparr>ch_sock := None\<rparr>)\<rparr>)"
  using assms
  by (cases w) (auto simp: live_def DisposeConnection_def FlushStream_def upd_conn_def upd_clnt_def uv_close_w_def
    upd_sock_def stream_close_cb_def)

lemma entry_clients_cong: "w_entries w' = w_entries w \<Longrightarrow> entry_clients sv w' = entry_clients sv w"
  by (simp add: entry_clients_def)

lemma entry_clients_upd [simp]:
  "entry_clients sv (w\<lparr>w_fresh := a\<rparr>) = entry_clients sv w" "entry_clients sv (w\<lparr>w_socks := b\<rparr>) = entry_clients sv w"
  "entry_clients sv (w\<lparr>w_clnts := c\<rparr>) = entry_clients sv w" "entry_clients sv (w\<lparr>w_conns := d\<rparr>) = entry_clients sv w"
  "entry_clients sv (w\<lparr>w_servers := e\<rparr>) = entry_clients sv w" "entry_clients sv (w\<lparr>w_next_id := f\<rparr>) = entry_clients sv w"
  by (simp_all add: entry_clients_def)

lemma remove_live:
  assumes "live w sv p c h cl s u"
  shows "OnRemoveClient sv p w = Some (w\<lparr>
      w_conns := (w_conns w)(p \<mapsto> c\<lparr>cn_disposed := True, cn_packet := False, cn_flushed := True\<rparr>),
      w_socks := (w_socks w)(s \<mapsto> u\<lparr>us_close_cb := Some On_stream_close, us_reading := False\<rparr>),
      w_clnts := (w_clnts w)(h \<mapsto> cl\<lparr>ch_sock := None\<rparr>),
      w_entries := AList.update sv (AList.delete (cn_id c) (entry_clients sv w)) (w_entries w),
      w_recycler := w_recycler w @ [p], w_count := w_count w - 1\<rparr>)"
proof -
  have "map_of (entry_clients sv w) (cn_id c) = Some p" using assms by (simp add: live_def)
  moreover have "entry_clients sv (w\<lparr>w_conns := a, w_socks := b, w_clnts := d\<rparr>) = entry_clients sv w" for a b d
    by (rule entry_clients_cong) simp
  moreover have "w_conns w p = Some c" "0 < sv" "0 < cn_id c" using assms by (simp_all add: live_def)
  ultimately show ?thesis
    using dispose_live [OF assms]
    by (simp add: OnRemoveClient_def ReleaseConnection_def RecyclerPush_def set_clients_def Let_def)
qed

text \<open>The ways in which a client is removed.\<close>

lemma live_stop:
  assumes "live w sv p c h cl s u"
  shows "live (w\<lparr>w_conns := (w_conns w)(p \<mapsto> c\<lparr>cn_running := r, cn_connected := b\<rparr>), w_events := es\<rparr>) sv p
    (c\<lparr>cn_running := r, cn_connected := b\<rparr>) h cl s u"
  using assms entry_clients_cong [of "w\<lparr>w_conns := (w_conns w)(p \<mapsto> c\<lparr>cn_running := r, cn_connected := b\<rparr>), w_events := es\<rparr>" w sv]
  by (auto simp: live_def)

lemma Disconnect_live:
  assumes "live w sv p c h cl s u" "cn_running c" "cn_connected c"
  shows "Disconnect p w = Some (dropped False sv p c h cl s u w)"
proof -
  let ?c = "c\<lparr>cn_running := False, cn_connected := False\<rparr>"
  let ?w = "w\<lparr>w_conns := (w_conns w)(p \<mapsto> ?c), w_events := w_events w @ [(CONNECTION_DISCONNECTED, p)]\<rparr>"
  have "Disconnect p w = OnRemoveClient sv p ?w"
    using assms by (simp add: Disconnect_def live_def upd_conn_def OnDisconnect_def log_event_def)
  also have "\<dots> = Some (dropped False sv p c h cl s u w)"
    unfolding remove_live [OF live_stop [OF assms(1)]] dropped_def
    using entry_clients_cong [of ?w w sv] by (auto intro!: world.equality simp: disposed_conn_def)
  finally show ?thesis .
qed

lemma OnDisposeClient_live:
  assumes "live w sv p c h cl s u" "cn_running c" "cn_connected c"
  shows "OnDisposeClient sv p w = Some (dropped True sv p c h cl s u w)"
proof -
  let ?c = "c\<lparr>cn_disposed := True, cn_packet := False, cn_flushed := True, cn_connected := False\<rparr>"
  let ?w = "w\<lparr>w_conns := (w_conns w)(p \<mapsto> ?c),
    w_socks := (w_socks w)(s \<mapsto> u\<lparr>us_close_cb := Some On_stream_close, us_reading := False\<rparr>),
    w_clnts := (w_clnts w)(h \<mapsto> cl\<lparr>ch_sock := None\<rparr>), w_events := w_events w @ [(CONNECTION_DISCONNECTED, p)]\<rparr>"
  have "OnDisposeClient sv p w = OnRemoveClient sv p ?w"
    using assms(3) dispose_live [OF assms(1)]
    by (auto simp: OnDisposeClient_def AddClientDisconnectCb_def OnDisconnect_def upd_conn_def log_event_def
      intro!: arg_cong [of _ _ "OnRemoveClient sv p"] world.equality)
  moreover have "map_of (entry_clients sv ?w) (cn_id c) = Some p" "entry_clients sv ?w = entry_clients sv w"
    using assms(1) entry_clients_cong [of ?w w sv] by (simp_all add: live_def)
  moreover have "0 < sv" "0 < cn_id c" using assms(1) by (simp_all add: live_def)
  ultimately show ?thesis
    using assms(2)
    by (auto simp: OnRemoveClient_def ReleaseConnection_def DisposeConnection_def RecyclerPush_def set_clients_def Let_def dropped_def
      disposed_conn_def intro!: world.equality)
qed

lemma dropped_simps [simp]:
  "w_fresh (dropped run sv p c h cl s u w) = w_fresh w" "w_servers (dropped run sv p c h cl s u w) = w_servers w"
  "w_next_id (dropped run sv p c h cl s u w) = w_next_id w" "w_deleted (dropped run sv p c h cl s u w) = w_deleted w"
  "w_safe (dropped run sv p c h cl s u w) = w_safe w"
  "w_conns (dropped run sv p c h cl s u w) = (w_conns w)(p \<mapsto> (disposed_conn c)\<lparr>cn_running := run\<rparr>)"
  "w_clnts (dropped run sv p c h cl s u w) = (w_clnts w)(h \<mapsto> cl\<lparr>ch_sock := None\<rparr>)"
  "w_socks (dropped run sv p c h cl s u w) = (w_socks w)(s \<mapsto> u\<lparr>us_close_cb := Some On_stream_close, us_reading := False\<rparr>)"
  "w_recycler (dropped run sv p c h cl s u w) = w_recycler w @ [p]" "w_count (dropped run sv p c h cl s u w) = w_count w - 1"
  "w_events (dropped run sv p c h cl s u w) = w_events w @ [(CONNECTION_DISCONNECTED, p)]"
  by (simp_all add: dropped_def)

lemma disposed_conn_simps [simp]:
  "cn_id (disposed_conn c) = cn_id c" "cn_kind (disposed_conn c) = cn_kind c" "cn_clnt (disposed_conn c) = cn_clnt c"
  "cn_disposed (disposed_conn c)" "\<not> cn_packet (disposed_conn c)" "cn_flushed (disposed_conn c)" "\<not> cn_connected (disposed_conn c)"
  "cn_timer (disposed_conn c) = cn_timer c" "IsFrontEndClean (disposed_conn c) = IsFrontEndClean c"
  "IsBackEndClean (disposed_conn c) = IsBackEndClean c"
  by (simp_all add: disposed_conn_def IsFrontEndClean_def IsBackEndClean_def)

lemma clean_running [simp]:
  "IsFrontEndClean (c\<lparr>cn_running := r\<rparr>) = IsFrontEndClean c" "IsBackEndClean (c\<lparr>cn_running := r\<rparr>) = IsBackEndClean c"
  by (simp_all add: IsFrontEndClean_def IsBackEndClean_def)

lemma fresh_bounds:
  assumes "fresh_ok w"
  shows "w_conns w p = Some c \<Longrightarrow> 0 < p \<and> p < w_fresh w" "w_clnts w h = Some cl \<Longrightarrow> 0 < h \<and> h < w_fresh w"
    "w_socks w s = Some u \<Longrightarrow> 0 < s \<and> s < w_fresh w" "w_servers w sv = Some x \<Longrightarrow> 0 < sv \<and> sv < w_fresh w"
  using assms unfolding fresh_ok_def by (metis neq0_conv not_less option.distinct(1))+

lemma drop_fresh:
  assumes "fresh_ok w" "live w sv p c h cl s u"
  shows "fresh_ok (dropped run sv p c h cl s u w)"
proof -
  have "0 < p \<and> p < w_fresh w" "0 < h \<and> h < w_fresh w" "0 < s \<and> s < w_fresh w"
    using assms(2) fresh_bounds [OF assms(1)] by (auto simp: live_def)
  then show ?thesis using assms(1) by (auto simp: fresh_ok_def)
qed

lemma heap_okD:
  assumes "heap_ok w"
  shows "w_conns w p = Some c \<Longrightarrow> conn_link w p c" "w_conns w p = Some c \<Longrightarrow> conn_flags w c"
    "w_socks w s = Some u \<Longrightarrow> sock_ok w s u"
    "w_clnts w h = Some cl \<Longrightarrow> \<exists>p c. ch_conn cl = Some p \<and> w_conns w p = Some c \<and> cn_clnt c = Some h"
    "w_servers w sv = Some x \<Longrightarrow> sv_streams x = []" "w_servers w sv = Some x \<Longrightarrow> sv_listener x = Listening \<Longrightarrow> sv_impl x"
  using assms by (simp_all add: heap_ok_def)

lemma drop_heap:
  assumes "heap_ok w" "live w sv p c h cl s u"
  shows "heap_ok (dropped run sv p c h cl s u w)" (is "heap_ok ?w")
  unfolding heap_ok_def
proof (intro conjI allI impI)
  note l = assms(2) [unfolded live_def]
  fix q d assume q: "w_conns ?w q = Some d"
  show "conn_flags ?w d"
  proof (cases "q = p")
    case True
    then show ?thesis using q heap_okD(2) [OF assms(1), of p c] l by (auto simp: conn_flags_def)
  next
    case False
    then show ?thesis using q heap_okD(2) [OF assms(1), of q d] by (simp add: conn_flags_def)
  qed
  show "conn_link ?w q d"
  proof (cases "q = p")
    case True
    then show ?thesis using q l by (auto simp: conn_link_def)
  next
    case False
    then have "conn_link w q d" using q heap_okD(1) [OF assms(1)] by simp
    then obtain h' cl' where h': "cn_clnt d = Some h'" "w_clnts w h' = Some cl'" "ch_conn cl' = Some q" "ch_bb cl'"
      "if cn_flushed d then ch_sock cl' = None
       else \<exists>s u. ch_sock cl' = Some s \<and> w_socks w s = Some u \<and> us_close_cb u = None \<and> us_data u = Some h'"
      unfolding conn_link_def by blast
    then have "h' \<noteq> h" using l False by auto
    moreover have "s' \<noteq> s" if "us_data u' = Some h'" "w_socks w s' = Some u'" for s' u' using that l calculation by auto
    ultimately show ?thesis
      unfolding conn_link_def using h' by (intro exI [of _ h'] exI [of _ cl']) (auto split: if_splits)
  qed
next
  note l = assms(2) [unfolded live_def]
  fix s' u' assume s': "w_socks ?w s' = Some u'"
  show "sock_ok ?w s' u'"
  proof (cases "s' = s")
    case True
    then show ?thesis using s' l by (auto simp: sock_ok_def)
  next
    case False
    then have "sock_ok w s' u'" using s' heap_okD(3) [OF assms(1)] by simp
    then obtain h' cl' p' c' where h': "us_data u' = Some h'" "w_clnts w h' = Some cl'" "ch_conn cl' = Some p'" "w_conns w p' = Some c'"
      "cn_clnt c' = Some h'"
      "if us_close_cb u' = None then ch_sock cl' = Some s' else us_close_cb u' = Some On_stream_close \<and> cn_flushed c'"
      unfolding sock_ok_def by blast
    show ?thesis
    proof (cases "h' = h")
      case True
      then have "p' = p" "c' = c" "cl' = cl" using h' l by auto
      then show ?thesis using h' l False True by (auto simp: sock_ok_def split: if_splits)
    next
      case False
      then have "p' \<noteq> p" using h' l by auto
      then show ?thesis unfolding sock_ok_def using h' False
        by (intro exI [of _ h'] exI [of _ cl'] exI [of _ p'] exI [of _ c']) auto
    qed
  qed
next
  note l = assms(2) [unfolded live_def]
  fix h' cl' assume h': "w_clnts ?w h' = Some cl'"
  show "\<exists>p' c'. ch_conn cl' = Some p' \<and> w_conns ?w p' = Some c' \<and> cn_clnt c' = Some h'"
  proof (cases "h' = h")
    case True
    then show ?thesis using h' l by auto
  next
    case False
    then obtain p' c' where "ch_conn cl' = Some p'" "w_conns w p' = Some c'" "cn_clnt c' = Some h'"
      using h' heap_okD(4) [OF assms(1), of h' cl'] by auto
    moreover from this False have "p' \<noteq> p" using l by auto
    ultimately show ?thesis by auto
  qed
next
  fix sv' x assume "w_servers ?w sv' = Some x"
  then show "sv_streams x = []" "sv_listener x = Listening \<Longrightarrow> sv_impl x" using heap_okD(5,6) [OF assms(1)] by simp_all
qed

lemma total_cong: "w_entries w' = w_entries w \<Longrightarrow> total_clients w' = total_clients w"
  by (simp add: total_clients_def)

lemma maps_okD:
  assumes "maps_ok w"
  shows "distinct (map fst (w_entries w))" "(sv, m) \<in> set (w_entries w) \<Longrightarrow> distinct (map fst m)"
    "(i, p) \<in> set (entry_clients sv w) \<longleftrightarrow>
       (\<exists>c. w_conns w p = Some c \<and> cn_id c = i \<and> cn_kind c = ClientOf sv \<and> \<not> cn_disposed c)"
    "p \<in> set (w_recycler w) \<longleftrightarrow> (\<exists>c. w_conns w p = Some c \<and> cn_disposed c)"
    "distinct (w_recycler w)" "w_safe w = []" "w_count w = of_nat (total_clients w)"
    "w_conns w p = Some c \<Longrightarrow> w_conns w q = Some d \<Longrightarrow> cn_id c = cn_id d \<Longrightarrow> p = q"
  using assms unfolding maps_ok_def by blast+

lemma maps_okI:
  assumes "distinct (map fst (w_entries w))" "\<And>sv m. (sv, m) \<in> set (w_entries w) \<Longrightarrow> distinct (map fst m)"
    and "\<And>sv i p. (i, p) \<in> set (entry_clients sv w) \<longleftrightarrow>
       (\<exists>c. w_conns w p = Some c \<and> cn_id c = i \<and> cn_kind c = ClientOf sv \<and> \<not> cn_disposed c)"
    and "\<And>p. p \<in> set (w_recycler w) \<longleftrightarrow> (\<exists>c. w_conns w p = Some c \<and> cn_disposed c)"
    and "distinct (w_recycler w)" "w_safe w = []" "w_count w = of_nat (total_clients w)"
    and "\<And>p q c d. w_conns w p = Some c \<Longrightarrow> w_conns w q = Some d \<Longrightarrow> cn_id c = cn_id d \<Longrightarrow> p = q"
  shows "maps_ok w"
  unfolding maps_ok_def using assms by (intro conjI allI impI) assumption+

lemma update_entries:
  assumes "distinct (map fst es)" "\<And>sv m. (sv, m) \<in> set es \<Longrightarrow> distinct (map fst m)" "distinct (map fst m)"
  shows "distinct (map fst (AList.update sv m es))" "(sv', m') \<in> set (AList.update sv m es) \<Longrightarrow> distinct (map fst m')"
proof -
  show d: "distinct (map fst (AList.update sv m es))" using assms(1) by (rule distinct_update)
  show "distinct (map fst m')" if "(sv', m') \<in> set (AList.update sv m es)"
  proof -
    have "map_of (AList.update sv m es) sv' = Some m'" using that d by simp
    then show ?thesis using assms by (auto simp: update_conv' split: if_splits dest: map_of_SomeD)
  qed
qed

lemma drop_maps:
  assumes "maps_ok w" "live w sv p c h cl s u"
  shows "maps_ok (dropped run sv p c h cl s u w)" (is "maps_ok ?w")
proof -
  note l = assms(2) [unfolded live_def]
  note m = maps_okD [OF assms(1)]
  let ?m = "AList.delete (cn_id c) (entry_clients sv w)"
  have ents: "w_entries ?w = w_entries (set_clients sv ?m w)" by (simp add: dropped_def set_clients_def)
  have dist: "distinct (map fst ?m)" using l by (simp add: AList.distinct_delete)
  have set_m: "set ?m = {x \<in> set (entry_clients sv w). fst x \<noteq> cn_id c}" using l by (intro set_delete) simp
  have clients: "entry_clients sv' ?w = (if sv' = sv then ?m else entry_clients sv' w)" for sv'
    using entry_clients_cong [OF ents] by simp
  have "total_clients (set_clients sv ?m w) + length (entry_clients sv w) = total_clients w + length ?m"
    by (rule total_set [OF m(1)])
  moreover have "Suc (length ?m) = length (entry_clients sv w)" using l by (intro length_delete) auto
  ultimately have "total_clients w = Suc (total_clients ?w)" using total_cong [OF ents] by linarith
  then have count: "w_count ?w = of_nat (total_clients ?w)" using m(7) by simp
  have p: "w_conns w p = Some c" "\<not> cn_disposed c" using l by auto
  have mem: "(i, q) \<in> set (entry_clients sv' ?w) \<longleftrightarrow>
      (\<exists>d. w_conns ?w q = Some d \<and> cn_id d = i \<and> cn_kind d = ClientOf sv' \<and> \<not> cn_disposed d)" for sv' i q
  proof (cases "q = p")
    case True
    then show ?thesis using clients set_m m(3) [of i p sv'] l by (auto split: if_splits)
  next
    case False
    then have "i \<noteq> cn_id c" if "(i, q) \<in> set (entry_clients sv' w)" using that m(3) [of i q sv'] m(8) [OF p(1), of q] by auto
    then show ?thesis using False clients set_m m(3) [of i q sv'] by (auto split: if_splits)
  qed
  have rec: "q \<in> set (w_recycler ?w) \<longleftrightarrow> (\<exists>d. w_conns ?w q = Some d \<and> cn_disposed d)" for q
    using m(4) [of q] by auto
  have "p \<notin> set (w_recycler w)" using m(4) [of p] p by auto
  then have dist_rec: "distinct (w_recycler ?w)" using m(5) by simp
  have ids: "q = r" if "w_conns ?w q = Some d" "w_conns ?w r = Some e" "cn_id d = cn_id e" for q r d e
    using that m(8) p(1) by (auto split: if_splits)
  have "w_entries ?w = AList.update sv ?m (w_entries w)" "w_safe ?w = []" using m(6) by (simp_all add: dropped_def)
  then show ?thesis
    using update_entries [OF m(1,2) dist] by (intro maps_okI mem rec dist_rec count) (auto intro: ids)
qed

lemma drop_history:
  assumes "history_ok w" "maps_ok w" "live w sv p c h cl s u"
  shows "history_ok (dropped run sv p c h cl s u w)" (is "history_ok ?w")
proof -
  have p: "w_conns w p = Some c" "\<not> cn_disposed c" using assms(3) by (auto simp: live_def)
  have evs: "events_of ?w q = events_of w q @ (if q = p then [CONNECTION_DISCONNECTED] else [])" for q
    by (simp add: events_of_def)
  have "p \<notin> set (w_deleted w)" using assms(1) p(1) by (auto simp: history_ok_def)
  then show ?thesis using assms(1) p unfolding history_ok_def evs by auto
qed

lemma drop_inv:
  assumes "srv_inv w" "live w sv p c h cl s u"
  shows "srv_inv (dropped run sv p c h cl s u w)"
  using assms srv_invD [OF assms(1)] drop_fresh drop_heap drop_maps drop_history by (simp add: srv_inv_def id_ok_def)

subsection \<open>The steps keep the invariant\<close>

lemma sock_conn:
  assumes "srv_inv w" "w_socks w s = Some u"
  obtains h cl p c where "us_data u = Some h" "w_clnts w h = Some cl" "ch_conn cl = Some p" "w_conns w p = Some c" "ch_bb cl"
    "us_close_cb u = None \<Longrightarrow> \<not> cn_disposed c" "us_close_cb u \<noteq> None \<Longrightarrow> us_close_cb u = Some On_stream_close \<and> cn_flushed c \<and> cn_disposed c"
proof -
  note heap = srv_invD(2) [OF assms(1)]
  obtain h cl p c where x: "us_data u = Some h" "w_clnts w h = Some cl" "ch_conn cl = Some p" "w_conns w p = Some c" "cn_clnt c = Some h"
    "if us_close_cb u = None then ch_sock cl = Some s else us_close_cb u = Some On_stream_close \<and> cn_flushed c"
    using heap_okD(3) [OF heap assms(2)] unfolding sock_ok_def by blast
  have "conn_link w p c" "cn_flushed c = cn_disposed c" using heap_okD(1,2) [OF heap x(4)] by (simp_all add: conn_flags_def)
  then show ?thesis using that x unfolding conn_link_def by (auto split: if_splits)
qed

lemma maps_cong:
  assumes "w_entries w' = w_entries w" "w_conns w' = w_conns w" "w_recycler w' = w_recycler w" "w_safe w' = w_safe w"
    "w_count w' = w_count w"
  shows "maps_ok w' = maps_ok w"
  unfolding maps_ok_def assms entry_clients_cong [OF assms(1)] total_cong [OF assms(1)] ..

lemma history_cong:
  assumes "w_deleted w' = w_deleted w" "w_conns w' = w_conns w" "w_events w' = w_events w"
  shows "history_ok w' = history_ok w"
  unfolding history_ok_def events_of_def assms ..

text \<open>A change of the heap that leaves the connections and the manager alone.\<close>

lemma srv_inv_heap:
  assumes "srv_inv w" "heap_ok w'" "fresh_ok w'" "w_conns w' = w_conns w" "w_entries w' = w_entries w" "w_recycler w' = w_recycler w"
    "w_safe w' = w_safe w" "w_count w' = w_count w" "w_deleted w' = w_deleted w" "w_events w' = w_events w" "w_next_id w' = w_next_id w"
  shows "srv_inv w'"
  using assms maps_cong [of w' w] history_cong [of w' w] by (simp add: srv_inv_def id_ok_def)

lemma conn_link_socks:
  assumes "conn_link w p c" "w_clnts w' = w_clnts w"
    and "\<And>s u h. w_socks w s = Some u \<Longrightarrow> us_close_cb u = None \<Longrightarrow> us_data u = Some h \<Longrightarrow>
      \<exists>v. w_socks w' s = Some v \<and> us_close_cb v = None \<and> us_data v = Some h"
  shows "conn_link w' p c"
  using assms(1) unfolding conn_link_def assms(2) by (cases "cn_flushed c") (simp_all, metis assms(3))

lemma conn_link_clnt:
  assumes "conn_link w p c" "w_socks w' = w_socks w" "\<And>h. cn_clnt c = Some h \<Longrightarrow> w_clnts w' h = w_clnts w h"
  shows "conn_link w' p c"
proof -
  obtain h where "cn_clnt c = Some h" using assms(1) by (auto simp: conn_link_def)
  then show ?thesis using assms(1) unfolding conn_link_def assms(2) using assms(3) by simp
qed

text \<open>A change of the socket that the invariant does not see.\<close>

lemma sock_update_inv:
  assumes "srv_inv w" "w_socks w s = Some u" "us_data v = us_data u" "us_close_cb v = us_close_cb u"
  shows "srv_inv (w\<lparr>w_socks := (w_socks w)(s \<mapsto> v)\<rparr>)" (is "srv_inv ?w")
proof -
  have "conn_link ?w p c" if "conn_link w p c" for p c
    by (rule conn_link_socks [OF that]) (use assms(2-4) in auto)
  moreover have "sock_ok ?w x y" if "sock_ok w x y" for x y using that by (simp add: sock_ok_def)
  moreover have "sock_ok w s v" if "sock_ok w s u" using that unfolding sock_ok_def assms(3,4) .
  ultimately have "heap_ok ?w"
    using srv_invD(2) [OF assms(1)] assms(2) by (auto simp: heap_ok_def conn_flags_def)
  moreover have "fresh_ok ?w"
    using srv_invD(1) [OF assms(1)] fresh_bounds(3) [OF srv_invD(1) [OF assms(1)] assms(2)] by (auto simp: fresh_ok_def)
  ultimately show ?thesis by (rule srv_inv_heap [OF assms(1)]) simp_all
qed

lemma Disconnect_ok:
  assumes "srv_inv w" "w_conns w p = Some c"
  shows "\<exists>w'. Disconnect p w = Some w' \<and> srv_inv w'"
proof (cases "cn_disposed c")
  case True
  then show ?thesis using assms by (simp add: Disconnect_def)
next
  case False
  then obtain sv h cl s u where "live w sv p c h cl s u" "cn_running c" "cn_connected c" using live_conn [OF assms] by metis
  then show ?thesis using Disconnect_live drop_inv [OF assms(1)] by blast
qed

lemma read_ok:
  assumes "srv_inv w" "w_socks w s = Some u" "us_close_cb u = None"
  shows "\<exists>w'. on_client_read s nread w = Some w' \<and> srv_inv w'"
proof -
  obtain h cl p c where x: "us_data u = Some h" "w_clnts w h = Some cl" "ch_conn cl = Some p" "w_conns w p = Some c" "ch_bb cl"
    "\<not> cn_disposed c"
    using sock_conn [OF assms(1,2)] assms(3) by metis
  have "cn_packet c" using heap_okD(2) [OF srv_invD(2) [OF assms(1)] x(4)] x(6) by (simp add: conn_flags_def)
  then show ?thesis
    using assms(1,2) x(1-5) Disconnect_ok [OF assms(1) x(4)]
    by (cases nread) (auto simp: on_client_read_def commit_bb_def OnRawData_def)
qed

lemma write_ok:
  assumes "srv_inv w" "w_socks w s = Some u"
  shows "\<exists>w'. on_client_write s status io_pending w = Some w' \<and> srv_inv w'"
proof -
  let ?w = "w\<lparr>w_socks := (w_socks w)(s \<mapsto> u\<lparr>us_writes := us_writes u - 1\<rparr>)\<rparr>"
  have inv: "srv_inv ?w" using assms by (intro sock_update_inv) auto
  obtain h cl p c where x: "us_data u = Some h" "w_clnts w h = Some cl" "ch_conn cl = Some p" "w_conns w p = Some c"
    using sock_conn [OF assms] by metis
  have "\<exists>w'. Disconnect p ?w = Some w' \<and> srv_inv w'" using Disconnect_ok [OF inv] x(4) by simp
  then show ?thesis using assms(2) x(1-3) inv by (auto simp: on_client_write_def upd_sock_def)
qed

lemma closed_ok:
  assumes "srv_inv w" "w_socks w s = Some u" "us_close_cb u \<noteq> None"
  shows "\<exists>w'. run_close_cb s w = Some w' \<and> srv_inv w'"
proof -
  obtain h cl p c where x: "us_data u = Some h" "w_clnts w h = Some cl" "ch_conn cl = Some p" "w_conns w p = Some c"
    "us_close_cb u = Some On_stream_close" "cn_flushed c"
    using sock_conn [OF assms(1,2)] assms(3) by metis
  let ?w = "w\<lparr>w_socks := (w_socks w)(s := None)\<rparr>"
  have "c\<lparr>cn_flushed := True\<rparr> = c" using x(6) by (cases c) simp
  then have "run_close_cb s w = Some ?w"
    using assms(2) x by (auto simp: run_close_cb_def upd_conn_def free_sock_def fun_upd_idem)
  moreover have "conn_link ?w q d" if "conn_link w q d" for q d
    by (rule conn_link_socks [OF that]) (use assms(2,3) in auto)
  then have "heap_ok ?w"
    using srv_invD(2) [OF assms(1)] by (auto simp: heap_ok_def conn_flags_def sock_ok_def)
  moreover have "fresh_ok ?w" using srv_invD(1) [OF assms(1)] by (auto simp: fresh_ok_def)
  ultimately show ?thesis using srv_inv_heap [OF assms(1), of ?w] by simp
qed

lemma post_raw_ok:
  assumes "srv_inv w" "w_conns w p = Some c" "\<not> cn_disposed c" "\<forall>(r, len) \<in> set pages. 0 \<le> r"
  shows "\<exists>w'. post_pages_raw pages p w = Some w' \<and> srv_inv w'"
  using assms
proof (induction pages arbitrary: w)
  case (Cons a pages)
  obtain r len where a: "a = (r, len)" "0 \<le> r" using Cons.prems(4) by (cases a) auto
  obtain sv h cl s u where l: "live w sv p c h cl s u" using live_conn [OF Cons.prems(1-3)] by metis
  then obtain x where "w_servers w sv = Some x" "sv_impl x"
    using heap_okD(2) [OF srv_invD(2) [OF Cons.prems(1)] Cons.prems(2)] by (auto simp: live_def conn_flags_def)
  then have "writecb_ok c w = Some ()" using l by (simp add: writecb_ok_def live_def)
  let ?w = "w\<lparr>w_socks := (w_socks w)(s \<mapsto> u\<lparr>us_writes := Suc (us_writes u)\<rparr>)\<rparr>"
  have "SendRaw r p len w = Some (len, ?w)" using l a(2) \<open>writecb_ok c w = Some ()\<close> by (auto simp: SendRaw_def live_def upd_sock_def)
  moreover have "srv_inv ?w" using l Cons.prems(1) by (intro sock_update_inv) (auto simp: live_def)
  moreover have "cn_packet c" using l by (simp add: live_def)
  ultimately show ?case using Cons.IH [of ?w] Cons.prems a(1) by auto
qed simp

lemma send_ok:
  assumes "srv_inv w" "w_conns w p = Some c" "\<not> cn_disposed c" "\<forall>(r, len) \<in> set pages. 0 \<le> r"
  shows "\<exists>w'. PostPacket pages p w = Some w' \<and> srv_inv w'"
  using post_raw_ok [OF assms] assms(1,2) by (auto simp: PostPacket_def)

lemma dispose_ok:
  assumes "srv_inv w" "w_conns w p = Some c" "\<not> cn_disposed c" "cn_kind c = ClientOf sv"
  shows "\<exists>w'. OnDisposeClient sv p w = Some w' \<and> srv_inv w'"
proof -
  obtain sv' h cl s u where l: "live w sv' p c h cl s u" "cn_running c" "cn_connected c" using live_conn [OF assms(1-3)] by metis
  then have "sv' = sv" using assms(4) by (simp add: live_def)
  then show ?thesis using OnDisposeClient_live l drop_inv [OF assms(1)] by blast
qed

lemma conn_flags_servers:
  assumes "conn_flags w c" "w_next_id w' = w_next_id w"
    "\<And>sv x. w_servers w sv = Some x \<Longrightarrow> sv_impl x \<Longrightarrow> \<exists>y. w_servers w' sv = Some y \<and> sv_impl y"
  shows "conn_flags w' c"
  using assms unfolding conn_flags_def by metis

lemma server_update_inv:
  assumes "srv_inv w" "w_servers w sv = Some x" "sv_streams (f x) = sv_streams x" "sv_impl x \<Longrightarrow> sv_impl (f x)"
    "sv_listener (f x) = Listening \<Longrightarrow> sv_impl (f x)"
  shows "\<exists>w'. upd_server sv f w = Some w' \<and> srv_inv w'"
proof -
  let ?w = "w\<lparr>w_servers := (w_servers w)(sv \<mapsto> f x)\<rparr>"
  have "conn_link ?w q d" if "conn_link w q d" for q d using that by (rule conn_link_socks) auto
  moreover have "conn_flags ?w c" if "conn_flags w c" for c using that by (rule conn_flags_servers) (use assms(2,4) in auto)
  moreover have "sock_ok ?w s u = sock_ok w s u" for s u by (simp add: sock_ok_def)
  ultimately have "heap_ok ?w" using srv_invD(2) [OF assms(1)] assms(2,3,5) by (auto simp: heap_ok_def)
  moreover have "fresh_ok ?w"
    using srv_invD(1) [OF assms(1)] fresh_bounds(4) [OF srv_invD(1) [OF assms(1)] assms(2)] by (auto simp: fresh_ok_def)
  ultimately show ?thesis using assms(2) srv_inv_heap [OF assms(1), of ?w] by (simp add: upd_server_def)
qed

lemma create_inv:
  assumes "srv_inv w"
  shows "srv_inv (snd (CreateTcpServer w))" (is "srv_inv ?w")
proof -
  have new: "w_servers w (w_fresh w) = None" using srv_invD(1) [OF assms] by (simp add: fresh_ok_def)
  have "conn_link ?w q d" if "conn_link w q d" for q d
    by (rule conn_link_socks [OF that]) (simp_all add: CreateTcpServer_def)
  moreover have "conn_flags ?w c" if "conn_flags w c" for c
    using that by (rule conn_flags_servers) (use new in \<open>auto simp: CreateTcpServer_def\<close>)
  moreover have "sock_ok ?w s u = sock_ok w s u" for s u by (simp add: sock_ok_def CreateTcpServer_def)
  ultimately have "heap_ok ?w" using srv_invD(2) [OF assms] by (auto simp: heap_ok_def CreateTcpServer_def)
  moreover have "fresh_ok ?w" using srv_invD(1) [OF assms] by (auto simp: fresh_ok_def CreateTcpServer_def)
  ultimately show ?thesis by (rule srv_inv_heap [OF assms]) (simp_all add: CreateTcpServer_def)
qed

text \<open>The recycler, with no socket closing: every connection in it is deleted.\<close>

lemma recycler_pop_all:
  assumes "\<And>p. p \<in> set ps \<Longrightarrow> \<exists>c. w_conns w p = Some c \<and> safe_to_release c"
  shows "recycler_pop ps w = Some ([], ps)"
  using assms
proof (induction ps)
  case (Cons p ps)
  then obtain c where "w_conns w p = Some c" "safe_to_release c" by auto
  then show ?case using Cons by simp
qed simp

definition handles :: "world \<Rightarrow> nat set \<Rightarrow> nat set" where
  "handles w P = {h. \<exists>p \<in> P. \<exists>c. w_conns w p = Some c \<and> cn_clnt c = Some h}"

lemma delete_conns_all:
  assumes "distinct ps" "\<And>p. p \<in> set ps \<Longrightarrow> \<exists>c. w_conns w p = Some c \<and> conn_link w p c"
  shows "delete_conns ps w = Some (w\<lparr>w_clnts := w_clnts w |` (- handles w (set ps)), w_conns := w_conns w |` (- set ps),
    w_deleted := w_deleted w @ ps\<rparr>)"
  using assms
proof (induction ps arbitrary: w)
  case Nil
  show ?case by (auto intro!: world.equality simp: handles_def)
next
  case (Cons p ps)
  obtain c h cl where p: "w_conns w p = Some c" "cn_clnt c = Some h" "w_clnts w h = Some cl" "ch_conn cl = Some p" "ch_bb cl"
    using Cons.prems(2) [of p] unfolding conn_link_def by auto
  let ?w = "w\<lparr>w_clnts := (w_clnts w)(h := None), w_conns := (w_conns w)(p := None), w_deleted := w_deleted w @ [p]\<rparr>"
  have del: "delete_conn p w = Some ?w" using p by (simp add: delete_conn_def free_clnt_def)
  have link: "\<exists>c. w_conns ?w q = Some c \<and> conn_link ?w q c" if q: "q \<in> set ps" for q
  proof -
    obtain d where d: "w_conns w q = Some d" "conn_link w q d" using Cons.prems(2) [of q] q by auto
    moreover have "q \<noteq> p" using q Cons.prems(1) by auto
    moreover from this have "cn_clnt d \<noteq> Some h" using d(2) p(3,4) unfolding conn_link_def by auto
    ultimately show ?thesis by (intro exI [of _ d] conjI conn_link_clnt [of w q d ?w]) auto
  qed
  have "h \<in> handles w {p}" using p by (auto simp: handles_def)
  moreover have "handles w (set (p # ps)) = insert h (handles ?w (set ps))"
    using Cons.prems(1) p by (auto simp: handles_def)
  ultimately show ?case
    using Cons.IH [of ?w] Cons.prems(1) link del by (auto intro!: world.equality simp: restrict_map_def fun_eq_iff)
qed

lemma Recycle_eff:
  assumes "srv_inv w"
  defines "P \<equiv> set (w_recycler w)"
  shows "Recycle w = Some (False, w\<lparr>w_recycler := [], w_clnts := w_clnts w |` (- handles w P), w_conns := w_conns w |` (- P),
    w_deleted := w_deleted w @ w_recycler w\<rparr>)"
proof -
  note maps = maps_okD [OF srv_invD(3) [OF assms(1)]] and heap = heap_okD [OF srv_invD(2) [OF assms(1)]]
  have rec: "\<exists>c. w_conns w p = Some c \<and> safe_to_release c \<and> conn_link w p c" if p: "p \<in> set (w_recycler w)" for p
  proof -
    obtain c where c: "w_conns w p = Some c" "cn_disposed c" using maps(4) [of p] p by auto
    then show ?thesis using heap(1,2) [OF c(1)] by (auto simp: safe_to_release_def conn_flags_def)
  qed
  have "recycler_pop (w_recycler w) w = Some ([], w_recycler w)" by (rule recycler_pop_all) (use rec in blast)
  then have pop: "RecyclerPop w = Some (w\<lparr>w_recycler := [], w_safe := w_recycler w\<rparr>)" using maps(6) by (simp add: RecyclerPop_def)
  let ?w = "w\<lparr>w_recycler := [], w_safe := w_recycler w\<rparr>"
  have "handles ?w P = handles w P" by (simp add: handles_def)
  moreover have "\<exists>c. w_conns ?w p = Some c \<and> conn_link ?w p c" if p: "p \<in> set (w_recycler w)" for p
  proof -
    obtain c where c: "w_conns w p = Some c" "conn_link w p c" using rec [OF p] by blast
    have "conn_link ?w p c" by (rule conn_link_clnt [OF c(2)]) simp_all
    then show ?thesis using c(1) by simp
  qed
  ultimately have "delete_conns (w_safe ?w) ?w = Some (?w\<lparr>w_clnts := w_clnts w |` (- handles w P), w_conns := w_conns w |` (- P),
      w_deleted := w_deleted w @ w_recycler w\<rparr>)"
    using delete_conns_all [of "w_recycler w" ?w] maps(5) by (simp add: P_def)
  then show ?thesis using pop maps(6) by (auto simp: Recycle_def SafeRelease_def intro!: world.equality)
qed

lemma recycle_ok:
  assumes "srv_inv w" "\<And>s u. w_socks w s = Some u \<Longrightarrow> us_close_cb u = None"
  shows "\<exists>w'. map_option snd (Recycle w) = Some w' \<and> srv_inv w'"
proof -
  define P where "P = set (w_recycler w)"
  let ?w = "w\<lparr>w_recycler := [], w_clnts := w_clnts w |` (- handles w P), w_conns := w_conns w |` (- P),
    w_deleted := w_deleted w @ w_recycler w\<rparr>"
  note maps = maps_okD [OF srv_invD(3) [OF assms(1)]] and heap = heap_okD [OF srv_invD(2) [OF assms(1)]]
  have P: "p \<in> P \<longleftrightarrow> (\<exists>c. w_conns w p = Some c \<and> cn_disposed c)" for p using maps(4) by (simp add: P_def)
  have keep: "h \<notin> handles w P" if "w_clnts w h = Some cl" "ch_conn cl = Some p" "p \<notin> P" for h cl p
  proof
    assume "h \<in> handles w P"
    then obtain q d where q: "q \<in> P" "w_conns w q = Some d" "cn_clnt d = Some h" by (auto simp: handles_def)
    then show False using heap(1) [OF q(2)] that unfolding conn_link_def by auto
  qed
  have link: "conn_link ?w p c" if "w_conns w p = Some c" "p \<notin> P" for p c
  proof (rule conn_link_clnt [OF heap(1) [OF that(1)]])
    show "w_clnts ?w h = w_clnts w h" if "cn_clnt c = Some h" for h
      using heap(1) [OF \<open>w_conns w p = Some c\<close>] keep [of h _ p] that \<open>p \<notin> P\<close> unfolding conn_link_def by auto
  qed simp
  have sock: "sock_ok ?w s u" if s: "w_socks w s = Some u" for s u
  proof -
    obtain h cl p c where x: "us_data u = Some h" "w_clnts w h = Some cl" "ch_conn cl = Some p" "w_conns w p = Some c" "cn_clnt c = Some h"
      "ch_sock cl = Some s"
      using heap(3) [OF s] assms(2) [OF s] unfolding sock_ok_def by auto
    then have "\<not> cn_disposed c" using heap(1,2) [OF x(4)] unfolding conn_link_def conn_flags_def by auto
    then have "p \<notin> P" using P x(4) by auto
    then show ?thesis using x keep assms(2) [OF s] unfolding sock_ok_def by (auto simp: restrict_map_def)
  qed
  have clnt: "\<exists>p c. ch_conn cl = Some p \<and> w_conns ?w p = Some c \<and> cn_clnt c = Some h" if h: "w_clnts ?w h = Some cl" for h cl
  proof -
    have "w_clnts w h = Some cl" "h \<notin> handles w P" using h by (auto simp: restrict_map_def split: if_splits)
    then obtain p c where x: "ch_conn cl = Some p" "w_conns w p = Some c" "cn_clnt c = Some h" using heap(4) by blast
    then have "p \<notin> P" using \<open>h \<notin> handles w P\<close> by (auto simp: handles_def)
    then show ?thesis using x by auto
  qed
  have "heap_ok ?w"
    unfolding heap_ok_def using link sock clnt heap(2,5,6)
    by (auto simp: conn_flags_def restrict_map_def split: if_splits)
  moreover have "fresh_ok ?w"
    using srv_invD(1) [OF assms(1)] fresh_bounds(1) [OF srv_invD(1) [OF assms(1)]] maps(4)
    by (auto simp: fresh_ok_def restrict_map_def)
  moreover have "maps_ok ?w"
    using maps entry_clients_cong [of ?w w] total_cong [of ?w w] P
    by (intro maps_okI) (auto simp: restrict_map_def split: if_splits)
  moreover have "history_ok ?w"
  proof -
    have "events_of ?w p = events_of w p" for p by (simp add: events_of_def)
    then show ?thesis
      using srv_invD(4) [OF assms(1)] maps(4,5) P unfolding history_ok_def
      by (auto simp: restrict_map_def P_def split: option.splits)
  qed
  moreover have "id_ok ?w" using srv_invD(5) [OF assms(1)] by (simp add: id_ok_def)
  ultimately have "srv_inv ?w" by (simp add: srv_inv_def)
  then show ?thesis using Recycle_eff [OF assms(1)] by (simp add: P_def)
qed

text \<open>A new connection.\<close>

definition accepted_conn :: "nat \<Rightarrow> world \<Rightarrow> conn" where
  "accepted_conn sv w = (new_client (w_next_id w + 1) sv)\<lparr>cn_clnt := Some (Suc (w_fresh w)), cn_packet := True, cn_connected := True\<rparr>"

definition accepted :: "nat \<Rightarrow> world \<Rightarrow> world" where
  "accepted sv w = (let s = w_fresh w; h = Suc s; p = Suc h; i = w_next_id w + 1 in
     w\<lparr>w_fresh := Suc p,
       w_socks := (w_socks w)(s \<mapsto> \<lparr>us_data = Some h, us_close_cb = None, us_connect = False, us_reading = True, us_writes = 0\<rparr>),
       w_clnts := (w_clnts w)(h \<mapsto> \<lparr>ch_sock = Some s, ch_conn = Some p, ch_bb = True\<rparr>),
       w_conns := (w_conns w)(p \<mapsto> accepted_conn sv w),
       w_next_id := i, w_entries := AList.update sv (AList.update i p (entry_clients sv w)) (w_entries w),
       w_count := w_count w + 1, w_events := w_events w @ [(CONNECTION_CONNECTED, p)]\<rparr>)"

lemma accepted_simps [simp]:
  "w_fresh (accepted sv w) = w_fresh w + 3" "w_servers (accepted sv w) = w_servers w" "w_next_id (accepted sv w) = w_next_id w + 1"
  "w_socks (accepted sv w) = (w_socks w)(w_fresh w \<mapsto>
     \<lparr>us_data = Some (Suc (w_fresh w)), us_close_cb = None, us_connect = False, us_reading = True, us_writes = 0\<rparr>)"
  "w_clnts (accepted sv w) = (w_clnts w)(Suc (w_fresh w) \<mapsto> \<lparr>ch_sock = Some (w_fresh w), ch_conn = Some (w_fresh w + 2), ch_bb = True\<rparr>)"
  "w_conns (accepted sv w) = (w_conns w)(w_fresh w + 2 \<mapsto> accepted_conn sv w)" "w_recycler (accepted sv w) = w_recycler w"
  "w_safe (accepted sv w) = w_safe w" "w_count (accepted sv w) = w_count w + 1" "w_deleted (accepted sv w) = w_deleted w"
  "w_events (accepted sv w) = w_events w @ [(CONNECTION_CONNECTED, w_fresh w + 2)]"
  by (simp_all add: accepted_def Let_def eval_nat_numeral)

lemma accepted_conn_simps [simp]:
  "cn_id (accepted_conn sv w) = w_next_id w + 1" "cn_kind (accepted_conn sv w) = ClientOf sv"
  "cn_clnt (accepted_conn sv w) = Some (Suc (w_fresh w))" "cn_packet (accepted_conn sv w)" "cn_running (accepted_conn sv w)"
  "cn_connected (accepted_conn sv w)" "\<not> cn_disposed (accepted_conn sv w)" "\<not> cn_flushed (accepted_conn sv w)"
  "cn_timer (accepted_conn sv w) = None" "IsFrontEndClean (accepted_conn sv w)" "IsBackEndClean (accepted_conn sv w)"
  by (simp_all add: accepted_conn_def new_client_def IsFrontEndClean_def IsBackEndClean_def)

lemma connection_eff:
  assumes "srv_inv w" "w_servers w sv = Some x" "server_IsReady x" "w_next_id w + 1 < TCP_CONNID_MAX" "0 < w_next_id w + 1" "sv_impl x"
  shows "on_connection sv 0 0 0 0 w = Some (accepted sv w)"
proof -
  have sv: "0 < sv" using fresh_bounds(4) [OF srv_invD(1) [OF assms(1)] assms(2)] by simp
  have st: "sv_streams x = []" using heap_okD(5) [OF srv_invD(2) [OF assms(1)] assms(2)] .
  then have x: "x\<lparr>sv_streams := []\<rparr> = x" by (cases x) simp
  show ?thesis
    using assms(2-6) sv st x
    by (auto simp: on_connection_def on_server_accept_client_def alloc_sock_def alloc_clnt_def upd_sock_def upd_clnt_def
      AddStream_def upd_server_def OnAcceptClient_def CreateTcpClientOnServer_def GetNextConnectionId_def alloc_conn_def
      OnAddClient_def new_client_def ConfirmClientIsReady_def RemoveStream_def upd_conn_def OnConnect_def log_event_def
      set_clients_def Let_def accepted_def accepted_conn_def intro!: world.equality)
qed

lemma accepted_heap:
  assumes "srv_inv w" "0 < sv" "w_next_id w < w_next_id w + 1" "TCP_CONNID_BASE < w_next_id w + 1"
    "w_servers w sv = Some x" "sv_impl x"
  shows "heap_ok (accepted sv w)" (is "heap_ok ?w")
proof -
  note heap = heap_okD [OF srv_invD(2) [OF assms(1)]] and lt = fresh_bounds [OF srv_invD(1) [OF assms(1)]]
  have link: "conn_link ?w p c" if p: "w_conns w p = Some c" for p c
  proof -
    let ?v = "w\<lparr>w_clnts := w_clnts ?w\<rparr>"
    have "w_clnts ?v h = w_clnts w h" if h: "cn_clnt c = Some h" for h
      using heap(1) [OF p] h lt(2) [of h] unfolding conn_link_def by auto
    then have "conn_link ?v p c" by (intro conn_link_clnt [OF heap(1) [OF p]]) simp_all
    then show ?thesis by (rule conn_link_socks) (use lt(3) in fastforce)+
  qed
  have flags: "conn_flags ?w c" if "w_conns w p = Some c" for p c
    using heap(2) [OF that] assms(3) by (auto simp: conn_flags_def)
  have new: "conn_link ?w (w_fresh w + 2) (accepted_conn sv w)" "conn_flags ?w (accepted_conn sv w)"
    using assms(2,4-6) by (simp_all add: conn_link_def conn_flags_def)
  have sock: "sock_ok ?w s u" if s: "w_socks w s = Some u" for s u
  proof -
    obtain h cl p c where x: "us_data u = Some h" "w_clnts w h = Some cl" "ch_conn cl = Some p" "w_conns w p = Some c" "cn_clnt c = Some h"
      "if us_close_cb u = None then ch_sock cl = Some s else us_close_cb u = Some On_stream_close \<and> cn_flushed c"
      using heap(3) [OF s] unfolding sock_ok_def by blast
    then have "h \<noteq> Suc (w_fresh w)" "p \<noteq> w_fresh w + 2" using lt(1) [OF x(4)] lt(2) [OF x(2)] by auto
    then show ?thesis unfolding sock_ok_def using x by (intro exI [of _ h] exI [of _ cl] exI [of _ p] exI [of _ c]) simp
  qed
  have sock_new: "sock_ok ?w (w_fresh w) \<lparr>us_data = Some (Suc (w_fresh w)), us_close_cb = None, us_connect = False, us_reading = True, us_writes = 0\<rparr>"
    by (simp add: sock_ok_def)
  have clnt: "\<exists>p c. ch_conn cl = Some p \<and> w_conns ?w p = Some c \<and> cn_clnt c = Some h" if h: "w_clnts w h = Some cl" for h cl
  proof -
    obtain p c where "ch_conn cl = Some p" "w_conns w p = Some c" "cn_clnt c = Some h" using heap(4) [OF h] by blast
    then show ?thesis using lt(1) [of p c] by (intro exI [of _ p] exI [of _ c]) auto
  qed
  have "\<exists>p c. ch_conn cl = Some p \<and> w_conns ?w p = Some c \<and> cn_clnt c = Some h" if "w_clnts ?w h = Some cl" for h cl
  proof (cases "h = Suc (w_fresh w)")
    case True
    then have "ch_conn cl = Some (w_fresh w + 2)" using that by auto
    moreover have "w_conns ?w (w_fresh w + 2) = Some (accepted_conn sv w)" by simp
    ultimately show ?thesis using True accepted_conn_simps(3) by blast
  next
    case False
    then have "w_clnts w h = Some cl" using that by simp
    then show ?thesis by (rule clnt)
  qed
  moreover have "conn_link ?w p c \<and> conn_flags ?w c" if "w_conns ?w p = Some c" for p c
    using that link flags new by (auto split: if_splits)
  moreover have "sock_ok ?w s u" if "w_socks ?w s = Some u" for s u using that sock sock_new by (auto split: if_splits)
  moreover have "sv_streams x = [] \<and> (sv_listener x = Listening \<longrightarrow> sv_impl x)" if "w_servers ?w sv' = Some x" for sv' x
    using that heap(5,6) by simp
  ultimately show ?thesis unfolding heap_ok_def by blast
qed

lemma accepted_maps:
  assumes "srv_inv w" "w_next_id w < w_next_id w + 1"
  shows "maps_ok (accepted sv w)" (is "maps_ok ?w")
proof -
  note m = maps_okD [OF srv_invD(3) [OF assms(1)]] and lt = fresh_bounds [OF srv_invD(1) [OF assms(1)]]
    and heap = heap_okD [OF srv_invD(2) [OF assms(1)]]
  let ?i = "w_next_id w + 1" and ?p = "w_fresh w + 2"
  let ?m = "AList.update ?i ?p (entry_clients sv w)"
  have small: "cn_id c \<noteq> ?i" if "w_conns w p = Some c" for p c
    using heap(2) [OF that] assms(2) by (auto simp: conn_flags_def)
  have new: "?i \<notin> fst ` set (entry_clients sv w)" using m(3) small by force
  have fresh: "w_conns w ?p = None" using srv_invD(1) [OF assms(1)] by (simp add: fresh_ok_def)
  have ents: "w_entries ?w = w_entries (set_clients sv ?m w)" by (simp add: accepted_def set_clients_def Let_def)
  have clients: "entry_clients sv' ?w = (if sv' = sv then ?m else entry_clients sv' w)" for sv'
    using entry_clients_cong [OF ents] by simp
  have dist: "distinct (map fst ?m)" using entry_distinct [OF srv_invD(3) [OF assms(1)]] by (rule distinct_update)
  have "total_clients (set_clients sv ?m w) + length (entry_clients sv w) = total_clients w + length ?m" by (rule total_set [OF m(1)])
  then have "total_clients ?w = Suc (total_clients w)" using total_cong [OF ents] length_update_new [OF new] by simp
  then have count: "w_count ?w = of_nat (total_clients ?w)" using m(7) by simp
  have mem: "(i, q) \<in> set (entry_clients sv' ?w) \<longleftrightarrow>
      (\<exists>d. w_conns ?w q = Some d \<and> cn_id d = i \<and> cn_kind d = ClientOf sv' \<and> \<not> cn_disposed d)" for sv' i q
    unfolding clients using m(3) [of i q sv'] fresh by (auto simp: set_update_new [OF new])
  have rec: "q \<in> set (w_recycler ?w) \<longleftrightarrow> (\<exists>d. w_conns ?w q = Some d \<and> cn_disposed d)" for q
    using m(4) [of q] fresh by auto
  have ids: "q = r" if "w_conns ?w q = Some d" "w_conns ?w r = Some e" "cn_id d = cn_id e" for q r d e
    using that m(8) small [of q d] small [of r e] by (auto split: if_splits)
  have "w_entries ?w = AList.update sv ?m (w_entries w)" "w_safe ?w = []" "distinct (w_recycler ?w)"
    using m(5,6) by (simp_all add: accepted_def Let_def)
  then show ?thesis
    using update_entries [OF m(1,2) dist] by (intro maps_okI mem rec count) (auto intro: ids)
qed

lemma connection_ok:
  assumes "srv_inv w" "w_servers w sv = Some x" "server_IsReady x" "w_next_id w + 1 < TCP_CONNID_MAX" "sv_listener x = Listening"
  shows "\<exists>w'. on_connection sv 0 0 0 0 w = Some w' \<and> srv_inv w'"
proof -
  note id = srv_invD(5) [OF assms(1), unfolded id_ok_def TCP_CONNID_BASE_def TCP_CONNID_MAX_def]
  have id': "w_next_id w < w_next_id w + 1" "0 < w_next_id w + 1" "TCP_CONNID_BASE < w_next_id w + 1"
    using id by (unat_arith; simp add: TCP_CONNID_BASE_def)+
  have sv: "0 < sv" using fresh_bounds(4) [OF srv_invD(1) [OF assms(1)] assms(2)] by simp
  have impl: "sv_impl x" using heap_okD(6) [OF srv_invD(2) [OF assms(1)] assms(2,5)] .
  have fresh: "fresh_ok (accepted sv w)"
    using srv_invD(1) [OF assms(1)] fresh_bounds(4) [OF srv_invD(1) [OF assms(1)] assms(2)] by (auto simp: fresh_ok_def)
  have none: "w_conns w (w_fresh w + 2) = None" "w_fresh w + 2 \<notin> set (w_deleted w)"
    using srv_invD(1) [OF assms(1)] by (auto simp: fresh_ok_def)
  have "events_of (accepted sv w) q = events_of w q @ (if q = w_fresh w + 2 then [CONNECTION_CONNECTED] else [])" for q
    by (simp add: events_of_def)
  then have "history_ok (accepted sv w)"
    using srv_invD(4) [OF assms(1)] none unfolding history_ok_def by auto
  then have "srv_inv (accepted sv w)"
    using accepted_heap [OF assms(1) sv id'(1,3) assms(2) impl] accepted_maps [OF assms(1) id'(1)] fresh id'(3) assms(4)
    by (simp add: srv_inv_def id_ok_def)
  then show ?thesis using connection_eff [OF assms(1-4) id'(2) impl] by simp
qed

lemma srv_do_ok:
  assumes "srv_inv w" "srv_can w op"
  shows "\<exists>w'. srv_do op w = Some w' \<and> srv_inv w'"
proof (cases op)
  case SCreate
  then show ?thesis using create_inv [OF assms(1)] by simp
next
  case (SOpen sv)
  then obtain x where "w_servers w sv = Some x" using assms(2) by auto
  then show ?thesis
    using SOpen server_update_inv [OF assms(1), of sv x "\<lambda>x. x\<lparr>sv_impl := True, sv_listener := Listening\<rparr>"]
    by (auto simp: server_Open_def)
next
  case (SReady sv b)
  then obtain x where "w_servers w sv = Some x" using assms(2) by auto
  then show ?thesis using SReady server_update_inv [OF assms(1), of sv x "\<lambda>x. x\<lparr>sv_ready := b\<rparr>"] heap_okD(6) [OF srv_invD(2) [OF assms(1)]] by simp
next
  case (SConnection sv)
  then show ?thesis using assms connection_ok by (auto split: option.splits)
next
  case (SRead s nread)
  then show ?thesis using assms read_ok by (auto split: option.splits)
next
  case (SWrite s status io_pending)
  then show ?thesis using assms write_ok by (auto split: option.splits)
next
  case (SClosed s)
  then show ?thesis using assms closed_ok by (auto split: option.splits)
next
  case (SSend p pages)
  then show ?thesis using assms registered_iff [OF assms(1)] send_ok by auto
next
  case (SDisconnect p)
  then show ?thesis using assms registered_iff [OF assms(1)] Disconnect_ok by auto
next
  case (SDispose sv p)
  then show ?thesis using assms registered_iff [OF assms(1)] dispose_ok by auto
next
  case SRecycle
  then show ?thesis using assms recycle_ok by simp
qed

lemma new_world_inv: "srv_inv new_world"
proof -
  have "total_clients new_world = 0" "\<And>sv. entry_clients sv new_world = []"
    by (simp_all add: total_clients_def entry_clients_def new_world_def)
  then show ?thesis
    by (simp add: srv_inv_def fresh_ok_def heap_ok_def maps_ok_def history_ok_def id_ok_def events_of_def)
      (simp add: new_world_def TCP_CONNID_BASE_def TCP_CONNID_MAX_def)
qed

interpretation clients: step_system srv_can srv_do new_world srv_inv
  by unfold_locales (rule new_world_inv, rule srv_do_ok)

lemma srv_reachable_inv: "srv_reachable w \<Longrightarrow> srv_inv w"
  unfolding srv_reachable_def by (rule clients.reaches_invar)

end
