(* ===== verification/UvIsolated.thy ===== *)
theory UvIsolated
  imports UvClientProps
begin

text \<open>
  \<^verbatim>\<open>src/tcp/uv/UvIsolatedConn.cpp\<close>: a connection to another server, with a timer that connects it again
  after an error. \<open>CUvIsolatedConn2\<close> differs in the class of its packet only.
\<close>

section \<open>Operations\<close>

text \<open>\<open>CreateTcpIsolated\<close> of the factory.\<close>

definition CreateTcpIsolated :: "world \<Rightarrow> (nat \<times> world) option" where
  "CreateTcpIsolated w = do {
     let (uConnId, w1) = GetNextConnectionId w;
     let (p, w2) = alloc_conn (new_isolated uConnId) w1;
     w3 \<leftarrow> OnAddIsolated p w2;
     Some (p, w3)
   }"

definition is_ip_char :: "char \<Rightarrow> bool" where
  "is_ip_char ch \<longleftrightarrow> (48 \<le> (of_char ch :: nat) \<and> (of_char ch :: nat) \<le> 57) \<or> ch = CHR ''.''"

fun is_ip_address :: "string \<Rightarrow> bool" where
  "is_ip_address [] = True"
| "is_ip_address (ch # ip) = (if \<not> is_ip_char ch then False else is_ip_address ip)"

text \<open>
  \<open>Connect\<close>; \<open>r_addr\<close>, \<open>r_init\<close> and \<open>r_connect\<close> are the results of \<open>uv_ip4_addr\<close>, \<open>uv_tcp_init\<close> and \<open>uv_tcp_connect\<close>.
  Each call makes a new reconnect timer.
\<close>

definition Connect :: "string \<Rightarrow> int \<Rightarrow> int \<Rightarrow> int \<Rightarrow> nat \<Rightarrow> world \<Rightarrow> (int \<times> world) option" where
  "Connect sIp_or_Hostname r_addr r_init r_connect p w = do {
     c \<leftarrow> w_conns w p;
     if \<not> (\<not> cn_connected c \<and> \<not> cn_disposed c \<and> cn_flushed c \<and> \<not> cn_running c) then None
     else if \<not> is_ip_address sIp_or_Hostname then Some (- 1, w)
     else do {
       w1 \<leftarrow> upd_conn p (\<lambda>c. c\<lparr>cn_packet := True, cn_timer := Some False\<rparr>) w;
       (r, w2) \<leftarrow> uv_connect_w r_addr r_init r_connect w1;
       w3 \<leftarrow> upd_conn p (\<lambda>c. c\<lparr>cn_clnt := r\<rparr>) w2;
       (case r of
          None \<Rightarrow> Some (- 2, w3)
        | Some h \<Rightarrow> do {
            w4 \<leftarrow> upd_clnt h (\<lambda>cl. cl\<lparr>ch_conn := Some p\<rparr>) w3;
            w5 \<leftarrow> upd_conn p (\<lambda>c. c\<lparr>cn_running := True, cn_flushed := False\<rparr>) w4;
            Some (0, w5)
          })
     }
   }"

text \<open>\<open>Reconnect\<close> does not look at the result of \<open>uv_real_connect_w\<close>, which needs a client handle.\<close>

definition Reconnect :: "int \<Rightarrow> int \<Rightarrow> nat \<Rightarrow> world \<Rightarrow> world option" where
  "Reconnect r_init r_connect p w = do {
     w1 \<leftarrow> upd_conn p (\<lambda>c. c\<lparr>cn_delay := False\<rparr>) w;
     c \<leftarrow> w_conns w1 p;
     if cn_disposed c then None
     else do {
       w2 \<leftarrow> upd_conn p (\<lambda>c. c\<lparr>cn_running := True\<rparr>) w1;
       if cn_flushed c then do {
         w3 \<leftarrow> upd_conn p (\<lambda>c. c\<lparr>cn_flushed := False\<rparr>) w2;
         h \<leftarrow> cn_clnt c;
         (r, w4) \<leftarrow> uv_real_connect_w r_init r_connect h w3;
         Some w4
       }
       else Some w2
     }
   }"

text \<open>\<open>DelayReconnect\<close>: the length of the delay does not matter here. Starting a timer needs the timer.\<close>

definition DelayReconnect :: "nat \<Rightarrow> world \<Rightarrow> world option" where
  "DelayReconnect p w = do {
     c \<leftarrow> w_conns w p;
     if \<not> cn_delay c \<and> \<not> cn_disposed c then
       if cn_timer c = None then None
       else upd_conn p (\<lambda>c. c\<lparr>cn_delay := True, cn_timer := Some True\<rparr>) w
     else Some w
   }"

definition Reopen :: "nat \<Rightarrow> world \<Rightarrow> world option" where
  "Reopen p w = do {
     c \<leftarrow> w_conns w p;
     if \<not> cn_disposed c then do {
       w1 \<leftarrow> (if cn_connected c then Disconnect p w else Some w);
       DelayReconnect p w1
     }
     else Some w
   }"

definition OnIsolatedError :: "nat \<Rightarrow> world \<Rightarrow> world option" where
  "OnIsolatedError p w = do {
     c \<leftarrow> w_conns w p;
     if \<not> cn_packet c then None
     else do {
       w1 \<leftarrow> OnDisconnect p w;
       c1 \<leftarrow> w_conns w1 p;
       if cn_running c1 then DelayReconnect p w1 else Some w1
     }
   }"

section \<open>Callbacks\<close>

text \<open>What the callbacks do after an error on the handle \<open>h\<close>.\<close>

definition flush_and_error :: "nat \<Rightarrow> client_handle \<Rightarrow> world \<Rightarrow> world option" where
  "flush_and_error h cl w =
     (case ch_conn cl of
        Some p \<Rightarrow> do { w1 \<leftarrow> FlushStream p w; OnIsolatedError p w1 }
      | None \<Rightarrow> drop_handle h w)"

definition on_isolated_recv :: "nat \<Rightarrow> read_result \<Rightarrow> world \<Rightarrow> world option" where
  "on_isolated_recv s nread w = do {
     u \<leftarrow> w_socks w s;
     h \<leftarrow> us_data u;
     cl \<leftarrow> w_clnts w h;
     (case nread of
        Read_eof \<Rightarrow> do { w1 \<leftarrow> commit_bb h w; flush_and_error h cl w1 }
      | Read_error \<Rightarrow> Some w
      | Read_none \<Rightarrow> commit_bb h w
      | Read_data n \<Rightarrow> do {
          w1 \<leftarrow> commit_bb h w;
          (case ch_conn cl of Some p \<Rightarrow> OnRawData p w1 | None \<Rightarrow> Some w1)
        })
   }"

definition on_isolated_send :: "nat \<Rightarrow> int \<Rightarrow> bool \<Rightarrow> world \<Rightarrow> world option" where
  "on_isolated_send s status io_pending w = do {
     w0 \<leftarrow> upd_sock s (\<lambda>u. u\<lparr>us_writes := us_writes u - 1\<rparr>) w;
     if status \<noteq> 0 \<and> \<not> io_pending then do {
       u \<leftarrow> w_socks w0 s;
       h \<leftarrow> us_data u;
       cl \<leftarrow> w_clnts w0 h;
       flush_and_error h cl w0
     }
     else Some w0
   }"

text \<open>
  \<open>on_isolated_connect_error\<close>, the callback of a connect request on the socket \<open>s\<close>; the request carries the
  client handle, as the socket does. \<open>r_nodelay\<close> and \<open>r_read\<close> are the results of \<open>uv_tcp_nodelay\<close> and \<open>uv_read_start\<close>.
\<close>

definition on_isolated_connect_error :: "nat \<Rightarrow> int \<Rightarrow> int \<Rightarrow> int \<Rightarrow> world \<Rightarrow> world option" where
  "on_isolated_connect_error s status r_nodelay r_read w = do {
     w0 \<leftarrow> upd_sock s (\<lambda>u. u\<lparr>us_connect := False\<rparr>) w;
     u \<leftarrow> w_socks w0 s;
     h \<leftarrow> us_data u;
     cl \<leftarrow> w_clnts w0 h;
     if status = 0 then do {
       sockimpl \<leftarrow> ch_sock cl;
       if r_nodelay \<noteq> 0 \<or> r_read \<noteq> 0 then drop_handle h w0
       else do {
         w1 \<leftarrow> upd_sock sockimpl (\<lambda>u. u\<lparr>us_reading := True\<rparr>) w0;
         p \<leftarrow> ch_conn cl;
         OnConnect p w1
       }
     }
     else flush_and_error h cl w0
   }"

text \<open>The timer does not repeat.\<close>

definition client_reconnect_timer_cb :: "int \<Rightarrow> int \<Rightarrow> nat \<Rightarrow> world \<Rightarrow> world option" where
  "client_reconnect_timer_cb r_init r_connect p w = do {
     w1 \<leftarrow> upd_conn p (\<lambda>c. c\<lparr>cn_timer := Some False\<rparr>) w;
     Reconnect r_init r_connect p w1
   }"

section \<open>Steps\<close>

datatype iso_op =
    ICreate
  | IConnect nat string int int
  | IConnected nat int
  | IRead nat read_result
  | ISent nat int bool
  | IClosed nat
  | ITimer nat
  | ISend nat "(int \<times> nat) list"
  | IReopen nat
  | IDisconnect nat
  | IDispose nat

fun iso_do :: "iso_op \<Rightarrow> world \<Rightarrow> world option" where
  "iso_do ICreate w = map_option snd (CreateTcpIsolated w)"
| "iso_do (IConnect p ip r_addr r_init) w = map_option snd (Connect ip r_addr r_init 0 p w)"
| "iso_do (IConnected s status) w = on_isolated_connect_error s status 0 0 w"
| "iso_do (IRead s nread) w = on_isolated_recv s nread w"
| "iso_do (ISent s status io_pending) w = on_isolated_send s status io_pending w"
| "iso_do (IClosed s) w = run_close_cb s w"
| "iso_do (ITimer p) w = client_reconnect_timer_cb 0 0 p w"
| "iso_do (ISend p pages) w = PostPacket pages p w"
| "iso_do (IReopen p) w = Reopen p w"
| "iso_do (IDisconnect p) w = Disconnect p w"
| "iso_do (IDispose p) w = ReleaseConnection p w"

text \<open>The sockets of a connection: those whose data is its client handle.\<close>

definition sock_of :: "world \<Rightarrow> conn \<Rightarrow> usock \<Rightarrow> bool" where
  "sock_of w c u \<longleftrightarrow> us_data u \<noteq> None \<and> us_data u = cn_clnt c"

definition no_requests :: "world \<Rightarrow> conn \<Rightarrow> bool" where
  "no_requests w c \<longleftrightarrow> (\<forall>s u. w_socks w s = Some u \<longrightarrow> sock_of w c u \<longrightarrow> us_writes u = 0 \<and> \<not> us_connect u)"

definition no_closing :: "world \<Rightarrow> conn \<Rightarrow> bool" where
  "no_closing w c \<longleftrightarrow> (\<forall>s u. w_socks w s = Some u \<longrightarrow> sock_of w c u \<longrightarrow> us_close_cb u = None)"

text \<open>
  The steps that may come next. The callbacks follow the documentation of libuv, as for the clients
  of a server; a pending connect request is called back once, with an error when the socket is
  closing. A closed socket is gone before the reconnect timer fires. The application connects a
  connection that is not running, sends on connections, opens them again once they were connected, and
  disconnects them only while no request is pending. No call of libuv fails at once, up to the
  parsing of the address and \<open>uv_tcp_init\<close> in \<open>Connect\<close>.
\<close>

fun iso_can :: "world \<Rightarrow> iso_op \<Rightarrow> bool" where
  "iso_can w ICreate = (w_next_id w + 1 < TCP_CONNID_MAX)"
| "iso_can w (IConnect p ip r_addr r_init) = (case w_conns w p of None \<Rightarrow> False | Some c \<Rightarrow> \<not> cn_running c \<and> \<not> cn_disposed c)"
| "iso_can w (IConnected s status) =
     (case w_socks w s of None \<Rightarrow> False | Some u \<Rightarrow> us_connect u \<and> (us_close_cb u \<noteq> None \<longrightarrow> status \<noteq> 0))"
| "iso_can w (IRead s nread) =
     (case w_socks w s of None \<Rightarrow> False | Some u \<Rightarrow> us_close_cb u = None \<and> us_reading u)"
| "iso_can w (ISent s status io_pending) =
     (case w_socks w s of None \<Rightarrow> False | Some u \<Rightarrow> 0 < us_writes u \<and> (us_close_cb u \<noteq> None \<longrightarrow> status \<noteq> 0))"
| "iso_can w (IClosed s) =
     (case w_socks w s of None \<Rightarrow> False | Some u \<Rightarrow> us_close_cb u \<noteq> None \<and> us_writes u = 0 \<and> \<not> us_connect u)"
| "iso_can w (ITimer p) = (case w_conns w p of None \<Rightarrow> False | Some c \<Rightarrow> cn_timer c = Some True \<and> no_closing w c)"
| "iso_can w (ISend p pages) = (w_conns w p \<noteq> None \<and> (\<forall>(r, len) \<in> set pages. 0 \<le> r))"
| "iso_can w (IReopen p) =
     (case w_conns w p of None \<Rightarrow> False | Some c \<Rightarrow> cn_clnt c \<noteq> None \<and> (cn_connected c \<longrightarrow> no_requests w c))"
| "iso_can w (IDisconnect p) = (case w_conns w p of None \<Rightarrow> False | Some c \<Rightarrow> no_requests w c)"
| "iso_can w (IDispose p) = (case w_conns w p of None \<Rightarrow> False | Some c \<Rightarrow> \<not> cn_running c \<and> no_requests w c)"

definition iso_reachable :: "world \<Rightarrow> bool" where
  "iso_reachable w \<longleftrightarrow> reaches iso_can iso_do new_world w"

lemma iso_start: "iso_reachable new_world"
  by (simp add: iso_reachable_def reaches_start)

lemma iso_step: "iso_reachable w \<Longrightarrow> iso_can w op \<Longrightarrow> iso_do op w = Some w' \<Longrightarrow> iso_reachable w'"
  unfolding iso_reachable_def by (rule reaches_step)

section \<open>The invariant\<close>

text \<open>
  The phases of a connection: disposed of; not yet connected; waiting for its reconnect timer; with
  an open socket, connecting or connected.
\<close>

definition iso_idle :: "conn \<Rightarrow> bool" where
  "iso_idle c \<longleftrightarrow> cn_clnt c = None \<and> \<not> cn_running c \<and> \<not> cn_connected c \<and> cn_flushed c \<and> \<not> cn_delay c \<and> cn_timer c \<noteq> Some True"

definition iso_gone :: "world \<Rightarrow> nat \<Rightarrow> conn \<Rightarrow> bool" where
  "iso_gone w p c \<longleftrightarrow> \<not> cn_connected c \<and> cn_flushed c \<and> cn_timer c = None \<and> \<not> cn_packet c \<and>
     (\<forall>h. cn_clnt c = Some h \<longrightarrow> (\<exists>cl. w_clnts w h = Some cl \<and> ch_conn cl = Some p \<and> ch_bb cl \<and> ch_sock cl = None)) \<and> no_requests w c"

definition iso_up :: "world \<Rightarrow> nat \<Rightarrow> conn \<Rightarrow> bool" where
  "iso_up w p c \<longleftrightarrow> cn_running c \<and> cn_packet c \<and> cn_timer c = Some (cn_delay c) \<and>
     (\<exists>h cl. cn_clnt c = Some h \<and> w_clnts w h = Some cl \<and> ch_conn cl = Some p \<and> ch_bb cl \<and>
        (if cn_flushed c then ch_sock cl = None \<and> \<not> cn_connected c \<and> cn_delay c
         else \<exists>s u. ch_sock cl = Some s \<and> w_socks w s = Some u \<and> us_close_cb u = None \<and> us_data u = Some h \<and>
           us_connect u = (\<not> cn_connected c) \<and> us_reading u = cn_connected c))"

definition iso_conn :: "world \<Rightarrow> nat \<Rightarrow> conn \<Rightarrow> bool" where
  "iso_conn w p c \<longleftrightarrow> cn_kind c = Isolated \<and> 0 < cn_id c \<and>
     (if cn_disposed c then iso_gone w p c else if cn_clnt c = None then iso_idle c else iso_up w p c)"

definition iso_sock :: "world \<Rightarrow> nat \<Rightarrow> usock \<Rightarrow> bool" where
  "iso_sock w s u \<longleftrightarrow>
     (\<exists>h cl p c. us_data u = Some h \<and> w_clnts w h = Some cl \<and> ch_conn cl = Some p \<and> w_conns w p = Some c \<and> cn_clnt c = Some h \<and>
        (if us_close_cb u = None then ch_sock cl = Some s else us_close_cb u = Some On_sock_close \<and> cn_flushed c))"

definition iso_events :: "world \<Rightarrow> nat \<Rightarrow> bool \<Rightarrow> bool" where
  "iso_events w p b \<longleftrightarrow> (\<exists>n. events_of w p =
     concat (replicate n [CONNECTION_CONNECTED, CONNECTION_DISCONNECTED]) @ (if b then [CONNECTION_CONNECTED] else []))"

definition iso_inv :: "world \<Rightarrow> bool" where
  "iso_inv w \<longleftrightarrow> fresh_ok w \<and> id_ok w \<and>
     (\<forall>p c. w_conns w p = Some c \<longrightarrow> iso_conn w p c \<and> iso_events w p (cn_connected c)) \<and>
     (\<forall>s u. w_socks w s = Some u \<longrightarrow> iso_sock w s u) \<and>
     (\<forall>h cl. w_clnts w h = Some cl \<longrightarrow> (\<exists>p c. ch_conn cl = Some p \<and> w_conns w p = Some c \<and> cn_clnt c = Some h))"

lemma iso_invD:
  assumes "iso_inv w"
  shows "fresh_ok w" "id_ok w" "w_conns w p = Some c \<Longrightarrow> iso_conn w p c" "w_conns w p = Some c \<Longrightarrow> iso_events w p (cn_connected c)"
    "w_socks w s = Some u \<Longrightarrow> iso_sock w s u"
    "w_clnts w h = Some cl \<Longrightarrow> \<exists>p c. ch_conn cl = Some p \<and> w_conns w p = Some c \<and> cn_clnt c = Some h"
  using assms by (simp_all add: iso_inv_def)

lemma iso_handle:
  assumes "iso_conn w p c" "cn_clnt c = Some h"
  obtains cl where "w_clnts w h = Some cl" "ch_conn cl = Some p" "ch_bb cl"
  using assms by (auto simp: iso_conn_def iso_gone_def iso_up_def split: if_splits)

text \<open>A change of one connection, its handle and the sockets of this handle; the others do not see it.\<close>

lemma iso_conn_cong:
  assumes "iso_conn w q d" "\<And>h. cn_clnt d = Some h \<Longrightarrow> w_clnts w' h = w_clnts w h"
    "\<And>s u. us_data u \<noteq> None \<Longrightarrow> us_data u = cn_clnt d \<Longrightarrow> w_socks w' s = Some u \<longleftrightarrow> w_socks w s = Some u"
  shows "iso_conn w' q d"
proof -
  have "no_requests w' d = no_requests w d" unfolding no_requests_def sock_of_def using assms(3) by blast
  then have gone: "iso_gone w' q d = iso_gone w q d" unfolding iso_gone_def using assms(2) by simp
  have up: "iso_up w' q d" if iso: "iso_up w q d"
  proof (cases "cn_flushed d")
    case True
    then show ?thesis using iso assms(2) unfolding iso_up_def by auto
  next
    case False
    then obtain h cl s u where x: "cn_clnt d = Some h" "w_clnts w h = Some cl" "ch_conn cl = Some q" "ch_bb cl" "ch_sock cl = Some s"
      "w_socks w s = Some u" "us_close_cb u = None" "us_data u = Some h" "us_connect u = (\<not> cn_connected d)" "us_reading u = cn_connected d"
      using iso unfolding iso_up_def by auto
    then have "w_socks w' s = Some u" "w_clnts w' h = Some cl" using assms(2,3) by simp_all
    then show ?thesis using iso x False unfolding iso_up_def by auto
  qed
  show ?thesis using assms(1) gone up unfolding iso_conn_def by auto
qed

lemma iso_frame:
  assumes "iso_inv w" "fresh_ok w'" "id_ok w'"
    and conns: "w_conns w' p = Some c" "\<And>q. q \<noteq> p \<Longrightarrow> w_conns w' q = w_conns w q"
      "\<And>b. w_conns w p = Some b \<Longrightarrow> cn_clnt b = None \<or> cn_clnt b = cn_clnt c"
    and clnts: "\<And>g. cn_clnt c \<noteq> Some g \<Longrightarrow> w_clnts w' g = w_clnts w g"
      "\<And>h. cn_clnt c = Some h \<Longrightarrow> w_clnts w h = None \<or> (\<exists>b. w_conns w p = Some b \<and> cn_clnt b = Some h)"
    and socks: "\<And>s u. us_data u \<noteq> cn_clnt c \<Longrightarrow> w_socks w' s = Some u \<longleftrightarrow> w_socks w s = Some u"
      "\<And>s u. w_socks w' s = Some u \<Longrightarrow> us_data u = cn_clnt c \<Longrightarrow> iso_sock w' s u"
    and new: "iso_conn w' p c" "iso_events w' p (cn_connected c)" "\<And>q. q \<noteq> p \<Longrightarrow> events_of w' q = events_of w q"
  shows "iso_inv w'"
proof -
  have other: "cn_clnt d \<noteq> cn_clnt c" if q: "w_conns w q = Some d" "q \<noteq> p" "cn_clnt d \<noteq> None" for q d
  proof
    assume same: "cn_clnt d = cn_clnt c"
    then obtain h where h: "cn_clnt d = Some h" "cn_clnt c = Some h" using q(3) by auto
    obtain cl where cl: "w_clnts w h = Some cl" "ch_conn cl = Some q" using iso_handle [OF iso_invD(3) [OF assms(1) q(1)] h(1)] by metis
    then obtain b where "w_conns w p = Some b" "cn_clnt b = Some h" using clnts(2) h(2) by fastforce
    then show False using iso_handle [OF iso_invD(3) [OF assms(1)], of p b h] cl q(2) by (metis option.inject)
  qed
  have conn: "iso_conn w' q d \<and> iso_events w' q (cn_connected d)" if q: "w_conns w' q = Some d" for q d
  proof (cases "q = p")
    case False
    then have d: "w_conns w q = Some d" using q conns(2) by simp
    have "iso_conn w' q d"
    proof (rule iso_conn_cong [OF iso_invD(3) [OF assms(1) d]])
      show "w_clnts w' h = w_clnts w h" if "cn_clnt d = Some h" for h using that other [OF d False] clnts(1) by simp
      show "w_socks w' s = Some u \<longleftrightarrow> w_socks w s = Some u" if "us_data u \<noteq> None" "us_data u = cn_clnt d" for s u
        using that other [OF d False] socks(1) by simp
    qed
    then show ?thesis using iso_invD(4) [OF assms(1) d] new(3) [OF False] by (simp add: iso_events_def)
  qed (use q conns(1) new in simp)
  have sock: "iso_sock w' s u" if s: "w_socks w' s = Some u" for s u
  proof (cases "us_data u = cn_clnt c")
    case False
    then have "iso_sock w s u" using s socks(1) iso_invD(5) [OF assms(1)] by simp
    then obtain h cl q d where x: "us_data u = Some h" "w_clnts w h = Some cl" "ch_conn cl = Some q" "w_conns w q = Some d" "cn_clnt d = Some h"
      "if us_close_cb u = None then ch_sock cl = Some s else us_close_cb u = Some On_sock_close \<and> cn_flushed d"
      unfolding iso_sock_def by blast
    then have "q \<noteq> p" using conns(3) False by auto
    then show ?thesis unfolding iso_sock_def using x conns(2) clnts(1) [of h] False
      by (intro exI [of _ h] exI [of _ cl] exI [of _ q] exI [of _ d]) simp
  qed (use s socks(2) in simp)
  have clnt: "\<exists>q d. ch_conn cl = Some q \<and> w_conns w' q = Some d \<and> cn_clnt d = Some h" if h: "w_clnts w' h = Some cl" for h cl
  proof (cases "cn_clnt c = Some h")
    case True
    then show ?thesis using iso_handle [OF new(1) True] h conns(1) by auto
  next
    case False
    then obtain q d where "ch_conn cl = Some q" "w_conns w q = Some d" "cn_clnt d = Some h"
      using h clnts(1) iso_invD(6) [OF assms(1)] by fastforce
    moreover from this have "q \<noteq> p" using conns(3) False by auto
    ultimately show ?thesis using conns(2) by auto
  qed
  show ?thesis unfolding iso_inv_def using assms(2,3) conn sock clnt by blast
qed

end
