(* ===== verification/UvServerProps.thy ===== *)
theory UvServerProps
  imports UvClientProps
begin

text \<open>
  What the invariant of the reachable worlds says of the connection manager and of the life of a
  client connection, and the places where the code does not keep it: the refusal of a client, a
  failing write, and the closing of a server.
\<close>

section \<open>Consequences of the invariant\<close>

lemma live_clients:
  assumes "srv_inv w"
  shows "total_clients w = card {p. registered w p}"
proof -
  note m = maps_okD [OF srv_invD(3) [OF assms]]
  let ?ps = "concat (map (\<lambda>e. map snd (snd e)) (w_entries w))"
  have entry: "m = entry_clients sv w" if "(sv, m) \<in> set (w_entries w)" for sv m
    using that m(1) by (simp add: entry_clients_def)
  have uniq: "i = j \<and> sv = sv'" if "(i, p) \<in> set (entry_clients sv w)" "(j, p) \<in> set (entry_clients sv' w)" for i j p sv sv'
    using that m(3) by auto
  have inner: "distinct (map snd m)" if "(sv, m) \<in> set (w_entries w)" for sv m
  proof -
    have "inj_on snd (set m)" using uniq entry [OF that] by (auto simp: inj_on_def)
    moreover have "distinct m" using m(2) [OF that] by (simp add: distinct_map)
    ultimately show ?thesis by (simp add: distinct_map)
  qed
  have disj: "set (map snd (snd e)) \<inter> set (map snd (snd e')) = {}"
    if "e \<in> set (w_entries w)" "e' \<in> set (w_entries w)" "fst e \<noteq> fst e'" for e e'
    using that entry [of "fst e" "snd e"] entry [of "fst e'" "snd e'"] uniq by auto
  have "distinct (concat (map (\<lambda>e. map snd (snd e)) es))"
    if "set es \<subseteq> set (w_entries w)" "distinct (map fst es)" for es
    using that
  proof (induction es)
    case (Cons e es)
    have "set (map snd (snd e)) \<inter> set (map snd (snd e')) = {}" if "e' \<in> set es" for e'
      using Cons.prems that by (intro disj) (auto simp: image_iff)
    then show ?case using Cons inner [of "fst e" "snd e"] by auto
  qed simp
  then have "distinct ?ps" using m(1) by blast
  moreover have "set ?ps = {p. registered w p}" by (force simp: registered_def)
  moreover have "length ?ps = total_clients w" by (simp add: length_concat total_clients_def comp_def)
  ultimately show ?thesis using distinct_card by metis
qed

lemma lookup_entries_iff:
  assumes "\<And>sv m. (sv, m) \<in> set es \<Longrightarrow> distinct (map fst m)"
    and "\<And>sv m sv' m' p q. (sv, m) \<in> set es \<Longrightarrow> (sv', m') \<in> set es \<Longrightarrow> (i, p) \<in> set m \<Longrightarrow> (i, q) \<in> set m' \<Longrightarrow> p = q"
  shows "lookup_entries i es = Some p \<longleftrightarrow> (\<exists>sv m. (sv, m) \<in> set es \<and> (i, p) \<in> set m)"
  using assms
proof (induction es)
  case (Cons e es)
  obtain sv m where e: "e = (sv, m)" by (cases e)
  have IH: "lookup_entries i es = Some p \<longleftrightarrow> (\<exists>sv m. (sv, m) \<in> set es \<and> (i, p) \<in> set m)"
  proof (rule Cons.IH)
    show "distinct (map fst m)" if "(sv, m) \<in> set es" for sv m using that Cons.prems(1) by auto
    show "p = q" if "(sv, m) \<in> set es" "(sv', m') \<in> set es" "(i, p) \<in> set m" "(i, q) \<in> set m'" for sv m sv' m' p q
      using that Cons.prems(2) by (meson list.set_intros(2))
  qed
  show ?case
  proof (cases "map_of m i")
    case None
    then have "(i, p) \<notin> set m" by (auto simp: map_of_eq_None_iff image_iff)
    then show ?thesis using IH None e by auto
  next
    case (Some q)
    then have "(i, q) \<in> set m" by (rule map_of_SomeD)
    then show ?thesis using Some e Cons.prems(2) [of sv m] by (auto; blast)
  qed
qed simp

lemma lookup_client:
  assumes "srv_inv w"
  shows "LookupClientByConnId i w = Some p \<longleftrightarrow> (\<exists>c. w_conns w p = Some c \<and> cn_id c = i \<and> \<not> cn_disposed c)"
proof -
  note m = maps_okD [OF srv_invD(3) [OF assms]]
  have entry: "m = entry_clients sv w" if "(sv, m) \<in> set (w_entries w)" for sv m
    using that m(1) by (simp add: entry_clients_def)
  have same: "p = q" if "(sv, m) \<in> set (w_entries w)" "(sv', m') \<in> set (w_entries w)" "(i, p) \<in> set m" "(i, q) \<in> set m'" for sv m sv' m' p q
    using that entry m(3) m(8) by metis
  have "(\<exists>sv m. (sv, m) \<in> set (w_entries w) \<and> (i, p) \<in> set m) \<longleftrightarrow> (\<exists>c. w_conns w p = Some c \<and> cn_id c = i \<and> \<not> cn_disposed c)"
  proof
    assume "\<exists>sv m. (sv, m) \<in> set (w_entries w) \<and> (i, p) \<in> set m"
    then show "\<exists>c. w_conns w p = Some c \<and> cn_id c = i \<and> \<not> cn_disposed c" using entry m(3) by blast
  next
    assume "\<exists>c. w_conns w p = Some c \<and> cn_id c = i \<and> \<not> cn_disposed c"
    then obtain c where c: "w_conns w p = Some c" "cn_id c = i" "\<not> cn_disposed c" by blast
    obtain sv where "cn_kind c = ClientOf sv" using heap_okD(2) [OF srv_invD(2) [OF assms] c(1)] by (auto simp: conn_flags_def)
    then have "(i, p) \<in> set (entry_clients sv w)" using c m(3) by blast
    then show "\<exists>sv m. (sv, m) \<in> set (w_entries w) \<and> (i, p) \<in> set m"
      by (cases "map_of (w_entries w) sv") (auto simp: entry_clients_def dest: map_of_SomeD)
  qed
  moreover have "LookupClientByConnId i w = Some p \<longleftrightarrow> (\<exists>sv m. (sv, m) \<in> set (w_entries w) \<and> (i, p) \<in> set m)"
    unfolding LookupClientByConnId_def by (rule lookup_entries_iff) (use m(2) same in blast)+
  ultimately show ?thesis by blast
qed

text \<open>A server that is open and ready, and its first client.\<close>

definition ready_server :: server where
  "ready_server = \<lparr>sv_closed = False, sv_ready = True, sv_impl = True, sv_listener = Listening, sv_streams = []\<rparr>"

definition ready_world :: world where
  "ready_world = new_world\<lparr>w_fresh := 2, w_servers := [1 \<mapsto> ready_server]\<rparr>"

lemma ready_reachable: "srv_reachable ready_world"
proof -
  let ?w1 = "snd (CreateTcpServer new_world)"
  let ?x = "\<lparr>sv_closed = False, sv_ready = False, sv_impl = True, sv_listener = Listening, sv_streams = []\<rparr>"
  let ?w2 = "?w1\<lparr>w_servers := [1 \<mapsto> ?x]\<rparr>"
  have "srv_reachable ?w1" by (rule srv_step [OF srv_start, of SCreate]) simp_all
  then have "srv_reachable ?w2"
    by (rule srv_step [of _ "SOpen 1"]) (simp_all add: CreateTcpServer_def new_world_def server_Open_def upd_server_def)
  then show ?thesis
    by (rule srv_step [of _ "SReady 1 True"])
      (simp_all add: CreateTcpServer_def new_world_def upd_server_def ready_world_def ready_server_def)
qed

lemma busy_reachable: "srv_reachable (accepted 1 ready_world)" "registered (accepted 1 ready_world) 4"
proof -
  have inv: "srv_inv ready_world" using ready_reachable by (rule srv_reachable_inv)
  have x: "w_servers ready_world 1 = Some ready_server" "server_IsReady ready_server"
    by (simp_all add: ready_world_def ready_server_def server_IsReady_def)
  have i: "w_next_id ready_world + 1 < TCP_CONNID_MAX" "0 < w_next_id ready_world + 1"
    by (simp_all add: ready_world_def new_world_def TCP_CONNID_BASE_def TCP_CONNID_MAX_def)
  have impl: "sv_impl ready_server" by (simp add: ready_server_def)
  have listening: "sv_listener ready_server = Listening" by (simp add: ready_server_def)
  show r: "srv_reachable (accepted 1 ready_world)"
    by (rule srv_step [OF ready_reachable, of "SConnection 1"]) (use x i listening connection_eff [OF inv x i impl] in simp_all)
  show "registered (accepted 1 ready_world) 4"
    unfolding registered_iff [OF srv_reachable_inv [OF r]] by (simp add: ready_world_def)
qed





text \<open>
  C22. The end of a connection: each is deleted once, after it was connected and then disconnected,
  in this order and each once; and when no socket is closing, the recycler deletes every removed
  connection with its handle, so that what is left are the registered clients, each with the one
  handle that belongs to it.
\<close>

theorem clients_deleted_once:
  assumes "srv_reachable w" "\<forall>s u. w_socks w s = Some u \<longrightarrow> us_close_cb u = None"
  shows "distinct (w_deleted w) \<and>
    (\<forall>p \<in> set (w_deleted w). w_conns w p = None \<and> events_of w p = [CONNECTION_CONNECTED, CONNECTION_DISCONNECTED]) \<and>
    (\<exists>w'. Recycle w = Some (False, w') \<and> dom (w_conns w') = {p. registered w p} \<and>
      dom (w_clnts w') = {h. \<exists>p c. registered w p \<and> w_conns w p = Some c \<and> cn_clnt c = Some h})"
proof -
  have inv: "srv_inv w" by (rule srv_reachable_inv [OF assms(1)])
  note m = maps_okD [OF srv_invD(3) [OF inv]] and heap = heap_okD [OF srv_invD(2) [OF inv]]
  have hist: "history_ok w" by (rule srv_invD(4) [OF inv])
  define P where "P = set (w_recycler w)"
  let ?w = "w\<lparr>w_recycler := [], w_clnts := w_clnts w |` (- handles w P), w_conns := w_conns w |` (- P),
    w_deleted := w_deleted w @ w_recycler w\<rparr>"
  have P: "p \<in> P \<longleftrightarrow> (\<exists>c. w_conns w p = Some c \<and> cn_disposed c)" for p using m(4) by (simp add: P_def)
  have conns: "dom (w_conns ?w) = {p. registered w p}"
    using P registered_iff [OF inv] by (auto simp: restrict_map_def split: if_splits)
  have "w_clnts ?w h \<noteq> None \<longleftrightarrow> (\<exists>p c. registered w p \<and> w_conns w p = Some c \<and> cn_clnt c = Some h)" for h
  proof
    assume "w_clnts ?w h \<noteq> None"
    then obtain cl where h: "w_clnts w h = Some cl" "h \<notin> handles w P" by (auto simp: restrict_map_def split: if_splits)
    obtain p c where p: "w_conns w p = Some c" "cn_clnt c = Some h" using heap(4) [OF h(1)] by blast
    then have "p \<notin> P" using h(2) by (auto simp: handles_def)
    then show "\<exists>p c. registered w p \<and> w_conns w p = Some c \<and> cn_clnt c = Some h"
      using p P registered_iff [OF inv] by blast
  next
    assume "\<exists>p c. registered w p \<and> w_conns w p = Some c \<and> cn_clnt c = Some h"
    then obtain p c where p: "w_conns w p = Some c" "\<not> cn_disposed c" "cn_clnt c = Some h"
      using registered_iff [OF inv] by auto
    then obtain cl where cl: "w_clnts w h = Some cl" "ch_conn cl = Some p"
      using heap(1) [OF p(1)] by (auto simp: conn_link_def)
    have "h \<notin> handles w P"
    proof
      assume "h \<in> handles w P"
      then obtain q d where q: "q \<in> P" "w_conns w q = Some d" "cn_clnt d = Some h" by (auto simp: handles_def)
      then have "q = p" using heap(1) [OF q(2)] cl by (auto simp: conn_link_def)
      then show False using q P p by auto
    qed
    then show "w_clnts ?w h \<noteq> None" using cl by simp
  qed
  then have "dom (w_clnts ?w) = {h. \<exists>p c. registered w p \<and> w_conns w p = Some c \<and> cn_clnt c = Some h}" by blast
  moreover have "Recycle w = Some (False, ?w)" using Recycle_eff [OF inv] by (simp add: P_def)
  ultimately show ?thesis using hist conns by (auto simp: history_ok_def)
qed

lemma clients_deleted_once_witness:
  "srv_reachable (accepted 1 ready_world) \<and>
   (\<exists>w'. Recycle (accepted 1 ready_world) = Some (False, w') \<and> 4 \<in> dom (w_conns w'))"
proof -
  have "\<forall>s u. w_socks (accepted 1 ready_world) s = Some u \<longrightarrow> us_close_cb u = None"
    by (auto simp: ready_world_def new_world_def split: if_splits)
  from clients_deleted_once [OF busy_reachable(1) this] show ?thesis using busy_reachable by blast
qed

section \<open>Error paths\<close>

lemma Recycle_keeps:
  assumes "Recycle w = Some (b, w')" "p \<in> set (w_recycler w)" "w_conns w p = Some c" "cn_connected c" "p \<notin> set (w_safe w)"
  shows "b \<and> p \<in> set (w_recycler w') \<and> w_conns w' p = Some c \<and> p \<notin> set (w_safe w')"
proof -
  have pop: "p \<in> set keep \<and> p \<notin> set safe" if "recycler_pop ps w = Some (keep, safe)" "p \<in> set ps" for ps keep safe
  proof -
    have "set safe \<subseteq> {q. \<exists>d. w_conns w q = Some d \<and> safe_to_release d} \<and> (p \<in> set ps \<longrightarrow> p \<in> set keep)"
      using that(1)
    proof (induction ps arbitrary: keep safe)
      case (Cons q ps)
      then obtain d a b where d: "w_conns w q = Some d" "recycler_pop ps w = Some (a, b)"
        "(keep, safe) = (if safe_to_release d then (a, q # b) else (q # a, b))"
        by (auto split: bind_splits)
      have "\<not> safe_to_release c" using assms(4) by (simp add: safe_to_release_def)
      then show ?case using Cons.IH [OF d(2)] d(1,3) assms(3) by (auto split: if_splits)
    qed simp
    then show ?thesis using that(2) assms(3,4) by (auto simp: safe_to_release_def)
  qed
  have del: "w_conns v' p = w_conns v p \<and> w_recycler v' = w_recycler v" if "delete_conns ps v = Some v'" "p \<notin> set ps" for ps v v'
    using that
    by (induction ps arbitrary: v) (auto simp: delete_conn_def free_clnt_def split: bind_splits option.splits if_splits)
  obtain keep safe where ks: "recycler_pop (w_recycler w) w = Some (keep, safe)"
    using assms(1) by (auto simp: Recycle_def RecyclerPop_def split: bind_splits)
  let ?v = "w\<lparr>w_recycler := keep, w_safe := w_safe w @ safe\<rparr>"
  obtain v where v: "delete_conns (w_safe w @ safe) ?v = Some v" "w' = v\<lparr>w_safe := []\<rparr>" "b \<longleftrightarrow> w_recycler v \<noteq> []"
    using assms(1) ks by (auto simp: Recycle_def RecyclerPop_def SafeRelease_def split: bind_splits)
  have "w_conns v p = w_conns ?v p \<and> w_recycler v = w_recycler ?v"
    by (rule del [OF v(1)]) (use pop [OF ks assms(2)] assms(5) in simp)
  then show ?thesis using v(2,3) pop [OF ks assms(2)] assms(3) by auto
qed

text \<open>A removed connection that is still marked as connected stays in the recycler for ever.\<close>

definition stuck :: "nat \<Rightarrow> world \<Rightarrow> bool" where
  "stuck p w \<longleftrightarrow> p \<in> set (w_recycler w) \<and> p \<notin> set (w_safe w) \<and> (\<exists>c. w_conns w p = Some c \<and> cn_connected c \<and> cn_disposed c)"

lemma Recycle_stuck: "stuck p w \<Longrightarrow> Recycle w = Some (b, w') \<Longrightarrow> b \<and> stuck p w'"
  using Recycle_keeps by (fastforce simp: stuck_def)

lemma wait_stuck:
  assumes "stuck p w" "\<And>w w'. stuck p w \<Longrightarrow> update w = Some w' \<Longrightarrow> stuck p w'"
  shows "wait_recycle n update w = None"
  using assms(1)
proof (induction n arbitrary: w)
  case (Suc n)
  show ?case
  proof (cases "Recycle w")
    case (Some x)
    obtain b w1 where x: "x = (b, w1)" by (cases x)
    then have w1: "b" "stuck p w1" using Recycle_stuck Suc.prems Some by blast+
    show ?thesis
    proof (cases "update w1")
      case u: (Some w2)
      then have "stuck p w2" using assms(2) w1(2) by blast
      then show ?thesis using Some x w1(1) u Recycle_stuck Suc.IH by (auto split: bind_splits)
    qed (use Some x w1(1) in simp)
  qed simp
qed simp

lemma Dispose_connected:
  assumes "DisposeConnection p w = Some w'"
  shows "w_recycler w' = w_recycler w" "w_safe w' = w_safe w"
    "w_conns w q = Some c \<Longrightarrow> \<exists>c'. w_conns w' q = Some c' \<and> cn_connected c' = cn_connected c \<and> (q = p \<or> cn_disposed c \<longrightarrow> cn_disposed c')"
  using assms
  by (auto simp: DisposeConnection_def FlushStream_def upd_conn_def upd_clnt_def uv_close_w_def upd_sock_def
    split: bind_splits option.splits if_splits)

lemma release_clients_stuck:
  assumes "release_clients m w = Some w'" "(i, p) \<in> set m \<or> p \<in> set (w_recycler w) \<and> cn_disposed c" "p \<notin> set (w_safe w)"
    "w_conns w p = Some c" "cn_connected c"
  shows "stuck p w'"
  using assms
proof (induction m arbitrary: w c)
  case Nil
  then show ?case by (auto simp: stuck_def)
next
  case (Cons e m)
  obtain j q where e: "e = (j, q)" by (cases e)
  obtain w1 where w1: "DisposeConnection q w = Some w1"
    "release_clients m ((RecyclerPush q w1)\<lparr>w_count := w_count (RecyclerPush q w1) - 1\<rparr>) = Some w'"
    using Cons.prems(1) e by (auto simp: ReleaseConnection_def Let_def split: bind_splits if_splits)
  obtain c1 where "w_conns w1 p = Some c1" "cn_connected c1" "p = q \<or> cn_disposed c \<longrightarrow> cn_disposed c1"
    using Dispose_connected(3) [OF w1(1) Cons.prems(4)] Cons.prems(5) by auto
  then show ?case
    using Cons.IH [OF w1(2), of c1] Cons.prems(2,3) e Dispose_connected(1,2) [OF w1(1)] by (auto simp: RecyclerPush_def)
qed

text \<open>
  C34. Closing a server is broken. With a client registered, \<open>Close\<close> erases from a map that it walks:
  it advances an iterator whose element is gone. Without one it returns, and the close callback
  of the listening socket, which comes later, reads the implementation that \<open>Close\<close> has freed.
\<close>

theorem server_close_broken:
  assumes "srv_reachable w" "w_servers w sv = Some x" "\<not> sv_closed x" "sv_impl x" "sv_listener x = Listening"
  shows "if entry_clients sv w \<noteq> [] then server_Close sv w = None
    else \<exists>w' x'. server_Close sv w = Some w' \<and> w_servers w' sv = Some x' \<and> sv_listener x' = Listener_closing \<and> on_server_close sv w' = None"
proof -
  have inv: "srv_inv w" by (rule srv_reachable_inv [OF assms(1)])
  have sv: "0 < sv" using fresh_bounds(4) [OF srv_invD(1) [OF inv] assms(2)] by simp
  have st: "sv_streams x = []" using heap_okD(5) [OF srv_invD(2) [OF inv] assms(2)] .
  let ?f = "\<lambda>x. x\<lparr>sv_streams := [], sv_impl := False, sv_listener := Listener_closing\<rparr>"
  let ?w = "w\<lparr>w_servers := (w_servers w)(sv \<mapsto> ?f x)\<rparr>"
  have upd: "upd_server sv (\<lambda>x. x\<lparr>sv_streams := [], sv_impl := False,
      sv_listener := (if sv_listener x = Listening then Listener_closing else sv_listener x)\<rparr>) w = Some ?w"
    using assms(2,5) by (simp add: upd_server_def)
  have close: "server_Close sv w = do { w3 \<leftarrow> DisposeDownStreams sv ?w; upd_server sv (\<lambda>x. x\<lparr>sv_closed := True\<rparr>) w3 }"
    using assms(2-5) st upd by (simp add: server_Close_def)
  show ?thesis
  proof (cases "entry_clients sv w")
    case Nil
    then have "DisposeDownStreams sv ?w = Some ?w"
      using sv by (cases "map_of (w_entries w) sv") (auto simp: DisposeDownStreams_def entry_clients_def)
    then show ?thesis using Nil close by (simp add: upd_server_def on_server_close_def)
  next
    case (Cons e ms)
    obtain i p where e: "e = (i, p)" by (cases e)
    have ents: "map_of (w_entries ?w) sv = Some ((i, p) # ms)"
      using Cons e by (cases "map_of (w_entries w) sv") (auto simp: entry_clients_def)
    have "(i, p) \<in> set (entry_clients sv w)" using Cons e by simp
    then obtain c where c: "w_conns w p = Some c" "cn_id c = i" "cn_kind c = ClientOf sv" "\<not> cn_disposed c"
      using maps_okD(3) [OF srv_invD(3) [OF inv], of i p sv] by blast
    obtain sv' h cl s u where l': "live w sv' p c h cl s u" "cn_running c" "cn_connected c" using live_conn [OF inv c(1,4)] by metis
    then have l: "live ?w sv' p c h cl s u" "cn_running c" "cn_connected c" by (simp_all add: live_def)
    then have [simp]: "sv' = sv" using c(3) by (simp add: live_def)
    have "OnDisposeClient sv p ?w = Some (dropped True sv p c h cl s u ?w)" using OnDisposeClient_live l by simp
    moreover have "entry_clients sv (dropped True sv p c h cl s u ?w) = AList.delete i (entry_clients sv ?w)"
      using c(2) by (simp add: dropped_def entry_clients_def update_conv')
    then have "map_of (entry_clients sv (dropped True sv p c h cl s u ?w)) i = None" by (simp add: delete_conv')
    ultimately have "dispose_walk sv ((i, p) # ms) ?w = None"
      using c(1,2) by (auto simp: OnDisposeClient_def split: bind_splits)
    then show ?thesis using Cons ents sv close by (simp add: DisposeDownStreams_def)
  qed
qed

lemma server_close_broken_witness:
  "srv_reachable (accepted 1 ready_world) \<and> entry_clients 1 (accepted 1 ready_world) \<noteq> [] \<and> server_Close 1 (accepted 1 ready_world) = None"
proof -
  have x: "w_servers (accepted 1 ready_world) 1 = Some ready_server" by (simp add: ready_world_def)
  have "entry_clients 1 (accepted 1 ready_world) \<noteq> []"
    by (simp add: accepted_def ready_world_def new_world_def entry_clients_def Let_def)
  then show ?thesis
    using server_close_broken [OF busy_reachable(1) x] busy_reachable(1) by (simp add: ready_server_def)
qed


subsection \<open>The end of the factory\<close>

text \<open>Callbacks that one pass of the loop of libuv runs, in any number and order.\<close>

inductive loop_run :: "world \<Rightarrow> world \<Rightarrow> bool" where
  loop_idle: "loop_run w w"
| loop_read: "loop_run w w1 \<Longrightarrow> srv_can w1 (SRead s nread) \<Longrightarrow> on_client_read s nread w1 = Some w2 \<Longrightarrow> loop_run w w2"
| loop_write: "loop_run w w1 \<Longrightarrow> srv_can w1 (SWrite s status pending) \<Longrightarrow> on_client_write s status pending w1 = Some w2 \<Longrightarrow> loop_run w w2"
| loop_closed: "loop_run w w1 \<Longrightarrow> srv_can w1 (SClosed s) \<Longrightarrow> run_close_cb s w1 = Some w2 \<Longrightarrow> loop_run w w2"

text \<open>What an operation on another connection leaves alone.\<close>

definition keeps :: "nat \<Rightarrow> world \<Rightarrow> world \<Rightarrow> bool" where
  "keeps p w w' \<longleftrightarrow> w_conns w' p = w_conns w p \<and> set (w_recycler w) \<subseteq> set (w_recycler w') \<and> w_safe w' = w_safe w"

lemma keeps_trans: "keeps p w w1 \<Longrightarrow> keeps p w1 w2 \<Longrightarrow> keeps p w w2"
  by (auto simp: keeps_def)

lemma Dispose_keeps: "DisposeConnection q w = Some w' \<Longrightarrow> p \<noteq> q \<Longrightarrow> keeps p w w'"
  by (auto simp: keeps_def DisposeConnection_def FlushStream_def upd_conn_def upd_clnt_def uv_close_w_def upd_sock_def
    split: bind_splits option.splits if_splits)

lemma Remove_keeps:
  assumes "OnRemoveClient sv q w = Some w'" "p \<noteq> q"
  shows "keeps p w w'"
proof -
  have "w' = w \<or> (\<exists>w1. DisposeConnection q w = Some w1 \<and> keeps p w1 w')"
    using assms(1)
    by (auto simp: OnRemoveClient_def ReleaseConnection_def RecyclerPush_def set_clients_def Let_def keeps_def
      split: bind_splits option.splits if_splits)
  moreover have "keeps p w w" by (simp add: keeps_def)
  ultimately show ?thesis using Dispose_keeps assms(2) keeps_trans by metis
qed

lemma Disconnect_other:
  assumes "Disconnect q w = Some w'" "p \<noteq> q"
  shows "keeps p w w'"
proof -
  have "w' = w \<or> (\<exists>w2. keeps p w w2 \<and> ((\<exists>sv. OnRemoveClient sv q w2 = Some w') \<or> DisposeConnection q w2 = Some w'))"
  proof -
    have "keeps p w w2" if "upd_conn q f w = Some w1" "OnDisconnect q w1 = Some w2" for w1 w2 f
      using that assms(2) by (auto simp: keeps_def upd_conn_def OnDisconnect_def log_event_def split: bind_splits if_splits)
    then show ?thesis
      using assms(1) by (auto simp: Disconnect_def ReleaseConnection_def split: bind_splits if_splits conn_kind.splits)
  qed
  then show ?thesis using Remove_keeps Dispose_keeps assms(2) keeps_trans by (metis keeps_def order_refl)
qed

lemma Disconnect_stuck:
  assumes "stuck p w" "Disconnect q w = Some w'"
  shows "stuck p w'"
proof (cases "q = p")
  case True
  then show ?thesis using assms by (auto simp: stuck_def Disconnect_def)
next
  case False
  then show ?thesis using assms Disconnect_other [OF assms(2), of p] by (auto simp: stuck_def keeps_def)
qed

lemma drop_handle_stuck: "stuck p w \<Longrightarrow> drop_handle h w = Some w' \<Longrightarrow> stuck p w'"
  by (auto simp: stuck_def drop_handle_def uv_close_w_def upd_sock_def free_clnt_def split: bind_splits option.splits if_splits)

lemma loop_run_stuck: "loop_run w w' \<Longrightarrow> stuck p w \<Longrightarrow> stuck p w'"
proof (induction rule: loop_run.induct)
  case (loop_read w w1 s nread w2)
  then show ?case
    by (auto simp: on_client_read_def commit_bb_def OnRawData_def intro: Disconnect_stuck drop_handle_stuck
      split: bind_splits if_splits read_result.splits option.splits)
next
  case (loop_write w w1 s status pending w2)
  have "stuck p v" if "upd_sock s f w1 = Some v" for f v using that loop_write by (auto simp: upd_sock_def stuck_def)
  then show ?case
    using loop_write.hyps(3)
    by (auto simp: on_client_write_def intro: Disconnect_stuck drop_handle_stuck split: bind_splits if_splits option.splits)
next
  case (loop_closed w w1 s w2)
  then show ?case
    by (auto simp: run_close_cb_def stuck_def free_sock_def upd_conn_def
      split: bind_splits option.splits if_splits close_cb.splits)
qed

lemma dispose_linked:
  assumes "conn_link w p c" "w_conns w p = Some c"
  obtains w' where "DisposeConnection p w = Some w'" "\<And>q. q \<noteq> p \<Longrightarrow> w_conns w' q = w_conns w q"
    "\<And>q d. q \<noteq> p \<Longrightarrow> conn_link w q d \<Longrightarrow> conn_link w' q d"
proof (cases "cn_disposed c \<or> cn_flushed c")
  case True
  obtain h cl where h: "cn_clnt c = Some h" "w_clnts w h = Some cl" using assms(1) by (auto simp: conn_link_def)
  have "\<exists>c'. DisposeConnection p w = Some (w\<lparr>w_conns := (w_conns w)(p \<mapsto> c')\<rparr>)"
  proof (cases "cn_disposed c")
    case True
    then show ?thesis using assms(2) by (intro exI [of _ c]) (simp add: DisposeConnection_def fun_upd_idem)
  next
    case False
    then show ?thesis using True assms(2) h by (simp add: DisposeConnection_def FlushStream_def upd_conn_def) blast
  qed
  then obtain c' where c': "DisposeConnection p w = Some (w\<lparr>w_conns := (w_conns w)(p \<mapsto> c')\<rparr>)" by blast
  have "conn_link (w\<lparr>w_conns := (w_conns w)(p \<mapsto> c')\<rparr>) q d = conn_link w q d" for q d by (simp add: conn_link_def)
  then show ?thesis by (intro that [OF c']) simp_all
next
  case False
  obtain h cl s u where h: "cn_clnt c = Some h" "w_clnts w h = Some cl" "ch_conn cl = Some p" "ch_sock cl = Some s"
    "w_socks w s = Some u" "us_close_cb u = None" "us_data u = Some h"
    using assms(1) False by (auto simp: conn_link_def)
  define u' cl' where "u' = u\<lparr>us_close_cb := Some (stream_close_cb c), us_reading := False\<rparr>" and "cl' = cl\<lparr>ch_sock := None\<rparr>"
  have "\<exists>c'. DisposeConnection p w = Some (w\<lparr>w_conns := (w_conns w)(p \<mapsto> c'), w_socks := (w_socks w)(s \<mapsto> u'), w_clnts := (w_clnts w)(h \<mapsto> cl')\<rparr>)"
    using False assms(2) h
    by (auto simp: DisposeConnection_def FlushStream_def upd_conn_def upd_clnt_def uv_close_w_def upd_sock_def stream_close_cb_def u'_def cl'_def
      intro!: world.equality)
  then obtain c' where c': "DisposeConnection p w =
      Some (w\<lparr>w_conns := (w_conns w)(p \<mapsto> c'), w_socks := (w_socks w)(s \<mapsto> u'), w_clnts := (w_clnts w)(h \<mapsto> cl')\<rparr>)" by blast
  show ?thesis
  proof (rule that [OF c'])
    fix q d assume q: "q \<noteq> p" "conn_link w q d"
    then obtain g k where gk: "cn_clnt d = Some g" "w_clnts w g = Some k" "ch_conn k = Some q" unfolding conn_link_def by blast
    then have g: "cn_clnt d = Some g" "g \<noteq> h" using h(2,3) q(1) by auto
    show "conn_link (w\<lparr>w_conns := (w_conns w)(p \<mapsto> c'), w_socks := (w_socks w)(s \<mapsto> u'), w_clnts := (w_clnts w)(h \<mapsto> cl')\<rparr>) q d"
    proof (cases "cn_flushed d")
      case False
      then obtain r v where rv: "ch_sock k = Some r" "w_socks w r = Some v" "us_close_cb v = None" "us_data v = Some g" "ch_bb k"
        using q(2) gk by (auto simp: conn_link_def)
      moreover have "r \<noteq> s" using rv g(2) h(5,7) by auto
      ultimately show ?thesis unfolding conn_link_def using gk g(2) False by auto
    qed (use q(2) g in \<open>auto simp: conn_link_def\<close>)
  qed simp
qed

lemma release_clients_ok:
  assumes "distinct (map snd m)" "\<And>i p. (i, p) \<in> set m \<Longrightarrow> \<exists>c. w_conns w p = Some c \<and> cn_id c = i \<and> conn_link w p c"
  shows "\<exists>w'. release_clients m w = Some w'"
  using assms
proof (induction m arbitrary: w)
  case (Cons e m)
  obtain i p where e: "e = (i, p)" by (cases e)
  obtain c where c: "w_conns w p = Some c" "cn_id c = i" "conn_link w p c" using Cons.prems(2) [of i p] e by auto
  obtain w1 where w1: "DisposeConnection p w = Some w1" "\<And>q. q \<noteq> p \<Longrightarrow> w_conns w1 q = w_conns w q"
    "\<And>q d. q \<noteq> p \<Longrightarrow> conn_link w q d \<Longrightarrow> conn_link w1 q d"
    using dispose_linked [OF c(3,1)] by metis
  let ?w = "(RecyclerPush p w1)\<lparr>w_count := w_count (RecyclerPush p w1) - 1\<rparr>"
  have "\<exists>d. w_conns ?w q = Some d \<and> cn_id d = j \<and> conn_link ?w q d" if q: "(j, q) \<in> set m" for j q
  proof -
    have "q \<noteq> p" using q Cons.prems(1) e by (auto simp: image_iff)
    moreover obtain d where "w_conns w q = Some d" "cn_id d = j" "conn_link w q d" using Cons.prems(2) [of j q] q by auto
    moreover have "conn_link ?w q d = conn_link w1 q d" for d by (simp add: RecyclerPush_def conn_link_def)
    ultimately show ?thesis using w1(2,3) [of q] by (auto simp: RecyclerPush_def)
  qed
  then have "\<exists>w'. release_clients m ?w = Some w'" using Cons.IH [of ?w] Cons.prems(1) by simp
  then show ?case using e c(1,2) w1(1) by (simp add: ReleaseConnection_def Let_def)
qed simp



text \<open>
  \<open>OnDelete\<close> calls the recycler before the loop has run the close callbacks. A client that was
  disconnected since the last pass of the loop is deleted at once, with its handle, and the close
  callback of its socket, which is still to come, follows the pointer to the freed handle.
\<close>

theorem recycle_before_loop_unsafe:
  assumes "srv_reachable w" "registered w p"
  shows "\<exists>w1 w2 s u. Disconnect p w = Some w1 \<and> Recycle w1 = Some (False, w2) \<and> p \<in> set (w_deleted w2) \<and>
    w_socks w2 s = Some u \<and> us_close_cb u \<noteq> None \<and> run_close_cb s w2 = None"
proof -
  have inv: "srv_inv w" by (rule srv_reachable_inv [OF assms(1)])
  obtain c where c: "w_conns w p = Some c" "\<not> cn_disposed c" using assms(2) registered_iff [OF inv] by blast
  obtain sv h cl s u where l: "live w sv p c h cl s u" "cn_running c" "cn_connected c" using live_conn [OF inv c] by metis
  define w1 where "w1 = dropped False sv p c h cl s u w"
  have w1: "Disconnect p w = Some w1" "srv_inv w1" using Disconnect_live l drop_inv [OF inv l(1)] by (auto simp: w1_def)
  have mem: "p \<in> set (w_recycler w1)" "w_conns w1 p = Some ((disposed_conn c)\<lparr>cn_running := False\<rparr>)" "cn_clnt c = Some h"
    "us_data u = Some h"
    using l(1) by (auto simp: w1_def live_def)
  then have "h \<in> handles w1 (set (w_recycler w1))" unfolding handles_def by fastforce
  then show ?thesis
    using w1(1) Recycle_eff [OF w1(2)] mem(1,4) l(1)
    by (intro exI [of _ w1] exI exI [of _ s] exI conjI) (auto simp: run_close_cb_def w1_def live_def)
qed

lemma recycle_before_loop_unsafe_witness:
  "registered (accepted 1 ready_world) 4 \<and>
   (\<exists>w1 w2. Disconnect 4 (accepted 1 ready_world) = Some w1 \<and> Recycle w1 = Some (False, w2) \<and> 4 \<in> set (w_deleted w2))"
  using recycle_before_loop_unsafe [OF busy_reachable] busy_reachable(2) by blast

text \<open>
  C35. Two more error paths end in undefined behaviour. A client that connects while the server is
  not ready is refused, and its handle is freed with a buffer pointer that was never set. A write that
  fails at once disposes of the connection inside its own send loop, which goes on with the packet
  object that was deleted.
\<close>

theorem refused_or_failed_send_unsafe:
  assumes "srv_reachable w"
  shows "(\<forall>sv x. w_servers w sv = Some x \<and> \<not> server_IsReady x \<longrightarrow> on_connection sv 0 0 0 0 w = None) \<and>
    (\<forall>p r len pages. registered w p \<and> r < 0 \<longrightarrow> PostPacket ((r, len) # pages) p w = None)"
proof (intro conjI allI impI; elim conjE)
  have inv: "srv_inv w" by (rule srv_reachable_inv [OF assms])
  show "on_connection sv 0 0 0 0 w = None" if "w_servers w sv = Some x" "\<not> server_IsReady x" for sv x
    using that
    by (auto simp: on_connection_def on_server_accept_client_def alloc_sock_def alloc_clnt_def upd_sock_def upd_clnt_def
      uv_close_w_def free_clnt_def Let_def split: bind_splits)
  fix p r len pages assume p: "registered w p" "(r :: int) < 0"
  obtain c where c: "w_conns w p = Some c" "\<not> cn_disposed c" using p(1) registered_iff [OF inv] by blast
  obtain sv h cl s u where l: "live w sv p c h cl s u" using live_conn [OF inv c] by metis
  then have "writecb_ok c w = Some ()" 
    using heap_okD(2) [OF srv_invD(2) [OF inv] c(1)] by (auto simp: live_def conn_flags_def writecb_ok_def)
  then show "PostPacket ((r, len) # pages) p w = None"
    using dispose_live [OF l] l p(2) by (auto simp: PostPacket_def SendRaw_def live_def conn_IsReady_def)
qed

lemma refused_or_failed_send_unsafe_witness:
  "registered (accepted 1 ready_world) 4 \<and> PostPacket [(- 1, 10)] 4 (accepted 1 ready_world) = None"
  using refused_or_failed_send_unsafe [OF busy_reachable(1)] busy_reachable(2) by simp

end
