(* ===== verification/UvIsolatedProps.thy ===== *)
theory UvIsolatedProps
  imports UvIsolated UvServerProps
begin

text \<open>
  The steps of the isolated connections keep their invariant; what it says of the reconnecting and of
  the events, and the places where the code loses a connection or uses what it has freed.
\<close>

section \<open>The steps keep the invariant\<close>

lemma iso_sock_conn:
  assumes "iso_inv w" "w_socks w s = Some u"
  obtains h cl p c where "us_data u = Some h" "w_clnts w h = Some cl" "ch_conn cl = Some p" "w_conns w p = Some c" "cn_clnt c = Some h"
    "ch_bb cl" "iso_conn w p c" "us_close_cb u = None \<Longrightarrow> ch_sock cl = Some s \<and> \<not> cn_flushed c \<and> iso_up w p c \<and> \<not> cn_disposed c"
    "us_close_cb u \<noteq> None \<Longrightarrow> us_close_cb u = Some On_sock_close \<and> cn_flushed c"
    "0 < us_writes u \<or> us_connect u \<Longrightarrow> \<not> cn_disposed c \<and> iso_up w p c"
proof -
  obtain h cl p c where x: "us_data u = Some h" "w_clnts w h = Some cl" "ch_conn cl = Some p" "w_conns w p = Some c" "cn_clnt c = Some h"
    "if us_close_cb u = None then ch_sock cl = Some s else us_close_cb u = Some On_sock_close \<and> cn_flushed c"
    using iso_invD(5) [OF assms] unfolding iso_sock_def by blast
  have c: "iso_conn w p c" by (rule iso_invD(3) [OF assms(1) x(4)])
  have gone: "iso_gone w p c" if "cn_disposed c" using c that by (simp add: iso_conn_def)
  have up: "iso_up w p c" if "\<not> cn_disposed c" using c that x(5) by (simp add: iso_conn_def)
  have open_conn: "\<not> cn_disposed c \<and> \<not> cn_flushed c" if "us_close_cb u = None"
  proof -
    have "ch_sock cl = Some s" using x(6) that by simp
    then have "\<not> cn_disposed c" using gone x(2,5) by (auto simp: iso_gone_def)
    moreover have "\<not> cn_flushed c" using up [OF calculation] \<open>ch_sock cl = Some s\<close> x(2,5) by (auto simp: iso_up_def split: if_splits)
    ultimately show ?thesis ..
  qed
  have pending: "\<not> cn_disposed c" if "0 < us_writes u \<or> us_connect u"
    using that gone assms(2) x(1,5) by (auto simp: iso_gone_def no_requests_def sock_of_def)
  have "ch_bb cl" using iso_handle [OF c x(5)] x(2) by auto
  with x c show ?thesis using open_conn pending up by (intro that [of h cl p c]) auto
qed

lemma iso_fresh_upd:
  assumes "fresh_ok w" "w_conns w p = Some c" "w_clnts w h = Some cl" "w_socks w s = Some u"
  shows "fresh_ok (w\<lparr>w_socks := (w_socks w)(s \<mapsto> u'), w_clnts := (w_clnts w)(h \<mapsto> cl'), w_conns := (w_conns w)(p \<mapsto> c'), w_events := w_events w @ map (\<lambda>e. (e, p)) es\<rparr>)"
  using assms(1) fresh_bounds [OF assms(1)] assms(2-4) by (auto simp: fresh_ok_def)

lemma events_of_add: "events_of (w\<lparr>w_events := w_events w @ map (\<lambda>e. (e, p)) es\<rparr>) q = events_of w q @ (if q = p then es else [])"
  by (induction es) (auto simp: events_of_def)

lemma events_alternate:
  assumes "iso_events w p b" "events_of w' p = events_of w p @ es"
    "es = (if b = b' then [] else if b' then [CONNECTION_CONNECTED] else [CONNECTION_DISCONNECTED])"
  shows "iso_events w' p b'"
proof -
  obtain n where n: "events_of w p = concat (replicate n [CONNECTION_CONNECTED, CONNECTION_DISCONNECTED]) @ (if b then [CONNECTION_CONNECTED] else [])"
    using assms(1) by (auto simp: iso_events_def)
  have "concat (replicate n xs) @ xs = concat (replicate (Suc n) xs)" for xs :: "conn_event list"
    by (induction n) auto
  from this [of "[CONNECTION_CONNECTED, CONNECTION_DISCONNECTED]"] show ?thesis
    unfolding iso_events_def assms(2,3) n
    by (cases b; cases b') (auto intro: exI [of _ n] exI [of _ "Suc n"])
qed

text \<open>The world in which one connection, its handle and one of its sockets are replaced.\<close>

definition iso_put :: "nat \<Rightarrow> conn \<Rightarrow> nat \<Rightarrow> client_handle \<Rightarrow> nat \<Rightarrow> usock \<Rightarrow> conn_event list \<Rightarrow> world \<Rightarrow> world" where
  "iso_put p c h cl s u es w =
     w\<lparr>w_socks := (w_socks w)(s \<mapsto> u), w_clnts := (w_clnts w)(h \<mapsto> cl), w_conns := (w_conns w)(p \<mapsto> c),
       w_events := w_events w @ map (\<lambda>e. (e, p)) es\<rparr>"

lemma iso_put_simps [simp]:
  "w_socks (iso_put p c h cl s u es w) = (w_socks w)(s \<mapsto> u)" "w_clnts (iso_put p c h cl s u es w) = (w_clnts w)(h \<mapsto> cl)"
  "w_conns (iso_put p c h cl s u es w) = (w_conns w)(p \<mapsto> c)" "w_next_id (iso_put p c h cl s u es w) = w_next_id w"
  by (simp_all add: iso_put_def)

lemma iso_put_inv:
  assumes "iso_inv w" "w_conns w p = Some b" "cn_clnt b = Some h" "w_clnts w h = Some dl" "w_socks w s = Some v" "us_data v = Some h"
    and c: "cn_clnt c = Some h" "cn_kind c = Isolated" "0 < cn_id c"
      "if cn_disposed c then iso_gone (iso_put p c h cl s u es w) p c else iso_up (iso_put p c h cl s u es w) p c"
    and cl: "ch_conn cl = Some p" "us_data u = Some h"
    and socks: "if us_close_cb u = None then ch_sock cl = Some s else us_close_cb u = Some On_sock_close \<and> cn_flushed c"
      "\<And>r x. r \<noteq> s \<Longrightarrow> w_socks w r = Some x \<Longrightarrow> us_data x = Some h \<Longrightarrow> us_close_cb x \<noteq> None \<and> cn_flushed c"
    and es: "es = (if cn_connected b = cn_connected c then [] else if cn_connected c then [CONNECTION_CONNECTED] else [CONNECTION_DISCONNECTED])"
  shows "iso_inv (iso_put p c h cl s u es w)" (is "iso_inv ?w")
proof (rule iso_frame [OF assms(1), of ?w p c])
  have fresh: "fresh_ok w" by (rule iso_invD(1) [OF assms(1)])
  show "fresh_ok ?w" unfolding iso_put_def by (rule iso_fresh_upd [OF fresh assms(2,4,5)])
  show "id_ok ?w" using iso_invD(2) [OF assms(1)] by (simp add: id_ok_def)
  show "iso_conn ?w p c" using c by (simp add: iso_conn_def)
  show "w_socks ?w r = Some x \<longleftrightarrow> w_socks w r = Some x" if "us_data x \<noteq> cn_clnt c" for r x
    using that c(1) cl(2) assms(5,6) by auto
  show "iso_sock ?w r x" if x: "w_socks ?w r = Some x" "us_data x = cn_clnt c" for r x
  proof (cases "r = s")
    case True
    then show ?thesis using x c(1) cl socks(1) by (auto simp: iso_sock_def)
  next
    case False
    then have r: "w_socks w r = Some x" "us_data x = Some h" using x c(1) by auto
    then have "us_close_cb x = Some On_sock_close"
      using socks(2) [OF False r] iso_invD(5) [OF assms(1) r(1)] by (auto simp: iso_sock_def split: if_splits)
    then show ?thesis using socks(2) [OF False r] r(2) c(1) cl(1) by (auto simp: iso_sock_def)
  qed
  have ev: "events_of ?w q = events_of w q @ (if q = p then es else [])" for q
    using events_of_add [of w p es q] by (simp add: events_of_def iso_put_def)
  show "iso_events ?w p (cn_connected c)"
    by (rule events_alternate [OF iso_invD(4) [OF assms(1,2)] _ es]) (use ev in simp)
  show "events_of ?w q = events_of w q" if "q \<noteq> p" for q using ev that by simp
qed (use assms(2,3) c(1) in auto)

text \<open>An open socket is the only one of its handle that is not closing.\<close>

lemma iso_open_unique:
  assumes "iso_inv w" "w_socks w r = Some x" "us_data x = Some h" "w_clnts w h = Some cl" "ch_sock cl \<noteq> Some r"
  shows "us_close_cb x \<noteq> None \<and> (\<forall>p c. ch_conn cl = Some p \<longrightarrow> w_conns w p = Some c \<longrightarrow> cn_flushed c)"
  using iso_invD(5) [OF assms(1,2)] assms(3-5) unfolding iso_sock_def by (auto split: if_splits)

lemma iso_put_idle: "w_clnts w h = Some cl \<Longrightarrow> w_conns w p = Some c \<Longrightarrow> iso_put p c h cl s u [] w = w\<lparr>w_socks := (w_socks w)(s \<mapsto> u)\<rparr>"
  by (simp add: iso_put_def fun_upd_idem)

text \<open>A change of a socket that lowers its pending requests.\<close>

lemma iso_sock_update:
  assumes "iso_inv w" "w_socks w s = Some u" "us_data v = us_data u" "us_close_cb v = us_close_cb u"
    "us_close_cb u = None \<Longrightarrow> us_connect v = us_connect u \<and> us_reading v = us_reading u"
    "us_writes u = 0 \<Longrightarrow> us_close_cb u \<noteq> None \<Longrightarrow> us_writes v = 0" "us_connect v \<Longrightarrow> us_connect u"
  shows "iso_inv (w\<lparr>w_socks := (w_socks w)(s \<mapsto> v)\<rparr>)"
proof -
  obtain h cl p c where x: "us_data u = Some h" "w_clnts w h = Some cl" "ch_conn cl = Some p" "w_conns w p = Some c" "cn_clnt c = Some h"
    "ch_bb cl" "iso_conn w p c" "us_close_cb u = None \<Longrightarrow> ch_sock cl = Some s \<and> \<not> cn_flushed c \<and> iso_up w p c \<and> \<not> cn_disposed c"
    "us_close_cb u \<noteq> None \<Longrightarrow> us_close_cb u = Some On_sock_close \<and> cn_flushed c"
    using iso_sock_conn [OF assms(1,2)] by metis
  have "iso_inv (iso_put p c h cl s v [] w)"
  proof (rule iso_put_inv [OF assms(1) x(4,5,2) assms(2) x(1)])
    show "cn_kind c = Isolated" "0 < cn_id c" using x(7) by (simp_all add: iso_conn_def)
    have gone: "iso_gone (iso_put p c h cl s v [] w) p c" if "iso_gone w p c" "us_close_cb u \<noteq> None"
    proof -
      have "no_requests w c" "us_writes u = 0" "\<not> us_connect u"
        using that(1) assms(2) x(1,5) by (auto simp: iso_gone_def no_requests_def sock_of_def)
      then have "no_requests (iso_put p c h cl s v [] w) c"
        using assms(6,7) that(2) unfolding no_requests_def sock_of_def by auto
      then show ?thesis using that(1) x(2) by (auto simp: iso_gone_def)
    qed
    have up: "iso_up (iso_put p c h cl s v [] w) p c" if up: "iso_up w p c"
    proof (cases "us_close_cb u = None")
      case True
      then show ?thesis using up x(1,2,5,8) assms(2-5) by (auto simp: iso_up_def)
    next
      case False
      then show ?thesis using up x(2,5,9) by (auto simp: iso_up_def)
    qed
    show "if cn_disposed c then iso_gone (iso_put p c h cl s v [] w) p c else iso_up (iso_put p c h cl s v [] w) p c"
      using gone up x(5,7,8) by (auto simp: iso_conn_def split: if_splits)
    show "if us_close_cb v = None then ch_sock cl = Some s else us_close_cb v = Some On_sock_close \<and> cn_flushed c"
      using x(8,9) assms(4) by auto
    show "us_close_cb y \<noteq> None \<and> cn_flushed c" if "r \<noteq> s" "w_socks w r = Some y" "us_data y = Some h" for r y
    proof (cases "ch_sock cl = Some r")
      case True
      then show ?thesis using x(5,7,8,9) x(2) that by (cases "us_close_cb u") (auto simp: iso_conn_def iso_gone_def iso_up_def split: if_splits)
    next
      case False
      then show ?thesis using iso_open_unique [OF assms(1) that(2,3) x(2)] x(3,4) by simp
    qed
  qed (use x assms(3) in auto)
  then show ?thesis using iso_put_idle [OF x(2,4)] by simp
qed

text \<open>After an error, the socket is closing and the reconnect timer runs.\<close>

definition errored :: "conn \<Rightarrow> conn" where
  "errored c = c\<lparr>cn_flushed := True, cn_connected := False, cn_delay := True, cn_timer := Some True\<rparr>"

lemma flush_error_open:
  assumes "iso_inv w" "w_socks w s = Some u" "us_close_cb u = None" "us_data v = us_data u" "us_close_cb v = None"
    "us_data u = Some h" "w_clnts w h = Some cl"
  shows "\<exists>w'. flush_and_error h cl (w\<lparr>w_socks := (w_socks w)(s \<mapsto> v)\<rparr>) = Some w' \<and> iso_inv w'"
proof -
  obtain p c where x: "ch_conn cl = Some p" "w_conns w p = Some c" "cn_clnt c = Some h" "ch_bb cl" "iso_conn w p c"
    "ch_sock cl = Some s" "\<not> cn_flushed c" "iso_up w p c" "\<not> cn_disposed c"
    using iso_sock_conn [OF assms(1,2)] assms(3,6,7) by (metis option.inject)
  let ?v = "v\<lparr>us_close_cb := Some On_sock_close, us_reading := False\<rparr>"
  let ?es = "if cn_connected c then [CONNECTION_DISCONNECTED] else []"
  let ?w = "iso_put p (errored c) h (cl\<lparr>ch_sock := None\<rparr>) s ?v ?es w"
  have c: "cn_kind c = Isolated" "0 < cn_id c" "cn_running c" "cn_packet c" "cn_timer c = Some (cn_delay c)"
    using x(5,8) by (simp_all add: iso_conn_def iso_up_def)
  let ?w1 = "w\<lparr>w_socks := (w_socks w)(s \<mapsto> ?v), w_clnts := (w_clnts w)(h \<mapsto> cl\<lparr>ch_sock := None\<rparr>),
    w_conns := (w_conns w)(p \<mapsto> c\<lparr>cn_flushed := True\<rparr>)\<rparr>"
  have flush: "FlushStream p (w\<lparr>w_socks := (w_socks w)(s \<mapsto> v)\<rparr>) = Some ?w1"
    using x(2,3,6,7) c(1) assms(5,7)
    by (simp add: FlushStream_def uv_close_w_def upd_sock_def upd_clnt_def upd_conn_def stream_close_cb_def)
  have "OnIsolatedError p ?w1 = Some ?w"
  proof (cases "cn_delay c")
    case True
    then have "errored c = (if cn_connected c then c\<lparr>cn_flushed := True, cn_connected := False\<rparr> else c\<lparr>cn_flushed := True\<rparr>)"
      using c(5) by (cases c) (simp add: errored_def)
    then show ?thesis
      using c(3-4) x(9) True by (cases "cn_connected c") (simp_all add: OnIsolatedError_def OnDisconnect_def DelayReconnect_def upd_conn_def log_event_def iso_put_def)
  next
    case False
    have "errored c = (if cn_connected c then c\<lparr>cn_flushed := True, cn_connected := False, cn_delay := True, cn_timer := Some True\<rparr>
        else c\<lparr>cn_flushed := True, cn_delay := True, cn_timer := Some True\<rparr>)"
      by (cases c) (simp add: errored_def)
    then show ?thesis
      using c(3-5) x(9) False
      by (cases "cn_connected c") (simp_all add: OnIsolatedError_def OnDisconnect_def DelayReconnect_def upd_conn_def log_event_def iso_put_def)
  qed
  then have "flush_and_error h cl (w\<lparr>w_socks := (w_socks w)(s \<mapsto> v)\<rparr>) = Some ?w"
    using flush x(1) by (simp add: flush_and_error_def)
  moreover have "iso_inv ?w"
  proof (rule iso_put_inv [OF assms(1) x(2,3) assms(7,2,6)])
    show "if cn_disposed (errored c) then iso_gone ?w p (errored c) else iso_up ?w p (errored c)"
      using x c by (simp add: errored_def iso_up_def)
    show "us_close_cb y \<noteq> None \<and> cn_flushed (errored c)" if "r \<noteq> s" "w_socks w r = Some y" "us_data y = Some h" for r y
      using iso_open_unique [OF assms(1) that(2,3) assms(7)] x(6) that(1) by (simp add: errored_def)
  qed (use x c assms(4,6) in \<open>auto simp: errored_def\<close>)
  ultimately show ?thesis by blast
qed

lemma flush_error_closing:
  assumes "iso_inv w" "w_socks w s = Some u" "us_close_cb u \<noteq> None" "0 < us_writes u \<or> us_connect u"
    "us_data u = Some h" "w_clnts w h = Some cl" "us_data v = us_data u" "us_close_cb v = us_close_cb u"
    "us_connect v \<Longrightarrow> us_connect u" "us_writes u = 0 \<Longrightarrow> us_writes v = 0"
  shows "\<exists>w'. flush_and_error h cl (w\<lparr>w_socks := (w_socks w)(s \<mapsto> v)\<rparr>) = Some w' \<and> iso_inv w'"
proof -
  let ?w = "w\<lparr>w_socks := (w_socks w)(s \<mapsto> v)\<rparr>"
  obtain p c where x: "ch_conn cl = Some p" "w_conns w p = Some c" "cn_clnt c = Some h" "cn_flushed c" "iso_up w p c" "\<not> cn_disposed c"
    using iso_sock_conn [OF assms(1,2)] assms(3-6) by (metis option.inject)
  then have "flush_and_error h cl ?w = Some ?w"
    using assms(6) by (auto simp: flush_and_error_def FlushStream_def OnIsolatedError_def OnDisconnect_def DelayReconnect_def iso_up_def)
  moreover have "iso_inv ?w" by (rule iso_sock_update [OF assms(1,2)]) (use assms(3,7-10) in auto)
  ultimately show ?thesis by blast
qed

lemma iso_recv_ok:
  assumes "iso_inv w" "w_socks w s = Some u" "us_close_cb u = None"
  shows "\<exists>w'. on_isolated_recv s nread w = Some w' \<and> iso_inv w'"
proof -
  obtain h cl p c where x: "us_data u = Some h" "w_clnts w h = Some cl" "ch_conn cl = Some p" "w_conns w p = Some c" "ch_bb cl" "iso_up w p c"
    using iso_sock_conn [OF assms(1,2)] assms(3) by metis
  have "w\<lparr>w_socks := (w_socks w)(s \<mapsto> u)\<rparr> = w" using assms(2) by (simp add: fun_upd_idem)
  then have "\<exists>w'. flush_and_error h cl w = Some w' \<and> iso_inv w'"
    using flush_error_open [OF assms(1-3) refl assms(3) x(1,2)] by simp
  moreover have "OnRawData p w = Some w" using x(4,6) by (simp add: OnRawData_def iso_up_def)
  ultimately show ?thesis
    using assms(1,2) x(1-3,5) by (cases nread) (simp_all add: on_isolated_recv_def commit_bb_def)
qed

lemma iso_send_cb_ok:
  assumes "iso_inv w" "w_socks w s = Some u" "0 < us_writes u"
  shows "\<exists>w'. on_isolated_send s status io_pending w = Some w' \<and> iso_inv w'"
proof -
  let ?v = "u\<lparr>us_writes := us_writes u - 1\<rparr>"
  let ?w = "w\<lparr>w_socks := (w_socks w)(s \<mapsto> ?v)\<rparr>"
  obtain h cl where x: "us_data u = Some h" "w_clnts w h = Some cl" using iso_sock_conn [OF assms(1,2)] by metis
  have "\<exists>w'. flush_and_error h cl ?w = Some w' \<and> iso_inv w'"
  proof (cases "us_close_cb u = None")
    case True
    then show ?thesis using flush_error_open [OF assms(1,2) True, of ?v h cl] x by simp
  next
    case False
    then show ?thesis using flush_error_closing [OF assms(1,2) False, of h cl ?v] x assms(3) by simp
  qed
  moreover have "iso_inv ?w" by (rule iso_sock_update [OF assms(1,2)]) auto
  ultimately show ?thesis using assms(2) x by (auto simp: on_isolated_send_def upd_sock_def)
qed

lemma iso_connect_cb_ok:
  assumes "iso_inv w" "w_socks w s = Some u" "us_connect u" "us_close_cb u \<noteq> None \<Longrightarrow> status \<noteq> 0"
  shows "\<exists>w'. on_isolated_connect_error s status 0 0 w = Some w' \<and> iso_inv w'"
proof -
  let ?v = "u\<lparr>us_connect := False\<rparr>"
  let ?w = "w\<lparr>w_socks := (w_socks w)(s \<mapsto> ?v)\<rparr>"
  obtain h cl p c where x: "us_data u = Some h" "w_clnts w h = Some cl" "ch_conn cl = Some p" "w_conns w p = Some c" "cn_clnt c = Some h"
    "ch_bb cl" "iso_conn w p c" "us_close_cb u = None \<Longrightarrow> ch_sock cl = Some s \<and> \<not> cn_flushed c" "\<not> cn_disposed c" "iso_up w p c"
    using iso_sock_conn [OF assms(1,2)] assms(3) by metis
  have err: "\<exists>w'. flush_and_error h cl ?w = Some w' \<and> iso_inv w'"
  proof (cases "us_close_cb u = None")
    case True
    then show ?thesis using flush_error_open [OF assms(1,2) True, of ?v h cl] x by simp
  next
    case False
    then show ?thesis using flush_error_closing [OF assms(1,2) False, of h cl ?v] x assms(3) by simp
  qed
  show ?thesis
  proof (cases "status = 0")
    case False
    then show ?thesis using err assms(2) x(1,2) by (simp add: on_isolated_connect_error_def upd_sock_def)
  next
    case True
    then have "us_close_cb u = None" using assms(4) by blast
    then have op: "us_close_cb u = None" "ch_sock cl = Some s" "\<not> cn_flushed c" using x(8) by auto
    then have c: "\<not> cn_connected c" "cn_running c" using x(2,5,10) assms(2,3) by (auto simp: iso_up_def)
    let ?c = "c\<lparr>cn_connected := True\<rparr>"
    let ?u = "u\<lparr>us_connect := False, us_reading := True\<rparr>"
    let ?w' = "iso_put p ?c h cl s ?u [CONNECTION_CONNECTED] w"
    have "on_isolated_connect_error s status 0 0 w = Some ?w'"
      using True op c assms(2) x(1-4)
      by (auto simp: on_isolated_connect_error_def upd_sock_def OnConnect_def upd_conn_def log_event_def iso_put_def fun_upd_idem intro!: world.equality)
    moreover have "iso_inv ?w'"
    proof (rule iso_put_inv [OF assms(1) x(4,5,2) assms(2) x(1)])
      show "if cn_disposed ?c then iso_gone ?w' p ?c else iso_up ?w' p ?c" using x op by (simp add: iso_up_def)
      show "us_close_cb y \<noteq> None \<and> cn_flushed ?c" if "r \<noteq> s" "w_socks w r = Some y" "us_data y = Some h" for r y
        using iso_open_unique [OF assms(1) that(2,3) x(2)] x(3,4) op(2,3) that(1) by simp
    qed (use x op c in \<open>auto simp: iso_conn_def\<close>)
    ultimately show ?thesis by blast
  qed
qed

lemma iso_closed_ok:
  assumes "iso_inv w" "w_socks w s = Some u" "us_close_cb u \<noteq> None"
  shows "\<exists>w'. run_close_cb s w = Some w' \<and> iso_inv w'"
proof -
  obtain h cl p c where x: "us_data u = Some h" "w_clnts w h = Some cl" "ch_conn cl = Some p" "w_conns w p = Some c" "cn_clnt c = Some h"
    "iso_conn w p c" "us_close_cb u = Some On_sock_close" "cn_flushed c"
    using iso_sock_conn [OF assms(1,2)] assms(3) by metis
  let ?w = "w\<lparr>w_socks := (w_socks w)(s := None)\<rparr>"
  have "run_close_cb s w = Some ?w" using assms(2) x(7) by (simp add: run_close_cb_def free_sock_def)
  moreover have "iso_inv ?w"
  proof (rule iso_frame [OF assms(1), of ?w p c])
    show "fresh_ok ?w" using iso_invD(1) [OF assms(1)] by (auto simp: fresh_ok_def)
    show "id_ok ?w" using iso_invD(2) [OF assms(1)] by (simp add: id_ok_def)
    show "w_socks ?w r = Some y \<longleftrightarrow> w_socks w r = Some y" if "us_data y \<noteq> cn_clnt c" for r y using that x(1,5) assms(2) by auto
    show "iso_sock ?w r y" if "w_socks ?w r = Some y" for r y
      using that iso_invD(5) [OF assms(1), of r y] by (auto simp: iso_sock_def split: if_splits)
    have "no_requests ?w c" if "no_requests w c" using that by (auto simp: no_requests_def sock_of_def)
    then show "iso_conn ?w p c" using x(5,6,8) by (auto simp: iso_conn_def iso_gone_def iso_up_def)
    show "iso_events ?w p (cn_connected c)" using iso_invD(4) [OF assms(1) x(4)] by (simp add: iso_events_def events_of_def)
    show "events_of ?w q = events_of w q" for q by (simp add: events_of_def)
  qed (use x in auto)
  ultimately show ?thesis by blast
qed

text \<open>A change of the connection alone.\<close>

definition iso_set :: "nat \<Rightarrow> conn \<Rightarrow> conn_event list \<Rightarrow> world \<Rightarrow> world" where
  "iso_set p c es w = w\<lparr>w_conns := (w_conns w)(p \<mapsto> c), w_events := w_events w @ map (\<lambda>e. (e, p)) es\<rparr>"

lemma iso_set_simps [simp]:
  "w_socks (iso_set p c es w) = w_socks w" "w_clnts (iso_set p c es w) = w_clnts w"
  "w_conns (iso_set p c es w) = (w_conns w)(p \<mapsto> c)" "w_next_id (iso_set p c es w) = w_next_id w"
  "no_requests (iso_set p c es w) d = no_requests w d"
  by (simp_all add: iso_set_def no_requests_def sock_of_def)

lemma iso_set_inv:
  assumes "iso_inv w" "w_conns w p = Some b" "cn_clnt c = cn_clnt b" "cn_flushed b \<Longrightarrow> cn_flushed c" "iso_conn (iso_set p c es w) p c"
    "es = (if cn_connected b = cn_connected c then [] else if cn_connected c then [CONNECTION_CONNECTED] else [CONNECTION_DISCONNECTED])"
  shows "iso_inv (iso_set p c es w)" (is "iso_inv ?w")
proof (rule iso_frame [OF assms(1), of ?w p c])
  show "fresh_ok ?w" using iso_invD(1) [OF assms(1)] fresh_bounds(1) [OF iso_invD(1) [OF assms(1)] assms(2)]
    by (auto simp: fresh_ok_def iso_set_def)
  show "id_ok ?w" using iso_invD(2) [OF assms(1)] by (simp add: id_ok_def)
  show "iso_sock ?w r y" if "w_socks ?w r = Some y" for r y
  proof -
    have "iso_sock w r y" using that iso_invD(5) [OF assms(1)] by simp
    then obtain h cl q d where y: "us_data y = Some h" "w_clnts w h = Some cl" "ch_conn cl = Some q" "w_conns w q = Some d" "cn_clnt d = Some h"
      "if us_close_cb y = None then ch_sock cl = Some r else us_close_cb y = Some On_sock_close \<and> cn_flushed d"
      unfolding iso_sock_def by blast
    show ?thesis unfolding iso_sock_def using y assms(2-4) by (intro exI [of _ h] exI [of _ cl] exI [of _ q]) auto
  qed
  have ev: "events_of ?w q = events_of w q @ (if q = p then es else [])" for q
    using events_of_add [of w p es q] by (simp add: events_of_def iso_set_def)
  show "iso_events ?w p (cn_connected c)"
    by (rule events_alternate [OF iso_invD(4) [OF assms(1,2)] _ assms(6)]) (use ev in simp)
  show "events_of ?w q = events_of w q" if "q \<noteq> p" for q using ev that by simp
qed (use assms(2,3,5) in auto)

lemma iso_delay_ok:
  assumes "iso_inv w" "w_conns w p = Some c" "cn_clnt c \<noteq> None"
  shows "\<exists>w'. DelayReconnect p w = Some w' \<and> iso_inv w'"
proof (cases "cn_delay c \<or> cn_disposed c")
  case True
  then show ?thesis using assms by (auto simp: DelayReconnect_def)
next
  case False
  have c: "iso_conn w p c" "iso_up w p c" using iso_invD(3) [OF assms(1,2)] False assms(3) by (auto simp: iso_conn_def)
  let ?c = "c\<lparr>cn_delay := True, cn_timer := Some True\<rparr>"
  have "DelayReconnect p w = Some (iso_set p ?c [] w)"
    using assms(2) c(2) False by (simp add: DelayReconnect_def upd_conn_def iso_set_def iso_up_def)
  moreover have "iso_inv (iso_set p ?c [] w)"
    by (rule iso_set_inv [OF assms(1,2)]) (use c False assms(3) in \<open>auto simp: iso_conn_def iso_up_def split: if_splits\<close>)
  ultimately show ?thesis by blast
qed

definition iso_ended :: "conn \<Rightarrow> conn" where
  "iso_ended c = c\<lparr>cn_running := False, cn_connected := False, cn_disposed := True, cn_packet := False, cn_flushed := True, cn_timer := None\<rparr>"

lemma iso_dispose_ok:
  assumes "iso_inv w" "w_conns w p = Some c" "no_requests w c"
  shows "\<exists>w'. Disconnect p w = Some w' \<and> iso_inv w' \<and> (\<not> cn_disposed c \<longrightarrow> cn_running c \<longrightarrow> w_conns w' p = Some (iso_ended c))"
proof (cases "cn_disposed c \<or> \<not> cn_running c")
  case True
  then show ?thesis using assms by (auto simp: Disconnect_def)
next
  case False
  have c: "iso_conn w p c" using iso_invD(3) [OF assms(1,2)] .
  then have iso: "iso_up w p c" using False by (auto simp: iso_conn_def iso_idle_def split: if_splits)
  then obtain h cl where up: "iso_up w p c" "cn_clnt c = Some h" "w_clnts w h = Some cl" "ch_conn cl = Some p" "ch_bb cl"
    by (auto simp: iso_up_def)
  have k: "cn_kind c = Isolated" "0 < cn_id c" using c by (auto simp: iso_conn_def)
  let ?es = "if cn_connected c then [CONNECTION_DISCONNECTED] else []"
  let ?d = "if cn_connected c then c\<lparr>cn_running := False, cn_connected := False\<rparr> else c\<lparr>cn_running := False\<rparr>"
  have dis: "Disconnect p w = DisposeConnection p (iso_set p ?d ?es w)"
    using assms(2) False k by (auto simp: Disconnect_def upd_conn_def OnDisconnect_def log_event_def iso_set_def ReleaseConnection_def)
  show ?thesis
  proof (cases "cn_flushed c")
    case True
    have "iso_ended c = ?d\<lparr>cn_disposed := True, cn_packet := False, cn_timer := None\<rparr>"
      using True by (cases c) (auto simp: iso_ended_def)
    then have "DisposeConnection p (iso_set p ?d ?es w) = Some (iso_set p (iso_ended c) ?es w)"
      using True False up(2,3) by (auto simp: DisposeConnection_def upd_conn_def FlushStream_def iso_set_def)
    moreover have "iso_gone w p (iso_ended c)"
      using up True assms(3) by (auto simp: iso_gone_def iso_ended_def iso_up_def no_requests_def sock_of_def)
    then have "iso_inv (iso_set p (iso_ended c) ?es w)"
      by (intro iso_set_inv [OF assms(1,2)]) (use k in \<open>auto simp: iso_conn_def iso_gone_def iso_ended_def\<close>)
    ultimately show ?thesis using dis by auto
  next
    case nf: False
    then obtain s u where s: "ch_sock cl = Some s" "w_socks w s = Some u" "us_close_cb u = None" "us_data u = Some h"
      using up by (auto simp: iso_up_def)
    let ?u = "u\<lparr>us_close_cb := Some On_sock_close, us_reading := False\<rparr>"
    let ?w = "iso_put p (iso_ended c) h (cl\<lparr>ch_sock := None\<rparr>) s ?u ?es w"
    have "iso_ended c = ?d\<lparr>cn_disposed := True, cn_packet := False, cn_flushed := True, cn_timer := None\<rparr>"
      by (cases c) (auto simp: iso_ended_def)
    then have "DisposeConnection p (iso_set p ?d ?es w) = Some ?w"
      using nf False up(2,3) s k
      by (auto simp: DisposeConnection_def upd_conn_def upd_clnt_def upd_sock_def FlushStream_def uv_close_w_def stream_close_cb_def
        iso_set_def iso_put_def intro!: world.equality)
    moreover have "iso_inv ?w"
    proof (rule iso_put_inv [OF assms(1,2) up(2,3) s(2,4)])
      have "no_requests ?w (iso_ended c)"
        using assms(3) s(2,4) up(2) by (auto simp: no_requests_def sock_of_def iso_ended_def)
      then show "if cn_disposed (iso_ended c) then iso_gone ?w p (iso_ended c) else iso_up ?w p (iso_ended c)"
        using up by (simp add: iso_gone_def iso_ended_def)
      show "us_close_cb y \<noteq> None \<and> cn_flushed (iso_ended c)" if "r \<noteq> s" "w_socks w r = Some y" "us_data y = Some h" for r y
        using iso_open_unique [OF assms(1) that(2,3) up(3)] s(1) that(1) by (simp add: iso_ended_def)
    qed (use k up s in \<open>auto simp: iso_ended_def\<close>)
    ultimately show ?thesis using dis by auto
  qed
qed

lemma iso_release_ok:
  assumes "iso_inv w" "w_conns w p = Some c" "\<not> cn_running c"
  shows "\<exists>w'. ReleaseConnection p w = Some w' \<and> iso_inv w'"
proof (cases "cn_disposed c")
  case True
  then show ?thesis using assms by (auto simp: ReleaseConnection_def DisposeConnection_def)
next
  case False
  have c: "iso_conn w p c" using iso_invD(3) [OF assms(1,2)] .
  then have idle: "iso_idle c" "cn_clnt c = None" using False assms(3) by (auto simp: iso_conn_def iso_up_def split: if_splits)
  let ?c = "c\<lparr>cn_disposed := True, cn_packet := False, cn_timer := None\<rparr>"
  have "ReleaseConnection p w = Some (iso_set p ?c [] w)"
    using assms(2) False idle(2) by (simp add: ReleaseConnection_def DisposeConnection_def FlushStream_def upd_conn_def iso_set_def)
  moreover have "iso_inv (iso_set p ?c [] w)"
    by (rule iso_set_inv [OF assms(1,2)])
      (use c idle in \<open>auto simp: iso_conn_def iso_idle_def iso_gone_def no_requests_def sock_of_def\<close>)
  ultimately show ?thesis by blast
qed

lemma iso_reopen_ok:
  assumes "iso_inv w" "w_conns w p = Some c" "cn_clnt c \<noteq> None" "cn_connected c \<Longrightarrow> no_requests w c"
  shows "\<exists>w'. Reopen p w = Some w' \<and> iso_inv w'"
proof (cases "cn_disposed c \<or> \<not> cn_connected c")
  case True
  then show ?thesis using assms(1,2) iso_delay_ok [OF assms(1-3)] by (auto simp: Reopen_def)
next
  case False
  then obtain w' where w': "Disconnect p w = Some w'" "iso_inv w'" "cn_running c \<longrightarrow> w_conns w' p = Some (iso_ended c)"
    using iso_dispose_ok [OF assms(1,2)] assms(4) by blast
  have "cn_running c" using iso_invD(3) [OF assms(1,2)] False assms(3) by (auto simp: iso_conn_def iso_up_def split: if_splits)
  then have "DelayReconnect p w' = Some w'" using w'(3) by (simp add: DelayReconnect_def iso_ended_def)
  then show ?thesis using w'(1,2) assms(2) False by (auto simp: Reopen_def)
qed

lemma iso_post_ok:
  assumes "iso_inv w" "w_conns w p = Some c" "\<not> cn_disposed c" "\<not> cn_flushed c" "\<forall>(r, len) \<in> set pages. 0 \<le> r"
  shows "\<exists>w'. post_pages_raw pages p w = Some w' \<and> iso_inv w'"
  using assms
proof (induction pages arbitrary: w)
  case (Cons a pages)
  obtain r len where a: "a = (r, len)" "0 \<le> r" using Cons.prems(5) by (cases a) auto
  have c: "iso_conn w p c" using iso_invD(3) [OF Cons.prems(1,2)] .
  then have up: "iso_up w p c" "cn_kind c = Isolated" using Cons.prems(3,4) by (auto simp: iso_conn_def iso_idle_def split: if_splits)
  then obtain h cl s u where x: "cn_clnt c = Some h" "w_clnts w h = Some cl" "ch_sock cl = Some s" "w_socks w s = Some u"
    "us_close_cb u = None"
    using Cons.prems(4) by (auto simp: iso_up_def)
  let ?w = "w\<lparr>w_socks := (w_socks w)(s \<mapsto> u\<lparr>us_writes := Suc (us_writes u)\<rparr>)\<rparr>"
  have "SendRaw r p len w = Some (len, ?w)"
    using x Cons.prems(2) a(2) up(2) by (simp add: SendRaw_def upd_sock_def writecb_ok_def)
  moreover have "iso_inv ?w" by (rule iso_sock_update [OF Cons.prems(1) x(4)]) (use x(5) in auto)
  moreover have "cn_packet c" using up(1) by (simp add: iso_up_def)
  ultimately show ?case using Cons.IH [of ?w] Cons.prems a(1) by auto
qed simp

lemma iso_post_packet_ok:
  assumes "iso_inv w" "w_conns w p = Some c" "\<forall>(r, len) \<in> set pages. 0 \<le> r"
  shows "\<exists>w'. PostPacket pages p w = Some w' \<and> iso_inv w'"
  using iso_post_ok [OF assms(1,2) _ _ assms(3)] assms(1,2) by (auto simp: PostPacket_def conn_IsReady_def)

lemma iso_timer_ok:
  assumes "iso_inv w" "w_conns w p = Some c" "cn_timer c = Some True" "no_closing w c"
  shows "\<exists>w'. client_reconnect_timer_cb 0 0 p w = Some w' \<and> iso_inv w'"
proof -
  have c: "iso_conn w p c" using iso_invD(3) [OF assms(1,2)] .
  then have up: "iso_up w p c" "cn_running c" "\<not> cn_disposed c" "cn_kind c = Isolated" "0 < cn_id c"
    using assms(3) by (auto simp: iso_conn_def iso_idle_def iso_gone_def iso_up_def split: if_splits)
  then obtain h cl where x: "cn_clnt c = Some h" "w_clnts w h = Some cl" "ch_conn cl = Some p" "ch_bb cl" by (auto simp: iso_up_def)
  show ?thesis
  proof (cases "cn_flushed c")
    case False
    let ?c = "c\<lparr>cn_timer := Some False, cn_delay := False\<rparr>"
    have "c\<lparr>cn_timer := Some False, cn_delay := False, cn_running := True\<rparr> = ?c" using up(2) by (cases c) simp
    then have "client_reconnect_timer_cb 0 0 p w = Some (iso_set p ?c [] w)"
      using assms(2) False up(3) by (simp add: client_reconnect_timer_cb_def Reconnect_def upd_conn_def iso_set_def)
    moreover have "iso_inv (iso_set p ?c [] w)"
      by (rule iso_set_inv [OF assms(1,2)]) (use c up x False in \<open>auto simp: iso_conn_def iso_up_def split: if_splits\<close>)
    ultimately show ?thesis by blast
  next
    case True
    let ?c = "c\<lparr>cn_timer := Some False, cn_delay := False, cn_running := True, cn_flushed := False\<rparr>"
    let ?s = "w_fresh w"
    let ?u = "\<lparr>us_data = Some h, us_close_cb = None, us_connect = True, us_reading = False, us_writes = 0\<rparr>"
    let ?w = "w\<lparr>w_fresh := Suc ?s, w_socks := (w_socks w)(?s \<mapsto> ?u), w_clnts := (w_clnts w)(h \<mapsto> cl\<lparr>ch_sock := Some ?s\<rparr>),
      w_conns := (w_conns w)(p \<mapsto> ?c)\<rparr>"
    have eff: "client_reconnect_timer_cb 0 0 p w = Some ?w"
      using assms(2) True up(3) x
      by (auto simp: client_reconnect_timer_cb_def Reconnect_def upd_conn_def uv_real_connect_w_def alloc_sock_def upd_clnt_def Let_def
        intro!: world.equality)
    have fresh: "fresh_ok w" by (rule iso_invD(1) [OF assms(1)])
    have none: "w_socks w ?s = None" using fresh by (simp add: fresh_ok_def)
    have "iso_inv ?w"
    proof (rule iso_frame [OF assms(1), of ?w p ?c])
      show "fresh_ok ?w" using fresh fresh_bounds(1) [OF fresh assms(2)] fresh_bounds(2) [OF fresh x(2)]
        by (auto simp: fresh_ok_def less_Suc_eq)
      show "id_ok ?w" using iso_invD(2) [OF assms(1)] by (simp add: id_ok_def)
      show "w_socks ?w r = Some y \<longleftrightarrow> w_socks w r = Some y" if "us_data y \<noteq> cn_clnt ?c" for r y using that x(1) none by auto
      show "iso_sock ?w r y" if y: "w_socks ?w r = Some y" "us_data y = cn_clnt ?c" for r y
      proof (cases "r = ?s")
        case True
        then show ?thesis using y x by (auto simp: iso_sock_def)
      next
        case False
        then have "w_socks w r = Some y" "us_data y = Some h" using y x by auto
        moreover from this have "us_close_cb y = None" using assms(4) x(1) by (auto simp: no_closing_def sock_of_def)
        moreover have "ch_sock cl = None" using up(1) True x(1,2) by (auto simp: iso_up_def)
        ultimately show ?thesis using iso_open_unique [OF assms(1), of r y h cl] x(2) by auto
      qed
      show "iso_conn ?w p ?c" using x up by (simp add: iso_conn_def iso_up_def True)
      have "\<not> cn_connected c" using up(1) True by (auto simp: iso_up_def)
      then show "iso_events ?w p (cn_connected ?c)" using iso_invD(4) [OF assms(1,2)] by (simp add: iso_events_def events_of_def)
      show "events_of ?w q = events_of w q" for q by (simp add: events_of_def)
    qed (use x assms(2) in auto)
    then show ?thesis using eff by blast
  qed
qed

lemma iso_create_ok:
  assumes "iso_inv w" "w_next_id w + 1 < TCP_CONNID_MAX"
  shows "\<exists>w'. map_option snd (CreateTcpIsolated w) = Some w' \<and> iso_inv w'"
proof -
  note id = iso_invD(2) [OF assms(1), unfolded id_ok_def TCP_CONNID_BASE_def TCP_CONNID_MAX_def]
  have id': "0 < w_next_id w + 1" "TCP_CONNID_BASE \<le> w_next_id w + 1"
    using id by (unat_arith; simp add: TCP_CONNID_BASE_def)+
  let ?c = "new_isolated (w_next_id w + 1)"
  let ?p = "w_fresh w"
  let ?w = "w\<lparr>w_fresh := Suc ?p, w_conns := (w_conns w)(?p \<mapsto> ?c), w_next_id := w_next_id w + 1,
    w_isolated := AList.update (w_next_id w + 1) ?p (w_isolated w)\<rparr>"
  have "map_option snd (CreateTcpIsolated w) = Some ?w"
    using assms(2) id'(1)
    by (auto simp: CreateTcpIsolated_def GetNextConnectionId_def alloc_conn_def OnAddIsolated_def new_isolated_def Let_def intro!: world.equality)
  moreover have fresh: "fresh_ok w" by (rule iso_invD(1) [OF assms(1)])
  then have none: "w_conns w ?p = None" by (simp add: fresh_ok_def)
  have "iso_inv ?w"
  proof (rule iso_frame [OF assms(1), of ?w ?p ?c])
    show "fresh_ok ?w" using fresh by (auto simp: fresh_ok_def less_Suc_eq)
    show "id_ok ?w" using id'(2) assms(2) by (simp add: id_ok_def)
    show "iso_sock ?w r y" if "w_socks ?w r = Some y" "us_data y = cn_clnt ?c" for r y
      using that iso_invD(5) [OF assms(1), of r y] by (auto simp: iso_sock_def new_isolated_def)
    show "iso_conn ?w ?p ?c" using id'(1) by (simp add: iso_conn_def new_isolated_def iso_idle_def)
    have "events_of w ?p = []" using fresh by (force simp: events_of_def fresh_ok_def filter_empty_conv)
    then show "iso_events ?w ?p (cn_connected ?c)"
      unfolding iso_events_def by (intro exI [of _ 0]) (simp add: events_of_def new_isolated_def)
    show "events_of ?w q = events_of w q" for q by (simp add: events_of_def)
  qed (use none in \<open>auto simp: new_isolated_def\<close>)
  ultimately show ?thesis by blast
qed

text \<open>\<open>Connect\<close>: when it returns 0 a new handle has a socket that is connecting; otherwise no handle is left.\<close>

lemma iso_connect_fail_ok:
  assumes "iso_inv w" "w_conns w p = Some c" "iso_idle c" "iso_conn w p c" "\<not> cn_disposed c" "w_fresh w \<le> n"
  shows "iso_inv (w\<lparr>w_fresh := n, w_conns := (w_conns w)(p \<mapsto> c\<lparr>cn_packet := True, cn_timer := Some False, cn_clnt := None\<rparr>)\<rparr>)"
    (is "iso_inv ?w")
proof (rule iso_frame [OF assms(1), of ?w p "c\<lparr>cn_packet := True, cn_timer := Some False, cn_clnt := None\<rparr>"])
  have fresh: "fresh_ok w" by (rule iso_invD(1) [OF assms(1)])
  show "fresh_ok ?w" using fresh fresh_bounds(1) [OF fresh assms(2)] assms(6) by (force simp: fresh_ok_def)
  show "id_ok ?w" using iso_invD(2) [OF assms(1)] by (simp add: id_ok_def)
  show "iso_sock ?w r y" if "w_socks ?w r = Some y" "us_data y = cn_clnt (c\<lparr>cn_packet := True, cn_timer := Some False, cn_clnt := None\<rparr>)" for r y
    using that iso_invD(5) [OF assms(1), of r y] by (auto simp: iso_sock_def)
  show "iso_conn ?w p (c\<lparr>cn_packet := True, cn_timer := Some False, cn_clnt := None\<rparr>)"
    using assms(3-5) by (simp add: iso_conn_def iso_idle_def)
  show "iso_events ?w p (cn_connected (c\<lparr>cn_packet := True, cn_timer := Some False, cn_clnt := None\<rparr>))"
    using iso_invD(4) [OF assms(1,2)] by (simp add: iso_events_def events_of_def)
  show "events_of ?w q = events_of w q" for q by (simp add: events_of_def)
qed (use assms(2,3) in \<open>auto simp: iso_idle_def\<close>)

lemma iso_connect_ok:
  assumes "iso_inv w" "w_conns w p = Some c" "\<not> cn_running c" "\<not> cn_disposed c"
  shows "\<exists>w'. map_option snd (Connect ip r_addr r_init 0 p w) = Some w' \<and> iso_inv w'"
proof -
  have c: "iso_conn w p c" using iso_invD(3) [OF assms(1,2)] .
  then have idle: "iso_idle c" using assms(3,4) by (auto simp: iso_conn_def iso_up_def split: if_splits)
  then have i: "cn_clnt c = None" "\<not> cn_connected c" "cn_flushed c" by (simp_all add: iso_idle_def)
  have fresh: "fresh_ok w" by (rule iso_invD(1) [OF assms(1)])
  let ?h = "w_fresh w"
  let ?s = "Suc ?h"
  have none: "w_clnts w ?h = None" "w_socks w ?s = None" using fresh by (simp_all add: fresh_ok_def)
  consider "\<not> is_ip_address ip" | "is_ip_address ip" "r_addr \<noteq> 0" | "is_ip_address ip" "r_addr = 0" "r_init \<noteq> 0"
    | "is_ip_address ip" "r_addr = 0" "r_init = 0" by blast
  then show ?thesis
  proof cases
    case 1
    then show ?thesis using assms i by (simp add: Connect_def)
  next
    case 2
    then show ?thesis
      using assms i iso_connect_fail_ok [OF assms(1,2) idle c assms(4), of "w_fresh w"]
      by (simp add: Connect_def uv_connect_w_def upd_conn_def)
  next
    case 3
    have "(w_clnts w)(?h := None) = w_clnts w" using none by (simp add: fun_upd_idem)
    then show ?thesis
      using 3 assms i iso_connect_fail_ok [OF assms(1,2) idle c assms(4), of "Suc ?h"]
      by (simp add: Connect_def uv_connect_w_def upd_conn_def alloc_clnt_def uv_real_connect_w_def)
  next
    case 4
    let ?c = "c\<lparr>cn_packet := True, cn_timer := Some False, cn_clnt := Some ?h, cn_running := True, cn_flushed := False\<rparr>"
    let ?w = "w\<lparr>w_fresh := Suc ?s,
      w_socks := (w_socks w)(?s \<mapsto> \<lparr>us_data = Some ?h, us_close_cb = None, us_connect = True, us_reading = False, us_writes = 0\<rparr>),
      w_clnts := (w_clnts w)(?h \<mapsto> \<lparr>ch_sock = Some ?s, ch_conn = Some p, ch_bb = True\<rparr>), w_conns := (w_conns w)(p \<mapsto> ?c)\<rparr>"
    have "map_option snd (Connect ip r_addr r_init 0 p w) = Some ?w"
      using 4 assms i
      by (auto simp: Connect_def uv_connect_w_def upd_conn_def upd_clnt_def alloc_clnt_def alloc_sock_def uv_real_connect_w_def Let_def
        intro!: world.equality)
    moreover have "iso_inv ?w"
    proof (rule iso_frame [OF assms(1), of ?w p ?c])
      show "fresh_ok ?w" using fresh fresh_bounds(1) [OF fresh assms(2)] by (auto simp: fresh_ok_def less_Suc_eq)
      show "id_ok ?w" using iso_invD(2) [OF assms(1)] by (simp add: id_ok_def)
      show "w_socks ?w r = Some y \<longleftrightarrow> w_socks w r = Some y" if "us_data y \<noteq> cn_clnt ?c" for r y using that none(2) by auto
      show "iso_sock ?w r y" if y: "w_socks ?w r = Some y" "us_data y = cn_clnt ?c" for r y
        using y none(1) iso_invD(5) [OF assms(1), of r y] by (cases "r = ?s") (auto simp: iso_sock_def)
      show "iso_conn ?w p ?c" using c assms(4) i(2) idle by (simp add: iso_conn_def iso_up_def iso_idle_def)
      show "iso_events ?w p (cn_connected ?c)" using iso_invD(4) [OF assms(1,2)] by (simp add: iso_events_def events_of_def)
      show "events_of ?w q = events_of w q" for q by (simp add: events_of_def)
    qed (use assms(2) none i in auto)
    ultimately show ?thesis by blast
  qed
qed

lemma iso_do_ok:
  assumes "iso_inv w" "iso_can w op"
  shows "\<exists>w'. iso_do op w = Some w' \<and> iso_inv w'"
proof (cases op)
  case ICreate
  then show ?thesis using assms iso_create_ok by simp
next
  case (IConnect p ip r_addr r_init)
  then show ?thesis using assms iso_connect_ok by (auto split: option.splits)
next
  case (IConnected s status)
  then show ?thesis using assms iso_connect_cb_ok by (auto split: option.splits)
next
  case (IRead s nread)
  then show ?thesis using assms iso_recv_ok by (auto split: option.splits)
next
  case (ISent s status io_pending)
  then show ?thesis using assms iso_send_cb_ok by (auto split: option.splits)
next
  case (IClosed s)
  then show ?thesis using assms iso_closed_ok by (auto split: option.splits)
next
  case (ITimer p)
  then show ?thesis using assms iso_timer_ok by (auto split: option.splits)
next
  case (ISend p pages)
  then show ?thesis using assms iso_post_packet_ok by auto
next
  case (IReopen p)
  then obtain c where "w_conns w p = Some c" "cn_clnt c \<noteq> None" "cn_connected c \<Longrightarrow> no_requests w c"
    using assms(2) by (auto split: option.splits)
  then show ?thesis using IReopen iso_reopen_ok [OF assms(1)] by simp
next
  case (IDisconnect p)
  then obtain c where "w_conns w p = Some c" "no_requests w c" using assms(2) by (auto split: option.splits)
  then show ?thesis using IDisconnect iso_dispose_ok [OF assms(1)] by fastforce
next
  case (IDispose p)
  then show ?thesis using assms iso_release_ok by (auto split: option.splits)
qed

lemma iso_new_world: "iso_inv new_world"
  by (simp add: iso_inv_def fresh_ok_def id_ok_def) (simp add: new_world_def TCP_CONNID_BASE_def TCP_CONNID_MAX_def)

interpretation isolated: step_system iso_can iso_do new_world iso_inv
  by unfold_locales (rule iso_new_world, rule iso_do_ok)

lemma iso_reachable_inv: "iso_reachable w \<Longrightarrow> iso_inv w"
  unfolding iso_reachable_def by (rule isolated.reaches_invar)

section \<open>Properties\<close>

text \<open>An isolated connection that is connecting, then connected, then waiting for its timer.\<close>

definition idle_world :: world where
  "idle_world = new_world\<lparr>w_fresh := 2, w_conns := [1 \<mapsto> new_isolated 1000000001], w_next_id := 1000000001, w_isolated := [(1000000001, 1)]\<rparr>"

definition connecting_world :: world where
  "connecting_world = idle_world\<lparr>w_fresh := 4,
     w_socks := [3 \<mapsto> \<lparr>us_data = Some 2, us_close_cb = None, us_connect = True, us_reading = False, us_writes = 0\<rparr>],
     w_clnts := [2 \<mapsto> \<lparr>ch_sock = Some 3, ch_conn = Some 1, ch_bb = True\<rparr>],
     w_conns := [1 \<mapsto> (new_isolated 1000000001)\<lparr>cn_packet := True, cn_timer := Some False, cn_clnt := Some 2,
       cn_running := True, cn_flushed := False\<rparr>]\<rparr>"

definition waiting_world :: world where
  "waiting_world = connecting_world\<lparr>w_socks := Map.empty,
     w_clnts := [2 \<mapsto> \<lparr>ch_sock = None, ch_conn = Some 1, ch_bb = True\<rparr>],
     w_conns := [1 \<mapsto> (new_isolated 1000000001)\<lparr>cn_packet := True, cn_timer := Some True, cn_clnt := Some 2,
       cn_running := True, cn_delay := True\<rparr>]\<rparr>"

lemma connecting_reachable: "iso_reachable connecting_world"
proof -
  have "iso_reachable idle_world"
    by (rule iso_step [OF iso_start, of ICreate])
      (simp_all add: new_world_def idle_world_def TCP_CONNID_BASE_def TCP_CONNID_MAX_def CreateTcpIsolated_def GetNextConnectionId_def
        alloc_conn_def OnAddIsolated_def new_isolated_def Let_def)
  then show ?thesis
    by (rule iso_step [of _ "IConnect 1 ''10.0.0.1'' 0 0"])
      (simp_all add: new_world_def idle_world_def connecting_world_def new_isolated_def Connect_def is_ip_char_def uv_connect_w_def
        upd_conn_def upd_clnt_def alloc_clnt_def alloc_sock_def uv_real_connect_w_def Let_def)
qed

lemma waiting_reachable: "iso_reachable waiting_world"
proof -
  let ?w = "waiting_world\<lparr>w_socks := [3 \<mapsto> \<lparr>us_data = Some 2, us_close_cb = Some On_sock_close, us_connect = False, us_reading = False, us_writes = 0\<rparr>]\<rparr>"
  have "iso_reachable ?w"
    by (rule iso_step [OF connecting_reachable, of "IConnected 3 (- 1)"])
      (simp_all add: new_world_def idle_world_def connecting_world_def waiting_world_def new_isolated_def on_isolated_connect_error_def
        flush_and_error_def FlushStream_def uv_close_w_def upd_sock_def upd_clnt_def upd_conn_def stream_close_cb_def OnIsolatedError_def
        OnDisconnect_def DelayReconnect_def)
  then show ?thesis
    by (rule iso_step [of _ "IClosed 3"])
      (simp_all add: new_world_def idle_world_def connecting_world_def waiting_world_def run_close_cb_def free_sock_def)
qed



text \<open>The open socket of a connection, connecting or connected.\<close>

definition iso_open :: "world \<Rightarrow> nat \<Rightarrow> bool" where
  "iso_open w p \<longleftrightarrow> (\<exists>c h cl s u. w_conns w p = Some c \<and> \<not> cn_disposed c \<and> cn_clnt c = Some h \<and> w_clnts w h = Some cl \<and>
     ch_sock cl = Some s \<and> w_socks w s = Some u \<and> us_close_cb u = None \<and> (us_connect u \<or> cn_connected c \<and> us_reading u))"

lemma iso_up_open:
  assumes "w_conns w p = Some c" "\<not> cn_disposed c" "iso_up w p c" "\<not> cn_flushed c"
  shows "iso_open w p"
proof -
  obtain h cl s u where x: "cn_clnt c = Some h" "w_clnts w h = Some cl" "ch_sock cl = Some s" "w_socks w s = Some u" "us_close_cb u = None"
    "us_connect u = (\<not> cn_connected c)" "us_reading u = cn_connected c"
    using assms(3,4) by (auto simp: iso_up_def)
  then show ?thesis unfolding iso_open_def using assms(1,2) by blast
qed



section \<open>Error paths\<close>

text \<open>
  Disposing of a connection while a request is pending ends in undefined behaviour: libuv calls
  the request back with an error, and the callback clears the packet object, which is deleted.
\<close>

theorem isolated_cancelled_request:
  assumes "iso_reachable w" "w_conns w p = Some c" "cn_running c" "\<not> cn_disposed c" "w_socks w s = Some u" "us_data u = cn_clnt c"
    "status \<noteq> 0"
  shows "\<exists>w'. Disconnect p w = Some w' \<and> on_isolated_connect_error s status r_nodelay r_read w' = None \<and>
    on_isolated_send s status False w' = None"
proof -
  have inv: "iso_inv w" by (rule iso_reachable_inv [OF assms(1)])
  have c: "iso_conn w p c" using iso_invD(3) [OF inv assms(2)] .
  have up: "iso_up w p c" using c assms(3,4) by (auto simp: iso_conn_def iso_idle_def split: if_splits)
  then obtain h cl where x: "cn_clnt c = Some h" "w_clnts w h = Some cl" "ch_conn cl = Some p" by (auto simp: iso_up_def)
  have after: "\<exists>w' v d k. Disconnect p w = Some w' \<and> w_socks w' s = Some v \<and> us_data v = Some h \<and> w_clnts w' h = Some k \<and>
    ch_conn k = Some p \<and> ch_sock k = None \<and> w_conns w' p = Some d \<and> cn_clnt d = Some h \<and> \<not> cn_packet d"
  proof (cases "cn_flushed c")
    case True
    then have "ch_sock cl = None" using up x by (auto simp: iso_up_def)
    then show ?thesis using True assms(2-6) x c
      by (auto simp: Disconnect_def OnDisconnect_def upd_conn_def log_event_def ReleaseConnection_def DisposeConnection_def FlushStream_def iso_conn_def)
  next
    case False
    then obtain r v where r: "ch_sock cl = Some r" "w_socks w r = Some v" "us_close_cb v = None" "us_data v = Some h" 
      using up x by (auto simp: iso_up_def)
    then show ?thesis using False assms(2-6) x c
      by (auto simp: Disconnect_def OnDisconnect_def upd_conn_def log_event_def ReleaseConnection_def DisposeConnection_def FlushStream_def
        iso_conn_def uv_close_w_def upd_sock_def upd_clnt_def)
  qed
  then obtain w' v d k where a: "Disconnect p w = Some w'" "w_socks w' s = Some v" "us_data v = Some h" "w_clnts w' h = Some k"
    "ch_conn k = Some p" "ch_sock k = None" "w_conns w' p = Some d" "cn_clnt d = Some h" "\<not> cn_packet d" by blast
  then have "flush_and_error h k (w'\<lparr>w_socks := f\<rparr>) = None" for f
    by (simp add: flush_and_error_def FlushStream_def OnIsolatedError_def)
  then show ?thesis using a assms(7) by (auto simp: on_isolated_connect_error_def on_isolated_send_def upd_sock_def)
qed

lemma isolated_cancelled_request_witness:
  "iso_reachable connecting_world \<and>
   (\<exists>w'. Disconnect 1 connecting_world = Some w' \<and> on_isolated_connect_error 3 (- 4081) 0 0 w' = None)"
proof -
  obtain c u where "w_conns connecting_world 1 = Some c" "cn_running c" "\<not> cn_disposed c" "w_socks connecting_world 3 = Some u"
    "us_data u = cn_clnt c"
    by (simp add: connecting_world_def new_isolated_def)
  from isolated_cancelled_request [OF connecting_reachable this, of "- 4081"] show ?thesis using connecting_reachable by auto
qed

text \<open>
  C36. Two ways to lose a connection for good. \<open>Reconnect\<close> clears the flushed flag before it connects and does
  not look at the result: when \<open>uv_tcp_init\<close> fails there is neither a socket nor a timer, and every later
  reconnect takes the connection for one that is still flushing and opens no socket. \<open>Reopen\<close> of a connected
  connection disposes of it, and its timer is gone with it.
\<close>

theorem isolated_connection_lost:
  assumes "iso_reachable w" "w_conns w p = Some c" "\<not> cn_disposed c"
  shows "(cn_timer c = Some True \<and> cn_flushed c \<and> r_init \<noteq> 0 \<longrightarrow>
      (\<exists>w1 c1. client_reconnect_timer_cb r_init r_connect p w = Some w1 \<and> w_socks w1 = w_socks w \<and>
        w_conns w1 p = Some c1 \<and> cn_running c1 \<and> \<not> cn_connected c1 \<and> cn_timer c1 = Some False \<and>
        (\<forall>i j. \<exists>w2. client_reconnect_timer_cb i j p w1 = Some w2 \<and> w_socks w2 = w_socks w1))) \<and>
    (cn_connected c \<and> no_requests w c \<longrightarrow>
      (\<exists>w1 c1. Reopen p w = Some w1 \<and> w_conns w1 p = Some c1 \<and> cn_disposed c1 \<and> cn_timer c1 = None \<and> Reopen p w1 = Some w1))"
proof (intro conjI impI; elim conjE)
  have inv: "iso_inv w" by (rule iso_reachable_inv [OF assms(1)])
  have c: "iso_conn w p c" using iso_invD(3) [OF inv assms(2)] .
  {
    assume t: "cn_timer c = Some True" "cn_flushed c" "r_init \<noteq> 0"
    then have up: "iso_up w p c" using c assms(3) by (auto simp: iso_conn_def iso_idle_def split: if_splits)
    then obtain h cl where x: "cn_clnt c = Some h" "w_clnts w h = Some cl" "\<not> cn_connected c" "cn_running c" using t(2) by (auto simp: iso_up_def)
    let ?c = "c\<lparr>cn_timer := Some False, cn_delay := False, cn_running := True, cn_flushed := False\<rparr>"
    let ?w = "w\<lparr>w_conns := (w_conns w)(p \<mapsto> ?c)\<rparr>"
    have "client_reconnect_timer_cb r_init r_connect p w = Some ?w"
      using assms(2,3) t x by (simp add: client_reconnect_timer_cb_def Reconnect_def upd_conn_def uv_real_connect_w_def)
    moreover have "\<exists>w2. client_reconnect_timer_cb i j p ?w = Some w2 \<and> w_socks w2 = w_socks ?w" for i j
      using assms(3) by (simp add: client_reconnect_timer_cb_def Reconnect_def upd_conn_def)
    ultimately show "\<exists>w1 c1. client_reconnect_timer_cb r_init r_connect p w = Some w1 \<and> w_socks w1 = w_socks w \<and>
        w_conns w1 p = Some c1 \<and> cn_running c1 \<and> \<not> cn_connected c1 \<and> cn_timer c1 = Some False \<and>
        (\<forall>i j. \<exists>w2. client_reconnect_timer_cb i j p w1 = Some w2 \<and> w_socks w2 = w_socks w1)"
      using x(3) by (intro exI [of _ ?w] exI [of _ ?c]) auto
  }
  assume o: "cn_connected c" "no_requests w c"
  then have run: "cn_running c" using c assms(3) by (auto simp: iso_conn_def iso_idle_def iso_up_def split: if_splits)
  obtain w1 where w1: "Disconnect p w = Some w1" "w_conns w1 p = Some (iso_ended c)"
    using iso_dispose_ok [OF inv assms(2) o(2)] assms(3) run by blast
  then show "\<exists>w1 c1. Reopen p w = Some w1 \<and> w_conns w1 p = Some c1 \<and> cn_disposed c1 \<and> cn_timer c1 = None \<and> Reopen p w1 = Some w1"
    using assms(2,3) o(1) by (intro exI [of _ w1] exI [of _ "iso_ended c"]) (auto simp: Reopen_def DelayReconnect_def iso_ended_def)
qed

lemma isolated_connection_lost_witness:
  "iso_reachable waiting_world \<and>
   (\<exists>w1. client_reconnect_timer_cb (- 24) 0 1 waiting_world = Some w1 \<and> w_socks w1 = w_socks waiting_world)"
proof -
  obtain c where c: "w_conns waiting_world 1 = Some c" "\<not> cn_disposed c" "cn_timer c = Some True" "cn_flushed c"
    by (simp add: waiting_world_def new_isolated_def)
  then show ?thesis using isolated_connection_lost [OF waiting_reachable c(1,2), of "- 24" 0] waiting_reachable by auto
qed

end
