(* ===== verification/KjFactory.thy ===== *)
theory KjFactory
  imports UvServer StepSystem
begin

text \<open>
  \<^verbatim>\<open>src/tcp/kj\<close>: the connection factory with two threads. The front end (the main thread) owns the
  connection manager and calls the application; the back end owns the streams. They talk through two
  queues, the work queue of commands (\<^verbatim>\<open>KjConnFactoryWorkQueue.cpp\<close>) and the trunk queue of callbacks
  (\<^verbatim>\<open>ConnFactoryTrunkQueue.cpp\<close>), and count for every connection what was produced and consumed, so that the
  recycler deletes a connection only when no entry of a queue refers to it.

  The world is that of the connection manager, shared with the libuv transport; \<open>cn_clnt\<close> of a
  connection is its stream \<open>_thr_tcpStream\<close>, and \<open>sv_streams\<close> of a server is \<open>_thr_tcpStreamDict\<close>. A queue is a list;
  \<open>ReaderWriterQueue\<close> hands out its entries in the order in which they were added. A step of the model is one entry
  of a queue, or one event of the back end. The streams of kj and its event loop are not modelled.
\<close>

section \<open>The queues\<close>

datatype net_cmd =
    CLOSE_TCP_SERVER nat
  | DISPOSE_CONNECTION nat
  | POST_PACKET nat
  | FLUSH_TCP_SERVER_DOWNSTREAM nat nat
  | CONFIRM_CLIENT_IS_READY nat nat

datatype trunk_cb =
    Accept_client nat nat
  | Client_disconnect nat nat
  | Client_packet nat "64 word"

text \<open>\<open>kj_later\<close> holds the connections for which \<open>taskFailed\<close> has scheduled a function.\<close>

record kj_world =
  kj_w :: world
  kj_work :: "net_cmd list"
  kj_done :: bool
  kj_trunk :: "trunk_cb list"
  kj_close :: bool
  kj_later :: "nat list"

definition kj_new :: kj_world where
  "kj_new = \<lparr>kj_w = new_world, kj_work = [], kj_done = False, kj_trunk = [], kj_close = False, kj_later = []\<rparr>"

text \<open>An operation of the manager's world.\<close>

definition kj_lift :: "(world \<Rightarrow> world option) \<Rightarrow> kj_world \<Rightarrow> kj_world option" where
  "kj_lift f k = map_option (\<lambda>w. k\<lparr>kj_w := w\<rparr>) (f (kj_w k))"

text \<open>\<open>Add\<close> of the work queue, with \<open>Commit\<close>, and \<open>Add\<close> of the trunk queue: an entry is dropped once the queue is shut.\<close>

definition Commit :: "net_cmd \<Rightarrow> kj_world \<Rightarrow> kj_world" where
  "Commit cmd k = (if kj_done k then k else k\<lparr>kj_work := kj_work k @ [cmd]\<rparr>)"

definition trunk_Add :: "trunk_cb \<Rightarrow> kj_world \<Rightarrow> kj_world" where
  "trunk_Add cb k = (if kj_close k then k else k\<lparr>kj_trunk := kj_trunk k @ [cb]\<rparr>)"

definition IncrFrontEndProduceNum :: "conn \<Rightarrow> conn" where
  "IncrFrontEndProduceNum c = c\<lparr>cn_front_produce := cn_front_produce c + 1\<rparr>"

definition IncrBackEndConsumeNum :: "conn \<Rightarrow> conn" where
  "IncrBackEndConsumeNum c = c\<lparr>cn_back_consume := cn_back_consume c + 1\<rparr>"

definition IncrBackEndProduceNum :: "conn \<Rightarrow> conn" where
  "IncrBackEndProduceNum c = c\<lparr>cn_back_produce := cn_back_produce c + 1\<rparr>"

definition IncrFrontEndConsumeNum :: "conn \<Rightarrow> conn" where
  "IncrFrontEndConsumeNum c = c\<lparr>cn_front_consume := cn_front_consume c + 1\<rparr>"

section \<open>Requests of the front end\<close>

definition wq_request :: "nat \<Rightarrow> net_cmd \<Rightarrow> kj_world \<Rightarrow> kj_world option" where
  "wq_request p cmd k = map_option (Commit cmd) (kj_lift (upd_conn p IncrFrontEndProduceNum) k)"

definition wq_DisposeConnection :: "nat \<Rightarrow> kj_world \<Rightarrow> kj_world option" where
  "wq_DisposeConnection p k = wq_request p (DISPOSE_CONNECTION p) k"

definition wq_PostPacket :: "nat \<Rightarrow> kj_world \<Rightarrow> kj_world option" where
  "wq_PostPacket p k = wq_request p (POST_PACKET p) k"

definition wq_ConfirmClientIsReady :: "nat \<Rightarrow> nat \<Rightarrow> kj_world \<Rightarrow> kj_world option" where
  "wq_ConfirmClientIsReady p streamptr k = wq_request p (CONFIRM_CLIENT_IS_READY p streamptr) k"

text \<open>\<open>OnRemoveClient\<close> of the manager; \<open>ReleaseConnection\<close> of this factory sends a command.\<close>

definition kj_OnRemoveClient :: "nat \<Rightarrow> nat \<Rightarrow> kj_world \<Rightarrow> kj_world option" where
  "kj_OnRemoveClient pServer p k = do {
     c \<leftarrow> w_conns (kj_w k) p;
     if pServer > 0 \<and> cn_id c > 0
     then case map_of (entry_clients pServer (kj_w k)) (cn_id c) of
            None \<Rightarrow> Some k
          | Some p2 \<Rightarrow>
              if p2 = p then do {
                k1 \<leftarrow> wq_DisposeConnection p2 k;
                let w = RecyclerPush p2 (set_clients pServer (AList.delete (cn_id c) (entry_clients pServer (kj_w k1))) (kj_w k1));
                Some (k1\<lparr>kj_w := w\<lparr>w_count := w_count w - 1\<rparr>\<rparr>)
              }
              else None
     else None
   }"

definition kj_Disconnect :: "nat \<Rightarrow> kj_world \<Rightarrow> kj_world option" where
  "kj_Disconnect p k = do {
     c \<leftarrow> w_conns (kj_w k) p;
     if \<not> cn_disposed c \<and> cn_running c
     then do {
       k1 \<leftarrow> kj_lift (upd_conn p (\<lambda>c. c\<lparr>cn_running := False\<rparr>)) k;
       k2 \<leftarrow> kj_lift (OnDisconnect p) k1;
       (case cn_kind c of ClientOf pServer \<Rightarrow> kj_OnRemoveClient pServer p k2 | Isolated \<Rightarrow> wq_DisposeConnection p k2)
     }
     else Some k
   }"

definition kj_OnAcceptClient :: "nat \<Rightarrow> nat \<Rightarrow> kj_world \<Rightarrow> kj_world option" where
  "kj_OnAcceptClient pServer streamptr k = do {
     (p, w1) \<leftarrow> CreateTcpClientOnServer pServer (kj_w k);
     k2 \<leftarrow> wq_ConfirmClientIsReady p streamptr (k\<lparr>kj_w := w1\<rparr>);
     kj_lift (OnConnect p) k2
   }"

text \<open>A callback of the trunk queue, and the loop of \<open>RunOnce\<close>, which runs at most \<open>n\<close> of them.\<close>

definition run_trunk_cb :: "trunk_cb \<Rightarrow> kj_world \<Rightarrow> kj_world option" where
  "run_trunk_cb cb k =
     (case cb of
        Accept_client pServer streamptr \<Rightarrow> do {
          x \<leftarrow> w_servers (kj_w k) pServer;
          if \<not> sv_closed x then kj_OnAcceptClient pServer streamptr k
          else Some (Commit (FLUSH_TCP_SERVER_DOWNSTREAM pServer streamptr) k)
        }
      | Client_disconnect pServer p \<Rightarrow> do {
          k1 \<leftarrow> kj_lift (upd_conn p IncrFrontEndConsumeNum) k;
          k2 \<leftarrow> kj_lift (OnDisconnect p) k1;
          kj_OnRemoveClient pServer p k2
        }
      | Client_packet p uConnId \<Rightarrow> do {
          k1 \<leftarrow> kj_lift (upd_conn p IncrFrontEndConsumeNum) k;
          c \<leftarrow> w_conns (kj_w k1) p;
          if cn_id c = uConnId then Some k1 else None
        })"

fun RunOnce :: "nat \<Rightarrow> kj_world \<Rightarrow> kj_world option" where
  "RunOnce 0 k = Some k"
| "RunOnce (Suc n) k =
     (case kj_trunk k of
        [] \<Rightarrow> Some k
      | cb # cbs \<Rightarrow>
          if kj_close k then Some k
          else do { k1 \<leftarrow> run_trunk_cb cb (k\<lparr>kj_trunk := cbs\<rparr>); RunOnce n k1 })"

section \<open>The back end\<close>

definition kj_FlushStream :: "nat \<Rightarrow> kj_world \<Rightarrow> kj_world option" where
  "kj_FlushStream p k = kj_lift (upd_conn p (\<lambda>c. if cn_clnt c \<noteq> None \<and> \<not> cn_flushed c then c\<lparr>cn_flushed := True\<rparr> else c)) k"

definition kj_DisposeConnection :: "nat \<Rightarrow> kj_world \<Rightarrow> kj_world option" where
  "kj_DisposeConnection p k = do {
     c \<leftarrow> w_conns (kj_w k) p;
     if cn_disposed c then Some k
     else do {
       k1 \<leftarrow> kj_lift (upd_conn p (\<lambda>c. c\<lparr>cn_disposed := True, cn_packet := False\<rparr>)) k;
       k2 \<leftarrow> kj_FlushStream p k1;
       kj_lift (upd_conn p (\<lambda>c. c\<lparr>cn_clnt := None\<rparr>)) k2
     }
   }"

definition AddClientDisconnectCb_kj :: "nat \<Rightarrow> nat \<Rightarrow> kj_world \<Rightarrow> kj_world option" where
  "AddClientDisconnectCb_kj pServer p k =
     map_option (trunk_Add (Client_disconnect pServer p)) (kj_lift (upd_conn p IncrBackEndProduceNum) k)"

definition AddClientPacketCb :: "nat \<Rightarrow> kj_world \<Rightarrow> kj_world option" where
  "AddClientPacketCb p k = do {
     c \<leftarrow> w_conns (kj_w k) p;
     map_option (trunk_Add (Client_packet p (cn_id c))) (kj_lift (upd_conn p IncrBackEndProduceNum) k)
   }"

text \<open>\<open>ConfirmClientIsReady\<close> of the connection is that of the libuv transport: it takes its stream from the server.\<close>

definition kj_OnDisposeClient :: "nat \<Rightarrow> nat \<Rightarrow> kj_world \<Rightarrow> kj_world option" where
  "kj_OnDisposeClient pServer p k = do { k1 \<leftarrow> kj_DisposeConnection p k; AddClientDisconnectCb_kj pServer p k1 }"

fun kj_dispose_walk :: "nat \<Rightarrow> (64 word \<times> nat) list \<Rightarrow> kj_world \<Rightarrow> kj_world option" where
  "kj_dispose_walk pServer [] k = Some k"
| "kj_dispose_walk pServer ((uConnId, p) # ms) k = do {
     c \<leftarrow> w_conns (kj_w k) p;
     if cn_id c = uConnId then do {
       k1 \<leftarrow> kj_DisposeConnection p k;
       k2 \<leftarrow> AddClientDisconnectCb_kj pServer p k1;
       kj_dispose_walk pServer ms k2
     }
     else kj_dispose_walk pServer ms k
   }"

definition kj_Close :: "nat \<Rightarrow> kj_world \<Rightarrow> kj_world option" where
  "kj_Close pServer k = do {
     x \<leftarrow> w_servers (kj_w k) pServer;
     if sv_closed x then Some k
     else do {
       k1 \<leftarrow> kj_lift (upd_server pServer (\<lambda>x. x\<lparr>sv_streams := []\<rparr>)) k;
       k2 \<leftarrow> (case map_of (w_entries (kj_w k1)) pServer of None \<Rightarrow> Some k1 | Some m \<Rightarrow> kj_dispose_walk pServer m k1);
       kj_lift (upd_server pServer (\<lambda>x. x\<lparr>sv_closed := True\<rparr>)) k2
     }
   }"

text \<open>
  \<open>PostPacket\<close> of the connection: \<open>CTcpInnerPacket::Post\<close> hands its pages to \<open>SendRaw\<close>, which writes them to the stream. What
  the stream does with the bytes is not part of this world.
\<close>

definition kj_SendRaw :: "nat \<Rightarrow> kj_world \<Rightarrow> kj_world option" where
  "kj_SendRaw p k = do { c \<leftarrow> w_conns (kj_w k) p; if cn_clnt c \<noteq> None then Some k else None }"

definition kj_PostPacket :: "nat \<Rightarrow> kj_world \<Rightarrow> kj_world option" where
  "kj_PostPacket p k = do {
     c \<leftarrow> w_conns (kj_w k) p;
     if cn_packet c \<and> conn_IsReady c then kj_SendRaw p k else Some k
   }"

text \<open>A command of the work queue with its result callback, as in \<open>read_pipe_loop\<close>.\<close>

definition run_cmd :: "net_cmd \<Rightarrow> kj_world \<Rightarrow> kj_world option" where
  "run_cmd cmd k =
     (case cmd of
        CLOSE_TCP_SERVER pServer \<Rightarrow> kj_Close pServer k
      | DISPOSE_CONNECTION p \<Rightarrow> do { k1 \<leftarrow> kj_DisposeConnection p k; kj_lift (upd_conn p IncrBackEndConsumeNum) k1 }
      | POST_PACKET p \<Rightarrow> do { k1 \<leftarrow> kj_PostPacket p k; kj_lift (upd_conn p IncrBackEndConsumeNum) k1 }
      | FLUSH_TCP_SERVER_DOWNSTREAM pServer streamptr \<Rightarrow> kj_lift (\<lambda>w. map_option snd (RemoveStream pServer streamptr w)) k
      | CONFIRM_CLIENT_IS_READY p streamptr \<Rightarrow> do {
          c \<leftarrow> w_conns (kj_w k) p;
          k1 \<leftarrow> (if conn_IsReady c
                 then case cn_kind c of
                        ClientOf pServer \<Rightarrow> kj_lift (ConfirmClientIsReady pServer p streamptr) k
                      | Isolated \<Rightarrow> None
                 else Some k);
          kj_lift (upd_conn p IncrBackEndConsumeNum) k1
        })"

definition work_step :: "kj_world \<Rightarrow> kj_world option" where
  "work_step k = (case kj_work k of [] \<Rightarrow> Some k | cmd # cmds \<Rightarrow> run_cmd cmd (k\<lparr>kj_work := cmds\<rparr>))"

text \<open>
  \<open>BlockingCommit\<close>: the front end waits until the back end has run the command. What else the back end
  does in the meantime are steps that may as well come before. A command that \<open>Add\<close> has dropped is never run, and the front end
  waits for ever: \<open>None\<close>.
\<close>

fun work_steps :: "nat \<Rightarrow> kj_world \<Rightarrow> kj_world option" where
  "work_steps 0 k = Some k"
| "work_steps (Suc n) k = do { k1 \<leftarrow> work_step k; work_steps n k1 }"

definition BlockingCommit :: "net_cmd \<Rightarrow> kj_world \<Rightarrow> kj_world option" where
  "BlockingCommit cmd k = (if kj_done k then None else work_steps (Suc (length (kj_work k))) (Commit cmd k))"

definition wq_CloseTcpServer :: "nat \<Rightarrow> kj_world \<Rightarrow> kj_world option" where
  "wq_CloseTcpServer pServer k = BlockingCommit (CLOSE_TCP_SERVER pServer) k"

text \<open>Events of the back end: an accepted stream, packets read from a stream, and the failure of a stream.\<close>

definition kj_accept :: "nat \<Rightarrow> kj_world \<Rightarrow> kj_world option" where
  "kj_accept pServer k = do {
     x \<leftarrow> w_servers (kj_w k) pServer;
     if \<not> server_IsReady x then Some k
     else do {
       let st = w_fresh (kj_w k);
       k1 \<leftarrow> kj_lift (\<lambda>w. AddStream pServer st (w\<lparr>w_fresh := Suc st\<rparr>)) k;
       Some (trunk_Add (Accept_client pServer st) k1)
     }
   }"

fun kj_packets :: "nat \<Rightarrow> nat \<Rightarrow> kj_world \<Rightarrow> kj_world option" where
  "kj_packets 0 p k = Some k"
| "kj_packets (Suc n) p k = do { k1 \<leftarrow> AddClientPacketCb p k; kj_packets n p k1 }"

definition kj_OnRawData :: "nat \<Rightarrow> nat \<Rightarrow> kj_world \<Rightarrow> kj_world option" where
  "kj_OnRawData p n k = do { c \<leftarrow> w_conns (kj_w k) p; if cn_packet c then kj_packets n p k else None }"

definition kj_taskFailed :: "nat \<Rightarrow> kj_world \<Rightarrow> kj_world" where
  "kj_taskFailed p k = k\<lparr>kj_later := kj_later k @ [p]\<rparr>"

definition later_step :: "kj_world \<Rightarrow> kj_world option" where
  "later_step k =
     (case kj_later k of
        [] \<Rightarrow> Some k
      | p # ps \<Rightarrow> do {
          k1 \<leftarrow> kj_FlushStream p (k\<lparr>kj_later := ps\<rparr>);
          c \<leftarrow> w_conns (kj_w k1) p;
          (case cn_kind c of ClientOf pServer \<Rightarrow> kj_OnDisposeClient pServer p k1 | Isolated \<Rightarrow> None)
        })"

definition kj_Recycle :: "kj_world \<Rightarrow> (bool \<times> kj_world) option" where
  "kj_Recycle k = map_option (\<lambda>(b, w). (b, k\<lparr>kj_w := w\<rparr>)) (Recycle (kj_w k))"

end
