(* ===== verification/KjInvariant.thy ===== *)
theory KjInvariant
  imports KjFactory UvServerProps
begin

text \<open>
  The two threads of the kj factory: the steps that may come next, the invariant that ties the
  counters of a connection to the entries of the queues, and what it says: no entry of a queue refers to a
  deleted connection, and every removed connection is deleted once the queues are empty.
\<close>

section \<open>Steps\<close>

datatype kj_op =
    KCreate
  | KReady nat bool
  | KAccept nat
  | KTrunk
  | KWork
  | KRead nat nat
  | KFail nat
  | KLater
  | KSend nat
  | KDisconnect nat
  | KClose nat
  | KRecycle

fun kj_do :: "kj_op \<Rightarrow> kj_world \<Rightarrow> kj_world option" where
  "kj_do KCreate k = Some (k\<lparr>kj_w := snd (CreateTcpServer (kj_w k))\<rparr>)"
| "kj_do (KReady sv b) k = kj_lift (upd_server sv (\<lambda>x. x\<lparr>sv_ready := b\<rparr>)) k"
| "kj_do (KAccept sv) k = kj_accept sv k"
| "kj_do KTrunk k = RunOnce 1 k"
| "kj_do KWork k = work_step k"
| "kj_do (KRead p n) k = kj_OnRawData p n k"
| "kj_do (KFail p) k = Some (kj_taskFailed p k)"
| "kj_do KLater k = later_step k"
| "kj_do (KSend p) k = wq_PostPacket p k"
| "kj_do (KDisconnect p) k = kj_Disconnect p k"
| "kj_do (KClose sv) k = wq_CloseTcpServer sv k"
| "kj_do KRecycle k = map_option snd (kj_Recycle k)"

text \<open>
  What may come next. A stream is read, and fails, while its connection has it; what \<open>taskFailed\<close> has
  scheduled runs before the next command. The application uses connections that are registered. The
  queues hold less than \<open>2\<^sup>3\<^sup>2\<close> entries, since the counters have 32 bits, and the identifiers have not wrapped
  around.
\<close>

definition queue_max :: nat where
  "queue_max = 2 ^ 32 - 1"

fun kj_can :: "kj_world \<Rightarrow> kj_op \<Rightarrow> bool" where
  "kj_can k KCreate = True"
| "kj_can k (KReady sv b) = (w_servers (kj_w k) sv \<noteq> None)"
| "kj_can k (KAccept sv) = (w_servers (kj_w k) sv \<noteq> None \<and> length (kj_trunk k) < queue_max)"
| "kj_can k KTrunk = (length (kj_work k) < queue_max \<and> w_next_id (kj_w k) + 1 < TCP_CONNID_MAX)"
| "kj_can k KWork = (kj_later k = [])"
| "kj_can k (KRead p n) =
     (case w_conns (kj_w k) p of None \<Rightarrow> False | Some c \<Rightarrow> cn_clnt c \<noteq> None \<and> length (kj_trunk k) + n \<le> queue_max)"
| "kj_can k (KFail p) = (case w_conns (kj_w k) p of None \<Rightarrow> False | Some c \<Rightarrow> cn_clnt c \<noteq> None \<and> p \<notin> set (kj_later k))"
| "kj_can k KLater = (length (kj_trunk k) < queue_max)"
| "kj_can k (KSend p) = (registered (kj_w k) p \<and> length (kj_work k) < queue_max)"
| "kj_can k (KDisconnect p) = (registered (kj_w k) p \<and> length (kj_work k) < queue_max)"
| "kj_can k (KClose sv) =
     (kj_later k = [] \<and> w_servers (kj_w k) sv \<noteq> None \<and> length (kj_work k) < queue_max \<and>
      length (kj_trunk k) + length (entry_clients sv (kj_w k)) \<le> queue_max)"
| "kj_can k KRecycle = True"

definition kj_reachable :: "kj_world \<Rightarrow> bool" where
  "kj_reachable k \<longleftrightarrow> reaches kj_can kj_do kj_new k"

section \<open>The invariant\<close>

text \<open>The entries of the queues that refer to a connection, and the streams that they carry.\<close>

fun cmd_of :: "nat \<Rightarrow> net_cmd \<Rightarrow> bool" where
  "cmd_of p (DISPOSE_CONNECTION q) = (q = p)"
| "cmd_of p (POST_PACKET q) = (q = p)"
| "cmd_of p (CONFIRM_CLIENT_IS_READY q st) = (q = p)"
| "cmd_of p (CLOSE_TCP_SERVER sv) = False"
| "cmd_of p (FLUSH_TCP_SERVER_DOWNSTREAM sv st) = False"

fun is_confirm :: "net_cmd \<Rightarrow> bool" where
  "is_confirm (CONFIRM_CLIENT_IS_READY q st) = True"
| "is_confirm cmd = False"

fun confirm_first :: "net_cmd list \<Rightarrow> bool" where
  "confirm_first [] = False"
| "confirm_first (cmd # cs) = (is_confirm cmd \<and> filter is_confirm cs = [])"

lemma confirm_first_append: "confirm_first cs \<Longrightarrow> \<not> is_confirm cmd \<Longrightarrow> confirm_first (cs @ [cmd])"
  by (cases cs) auto

fun cb_of :: "nat \<Rightarrow> trunk_cb \<Rightarrow> bool" where
  "cb_of p (Client_disconnect sv q) = (q = p)"
| "cb_of p (Client_packet q i) = (q = p)"
| "cb_of p (Accept_client sv st) = False"

fun cmd_streams :: "net_cmd \<Rightarrow> nat list" where
  "cmd_streams (CONFIRM_CLIENT_IS_READY q st) = [st]"
| "cmd_streams cmd = []"

fun cb_streams :: "trunk_cb \<Rightarrow> nat list" where
  "cb_streams (Accept_client sv st) = [st]"
| "cb_streams cb = []"

abbreviation cmds :: "kj_world \<Rightarrow> nat \<Rightarrow> net_cmd list" where
  "cmds k p \<equiv> filter (cmd_of p) (kj_work k)"

abbreviation cbs :: "kj_world \<Rightarrow> nat \<Rightarrow> trunk_cb list" where
  "cbs k p \<equiv> filter (cb_of p) (kj_trunk k)"

text \<open>
  A connection: its counters count the entries that refer to it; before its confirmation it has no
  stream, and after it is disposed of it has none again; when it is removed it is disconnected, and
  disposed of or about to be.
\<close>

definition kj_conn :: "kj_world \<Rightarrow> nat \<Rightarrow> conn \<Rightarrow> bool" where
  "kj_conn k p c \<longleftrightarrow>
     (\<exists>sv. cn_kind c = ClientOf sv \<and> 0 < sv \<and> w_servers (kj_w k) sv \<noteq> None) \<and>
     TCP_CONNID_BASE < cn_id c \<and> cn_id c \<le> w_next_id (kj_w k) \<and>
     cn_front_produce c = cn_back_consume c + of_nat (length (cmds k p)) \<and>
     cn_back_produce c = cn_front_consume c + of_nat (length (cbs k p)) \<and>
     (if cn_disposed c then cn_flushed c \<and> cn_clnt c = None \<and> \<not> cn_packet c
      else \<not> cn_flushed c \<and> cn_packet c = (cn_clnt c \<noteq> None)) \<and>
     (p \<in> set (kj_later k) \<longrightarrow> cn_clnt c \<noteq> None) \<and>
     (if \<not> cn_disposed c \<and> cn_clnt c = None then confirm_first (cmds k p) else filter is_confirm (cmds k p) = []) \<and>
     (p \<in> set (w_recycler (kj_w k)) \<longrightarrow> \<not> cn_connected c \<and> (cn_disposed c \<or> DISPOSE_CONNECTION p \<in> set (cmds k p)))"

definition kj_refs :: "kj_world \<Rightarrow> bool" where
  "kj_refs k \<longleftrightarrow>
     (\<forall>p. cmds k p \<noteq> [] \<or> cbs k p \<noteq> [] \<or> p \<in> set (kj_later k) \<longrightarrow> w_conns (kj_w k) p \<noteq> None) \<and>
     (\<forall>p i. Client_packet p i \<in> set (kj_trunk k) \<longrightarrow> (\<forall>c. w_conns (kj_w k) p = Some c \<longrightarrow> cn_id c = i)) \<and>
     (\<forall>sv p. Client_disconnect sv p \<in> set (kj_trunk k) \<longrightarrow> 0 < sv) \<and>
     (\<forall>sv. CLOSE_TCP_SERVER sv \<notin> set (kj_work k)) \<and> distinct (kj_later k)"

definition kj_streams :: "kj_world \<Rightarrow> bool" where
  "kj_streams k \<longleftrightarrow>
     distinct (concat (map cmd_streams (kj_work k)) @ concat (map cb_streams (kj_trunk k))) \<and>
     (\<forall>p st. CONFIRM_CLIENT_IS_READY p st \<in> set (kj_work k) \<longrightarrow>
        (\<forall>c sv. w_conns (kj_w k) p = Some c \<longrightarrow> cn_kind c = ClientOf sv \<longrightarrow>
          (\<exists>x. w_servers (kj_w k) sv = Some x \<and> \<not> sv_closed x \<and> st \<in> set (sv_streams x)))) \<and>
     (\<forall>sv st. Accept_client sv st \<in> set (kj_trunk k) \<longrightarrow>
        0 < sv \<and> st < w_fresh (kj_w k) \<and> (\<exists>x. w_servers (kj_w k) sv = Some x \<and> (sv_closed x \<or> st \<in> set (sv_streams x)))) \<and>
     (\<forall>p st. CONFIRM_CLIENT_IS_READY p st \<in> set (kj_work k) \<longrightarrow> st < w_fresh (kj_w k)) \<and>
     (\<forall>sv st. FLUSH_TCP_SERVER_DOWNSTREAM sv st \<in> set (kj_work k) \<longrightarrow> (\<exists>x. w_servers (kj_w k) sv = Some x \<and> sv_closed x)) \<and>
     (\<forall>sv x. w_servers (kj_w k) sv = Some x \<longrightarrow> sv_closed x \<longrightarrow> sv_streams x = [])"

definition kj_mgr :: "world \<Rightarrow> bool" where
  "kj_mgr w \<longleftrightarrow> distinct (map fst (w_entries w)) \<and>
     (\<forall>sv m. (sv, m) \<in> set (w_entries w) \<longrightarrow> distinct (map fst m)) \<and>
     (\<forall>sv i p. (i, p) \<in> set (entry_clients sv w) \<longleftrightarrow>
        (\<exists>c. w_conns w p = Some c \<and> cn_id c = i \<and> cn_kind c = ClientOf sv \<and> p \<notin> set (w_recycler w))) \<and>
     distinct (w_recycler w) \<and> (\<forall>p \<in> set (w_recycler w). w_conns w p \<noteq> None) \<and> w_safe w = [] \<and>
     (\<forall>p q c d. w_conns w p = Some c \<longrightarrow> w_conns w q = Some d \<longrightarrow> cn_id c = cn_id d \<longrightarrow> p = q)"

definition kj_base :: "kj_world \<Rightarrow> bool" where
  "kj_base k \<longleftrightarrow> fresh_ok (kj_w k) \<and> id_ok (kj_w k) \<and> \<not> kj_done k \<and> \<not> kj_close k \<and>
     length (kj_work k) \<le> queue_max \<and> length (kj_trunk k) \<le> queue_max"

definition kj_inv :: "kj_world \<Rightarrow> bool" where
  "kj_inv k \<longleftrightarrow> kj_base k \<and> (\<forall>p c. w_conns (kj_w k) p = Some c \<longrightarrow> kj_conn k p c) \<and> kj_refs k \<and> kj_streams k \<and> kj_mgr (kj_w k)"

lemma kj_invD:
  assumes "kj_inv k"
  shows "kj_base k" "w_conns (kj_w k) p = Some c \<Longrightarrow> kj_conn k p c" "kj_refs k" "kj_streams k" "kj_mgr (kj_w k)"
  using assms by (simp_all add: kj_inv_def)

lemma kj_streamsD:
  assumes "kj_streams k"
  shows "distinct (concat (map cmd_streams (kj_work k)) @ concat (map cb_streams (kj_trunk k)))"
    "CONFIRM_CLIENT_IS_READY p st \<in> set (kj_work k) \<Longrightarrow> w_conns (kj_w k) p = Some c \<Longrightarrow> cn_kind c = ClientOf sv \<Longrightarrow>
      \<exists>x. w_servers (kj_w k) sv = Some x \<and> \<not> sv_closed x \<and> st \<in> set (sv_streams x)"
    "Accept_client sv st \<in> set (kj_trunk k) \<Longrightarrow> 0 < sv" "Accept_client sv st \<in> set (kj_trunk k) \<Longrightarrow> st < w_fresh (kj_w k)"
    "Accept_client sv st \<in> set (kj_trunk k) \<Longrightarrow> \<exists>x. w_servers (kj_w k) sv = Some x \<and> (sv_closed x \<or> st \<in> set (sv_streams x))"
    "CONFIRM_CLIENT_IS_READY p st \<in> set (kj_work k) \<Longrightarrow> st < w_fresh (kj_w k)"
    "FLUSH_TCP_SERVER_DOWNSTREAM sv st \<in> set (kj_work k) \<Longrightarrow> \<exists>x. w_servers (kj_w k) sv = Some x \<and> sv_closed x"
    "w_servers (kj_w k) sv = Some x \<Longrightarrow> sv_closed x \<Longrightarrow> sv_streams x = []"
  using assms unfolding kj_streams_def by blast+

lemma kj_conn_cong:
  assumes "kj_conn k q d" "cmds k' q = cmds k q" "cbs k' q = cbs k q" "q \<in> set (kj_later k') \<Longrightarrow> q \<in> set (kj_later k)"
    "q \<in> set (w_recycler (kj_w k')) \<Longrightarrow> q \<in> set (w_recycler (kj_w k))" "w_next_id (kj_w k) \<le> w_next_id (kj_w k')"
    "\<And>sv. w_servers (kj_w k) sv \<noteq> None \<Longrightarrow> w_servers (kj_w k') sv \<noteq> None"
  shows "kj_conn k' q d"
  using assms unfolding kj_conn_def by (auto; blast)

text \<open>A change of one connection and of the entries that refer to it.\<close>

lemma kj_frame:
  assumes "kj_inv k" "kj_base k'" "kj_refs k'" "kj_streams k'" "kj_mgr (kj_w k')"
    and "\<And>q. q \<noteq> p \<Longrightarrow> w_conns (kj_w k') q = w_conns (kj_w k) q" "\<And>c. w_conns (kj_w k') p = Some c \<Longrightarrow> kj_conn k' p c"
    and "\<And>q. q \<noteq> p \<Longrightarrow> cmds k' q = cmds k q" "\<And>q. q \<noteq> p \<Longrightarrow> cbs k' q = cbs k q"
    and "\<And>q. q \<noteq> p \<Longrightarrow> q \<in> set (kj_later k') \<Longrightarrow> q \<in> set (kj_later k)"
    and "\<And>q. q \<noteq> p \<Longrightarrow> q \<in> set (w_recycler (kj_w k')) \<Longrightarrow> q \<in> set (w_recycler (kj_w k))"
    and "w_next_id (kj_w k) \<le> w_next_id (kj_w k')" "\<And>sv. w_servers (kj_w k) sv \<noteq> None \<Longrightarrow> w_servers (kj_w k') sv \<noteq> None"
  shows "kj_inv k'"
  unfolding kj_inv_def
proof (intro conjI allI impI assms(2-5))
  fix q d assume q: "w_conns (kj_w k') q = Some d"
  show "kj_conn k' q d"
  proof (cases "q = p")
    case False
    then have "w_conns (kj_w k) q = Some d" using q assms(6) by simp
    then show ?thesis
      by (intro kj_conn_cong [OF kj_invD(2) [OF assms(1)]]) (use False assms(8-13) in auto)
  qed (use q assms(7) in simp)
qed

section \<open>Changes of one connection\<close>

definition kj_put :: "nat \<Rightarrow> conn \<Rightarrow> (conn_event \<times> nat) list \<Rightarrow> net_cmd list \<Rightarrow> trunk_cb list \<Rightarrow> nat list \<Rightarrow> kj_world \<Rightarrow> kj_world" where
  "kj_put p c es wk tk lt k =
     k\<lparr>kj_w := (kj_w k)\<lparr>w_conns := (w_conns (kj_w k))(p \<mapsto> c), w_events := w_events (kj_w k) @ es\<rparr>,
       kj_work := wk, kj_trunk := tk, kj_later := lt\<rparr>"

lemma kj_put_simps [simp]:
  "w_conns (kj_w (kj_put p c es wk tk lt k)) = (w_conns (kj_w k))(p \<mapsto> c)" "kj_work (kj_put p c es wk tk lt k) = wk"
  "kj_trunk (kj_put p c es wk tk lt k) = tk" "kj_later (kj_put p c es wk tk lt k) = lt"
  "w_servers (kj_w (kj_put p c es wk tk lt k)) = w_servers (kj_w k)" "w_recycler (kj_w (kj_put p c es wk tk lt k)) = w_recycler (kj_w k)"
  "w_next_id (kj_w (kj_put p c es wk tk lt k)) = w_next_id (kj_w k)" "w_fresh (kj_w (kj_put p c es wk tk lt k)) = w_fresh (kj_w k)"
  "w_entries (kj_w (kj_put p c es wk tk lt k)) = w_entries (kj_w k)" "w_safe (kj_w (kj_put p c es wk tk lt k)) = w_safe (kj_w k)"
  "kj_done (kj_put p c es wk tk lt k) = kj_done k" "kj_close (kj_put p c es wk tk lt k) = kj_close k"
  by (simp_all add: kj_put_def)

lemma kj_mgr_put:
  assumes "kj_mgr w" "w_conns w p = Some b" "cn_id c = cn_id b" "cn_kind c = cn_kind b"
    "w_entries w' = w_entries w" "w_recycler w' = w_recycler w" "w_safe w' = w_safe w" "w_conns w' = (w_conns w)(p \<mapsto> c)"
  shows "kj_mgr w'"
  using assms(1-4) unfolding kj_mgr_def assms(5-8) entry_clients_cong [OF assms(5)] by auto

lemma kj_base_put:
  assumes "kj_base k" "w_conns (kj_w k) p = Some b" "snd ` set es \<subseteq> {p}" "length wk \<le> queue_max" "length tk \<le> queue_max"
  shows "kj_base (kj_put p c es wk tk lt k)"
  using assms fresh_bounds(1) [of "kj_w k" p b] unfolding kj_base_def fresh_ok_def id_ok_def
  by (auto simp: kj_put_def)

lemma kj_put_inv:
  assumes "kj_inv k" "w_conns (kj_w k) p = Some b" "cn_id c = cn_id b" "cn_kind c = cn_kind b" "snd ` set es \<subseteq> {p}"
    and conn: "kj_conn (kj_put p c es wk tk lt k) p c"
    and len: "length wk \<le> queue_max" "length tk \<le> queue_max"
    and other: "\<And>q. q \<noteq> p \<Longrightarrow> filter (cmd_of q) wk = cmds k q" "\<And>q. q \<noteq> p \<Longrightarrow> filter (cb_of q) tk = cbs k q"
    and wk: "set wk \<subseteq> set (kj_work k) \<union> {DISPOSE_CONNECTION p, POST_PACKET p}"
    and tk: "set tk \<subseteq> set (kj_trunk k) \<union> {Client_packet p (cn_id b)} \<union> {Client_disconnect sv p |sv. 0 < sv}"
    and lt: "distinct lt" "set lt \<subseteq> insert p (set (kj_later k))"
    and streams: "distinct (concat (map cmd_streams wk) @ concat (map cb_streams tk))"
  shows "kj_inv (kj_put p c es wk tk lt k)" (is "kj_inv ?k")
proof (rule kj_frame [OF assms(1), of ?k p])
  show "kj_base ?k" by (rule kj_base_put [OF kj_invD(1) [OF assms(1)] assms(2,5) len])
  show "kj_mgr (kj_w ?k)" by (rule kj_mgr_put [OF kj_invD(5) [OF assms(1)] assms(2-4)]) simp_all
  have refs: "kj_refs k" and str: "kj_streams k" using kj_invD [OF assms(1)] by auto
  show "kj_refs ?k"
    unfolding kj_refs_def
  proof (intro conjI allI impI)
    fix q assume q: "cmds ?k q \<noteq> [] \<or> cbs ?k q \<noteq> [] \<or> q \<in> set (kj_later ?k)"
    show "w_conns (kj_w ?k) q \<noteq> None"
    proof (cases "q = p")
      case False
      then have "cmds k q \<noteq> [] \<or> cbs k q \<noteq> [] \<or> q \<in> set (kj_later k)" using q other [OF False] lt(2) by auto
      then show ?thesis using refs False by (auto simp: kj_refs_def)
    qed simp
  next
    fix q i d assume "Client_packet q i \<in> set (kj_trunk ?k)" "w_conns (kj_w ?k) q = Some d"
    then show "cn_id d = i" using refs tk assms(2,3) unfolding kj_refs_def by (auto split: if_splits)
  next
    fix sv q assume "Client_disconnect sv q \<in> set (kj_trunk ?k)"
    then have "Client_disconnect sv q \<in> set (kj_trunk k) \<or> 0 < sv" using tk by auto
    then show "0 < sv" using refs unfolding kj_refs_def by auto
  next
    fix sv show "CLOSE_TCP_SERVER sv \<notin> set (kj_work ?k)" using refs wk unfolding kj_refs_def by auto
  next
    show "distinct (kj_later ?k)" using lt(1) by simp
  qed
  have old: "\<And>sv st. FLUSH_TCP_SERVER_DOWNSTREAM sv st \<in> set wk \<Longrightarrow> FLUSH_TCP_SERVER_DOWNSTREAM sv st \<in> set (kj_work k)"
    "\<And>q st. CONFIRM_CLIENT_IS_READY q st \<in> set wk \<Longrightarrow> CONFIRM_CLIENT_IS_READY q st \<in> set (kj_work k)"
    "\<And>sv st. Accept_client sv st \<in> set tk \<Longrightarrow> Accept_client sv st \<in> set (kj_trunk k)"
    using wk tk by auto
  show "kj_streams ?k"
    unfolding kj_streams_def
  proof (intro conjI allI impI)
    fix q st d sv assume "CONFIRM_CLIENT_IS_READY q st \<in> set (kj_work ?k)" "w_conns (kj_w ?k) q = Some d" "cn_kind d = ClientOf sv"
    then have "CONFIRM_CLIENT_IS_READY q st \<in> set (kj_work k)" "\<exists>e. w_conns (kj_w k) q = Some e \<and> cn_kind e = ClientOf sv"
      using old(2) assms(2,4) by (auto split: if_splits)
    then show "\<exists>x. w_servers (kj_w ?k) sv = Some x \<and> \<not> sv_closed x \<and> st \<in> set (sv_streams x)"
      using kj_streamsD(2) [OF str] by auto
  next
    show "distinct (concat (map cmd_streams (kj_work ?k)) @ concat (map cb_streams (kj_trunk ?k)))" using streams by simp
  qed (simp_all, (use kj_streamsD(3-8) [OF str] old in blast)+)
qed (use assms(2) conn other lt(2) in auto)

lemma of_nat_Suc_word: "(of_nat (Suc n) :: 'a::len word) = of_nat n + 1"
  by simp

text \<open>A request of the front end.\<close>

lemma wq_request_eff:
  assumes "kj_inv k" "w_conns (kj_w k) p = Some c"
  shows "wq_request p cmd k = Some (kj_put p (IncrFrontEndProduceNum c) [] (kj_work k @ [cmd]) (kj_trunk k) (kj_later k) k)"
  using assms kj_invD(1) [OF assms(1)]
  by (simp add: wq_request_def kj_lift_def upd_conn_def Commit_def kj_put_def kj_base_def)

lemma kj_request_inv:
  assumes "kj_inv k" "w_conns (kj_w k) p = Some c" "cmd = POST_PACKET p \<or> cmd = DISPOSE_CONNECTION p" "length (kj_work k) < queue_max"
  shows "kj_inv (kj_put p (IncrFrontEndProduceNum c) [] (kj_work k @ [cmd]) (kj_trunk k) (kj_later k) k)"
proof (rule kj_put_inv [OF assms(1,2)])
  have c: "kj_conn k p c" by (rule kj_invD(2) [OF assms(1,2)])
  show "kj_conn (kj_put p (IncrFrontEndProduceNum c) [] (kj_work k @ [cmd]) (kj_trunk k) (kj_later k) k) p (IncrFrontEndProduceNum c)"
    using c assms(3) confirm_first_append [of "cmds k p" cmd] by (auto simp: kj_conn_def IncrFrontEndProduceNum_def)
  show "distinct (kj_later k)" using kj_invD(3) [OF assms(1)] by (simp add: kj_refs_def)
  show "distinct (concat (map cmd_streams (kj_work k @ [cmd])) @ concat (map cb_streams (kj_trunk k)))"
    using kj_invD(4) [OF assms(1)] assms(3) by (auto simp: kj_streams_def)
  show "length (kj_trunk k) \<le> queue_max" using kj_invD(1) [OF assms(1)] by (simp add: kj_base_def)
qed (use assms(3,4) in \<open>auto simp: IncrFrontEndProduceNum_def\<close>)

text \<open>A command leaves the work queue.\<close>

lemma kj_consume_inv:
  assumes "kj_inv k" "w_conns (kj_w k) p = Some b" "kj_work k = cmd # wk" "cmd_of p cmd" "\<not> is_confirm cmd"
    "cn_id c = cn_id b" "cn_kind c = cn_kind b" "cn_front_produce c = cn_front_produce b" "cn_back_consume c = cn_back_consume b + 1"
    "cn_back_produce c = cn_back_produce b" "cn_front_consume c = cn_front_consume b" "cn_connected c = cn_connected b"
    "if cn_disposed c then cn_flushed c \<and> cn_clnt c = None \<and> \<not> cn_packet c
     else cn_flushed c = cn_flushed b \<and> cn_clnt c = cn_clnt b \<and> cn_packet c = cn_packet b \<and> \<not> cn_disposed b"
    "cmd = DISPOSE_CONNECTION p \<Longrightarrow> cn_disposed c" "cn_disposed c \<Longrightarrow> p \<notin> set (kj_later k)"
  shows "kj_inv (kj_put p c [] wk (kj_trunk k) (kj_later k) k)"
proof (rule kj_put_inv [OF assms(1,2)])
  have conn: "kj_conn k p b" by (rule kj_invD(2) [OF assms(1,2)])
  have "filter (cmd_of p) (kj_work k) = cmd # filter (cmd_of p) wk" using assms(3,4) by simp
  then show "kj_conn (kj_put p c [] wk (kj_trunk k) (kj_later k) k) p c"
    using conn assms(3-15) unfolding kj_conn_def by (auto split: if_splits)
  show "distinct (kj_later k)" using kj_invD(3) [OF assms(1)] by (simp add: kj_refs_def)
  show "distinct (concat (map cmd_streams wk) @ concat (map cb_streams (kj_trunk k)))"
    using kj_invD(4) [OF assms(1)] assms(3) by (auto simp: kj_streams_def)
  show "filter (cmd_of q) wk = cmds k q" if "q \<noteq> p" for q using that assms(3,4) by (cases cmd) auto
qed (use assms(3,6,7) kj_invD(1) [OF assms(1)] in \<open>auto simp: kj_base_def\<close>)

lemma kj_dispose_cmd_ok:
  assumes "kj_inv k" "kj_later k = []" "kj_work k = cmd # wk" "cmd = DISPOSE_CONNECTION p \<or> cmd = POST_PACKET p"
  shows "\<exists>k'. run_cmd cmd (k\<lparr>kj_work := wk\<rparr>) = Some k' \<and> kj_inv k'"
proof -
  have "cmds k p \<noteq> []" using assms(3,4) by auto
  then obtain c where c: "w_conns (kj_w k) p = Some c" using kj_invD(3) [OF assms(1)] unfolding kj_refs_def by auto
  have conn: "kj_conn k p c" by (rule kj_invD(2) [OF assms(1) c])
  let ?k = "\<lambda>c. kj_put p c [] wk (kj_trunk k) (kj_later k) k"
  show ?thesis
  proof (cases "cmd = DISPOSE_CONNECTION p \<and> \<not> cn_disposed c")
    case False
    have "cn_packet c \<Longrightarrow> cn_clnt c \<noteq> None" using conn by (simp add: kj_conn_def split: if_splits)
    then have "run_cmd cmd (k\<lparr>kj_work := wk\<rparr>) = Some (?k (IncrBackEndConsumeNum c))"
      using False c assms(4)
      by (auto simp: run_cmd_def kj_PostPacket_def kj_SendRaw_def kj_DisposeConnection_def kj_lift_def upd_conn_def kj_put_def)
    moreover have "kj_inv (?k (IncrBackEndConsumeNum c))"
      by (rule kj_consume_inv [OF assms(1) c assms(3)])
        (use assms(2,4) conn False in \<open>auto simp: IncrBackEndConsumeNum_def kj_conn_def\<close>)
    ultimately show ?thesis by blast
  next
    case True
    let ?c = "IncrBackEndConsumeNum (c\<lparr>cn_disposed := True, cn_packet := False, cn_flushed := True, cn_clnt := None\<rparr>)"
    have "\<not> confirm_first (cmds k p)" using assms(3) True by simp
    then have str: "cn_clnt c \<noteq> None" "\<not> cn_flushed c" using conn True unfolding kj_conn_def by auto
    have "run_cmd cmd (k\<lparr>kj_work := wk\<rparr>) = Some (?k ?c)"
      using c True str
      by (auto simp: run_cmd_def kj_DisposeConnection_def kj_FlushStream_def kj_lift_def upd_conn_def kj_put_def)
    moreover have "kj_inv (?k ?c)"
      by (rule kj_consume_inv [OF assms(1) c assms(3)])
        (use assms(2) True in \<open>auto simp: IncrBackEndConsumeNum_def\<close>)
    ultimately show ?thesis by blast
  qed
qed

lemma kj_confirm_cmd_ok:
  assumes "kj_inv k" "kj_later k = []" "kj_work k = CONFIRM_CLIENT_IS_READY p st # wk"
  shows "\<exists>k'. run_cmd (CONFIRM_CLIENT_IS_READY p st) (k\<lparr>kj_work := wk\<rparr>) = Some k' \<and> kj_inv k'"
proof -
  let ?cmd = "CONFIRM_CLIENT_IS_READY p st"
  have "cmds k p \<noteq> []" using assms(3) by auto
  then obtain c where c: "w_conns (kj_w k) p = Some c" using kj_invD(3) [OF assms(1)] unfolding kj_refs_def by auto
  have conn: "kj_conn k p c" by (rule kj_invD(2) [OF assms(1) c])
  have cs: "cmds k p = ?cmd # filter (cmd_of p) wk" using assms(3) by simp
  then have nc: "\<not> cn_disposed c" "cn_clnt c = None" "\<not> cn_flushed c" "filter is_confirm (filter (cmd_of p) wk) = []" "0 < cn_id c"
    using conn unfolding kj_conn_def by (auto simp: word_gt_0 split: if_splits)
  have str: "kj_streams k" using kj_invD(4) [OF assms(1)] .
  obtain sv where sv: "cn_kind c = ClientOf sv" using conn by (auto simp: kj_conn_def)
  then obtain x where x: "w_servers (kj_w k) sv = Some x" "\<not> sv_closed x" "st \<in> set (sv_streams x)"
    using str c assms(3) unfolding kj_streams_def by (metis list.set_intros(1))
  let ?x = "x\<lparr>sv_streams := removeAll st (sv_streams x)\<rparr>"
  let ?c = "IncrBackEndConsumeNum (c\<lparr>cn_clnt := Some st, cn_packet := True\<rparr>)"
  let ?w = "(kj_w k)\<lparr>w_conns := (w_conns (kj_w k))(p \<mapsto> ?c), w_servers := (w_servers (kj_w k))(sv \<mapsto> ?x)\<rparr>"
  let ?k = "k\<lparr>kj_w := ?w, kj_work := wk\<rparr>"
  have eff: "run_cmd ?cmd (k\<lparr>kj_work := wk\<rparr>) = Some ?k"
    using c nc sv x
    by (auto simp: run_cmd_def conn_IsReady_def kj_lift_def ConfirmClientIsReady_def RemoveStream_def upd_server_def upd_conn_def
      intro!: kj_world.equality world.equality)
  have "kj_inv ?k"
  proof (rule kj_frame [OF assms(1), of ?k p])
    show "kj_base ?k"
      using kj_invD(1) [OF assms(1)] assms(3) fresh_bounds(1) [of "kj_w k" p c] fresh_bounds(4) [of "kj_w k" sv x] c x(1)
      unfolding kj_base_def fresh_ok_def id_ok_def by auto
    show "kj_mgr (kj_w ?k)"
      by (rule kj_mgr_put [OF kj_invD(5) [OF assms(1)] c, of ?c]) (simp_all add: IncrBackEndConsumeNum_def)
    show "kj_refs ?k"
      using kj_invD(3) [OF assms(1)] c assms(3) unfolding kj_refs_def by (auto simp: IncrBackEndConsumeNum_def split: if_splits)
    have dist: "st \<notin> set (concat (map cmd_streams wk) @ concat (map cb_streams (kj_trunk k)))"
      using str assms(3) unfolding kj_streams_def by auto
    show "kj_streams ?k"
      unfolding kj_streams_def
    proof (intro conjI allI impI)
      fix q st' d sv' assume q: "CONFIRM_CLIENT_IS_READY q st' \<in> set (kj_work ?k)" "w_conns (kj_w ?k) q = Some d" "cn_kind d = ClientOf sv'"
      then obtain e where e: "w_conns (kj_w k) q = Some e" "cn_kind e = ClientOf sv'"
        using c by (auto simp: IncrBackEndConsumeNum_def split: if_splits)
      have "CONFIRM_CLIENT_IS_READY q st' \<in> set (kj_work k)" using q(1) assms(3) by simp
      then obtain y where y: "w_servers (kj_w k) sv' = Some y" "\<not> sv_closed y" "st' \<in> set (sv_streams y)"
        using kj_streamsD(2) [OF str _ e] by blast
      have "st' \<noteq> st" using q(1) dist by force
      then show "\<exists>x. w_servers (kj_w ?k) sv' = Some x \<and> \<not> sv_closed x \<and> st' \<in> set (sv_streams x)" using y x by auto
    next
      fix sv' st' assume a: "Accept_client sv' st' \<in> set (kj_trunk ?k)"
      then obtain y where y: "w_servers (kj_w k) sv' = Some y" "sv_closed y \<or> st' \<in> set (sv_streams y)"
        using kj_streamsD(5) [OF str, of sv' st'] by auto
      have "st' \<noteq> st" using a dist by force
      then show "\<exists>x. w_servers (kj_w ?k) sv' = Some x \<and> (sv_closed x \<or> st' \<in> set (sv_streams x))" using y x by auto
    next
      show "distinct (concat (map cmd_streams (kj_work ?k)) @ concat (map cb_streams (kj_trunk ?k)))"
        using kj_streamsD(1) [OF str] assms(3) by simp
    next
      fix sv' st' assume "FLUSH_TCP_SERVER_DOWNSTREAM sv' st' \<in> set (kj_work ?k)"
      then obtain y where "w_servers (kj_w k) sv' = Some y" "sv_closed y"
        using kj_streamsD(7) [OF str, of sv' st'] assms(3) by auto
      then show "\<exists>x. w_servers (kj_w ?k) sv' = Some x \<and> sv_closed x" using x by auto
    next
      fix q st' assume "CONFIRM_CLIENT_IS_READY q st' \<in> set (kj_work ?k)"
      then show "st' < w_fresh (kj_w ?k)" using kj_streamsD(6) [OF str, of q st'] assms(3) by simp
    next
      fix sv' y assume "w_servers (kj_w ?k) sv' = Some y" "sv_closed y"
      then show "sv_streams y = []" using kj_streamsD(8) [OF str] x by (auto split: if_splits)
    qed (use kj_streamsD(3,4) [OF str] in \<open>simp_all\<close>)
    show "kj_conn ?k p d" if "w_conns (kj_w ?k) p = Some d" for d
      using that conn cs nc sv x assms(2,3) unfolding kj_conn_def by (auto simp: IncrBackEndConsumeNum_def)
  qed (use assms(2,3) x(1) in auto)
  then show ?thesis using eff by blast
qed

text \<open>A command that flushes a stream of a closed server finds no stream.\<close>

lemma kj_drop_flush_inv:
  assumes "kj_inv k" "kj_work k = FLUSH_TCP_SERVER_DOWNSTREAM sv st # wk"
  shows "kj_inv (k\<lparr>kj_work := wk\<rparr>)"
  unfolding kj_inv_def
proof (intro conjI allI impI)
  let ?k = "k\<lparr>kj_work := wk\<rparr>"
  have cmds: "cmds ?k p = cmds k p" for p using assms(2) by simp
  show "kj_base ?k" using kj_invD(1) [OF assms(1)] assms(2) by (simp add: kj_base_def)
  show "kj_conn ?k p c" if "w_conns (kj_w ?k) p = Some c" for p c
    by (rule kj_conn_cong [OF kj_invD(2) [OF assms(1)]]) (use that cmds in simp_all)
  show "kj_refs ?k" using kj_invD(3) [OF assms(1)] cmds assms(2) unfolding kj_refs_def by simp
  show "kj_streams ?k" using kj_invD(4) [OF assms(1)] assms(2) unfolding kj_streams_def by simp
  show "kj_mgr (kj_w ?k)" using kj_invD(5) [OF assms(1)] by simp
qed

lemma kj_flush_cmd_ok:
  assumes "kj_inv k" "kj_work k = FLUSH_TCP_SERVER_DOWNSTREAM sv st # wk"
  shows "\<exists>k'. run_cmd (FLUSH_TCP_SERVER_DOWNSTREAM sv st) (k\<lparr>kj_work := wk\<rparr>) = Some k' \<and> kj_inv k'"
proof -
  obtain x where x: "w_servers (kj_w k) sv = Some x" "sv_closed x"
    using kj_streamsD(7) [OF kj_invD(4) [OF assms(1)], of sv st] assms(2) by auto
  then have "sv_streams x = []" using kj_streamsD(8) [OF kj_invD(4) [OF assms(1)]] by blast
  then have "run_cmd (FLUSH_TCP_SERVER_DOWNSTREAM sv st) (k\<lparr>kj_work := wk\<rparr>) = Some (k\<lparr>kj_work := wk\<rparr>)"
    using x by (simp add: run_cmd_def kj_lift_def RemoveStream_def)
  then show ?thesis using kj_drop_flush_inv [OF assms] by blast
qed

text \<open>A command of the work queue of a factory whose servers are not being closed.\<close>

lemma run_cmd_others:
  assumes "run_cmd cmd k = Some k'" "\<And>sv. cmd \<noteq> CLOSE_TCP_SERVER sv"
  shows "kj_work k' = kj_work k" "kj_trunk k' = kj_trunk k" "kj_later k' = kj_later k" "w_entries (kj_w k') = w_entries (kj_w k)"
  using assms
  by (cases cmd; auto simp: run_cmd_def kj_PostPacket_def kj_SendRaw_def kj_lift_def kj_DisposeConnection_def kj_FlushStream_def upd_conn_def upd_server_def
      RemoveStream_def ConfirmClientIsReady_def split: if_splits option.splits conn_kind.splits bind_splits)+

lemma work_step_ok:
  assumes "kj_inv k" "kj_later k = []"
  shows "\<exists>k'. work_step k = Some k' \<and> kj_inv k'"
proof (cases "kj_work k")
  case (Cons cmd wk)
  have "\<And>sv. CLOSE_TCP_SERVER sv \<notin> set (kj_work k)" using kj_invD(3) [OF assms(1)] by (simp add: kj_refs_def)
  then have "\<And>sv. cmd \<noteq> CLOSE_TCP_SERVER sv" using Cons by auto
  then have "\<exists>k'. run_cmd cmd (k\<lparr>kj_work := wk\<rparr>) = Some k' \<and> kj_inv k'"
    using kj_dispose_cmd_ok [OF assms Cons] kj_confirm_cmd_ok [OF assms] kj_flush_cmd_ok [OF assms(1)] Cons by (cases cmd) auto
  then show ?thesis using Cons by (simp add: work_step_def)
qed (use assms in \<open>simp add: work_step_def\<close>)

text \<open>Packets and failures of a stream.\<close>

lemma AddClientPacketCb_ok:
  assumes "kj_inv k" "w_conns (kj_w k) p = Some c" "length (kj_trunk k) < queue_max"
  defines "k' \<equiv> kj_put p (IncrBackEndProduceNum c) [] (kj_work k) (kj_trunk k @ [Client_packet p (cn_id c)]) (kj_later k) k"
  shows "AddClientPacketCb p k = Some k'" "kj_inv k'"
proof -
  show "AddClientPacketCb p k = Some k'"
    using assms(2) kj_invD(1) [OF assms(1)]
    by (simp add: AddClientPacketCb_def kj_lift_def upd_conn_def trunk_Add_def k'_def kj_put_def kj_base_def)
  show "kj_inv k'"
    unfolding k'_def
  proof (rule kj_put_inv [OF assms(1,2)])
    show "kj_conn (kj_put p (IncrBackEndProduceNum c) [] (kj_work k) (kj_trunk k @ [Client_packet p (cn_id c)]) (kj_later k) k) p (IncrBackEndProduceNum c)"
      using kj_invD(2) [OF assms(1,2)] by (auto simp: kj_conn_def IncrBackEndProduceNum_def)
    show "distinct (kj_later k)" using kj_invD(3) [OF assms(1)] by (simp add: kj_refs_def)
    show "distinct (concat (map cmd_streams (kj_work k)) @ concat (map cb_streams (kj_trunk k @ [Client_packet p (cn_id c)])))"
      using kj_streamsD(1) [OF kj_invD(4) [OF assms(1)]] by simp
    show "length (kj_work k) \<le> queue_max" using kj_invD(1) [OF assms(1)] by (simp add: kj_base_def)
  qed (use assms(3) in \<open>auto simp: IncrBackEndProduceNum_def\<close>)
qed

lemma kj_packets_ok:
  "kj_inv k \<Longrightarrow> w_conns (kj_w k) p = Some c \<Longrightarrow> length (kj_trunk k) + n \<le> queue_max \<Longrightarrow> \<exists>k'. kj_packets n p k = Some k' \<and> kj_inv k'"
proof (induction n arbitrary: k c)
  case (Suc n)
  let ?k = "kj_put p (IncrBackEndProduceNum c) [] (kj_work k) (kj_trunk k @ [Client_packet p (cn_id c)]) (kj_later k) k"
  have "AddClientPacketCb p k = Some ?k" "kj_inv ?k" using AddClientPacketCb_ok [OF Suc.prems(1,2)] Suc.prems(3) by simp_all
  moreover have "\<exists>k'. kj_packets n p ?k = Some k' \<and> kj_inv k'"
    by (rule Suc.IH [OF \<open>kj_inv ?k\<close>]) (use Suc.prems(3) in simp_all)
  ultimately show ?case by simp
qed simp

lemma kj_OnRawData_ok:
  assumes "kj_inv k" "kj_can k (KRead p n)"
  shows "\<exists>k'. kj_OnRawData p n k = Some k' \<and> kj_inv k'"
proof -
  obtain c where c: "w_conns (kj_w k) p = Some c" "cn_clnt c \<noteq> None" "length (kj_trunk k) + n \<le> queue_max"
    using assms(2) by (auto split: option.splits)
  then have "cn_packet c" using kj_invD(2) [OF assms(1) c(1)] by (auto simp: kj_conn_def split: if_splits)
  then show ?thesis using kj_packets_ok [OF assms(1) c(1,3)] c(1) by (simp add: kj_OnRawData_def)
qed

lemma kj_taskFailed_inv:
  assumes "kj_inv k" "kj_can k (KFail p)"
  shows "kj_inv (kj_taskFailed p k)"
proof -
  obtain c where c: "w_conns (kj_w k) p = Some c" "cn_clnt c \<noteq> None" "p \<notin> set (kj_later k)"
    using assms(2) by (auto split: option.splits)
  have "kj_taskFailed p k = kj_put p c [] (kj_work k) (kj_trunk k) (kj_later k @ [p]) k"
    using c(1) by (auto simp: kj_taskFailed_def kj_put_def map_upd_triv)
  moreover have "kj_inv \<dots>"
  proof (rule kj_put_inv [OF assms(1) c(1)])
    show "kj_conn (kj_put p c [] (kj_work k) (kj_trunk k) (kj_later k @ [p]) k) p c"
      using kj_invD(2) [OF assms(1) c(1)] c(2) by (auto simp: kj_conn_def)
  qed (use c(3) kj_invD(1,3) [OF assms(1)] kj_streamsD(1) [OF kj_invD(4) [OF assms(1)]] in \<open>auto simp: kj_base_def kj_refs_def\<close>)
  ultimately show ?thesis by simp
qed

text \<open>A connection disposed of by the back end, with the callback that it sends.\<close>

definition kj_disposed :: "conn \<Rightarrow> conn" where
  "kj_disposed c = IncrBackEndProduceNum (c\<lparr>cn_disposed := True, cn_packet := False, cn_flushed := True, cn_clnt := None\<rparr>)"

lemma kj_dispose_back_inv:
  assumes "kj_inv k" "w_conns (kj_w k) p = Some c" "cn_clnt c \<noteq> None \<or> cn_disposed c" "0 < sv" "length (kj_trunk k) < queue_max"
    "p \<notin> set lt" "distinct lt" "set lt \<subseteq> set (kj_later k)"
  shows "kj_inv (kj_put p (kj_disposed c) [] (kj_work k) (kj_trunk k @ [Client_disconnect sv p]) lt k)" (is "kj_inv ?k")
proof (rule kj_put_inv [OF assms(1,2)])
  have "filter is_confirm (cmds k p) = []"
    using kj_invD(2) [OF assms(1,2)] assms(3) by (auto simp: kj_conn_def split: if_splits)
  then show "kj_conn ?k p (kj_disposed c)"
    using kj_invD(2) [OF assms(1,2)] assms(6) by (auto simp: kj_conn_def kj_disposed_def IncrBackEndProduceNum_def)
  show "distinct (concat (map cmd_streams (kj_work k)) @ concat (map cb_streams (kj_trunk k @ [Client_disconnect sv p])))"
    using kj_streamsD(1) [OF kj_invD(4) [OF assms(1)]] by simp
qed (use assms kj_invD(1) [OF assms(1)] in \<open>auto simp: kj_disposed_def IncrBackEndProduceNum_def kj_base_def\<close>)

lemma kj_OnDisposeClient_eff:
  assumes "w_conns (kj_w k) p = Some c" "cn_clnt c \<noteq> None \<or> cn_disposed c" "\<not> kj_close k" "cn_disposed c \<Longrightarrow> cn_flushed c \<and> cn_clnt c = None \<and> \<not> cn_packet c"
  shows "kj_OnDisposeClient sv p k = Some (kj_put p (kj_disposed c) [] (kj_work k) (kj_trunk k @ [Client_disconnect sv p]) (kj_later k) k)"
  using assms
  by (auto simp: kj_OnDisposeClient_def kj_DisposeConnection_def kj_FlushStream_def kj_lift_def upd_conn_def AddClientDisconnectCb_kj_def
    trunk_Add_def kj_put_def kj_disposed_def IncrBackEndProduceNum_def intro!: kj_world.equality world.equality conn.equality ext)

lemma later_step_ok:
  assumes "kj_inv k" "length (kj_trunk k) < queue_max"
  shows "\<exists>k'. later_step k = Some k' \<and> kj_inv k'"
proof (cases "kj_later k")
  case (Cons p ps)
  then have p: "p \<in> set (kj_later k)" "p \<notin> set ps" "distinct ps" using kj_invD(3) [OF assms(1)] by (auto simp: kj_refs_def)
  then obtain c where c: "w_conns (kj_w k) p = Some c" using kj_invD(3) [OF assms(1)] unfolding kj_refs_def by blast
  have conn: "kj_conn k p c" by (rule kj_invD(2) [OF assms(1) c])
  then have cl: "cn_clnt c \<noteq> None" "\<not> cn_disposed c" "\<not> cn_flushed c" using p(1) by (auto simp: kj_conn_def split: if_splits)
  obtain sv where sv: "cn_kind c = ClientOf sv" "0 < sv" using conn by (auto simp: kj_conn_def)
  let ?k1 = "k\<lparr>kj_later := ps, kj_w := (kj_w k)\<lparr>w_conns := (w_conns (kj_w k))(p \<mapsto> c\<lparr>cn_flushed := True\<rparr>)\<rparr>\<rparr>"
  let ?k = "kj_put p (kj_disposed c) [] (kj_work k) (kj_trunk k @ [Client_disconnect sv p]) ps k"
  have "later_step k = kj_OnDisposeClient sv p ?k1"
    using Cons c cl sv by (simp add: later_step_def kj_FlushStream_def kj_lift_def upd_conn_def)
  also have "\<dots> = Some (kj_put p (kj_disposed (c\<lparr>cn_flushed := True\<rparr>)) [] (kj_work ?k1) (kj_trunk ?k1 @ [Client_disconnect sv p]) (kj_later ?k1) ?k1)"
    by (rule kj_OnDisposeClient_eff) (use cl kj_invD(1) [OF assms(1)] in \<open>auto simp: kj_base_def\<close>)
  also have "\<dots> = Some ?k"
    by (auto simp: kj_put_def kj_disposed_def IncrBackEndProduceNum_def intro!: kj_world.equality world.equality)
  finally show ?thesis
    using kj_dispose_back_inv [OF assms(1) c _ sv(2) assms(2) p(2,3)] cl Cons by auto
qed (use assms in \<open>simp add: later_step_def\<close>)

end
