(* ===== verification/KjSteps.thy ===== *)
theory KjSteps
  imports KjInvariant
begin

text \<open>
  Every step of the front end, of the recycler and of closing a server keeps the invariant of the kj factory, so that the
  factory is a system in the sense of the locale \<open>step_system\<close>.
\<close>

section \<open>Removing a connection\<close>

text \<open>What the manager's maps say.\<close>

lemma kj_mgrD:
  assumes "kj_mgr w"
  shows "distinct (map fst (w_entries w))" "(sv, m) \<in> set (w_entries w) \<Longrightarrow> distinct (map fst m)"
    "(i, p) \<in> set (entry_clients sv w) \<longleftrightarrow>
       (\<exists>c. w_conns w p = Some c \<and> cn_id c = i \<and> cn_kind c = ClientOf sv \<and> p \<notin> set (w_recycler w))"
    "distinct (w_recycler w)" "p \<in> set (w_recycler w) \<Longrightarrow> w_conns w p \<noteq> None" "w_safe w = []"
    "w_conns w p = Some c \<Longrightarrow> w_conns w q = Some d \<Longrightarrow> cn_id c = cn_id d \<Longrightarrow> p = q"
  using assms unfolding kj_mgr_def by blast+

lemma kj_entry_distinct: "kj_mgr w \<Longrightarrow> distinct (map fst (entry_clients sv w))"
  using kj_mgrD(2) [of w sv] by (auto simp: entry_clients_def split: option.splits dest: map_of_SomeD)

lemma kj_mgrI:
  assumes "distinct (map fst (w_entries w))" "\<And>sv m. (sv, m) \<in> set (w_entries w) \<Longrightarrow> distinct (map fst m)"
    "\<And>sv i p. (i, p) \<in> set (entry_clients sv w) \<longleftrightarrow>
       (\<exists>c. w_conns w p = Some c \<and> cn_id c = i \<and> cn_kind c = ClientOf sv \<and> p \<notin> set (w_recycler w))"
    "distinct (w_recycler w)" "\<And>p. p \<in> set (w_recycler w) \<Longrightarrow> w_conns w p \<noteq> None" "w_safe w = []"
    "\<And>p q c d. w_conns w p = Some c \<Longrightarrow> w_conns w q = Some d \<Longrightarrow> cn_id c = cn_id d \<Longrightarrow> p = q"
  shows "kj_mgr w"
  using assms unfolding kj_mgr_def by blast

text \<open>A connection leaves its server's map for the recycler.\<close>

definition kj_removed :: "nat \<Rightarrow> nat \<Rightarrow> conn \<Rightarrow> world \<Rightarrow> world" where
  "kj_removed sv p c w = (let w1 = RecyclerPush p (set_clients sv (AList.delete (cn_id c) (entry_clients sv w)) w) in w1\<lparr>w_count := w_count w1 - 1\<rparr>)"

lemma kj_removed_simps [simp]:
  "w_conns (kj_removed sv p c w) = w_conns w" "w_servers (kj_removed sv p c w) = w_servers w" "w_fresh (kj_removed sv p c w) = w_fresh w"
  "w_next_id (kj_removed sv p c w) = w_next_id w" "w_recycler (kj_removed sv p c w) = w_recycler w @ [p]"
  "w_safe (kj_removed sv p c w) = w_safe w" "w_deleted (kj_removed sv p c w) = w_deleted w" "w_events (kj_removed sv p c w) = w_events w"
  "w_socks (kj_removed sv p c w) = w_socks w" "w_clnts (kj_removed sv p c w) = w_clnts w"
  "w_entries (kj_removed sv p c w) = AList.update sv (AList.delete (cn_id c) (entry_clients sv w)) (w_entries w)"
  by (simp_all add: kj_removed_def RecyclerPush_def set_clients_def Let_def)

lemma kj_removed_mgr:
  assumes "kj_mgr w" "w_conns w p = Some c" "map_of (entry_clients sv w) (cn_id c) = Some p"
  shows "kj_mgr (kj_removed sv p c w)" (is "kj_mgr ?w")
proof -
  note m = kj_mgrD [OF assms(1)]
  have p: "cn_kind c = ClientOf sv" "p \<notin> set (w_recycler w)"
    using m(3) [of "cn_id c" p sv] map_of_SomeD [OF assms(3)] assms(2) by auto
  let ?m = "AList.delete (cn_id c) (entry_clients sv w)"
  have ec: "entry_clients sv' ?w = (if sv' = sv then ?m else entry_clients sv' w)" for sv'
    using entry_clients_set [of sv' sv ?m w] by (simp add: entry_clients_def set_clients_def)
  have d: "distinct (map fst ?m)" using kj_entry_distinct [OF assms(1)] by (simp add: AList.distinct_delete)
  show ?thesis
  proof (rule kj_mgrI)
    show "distinct (map fst (w_entries ?w))" using m(1) by (simp add: distinct_update)
    show "distinct (map fst m')" if "(sv', m') \<in> set (w_entries ?w)" for sv' m'
      using that update_entries(2) [OF m(1) m(2) d] by simp
    show "(i, q) \<in> set (entry_clients sv' ?w) \<longleftrightarrow>
       (\<exists>d. w_conns ?w q = Some d \<and> cn_id d = i \<and> cn_kind d = ClientOf sv' \<and> q \<notin> set (w_recycler ?w))" for sv' i q
      using m(3) [of i q sv'] m(7) [of p c q] assms(2) p set_delete [OF kj_entry_distinct [OF assms(1)]]
      by (auto simp: ec)
    show "distinct (w_recycler ?w)" using m(4) p(2) by simp
    show "w_conns ?w q \<noteq> None" if "q \<in> set (w_recycler ?w)" for q using that m(5) [of q] assms(2) by auto
    show "w_safe ?w = []" using m(6) by simp
    show "q = r" if "w_conns ?w q = Some d" "w_conns ?w r = Some e" "cn_id d = cn_id e" for q r d e
      using that m(7) by simp
  qed
qed

lemma kj_removed_inv:
  assumes "kj_inv k" "w_conns (kj_w k) p = Some c" "map_of (entry_clients sv (kj_w k)) (cn_id c) = Some p"
    "\<not> cn_connected c" "DISPOSE_CONNECTION p \<in> set (kj_work k)"
  shows "kj_inv (k\<lparr>kj_w := kj_removed sv p c (kj_w k)\<rparr>)" (is "kj_inv ?k")
proof (rule kj_frame [OF assms(1), of ?k p])
  show "kj_base ?k" using kj_invD(1) [OF assms(1)] by (simp add: kj_base_def fresh_ok_def id_ok_def)
  show "kj_refs ?k" using kj_invD(3) [OF assms(1)] by (simp add: kj_refs_def)
  show "kj_streams ?k" using kj_invD(4) [OF assms(1)] by (simp add: kj_streams_def)
  show "kj_mgr (kj_w ?k)" using kj_removed_mgr [OF kj_invD(5) [OF assms(1)] assms(2,3)] by simp
  show "kj_conn ?k p d" if "w_conns (kj_w ?k) p = Some d" for d
    using kj_invD(2) [OF assms(1,2)] assms(2,4,5) that by (auto simp: kj_conn_def)
qed simp_all

lemma kj_OnRemoveClient_eff:
  assumes "kj_inv k" "w_conns (kj_w k) p = Some c" "0 < sv" "map_of (entry_clients sv (kj_w k)) (cn_id c) = Some p"
  defines "k1 \<equiv> kj_put p (IncrFrontEndProduceNum c) [] (kj_work k @ [DISPOSE_CONNECTION p]) (kj_trunk k) (kj_later k) k"
  shows "kj_OnRemoveClient sv p k = Some (k1\<lparr>kj_w := kj_removed sv p (IncrFrontEndProduceNum c) (kj_w k1)\<rparr>)"
proof -
  have "0 < cn_id c" using kj_invD(2) [OF assms(1,2)] by (auto simp: kj_conn_def word_gt_0)
  moreover have "cn_id (IncrFrontEndProduceNum c) = cn_id c" by (simp add: IncrFrontEndProduceNum_def)
  ultimately show ?thesis
    using assms(2-4) wq_request_eff [OF assms(1,2)]
    by (simp add: kj_OnRemoveClient_def wq_DisposeConnection_def kj_removed_def Let_def k1_def)
qed

lemma kj_OnRemoveClient_ok:
  assumes "kj_inv k" "w_conns (kj_w k) p = Some c" "\<not> cn_connected c" "0 < sv" "length (kj_work k) < queue_max"
  shows "\<exists>k'. kj_OnRemoveClient sv p k = Some k' \<and> kj_inv k'"
proof (cases "map_of (entry_clients sv (kj_w k)) (cn_id c)")
  case None
  have "0 < cn_id c" using kj_invD(2) [OF assms(1,2)] by (auto simp: kj_conn_def word_gt_0)
  then show ?thesis using assms(1,2,4) None by (simp add: kj_OnRemoveClient_def)
next
  case (Some q)
  then have "\<exists>d. w_conns (kj_w k) q = Some d \<and> cn_id d = cn_id c"
    using kj_mgrD(3) [OF kj_invD(5) [OF assms(1)], of "cn_id c" q sv] map_of_SomeD by fastforce
  then have q: "q = p" using kj_mgrD(7) [OF kj_invD(5) [OF assms(1)] assms(2)] by auto
  let ?c = "IncrFrontEndProduceNum c"
  let ?k1 = "kj_put p ?c [] (kj_work k @ [DISPOSE_CONNECTION p]) (kj_trunk k) (kj_later k) k"
  have k1: "kj_inv ?k1" by (rule kj_request_inv [OF assms(1,2) _ assms(5)]) simp
  have same: "cn_id ?c = cn_id c" "cn_connected ?c = cn_connected c" by (simp_all add: IncrFrontEndProduceNum_def)
  have ec: "entry_clients sv (kj_w ?k1) = entry_clients sv (kj_w k)" by (rule entry_clients_cong) simp
  have "kj_inv (?k1\<lparr>kj_w := kj_removed sv p ?c (kj_w ?k1)\<rparr>)"
    by (rule kj_removed_inv [OF k1]) (use Some q same ec assms(3) in simp_all)
  then show ?thesis using kj_OnRemoveClient_eff [OF assms(1,2,4)] Some q by blast
qed

text \<open>The front end changes the flags of a connection, and takes callbacks that refer to it off the queue.\<close>

lemma kj_front_inv:
  assumes "kj_inv k" "w_conns (kj_w k) p = Some b" "kj_trunk k = pre @ tk" "\<And>cb. cb \<in> set pre \<Longrightarrow> cb_of p cb" "snd ` set es \<subseteq> {p}"
    "cn_id c = cn_id b" "cn_kind c = cn_kind b" "cn_front_produce c = cn_front_produce b" "cn_back_consume c = cn_back_consume b"
    "cn_back_produce c = cn_back_produce b" "cn_front_consume c = cn_front_consume b + of_nat (length pre)" "cn_connected c \<Longrightarrow> cn_connected b"
    "cn_disposed c = cn_disposed b" "cn_flushed c = cn_flushed b" "cn_clnt c = cn_clnt b" "cn_packet c = cn_packet b"
  shows "kj_inv (kj_put p c es (kj_work k) tk (kj_later k) k)" (is "kj_inv ?k")
proof (rule kj_put_inv [OF assms(1,2,6,7,5)])
  have pre: "filter (cb_of p) pre = pre" using assms(4) by (simp add: filter_id_conv)
  have "cbs k p = pre @ filter (cb_of p) tk" using assms(3) pre by simp
  then have "length (cbs k p) = length pre + length (filter (cb_of p) tk)" by simp
  then show "kj_conn ?k p c"
    using kj_invD(2) [OF assms(1,2)] assms(12) unfolding kj_conn_def kj_put_simps assms(6-11,13-16) 
    by (elim conjE, intro conjI) (simp_all add: add.assoc, blast)
  show "filter (cb_of q) tk = cbs k q" if "q \<noteq> p" for q
  proof -
    have "\<not> cb_of q cb" if "cb \<in> set pre" for cb using assms(4) [OF that] \<open>q \<noteq> p\<close> by (cases cb) auto
    then have "filter (cb_of q) pre = []" by (simp add: filter_empty_conv)
    then show ?thesis using assms(3) by simp
  qed
  show "distinct (concat (map cmd_streams (kj_work k)) @ concat (map cb_streams tk))"
    using kj_streamsD(1) [OF kj_invD(4) [OF assms(1)]] assms(3) by auto
qed (use kj_invD(1,3) [OF assms(1)] assms(3) in \<open>auto simp: kj_base_def kj_refs_def\<close>)

text \<open>\<open>OnDisconnect\<close> of a connection.\<close>

definition discon_events :: "nat \<Rightarrow> conn \<Rightarrow> (conn_event \<times> nat) list" where
  "discon_events p c = (if cn_connected c then [(CONNECTION_DISCONNECTED, p)] else [])"

lemma OnDisconnect_put:
  assumes "w_conns (kj_w k) p = Some c"
  shows "kj_lift (OnDisconnect p) k = Some (kj_put p (c\<lparr>cn_connected := False\<rparr>) (discon_events p c) (kj_work k) (kj_trunk k) (kj_later k) k)"
proof -
  have "\<not> cn_connected c \<Longrightarrow> c\<lparr>cn_connected := False\<rparr> = c" by simp
  then show ?thesis
    using assms
    by (auto simp: kj_lift_def OnDisconnect_def upd_conn_def log_event_def kj_put_def discon_events_def map_upd_triv
      intro!: kj_world.equality world.equality)
qed

lemma kj_disconnect_cb_ok:
  assumes "kj_inv k" "kj_trunk k = Client_disconnect sv p # tk" "length (kj_work k) < queue_max"
  shows "\<exists>k'. run_trunk_cb (Client_disconnect sv p) (k\<lparr>kj_trunk := tk\<rparr>) = Some k' \<and> kj_inv k'"
proof -
  have "cbs k p \<noteq> []" using assms(2) by simp
  then obtain c where c: "w_conns (kj_w k) p = Some c" using kj_invD(3) [OF assms(1)] unfolding kj_refs_def by blast
  have sv: "0 < sv" using kj_invD(3) [OF assms(1)] assms(2) unfolding kj_refs_def by auto
  let ?c = "(IncrFrontEndConsumeNum c)\<lparr>cn_connected := False\<rparr>"
  let ?k = "kj_put p ?c (discon_events p c) (kj_work k) tk (kj_later k) k"
  have "kj_inv ?k"
    by (rule kj_front_inv [OF assms(1) c, of "[Client_disconnect sv p]"])
      (use assms(2) in \<open>auto simp: discon_events_def IncrFrontEndConsumeNum_def\<close>)
  then have "\<exists>k'. kj_OnRemoveClient sv p ?k = Some k' \<and> kj_inv k'"
    by (rule kj_OnRemoveClient_ok [of _ _ ?c]) (use sv assms(3) in simp_all)
  moreover have "run_trunk_cb (Client_disconnect sv p) (k\<lparr>kj_trunk := tk\<rparr>) = kj_OnRemoveClient sv p ?k"
  proof -
    let ?k1 = "k\<lparr>kj_trunk := tk, kj_w := (kj_w k)\<lparr>w_conns := (w_conns (kj_w k))(p \<mapsto> IncrFrontEndConsumeNum c)\<rparr>\<rparr>"
    have "kj_lift (OnDisconnect p) ?k1 = Some ?k"
      using OnDisconnect_put [of ?k1 p "IncrFrontEndConsumeNum c"]
      by (auto simp: kj_put_def discon_events_def IncrFrontEndConsumeNum_def)
    moreover have "kj_lift (upd_conn p IncrFrontEndConsumeNum) (k\<lparr>kj_trunk := tk\<rparr>) = Some ?k1" using c by (simp add: kj_lift_def upd_conn_def)
    ultimately show ?thesis by (simp add: run_trunk_cb_def)
  qed
  ultimately show ?thesis by simp
qed

lemma kj_packet_cb_ok:
  assumes "kj_inv k" "kj_trunk k = Client_packet p i # tk"
  shows "\<exists>k'. run_trunk_cb (Client_packet p i) (k\<lparr>kj_trunk := tk\<rparr>) = Some k' \<and> kj_inv k'"
proof -
  have "cbs k p \<noteq> []" using assms(2) by simp
  then obtain c where c: "w_conns (kj_w k) p = Some c" using kj_invD(3) [OF assms(1)] unfolding kj_refs_def by blast
  have id: "cn_id c = i" using kj_invD(3) [OF assms(1)] assms(2) c unfolding kj_refs_def by simp
  let ?k = "kj_put p (IncrFrontEndConsumeNum c) [] (kj_work k) tk (kj_later k) k"
  have "kj_inv ?k"
    by (rule kj_front_inv [OF assms(1) c, of "[Client_packet p i]"]) (use assms(2) in \<open>auto simp: IncrFrontEndConsumeNum_def\<close>)
  moreover have "run_trunk_cb (Client_packet p i) (k\<lparr>kj_trunk := tk\<rparr>) = Some ?k"
    using c id by (auto simp: run_trunk_cb_def kj_lift_def upd_conn_def kj_put_def IncrFrontEndConsumeNum_def intro!: kj_world.equality)
  ultimately show ?thesis by blast
qed

definition kj_stopped :: "nat \<Rightarrow> conn \<Rightarrow> kj_world \<Rightarrow> kj_world" where
  "kj_stopped p c k = kj_put p (c\<lparr>cn_running := False, cn_connected := False\<rparr>) (discon_events p c) (kj_work k) (kj_trunk k) (kj_later k) k"

lemma kj_Disconnect_eff:
  assumes "w_conns (kj_w k) p = Some c" "\<not> cn_disposed c" "cn_running c" "cn_kind c = ClientOf sv"
  shows "kj_Disconnect p k = kj_OnRemoveClient sv p (kj_stopped p c k)"
proof -
  let ?k1 = "k\<lparr>kj_w := (kj_w k)\<lparr>w_conns := (w_conns (kj_w k))(p \<mapsto> c\<lparr>cn_running := False\<rparr>)\<rparr>\<rparr>"
  have "kj_lift (OnDisconnect p) ?k1 = Some (kj_stopped p c k)"
    using OnDisconnect_put [of ?k1 p "c\<lparr>cn_running := False\<rparr>"] by (auto simp: kj_stopped_def kj_put_def discon_events_def)
  moreover have "kj_lift (upd_conn p (\<lambda>c. c\<lparr>cn_running := False\<rparr>)) k = Some ?k1" using assms(1) by (simp add: kj_lift_def upd_conn_def)
  ultimately show ?thesis using assms by (simp add: kj_Disconnect_def)
qed

lemma kj_stopped_inv: "kj_inv k \<Longrightarrow> w_conns (kj_w k) p = Some c \<Longrightarrow> kj_inv (kj_stopped p c k)"
  unfolding kj_stopped_def by (rule kj_front_inv [of _ _ _ "[]"]) (auto simp: discon_events_def)

lemma kj_Disconnect_ok:
  assumes "kj_inv k" "w_conns (kj_w k) p = Some c" "length (kj_work k) < queue_max"
  shows "\<exists>k'. kj_Disconnect p k = Some k' \<and> kj_inv k'"
proof (cases "\<not> cn_disposed c \<and> cn_running c")
  case True
  obtain sv where sv: "cn_kind c = ClientOf sv" "0 < sv" using kj_invD(2) [OF assms(1,2)] by (auto simp: kj_conn_def)
  have "\<exists>k'. kj_OnRemoveClient sv p (kj_stopped p c k) = Some k' \<and> kj_inv k'"
    by (rule kj_OnRemoveClient_ok [OF kj_stopped_inv [OF assms(1,2)], of p "c\<lparr>cn_running := False, cn_connected := False\<rparr>"]) (use sv assms(3) in \<open>simp_all add: kj_stopped_def\<close>)
  then show ?thesis using kj_Disconnect_eff [OF assms(2)] True sv by simp
qed (use assms in \<open>auto simp: kj_Disconnect_def\<close>)

text \<open>A new connection, with the command that confirms it.\<close>

definition kj_new_conn :: "nat \<Rightarrow> world \<Rightarrow> conn" where
  "kj_new_conn sv w = (new_client (w_next_id w + 1) sv)\<lparr>cn_connected := True, cn_front_produce := 1\<rparr>"

lemma kj_new_conn_simps [simp]:
  "cn_id (kj_new_conn sv w) = w_next_id w + 1" "cn_kind (kj_new_conn sv w) = ClientOf sv" "cn_clnt (kj_new_conn sv w) = None"
  "\<not> cn_packet (kj_new_conn sv w)" "cn_connected (kj_new_conn sv w)" "\<not> cn_disposed (kj_new_conn sv w)" "\<not> cn_flushed (kj_new_conn sv w)"
  "cn_front_produce (kj_new_conn sv w) = 1" "cn_back_consume (kj_new_conn sv w) = 0" "cn_back_produce (kj_new_conn sv w) = 0"
  "cn_front_consume (kj_new_conn sv w) = 0"
  by (simp_all add: kj_new_conn_def new_client_def)

definition kj_accepted :: "nat \<Rightarrow> world \<Rightarrow> world" where
  "kj_accepted sv w =
     w\<lparr>w_fresh := Suc (w_fresh w), w_conns := (w_conns w)(w_fresh w \<mapsto> kj_new_conn sv w), w_next_id := w_next_id w + 1,
       w_entries := AList.update sv (AList.update (w_next_id w + 1) (w_fresh w) (entry_clients sv w)) (w_entries w),
       w_count := w_count w + 1, w_events := w_events w @ [(CONNECTION_CONNECTED, w_fresh w)]\<rparr>"

lemma kj_accepted_simps [simp]:
  "w_fresh (kj_accepted sv w) = Suc (w_fresh w)" "w_conns (kj_accepted sv w) = (w_conns w)(w_fresh w \<mapsto> kj_new_conn sv w)"
  "w_next_id (kj_accepted sv w) = w_next_id w + 1" "w_servers (kj_accepted sv w) = w_servers w" "w_recycler (kj_accepted sv w) = w_recycler w"
  "w_safe (kj_accepted sv w) = w_safe w" "w_deleted (kj_accepted sv w) = w_deleted w" "w_socks (kj_accepted sv w) = w_socks w"
  "w_clnts (kj_accepted sv w) = w_clnts w" "w_events (kj_accepted sv w) = w_events w @ [(CONNECTION_CONNECTED, w_fresh w)]"
  by (simp_all add: kj_accepted_def)

lemma kj_accept_eff:
  assumes "kj_base k" "0 < sv" "w_next_id (kj_w k) + 1 < TCP_CONNID_MAX" "0 < w_next_id (kj_w k) + 1"
  shows "kj_OnAcceptClient sv st k =
    Some (k\<lparr>kj_w := kj_accepted sv (kj_w k), kj_work := kj_work k @ [CONFIRM_CLIENT_IS_READY (w_fresh (kj_w k)) st]\<rparr>)"
  using assms
  by (auto simp: kj_OnAcceptClient_def CreateTcpClientOnServer_def GetNextConnectionId_def alloc_conn_def OnAddClient_def new_client_def
    wq_ConfirmClientIsReady_def wq_request_def kj_lift_def upd_conn_def OnConnect_def log_event_def set_clients_def Let_def Commit_def
    kj_accepted_def kj_new_conn_def IncrFrontEndProduceNum_def kj_base_def entry_clients_def intro!: kj_world.equality world.equality)

lemma kj_accepted_mgr:
  assumes "kj_mgr w" "fresh_ok w" "\<And>p c. w_conns w p = Some c \<Longrightarrow> cn_id c \<noteq> w_next_id w + 1"
  shows "kj_mgr (kj_accepted sv w)" (is "kj_mgr ?w")
proof -
  note m = kj_mgrD [OF assms(1)]
  let ?i = "w_next_id w + 1" and ?p = "w_fresh w"
  let ?m = "AList.update ?i ?p (entry_clients sv w)"
  have new: "?i \<notin> fst ` set (entry_clients sv w)" using m(3) assms(3) by force
  have fresh: "w_conns w ?p = None" using assms(2) by (simp add: fresh_ok_def)
  then have rec: "?p \<notin> set (w_recycler w)" using m(5) by blast
  have ents: "w_entries ?w = w_entries (set_clients sv ?m w)" by (simp add: kj_accepted_def set_clients_def)
  have clients: "entry_clients sv' ?w = (if sv' = sv then ?m else entry_clients sv' w)" for sv'
    using entry_clients_cong [OF ents] by simp
  have dist: "distinct (map fst ?m)" using kj_entry_distinct [OF assms(1)] by (rule distinct_update)
  show ?thesis
  proof (rule kj_mgrI)
    show "distinct (map fst m')" if "(sv', m') \<in> set (w_entries ?w)" for sv' m'
      using update_entries(2) [OF m(1,2) dist] that by (simp add: ents set_clients_def)
    show "distinct (map fst (w_entries ?w))" using update_entries(1) [OF m(1,2) dist] by (simp add: ents set_clients_def)
    show "(i, q) \<in> set (entry_clients sv' ?w) \<longleftrightarrow>
      (\<exists>d. w_conns ?w q = Some d \<and> cn_id d = i \<and> cn_kind d = ClientOf sv' \<and> q \<notin> set (w_recycler ?w))" for sv' i q
      unfolding clients using m(3) [of i q sv'] fresh rec by (auto simp: set_update_new [OF new])
    show "q = r" if "w_conns ?w q = Some d" "w_conns ?w r = Some e" "cn_id d = cn_id e" for q r d e
      using that m(7) assms(3) [of q d] assms(3) [of r e] by (auto split: if_splits)
    show "w_conns ?w q \<noteq> None" if "q \<in> set (w_recycler ?w)" for q using that m(5) [of q] by auto
  qed (use m(4,6) in simp_all)
qed

lemma kj_accepted_inv:
  assumes "kj_inv k" "kj_trunk k = Accept_client sv st # tk" "w_servers (kj_w k) sv = Some x" "\<not> sv_closed x"
    "length (kj_work k) < queue_max" "w_next_id (kj_w k) + 1 < TCP_CONNID_MAX" "w_next_id (kj_w k) < w_next_id (kj_w k) + 1"
    "TCP_CONNID_BASE < w_next_id (kj_w k) + 1"
  shows "kj_inv (k\<lparr>kj_trunk := tk, kj_w := kj_accepted sv (kj_w k), kj_work := kj_work k @ [CONFIRM_CLIENT_IS_READY (w_fresh (kj_w k)) st]\<rparr>)"
    (is "kj_inv ?k")
proof (rule kj_frame [OF assms(1), of ?k "w_fresh (kj_w k)"])
  let ?p = "w_fresh (kj_w k)"
  note base = kj_invD(1) [OF assms(1)] and refs = kj_invD(3) [OF assms(1)] and str = kj_invD(4) [OF assms(1)]
  have none: "w_conns (kj_w k) ?p = None" using base by (simp add: kj_base_def fresh_ok_def)
  then have empty: "cmds k ?p = []" "cbs k ?p = []" "?p \<notin> set (kj_later k)" using refs unfolding kj_refs_def by blast+
  have norec: "?p \<notin> set (w_recycler (kj_w k))" using kj_mgrD(5) [OF kj_invD(5) [OF assms(1)]] none by blast
  have sv: "0 < sv" using kj_streamsD(3) [OF str, of sv st] assms(2) by simp
  have st: "st < ?p" "st \<in> set (sv_streams x)" using kj_streamsD(4,5) [OF str, of sv st] assms(2-4) by auto
  show "kj_base ?k" using base assms(2,5-7) by (auto simp: kj_base_def fresh_ok_def id_ok_def)
  show "kj_mgr (kj_w ?k)"
    using kj_accepted_mgr [OF kj_invD(5) [OF assms(1)], of sv] base kj_invD(2) [OF assms(1)] assms(7)
    by (fastforce simp: kj_base_def kj_conn_def)
  have cmds': "cmds ?k q = (if q = ?p then cmds k q @ [CONFIRM_CLIENT_IS_READY ?p st] else cmds k q)" "cbs ?k q = cbs k q" for q
    using assms(2) by auto
  show "kj_refs ?k"
    unfolding kj_refs_def
  proof (intro conjI allI impI)
    fix q assume "cmds ?k q \<noteq> [] \<or> cbs ?k q \<noteq> [] \<or> q \<in> set (kj_later ?k)"
    then have "q = ?p \<or> cmds k q \<noteq> [] \<or> cbs k q \<noteq> [] \<or> q \<in> set (kj_later k)" using cmds' by (auto split: if_splits)
    then show "w_conns (kj_w ?k) q \<noteq> None" using refs unfolding kj_refs_def by auto
  next
    fix q i d assume q: "Client_packet q i \<in> set (kj_trunk ?k)" "w_conns (kj_w ?k) q = Some d"
    then have "Client_packet q i \<in> set (cbs k q)" using assms(2) by simp
    then have "q \<noteq> ?p" using empty(2) by (auto simp: filter_empty_conv)
    then show "cn_id d = i" using q refs assms(2) unfolding kj_refs_def by auto
  qed (use refs assms(2) in \<open>auto simp: kj_refs_def\<close>)
  have dist: "distinct (concat (map cmd_streams (kj_work k)) @ st # concat (map cb_streams tk))"
    using kj_streamsD(1) [OF str] assms(2) by simp
  show "kj_streams ?k"
    unfolding kj_streams_def
  proof (intro conjI allI impI)
    fix q st' d sv' assume q: "CONFIRM_CLIENT_IS_READY q st' \<in> set (kj_work ?k)" "w_conns (kj_w ?k) q = Some d" "cn_kind d = ClientOf sv'"
    show "\<exists>x. w_servers (kj_w ?k) sv' = Some x \<and> \<not> sv_closed x \<and> st' \<in> set (sv_streams x)"
    proof (cases "q = ?p")
      case True
      have "CONFIRM_CLIENT_IS_READY q st' \<notin> set (kj_work k)" using empty(1) True by (auto simp: filter_empty_conv)
      then show ?thesis using True q st assms(3,4) by auto
    next
      case False
      then show ?thesis using kj_streamsD(2) [OF str, of q st' d sv'] q by auto
    qed
  next
    show "distinct (concat (map cmd_streams (kj_work ?k)) @ concat (map cb_streams (kj_trunk ?k)))" using dist by auto
  next
    fix sv' st' assume "Accept_client sv' st' \<in> set (kj_trunk ?k)"
    then have a: "Accept_client sv' st' \<in> set (kj_trunk k)" using assms(2) by simp
    show "0 < sv'" "st' < w_fresh (kj_w ?k)"
      "\<exists>x. w_servers (kj_w ?k) sv' = Some x \<and> (sv_closed x \<or> st' \<in> set (sv_streams x))"
      using kj_streamsD(3-5) [OF str a] by auto
  next
    fix q st' assume "CONFIRM_CLIENT_IS_READY q st' \<in> set (kj_work ?k)"
    then show "st' < w_fresh (kj_w ?k)" using kj_streamsD(6) [OF str, of q st'] st(1) by auto
  next
    fix sv' st' assume "FLUSH_TCP_SERVER_DOWNSTREAM sv' st' \<in> set (kj_work ?k)"
    then show "\<exists>x. w_servers (kj_w ?k) sv' = Some x \<and> sv_closed x" using kj_streamsD(7) [OF str, of sv' st'] by auto
  qed (use kj_streamsD(8) [OF str] in auto)
  show "kj_conn ?k ?p d" if "w_conns (kj_w ?k) ?p = Some d" for d
    using that empty cmds' [of ?p] sv assms(3,8) norec unfolding kj_conn_def by auto
qed (use assms(2,7) in auto)

lemma kj_flush_inv:
  assumes "kj_inv k" "kj_trunk k = Accept_client sv st # tk" "w_servers (kj_w k) sv = Some x" "sv_closed x" "length (kj_work k) < queue_max"
  shows "kj_inv (k\<lparr>kj_trunk := tk, kj_work := kj_work k @ [FLUSH_TCP_SERVER_DOWNSTREAM sv st]\<rparr>)" (is "kj_inv ?k")
  unfolding kj_inv_def
proof (intro conjI allI impI)
  have queues: "cmds ?k p = cmds k p" "cbs ?k p = cbs k p" for p using assms(2) by simp_all
  note str = kj_invD(4) [OF assms(1)]
  show "kj_base ?k" using kj_invD(1) [OF assms(1)] assms(2,5) by (simp add: kj_base_def)
  show "kj_conn ?k p c" if "w_conns (kj_w ?k) p = Some c" for p c
    by (rule kj_conn_cong [OF kj_invD(2) [OF assms(1)]]) (use that queues in simp_all)
  show "kj_refs ?k" using kj_invD(3) [OF assms(1)] queues assms(2) unfolding kj_refs_def by simp
  show "kj_mgr (kj_w ?k)" using kj_invD(5) [OF assms(1)] by simp
  have "FLUSH_TCP_SERVER_DOWNSTREAM sv' st' \<in> set (kj_work ?k) \<Longrightarrow> \<exists>x. w_servers (kj_w k) sv' = Some x \<and> sv_closed x" for sv' st'
    using kj_streamsD(7) [OF str, of sv' st'] assms(3,4) by auto
  then show "kj_streams ?k"
    using kj_invD(4) [OF assms(1)] assms(2) unfolding kj_streams_def by auto
qed

lemma kj_accept_cb_ok:
  assumes "kj_inv k" "kj_trunk k = Accept_client sv st # tk" "length (kj_work k) < queue_max" "w_next_id (kj_w k) + 1 < TCP_CONNID_MAX"
  shows "\<exists>k'. run_trunk_cb (Accept_client sv st) (k\<lparr>kj_trunk := tk\<rparr>) = Some k' \<and> kj_inv k'"
proof -
  have sv: "0 < sv" using kj_streamsD(3) [OF kj_invD(4) [OF assms(1)], of sv st] assms(2) by simp
  obtain x where x: "w_servers (kj_w k) sv = Some x" using kj_streamsD(5) [OF kj_invD(4) [OF assms(1)], of sv st] assms(2) by auto
  note base = kj_invD(1) [OF assms(1), unfolded kj_base_def]
  have id: "TCP_CONNID_BASE \<le> w_next_id (kj_w k)" "w_next_id (kj_w k) < TCP_CONNID_MAX" using base by (simp_all add: id_ok_def)
  have id': "w_next_id (kj_w k) < w_next_id (kj_w k) + 1" "0 < w_next_id (kj_w k) + 1" "TCP_CONNID_BASE < w_next_id (kj_w k) + 1"
    using id unfolding TCP_CONNID_BASE_def TCP_CONNID_MAX_def by (unat_arith; simp)+
  show ?thesis
  proof (cases "sv_closed x")
    case True
    have "run_trunk_cb (Accept_client sv st) (k\<lparr>kj_trunk := tk\<rparr>) = Some (k\<lparr>kj_trunk := tk, kj_work := kj_work k @ [FLUSH_TCP_SERVER_DOWNSTREAM sv st]\<rparr>)"
      using x True base by (simp add: run_trunk_cb_def Commit_def)
    then show ?thesis using kj_flush_inv [OF assms(1,2) x True assms(3)] by blast
  next
    case False
    have "kj_base (k\<lparr>kj_trunk := tk\<rparr>)" using kj_invD(1) [OF assms(1)] assms(2) by (simp add: kj_base_def)
    then have "run_trunk_cb (Accept_client sv st) (k\<lparr>kj_trunk := tk\<rparr>) =
      Some (k\<lparr>kj_trunk := tk, kj_w := kj_accepted sv (kj_w k), kj_work := kj_work k @ [CONFIRM_CLIENT_IS_READY (w_fresh (kj_w k)) st]\<rparr>)"
      using x False sv assms(4) id'(2) by (simp add: run_trunk_cb_def kj_accept_eff)
    then show ?thesis using kj_accepted_inv [OF assms(1,2) x False assms(3,4) id'(1,3)] by blast
  qed
qed

lemma RunOnce_ok:
  assumes "kj_inv k" "length (kj_work k) < queue_max" "w_next_id (kj_w k) + 1 < TCP_CONNID_MAX"
  shows "\<exists>k'. RunOnce 1 k = Some k' \<and> kj_inv k'"
proof (cases "kj_trunk k")
  case (Cons cb tk)
  have "\<exists>k'. run_trunk_cb cb (k\<lparr>kj_trunk := tk\<rparr>) = Some k' \<and> kj_inv k'"
    using kj_accept_cb_ok [OF assms(1)] kj_disconnect_cb_ok [OF assms(1)] kj_packet_cb_ok [OF assms(1)] assms(2,3) Cons by (cases cb) auto
  then show ?thesis using Cons kj_invD(1) [OF assms(1)] by (auto simp: kj_base_def One_nat_def)
qed (use assms(1) in \<open>simp add: One_nat_def\<close>)

lemma streams_mem:
  "st \<in> set (cmd_streams cmd) \<longleftrightarrow> (\<exists>p. cmd = CONFIRM_CLIENT_IS_READY p st)" "st \<in> set (cb_streams cb) \<longleftrightarrow> (\<exists>sv. cb = Accept_client sv st)"
  by (cases cmd; auto) (cases cb; auto)

text \<open>Servers are made, or get a stream; the front end is told of the stream.\<close>

lemma kj_servers_inv:
  assumes "kj_inv k" "kj_base k'" "kj_work k' = kj_work k" "kj_later k' = kj_later k" "kj_trunk k' = kj_trunk k @ acc"
    and w: "w_conns (kj_w k') = w_conns (kj_w k)" "w_entries (kj_w k') = w_entries (kj_w k)" "w_recycler (kj_w k') = w_recycler (kj_w k)"
      "w_safe (kj_w k') = w_safe (kj_w k)" "w_next_id (kj_w k') = w_next_id (kj_w k)" "w_fresh (kj_w k) \<le> w_fresh (kj_w k')"
    and keep: "\<And>sv x. w_servers (kj_w k) sv = Some x \<Longrightarrow>
      \<exists>x'. w_servers (kj_w k') sv = Some x' \<and> sv_closed x' = sv_closed x \<and> set (sv_streams x) \<subseteq> set (sv_streams x')"
    and closed: "\<And>sv x. w_servers (kj_w k') sv = Some x \<Longrightarrow> sv_closed x \<Longrightarrow> sv_streams x = []"
    and acc: "acc = [] \<or> (\<exists>sv st x. acc = [Accept_client sv st] \<and> 0 < sv \<and> w_fresh (kj_w k) \<le> st \<and> st < w_fresh (kj_w k') \<and>
      w_servers (kj_w k') sv = Some x \<and> st \<in> set (sv_streams x))"
  shows "kj_inv k'"
proof (rule kj_frame [OF assms(1), of k' 0])
  note str = kj_invD(4) [OF assms(1)]
  have cbs: "cbs k' p = cbs k p" for p using acc assms(5) by auto
  show "kj_base k'" by (rule assms(2))
  show "kj_refs k'" using kj_invD(3) [OF assms(1)] acc unfolding kj_refs_def cbs by (auto simp: assms(3-5) w)
  show "kj_mgr (kj_w k')" using kj_invD(5) [OF assms(1)] entry_clients_cong [OF w(2)] by (simp add: kj_mgr_def w)
  have old: "st < w_fresh (kj_w k)" if "st \<in> set (concat (map cmd_streams (kj_work k)) @ concat (map cb_streams (kj_trunk k)))" for st
    using that kj_streamsD(4,6) [OF str] by (auto simp: streams_mem)
  show "kj_streams k'"
    unfolding kj_streams_def
  proof (intro conjI allI impI)
    fix q st d sv assume q: "CONFIRM_CLIENT_IS_READY q st \<in> set (kj_work k')" "w_conns (kj_w k') q = Some d" "cn_kind d = ClientOf sv"
    then obtain x where "w_servers (kj_w k) sv = Some x" "\<not> sv_closed x" "st \<in> set (sv_streams x)"
      using kj_streamsD(2) [OF str, of q st d sv] by (auto simp: w(1) assms(3))
    then show "\<exists>x. w_servers (kj_w k') sv = Some x \<and> \<not> sv_closed x \<and> st \<in> set (sv_streams x)" using keep by blast
  next
    fix sv st assume "Accept_client sv st \<in> set (kj_trunk k')"
    then consider "Accept_client sv st \<in> set (kj_trunk k)" | "acc = [Accept_client sv st]" using assms(5) acc by auto
    then have "0 < sv \<and> st < w_fresh (kj_w k') \<and> (\<exists>x. w_servers (kj_w k') sv = Some x \<and> (sv_closed x \<or> st \<in> set (sv_streams x)))"
    proof cases
      case 1
      note a = this
      obtain x where "w_servers (kj_w k) sv = Some x" "sv_closed x \<or> st \<in> set (sv_streams x)" using kj_streamsD(5) [OF str a] by blast
      then show ?thesis using keep [of sv x] kj_streamsD(3,4) [OF str a] w(6) by fastforce
    qed (use acc in auto)
    then show "0 < sv" "st < w_fresh (kj_w k')" "\<exists>x. w_servers (kj_w k') sv = Some x \<and> (sv_closed x \<or> st \<in> set (sv_streams x))" by auto
  next
    fix q st assume "CONFIRM_CLIENT_IS_READY q st \<in> set (kj_work k')"
    then show "st < w_fresh (kj_w k')" using kj_streamsD(6) [OF str, of q st] w(6) by (auto simp: assms(3))
  next
    fix sv st assume "FLUSH_TCP_SERVER_DOWNSTREAM sv st \<in> set (kj_work k')"
    then show "\<exists>x. w_servers (kj_w k') sv = Some x \<and> sv_closed x" using kj_streamsD(7) [OF str, of sv st] keep by (fastforce simp: assms(3))
  next
    show "distinct (concat (map cmd_streams (kj_work k')) @ concat (map cb_streams (kj_trunk k')))"
      using kj_streamsD(1) [OF str] acc old by (fastforce simp: assms(3,5))
  qed (rule closed)
  show "kj_conn k' 0 c" if "w_conns (kj_w k') 0 = Some c" for c
    using that assms(2) by (auto simp: kj_base_def fresh_ok_def)
qed (use w assms(3,4) acc assms(5) keep in fastforce)+

lemma kj_create_inv:
  assumes "kj_inv k"
  shows "kj_inv (k\<lparr>kj_w := snd (CreateTcpServer (kj_w k))\<rparr>)"
proof (rule kj_servers_inv [OF assms, of _ "[]"])
  have none: "w_servers (kj_w k) (w_fresh (kj_w k)) = None" using kj_invD(1) [OF assms] by (simp add: kj_base_def fresh_ok_def)
  show "kj_base (k\<lparr>kj_w := snd (CreateTcpServer (kj_w k))\<rparr>)"
    using kj_invD(1) [OF assms] by (auto simp: kj_base_def fresh_ok_def id_ok_def CreateTcpServer_def)
  show "\<exists>x'. w_servers (kj_w (k\<lparr>kj_w := snd (CreateTcpServer (kj_w k))\<rparr>)) sv = Some x' \<and> sv_closed x' = sv_closed x \<and> set (sv_streams x) \<subseteq> set (sv_streams x')"
    if "w_servers (kj_w k) sv = Some x" for sv x using that none by (auto simp: CreateTcpServer_def)
qed (use kj_streamsD(8) [OF kj_invD(4) [OF assms]] in \<open>auto simp: CreateTcpServer_def split: if_splits\<close>)

lemma kj_base_server:
  assumes "kj_base k" "w_servers (kj_w k) sv = Some x" "w_fresh (kj_w k) \<le> n"
  shows "kj_base (k\<lparr>kj_w := (kj_w k)\<lparr>w_fresh := n, w_servers := (w_servers (kj_w k))(sv \<mapsto> x')\<rparr>\<rparr>)"
  using assms fresh_bounds(4) [of "kj_w k" sv x] by (force simp: kj_base_def fresh_ok_def id_ok_def)

lemma kj_ready_ok:
  assumes "kj_inv k" "w_servers (kj_w k) sv = Some x"
  shows "\<exists>k'. kj_lift (upd_server sv (\<lambda>x. x\<lparr>sv_ready := b\<rparr>)) k = Some k' \<and> kj_inv k'"
proof -
  let ?k = "k\<lparr>kj_w := (kj_w k)\<lparr>w_servers := (w_servers (kj_w k))(sv \<mapsto> x\<lparr>sv_ready := b\<rparr>)\<rparr>\<rparr>"
  have "kj_inv ?k"
  proof (rule kj_servers_inv [OF assms(1), of _ "[]"])
    show "kj_base ?k" using kj_base_server [OF kj_invD(1) [OF assms(1)] assms(2), of "w_fresh (kj_w k)"] by simp
  qed (use assms(2) kj_streamsD(8) [OF kj_invD(4) [OF assms(1)]] in \<open>auto split: if_splits\<close>)
  then show ?thesis using assms(2) by (simp add: kj_lift_def upd_server_def)
qed

lemma kj_accept_ok:
  assumes "kj_inv k" "w_servers (kj_w k) sv = Some x" "length (kj_trunk k) < queue_max"
  shows "\<exists>k'. kj_accept sv k = Some k' \<and> kj_inv k'"
proof (cases "server_IsReady x")
  case True
  note base = kj_invD(1) [OF assms(1)]
  let ?st = "w_fresh (kj_w k)"
  let ?k = "k\<lparr>kj_w := (kj_w k)\<lparr>w_fresh := Suc ?st, w_servers := (w_servers (kj_w k))(sv \<mapsto> x\<lparr>sv_streams := List.insert ?st (sv_streams x)\<rparr>)\<rparr>,
    kj_trunk := kj_trunk k @ [Accept_client sv ?st]\<rparr>"
  have sv: "0 < sv" using fresh_bounds(4) [of "kj_w k" sv x] base assms(2) by (simp add: kj_base_def)
  have "kj_inv ?k"
  proof (rule kj_servers_inv [OF assms(1), of _ "[Accept_client sv ?st]"])
    show "kj_base ?k" using kj_base_server [OF base assms(2), of "Suc ?st"] assms(3) by (simp add: kj_base_def fresh_ok_def id_ok_def)
    show "\<exists>x'. w_servers (kj_w ?k) sv' = Some x' \<and> sv_closed x' = sv_closed y \<and> set (sv_streams y) \<subseteq> set (sv_streams x')"
      if "w_servers (kj_w k) sv' = Some y" for sv' y using that assms(2) by auto
  qed (use sv True kj_streamsD(8) [OF kj_invD(4) [OF assms(1)]] in \<open>auto simp: server_IsReady_def split: if_splits\<close>)
  moreover have "kj_accept sv k = Some ?k"
    using assms(2) True base by (simp add: kj_accept_def kj_lift_def AddStream_def upd_server_def trunk_Add_def kj_base_def Let_def)
  ultimately show ?thesis by blast
qed (use assms in \<open>simp add: kj_accept_def\<close>)

text \<open>Closing a server: the commands before it have run, so that every connection of the server has its stream.\<close>

lemma kj_walk_servers:
  "kj_dispose_walk sv m (k\<lparr>kj_w := (kj_w k)\<lparr>w_servers := S\<rparr>\<rparr>) = map_option (\<lambda>k'. k'\<lparr>kj_w := (kj_w k')\<lparr>w_servers := S\<rparr>\<rparr>) (kj_dispose_walk sv m k)"
proof (induction m arbitrary: k)
  case (Cons ip m)
  obtain i p where ip: "ip = (i, p)" by (cases ip)
  let ?S = "\<lambda>k. k\<lparr>kj_w := (kj_w k)\<lparr>w_servers := S\<rparr>\<rparr>"
  have upd: "kj_lift (upd_conn p f) (?S k) = map_option ?S (kj_lift (upd_conn p f) k)" for f k
    by (cases "w_conns (kj_w k) p") (simp_all add: kj_lift_def upd_conn_def)
  have dis: "kj_DisposeConnection p (?S k) = map_option ?S (kj_DisposeConnection p k)" for k
    by (cases "w_conns (kj_w k) p") (simp_all add: kj_DisposeConnection_def kj_FlushStream_def kj_lift_def upd_conn_def)
  have cb: "AddClientDisconnectCb_kj sv p (?S k) = map_option ?S (AddClientDisconnectCb_kj sv p k)" for k
    by (cases "w_conns (kj_w k) p") (simp_all add: AddClientDisconnectCb_kj_def upd kj_lift_def upd_conn_def trunk_Add_def)
  show ?case
  proof (cases "w_conns (kj_w k) p")
    case (Some c)
    show ?thesis
    proof (cases "kj_DisposeConnection p k")
      case None
      then show ?thesis using Some by (simp add: ip dis Cons.IH)
    next
      case (Some k1)
      then show ?thesis using \<open>w_conns (kj_w k) p = Some c\<close>
        by (cases "AddClientDisconnectCb_kj sv p k1") (simp_all add: ip dis cb Cons.IH)
    qed
  qed (simp add: ip)
qed simp

lemma kj_walk_ok:
  assumes "kj_inv k" "kj_work k = []" "kj_later k = []" "0 < sv" "length (kj_trunk k) + length m \<le> queue_max"
    "\<And>i p. (i, p) \<in> set m \<Longrightarrow> w_conns (kj_w k) p \<noteq> None"
  shows "\<exists>k'. kj_dispose_walk sv m k = Some k' \<and> kj_inv k' \<and> kj_work k' = [] \<and> kj_later k' = [] \<and> w_servers (kj_w k') = w_servers (kj_w k)"
  using assms
proof (induction m arbitrary: k)
  case (Cons ip m)
  obtain i p where ip: "ip = (i, p)" by (cases ip)
  then obtain c where c: "w_conns (kj_w k) p = Some c" using Cons.prems(6) [of i p] by auto
  have conn: "kj_conn k p c" by (rule kj_invD(2) [OF Cons.prems(1) c])
  then have str: "cn_clnt c \<noteq> None \<or> cn_disposed c" using Cons.prems(2) by (auto simp: kj_conn_def)
  let ?k = "kj_put p (kj_disposed c) [] (kj_work k) (kj_trunk k @ [Client_disconnect sv p]) (kj_later k) k"
  have "kj_OnDisposeClient sv p k = Some ?k"
    by (rule kj_OnDisposeClient_eff [OF c str]) (use kj_invD(1) [OF Cons.prems(1)] conn in \<open>auto simp: kj_base_def kj_conn_def\<close>)
  then have eff: "kj_dispose_walk sv (ip # m) k = (if cn_id c = i then kj_dispose_walk sv m ?k else kj_dispose_walk sv m k)"
    using c by (auto simp: ip kj_OnDisposeClient_def bind_eq_Some_conv)
  have "kj_inv ?k"
    by (rule kj_dispose_back_inv [OF Cons.prems(1) c str Cons.prems(4)]) (use Cons.prems(3,5) in simp_all)
  then have "\<exists>k'. kj_dispose_walk sv m ?k = Some k' \<and> kj_inv k' \<and> kj_work k' = [] \<and> kj_later k' = [] \<and> w_servers (kj_w k') = w_servers (kj_w k)"
    using Cons.IH [of ?k] Cons.prems(2-5) Cons.prems(6) [OF list.set_intros(2)] by simp
  moreover have "\<exists>k'. kj_dispose_walk sv m k = Some k' \<and> kj_inv k' \<and> kj_work k' = [] \<and> kj_later k' = [] \<and> w_servers (kj_w k') = w_servers (kj_w k)"
    using Cons.IH [of k] Cons.prems by auto
  ultimately show ?case using eff by simp
qed simp

lemma kj_closed_inv:
  assumes "kj_inv k" "kj_work k = []" "w_servers (kj_w k) sv = Some x"
  shows "kj_inv (k\<lparr>kj_w := (kj_w k)\<lparr>w_servers := (w_servers (kj_w k))(sv \<mapsto> x\<lparr>sv_streams := [], sv_closed := True\<rparr>)\<rparr>\<rparr>)" (is "kj_inv ?k")
proof (rule kj_frame [OF assms(1), of ?k 0])
  note str = kj_invD(4) [OF assms(1)]
  show "kj_base ?k" using kj_base_server [OF kj_invD(1) [OF assms(1)] assms(3), of "w_fresh (kj_w k)"] by simp
  show "kj_refs ?k" using kj_invD(3) [OF assms(1)] by (simp add: kj_refs_def)
  show "kj_mgr (kj_w ?k)" using kj_invD(5) [OF assms(1)] by (simp add: kj_mgr_def)
  have "\<exists>y. w_servers (kj_w ?k) sv' = Some y \<and> (sv_closed y \<or> st \<in> set (sv_streams y))" if a: "Accept_client sv' st \<in> set (kj_trunk k)" for sv' st
    using kj_streamsD(5) [OF str a] by auto
  then show "kj_streams ?k" using kj_streamsD(1,3,4,8) [OF str] assms(2) unfolding kj_streams_def by auto
  show "kj_conn ?k 0 c" if "w_conns (kj_w ?k) 0 = Some c" for c
    using that kj_invD(1) [OF assms(1)] by (auto simp: kj_base_def fresh_ok_def)
qed auto

lemma kj_Close_ok:
  assumes "kj_inv k" "kj_work k = []" "kj_later k = []" "w_servers (kj_w k) sv = Some x"
    "length (kj_trunk k) + length (entry_clients sv (kj_w k)) \<le> queue_max"
  shows "\<exists>k'. kj_Close sv k = Some k' \<and> kj_inv k'"
proof (cases "sv_closed x")
  case False
  let ?m = "entry_clients sv (kj_w k)"
  have sv: "0 < sv" using fresh_bounds(4) [of "kj_w k" sv x] kj_invD(1) [OF assms(1)] assms(4) by (simp add: kj_base_def)
  obtain k2 where k2: "kj_dispose_walk sv ?m k = Some k2" "kj_inv k2" "kj_work k2 = []" "w_servers (kj_w k2) = w_servers (kj_w k)"
    using kj_walk_ok [OF assms(1-3) sv assms(5)] kj_mgrD(3) [OF kj_invD(5) [OF assms(1)]] by blast
  let ?S = "(w_servers (kj_w k))(sv \<mapsto> x\<lparr>sv_streams := []\<rparr>)"
  let ?k1 = "k\<lparr>kj_w := (kj_w k)\<lparr>w_servers := ?S\<rparr>\<rparr>"
  have "(case map_of (w_entries (kj_w ?k1)) sv of None \<Rightarrow> Some ?k1 | Some m \<Rightarrow> kj_dispose_walk sv m ?k1) = kj_dispose_walk sv ?m ?k1"
    by (simp add: entry_clients_def split: option.splits)
  also have "\<dots> = Some (k2\<lparr>kj_w := (kj_w k2)\<lparr>w_servers := ?S\<rparr>\<rparr>)" by (simp add: kj_walk_servers k2(1))
  finally have "kj_Close sv k = Some (k2\<lparr>kj_w := (kj_w k2)\<lparr>w_servers := (w_servers (kj_w k2))(sv \<mapsto> x\<lparr>sv_streams := [], sv_closed := True\<rparr>)\<rparr>\<rparr>)"
    using assms(4) False k2(4) by (simp add: kj_Close_def kj_lift_def upd_server_def)
  then show ?thesis using kj_closed_inv [OF k2(2,3)] k2(4) assms(4) by auto
qed (use assms in \<open>simp add: kj_Close_def\<close>)

text \<open>The back end runs the commands before a blocking one.\<close>

lemma run_cmd_append:
  assumes "run_cmd cmd k = Some k'" "\<And>sv. cmd \<noteq> CLOSE_TCP_SERVER sv"
  shows "run_cmd cmd (k\<lparr>kj_work := ws\<rparr>) = Some (k'\<lparr>kj_work := ws\<rparr>)"
  using assms
  by (cases cmd; auto simp: run_cmd_def kj_PostPacket_def kj_SendRaw_def kj_lift_def kj_DisposeConnection_def kj_FlushStream_def upd_conn_def upd_server_def
      RemoveStream_def ConfirmClientIsReady_def split: if_splits option.splits conn_kind.splits bind_splits)

lemma run_cmd_servers:
  assumes "run_cmd cmd k = Some k'" "\<And>sv. cmd \<noteq> CLOSE_TCP_SERVER sv" "w_servers (kj_w k) sv \<noteq> None"
  shows "w_servers (kj_w k') sv \<noteq> None"
  using assms
  by (cases cmd; auto simp: run_cmd_def kj_PostPacket_def kj_SendRaw_def kj_lift_def kj_DisposeConnection_def kj_FlushStream_def upd_conn_def upd_server_def
      RemoveStream_def ConfirmClientIsReady_def split: if_splits option.splits conn_kind.splits bind_splits)

lemma work_steps_drain:
  assumes "kj_inv k" "kj_later k = []"
  shows "\<exists>k'. work_steps (length (kj_work k)) (k\<lparr>kj_work := kj_work k @ ws\<rparr>) = Some (k'\<lparr>kj_work := ws\<rparr>) \<and> kj_inv k' \<and> kj_work k' = [] \<and>
    kj_later k' = [] \<and> kj_trunk k' = kj_trunk k \<and> w_entries (kj_w k') = w_entries (kj_w k) \<and>
    (\<forall>sv. w_servers (kj_w k) sv \<noteq> None \<longrightarrow> w_servers (kj_w k') sv \<noteq> None)"
  using assms
proof (induction "kj_work k" arbitrary: k)
  case Nil
  then show ?case by (intro exI [of _ k]) auto
next
  case (Cons cmd wk)
  have cmd: "\<And>sv. cmd \<noteq> CLOSE_TCP_SERVER sv" using kj_invD(3) [OF Cons.prems(1)] Cons.hyps(2) unfolding kj_refs_def by (metis list.set_intros(1))
  obtain k1 where k1: "run_cmd cmd (k\<lparr>kj_work := wk\<rparr>) = Some k1" "kj_inv k1"
    using work_step_ok [OF Cons.prems] Cons.hyps(2) by (auto simp: work_step_def split: list.splits)
  note same = run_cmd_others [OF k1(1) cmd]
  obtain k' where k': "work_steps (length wk) (k1\<lparr>kj_work := wk @ ws\<rparr>) = Some (k'\<lparr>kj_work := ws\<rparr>)" "kj_inv k'" "kj_work k' = []"
    "kj_later k' = []" "kj_trunk k' = kj_trunk k1" "w_entries (kj_w k') = w_entries (kj_w k1)"
    "\<And>sv. w_servers (kj_w k1) sv \<noteq> None \<Longrightarrow> w_servers (kj_w k') sv \<noteq> None"
    using Cons.hyps(1) [of k1] k1(2) same Cons.prems(2) by auto
  have "run_cmd cmd (k\<lparr>kj_work := wk @ ws\<rparr>) = Some (k1\<lparr>kj_work := wk @ ws\<rparr>)"
    using run_cmd_append [OF k1(1) cmd, of "wk @ ws"] by simp
  then have "work_steps (length (kj_work k)) (k\<lparr>kj_work := kj_work k @ ws\<rparr>) = Some (k'\<lparr>kj_work := ws\<rparr>)"
    using k'(1) Cons.hyps(2) [symmetric] by (simp add: work_step_def)
  then show ?case
    using k' same run_cmd_servers [OF k1(1) cmd] by (intro exI [of _ k']) auto
qed

lemma work_steps_snoc: "work_steps (Suc n) k = work_steps n k \<bind> work_step"
proof (induction n arbitrary: k)
  case (Suc n)
  have "work_steps (Suc (Suc n)) k = work_step k \<bind> work_steps (Suc n)" by (simp only: work_steps.simps(2))
  also have "\<dots> = work_step k \<bind> (\<lambda>k1. work_steps n k1 \<bind> work_step)" by (intro arg_cong2 [where f = Option.bind] refl ext Suc.IH)
  also have "\<dots> = work_steps (Suc n) k \<bind> work_step" by simp
  finally show ?case .
next
  case 0
  show ?case by (cases "work_step k") simp_all
qed

lemma wq_CloseTcpServer_ok:
  assumes "kj_inv k" "kj_can k (KClose sv)"
  shows "\<exists>k'. wq_CloseTcpServer sv k = Some k' \<and> kj_inv k'"
proof -
  obtain k1 where k1: "work_steps (length (kj_work k)) (k\<lparr>kj_work := kj_work k @ [CLOSE_TCP_SERVER sv]\<rparr>) = Some (k1\<lparr>kj_work := [CLOSE_TCP_SERVER sv]\<rparr>)"
    "kj_inv k1" "kj_work k1 = []" "kj_later k1 = []" "kj_trunk k1 = kj_trunk k" "w_entries (kj_w k1) = w_entries (kj_w k)"
    "w_servers (kj_w k1) sv \<noteq> None"
    using work_steps_drain [OF assms(1), of "[CLOSE_TCP_SERVER sv]"] assms(2) by auto
  obtain x where x: "w_servers (kj_w k1) sv = Some x" using k1(7) by auto
  have "kj_done k = False" using kj_invD(1) [OF assms(1)] by (simp add: kj_base_def)
  then have "wq_CloseTcpServer sv k = work_step (k1\<lparr>kj_work := [CLOSE_TCP_SERVER sv]\<rparr>)"
    using k1(1) by (simp add: wq_CloseTcpServer_def BlockingCommit_def Commit_def work_steps_snoc del: work_steps.simps(2))
  also have "\<dots> = kj_Close sv (k1\<lparr>kj_work := []\<rparr>)" by (simp add: work_step_def run_cmd_def)
  also have "k1\<lparr>kj_work := []\<rparr> = k1" using k1(3) by simp
  finally show ?thesis
    using kj_Close_ok [OF k1(2-4) x] assms(2) k1(5) entry_clients_cong [OF k1(6)] by simp
qed

text \<open>The recycler: clean counters say that no entry of a queue refers to the connection.\<close>

lemma of_nat_word_0:
  assumes "n \<le> queue_max" "(of_nat n :: 32 word) = 0"
  shows "n = 0"
proof -
  have "n < 2 ^ 32" using assms(1) by (simp add: queue_max_def)
  then have "unat (of_nat n :: 32 word) = n" by (simp add: unat_of_nat)
  then show ?thesis using assms(2) by simp
qed

lemma safe_no_refs:
  assumes "kj_inv k" "w_conns (kj_w k) p = Some c" "safe_to_release c"
  shows "cmds k p = []" "cbs k p = []" "p \<notin> set (kj_later k)" "cn_clnt c = None"
proof -
  note conn = kj_invD(2) [OF assms(1,2), unfolded kj_conn_def] and base = kj_invD(1) [OF assms(1), unfolded kj_base_def]
  have "length (cmds k p) \<le> queue_max" "length (cbs k p) \<le> queue_max" using base length_filter_le le_trans by blast+
  moreover have "(of_nat (length (cmds k p)) :: 32 word) = 0" "(of_nat (length (cbs k p)) :: 32 word) = 0"
    using conn assms(3) by (auto simp: safe_to_release_def IsFrontEndClean_def IsBackEndClean_def)
  ultimately have "length (cmds k p) = 0" "length (cbs k p) = 0" using of_nat_word_0 by blast+
  then show "cmds k p = []" "cbs k p = []" by simp_all
  show "p \<notin> set (kj_later k)" "cn_clnt c = None" using conn assms(3) by (auto simp: safe_to_release_def)
qed

definition safe_conns :: "world \<Rightarrow> nat set" where
  "safe_conns w = {p \<in> set (w_recycler w). \<exists>c. w_conns w p = Some c \<and> safe_to_release c}"

lemma recycler_pop_split:
  assumes "\<And>p. p \<in> set ps \<Longrightarrow> w_conns w p \<noteq> None"
  shows "recycler_pop ps w = Some (filter (\<lambda>p. \<not> safe_to_release (the (w_conns w p))) ps, filter (\<lambda>p. safe_to_release (the (w_conns w p))) ps)"
  using assms by (induction ps) force+

lemma delete_conns_streamless:
  assumes "distinct ps" "\<And>p. p \<in> set ps \<Longrightarrow> \<exists>c. w_conns w p = Some c \<and> cn_clnt c = None"
  shows "delete_conns ps w = Some (w\<lparr>w_conns := w_conns w |` (- set ps), w_deleted := w_deleted w @ ps\<rparr>)"
  using assms
proof (induction ps arbitrary: w)
  case (Cons p ps)
  obtain c where c: "w_conns w p = Some c" "cn_clnt c = None" using Cons.prems(2) by auto
  let ?w = "w\<lparr>w_conns := (w_conns w)(p := None), w_deleted := w_deleted w @ [p]\<rparr>"
  have "delete_conns ps ?w = Some (?w\<lparr>w_conns := w_conns ?w |` (- set ps), w_deleted := w_deleted ?w @ ps\<rparr>)"
    by (rule Cons.IH) (use Cons.prems in \<open>auto simp: distinct_def\<close>)
  moreover have "(w_conns w)(p := None) |` (- set ps) = w_conns w |` (- set (p # ps))" by (auto simp: restrict_map_def)
  ultimately show ?case using c by (simp add: delete_conn_def)
qed (simp add: restrict_map_def)

lemma kj_Recycle_eff:
  assumes "kj_inv k"
  defines "w \<equiv> kj_w k"
  defines "keep \<equiv> filter (\<lambda>p. \<not> safe_to_release (the (w_conns w p))) (w_recycler w)"
    and "safe \<equiv> filter (\<lambda>p. safe_to_release (the (w_conns w p))) (w_recycler w)"
  shows "kj_Recycle k = Some (keep \<noteq> [],
    k\<lparr>kj_w := w\<lparr>w_recycler := keep, w_conns := w_conns w |` (- set safe), w_deleted := w_deleted w @ safe\<rparr>\<rparr>)"
proof -
  note m = kj_mgrD [OF kj_invD(5) [OF assms(1)], folded w_def]
  have pop: "RecyclerPop w = Some (w\<lparr>w_recycler := keep, w_safe := safe\<rparr>)"
    using recycler_pop_split [of "w_recycler w" w] m(5,6) by (simp add: RecyclerPop_def keep_def safe_def)
  have "delete_conns safe (w\<lparr>w_recycler := keep, w_safe := safe\<rparr>) =
    Some (w\<lparr>w_recycler := keep, w_safe := safe, w_conns := w_conns w |` (- set safe), w_deleted := w_deleted w @ safe\<rparr>)"
  proof (subst delete_conns_streamless)
    show "distinct safe" using m(4) by (simp add: safe_def)
    show "\<exists>c. w_conns (w\<lparr>w_recycler := keep, w_safe := safe\<rparr>) p = Some c \<and> cn_clnt c = None" if "p \<in> set safe" for p
      using that m(5) [of p] safe_no_refs(4) [OF assms(1), of p] by (auto simp: safe_def w_def)
  qed simp
  then show ?thesis using pop m(6) by (auto simp: kj_Recycle_def Recycle_def SafeRelease_def w_def intro!: world.equality kj_world.equality)
qed

lemma kj_Recycle_inv:
  assumes "kj_inv k"
  shows "\<exists>b k'. kj_Recycle k = Some (b, k') \<and> kj_inv k'"
proof -
  let ?w = "kj_w k"
  let ?keep = "filter (\<lambda>p. \<not> safe_to_release (the (w_conns ?w p))) (w_recycler ?w)"
  let ?safe = "filter (\<lambda>p. safe_to_release (the (w_conns ?w p))) (w_recycler ?w)"
  let ?k = "k\<lparr>kj_w := ?w\<lparr>w_recycler := ?keep, w_conns := w_conns ?w |` (- set ?safe), w_deleted := w_deleted ?w @ ?safe\<rparr>\<rparr>"
  note m = kj_mgrD [OF kj_invD(5) [OF assms]]
  have conns: "w_conns (kj_w ?k) p = Some c \<longleftrightarrow> w_conns ?w p = Some c \<and> p \<notin> set ?safe" for p c
    by (auto simp: restrict_map_def)
  have free: "cmds k p = [] \<and> cbs k p = [] \<and> p \<notin> set (kj_later k)" if "p \<in> set ?safe" for p
    using that m(5) [of p] safe_no_refs [OF assms, of p] by auto
  have "kj_conn ?k p c" if "w_conns (kj_w ?k) p = Some c" for p c
    by (rule kj_conn_cong [OF kj_invD(2) [OF assms]]) (use that conns in auto)
  moreover have "p < w_fresh ?w" if "p \<in> set (w_recycler ?w)" for p
    using m(5) [OF that] fresh_bounds(1) [of ?w p] kj_invD(1) [OF assms] by (auto simp: kj_base_def)
  then have "kj_base ?k"
    using kj_invD(1) [OF assms] by (auto simp: kj_base_def fresh_ok_def id_ok_def restrict_map_def)
  moreover have "kj_refs ?k"
    using kj_invD(3) [OF assms] free conns unfolding kj_refs_def by (auto simp: restrict_map_def)
  moreover have "kj_streams ?k"
    using kj_invD(4) [OF assms] unfolding kj_streams_def by (auto simp: restrict_map_def split: if_splits)
  moreover have "kj_mgr (kj_w ?k)"
  proof (rule kj_mgrI)
    show "(i, p) \<in> set (entry_clients sv (kj_w ?k)) \<longleftrightarrow>
      (\<exists>c. w_conns (kj_w ?k) p = Some c \<and> cn_id c = i \<and> cn_kind c = ClientOf sv \<and> p \<notin> set (w_recycler (kj_w ?k)))" for sv i p
      using m(3) [of i p sv] entry_clients_cong [of "kj_w ?k" ?w sv] by (auto simp: restrict_map_def)
    show "w_conns (kj_w ?k) p \<noteq> None" if "p \<in> set (w_recycler (kj_w ?k))" for p
      using that m(5) [of p] by (auto simp: restrict_map_def)
    show "p = q" if "w_conns (kj_w ?k) p = Some c" "w_conns (kj_w ?k) q = Some d" "cn_id c = cn_id d" for p q c d
      using that m(7) unfolding conns by blast
    show "distinct (map fst ms)" if "(sv, ms) \<in> set (w_entries (kj_w ?k))" for sv ms using that m(2) by simp
  qed (use m(1,4,6) in simp_all)
  ultimately have "kj_inv ?k" unfolding kj_inv_def by blast
  then show ?thesis using kj_Recycle_eff [OF assms] by blast
qed

lemma kj_new_inv: "kj_inv kj_new"
  by (simp add: kj_inv_def kj_base_def kj_refs_def kj_streams_def kj_mgr_def kj_new_def new_world_def fresh_ok_def id_ok_def
      TCP_CONNID_BASE_def TCP_CONNID_MAX_def entry_clients_def)

lemma registered_entry:
  assumes "kj_inv k" "registered (kj_w k) p" "w_conns (kj_w k) p = Some c" "cn_kind c = ClientOf sv"
  shows "map_of (entry_clients sv (kj_w k)) (cn_id c) = Some p"
proof -
  obtain sv' m i where m: "(sv', m) \<in> set (w_entries (kj_w k))" "(i, p) \<in> set m" using assms(2) by (auto simp: registered_def)
  note mgr = kj_mgrD [OF kj_invD(5) [OF assms(1)]]
  have "entry_clients sv' (kj_w k) = m" using m(1) mgr(1) by (simp add: entry_clients_def)
  then have "(cn_id c, p) \<in> set (entry_clients sv (kj_w k))" using mgr(3) [of i p sv'] mgr(3) [of "cn_id c" p sv] m(2) assms(3,4) by auto
  then show ?thesis using kj_entry_distinct [OF kj_invD(5) [OF assms(1)]] by simp
qed

lemma registered_conn:
  assumes "kj_inv k" "registered (kj_w k) p"
  shows "\<exists>c. w_conns (kj_w k) p = Some c"
proof -
  obtain sv m i where m: "(sv, m) \<in> set (w_entries (kj_w k))" "(i, p) \<in> set m" using assms(2) by (auto simp: registered_def)
  note mgr = kj_mgrD [OF kj_invD(5) [OF assms(1)]]
  have "entry_clients sv (kj_w k) = m" using m(1) mgr(1) by (simp add: entry_clients_def)
  then show ?thesis using mgr(3) [of i p sv] m(2) by blast
qed

lemma kj_do_ok:
  assumes "kj_inv k" "kj_can k op"
  shows "\<exists>k'. kj_do op k = Some k' \<and> kj_inv k'"
proof (cases op)
  case (KSend p)
  then obtain c where c: "w_conns (kj_w k) p = Some c" using registered_conn [OF assms(1)] assms(2) by auto
  then show ?thesis
    using KSend assms wq_request_eff [OF assms(1) c] kj_request_inv [OF assms(1) c] by (simp add: wq_PostPacket_def)
next
  case (KDisconnect p)
  then show ?thesis using registered_conn [OF assms(1), of p] assms kj_Disconnect_ok by auto
next
  case KRecycle
  then show ?thesis using kj_Recycle_inv [OF assms(1)] by auto
qed (use assms kj_create_inv kj_ready_ok kj_accept_ok RunOnce_ok work_step_ok kj_OnRawData_ok kj_taskFailed_inv later_step_ok
    wq_CloseTcpServer_ok in auto)

interpretation factory: step_system kj_can kj_do kj_new kj_inv
  by unfold_locales (simp_all add: kj_new_inv kj_do_ok)

end
