(* ===== verification/KjProps.thy ===== *)
theory KjProps
  imports KjSteps
begin

text \<open>
  The properties of the kj factory: its steps are safe in every order, what is removed is deleted once the queues are
  empty, and the function that \<open>taskFailed\<close> schedules escapes the counting.
\<close>

section \<open>Draining the queues\<close>

definition kj_grows :: "nat \<Rightarrow> kj_world \<Rightarrow> kj_world \<Rightarrow> bool" where
  "kj_grows n k k' \<longleftrightarrow> kj_trunk k' = kj_trunk k \<and> kj_later k' = kj_later k \<and> length (kj_work k') \<le> length (kj_work k) + n \<and>
     set (w_recycler (kj_w k)) \<subseteq> set (w_recycler (kj_w k')) \<and> unat (w_next_id (kj_w k')) \<le> unat (w_next_id (kj_w k)) + n"

lemma kj_grows_trans: "kj_grows n k k' \<Longrightarrow> kj_grows m k' k'' \<Longrightarrow> kj_grows (m + n) k k''"
  unfolding kj_grows_def by auto

lemma kj_lift_grows:
  "kj_lift (upd_conn p f) k = Some k' \<Longrightarrow> kj_grows 0 k k'" "kj_lift (OnDisconnect p) k = Some k' \<Longrightarrow> kj_grows 0 k k'"
  "kj_lift (OnConnect p) k = Some k' \<Longrightarrow> kj_grows 0 k k'"
  by (auto simp: kj_grows_def kj_lift_def upd_conn_def OnDisconnect_def OnConnect_def log_event_def bind_eq_Some_conv split: if_splits)

lemma wq_request_grows:
  assumes "wq_request p cmd k = Some k'"
  shows "kj_trunk k' = kj_trunk k" "kj_later k' = kj_later k" "length (kj_work k') \<le> Suc (length (kj_work k))"
    "w_recycler (kj_w k') = w_recycler (kj_w k)" "w_next_id (kj_w k') = w_next_id (kj_w k)"
  using assms by (auto simp: wq_request_def kj_lift_def upd_conn_def Commit_def)

lemma kj_OnRemoveClient_grows:
  assumes "kj_OnRemoveClient sv p k = Some k'"
  shows "kj_grows 1 k k'"
proof -
  obtain c where c: "w_conns (kj_w k) p = Some c" using assms by (auto simp: kj_OnRemoveClient_def bind_eq_Some_conv)
  show ?thesis
  proof (cases "map_of (entry_clients sv (kj_w k)) (cn_id c)")
    case (Some q)
    then obtain k1 where k1: "wq_request p (DISPOSE_CONNECTION p) k = Some k1" and k': "kj_trunk k' = kj_trunk k1" "kj_later k' = kj_later k1"
      "kj_work k' = kj_work k1" "w_recycler (kj_w k') = w_recycler (kj_w k1) @ [p]" "w_next_id (kj_w k') = w_next_id (kj_w k1)"
      using assms c
      by (auto simp: kj_OnRemoveClient_def wq_DisposeConnection_def RecyclerPush_def set_clients_def Let_def bind_eq_Some_conv split: if_splits)
    then show ?thesis using wq_request_grows [OF k1] by (auto simp: kj_grows_def)
  qed (use assms c in \<open>auto simp: kj_OnRemoveClient_def kj_grows_def split: if_splits\<close>)
qed

lemma kj_OnAcceptClient_grows:
  assumes "kj_OnAcceptClient sv st k = Some k'" "w_next_id (kj_w k) + 1 < TCP_CONNID_MAX"
  shows "kj_grows 1 k k'"
proof -
  obtain p w1 k2 where w1: "CreateTcpClientOnServer sv (kj_w k) = Some (p, w1)" and k2: "wq_request p (CONFIRM_CLIENT_IS_READY p st) (k\<lparr>kj_w := w1\<rparr>) = Some k2"
    and k': "kj_lift (OnConnect p) k2 = Some k'"
    using assms(1) by (auto simp: kj_OnAcceptClient_def wq_ConfirmClientIsReady_def bind_eq_Some_conv)
  have "w_recycler w1 = w_recycler (kj_w k)" "w_next_id w1 = w_next_id (kj_w k) + 1"
    using w1 assms(2)
    by (auto simp: CreateTcpClientOnServer_def GetNextConnectionId_def alloc_conn_def OnAddClient_def set_clients_def Let_def split: if_splits)
  moreover have "unat (w_next_id (kj_w k) + 1) \<le> unat (w_next_id (kj_w k)) + 1" by unat_arith
  ultimately have "kj_grows 1 k k2" using wq_request_grows [OF k2] by (auto simp: kj_grows_def)
  then show ?thesis using kj_grows_trans [OF _ kj_lift_grows(3) [OF k']] by fastforce
qed

lemma run_trunk_cb_grows:
  assumes "run_trunk_cb cb k = Some k'" "w_next_id (kj_w k) + 1 < TCP_CONNID_MAX"
  shows "kj_grows 1 k k'"
proof (cases cb)
  case (Accept_client sv st)
  then consider "kj_OnAcceptClient sv st k = Some k'" | "k' = Commit (FLUSH_TCP_SERVER_DOWNSTREAM sv st) k"
    using assms(1) by (auto simp: run_trunk_cb_def bind_eq_Some_conv split: if_splits)
  then show ?thesis
    by cases (auto simp: Commit_def kj_grows_def dest: kj_OnAcceptClient_grows [OF _ assms(2), unfolded kj_grows_def])
next
  case (Client_disconnect sv p)
  then obtain k1 k2 where "kj_lift (upd_conn p IncrFrontEndConsumeNum) k = Some k1" "kj_lift (OnDisconnect p) k1 = Some k2" "kj_OnRemoveClient sv p k2 = Some k'"
    using assms by (auto simp: run_trunk_cb_def bind_eq_Some_conv)
  from kj_lift_grows(1) [OF this(1)] kj_lift_grows(2) [OF this(2)] kj_OnRemoveClient_grows [OF this(3)]
  show ?thesis by (auto simp: kj_grows_def)
next
  case (Client_packet p i)
  then show ?thesis using assms kj_lift_grows(1) by (fastforce simp: run_trunk_cb_def kj_grows_def bind_eq_Some_conv split: if_splits)
qed

lemma run_cmd_recycler:
  assumes "run_cmd cmd k = Some k'" "\<And>sv. cmd \<noteq> CLOSE_TCP_SERVER sv"
  shows "w_recycler (kj_w k') = w_recycler (kj_w k)"
  using assms
  by (cases cmd; auto simp: run_cmd_def kj_PostPacket_def kj_SendRaw_def kj_lift_def kj_DisposeConnection_def kj_FlushStream_def upd_conn_def upd_server_def
      RemoveStream_def ConfirmClientIsReady_def bind_eq_Some_conv split: if_splits option.splits conn_kind.splits)

lemma work_steps_recycler:
  assumes "kj_inv k" "kj_later k = []" "work_steps n k = Some k'"
  shows "w_recycler (kj_w k') = w_recycler (kj_w k)"
  using assms
proof (induction n arbitrary: k)
  case (Suc n)
  obtain k1 where k1: "work_step k = Some k1" "kj_inv k1" using work_step_ok [OF Suc.prems(1,2)] by blast
  have "kj_later k1 = [] \<and> w_recycler (kj_w k1) = w_recycler (kj_w k)"
  proof (cases "kj_work k")
    case (Cons cmd wk)
    have "\<And>sv. cmd \<noteq> CLOSE_TCP_SERVER sv" using kj_invD(3) [OF Suc.prems(1)] Cons unfolding kj_refs_def by (metis list.set_intros(1))
    then show ?thesis
      using run_cmd_others(3) [of cmd _ k1] run_cmd_recycler [of cmd _ k1] k1(1) Cons Suc.prems(2) by (fastforce simp: work_step_def)
  qed (use k1 Suc.prems in \<open>simp add: work_step_def\<close>)
  then show ?case using Suc.IH [of k1] Suc.prems(3) k1 by simp
qed simp

lemma RunOnce_Suc: "RunOnce (Suc n) k = RunOnce 1 k \<bind> RunOnce n"
  by (cases n) (auto simp: One_nat_def split: list.splits bind_splits)

lemma trunk_drain:
  assumes "kj_inv k" "kj_later k = []" "length (kj_work k) + length (kj_trunk k) \<le> queue_max"
    "unat (w_next_id (kj_w k)) + length (kj_trunk k) < unat TCP_CONNID_MAX"
  shows "\<exists>k'. RunOnce (length (kj_trunk k)) k = Some k' \<and> kj_inv k' \<and> kj_trunk k' = [] \<and> kj_later k' = [] \<and>
    set (w_recycler (kj_w k)) \<subseteq> set (w_recycler (kj_w k'))"
  using assms
proof (induction "length (kj_trunk k)" arbitrary: k)
  case (Suc n)
  then obtain cb tk where tk: "kj_trunk k = cb # tk" by (cases "kj_trunk k") auto
  have id: "w_next_id (kj_w k) + 1 < TCP_CONNID_MAX" "unat (w_next_id (kj_w k) + 1) = Suc (unat (w_next_id (kj_w k)))"
    using Suc.prems(4) Suc.hyps(2) by (unat_arith; simp add: TCP_CONNID_MAX_def)+
  obtain k1 where k1: "RunOnce 1 k = Some k1" "kj_inv k1" using RunOnce_ok [OF Suc.prems(1) _ id(1)] Suc.prems(3) Suc.hyps(2) by auto
  then have r: "run_trunk_cb cb (k\<lparr>kj_trunk := tk\<rparr>) = Some k1"
    using tk kj_invD(1) [OF Suc.prems(1)] by (auto simp: One_nat_def kj_base_def split: bind_splits)
  have g: "kj_grows 1 (k\<lparr>kj_trunk := tk\<rparr>) k1" by (rule run_trunk_cb_grows [OF r]) (use id in simp)
  then have g': "kj_trunk k1 = tk" "kj_later k1 = []" "length (kj_work k1) \<le> Suc (length (kj_work k))"
    "set (w_recycler (kj_w k)) \<subseteq> set (w_recycler (kj_w k1))" "unat (w_next_id (kj_w k1)) \<le> Suc (unat (w_next_id (kj_w k)))"
    using Suc.prems(2) by (simp_all add: kj_grows_def)
  have len: "n = length (kj_trunk k1)" using g'(1) Suc.hyps(2) tk by simp
  have "\<exists>k'. RunOnce (length (kj_trunk k1)) k1 = Some k' \<and> kj_inv k' \<and> kj_trunk k' = [] \<and> kj_later k' = [] \<and> set (w_recycler (kj_w k1)) \<subseteq> set (w_recycler (kj_w k'))"
  proof (rule Suc.hyps(1) [OF len k1(2) g'(2)])
    show "length (kj_work k1) + length (kj_trunk k1) \<le> queue_max" using g'(1,3) Suc.prems(3) tk by simp
    show "unat (w_next_id (kj_w k1)) + length (kj_trunk k1) < unat TCP_CONNID_MAX" using g'(1,5) Suc.prems(4) tk by simp
  qed
  moreover have "RunOnce (length (kj_trunk k)) k = RunOnce n k1" by (simp only: Suc.hyps(2) [symmetric] RunOnce_Suc [of n] k1(1) bind.bind_lunit)
  ultimately show ?case using g'(4) len by auto
qed auto

section \<open>Properties\<close>

lemma kj_reachable_inv: "kj_reachable k \<Longrightarrow> kj_inv k"
  unfolding kj_reachable_def by (rule factory.reaches_invar)

text \<open>A factory with one ready server, whose first client is connected.\<close>

definition kj_client :: conn where
  "kj_client = (new_client 1000000001 1)\<lparr>cn_clnt := Some 2, cn_packet := True, cn_connected := True, cn_front_produce := 1, cn_back_consume := 1\<rparr>"

definition kj_server :: "nat list \<Rightarrow> server" where
  "kj_server sts = \<lparr>sv_closed = False, sv_ready = True, sv_impl = False, sv_listener = No_listener, sv_streams = sts\<rparr>"

definition kj_busy :: kj_world where
  "kj_busy = kj_new\<lparr>kj_w := new_world\<lparr>w_fresh := 4, w_conns := [3 \<mapsto> kj_client], w_servers := [1 \<mapsto> kj_server []], w_next_id := 1000000001,
     w_entries := [(1, [(1000000001, 3)])], w_count := 1, w_events := [(CONNECTION_CONNECTED, 3)]\<rparr>\<rparr>"

lemma kj_step: "kj_reachable k \<Longrightarrow> kj_can k op \<Longrightarrow> kj_do op k = Some k' \<Longrightarrow> kj_reachable k'"
  unfolding kj_reachable_def by (rule reaches_step)

lemma kj_busy_reachable: "kj_reachable kj_busy"
proof -
  let ?w = "new_world\<lparr>w_fresh := 2, w_servers := [1 \<mapsto> (kj_server [])\<lparr>sv_ready := False\<rparr>]\<rparr>"
  let ?w1 = "new_world\<lparr>w_fresh := 2, w_servers := [1 \<mapsto> kj_server []]\<rparr>"
  let ?w2 = "new_world\<lparr>w_fresh := 3, w_servers := [1 \<mapsto> kj_server [2]]\<rparr>"
  let ?k3 = "kj_new\<lparr>kj_w := kj_accepted 1 ?w2, kj_work := [CONFIRM_CLIENT_IS_READY 3 2]\<rparr>"
  have "kj_reachable kj_new" by (simp add: kj_reachable_def reaches_start)
  then have "kj_reachable (kj_new\<lparr>kj_w := ?w\<rparr>)"
    by (rule kj_step [of _ KCreate]) (simp_all add: kj_new_def new_world_def CreateTcpServer_def kj_server_def)
  then have "kj_reachable (kj_new\<lparr>kj_w := ?w1\<rparr>)"
    by (rule kj_step [of _ "KReady 1 True"]) (simp_all add: kj_lift_def upd_server_def kj_server_def)
  then have "kj_reachable (kj_new\<lparr>kj_w := ?w2, kj_trunk := [Accept_client 1 2]\<rparr>)"
    by (rule kj_step [of _ "KAccept 1"])
      (simp_all add: queue_max_def kj_accept_def kj_lift_def AddStream_def upd_server_def kj_server_def server_IsReady_def trunk_Add_def kj_new_def Let_def)
  then have "kj_reachable ?k3"
    by (rule kj_step [of _ KTrunk])
      (simp_all add: queue_max_def kj_new_def new_world_def TCP_CONNID_BASE_def TCP_CONNID_MAX_def run_trunk_cb_def kj_server_def kj_accept_eff
        kj_base_def fresh_ok_def id_ok_def One_nat_def)
  then show ?thesis
    by (rule kj_step [of _ KWork])
      (simp_all add: kj_busy_def kj_client_def kj_new_def new_world_def TCP_CONNID_BASE_def work_step_def run_cmd_def kj_accepted_def kj_new_conn_def
        new_client_def conn_IsReady_def kj_lift_def ConfirmClientIsReady_def RemoveStream_def upd_server_def upd_conn_def kj_server_def
        IncrBackEndConsumeNum_def entry_clients_def)
qed

lemma kj_busy_simps [simp]:
  "kj_later kj_busy = []" "kj_work kj_busy = []" "kj_trunk kj_busy = []" "w_conns (kj_w kj_busy) = [3 \<mapsto> kj_client]"
  "registered (kj_w kj_busy) 3" "cn_clnt kj_client = Some 2" "cn_running kj_client" "\<not> cn_disposed kj_client" "cn_kind kj_client = ClientOf 1"
  by (simp_all add: kj_busy_def kj_new_def registered_def kj_client_def new_client_def)



text \<open>
  C15. When both threads empty their queues, the recycler deletes every connection that was removed: running the callbacks
  of the trunk queue, then the commands of the work queue, and then the recycler succeeds and leaves the queues and the recycler
  empty, as long as the queues have room for the commands that the callbacks send.
\<close>

theorem kj_drain_recycles:
  assumes "kj_reachable k" "kj_later k = []" "length (kj_work k) + length (kj_trunk k) \<le> queue_max"
    "unat (w_next_id (kj_w k)) + length (kj_trunk k) < unat TCP_CONNID_MAX"
  shows "\<exists>k1 k2 k3. RunOnce (length (kj_trunk k)) k = Some k1 \<and> work_steps (length (kj_work k1)) k1 = Some k2 \<and>
    kj_Recycle k2 = Some (False, k3) \<and> kj_trunk k3 = [] \<and> kj_work k3 = [] \<and> w_recycler (kj_w k3) = [] \<and>
    (\<forall>p \<in> set (w_recycler (kj_w k)). w_conns (kj_w k3) p = None)"
proof -
  obtain k1 where k1: "RunOnce (length (kj_trunk k)) k = Some k1" "kj_inv k1" "kj_trunk k1 = []" "kj_later k1 = []"
    "set (w_recycler (kj_w k)) \<subseteq> set (w_recycler (kj_w k1))"
    using trunk_drain [OF kj_reachable_inv [OF assms(1)] assms(2-4)] by blast
  obtain k' where k': "work_steps (length (kj_work k1)) (k1\<lparr>kj_work := kj_work k1 @ []\<rparr>) = Some (k'\<lparr>kj_work := []\<rparr>)" "kj_inv k'" "kj_work k' = []"
    "kj_later k' = []" "kj_trunk k' = kj_trunk k1"
    using work_steps_drain [OF k1(2,4), of "[]"] by blast
  have k2: "work_steps (length (kj_work k1)) k1 = Some k'" using k'(1,3) by simp
  have rec: "w_recycler (kj_w k') = w_recycler (kj_w k1)" by (rule work_steps_recycler [OF k1(2,4) k2])
  have safe: "\<exists>c. w_conns (kj_w k') p = Some c \<and> safe_to_release c" if p: "p \<in> set (w_recycler (kj_w k'))" for p
  proof -
    obtain c where c: "w_conns (kj_w k') p = Some c" using kj_mgrD(5) [OF kj_invD(5) [OF k'(2)] p] by auto
    then show ?thesis
      using kj_invD(2) [OF k'(2) c] p k'(3,5) k1(3)
      by (auto simp: kj_conn_def safe_to_release_def IsFrontEndClean_def IsBackEndClean_def)
  qed
  have "\<exists>k3. kj_Recycle k' = Some (False, k3) \<and> kj_trunk k3 = [] \<and> kj_work k3 = [] \<and> w_recycler (kj_w k3) = [] \<and>
    (\<forall>p \<in> set (w_recycler (kj_w k')). w_conns (kj_w k3) p = None)"
  proof -
    have "filter (\<lambda>p. \<not> safe_to_release (the (w_conns (kj_w k') p))) (w_recycler (kj_w k')) = []"
      "filter (\<lambda>p. safe_to_release (the (w_conns (kj_w k') p))) (w_recycler (kj_w k')) = w_recycler (kj_w k')"
      using safe by (force simp: filter_empty_conv filter_id_conv)+
    then show ?thesis using kj_Recycle_eff [OF k'(2)] k'(3,5) k1(3) by simp
  qed
  then obtain k3 where "kj_Recycle k' = Some (False, k3)" "kj_trunk k3 = []" "kj_work k3 = []" "w_recycler (kj_w k3) = []"
    "\<forall>p \<in> set (w_recycler (kj_w k')). w_conns (kj_w k3) p = None" by blast
  then show ?thesis using k1(1,5) k2 rec by (intro exI [of _ k1] exI [of _ k'] exI [of _ k3]) auto
qed

lemma kj_drain_recycles_witness:
  "\<exists>k k1 k2 k3. kj_do (KDisconnect 3) kj_busy = Some k \<and> 3 \<in> set (w_recycler (kj_w k)) \<and> RunOnce (length (kj_trunk k)) k = Some k1 \<and>
     work_steps (length (kj_work k1)) k1 = Some k2 \<and> kj_Recycle k2 = Some (False, k3) \<and> w_conns (kj_w k3) 3 = None"
proof -
  have "kj_can kj_busy (KDisconnect 3)" by (simp add: queue_max_def)
  then obtain k where k: "kj_do (KDisconnect 3) kj_busy = Some k" "kj_reachable k"
    using factory.runs_ok [of kj_busy "KDisconnect 3"] kj_busy_reachable unfolding kj_reachable_def by blast
  then have k': "kj_later k = []" "kj_trunk k = []" "kj_work k = [DISPOSE_CONNECTION 3]" "w_next_id (kj_w k) = 1000000001" "w_recycler (kj_w k) = [3]"
    by (auto simp: kj_Disconnect_def kj_busy_def kj_new_def new_world_def kj_client_def new_client_def kj_lift_def upd_conn_def OnDisconnect_def log_event_def
      kj_OnRemoveClient_def entry_clients_def wq_DisposeConnection_def wq_request_def Commit_def RecyclerPush_def set_clients_def Let_def IncrFrontEndProduceNum_def)
  then show ?thesis
    using kj_drain_recycles [OF k(2)] k(1) by (simp add: queue_max_def TCP_CONNID_MAX_def) blast
qed

text \<open>The steps that do not look at what \<open>taskFailed\<close> has scheduled.\<close>

lemma later_irrelevant:
  "kj_Disconnect p (k\<lparr>kj_later := l\<rparr>) = map_option (\<lambda>k. k\<lparr>kj_later := l\<rparr>) (kj_Disconnect p k)"
  "run_cmd (DISPOSE_CONNECTION p) (k\<lparr>kj_later := l\<rparr>) = map_option (\<lambda>k. k\<lparr>kj_later := l\<rparr>) (run_cmd (DISPOSE_CONNECTION p) k)"
  "kj_Recycle (k\<lparr>kj_later := l\<rparr>) = map_option (\<lambda>(b, k). (b, k\<lparr>kj_later := l\<rparr>)) (kj_Recycle k)"
proof -
  have lift: "kj_lift f (k\<lparr>kj_later := l\<rparr>) = map_option (\<lambda>k. k\<lparr>kj_later := l\<rparr>) (kj_lift f k)" for f k
    by (cases "f (kj_w k)") (simp_all add: kj_lift_def)
  have req: "wq_request p cmd (k\<lparr>kj_later := l\<rparr>) = map_option (\<lambda>k. k\<lparr>kj_later := l\<rparr>) (wq_request p cmd k)" for p cmd k
    by (cases "kj_lift (upd_conn p IncrFrontEndProduceNum) k") (simp_all add: wq_request_def lift Commit_def)
  have rem: "kj_OnRemoveClient sv p (k\<lparr>kj_later := l\<rparr>) = map_option (\<lambda>k. k\<lparr>kj_later := l\<rparr>) (kj_OnRemoveClient sv p k)" for sv k
    by (cases "w_conns (kj_w k) p")
      (auto simp: kj_OnRemoveClient_def wq_DisposeConnection_def req Let_def split: option.splits bind_splits)
  show "kj_Disconnect p (k\<lparr>kj_later := l\<rparr>) = map_option (\<lambda>k. k\<lparr>kj_later := l\<rparr>) (kj_Disconnect p k)"
    by (cases "w_conns (kj_w k) p")
      (auto simp: kj_Disconnect_def lift rem req wq_DisposeConnection_def split: conn_kind.splits bind_splits)
  show "run_cmd (DISPOSE_CONNECTION p) (k\<lparr>kj_later := l\<rparr>) = map_option (\<lambda>k. k\<lparr>kj_later := l\<rparr>) (run_cmd (DISPOSE_CONNECTION p) k)"
    by (cases "w_conns (kj_w k) p")
      (auto simp: run_cmd_def kj_DisposeConnection_def kj_FlushStream_def lift split: bind_splits)
  show "kj_Recycle (k\<lparr>kj_later := l\<rparr>) = map_option (\<lambda>(b, k). (b, k\<lparr>kj_later := l\<rparr>)) (kj_Recycle k)"
    by (cases "Recycle (kj_w k)") (auto simp: kj_Recycle_def)
qed

text \<open>
  C32. What \<open>taskFailed\<close> schedules is not counted. When the application disconnects the connection, and the back end runs the command
  for it before the scheduled function, the recycler deletes the connection, and the scheduled function then
  works on a deleted object.
\<close>

theorem kj_taskFailed_race:
  assumes "kj_reachable k" "kj_later k = []" "kj_work k = []" "filter (cb_of p) (kj_trunk k) = []" "registered (kj_w k) p"
    "w_conns (kj_w k) p = Some c" "cn_clnt c \<noteq> None" "cn_running c"
  shows "\<exists>k1 k2 b k3. kj_Disconnect p (kj_taskFailed p k) = Some k1 \<and> work_step k1 = Some k2 \<and> kj_Recycle k2 = Some (b, k3) \<and>
    w_conns (kj_w k3) p = None \<and> later_step k3 = None"
proof -
  have inv: "kj_inv k" by (rule kj_reachable_inv [OF assms(1)])
  obtain sv where sv: "cn_kind c = ClientOf sv" "0 < sv" and live: "\<not> cn_disposed c"
    using kj_invD(2) [OF inv assms(6)] assms(7) by (auto simp: kj_conn_def split: if_splits)
  obtain k1 where k1: "kj_Disconnect p k = Some k1" "kj_inv k1" using kj_Disconnect_ok [OF inv assms(6)] assms(3) by (auto simp: queue_max_def)
  have k1': "kj_work k1 = [DISPOSE_CONNECTION p]" "kj_trunk k1 = kj_trunk k" "kj_later k1 = []" "p \<in> set (w_recycler (kj_w k1))"
  proof -
    let ?k = "kj_stopped p c k"
    have "map_of (entry_clients sv (kj_w ?k)) (cn_id c) = Some p"
      using registered_entry [OF inv assms(5,6) sv(1)] by (simp add: kj_stopped_def entry_clients_def)
    then have "kj_Disconnect p k = Some (let k1 = kj_put p (IncrFrontEndProduceNum (c\<lparr>cn_running := False, cn_connected := False\<rparr>)) []
        (kj_work ?k @ [DISPOSE_CONNECTION p]) (kj_trunk ?k) (kj_later ?k) ?k
      in k1\<lparr>kj_w := kj_removed sv p (IncrFrontEndProduceNum (c\<lparr>cn_running := False, cn_connected := False\<rparr>)) (kj_w k1)\<rparr>)"
      using kj_Disconnect_eff [OF assms(6) live assms(8) sv(1)]
        kj_OnRemoveClient_eff [OF kj_stopped_inv [OF inv assms(6)], of p "c\<lparr>cn_running := False, cn_connected := False\<rparr>" sv] sv(2)
      by (simp add: kj_stopped_def Let_def)
    then show "kj_work k1 = [DISPOSE_CONNECTION p]" "kj_trunk k1 = kj_trunk k" "kj_later k1 = []" "p \<in> set (w_recycler (kj_w k1))"
      using k1(1) assms(2,3) by (auto simp: Let_def kj_stopped_def)
  qed
  obtain k2 where k2: "work_step k1 = Some k2" "kj_inv k2" using work_step_ok [OF k1(2) k1'(3)] by blast
  then have r: "run_cmd (DISPOSE_CONNECTION p) (k1\<lparr>kj_work := []\<rparr>) = Some k2" using k1'(1) by (simp add: work_step_def)
  have k2': "kj_work k2 = []" "kj_trunk k2 = kj_trunk k" "p \<in> set (w_recycler (kj_w k2))"
    using run_cmd_others [OF r] run_cmd_recycler [OF r] k1' by simp_all
  then obtain d where d: "w_conns (kj_w k2) p = Some d" using kj_mgrD(5) [OF kj_invD(5) [OF k2(2)]] by blast
  have "safe_to_release d"
    using kj_invD(2) [OF k2(2) d] k2' assms(4) by (auto simp: kj_conn_def safe_to_release_def IsFrontEndClean_def IsBackEndClean_def)
  then obtain b k3 where k3: "kj_Recycle k2 = Some (b, k3)" "w_conns (kj_w k3) p = None"
    using kj_Recycle_eff [OF k2(2)] k2'(3) d by (auto simp: restrict_map_def)
  let ?l = "\<lambda>k. k\<lparr>kj_later := [p]\<rparr>"
  have "kj_Disconnect p (kj_taskFailed p k) = Some (?l k1)" using later_irrelevant(1) [where p = p and k = k and l = "[p]"] k1(1) assms(2) by (simp add: kj_taskFailed_def)
  moreover have "k1\<lparr>kj_later := [p], kj_work := []\<rparr> = k1\<lparr>kj_work := [], kj_later := [p]\<rparr>" by (rule kj_world.equality) simp_all
  then have "run_cmd (DISPOSE_CONNECTION p) (k1\<lparr>kj_later := [p], kj_work := []\<rparr>) = Some (?l k2)"
    by (rule ssubst) (use later_irrelevant(2) [where p = p and k = "k1\<lparr>kj_work := []\<rparr>" and l = "[p]"] r in simp)
  then have "work_step (?l k1) = Some (?l k2)" using k1'(1) by (simp add: work_step_def)
  moreover have "kj_Recycle (?l k2) = Some (b, ?l k3)" using later_irrelevant(3) [where k = k2 and l = "[p]"] k3(1) by simp
  moreover have "later_step (?l k3) = None" using k3(2) by (simp add: later_step_def kj_FlushStream_def kj_lift_def upd_conn_def)
  ultimately show ?thesis using k3(2) by (intro exI [of _ "?l k1"] exI [of _ "?l k2"] exI [of _ b] exI [of _ "?l k3"]) simp
qed

lemma kj_taskFailed_race_witness:
  "\<exists>k1 k2 b k3. kj_reachable kj_busy \<and> kj_can kj_busy (KFail 3) \<and> kj_Disconnect 3 (kj_taskFailed 3 kj_busy) = Some k1 \<and> work_step k1 = Some k2 \<and>
     kj_Recycle k2 = Some (b, k3) \<and> later_step k3 = None"
  using kj_taskFailed_race [OF kj_busy_reachable, of 3 kj_client] kj_busy_reachable by auto

end
