(* ===== verification/RwQueue.thy ===== *)
theory RwQueue
  imports RoundUp StepSystem
begin

text \<open>
  \<^verbatim>\<open>src/base/concurrent/readerwriterqueue.h\<close>: the queue of one producer and one consumer that carries the commands
  and callbacks of the kj factory. It is a ring of blocks, each a circular buffer.

  The two threads run in steps. A step is one access to a variable that the other thread may write or
  read, with the accesses to the thread's own variables around it; the accesses are sequentially
  consistent. The producer owns \<open>tailBlock\<close>, \<open>tail\<close>, \<open>localFront\<close> and \<open>next\<close>, the consumer \<open>frontBlock\<close>, \<open>front\<close> and
  \<open>localTail\<close>. A block pointer is a number; a cell of a block is \<open>None\<close> when no element is constructed in it. A bad
  pointer, an index out of range, a read of a cell without an element and a failed assertion are the result \<open>None\<close>.
\<close>

section \<open>Blocks\<close>

record 'a rw_block =
  bk_front :: nat
  bk_localTail :: nat
  bk_tail :: nat
  bk_localFront :: nat
  bk_next :: "nat option"
  bk_data :: "'a option list"
  bk_sizeMask :: nat

record 'a rw_queue =
  rq_blocks :: "nat \<rightharpoonup> 'a rw_block"
  rq_fresh :: nat
  rq_frontBlock :: nat
  rq_tailBlock :: nat
  rq_largestBlockSize :: nat

definition MAX_BLOCK_SIZE :: nat where
  "MAX_BLOCK_SIZE = 512"

definition make_block :: "nat \<Rightarrow> 'a rw_block" where
  "make_block capacity =
     \<lparr>bk_front = 0, bk_localTail = 0, bk_tail = 0, bk_localFront = 0, bk_next = None, bk_data = replicate capacity None,
      bk_sizeMask = capacity - 1\<rparr>"

section \<open>The constructor\<close>

definition ceilToPow2 :: "size_t \<Rightarrow> size_t" where
  "ceilToPow2 x =
     (let x = x - 1;
          x = x OR drop_bit 1 x;
          x = x OR drop_bit 2 x;
          x = x OR drop_bit 4 x;
          x = x OR drop_bit 8 x;
          x = x OR drop_bit 16 x;
          x = x OR drop_bit 32 x
      in x + 1)"

text \<open>The loop that makes \<open>n\<close> blocks, the \<open>i\<close>-th at address \<open>i\<close>; each new block is linked to the first one.\<close>

fun init_blocks :: "nat \<Rightarrow> nat \<rightharpoonup> 'a rw_block" where
  "init_blocks 0 = Map.empty"
| "init_blocks (Suc i) =
     (let m = init_blocks i;
          m = (if i = 0 then m else m(i - 1 := map_option (\<lambda>b. b\<lparr>bk_next := Some i\<rparr>) (m (i - 1))))
      in m(i \<mapsto> (make_block MAX_BLOCK_SIZE)\<lparr>bk_next := Some 0\<rparr>))"

text \<open>\<open>ReaderWriterQueue(maxSize)\<close> when the memory suffices; otherwise it throws \<open>std::bad_alloc\<close>.\<close>

definition new_rw_queue :: "size_t \<Rightarrow> 'a rw_queue option" where
  "new_rw_queue maxSize =
     (if maxSize > 0 then
        let largestBlockSize = unat (ceilToPow2 (maxSize + 1)) in
        if largestBlockSize > MAX_BLOCK_SIZE * 2 then
          let initialBlockCount = (unat maxSize + MAX_BLOCK_SIZE * 2 - 3) div (MAX_BLOCK_SIZE - 1) in
          Some \<lparr>rq_blocks = init_blocks initialBlockCount, rq_fresh = initialBlockCount, rq_frontBlock = 0, rq_tailBlock = 0,
            rq_largestBlockSize = MAX_BLOCK_SIZE\<rparr>
        else
          Some \<lparr>rq_blocks = [0 \<mapsto> (make_block largestBlockSize)\<lparr>bk_next := Some 0\<rparr>], rq_fresh = 1, rq_frontBlock = 0, rq_tailBlock = 0,
            rq_largestBlockSize = largestBlockSize\<rparr>
      else None)"

definition upd_block :: "nat \<Rightarrow> ('a rw_block \<Rightarrow> 'a rw_block) \<Rightarrow> 'a rw_queue \<Rightarrow> 'a rw_queue" where
  "upd_block b f q = q\<lparr>rq_blocks := (rq_blocks q)(b := map_option f (rq_blocks q b))\<rparr>"

section \<open>The producer\<close>

text \<open>
  Where the producer is in \<open>inner_enqueue\<close>: the element, whether it may allocate, and its local variables.
  Each point is named by the access that comes next.
\<close>

datatype 'a ppc =
    P_idle
  | P_front 'a bool nat nat nat   \<comment> \<open>read \<open>front\<close> of the tail block\<close>
  | P_write 'a nat nat nat        \<comment> \<open>construct the element in the tail block\<close>
  | P_tail 'a nat nat             \<comment> \<open>write \<open>tail\<close> of the tail block\<close>
  | P_next 'a bool nat            \<comment> \<open>read \<open>frontBlock\<close>\<close>
  | P_adv 'a nat                  \<comment> \<open>read \<open>front\<close> of the next block\<close>
  | P_awrite 'a nat nat           \<comment> \<open>construct the element in the next block\<close>
  | P_atail 'a nat nat            \<comment> \<open>write \<open>tail\<close> of the next block\<close>
  | P_link 'a nat nat             \<comment> \<open>write \<open>next\<close> of the tail block\<close>
  | P_tb 'a nat                   \<comment> \<open>write \<open>tailBlock\<close>\<close>

text \<open>
  The consumer in \<open>try_dequeue\<close>.
\<close>

datatype 'a cpc =
    C_idle
  | C_tail nat nat          \<comment> \<open>read \<open>tail\<close> of the front block\<close>
  | C_tb nat                \<comment> \<open>read \<open>tailBlock\<close>\<close>
  | C_recheck               \<comment> \<open>read \<open>tail\<close> of the front block again\<close>
  | C_next nat              \<comment> \<open>read \<open>next\<close> of the front block\<close>
  | C_ntail nat             \<comment> \<open>read \<open>tail\<close> of the next block\<close>
  | C_adv nat nat           \<comment> \<open>write \<open>frontBlock\<close>\<close>
  | C_read nat nat          \<comment> \<open>take the element\<close>
  | C_front nat nat 'a      \<comment> \<open>write \<open>front\<close>\<close>

text \<open>
  The queue with its two threads. \<open>rs_in\<close> holds the elements in the order in which they became part of the queue, \<open>rs_out\<close>
  those taken out of it; \<open>rs_empty\<close> records whether the queue was empty when the consumer read \<open>tail\<close> first. The three are
  there for the statements only. \<open>rs_pres\<close> and \<open>rs_cres\<close> are the results of the last calls.
\<close>

record 'a rw_sys =
  rs_q :: "'a rw_queue"
  rs_p :: "'a ppc"
  rs_c :: "'a cpc"
  rs_in :: "'a list"
  rs_out :: "'a list"
  rs_empty :: bool
  rs_pres :: "bool option"
  rs_cres :: "'a option option"

definition rw_start :: "'a rw_queue \<Rightarrow> 'a rw_sys" where
  "rw_start q = \<lparr>rs_q = q, rs_p = P_idle, rs_c = C_idle, rs_in = [], rs_out = [], rs_empty = False, rs_pres = None, rs_cres = None\<rparr>"

definition write_cell :: "nat \<Rightarrow> nat \<Rightarrow> 'a option \<Rightarrow> 'a rw_queue \<Rightarrow> 'a rw_queue option" where
  "write_cell b i v q = do {
     bk \<leftarrow> rq_blocks q b;
     if i < length (bk_data bk) then Some (upd_block b (\<lambda>bk. bk\<lparr>bk_data := (bk_data bk)[i := v]\<rparr>) q) else None
   }"

text \<open>\<open>enqueue\<close> and \<open>try_enqueue\<close> up to the first access to a variable of the consumer.\<close>

definition inner_enqueue :: "'a \<Rightarrow> bool \<Rightarrow> 'a rw_sys \<Rightarrow> 'a rw_sys option" where
  "inner_enqueue x canAlloc s = do {
     let tb = rq_tailBlock (rs_q s);
     bk \<leftarrow> rq_blocks (rs_q s) tb;
     let nextBlockTail = (bk_tail bk + 1) AND bk_sizeMask bk;
     Some (if nextBlockTail \<noteq> bk_localFront bk
           then s\<lparr>rs_p := P_write x tb (bk_tail bk) nextBlockTail\<rparr>
           else s\<lparr>rs_p := P_front x canAlloc tb (bk_tail bk) nextBlockTail\<rparr>)
   }"

definition enqueue_returns :: "bool \<Rightarrow> 'a rw_sys \<Rightarrow> 'a rw_sys" where
  "enqueue_returns r s = s\<lparr>rs_p := P_idle, rs_pres := Some r\<rparr>"

text \<open>A new block with the element in it; no other thread refers to it yet.\<close>

definition new_block_size :: "'a rw_queue \<Rightarrow> nat" where
  "new_block_size q = (if rq_largestBlockSize q \<ge> MAX_BLOCK_SIZE then rq_largestBlockSize q else rq_largestBlockSize q * 2)"

definition first_element :: "'a \<Rightarrow> nat option \<Rightarrow> 'a rw_block \<Rightarrow> 'a rw_block" where
  "first_element x nx bk = bk\<lparr>bk_data := (bk_data bk)[0 := Some x], bk_tail := 1, bk_localTail := 1, bk_next := nx\<rparr>"

definition enqueue_alloc :: "'a \<Rightarrow> nat \<Rightarrow> nat option \<Rightarrow> 'a rw_sys \<Rightarrow> 'a rw_sys option" where
  "enqueue_alloc x tb nx s =
     (let q = rs_q s; newBlockSize = new_block_size q; newBlock = rq_fresh q in
      if 0 < newBlockSize then
        Some (s\<lparr>rs_q := q\<lparr>rq_largestBlockSize := newBlockSize, rq_fresh := Suc newBlock,
            rq_blocks := (rq_blocks q)(newBlock \<mapsto> first_element x nx (make_block newBlockSize))\<rparr>,
          rs_p := P_link x tb newBlock\<rparr>)
      else None)"

text \<open>A step of the producer; \<open>mem\<close> says that \<open>malloc\<close> succeeds.\<close>

definition enqueue_step :: "bool \<Rightarrow> 'a rw_sys \<Rightarrow> 'a rw_sys option" where
  "enqueue_step mem s = (let q = rs_q s in
     case rs_p s of
       P_idle \<Rightarrow> Some s
     | P_front x canAlloc tb blockTail nextBlockTail \<Rightarrow> do {
         bk \<leftarrow> rq_blocks q tb;
         let f = bk_front bk;
         let s1 = s\<lparr>rs_q := upd_block tb (\<lambda>bk. bk\<lparr>bk_localFront := f\<rparr>) q\<rparr>;
         Some (if nextBlockTail \<noteq> f then s1\<lparr>rs_p := P_write x tb blockTail nextBlockTail\<rparr> else s1\<lparr>rs_p := P_next x canAlloc tb\<rparr>)
       }
     | P_write x tb blockTail nextBlockTail \<Rightarrow> do {
         q1 \<leftarrow> write_cell tb blockTail (Some x) q;
         Some (s\<lparr>rs_q := q1, rs_p := P_tail x tb nextBlockTail\<rparr>)
       }
     | P_tail x tb nextBlockTail \<Rightarrow>
         Some (enqueue_returns True (s\<lparr>rs_q := upd_block tb (\<lambda>bk. bk\<lparr>bk_tail := nextBlockTail\<rparr>) q, rs_in := rs_in s @ [x]\<rparr>))
     | P_next x canAlloc tb \<Rightarrow> do {
         bk \<leftarrow> rq_blocks q tb;
         nb \<leftarrow> bk_next bk;
         if nb \<noteq> rq_frontBlock q then Some (s\<lparr>rs_p := P_adv x nb\<rparr>)
         else if canAlloc then
           if mem then enqueue_alloc x tb (bk_next bk) s
           else Some (enqueue_returns False s)
         else Some (enqueue_returns False s)
       }
     | P_adv x nb \<Rightarrow> do {
         bk \<leftarrow> rq_blocks q nb;
         if bk_front bk = bk_tail bk
         then Some (s\<lparr>rs_q := upd_block nb (\<lambda>bk. bk\<lparr>bk_localFront := bk_front bk\<rparr>) q, rs_p := P_awrite x nb (bk_tail bk)\<rparr>)
         else None
       }
     | P_awrite x nb nextBlockTail \<Rightarrow> do {
         q1 \<leftarrow> write_cell nb nextBlockTail (Some x) q;
         Some (s\<lparr>rs_q := q1, rs_p := P_atail x nb nextBlockTail\<rparr>)
       }
     | P_atail x nb nextBlockTail \<Rightarrow>
         Some (s\<lparr>rs_q := upd_block nb (\<lambda>bk. bk\<lparr>bk_tail := (nextBlockTail + 1) AND bk_sizeMask bk\<rparr>) q, rs_p := P_tb x nb\<rparr>)
     | P_link x tb newBlock \<Rightarrow>
         Some (s\<lparr>rs_q := upd_block tb (\<lambda>bk. bk\<lparr>bk_next := Some newBlock\<rparr>) q, rs_p := P_tb x newBlock\<rparr>)
     | P_tb x nb \<Rightarrow> Some (enqueue_returns True (s\<lparr>rs_q := q\<lparr>rq_tailBlock := nb\<rparr>, rs_in := rs_in s @ [x]\<rparr>)))"

section \<open>The consumer\<close>

definition try_dequeue :: "'a rw_sys \<Rightarrow> 'a rw_sys option" where
  "try_dequeue s = do {
     let fb = rq_frontBlock (rs_q s);
     bk \<leftarrow> rq_blocks (rs_q s) fb;
     Some (if bk_front bk \<noteq> bk_localTail bk then s\<lparr>rs_c := C_read fb (bk_front bk)\<rparr> else s\<lparr>rs_c := C_tail fb (bk_front bk)\<rparr>)
   }"

definition dequeue_returns :: "'a option \<Rightarrow> 'a rw_sys \<Rightarrow> 'a rw_sys" where
  "dequeue_returns r s = s\<lparr>rs_c := C_idle, rs_cres := Some r\<rparr>"

definition dequeue_step :: "'a rw_sys \<Rightarrow> 'a rw_sys option" where
  "dequeue_step s = (let q = rs_q s in
     case rs_c s of
       C_idle \<Rightarrow> Some s
     | C_tail fb blockFront \<Rightarrow> do {
         bk \<leftarrow> rq_blocks q fb;
         let t = bk_tail bk;
         let s1 = s\<lparr>rs_q := upd_block fb (\<lambda>bk. bk\<lparr>bk_localTail := t\<rparr>) q\<rparr>;
         Some (if blockFront \<noteq> t then s1\<lparr>rs_c := C_read fb blockFront\<rparr> else s1\<lparr>rs_c := C_tb fb, rs_empty := (rs_in s = rs_out s)\<rparr>)
       }
     | C_tb fb \<Rightarrow> Some (if fb \<noteq> rq_tailBlock q then s\<lparr>rs_c := C_recheck\<rparr> else dequeue_returns None s)
     | C_recheck \<Rightarrow> do {
         let fb = rq_frontBlock q;
         bk \<leftarrow> rq_blocks q fb;
         let t = bk_tail bk;
         let s1 = s\<lparr>rs_q := upd_block fb (\<lambda>bk. bk\<lparr>bk_localTail := t\<rparr>) q\<rparr>;
         Some (if bk_front bk \<noteq> t then s1\<lparr>rs_c := C_read fb (bk_front bk)\<rparr> else s1\<lparr>rs_c := C_next fb\<rparr>)
       }
     | C_next fb \<Rightarrow> do {
         bk \<leftarrow> rq_blocks q fb;
         nb \<leftarrow> bk_next bk;
         Some (s\<lparr>rs_c := C_ntail nb\<rparr>)
       }
     | C_ntail nb \<Rightarrow> do {
         bk \<leftarrow> rq_blocks q nb;
         if bk_front bk \<noteq> bk_tail bk
         then Some (s\<lparr>rs_q := upd_block nb (\<lambda>bk. bk\<lparr>bk_localTail := bk_tail bk\<rparr>) q, rs_c := C_adv nb (bk_front bk)\<rparr>)
         else None
       }
     | C_adv nb nextBlockFront \<Rightarrow> Some (s\<lparr>rs_q := q\<lparr>rq_frontBlock := nb\<rparr>, rs_c := C_read nb nextBlockFront\<rparr>)
     | C_read fb blockFront \<Rightarrow> do {
         bk \<leftarrow> rq_blocks q fb;
         if blockFront < length (bk_data bk) then do {
           x \<leftarrow> bk_data bk ! blockFront;
           q1 \<leftarrow> write_cell fb blockFront None q;
           Some (s\<lparr>rs_q := q1, rs_c := C_front fb blockFront x, rs_out := rs_out s @ [x]\<rparr>)
         }
         else None
       }
     | C_front fb blockFront x \<Rightarrow>
         Some (dequeue_returns (Some x)
           (s\<lparr>rs_q := upd_block fb (\<lambda>bk. bk\<lparr>bk_front := (blockFront + 1) AND bk_sizeMask bk\<rparr>) q\<rparr>)))"

section \<open>The two threads\<close>

datatype 'a rw_op = Enqueue 'a bool | Try_dequeue | Producer bool | Consumer

fun rw_do :: "'a rw_op \<Rightarrow> 'a rw_sys \<Rightarrow> 'a rw_sys option" where
  "rw_do (Enqueue x canAlloc) s = inner_enqueue x canAlloc s"
| "rw_do Try_dequeue s = try_dequeue s"
| "rw_do (Producer mem) s = enqueue_step mem s"
| "rw_do Consumer s = dequeue_step s"

text \<open>A thread calls an operation when it is not in one; otherwise every order of the steps is possible.\<close>

fun rw_can :: "'a rw_sys \<Rightarrow> 'a rw_op \<Rightarrow> bool" where
  "rw_can s (Enqueue x canAlloc) = (case rs_p s of P_idle \<Rightarrow> True | _ \<Rightarrow> False)"
| "rw_can s Try_dequeue = (case rs_c s of C_idle \<Rightarrow> True | _ \<Rightarrow> False)"
| "rw_can s (Producer mem) = True"
| "rw_can s Consumer = True"

end
