(* ===== verification/RwInvariant.thy ===== *)
theory RwInvariant
  imports RwQueue
begin

text \<open>
  The invariant of the reader-writer queue: the ring of blocks falls into the blocks from \<open>frontBlock\<close> to \<open>tailBlock\<close>, which
  hold the elements of the queue, and the free blocks behind them; what each thread has read of the other's variables is
  still good for what it is about to do.
\<close>

section \<open>Circular buffers\<close>

definition ring_next :: "nat \<Rightarrow> nat \<Rightarrow> nat" where
  "ring_next n i = (if Suc i = n then 0 else Suc i)"

definition ring_dist :: "nat \<Rightarrow> nat \<Rightarrow> nat \<Rightarrow> nat" where
  "ring_dist n a b = (if a \<le> b then b - a else n + b - a)"

definition ring_pos :: "nat \<Rightarrow> nat \<Rightarrow> nat \<Rightarrow> nat" where
  "ring_pos n a j = (if a + j < n then a + j else a + j - n)"

lemma and_mask_next:
  assumes "n = 2 ^ k" "i < n"
  shows "(i + 1) AND (n - 1) = ring_next n i"
proof -
  have "(i + 1) AND (n - 1) = take_bit k (i + 1)" by (simp add: assms(1) and_exp_eq_0_iff_not_bit take_bit_eq_mask mask_eq_exp_minus_1)
  also have "\<dots> = (i + 1) mod n" by (simp add: take_bit_eq_mod assms(1))
  also have "\<dots> = ring_next n i" using assms(2) by (auto simp: ring_next_def)
  finally show ?thesis .
qed

lemma ring_dist_0 [simp]: "ring_dist n a a = 0"
  by (simp add: ring_dist_def)

lemma ring_dist_eq_0: "a < n \<Longrightarrow> b < n \<Longrightarrow> ring_dist n a b = 0 \<longleftrightarrow> a = b"
  by (auto simp: ring_dist_def)

lemma ring_dist_lt: "a < n \<Longrightarrow> b < n \<Longrightarrow> ring_dist n a b < n"
  by (auto simp: ring_dist_def)

lemma ring_next_lt: "i < n \<Longrightarrow> ring_next n i < n"
  by (auto simp: ring_next_def)

lemma ring_next_neq: "2 \<le> n \<Longrightarrow> ring_next n i \<noteq> i"
  by (auto simp: ring_next_def)

lemma ring_full: "a < n \<Longrightarrow> b < n \<Longrightarrow> ring_next n b = a \<longleftrightarrow> ring_dist n a b = n - 1"
  by (auto simp: ring_dist_def ring_next_def split: if_splits)

lemma ring_dist_next_right: "a < n \<Longrightarrow> b < n \<Longrightarrow> ring_dist n a b < n - 1 \<Longrightarrow> ring_dist n a (ring_next n b) = Suc (ring_dist n a b)"
  by (auto simp: ring_dist_def ring_next_def split: if_splits)

lemma ring_dist_next_left: "a < n \<Longrightarrow> b < n \<Longrightarrow> a \<noteq> b \<Longrightarrow> ring_dist n (ring_next n a) b = ring_dist n a b - 1"
  by (auto simp: ring_dist_def ring_next_def split: if_splits)

definition ring_items :: "nat \<Rightarrow> nat \<Rightarrow> nat \<Rightarrow> 'b list \<Rightarrow> 'b list" where
  "ring_items n f t xs = map (\<lambda>j. xs ! ring_pos n f j) [0..<ring_dist n f t]"

lemma ring_pos_dist: "a < n \<Longrightarrow> b < n \<Longrightarrow> ring_pos n a (ring_dist n a b) = b"
  by (auto simp: ring_pos_def ring_dist_def)

lemma ring_pos_neq: "a < n \<Longrightarrow> b < n \<Longrightarrow> j < ring_dist n a b \<Longrightarrow> b \<noteq> ring_pos n a j"
  by (auto simp: ring_pos_def ring_dist_def split: if_splits)

lemma ring_items_empty: "a < n \<Longrightarrow> b < n \<Longrightarrow> ring_items n a b xs = [] \<longleftrightarrow> a = b"
  using ring_dist_eq_0 [of a n b] by (simp add: ring_items_def)

lemma ring_items_same [simp]: "ring_items n a a xs = []"
  by (simp add: ring_items_def)

lemma ring_items_snoc:
  "a < n \<Longrightarrow> b < n \<Longrightarrow> ring_dist n a b < n - 1 \<Longrightarrow> ring_items n a (ring_next n b) xs = ring_items n a b xs @ [xs ! b]"
  by (simp add: ring_items_def ring_dist_next_right ring_pos_dist)

lemma ring_items_Cons:
  assumes "a < n" "b < n" "a \<noteq> b"
  shows "ring_items n a b xs = xs ! a # ring_items n (ring_next n a) b xs"
proof -
  have "ring_dist n a b = Suc (ring_dist n (ring_next n a) b)"
    using ring_dist_next_left [OF assms] ring_dist_eq_0 [OF assms(1,2)] assms(3) by simp
  moreover have "ring_pos n a (Suc j) = ring_pos n (ring_next n a) j" if "j < ring_dist n (ring_next n a) b" for j
    using that assms by (auto simp: ring_pos_def ring_next_def ring_dist_def split: if_splits)
  ultimately show ?thesis
    using assms(1) by (simp add: ring_items_def upt_conv_Cons map_Suc_upt [symmetric] ring_pos_def del: upt_Suc map_Suc_upt)
qed

lemma ring_items_tail_upd: "a < n \<Longrightarrow> b < n \<Longrightarrow> ring_items n a b (xs[b := v]) = ring_items n a b xs"
  using ring_pos_neq [of a n b] by (auto simp: ring_items_def)

lemma ring_items_front_upd:
  assumes "a < n" "b < n" "a \<noteq> b"
  shows "ring_items n (ring_next n a) b (xs[a := v]) = ring_items n (ring_next n a) b xs"
proof -
  have "a \<noteq> ring_pos n (ring_next n a) j" if "j < ring_dist n (ring_next n a) b" for j
    using that assms by (auto simp: ring_pos_def ring_next_def ring_dist_def split: if_splits)
  then show ?thesis by (auto simp: ring_items_def)
qed

section \<open>The ring of blocks\<close>

fun chain :: "(nat \<rightharpoonup> 'a rw_block) \<Rightarrow> nat list \<Rightarrow> nat \<Rightarrow> bool" where
  "chain m [] e = True"
| "chain m (b # bs) e = ((\<exists>bk. m b = Some bk \<and> bk_next bk = Some (hd (bs @ [e]))) \<and> chain m bs e)"

lemma chain_append: "chain m (xs @ ys) e \<longleftrightarrow> chain m xs (hd (ys @ [e])) \<and> chain m ys e"
  by (induction xs) (auto simp: hd_append)

lemma chain_cong:
  assumes "\<And>b bk. b \<in> set bs \<Longrightarrow> m b = Some bk \<Longrightarrow> \<exists>bk'. m' b = Some bk' \<and> bk_next bk' = bk_next bk"
  shows "chain m bs e \<Longrightarrow> chain m' bs e"
  using assms
proof (induction bs)
  case (Cons b bs)
  obtain bk where bk: "m b = Some bk" "bk_next bk = Some (hd (bs @ [e]))" using Cons.prems(1) by auto
  obtain bk' where "m' b = Some bk'" "bk_next bk' = bk_next bk" using Cons.prems(2) [of b bk] bk by auto
  moreover have "chain m' bs e" by (rule Cons.IH) (use Cons.prems in auto)
  ultimately show ?case using bk by simp
qed simp

lemma chain_dom: "chain m bs e \<Longrightarrow> b \<in> set bs \<Longrightarrow> \<exists>bk. m b = Some bk"
  by (induction bs) auto

section \<open>The invariant\<close>

abbreviation bk_size :: "'a rw_block \<Rightarrow> nat" where
  "bk_size bk \<equiv> Suc (bk_sizeMask bk)"

abbreviation items_from :: "nat \<Rightarrow> 'a rw_block \<Rightarrow> 'a option list" where
  "items_from f bk \<equiv> ring_items (bk_size bk) f (bk_tail bk) (bk_data bk)"

text \<open>A block: what the threads remember of the other's index is behind it.\<close>

definition block_ok :: "'a rw_block \<Rightarrow> bool" where
  "block_ok bk \<longleftrightarrow> (\<exists>k. 1 \<le> k \<and> bk_size bk = 2 ^ k) \<and> length (bk_data bk) = bk_size bk \<and>
     bk_front bk < bk_size bk \<and> bk_tail bk < bk_size bk \<and> bk_localTail bk < bk_size bk \<and> bk_localFront bk < bk_size bk \<and>
     ring_dist (bk_size bk) (bk_front bk) (bk_localTail bk) \<le> ring_dist (bk_size bk) (bk_front bk) (bk_tail bk) \<and>
     ring_dist (bk_size bk) (bk_front bk) (bk_tail bk) \<le> ring_dist (bk_size bk) (bk_localFront bk) (bk_tail bk)"

text \<open>The front of a block from the consumer's view: it has taken an element before it writes \<open>front\<close>.\<close>

fun taken :: "'a cpc \<Rightarrow> nat \<Rightarrow> bool" where
  "taken (C_front fb f x) b = (b = fb)"
| "taken c b = False"

definition eff_front :: "'a cpc \<Rightarrow> nat \<Rightarrow> 'a rw_block \<Rightarrow> nat" where
  "eff_front c b bk = (if taken c b then ring_next (bk_size bk) (bk_front bk) else bk_front bk)"

definition items :: "'a cpc \<Rightarrow> (nat \<rightharpoonup> 'a rw_block) \<Rightarrow> nat \<Rightarrow> 'a option list" where
  "items c m b = (case m b of None \<Rightarrow> [] | Some bk \<Rightarrow> items_from (eff_front c b bk) bk)"

fun pending_block :: "'a ppc \<Rightarrow> nat option" where
  "pending_block (P_tb x nb) = Some nb"
| "pending_block p = None"

definition room :: "'a rw_block \<Rightarrow> bool" where
  "room bk \<longleftrightarrow> ring_dist (bk_size bk) (bk_localFront bk) (bk_tail bk) < bk_sizeMask bk"

definition holds_only :: "'a \<Rightarrow> 'a rw_block \<Rightarrow> bool" where
  "holds_only x bk \<longleftrightarrow> items_from (bk_front bk) bk = [Some x] \<and> bk_front bk \<noteq> bk_tail bk"

text \<open>What the producer knows at each point; \<open>F\<close> are the blocks in use, \<open>E\<close> the free ones.\<close>

fun producer_ok :: "'a ppc \<Rightarrow> 'a rw_queue \<Rightarrow> nat list \<Rightarrow> nat list \<Rightarrow> bool" where
  "producer_ok P_idle q F E = True"
| "producer_ok (P_front x ca tb t nt) q F E =
     (tb = rq_tailBlock q \<and> (\<exists>bk. rq_blocks q tb = Some bk \<and> t = bk_tail bk \<and> nt = ring_next (bk_size bk) t))"
| "producer_ok (P_write x tb t nt) q F E =
     (tb = rq_tailBlock q \<and> (\<exists>bk. rq_blocks q tb = Some bk \<and> t = bk_tail bk \<and> nt = ring_next (bk_size bk) t \<and> room bk))"
| "producer_ok (P_tail x tb nt) q F E =
     (tb = rq_tailBlock q \<and>
      (\<exists>bk. rq_blocks q tb = Some bk \<and> nt = ring_next (bk_size bk) (bk_tail bk) \<and> room bk \<and> bk_data bk ! bk_tail bk = Some x))"
| "producer_ok (P_next x ca tb) q F E = (tb = rq_tailBlock q)"
| "producer_ok (P_adv x nb) q F E = (E \<noteq> [] \<and> nb = hd E)"
| "producer_ok (P_awrite x nb t) q F E =
     (E \<noteq> [] \<and> nb = hd E \<and> (\<exists>bk. rq_blocks q nb = Some bk \<and> t = bk_tail bk \<and> bk_localFront bk = bk_tail bk))"
| "producer_ok (P_atail x nb t) q F E =
     (E \<noteq> [] \<and> nb = hd E \<and>
      (\<exists>bk. rq_blocks q nb = Some bk \<and> t = bk_tail bk \<and> bk_localFront bk = bk_tail bk \<and> bk_data bk ! bk_tail bk = Some x))"
| "producer_ok (P_link x tb nb) q F E =
     (tb = rq_tailBlock q \<and> nb \<notin> set (F @ E) \<and>
      (\<exists>bk nbk. rq_blocks q tb = Some bk \<and> rq_blocks q nb = Some nbk \<and> bk_next nbk = bk_next bk \<and> block_ok nbk \<and> holds_only x nbk))"
| "producer_ok (P_tb x nb) q F E = (E \<noteq> [] \<and> nb = hd E \<and> (\<exists>bk. rq_blocks q nb = Some bk \<and> holds_only x bk))"

text \<open>What the consumer knows.\<close>

fun consumer_ok :: "'a cpc \<Rightarrow> 'a rw_queue \<Rightarrow> bool \<Rightarrow> nat list \<Rightarrow> bool" where
  "consumer_ok C_idle q em F = True"
| "consumer_ok (C_tail fb f) q em F = (fb = rq_frontBlock q \<and> (\<exists>bk. rq_blocks q fb = Some bk \<and> f = bk_front bk))"
| "consumer_ok (C_tb fb) q em F = (fb = rq_frontBlock q \<and> (tl F = [] \<longrightarrow> em))"
| "consumer_ok C_recheck q em F = (tl F \<noteq> [])"
| "consumer_ok (C_next fb) q em F = (fb = rq_frontBlock q \<and> tl F \<noteq> [] \<and> (\<exists>bk. rq_blocks q fb = Some bk \<and> bk_front bk = bk_tail bk))"
| "consumer_ok (C_ntail nb) q em F = (tl F \<noteq> [] \<and> nb = hd (tl F) \<and> (\<exists>bk. rq_blocks q (rq_frontBlock q) = Some bk \<and> bk_front bk = bk_tail bk))"
| "consumer_ok (C_adv nb f) q em F =
     (tl F \<noteq> [] \<and> nb = hd (tl F) \<and> (\<exists>bk. rq_blocks q (rq_frontBlock q) = Some bk \<and> bk_front bk = bk_tail bk) \<and>
      (\<exists>bk. rq_blocks q nb = Some bk \<and> f = bk_front bk \<and> bk_localTail bk \<noteq> bk_front bk))"
| "consumer_ok (C_read fb f) q em F =
     (fb = rq_frontBlock q \<and> (\<exists>bk. rq_blocks q fb = Some bk \<and> f = bk_front bk \<and> bk_localTail bk \<noteq> bk_front bk))"
| "consumer_ok (C_front fb f x) q em F =
     (fb = rq_frontBlock q \<and> (\<exists>bk. rq_blocks q fb = Some bk \<and> f = bk_front bk \<and> bk_localTail bk \<noteq> bk_front bk))"

definition ring_ok :: "'a rw_sys \<Rightarrow> nat list \<Rightarrow> nat list \<Rightarrow> bool" where
  "ring_ok s F E \<longleftrightarrow> (let q = rs_q s; m = rq_blocks q in
     F \<noteq> [] \<and> distinct (F @ E) \<and> hd F = rq_frontBlock q \<and> last F = rq_tailBlock q \<and> chain m (F @ E) (hd F) \<and>
     (\<forall>b \<in> set (F @ E). \<exists>bk. m b = Some bk \<and> block_ok bk) \<and>
     (\<forall>b bk. b \<in> set (tl F) \<longrightarrow> m b = Some bk \<longrightarrow> bk_front bk \<noteq> bk_tail bk) \<and>
     (\<forall>b bk. b \<in> set E \<longrightarrow> pending_block (rs_p s) \<noteq> Some b \<longrightarrow> m b = Some bk \<longrightarrow> bk_front bk = bk_tail bk) \<and>
     rs_in s = rs_out s @ drop (length (rs_out s)) (rs_in s) \<and>
     concat (map (items (rs_c s) m) F) = map Some (drop (length (rs_out s)) (rs_in s)) \<and>
     (\<forall>b. rq_fresh q \<le> b \<longrightarrow> m b = None) \<and> (\<exists>k. 1 \<le> k \<and> rq_largestBlockSize q = 2 ^ k) \<and>
     producer_ok (rs_p s) q F E \<and> consumer_ok (rs_c s) q (rs_empty s) F)"

definition rw_inv :: "'a rw_sys \<Rightarrow> bool" where
  "rw_inv s \<longleftrightarrow> (\<exists>F E. ring_ok s F E)"

lemma ring_okD:
  assumes "ring_ok s F E"
  shows "F \<noteq> []" "distinct (F @ E)" "hd F = rq_frontBlock (rs_q s)" "last F = rq_tailBlock (rs_q s)" "chain (rq_blocks (rs_q s)) (F @ E) (hd F)"
    "b \<in> set (F @ E) \<Longrightarrow> \<exists>bk. rq_blocks (rs_q s) b = Some bk \<and> block_ok bk"
    "b \<in> set (tl F) \<Longrightarrow> rq_blocks (rs_q s) b = Some bk \<Longrightarrow> bk_front bk \<noteq> bk_tail bk"
    "b \<in> set E \<Longrightarrow> pending_block (rs_p s) \<noteq> Some b \<Longrightarrow> rq_blocks (rs_q s) b = Some bk \<Longrightarrow> bk_front bk = bk_tail bk"
    "rs_in s = rs_out s @ drop (length (rs_out s)) (rs_in s)"
    "concat (map (items (rs_c s) (rq_blocks (rs_q s))) F) = map Some (drop (length (rs_out s)) (rs_in s))"
    "rq_fresh (rs_q s) \<le> b \<Longrightarrow> rq_blocks (rs_q s) b = None" "\<exists>k. 1 \<le> k \<and> rq_largestBlockSize (rs_q s) = 2 ^ k"
    "producer_ok (rs_p s) (rs_q s) F E" "consumer_ok (rs_c s) (rs_q s) (rs_empty s) F"
  using assms unfolding ring_ok_def Let_def by blast+

lemma ring_okI:
  assumes "F \<noteq> []" "distinct (F @ E)" "hd F = rq_frontBlock (rs_q s)" "last F = rq_tailBlock (rs_q s)" "chain (rq_blocks (rs_q s)) (F @ E) (hd F)"
    and "\<And>b. b \<in> set (F @ E) \<Longrightarrow> \<exists>bk. rq_blocks (rs_q s) b = Some bk \<and> block_ok bk"
    and "\<And>b bk. b \<in> set (tl F) \<Longrightarrow> rq_blocks (rs_q s) b = Some bk \<Longrightarrow> bk_front bk \<noteq> bk_tail bk"
    and "\<And>b bk. b \<in> set E \<Longrightarrow> pending_block (rs_p s) \<noteq> Some b \<Longrightarrow> rq_blocks (rs_q s) b = Some bk \<Longrightarrow> bk_front bk = bk_tail bk"
    and "rs_in s = rs_out s @ drop (length (rs_out s)) (rs_in s)"
      "concat (map (items (rs_c s) (rq_blocks (rs_q s))) F) = map Some (drop (length (rs_out s)) (rs_in s))"
    and "\<And>b. rq_fresh (rs_q s) \<le> b \<Longrightarrow> rq_blocks (rs_q s) b = None" "\<exists>k. 1 \<le> k \<and> rq_largestBlockSize (rs_q s) = 2 ^ k"
      "producer_ok (rs_p s) (rs_q s) F E" "consumer_ok (rs_c s) (rs_q s) (rs_empty s) F"
  shows "ring_ok s F E"
  using assms unfolding ring_ok_def Let_def by blast

lemma ring_ok_front:
  assumes "ring_ok s F E"
  shows "rq_frontBlock (rs_q s) \<in> set F" "rq_tailBlock (rs_q s) \<in> set F" "rq_tailBlock (rs_q s) \<notin> set E"
    "tl F \<noteq> [] \<Longrightarrow> rq_tailBlock (rs_q s) \<noteq> rq_frontBlock (rs_q s)" "tl F = [] \<Longrightarrow> rq_tailBlock (rs_q s) = rq_frontBlock (rs_q s)"
    "tl F = [] \<or> rq_tailBlock (rs_q s) \<in> set (tl F)"
proof -
  note r = ring_okD [OF assms]
  obtain b bs where F: "F = b # bs" using r(1) by (cases F) auto
  show "rq_frontBlock (rs_q s) \<in> set F" "rq_tailBlock (rs_q s) \<in> set F" using r(1,3,4) by (metis hd_in_set, metis last_in_set)
  then show "rq_tailBlock (rs_q s) \<notin> set E" using r(2) by auto
  show "tl F = [] \<Longrightarrow> rq_tailBlock (rs_q s) = rq_frontBlock (rs_q s)" using r(3,4) F by auto
  show tl: "tl F = [] \<or> rq_tailBlock (rs_q s) \<in> set (tl F)" using r(4) F last_in_set [of bs] by (cases "bs = []") auto
  show "tl F \<noteq> [] \<Longrightarrow> rq_tailBlock (rs_q s) \<noteq> rq_frontBlock (rs_q s)" using tl r(2,3) F by auto
qed

text \<open>One block changes, and the threads move on.\<close>

lemma ring_ok_upd:
  assumes "ring_ok s F E" "rq_blocks (rs_q s) b = Some bk"
    and s': "rs_q s' = (rs_q s)\<lparr>rq_blocks := (rq_blocks (rs_q s))(b \<mapsto> bk')\<rparr>"
    and bk': "bk_next bk' = bk_next bk" "block_ok bk'"
    and used: "b \<in> set (tl F) \<Longrightarrow> bk_front bk' \<noteq> bk_tail bk'"
    and free: "b \<in> set E \<Longrightarrow> pending_block (rs_p s') \<noteq> Some b \<Longrightarrow> bk_front bk' = bk_tail bk'"
    and pend: "\<And>b'. pending_block (rs_p s) = Some b' \<Longrightarrow> b' \<in> set E \<Longrightarrow> pending_block (rs_p s') = Some b'"
    and hist: "rs_in s' = rs_out s' @ drop (length (rs_out s')) (rs_in s')"
      "concat (map (items (rs_c s') (rq_blocks (rs_q s'))) F) = map Some (drop (length (rs_out s')) (rs_in s'))"
    and pcs: "producer_ok (rs_p s') (rs_q s') F E" "consumer_ok (rs_c s') (rs_q s') (rs_empty s') F"
  shows "ring_ok s' F E"
proof -
  note r = ring_okD [OF assms(1)]
  let ?m = "(rq_blocks (rs_q s))(b \<mapsto> bk')"
  have "chain ?m (F @ E) (hd F)" by (rule chain_cong [OF _ r(5)]) (use assms(2) bk'(1) in auto)
  moreover have "\<exists>bk. ?m b' = Some bk \<and> block_ok bk" if "b' \<in> set (F @ E)" for b' using that r(6) bk'(2) by auto
  moreover have "bk_front c \<noteq> bk_tail c" if "b' \<in> set (tl F)" "?m b' = Some c" for b' c using that r(7) [of b' c] used by (auto split: if_splits)
  moreover have "bk_front c = bk_tail c" if "b' \<in> set E" "pending_block (rs_p s') \<noteq> Some b'" "?m b' = Some c" for b' c
    using that r(8) [of b' c] free pend [of b'] by (auto split: if_splits)
  moreover have "?m b' = None" if "rq_fresh (rs_q s) \<le> b'" for b' using that r(11) [of b'] assms(2) by auto
  ultimately show ?thesis
    using r(1-4,12) hist pcs unfolding ring_ok_def Let_def s' by (intro conjI) simp_all
qed

text \<open>A thread moves on without changing the queue.\<close>

lemma ring_ok_pcs:
  assumes "ring_ok s F E" "rs_q s' = rs_q s" "rs_in s' = rs_in s" "rs_out s' = rs_out s" "\<And>b. taken (rs_c s') b = taken (rs_c s) b"
    "pending_block (rs_p s) = pending_block (rs_p s')" "producer_ok (rs_p s') (rs_q s) F E" "consumer_ok (rs_c s') (rs_q s) (rs_empty s') F"
  shows "ring_ok s' F E"
proof -
  have "items (rs_c s') m = items (rs_c s) m" for m using assms(5) by (auto simp: items_def eff_front_def fun_eq_iff split: option.splits)
  then show ?thesis using ring_okD [OF assms(1)] assms(2-8) unfolding ring_ok_def Let_def by simp
qed

text \<open>The steps of one thread leave what the other knows.\<close>

lemma consumer_frame:
  assumes "consumer_ok c q em F" "rq_frontBlock q' = rq_frontBlock q"
    and same: "\<And>b bk. rq_blocks q b = Some bk \<Longrightarrow>
      \<exists>bk'. rq_blocks q' b = Some bk' \<and> bk_front bk' = bk_front bk \<and> bk_localTail bk' = bk_localTail bk \<and>
        (b = rq_frontBlock q \<longrightarrow> tl F \<noteq> [] \<longrightarrow> bk_tail bk' = bk_tail bk)"
  shows "consumer_ok c q' em F"
proof (cases c)
  case (C_adv nb f)
  then obtain bk nbk where "rq_blocks q (rq_frontBlock q) = Some bk" "bk_front bk = bk_tail bk" "rq_blocks q nb = Some nbk" "f = bk_front nbk"
    "bk_localTail nbk \<noteq> bk_front nbk" "tl F \<noteq> []" "nb = hd (tl F)" using assms(1) by auto
  then show ?thesis using C_adv assms(2) same [of "rq_frontBlock q" bk] same [of nb nbk] by auto
qed (use assms(1,2) same in fastforce)+

lemma producer_frame:
  assumes "producer_ok p q F E" "rq_tailBlock q' = rq_tailBlock q" "rq_tailBlock q \<in> set F"
    and same: "\<And>b bk. rq_blocks q b = Some bk \<Longrightarrow> b \<in> set F \<Longrightarrow>
      \<exists>bk'. rq_blocks q' b = Some bk' \<and> bk_tail bk' = bk_tail bk \<and> bk_localFront bk' = bk_localFront bk \<and> bk_sizeMask bk' = bk_sizeMask bk \<and>
        bk_next bk' = bk_next bk \<and> bk_data bk' ! bk_tail bk = bk_data bk ! bk_tail bk"
      "\<And>b. b \<notin> set F \<Longrightarrow> rq_blocks q' b = rq_blocks q b"
    and "distinct (F @ E)"
  shows "producer_ok p q' F E"
proof -
  have free: "rq_blocks q' (hd E) = rq_blocks q (hd E)" if "E \<noteq> []" 
  proof -
    have "hd E \<in> set E" using that by simp
    then have "hd E \<notin> set F" using assms(6) by auto
    then show ?thesis by (rule same(2))
  qed
  show ?thesis
  proof (cases p)
    case (P_link x tb nb)
    then show ?thesis using assms(1-3) same(1) [of tb] same(2) [of nb] by fastforce
  qed (use assms(1-3) free same(1) [of "rq_tailBlock q"] in \<open>auto simp: room_def\<close>)
qed

end
