(* ===== verification/RwSteps.thy ===== *)
theory RwSteps
  imports RwInvariant
begin

text \<open>
  Every step of the producer and of the consumer keeps the invariant of the reader-writer queue, and the constructor
  establishes it.
\<close>

section \<open>Blocks\<close>

lemma block_okD:
  assumes "block_ok bk"
  obtains k where "1 \<le> k" "bk_size bk = 2 ^ k" "1 \<le> bk_sizeMask bk" "length (bk_data bk) = bk_size bk" "bk_front bk < bk_size bk"
    "bk_tail bk < bk_size bk" "bk_localTail bk < bk_size bk" "bk_localFront bk < bk_size bk"
proof -
  obtain k where k: "1 \<le> k" "bk_size bk = 2 ^ k" using assms by (auto simp: block_ok_def)
  have "(2::nat) ^ 1 \<le> 2 ^ k" using k(1) by (intro power_increasing) auto
  then have "1 \<le> bk_sizeMask bk" using k(2) by simp
  then show ?thesis using that [OF k] assms by (simp add: block_ok_def)
qed

lemma rw_invI: "ring_ok s F E \<Longrightarrow> rw_inv s"
  unfolding rw_inv_def by blast

lemma items_upd:
  assumes "m b = Some bk" "bk_front bk' = bk_front bk" "bk_tail bk' = bk_tail bk" "bk_data bk' = bk_data bk" "bk_sizeMask bk' = bk_sizeMask bk"
  shows "items c (m(b \<mapsto> bk')) = items c m"
  using assms by (auto simp: items_def eff_front_def fun_eq_iff)

lemma items_other: "b' \<noteq> b \<Longrightarrow> items c (m(b := x)) b' = items c m b'"
  by (simp add: items_def)

lemma items_taken: "(\<And>b. taken c' b = taken c b) \<Longrightarrow> items c' m = items c m"
  by (auto simp: items_def eff_front_def fun_eq_iff split: option.splits)

lemma items_empty:
  assumes "m b = Some bk" "block_ok bk" "\<not> taken c b"
  shows "items c m b = [] \<longleftrightarrow> bk_front bk = bk_tail bk"
  using assms ring_items_empty [of "bk_front bk" "bk_size bk" "bk_tail bk" "bk_data bk"] by (simp add: items_def eff_front_def block_ok_def)

lemma upd_block_eq: "rq_blocks q b = Some bk \<Longrightarrow> upd_block b f q = q\<lparr>rq_blocks := (rq_blocks q)(b \<mapsto> f bk)\<rparr>"
  by (simp add: upd_block_def)

lemma upd_block_simps [simp]:
  "rq_blocks (upd_block b f q) = (rq_blocks q)(b := map_option f (rq_blocks q b))" "rq_fresh (upd_block b f q) = rq_fresh q"
  "rq_frontBlock (upd_block b f q) = rq_frontBlock q" "rq_tailBlock (upd_block b f q) = rq_tailBlock q"
  "rq_largestBlockSize (upd_block b f q) = rq_largestBlockSize q"
  by (simp_all add: upd_block_def)

section \<open>The consumer\<close>

text \<open>The consumer reads \<open>tail\<close> of a block in use and remembers it.\<close>

lemma consumer_reads_tail:
  assumes "ring_ok s F E" "b \<in> set F" "rq_blocks (rs_q s) b = Some bk" "\<And>b. \<not> taken (rs_c s) b" "\<And>b. \<not> taken c b"
    and "consumer_ok c (upd_block b (\<lambda>bk. bk\<lparr>bk_localTail := bk_tail bk\<rparr>) (rs_q s)) em F"
  shows "ring_ok (s\<lparr>rs_q := upd_block b (\<lambda>bk. bk\<lparr>bk_localTail := bk_tail bk\<rparr>) (rs_q s), rs_c := c, rs_empty := em\<rparr>) F E" (is "ring_ok ?s F E")
proof -
  note r = ring_okD [OF assms(1)]
  have ok: "block_ok bk" using r(6) [of b] assms(2,3) by auto
  let ?bk = "bk\<lparr>bk_localTail := bk_tail bk\<rparr>"
  have it: "items c ((rq_blocks (rs_q s))(b \<mapsto> ?bk)) = items (rs_c s) (rq_blocks (rs_q s))"
    using items_upd [of "rq_blocks (rs_q s)" b bk ?bk] items_taken [of c "rs_c s"] assms(3-5) by simp
  show ?thesis
  proof (rule ring_ok_upd [OF assms(1,3), of ?s ?bk])
    show "rs_q ?s = (rs_q s)\<lparr>rq_blocks := (rq_blocks (rs_q s))(b \<mapsto> ?bk)\<rparr>" by (simp add: upd_block_eq [OF assms(3)])
    show "block_ok ?bk" using ok by (simp add: block_ok_def)
    show "bk_front ?bk \<noteq> bk_tail ?bk" if "b \<in> set (tl F)" using r(7) [OF that assms(3)] by simp
    show "bk_front ?bk = bk_tail ?bk" if "b \<in> set E" using that assms(2) r(2) by auto
    show "concat (map (items (rs_c ?s) (rq_blocks (rs_q ?s))) F) = map Some (drop (length (rs_out ?s)) (rs_in ?s))"
      using r(10) it assms(3) by simp
    show "producer_ok (rs_p ?s) (rs_q ?s) F E"
      unfolding rw_sys.select_convs rw_sys.update_convs
      by (rule producer_frame [of _ "rs_q s"]) (use r(2,13) ring_ok_front(2) [OF assms(1)] assms(2,3) in auto)
  qed (use r(9) assms(6) in simp_all)
qed

lemma try_dequeue_ok:
  assumes "rw_inv s" "rs_c s = C_idle"
  shows "\<exists>s'. try_dequeue s = Some s' \<and> rw_inv s'"
proof -
  obtain F E where r: "ring_ok s F E" using assms(1) by (auto simp: rw_inv_def)
  let ?fb = "rq_frontBlock (rs_q s)"
  obtain bk where bk: "rq_blocks (rs_q s) ?fb = Some bk" using ring_okD(6) [OF r, of ?fb] ring_ok_front(1) [OF r] by auto
  have "ring_ok (if bk_front bk \<noteq> bk_localTail bk then s\<lparr>rs_c := C_read ?fb (bk_front bk)\<rparr> else s\<lparr>rs_c := C_tail ?fb (bk_front bk)\<rparr>) F E"
    by (rule ring_ok_pcs [OF r]) (use assms(2) bk ring_okD(13) [OF r] in auto)
  then show ?thesis using bk rw_invI by (auto simp: try_dequeue_def Let_def)
qed

lemma consumer_tail_ok:
  assumes "ring_ok s F E" "rs_c s = C_tail fb f"
  shows "\<exists>s'. dequeue_step s = Some s' \<and> ring_ok s' F E"
proof -
  note r = ring_okD [OF assms(1)]
  obtain bk where bk: "rq_blocks (rs_q s) fb = Some bk" "fb = rq_frontBlock (rs_q s)" "f = bk_front bk" using r(14) assms(2) by auto
  have fb: "fb \<in> set F" using ring_ok_front(1) [OF assms(1)] bk(2) by simp
  have ok: "block_ok bk" using r(6) [of fb] fb bk(1) by auto
  let ?c = "if f \<noteq> bk_tail bk then C_read fb f else C_tb fb" and ?em = "if f \<noteq> bk_tail bk then rs_empty s else rs_in s = rs_out s"
  let ?s = "s\<lparr>rs_q := upd_block fb (\<lambda>bk. bk\<lparr>bk_localTail := bk_tail bk\<rparr>) (rs_q s), rs_c := ?c, rs_empty := ?em\<rparr>"
  have "rs_in s = rs_out s" if "f = bk_tail bk" "tl F = []"
  proof -
    have "F = [fb]" using that(2) r(1,3) bk(2) by (cases F) auto
    moreover have "items (rs_c s) (rq_blocks (rs_q s)) fb = []" using items_empty [of "rq_blocks (rs_q s)" fb bk "rs_c s"] ok that(1) bk(1,3) assms(2) by simp
    ultimately have "drop (length (rs_out s)) (rs_in s) = []" using r(10) by simp
    then show ?thesis using r(9) by simp
  qed
  then have "consumer_ok ?c (rs_q ?s) ?em F" using bk by auto
  then have "ring_ok ?s F E" by (intro consumer_reads_tail [OF assms(1) fb bk(1)]) (use assms(2) in \<open>simp_all split: if_splits\<close>)
  moreover have "dequeue_step s = Some ?s" using assms(2) bk by (simp add: dequeue_step_def Let_def upd_block_eq [OF bk(1)])
  ultimately show ?thesis by blast
qed

lemma consumer_recheck_ok:
  assumes "ring_ok s F E" "rs_c s = C_recheck"
  shows "\<exists>s'. dequeue_step s = Some s' \<and> ring_ok s' F E"
proof -
  note r = ring_okD [OF assms(1)]
  let ?fb = "rq_frontBlock (rs_q s)"
  have fb: "?fb \<in> set F" by (rule ring_ok_front(1) [OF assms(1)])
  obtain bk where bk: "rq_blocks (rs_q s) ?fb = Some bk" using r(6) [of ?fb] fb by auto
  let ?c = "if bk_front bk \<noteq> bk_tail bk then C_read ?fb (bk_front bk) else C_next ?fb"
  let ?s = "s\<lparr>rs_q := upd_block ?fb (\<lambda>bk. bk\<lparr>bk_localTail := bk_tail bk\<rparr>) (rs_q s), rs_c := ?c, rs_empty := rs_empty s\<rparr>"
  have "consumer_ok ?c (rs_q ?s) (rs_empty s) F" using r(14) assms(2) bk by auto
  then have "ring_ok ?s F E" by (intro consumer_reads_tail [OF assms(1) fb bk]) (use assms(2) in \<open>simp_all split: if_splits\<close>)
  moreover have "dequeue_step s = Some ?s" using assms(2) bk by (simp add: dequeue_step_def Let_def upd_block_eq [OF bk])
  ultimately show ?thesis by blast
qed

lemma consumer_ntail_ok:
  assumes "ring_ok s F E" "rs_c s = C_ntail nb"
  shows "\<exists>s'. dequeue_step s = Some s' \<and> ring_ok s' F E"
proof -
  note r = ring_okD [OF assms(1)]
  have nb: "nb \<in> set (tl F)" "tl F \<noteq> []" "nb = hd (tl F)" using r(14) assms(2) by auto
  then have "nb \<in> set F" by (simp add: list.set_sel(2) r(1))
  then obtain bk where bk: "rq_blocks (rs_q s) nb = Some bk" using r(6) [of nb] by auto
  have ne: "bk_front bk \<noteq> bk_tail bk" by (rule r(7) [OF nb(1) bk])
  have other: "nb \<noteq> rq_frontBlock (rs_q s)" using nb(1) r(1-3) by (cases F) auto
  let ?c = "C_adv nb (bk_front bk)"
  let ?s = "s\<lparr>rs_q := upd_block nb (\<lambda>bk. bk\<lparr>bk_localTail := bk_tail bk\<rparr>) (rs_q s), rs_c := ?c, rs_empty := rs_empty s\<rparr>"
  have "consumer_ok ?c (upd_block nb (\<lambda>bk. bk\<lparr>bk_localTail := bk_tail bk\<rparr>) (rs_q s)) (rs_empty s) F" using r(14) assms(2) bk ne other nb(3) by auto
  from consumer_reads_tail [OF assms(1) \<open>nb \<in> set F\<close> bk _ _ this] have "ring_ok ?s F E" using assms(2) by simp
  moreover have "dequeue_step s = Some ?s" using assms(2) bk ne by (simp add: dequeue_step_def Let_def upd_block_eq [OF bk])
  ultimately show ?thesis by blast
qed

lemma consumer_tb_ok:
  assumes "ring_ok s F E" "rs_c s = C_tb fb"
  shows "\<exists>s'. dequeue_step s = Some s' \<and> ring_ok s' F E"
proof -
  note r = ring_okD [OF assms(1)]
  let ?s = "if fb \<noteq> rq_tailBlock (rs_q s) then s\<lparr>rs_c := C_recheck\<rparr> else dequeue_returns None s"
  have "ring_ok ?s F E"
  proof (rule ring_ok_pcs [OF assms(1)])
    show "consumer_ok (rs_c ?s) (rs_q s) (rs_empty ?s) F"
      using r(14) assms(2) ring_ok_front(5) [OF assms(1)] by (auto simp: dequeue_returns_def)
  qed (use assms(2) r(13) in \<open>auto simp: dequeue_returns_def\<close>)
  then show ?thesis using assms(2) by (simp add: dequeue_step_def Let_def)
qed

text \<open>The blocks in use, when there is more than one.\<close>

lemma ring_ok_two:
  assumes "ring_ok s F E" "tl F \<noteq> []"
  obtains nb F' where "F = rq_frontBlock (rs_q s) # nb # F'"
  using assms ring_okD(1,3) [OF assms(1)] by (cases F; cases "tl F") auto

lemma consumer_next_ok:
  assumes "ring_ok s F E" "rs_c s = C_next fb"
  shows "\<exists>s'. dequeue_step s = Some s' \<and> ring_ok s' F E"
proof -
  note r = ring_okD [OF assms(1)]
  have c: "fb = rq_frontBlock (rs_q s)" "tl F \<noteq> []" "\<exists>bk. rq_blocks (rs_q s) fb = Some bk \<and> bk_front bk = bk_tail bk" using r(14) assms(2) by auto
  obtain nb F' where F: "F = rq_frontBlock (rs_q s) # nb # F'" using ring_ok_two [OF assms(1) c(2)] .
  obtain bk where bk: "rq_blocks (rs_q s) fb = Some bk" "bk_next bk = Some nb" using r(5) c(1) F by auto
  have "ring_ok (s\<lparr>rs_c := C_ntail nb\<rparr>) F E"
    by (rule ring_ok_pcs [OF assms(1)]) (use assms(2) r(13) c F in auto)
  then show ?thesis using assms(2) bk by (simp add: dequeue_step_def Let_def)
qed

text \<open>The front block is empty: it becomes the last of the free blocks.\<close>

lemma consumer_adv_ok:
  assumes "ring_ok s F E" "rs_c s = C_adv nb f"
  shows "\<exists>s'. dequeue_step s = Some s' \<and> ring_ok s' (tl F) (E @ [hd F])"
proof -
  note r = ring_okD [OF assms(1)]
  let ?fb = "rq_frontBlock (rs_q s)"
  have c: "tl F \<noteq> []" "nb = hd (tl F)" "\<exists>bk. rq_blocks (rs_q s) ?fb = Some bk \<and> bk_front bk = bk_tail bk"
    "\<exists>bk. rq_blocks (rs_q s) nb = Some bk \<and> f = bk_front bk \<and> bk_localTail bk \<noteq> bk_front bk" using r(14) assms(2) by auto
  obtain F' where F: "F = ?fb # nb # F'" using ring_ok_two [OF assms(1) c(1)] c(2) by (metis list.sel(1,3))
  let ?s = "s\<lparr>rs_q := (rs_q s)\<lparr>rq_frontBlock := nb\<rparr>, rs_c := C_read nb f\<rparr>"
  obtain bk where bk: "rq_blocks (rs_q s) ?fb = Some bk" "bk_front bk = bk_tail bk" "block_ok bk" using c(3) r(6) [of ?fb] F by auto
  have it: "items (C_read nb f) = items (rs_c s)" using items_taken [of "C_read nb f" "rs_c s"] assms(2) by auto
  have "items (rs_c s) (rq_blocks (rs_q s)) ?fb = []" using items_empty [of "rq_blocks (rs_q s)" ?fb bk "rs_c s"] bk assms(2) by simp
  then have cont: "concat (map (items (C_read nb f) (rq_blocks (rs_q s))) (nb # F')) = map Some (drop (length (rs_out s)) (rs_in s))"
    using r(10) F it by simp
  have "chain (rq_blocks (rs_q s)) (nb # F' @ E @ [?fb]) nb"
    using r(5) F chain_append [of "rq_blocks (rs_q s)" "nb # F' @ E" "[?fb]" nb] by auto
  moreover have "producer_ok (rs_p s) ((rs_q s)\<lparr>rq_frontBlock := nb\<rparr>) (nb # F') (E @ [?fb])"
    using r(13) F by (cases "rs_p s") auto
  moreover have "bk_front c = bk_tail c" if "b \<in> set (E @ [?fb])" "pending_block (rs_p s) \<noteq> Some b" "rq_blocks (rs_q s) b = Some c" for b c
    using that r(8) [of b c] bk by auto
  ultimately have "ring_ok ?s (nb # F') (E @ [?fb])"
    using r(1-4,6,7,9,11,12) cont c(4) F unfolding ring_ok_def Let_def by (intro conjI) (auto split: if_splits)
  then show ?thesis using assms(2) F by (simp add: dequeue_step_def Let_def)
qed

text \<open>Taking an element: the queue loses its first one.\<close>

lemma consumer_read_ok:
  assumes "ring_ok s F E" "rs_c s = C_read fb f"
  shows "\<exists>s' x. dequeue_step s = Some s' \<and> ring_ok s' F E \<and> rs_out s' = rs_out s @ [x] \<and> rs_in s' = rs_in s"
proof -
  note r = ring_okD [OF assms(1)]
  obtain bk where bk: "rq_blocks (rs_q s) fb = Some bk" "fb = rq_frontBlock (rs_q s)" "f = bk_front bk" "bk_localTail bk \<noteq> bk_front bk"
    using r(14) assms(2) by auto
  have fb: "fb \<in> set F" using ring_ok_front(1) [OF assms(1)] bk(2) by simp
  have ok: "block_ok bk" using r(6) [of fb] fb bk(1) by auto
  then obtain k where lt: "f < bk_size bk" "bk_tail bk < bk_size bk" "bk_localTail bk < bk_size bk" "length (bk_data bk) = bk_size bk"
    using bk(3) by (elim block_okD) auto
  have ne: "f \<noteq> bk_tail bk" using ok bk(3,4) ring_dist_eq_0 [of "bk_front bk" "bk_size bk" "bk_localTail bk"] lt by (auto simp: block_ok_def)
  let ?n = "bk_size bk"
  obtain F' where F: "F = fb # F'" using r(1,3) bk(2) by (cases F) auto
  have notin: "fb \<notin> set F'" using r(2) F by simp
  let ?bk = "bk\<lparr>bk_data := (bk_data bk)[f := None]\<rparr>"
  have hd: "items (rs_c s) (rq_blocks (rs_q s)) fb = bk_data bk ! f # ring_items ?n (ring_next ?n f) (bk_tail bk) (bk_data bk)"
    using ring_items_Cons [of f ?n "bk_tail bk" "bk_data bk"] lt ne bk(1,3) assms(2) by (simp add: items_def eff_front_def)
  let ?abs = "drop (length (rs_out s)) (rs_in s)"
  have abs: "map Some ?abs = bk_data bk ! f # ring_items ?n (ring_next ?n f) (bk_tail bk) (bk_data bk) @ concat (map (items (rs_c s) (rq_blocks (rs_q s))) F')"
    using r(10) F hd by simp
  then obtain x l where l: "?abs = x # l" by (cases ?abs) auto
  then have x: "bk_data bk ! f = Some x" "?abs = x # tl ?abs" using abs by simp_all
  then have rest: "drop (length (rs_out s @ [x])) (rs_in s) = tl ?abs" by (simp add: drop_Suc tl_drop)
  let ?m = "(rq_blocks (rs_q s))(fb \<mapsto> ?bk)" and ?c = "C_front fb f x"
  let ?s = "s\<lparr>rs_q := upd_block fb (\<lambda>bk. bk\<lparr>bk_data := (bk_data bk)[f := None]\<rparr>) (rs_q s), rs_c := ?c, rs_out := rs_out s @ [x]\<rparr>"
  have "items ?c ?m fb = ring_items ?n (ring_next ?n f) (bk_tail bk) (bk_data bk)"
    using ring_items_front_upd [of f ?n "bk_tail bk" "bk_data bk" None] lt ne bk(3) by (simp add: items_def eff_front_def)
  moreover have "items ?c ?m b = items (rs_c s) (rq_blocks (rs_q s)) b" if "b \<in> set F'" for b
    using that notin assms(2) by (auto simp: items_def eff_front_def split: option.splits)
  then have "map (items ?c ?m) F' = map (items (rs_c s) (rq_blocks (rs_q s))) F'" by simp
  ultimately have cont: "concat (map (items ?c ?m) F) = map Some (tl ?abs)"
    using abs x F by (metis (no_types, lifting) concat.simps(2) list.map(2) list.sel(3) map_tl)
  have "ring_ok ?s F E"
  proof (rule ring_ok_upd [OF assms(1) bk(1), of ?s ?bk])
    show "rs_q ?s = (rs_q s)\<lparr>rq_blocks := ?m\<rparr>" by (simp add: upd_block_eq [OF bk(1)])
    show "block_ok ?bk" using ok by (simp add: block_ok_def)
    show "bk_front ?bk \<noteq> bk_tail ?bk" using ne bk(3) by simp
    show "bk_front ?bk = bk_tail ?bk" if "fb \<in> set E" using that fb r(2) by auto
    show "rs_in ?s = rs_out ?s @ drop (length (rs_out ?s)) (rs_in ?s)" using r(9) x(2) rest by (simp del: length_append)
    show "concat (map (items (rs_c ?s) (rq_blocks (rs_q ?s))) F) = map Some (drop (length (rs_out ?s)) (rs_in ?s))"
      using cont rest bk(1) by (simp del: length_append)
    show "producer_ok (rs_p ?s) (rs_q ?s) F E"
      unfolding rw_sys.select_convs rw_sys.update_convs
      by (rule producer_frame [of _ "rs_q s"]) (use r(2,13) ring_ok_front(2) [OF assms(1)] fb bk(1) ne in auto)
    show "consumer_ok (rs_c ?s) (rs_q ?s) (rs_empty ?s) F" using bk by simp
  qed simp_all
  moreover have "dequeue_step s = Some ?s" using assms(2) bk(1) x(1) lt by (simp add: dequeue_step_def Let_def write_cell_def)
  ultimately show ?thesis by auto
qed

lemma consumer_front_ok:
  assumes "ring_ok s F E" "rs_c s = C_front fb f x"
  shows "\<exists>s'. dequeue_step s = Some s' \<and> ring_ok s' F E"
proof -
  note r = ring_okD [OF assms(1)]
  obtain bk where bk: "rq_blocks (rs_q s) fb = Some bk" "fb = rq_frontBlock (rs_q s)" "f = bk_front bk" "bk_localTail bk \<noteq> bk_front bk"
    using r(14) assms(2) by auto
  have fb: "fb \<in> set F" using ring_ok_front(1) [OF assms(1)] bk(2) by simp
  have ok: "block_ok bk" using r(6) [of fb] fb bk(1) by auto
  then obtain k where k: "bk_size bk = 2 ^ k" and lt: "f < bk_size bk" "bk_tail bk < bk_size bk" "bk_localTail bk < bk_size bk"
    using bk(3) by (elim block_okD) auto
  let ?n = "bk_size bk"
  have ne: "f \<noteq> bk_tail bk" using ok bk(3,4) ring_dist_eq_0 [of "bk_front bk" ?n "bk_localTail bk"] lt by (auto simp: block_ok_def)
  have nx: "(f + 1) AND bk_sizeMask bk = ring_next ?n f" using and_mask_next [OF k lt(1)] by simp
  let ?bk = "bk\<lparr>bk_front := ring_next ?n f\<rparr>"
  let ?s = "dequeue_returns (Some x) (s\<lparr>rs_q := upd_block fb (\<lambda>bk. bk\<lparr>bk_front := (f + 1) AND bk_sizeMask bk\<rparr>) (rs_q s)\<rparr>)"
  have q: "rs_q ?s = (rs_q s)\<lparr>rq_blocks := (rq_blocks (rs_q s))(fb \<mapsto> ?bk)\<rparr>"
    using nx by (simp add: dequeue_returns_def upd_block_eq [OF bk(1)])
  have it: "items C_idle ((rq_blocks (rs_q s))(fb \<mapsto> ?bk)) = items (rs_c s) (rq_blocks (rs_q s))"
    using bk(1,3) assms(2) by (auto simp: items_def eff_front_def fun_eq_iff split: option.splits)
  have "ring_ok ?s F E"
  proof (rule ring_ok_upd [OF assms(1) bk(1) q])
    have "ring_dist ?n (ring_next ?n f) (bk_localTail bk) = ring_dist ?n f (bk_localTail bk) - 1"
      "ring_dist ?n (ring_next ?n f) (bk_tail bk) = ring_dist ?n f (bk_tail bk) - 1"
      using ring_dist_next_left lt ne bk(3,4) by metis+
    then show "block_ok ?bk" using ok bk(3) ring_next_lt [OF lt(1)] unfolding block_ok_def by auto
    show "bk_front ?bk \<noteq> bk_tail ?bk" if "fb \<in> set (tl F)" using that r(1-3) bk(2) by (cases F) auto
    show "bk_front ?bk = bk_tail ?bk" if "fb \<in> set E" using that fb r(2) by auto
    show "concat (map (items (rs_c ?s) (rq_blocks (rs_q ?s))) F) = map Some (drop (length (rs_out ?s)) (rs_in ?s))"
      using r(10) it unfolding q by (simp add: dequeue_returns_def)
    have "producer_ok (rs_p s) ((rs_q s)\<lparr>rq_blocks := (rq_blocks (rs_q s))(fb \<mapsto> ?bk)\<rparr>) F E"
      by (rule producer_frame [of _ "rs_q s"]) (use r(2,13) ring_ok_front(2) [OF assms(1)] fb bk(1) in auto)
    then show "producer_ok (rs_p ?s) (rs_q ?s) F E" unfolding q by (simp add: dequeue_returns_def)
  qed (use r(9) in \<open>simp_all add: dequeue_returns_def\<close>)
  then show ?thesis using assms(2) by (simp add: dequeue_step_def Let_def)
qed

section \<open>The producer\<close>

text \<open>The tail block, and a change that only the producer sees.\<close>

lemma ring_ok_tail:
  assumes "ring_ok s F E"
  obtains bk k where "rq_blocks (rs_q s) (rq_tailBlock (rs_q s)) = Some bk" "block_ok bk" "bk_size bk = 2 ^ k" "bk_tail bk < bk_size bk"
    "bk_front bk < bk_size bk" "bk_localFront bk < bk_size bk" "(bk_tail bk + 1) AND bk_sizeMask bk = ring_next (bk_size bk) (bk_tail bk)"
proof -
  obtain bk where bk: "rq_blocks (rs_q s) (rq_tailBlock (rs_q s)) = Some bk" "block_ok bk"
    using ring_okD(6) [OF assms, of "rq_tailBlock (rs_q s)"] ring_ok_front(2) [OF assms] by auto
  from bk(2) obtain k where k: "bk_size bk = 2 ^ k" "bk_tail bk < bk_size bk" "bk_front bk < bk_size bk" "bk_localFront bk < bk_size bk"
    by (elim block_okD) auto
  show ?thesis using that [OF bk k] and_mask_next [OF k(1,2)] by simp
qed

lemma room_iff: "bk_tail bk < bk_size bk \<Longrightarrow> bk_localFront bk < bk_size bk \<Longrightarrow> room bk \<longleftrightarrow> ring_next (bk_size bk) (bk_tail bk) \<noteq> bk_localFront bk"
  using ring_full [of "bk_localFront bk" "bk_size bk" "bk_tail bk"] ring_dist_lt [of "bk_localFront bk" "bk_size bk" "bk_tail bk"]
  by (auto simp: room_def)

lemma inner_enqueue_ok:
  assumes "rw_inv s" "rs_p s = P_idle"
  shows "\<exists>s'. inner_enqueue x ca s = Some s' \<and> rw_inv s'"
proof -
  obtain F E where r: "ring_ok s F E" using assms(1) by (auto simp: rw_inv_def)
  let ?tb = "rq_tailBlock (rs_q s)"
  obtain bk k where bk: "rq_blocks (rs_q s) ?tb = Some bk" "bk_tail bk < bk_size bk" "bk_localFront bk < bk_size bk"
    "(bk_tail bk + 1) AND bk_sizeMask bk = ring_next (bk_size bk) (bk_tail bk)" using ring_ok_tail [OF r] by metis
  let ?nt = "ring_next (bk_size bk) (bk_tail bk)"
  let ?s = "if ?nt \<noteq> bk_localFront bk then s\<lparr>rs_p := P_write x ?tb (bk_tail bk) ?nt\<rparr> else s\<lparr>rs_p := P_front x ca ?tb (bk_tail bk) ?nt\<rparr>"
  have "ring_ok ?s F E"
    by (rule ring_ok_pcs [OF r]) (use assms(2) bk room_iff [OF bk(2,3)] ring_okD(14) [OF r] in auto)
  then have "rw_inv ?s" by (rule rw_invI)
  moreover have "inner_enqueue x ca s = Some ?s" using bk by (simp add: inner_enqueue_def Let_def)
  ultimately show ?thesis by blast
qed

lemma producer_front_ok:
  assumes "ring_ok s F E" "rs_p s = P_front x ca tb t nt"
  shows "\<exists>s'. enqueue_step mem s = Some s' \<and> ring_ok s' F E"
proof -
  note r = ring_okD [OF assms(1)]
  obtain bk where bk: "rq_blocks (rs_q s) tb = Some bk" "tb = rq_tailBlock (rs_q s)" "t = bk_tail bk" "nt = ring_next (bk_size bk) t"
    using r(13) assms(2) by auto
  have tb: "tb \<in> set F" using ring_ok_front(2) [OF assms(1)] bk(2) by simp
  have ok: "block_ok bk" using r(6) [of tb] tb bk(1) by auto
  let ?bk = "bk\<lparr>bk_localFront := bk_front bk\<rparr>"
  let ?p = "if nt \<noteq> bk_front bk then P_write x tb t nt else P_next x ca tb"
  let ?s = "s\<lparr>rs_q := upd_block tb (\<lambda>b. b\<lparr>bk_localFront := bk_front bk\<rparr>) (rs_q s), rs_p := ?p\<rparr>"
  have room: "nt \<noteq> bk_front bk \<Longrightarrow> room ?bk" using room_iff [of ?bk] ok bk(3,4) by (simp add: block_ok_def)
  have "ring_ok ?s F E"
  proof (rule ring_ok_upd [OF assms(1) bk(1), of ?s ?bk])
    show "rs_q ?s = (rs_q s)\<lparr>rq_blocks := (rq_blocks (rs_q s))(tb \<mapsto> ?bk)\<rparr>" by (simp add: upd_block_eq [OF bk(1)])
    show "block_ok ?bk" using ok by (simp add: block_ok_def)
    show "bk_front ?bk \<noteq> bk_tail ?bk" if "tb \<in> set (tl F)" using r(7) [OF that bk(1)] by simp
    show "bk_front ?bk = bk_tail ?bk" if "tb \<in> set E" using that tb r(2) by auto
    show "concat (map (items (rs_c ?s) (rq_blocks (rs_q ?s))) F) = map Some (drop (length (rs_out ?s)) (rs_in ?s))"
      using r(10) items_upd [of "rq_blocks (rs_q s)" tb bk ?bk] bk(1) by simp
    show "producer_ok (rs_p ?s) (rs_q ?s) F E" using bk room by auto
    have "consumer_ok (rs_c s) (rs_q ?s) (rs_empty s) F" by (rule consumer_frame [OF r(14)]) (use bk(1) in auto)
    then show "consumer_ok (rs_c ?s) (rs_q ?s) (rs_empty ?s) F" by simp
  qed (use r(9) assms(2) in simp_all)
  moreover have "enqueue_step mem s = Some ?s" using assms(2) bk(1) by (simp add: enqueue_step_def Let_def)
  ultimately show ?thesis by blast
qed

lemma items_tail_cell:
  assumes "m b = Some bk" "block_ok bk" "bk' = bk\<lparr>bk_data := (bk_data bk)[bk_tail bk := v]\<rparr>"
  shows "items c (m(b \<mapsto> bk')) = items c m"
proof
  fix b'
  have "eff_front c b bk < bk_size bk" using assms(2) ring_next_lt [of "bk_front bk" "bk_size bk"] by (simp add: eff_front_def block_ok_def)
  then show "items c (m(b \<mapsto> bk')) b' = items c m b'"
    using assms ring_items_tail_upd [of "eff_front c b bk" "bk_size bk" "bk_tail bk" "bk_data bk" v]
    by (auto simp: items_def eff_front_def block_ok_def)
qed

text \<open>The element is constructed at the tail of the tail block, or of the next block.\<close>

lemma producer_cell_ok:
  assumes "ring_ok s F E" "b \<in> set (F @ E)" "rq_blocks (rs_q s) b = Some bk" "pending_block (rs_p s) = None" "pending_block p = None"
    and "producer_ok p ((rs_q s)\<lparr>rq_blocks := (rq_blocks (rs_q s))(b \<mapsto> bk\<lparr>bk_data := (bk_data bk)[bk_tail bk := Some x]\<rparr>)\<rparr>) F E"
  shows "\<exists>q. write_cell b (bk_tail bk) (Some x) (rs_q s) = Some q \<and> ring_ok (s\<lparr>rs_q := q, rs_p := p\<rparr>) F E"
proof -
  note r = ring_okD [OF assms(1)]
  have ok: "block_ok bk" using r(6) [OF assms(2)] assms(3) by auto
  let ?bk = "bk\<lparr>bk_data := (bk_data bk)[bk_tail bk := Some x]\<rparr>"
  let ?q = "(rs_q s)\<lparr>rq_blocks := (rq_blocks (rs_q s))(b \<mapsto> ?bk)\<rparr>"
  let ?s = "s\<lparr>rs_q := ?q, rs_p := p\<rparr>"
  have "ring_ok ?s F E"
  proof (rule ring_ok_upd [OF assms(1,3), of ?s ?bk])
    show "block_ok ?bk" using ok by (simp add: block_ok_def)
    show "bk_front ?bk \<noteq> bk_tail ?bk" if "b \<in> set (tl F)" using r(7) [OF that assms(3)] by simp
    show "bk_front ?bk = bk_tail ?bk" if "b \<in> set E" using r(8) [OF that _ assms(3)] assms(4) by simp
    show "concat (map (items (rs_c ?s) (rq_blocks (rs_q ?s))) F) = map Some (drop (length (rs_out ?s)) (rs_in ?s))"
      using r(10) items_tail_cell [of "rq_blocks (rs_q s)" b bk ?bk "Some x"] assms(3) ok by simp
    have "consumer_ok (rs_c s) ?q (rs_empty s) F" by (rule consumer_frame [OF r(14)]) (use assms(3) in auto)
    then show "consumer_ok (rs_c ?s) (rs_q ?s) (rs_empty ?s) F" by simp
  qed (use r(9) assms(4-6) in simp_all)
  moreover have "write_cell b (bk_tail bk) (Some x) (rs_q s) = Some ?q"
    using assms(3) ok by (simp add: write_cell_def upd_block_eq [OF assms(3)] block_ok_def)
  ultimately show ?thesis by blast
qed

lemma producer_write_ok:
  assumes "ring_ok s F E" "rs_p s = P_write x tb t nt"
  shows "\<exists>s'. enqueue_step mem s = Some s' \<and> ring_ok s' F E"
proof -
  note r = ring_okD [OF assms(1)]
  obtain bk where bk: "rq_blocks (rs_q s) tb = Some bk" "tb = rq_tailBlock (rs_q s)" "t = bk_tail bk" "nt = ring_next (bk_size bk) t" "room bk"
    using r(13) assms(2) by auto
  have tb: "tb \<in> set (F @ E)" using ring_ok_front(2) [OF assms(1)] bk(2) by simp
  have ok: "block_ok bk" using r(6) [OF tb] bk(1) by auto
  have "producer_ok (P_tail x tb nt) ((rs_q s)\<lparr>rq_blocks := (rq_blocks (rs_q s))(tb \<mapsto> bk\<lparr>bk_data := (bk_data bk)[bk_tail bk := Some x]\<rparr>)\<rparr>) F E"
    using bk ok by (simp add: room_def block_ok_def)
  from producer_cell_ok [OF assms(1) tb bk(1) _ _ this] assms(2)
  obtain q where "write_cell tb (bk_tail bk) (Some x) (rs_q s) = Some q" "ring_ok (s\<lparr>rs_q := q, rs_p := P_tail x tb nt\<rparr>) F E" by auto
  then show ?thesis using assms(2) bk(3) by (simp add: enqueue_step_def Let_def)
qed

lemma producer_awrite_ok:
  assumes "ring_ok s F E" "rs_p s = P_awrite x nb t"
  shows "\<exists>s'. enqueue_step mem s = Some s' \<and> ring_ok s' F E"
proof -
  note r = ring_okD [OF assms(1)]
  obtain bk where bk: "rq_blocks (rs_q s) nb = Some bk" "E \<noteq> []" "nb = hd E" "t = bk_tail bk" "bk_localFront bk = bk_tail bk"
    using r(13) assms(2) by auto
  have nb: "nb \<in> set (F @ E)" using bk(2,3) by simp
  have ok: "block_ok bk" using r(6) [OF nb] bk(1) by auto
  have "producer_ok (P_atail x nb t) ((rs_q s)\<lparr>rq_blocks := (rq_blocks (rs_q s))(nb \<mapsto> bk\<lparr>bk_data := (bk_data bk)[bk_tail bk := Some x]\<rparr>)\<rparr>) F E"
    using bk ok by (simp add: block_ok_def)
  from producer_cell_ok [OF assms(1) nb bk(1) _ _ this] assms(2)
  obtain q where "write_cell nb (bk_tail bk) (Some x) (rs_q s) = Some q" "ring_ok (s\<lparr>rs_q := q, rs_p := P_atail x nb t\<rparr>) F E" by auto
  then show ?thesis using assms(2) bk(4) by (simp add: enqueue_step_def Let_def)
qed

lemma eff_front_lt: "block_ok bk \<Longrightarrow> eff_front c b bk < bk_size bk"
  using ring_next_lt [of "bk_front bk" "bk_size bk"] by (simp add: eff_front_def block_ok_def)

lemma concat_items_other: "b \<notin> set F \<Longrightarrow> concat (map (items c (m(b := v))) F) = concat (map (items c m) F)"
  by (rule arg_cong [of _ _ concat], rule map_cong) (auto intro: items_other)

text \<open>The tail moves on: the element becomes part of the block, and with it of the queue.\<close>

lemma block_ok_tail:
  assumes "block_ok bk" "room bk"
  shows "block_ok (bk\<lparr>bk_tail := ring_next (bk_size bk) (bk_tail bk)\<rparr>)" "bk_front bk \<noteq> ring_next (bk_size bk) (bk_tail bk)"
    "ring_dist (bk_size bk) (bk_front bk) (bk_tail bk) < bk_sizeMask bk"
proof -
  let ?n = "bk_size bk" and ?t = "bk_tail bk"
  from assms(1) obtain k where lt: "bk_front bk < ?n" "?t < ?n" "bk_localFront bk < ?n" by (elim block_okD) auto
  show d: "ring_dist ?n (bk_front bk) ?t < bk_sizeMask bk" using assms by (auto simp: block_ok_def room_def)
  have "ring_dist ?n (bk_front bk) (ring_next ?n ?t) = Suc (ring_dist ?n (bk_front bk) ?t)"
    "ring_dist ?n (bk_localFront bk) (ring_next ?n ?t) = Suc (ring_dist ?n (bk_localFront bk) ?t)"
    using ring_dist_next_right [OF lt(1,2)] ring_dist_next_right [OF lt(3,2)] d assms(2) by (auto simp: room_def)
  then show "block_ok (bk\<lparr>bk_tail := ring_next ?n ?t\<rparr>)" "bk_front bk \<noteq> ring_next ?n ?t"
    using assms(1) ring_next_lt [OF lt(2)] by (auto simp: block_ok_def)
qed

lemma eff_front_dist:
  assumes "block_ok bk" "taken c b \<Longrightarrow> bk_front bk \<noteq> bk_tail bk"
  shows "ring_dist (bk_size bk) (eff_front c b bk) (bk_tail bk) \<le> ring_dist (bk_size bk) (bk_front bk) (bk_tail bk)"
  using assms ring_dist_next_left [of "bk_front bk" "bk_size bk" "bk_tail bk"] by (auto simp: eff_front_def block_ok_def)

lemma taken_nonempty:
  assumes "ring_ok s F E" "taken (rs_c s) b" "rq_blocks (rs_q s) b = Some bk"
  shows "bk_front bk \<noteq> bk_tail bk"
proof -
  obtain f x where c: "rs_c s = C_front b f x" using assms(2) by (cases "rs_c s") auto
  then have "b = rq_frontBlock (rs_q s)" "bk_localTail bk \<noteq> bk_front bk" using ring_okD(14) [OF assms(1)] assms(3) by auto
  moreover from this have "block_ok bk" using ring_okD(6) [OF assms(1), of b] ring_ok_front(1) [OF assms(1)] assms(3) by auto
  ultimately show ?thesis using ring_dist_eq_0 [of "bk_front bk" "bk_size bk" "bk_localTail bk"] by (auto simp: block_ok_def)
qed

lemma producer_tail_ok:
  assumes "ring_ok s F E" "rs_p s = P_tail x tb nt"
  shows "\<exists>s'. enqueue_step mem s = Some s' \<and> ring_ok s' F E"
proof -
  note r = ring_okD [OF assms(1)]
  obtain bk where bk: "rq_blocks (rs_q s) tb = Some bk" "tb = rq_tailBlock (rs_q s)" "nt = ring_next (bk_size bk) (bk_tail bk)" "room bk"
    "bk_data bk ! bk_tail bk = Some x" using r(13) assms(2) by auto
  have tb: "tb \<in> set F" using ring_ok_front(2) [OF assms(1)] bk(2) by simp
  have ok: "block_ok bk" using r(6) [of tb] tb bk(1) by auto
  note tl = block_ok_tail [OF ok bk(4)]
  let ?bk = "bk\<lparr>bk_tail := nt\<rparr>" and ?c = "rs_c s" and ?M = "rq_blocks (rs_q s)"
  let ?s = "enqueue_returns True (s\<lparr>rs_q := upd_block tb (\<lambda>bk. bk\<lparr>bk_tail := nt\<rparr>) (rs_q s), rs_in := rs_in s @ [x]\<rparr>)"
  have q: "rs_q ?s = (rs_q s)\<lparr>rq_blocks := ?M(tb \<mapsto> ?bk)\<rparr>" by (simp add: enqueue_returns_def upd_block_eq [OF bk(1)])
  have "ring_dist (bk_size bk) (eff_front ?c tb bk) (bk_tail bk) < bk_sizeMask bk"
    using eff_front_dist [OF ok] taken_nonempty [OF assms(1) _ bk(1)] tl(3) by (meson le_less_trans)
  then have "items ?c (?M(tb \<mapsto> ?bk)) tb = items ?c ?M tb @ [Some x]"
    using ring_items_snoc [OF eff_front_lt [OF ok], of "bk_tail bk" ?c tb "bk_data bk"] ok bk(1,3,5)
    by (auto simp: items_def eff_front_def block_ok_def split: if_splits)
  moreover obtain F' where F: "F = F' @ [tb]" using r(1,4) bk(2) by (metis append_butlast_last_id)
  moreover have "concat (map (items ?c (?M(tb \<mapsto> ?bk))) F') = concat (map (items ?c ?M) F')" using r(2) F by (intro concat_items_other) auto
  ultimately have cont: "concat (map (items ?c (?M(tb \<mapsto> ?bk))) F) = map Some (drop (length (rs_out s)) (rs_in s) @ [x])"
    using r(10) by simp
  have out: "drop (length (rs_out s)) (rs_in s @ [x]) = drop (length (rs_out s)) (rs_in s) @ [x]"
    using arg_cong [OF r(9), of length] by simp
  have "ring_ok ?s F E"
  proof (rule ring_ok_upd [OF assms(1) bk(1) q])
    show "block_ok ?bk" using tl(1) bk(3) by simp
    show "bk_front ?bk \<noteq> bk_tail ?bk" using tl(2) bk(3) by simp
    show "bk_front ?bk = bk_tail ?bk" if "tb \<in> set E" using that tb r(2) by auto
    show "rs_in ?s = rs_out ?s @ drop (length (rs_out ?s)) (rs_in ?s)" using r(9) out by (simp add: enqueue_returns_def)
    show "concat (map (items (rs_c ?s) (rq_blocks (rs_q ?s))) F) = map Some (drop (length (rs_out ?s)) (rs_in ?s))"
      unfolding q using cont out by (simp add: enqueue_returns_def)
    have "consumer_ok ?c ((rs_q s)\<lparr>rq_blocks := ?M(tb \<mapsto> ?bk)\<rparr>) (rs_empty s) F"
      by (rule consumer_frame [OF r(14)]) (use bk(1,2) ring_ok_front(4) [OF assms(1)] in auto)
    then show "consumer_ok (rs_c ?s) (rs_q ?s) (rs_empty ?s) F" unfolding q by (simp add: enqueue_returns_def)
  qed (use assms(2) in \<open>simp_all add: enqueue_returns_def\<close>)
  then show ?thesis using assms(2) by (simp add: enqueue_step_def Let_def)
qed

lemma producer_adv_ok:
  assumes "ring_ok s F E" "rs_p s = P_adv x nb"
  shows "\<exists>s'. enqueue_step mem s = Some s' \<and> ring_ok s' F E"
proof -
  note r = ring_okD [OF assms(1)]
  have nb: "E \<noteq> []" "nb = hd E" "nb \<in> set E" using r(13) assms(2) by auto
  obtain bk where bk: "rq_blocks (rs_q s) nb = Some bk" "block_ok bk" using r(6) [of nb] nb(3) by auto
  have e: "bk_front bk = bk_tail bk" using r(8) [OF nb(3) _ bk(1)] assms(2) by simp
  let ?bk = "bk\<lparr>bk_localFront := bk_front bk\<rparr>" and ?M = "rq_blocks (rs_q s)"
  let ?s = "s\<lparr>rs_q := upd_block nb (\<lambda>bk. bk\<lparr>bk_localFront := bk_front bk\<rparr>) (rs_q s), rs_p := P_awrite x nb (bk_tail bk)\<rparr>"
  have "ring_ok ?s F E"
  proof (rule ring_ok_upd [OF assms(1) bk(1), of ?s ?bk])
    show "rs_q ?s = (rs_q s)\<lparr>rq_blocks := ?M(nb \<mapsto> ?bk)\<rparr>" by (simp add: upd_block_eq [OF bk(1)])
    show "block_ok ?bk" using bk(2) by (simp add: block_ok_def)
    show "bk_front ?bk \<noteq> bk_tail ?bk" if "nb \<in> set (tl F)" using that nb(3) r(1,2) by (cases F) auto
    show "concat (map (items (rs_c ?s) (rq_blocks (rs_q ?s))) F) = map Some (drop (length (rs_out ?s)) (rs_in ?s))"
      using r(10) items_upd [of ?M nb bk ?bk] bk(1) by simp
    have "consumer_ok (rs_c s) ((rs_q s)\<lparr>rq_blocks := ?M(nb \<mapsto> ?bk)\<rparr>) (rs_empty s) F" by (rule consumer_frame [OF r(14)]) (use bk(1) in auto)
    then show "consumer_ok (rs_c ?s) (rs_q ?s) (rs_empty ?s) F" by (simp add: upd_block_eq [OF bk(1)])
  qed (use r(9) assms(2) nb bk(1) e in simp_all)
  moreover have "enqueue_step mem s = Some ?s" using assms(2) bk(1) e by (simp add: enqueue_step_def Let_def)
  ultimately show ?thesis by blast
qed

lemma producer_atail_ok:
  assumes "ring_ok s F E" "rs_p s = P_atail x nb t"
  shows "\<exists>s'. enqueue_step mem s = Some s' \<and> ring_ok s' F E"
proof -
  note r = ring_okD [OF assms(1)]
  obtain bk where bk: "rq_blocks (rs_q s) nb = Some bk" "E \<noteq> []" "nb = hd E" "t = bk_tail bk" "bk_localFront bk = bk_tail bk" "bk_data bk ! bk_tail bk = Some x"
    using r(13) assms(2) by auto
  have nb: "nb \<in> set E" using bk(2,3) by simp
  have ok: "block_ok bk" using r(6) [of nb] nb bk(1) by auto
  have e: "bk_front bk = bk_tail bk" using r(8) [OF nb _ bk(1)] assms(2) by simp
  from ok obtain k where k: "bk_size bk = 2 ^ k" "1 \<le> bk_sizeMask bk" "bk_tail bk < bk_size bk" by (elim block_okD) auto
  have room: "room bk" using k(2) by (simp add: room_def bk(5))
  let ?nt = "ring_next (bk_size bk) (bk_tail bk)" and ?M = "rq_blocks (rs_q s)"
  let ?bk = "bk\<lparr>bk_tail := ?nt\<rparr>"
  let ?s = "s\<lparr>rs_q := upd_block nb (\<lambda>bk. bk\<lparr>bk_tail := (t + 1) AND bk_sizeMask bk\<rparr>) (rs_q s), rs_p := P_tb x nb\<rparr>"
  have q: "rs_q ?s = (rs_q s)\<lparr>rq_blocks := ?M(nb \<mapsto> ?bk)\<rparr>" using and_mask_next [OF k(1,3)] bk(4) by (simp add: upd_block_eq [OF bk(1)])
  have only: "holds_only x ?bk"
    using ring_items_snoc [of "bk_tail bk" "bk_size bk" "bk_tail bk" "bk_data bk"] k(2,3) e bk(6) block_ok_tail(2) [OF ok room]
    by (simp add: holds_only_def)
  have notF: "nb \<notin> set F" using nb r(2) by auto
  have "ring_ok ?s F E"
  proof (rule ring_ok_upd [OF assms(1) bk(1) q])
    show "block_ok ?bk" by (rule block_ok_tail(1) [OF ok room])
    show "bk_front ?bk \<noteq> bk_tail ?bk" using block_ok_tail(2) [OF ok room] by simp
    show "concat (map (items (rs_c ?s) (rq_blocks (rs_q ?s))) F) = map Some (drop (length (rs_out ?s)) (rs_in ?s))"
      unfolding q using r(10) by (simp add: concat_items_other [OF notF])
    have "consumer_ok (rs_c s) ((rs_q s)\<lparr>rq_blocks := ?M(nb \<mapsto> ?bk)\<rparr>) (rs_empty s) F"
      by (rule consumer_frame [OF r(14)]) (use bk(1) notF ring_ok_front(1) [OF assms(1)] in auto)
    then show "consumer_ok (rs_c ?s) (rs_q ?s) (rs_empty ?s) F" unfolding q by simp
    show "producer_ok (rs_p ?s) (rs_q ?s) F E" unfolding q using bk(2,3) only by simp
  qed (use r(9) assms(2) in simp_all)
  then show ?thesis using assms(2) by (simp add: enqueue_step_def Let_def)
qed

lemma tail_next:
  assumes "ring_ok s F E"
  obtains bk where "rq_blocks (rs_q s) (rq_tailBlock (rs_q s)) = Some bk" "bk_next bk = Some (hd (E @ [rq_frontBlock (rs_q s)]))"
proof -
  note r = ring_okD [OF assms]
  obtain F' where F: "F = F' @ [rq_tailBlock (rs_q s)]" using r(1,4) by (metis append_butlast_last_id)
  then have "chain (rq_blocks (rs_q s)) ([rq_tailBlock (rs_q s)] @ E) (hd F)"
    using r(5) chain_append [of "rq_blocks (rs_q s)" F' "[rq_tailBlock (rs_q s)] @ E" "hd F"] by simp
  then show ?thesis using that r(3) by auto
qed

text \<open>A block that no one else refers to yet.\<close>

lemma producer_alloc_ok:
  assumes "ring_ok s F E" "rs_p s = P_next x ca tb" "rq_blocks (rs_q s) tb = Some bk" "tb = rq_tailBlock (rs_q s)"
    "n = rq_largestBlockSize (rs_q s) \<or> n = rq_largestBlockSize (rs_q s) * 2"
  defines "nbk \<equiv> first_element x (bk_next bk) (make_block n)"
  shows "ring_ok (s\<lparr>rs_q := (rs_q s)\<lparr>rq_largestBlockSize := n, rq_fresh := Suc (rq_fresh (rs_q s)),
      rq_blocks := (rq_blocks (rs_q s))(rq_fresh (rs_q s) \<mapsto> nbk)\<rparr>, rs_p := P_link x tb (rq_fresh (rs_q s))\<rparr>) F E"
    (is "ring_ok ?s F E") "0 < n"
proof -
  note r = ring_okD [OF assms(1)]
  obtain k where k: "1 \<le> k" "rq_largestBlockSize (rs_q s) = 2 ^ k" using r(12) by blast
  then obtain j where j: "1 \<le> j" "n = 2 ^ j" using assms(5) by (cases "n = 2 ^ k") (auto intro: that [of "Suc k"] that [of k])
  have n: "2 \<le> n" using power_increasing [OF j(1), of "2::nat"] j(2) by simp
  show "0 < n" using n by simp
  let ?b = "rq_fresh (rs_q s)" and ?M = "rq_blocks (rs_q s)"
  have new: "?M ?b = None" using r(11) by simp
  have notin: "?b \<notin> set (F @ E)" using r(6) [of ?b] new by auto
  have "block_ok nbk" using j n by (auto simp: block_ok_def nbk_def first_element_def make_block_def ring_dist_def)
  moreover have "holds_only x nbk" using n by (simp add: holds_only_def nbk_def first_element_def make_block_def ring_items_def ring_dist_def ring_pos_def)
  moreover have "tb \<noteq> ?b" using assms(3) new by auto
  ultimately have prod: "producer_ok (P_link x tb ?b) (rs_q ?s) F E" using assms(3,4) notin by (simp add: nbk_def first_element_def)
  have same: "(?M(?b \<mapsto> nbk)) b = ?M b" if "b \<in> set (F @ E)" for b using that notin by auto
  have ch: "chain (?M(?b \<mapsto> nbk)) (F @ E) (hd F)" by (rule chain_cong [OF _ r(5)]) (use new in auto)
  show "ring_ok ?s F E"
  proof (rule ring_okI)
    show "chain (rq_blocks (rs_q ?s)) (F @ E) (hd F)" using ch by simp
    show "\<exists>bk. rq_blocks (rs_q ?s) b = Some bk \<and> block_ok bk" if "b \<in> set (F @ E)" for b using r(6) [OF that] same [OF that] by simp
    show "bk_front c \<noteq> bk_tail c" if "b \<in> set (tl F)" "rq_blocks (rs_q ?s) b = Some c" for b c
      using that r(7) [of b c] list.set_sel(2) [OF r(1), of b] same [of b] by simp
    show "bk_front c = bk_tail c" if "b \<in> set E" "rq_blocks (rs_q ?s) b = Some c" for b c
      using that r(8) [of b c] same [of b] assms(2) by simp
    show "concat (map (items (rs_c ?s) (rq_blocks (rs_q ?s))) F) = map Some (drop (length (rs_out ?s)) (rs_in ?s))"
      using r(10) concat_items_other [of ?b F "rs_c s" ?M "Some nbk"] notin by simp
    show "rq_blocks (rs_q ?s) b = None" if "rq_fresh (rs_q ?s) \<le> b" for b using that r(11) [of b] by auto
    have "rs_p ?s = P_link x tb ?b" by simp
    then show "producer_ok (rs_p ?s) (rs_q ?s) F E" using prod by (simp only:)
    have "consumer_ok (rs_c s) (rs_q ?s) (rs_empty s) F" by (rule consumer_frame [OF r(14)]) (use new in auto)
    then show "consumer_ok (rs_c ?s) (rs_q ?s) (rs_empty ?s) F" by simp
  qed (use r(1-4,9) j in auto)
qed

lemma producer_next_ok:
  assumes "ring_ok s F E" "rs_p s = P_next x ca tb"
  shows "\<exists>s'. enqueue_step mem s = Some s' \<and> ring_ok s' F E"
proof -
  note r = ring_okD [OF assms(1)]
  have tb: "tb = rq_tailBlock (rs_q s)" using r(13) assms(2) by simp
  let ?nb = "hd (E @ [rq_frontBlock (rs_q s)])"
  obtain bk where bk: "rq_blocks (rs_q s) tb = Some bk" "bk_next bk = Some ?nb" using tail_next [OF assms(1)] tb by blast
  consider "?nb \<noteq> rq_frontBlock (rs_q s)" | "?nb = rq_frontBlock (rs_q s)" "ca" "mem" | "?nb = rq_frontBlock (rs_q s)" "\<not> (ca \<and> mem)" by blast
  then show ?thesis
  proof cases
    case 1
    then have E: "E \<noteq> []" "?nb = hd E" by (cases E; simp)+
    have "ring_ok (s\<lparr>rs_p := P_adv x ?nb\<rparr>) F E" by (rule ring_ok_pcs [OF assms(1)]) (use E assms(2) r(14) in simp_all)
    then show ?thesis using assms(2) bk 1 by (simp add: enqueue_step_def Let_def)
  next
    case 2
    have "new_block_size (rs_q s) = rq_largestBlockSize (rs_q s) \<or> new_block_size (rs_q s) = rq_largestBlockSize (rs_q s) * 2"
      by (simp add: new_block_size_def)
    note new = producer_alloc_ok [OF assms bk(1) tb this]
    have "enqueue_step mem s = enqueue_alloc x tb (bk_next bk) s" using assms(2) bk 2 by (simp add: enqueue_step_def Let_def)
    then show ?thesis using new by (simp add: enqueue_alloc_def Let_def)
  next
    case 3
    have "ring_ok (enqueue_returns False s) F E"
      by (rule ring_ok_pcs [OF assms(1)]) (use assms(2) r(14) in \<open>simp_all add: enqueue_returns_def\<close>)
    then show ?thesis using assms(2) bk 3 by (auto simp: enqueue_step_def Let_def)
  qed
qed

lemma producer_link_ok:
  assumes "ring_ok s F E" "rs_p s = P_link x tb nb"
  shows "\<exists>s'. enqueue_step mem s = Some s' \<and> ring_ok s' F (nb # E)"
proof -
  note r = ring_okD [OF assms(1)]
  obtain bk nbk where bk: "tb = rq_tailBlock (rs_q s)" "nb \<notin> set (F @ E)" "rq_blocks (rs_q s) tb = Some bk" "rq_blocks (rs_q s) nb = Some nbk"
    "bk_next nbk = bk_next bk" "block_ok nbk" "holds_only x nbk" using r(13) assms(2) by auto
  have tb: "tb \<in> set F" using ring_ok_front(2) [OF assms(1)] bk(1) by simp
  have ne: "tb \<noteq> nb" using tb bk(2) by auto
  let ?bk = "bk\<lparr>bk_next := Some nb\<rparr>" and ?M = "rq_blocks (rs_q s)"
  let ?m = "?M(tb \<mapsto> ?bk)"
  let ?s = "s\<lparr>rs_q := (rs_q s)\<lparr>rq_blocks := ?m\<rparr>, rs_p := P_tb x nb\<rparr>"
  obtain F' where F: "F = F' @ [tb]" using r(1,4) bk(1) by (metis append_butlast_last_id)
  have nx: "bk_next bk = Some (hd (E @ [hd F]))" using tail_next [OF assms(1)] bk(1,3) r(3) by force
  have "chain ?m (F' @ tb # nb # E) (hd F)"
  proof -
    have old: "chain ?M F' (hd (tb # E @ [hd F]))" "chain ?M E (hd F)" using r(5) F chain_append [of ?M F' "tb # E" "hd F"] by auto
    have "chain ?m F' tb" using old(1) by (intro chain_cong [of F' ?M ?m]) (use r(2) F in auto)
    moreover have "chain ?m E (hd F)" using old(2) by (intro chain_cong [of E ?M ?m]) (use r(2) F in auto)
    ultimately show ?thesis using bk(4,5) nx ne by (simp add: chain_append)
  qed
  then have ch: "chain ?m (F @ nb # E) (hd F)" using F by simp
  have ok: "block_ok ?bk" using r(6) [of tb] tb bk(3) by (auto simp: block_ok_def)
  have "ring_ok ?s F (nb # E)"
  proof (rule ring_okI)
    show "distinct (F @ nb # E)" using r(2) bk(2) by simp
    show "chain (rq_blocks (rs_q ?s)) (F @ nb # E) (hd F)" using ch by simp
    show "\<exists>bk. rq_blocks (rs_q ?s) b = Some bk \<and> block_ok bk" if "b \<in> set (F @ nb # E)" for b using that r(6) [of b] bk(4,6) ok by auto
    show "bk_front c \<noteq> bk_tail c" if "b \<in> set (tl F)" "rq_blocks (rs_q ?s) b = Some c" for b c
      using that r(7) [of b] bk(3) by (auto split: if_splits)
    show "bk_front c = bk_tail c" if "b \<in> set (nb # E)" "pending_block (rs_p ?s) \<noteq> Some b" "rq_blocks (rs_q ?s) b = Some c" for b c
      using that r(8) [of b c] tb r(2) assms(2) by (auto split: if_splits)
    show "concat (map (items (rs_c ?s) (rq_blocks (rs_q ?s))) F) = map Some (drop (length (rs_out ?s)) (rs_in ?s))"
      using r(10) items_upd [of ?M tb bk ?bk] bk(3) by simp
    show "rq_blocks (rs_q ?s) b = None" if "rq_fresh (rs_q ?s) \<le> b" for b using that r(11) [of b] bk(3) by auto
    show "producer_ok (rs_p ?s) (rs_q ?s) F (nb # E)" using bk(4,7) ne by simp
    have "consumer_ok (rs_c s) ((rs_q s)\<lparr>rq_blocks := ?m\<rparr>) (rs_empty s) F" by (rule consumer_frame [OF r(14)]) (use bk(3) in auto)
    then show "consumer_ok (rs_c ?s) (rs_q ?s) (rs_empty ?s) F" by simp
  qed (use r(1,3,4,9,12) in simp_all)
  then show ?thesis using assms(2) bk(3) by (simp add: enqueue_step_def Let_def upd_block_eq)
qed

lemma producer_tb_ok:
  assumes "ring_ok s F E" "rs_p s = P_tb x nb"
  shows "\<exists>s'. enqueue_step mem s = Some s' \<and> ring_ok s' (F @ [nb]) (tl E)"
proof -
  note r = ring_okD [OF assms(1)]
  obtain E' bk where E: "E = nb # E'" and bk: "rq_blocks (rs_q s) nb = Some bk" "holds_only x bk" using r(13) assms(2) by (cases E) auto
  let ?s = "enqueue_returns True (s\<lparr>rs_q := (rs_q s)\<lparr>rq_tailBlock := nb\<rparr>, rs_in := rs_in s @ [x]\<rparr>)"
  have "nb \<noteq> rq_frontBlock (rs_q s)" using ring_ok_front(1) [OF assms(1)] r(2) E by auto
  then have "\<not> taken (rs_c s) nb" using r(14) by (cases "rs_c s") auto
  then have "items (rs_c s) (rq_blocks (rs_q s)) nb = [Some x]" using bk by (simp add: items_def eff_front_def holds_only_def)
  moreover have out: "drop (length (rs_out s)) (rs_in s @ [x]) = drop (length (rs_out s)) (rs_in s) @ [x]" using arg_cong [OF r(9), of length] by simp
  ultimately have cont: "concat (map (items (rs_c s) (rq_blocks (rs_q s))) (F @ [nb])) = map Some (drop (length (rs_out s)) (rs_in s @ [x]))"
    using r(10) by simp
  have F: "hd (F @ [nb]) = hd F" "tl (F @ [nb]) = tl F @ [nb]" using r(1) by (cases F; simp)+
  have "ring_ok ?s (F @ [nb]) E'"
  proof (rule ring_okI)
    show "bk_front c \<noteq> bk_tail c" if "b \<in> set (tl (F @ [nb]))" "rq_blocks (rs_q ?s) b = Some c" for b c
      using that r(7) [of b c] bk F(2) by (auto simp: holds_only_def enqueue_returns_def)
    show "bk_front c = bk_tail c" if "b \<in> set E'" "rq_blocks (rs_q ?s) b = Some c" for b c
      using that r(2) r(8) [of b c] E assms(2) by (auto simp: enqueue_returns_def)
    show "rs_in ?s = rs_out ?s @ drop (length (rs_out ?s)) (rs_in ?s)" using r(9) out by (simp add: enqueue_returns_def)
    show "concat (map (items (rs_c ?s) (rq_blocks (rs_q ?s))) (F @ [nb])) = map Some (drop (length (rs_out ?s)) (rs_in ?s))"
      using cont by (simp add: enqueue_returns_def)
    show "consumer_ok (rs_c ?s) (rs_q ?s) (rs_empty ?s) (F @ [nb])" using r(14) F by (cases "rs_c s") (auto simp: enqueue_returns_def)
    show "\<exists>bk. rq_blocks (rs_q ?s) b = Some bk \<and> block_ok bk" if "b \<in> set ((F @ [nb]) @ E')" for b
      using r(6) [of b] that E by (simp add: enqueue_returns_def)
    show "rq_blocks (rs_q ?s) b = None" if "rq_fresh (rs_q ?s) \<le> b" for b using r(11) [of b] that by (simp add: enqueue_returns_def)
  qed (use r(1-3,5,12) F E in \<open>simp_all add: enqueue_returns_def\<close>)
  then show ?thesis using assms(2) E by (simp add: enqueue_step_def Let_def)
qed

section \<open>All steps\<close>

lemma enqueue_step_ok:
  assumes "rw_inv s"
  shows "\<exists>s'. enqueue_step mem s = Some s' \<and> rw_inv s'"
proof -
  obtain F E where r: "ring_ok s F E" using assms by (auto simp: rw_inv_def)
  show ?thesis
  proof (cases "rs_p s")
    case P_idle
    then show ?thesis using assms by (simp add: enqueue_step_def)
  qed (auto intro: rw_invI dest!: producer_front_ok [OF r, where mem = mem] producer_write_ok [OF r, where mem = mem]
      producer_tail_ok [OF r, where mem = mem] producer_next_ok [OF r, where mem = mem] producer_adv_ok [OF r, where mem = mem]
      producer_awrite_ok [OF r, where mem = mem] producer_atail_ok [OF r, where mem = mem] producer_link_ok [OF r, where mem = mem]
      producer_tb_ok [OF r, where mem = mem])
qed

lemma dequeue_step_ok:
  assumes "rw_inv s"
  shows "\<exists>s'. dequeue_step s = Some s' \<and> rw_inv s'"
proof -
  obtain F E where r: "ring_ok s F E" using assms by (auto simp: rw_inv_def)
  show ?thesis
  proof (cases "rs_c s")
    case C_idle
    then show ?thesis using assms by (simp add: dequeue_step_def)
  qed (auto intro: rw_invI dest!: consumer_tail_ok [OF r] consumer_tb_ok [OF r] consumer_recheck_ok [OF r] consumer_next_ok [OF r]
      consumer_ntail_ok [OF r] consumer_adv_ok [OF r] consumer_read_ok [OF r] consumer_front_ok [OF r])
qed

lemma rw_do_ok:
  assumes "rw_inv s" "rw_can s op"
  shows "\<exists>s'. rw_do op s = Some s' \<and> rw_inv s'"
proof (cases op)
  case (Enqueue x ca)
  then have "rs_p s = P_idle" using assms(2) by (auto split: ppc.splits)
  then show ?thesis using inner_enqueue_ok [OF assms(1)] Enqueue by simp
next
  case Try_dequeue
  then have "rs_c s = C_idle" using assms(2) by (auto split: cpc.splits)
  then show ?thesis using try_dequeue_ok [OF assms(1)] Try_dequeue by simp
qed (use enqueue_step_ok [OF assms(1)] dequeue_step_ok [OF assms(1)] in simp_all)

section \<open>The constructor\<close>

lemma ceilToPow2_top:
  assumes "2 ^ m \<le> unat y" "unat y < 2 ^ Suc m"
  shows "ceilToPow2 (y + 1) = 2 ^ Suc m"
proof -
  define x1 where "x1 = y OR drop_bit 1 y"
  define x2 where "x2 = x1 OR drop_bit 2 x1"
  define x4 where "x4 = x2 OR drop_bit 4 x2"
  define x8 where "x8 = x4 OR drop_bit 8 x4"
  define x16 where "x16 = x8 OR drop_bit 16 x8"
  define x32 where "x32 = x16 OR drop_bit 32 x16"
  have b1: "bit x1 i \<longleftrightarrow> (\<exists>j<2. bit y (i + j))" for i unfolding x1_def by (rule smear_first)
  have b2: "bit x2 i \<longleftrightarrow> (\<exists>j<4. bit y (i + j))" for i using smear_step [of x1 2 y i] b1 by (simp add: x2_def)
  have b4: "bit x4 i \<longleftrightarrow> (\<exists>j<8. bit y (i + j))" for i using smear_step [of x2 4 y i] b2 by (simp add: x4_def)
  have b8: "bit x8 i \<longleftrightarrow> (\<exists>j<16. bit y (i + j))" for i using smear_step [of x4 8 y i] b4 by (simp add: x8_def)
  have b16: "bit x16 i \<longleftrightarrow> (\<exists>j<32. bit y (i + j))" for i using smear_step [of x8 16 y i] b8 by (simp add: x16_def)
  have b32: "bit x32 i \<longleftrightarrow> (\<exists>j<LENGTH(64). bit y (i + j))" for i using smear_step [of x16 32 y i] b16 by (simp add: x32_def)
  have "ceilToPow2 (y + 1) = x32 + 1" by (simp add: ceilToPow2_def x32_def x16_def x8_def x4_def x2_def x1_def Let_def)
  then show ?thesis using smeared_succ [OF b32 assms] by simp
qed

lemma ceilToPow2_pow:
  assumes "1 \<le> unat x" "unat x \<le> 2 ^ 63"
  obtains k where "unat (ceilToPow2 x) = 2 ^ k" "unat x \<le> 2 ^ k" "2 ^ k < 2 * unat x"
proof -
  show ?thesis
  proof (rule round_up_pow [of ceilToPow2 x])
    show "ceilToPow2 (y + 1) = 2 ^ Suc m" if "2 ^ m \<le> unat y" "unat y < 2 ^ Suc m" for y m by (rule ceilToPow2_top [OF that])
    show "ceilToPow2 1 = 1" by (simp add: ceilToPow2_def)
    show "unat x \<le> 2 ^ (LENGTH(64) - 1)" using assms(2) by simp
  qed (use assms(1) that in blast)+
qed

lemma init_blocks_nth:
  "init_blocks n i = (if i < n then Some ((make_block MAX_BLOCK_SIZE)\<lparr>bk_next := Some (if Suc i = n then 0 else Suc i)\<rparr>) else None)"
  by (induction n arbitrary: i) (auto simp: Let_def)

lemma chain_upt:
  assumes "\<And>i. j \<le> i \<Longrightarrow> i < n \<Longrightarrow> \<exists>bk. m i = Some bk \<and> bk_next bk = Some (if Suc i = n then e else Suc i)"
  shows "chain m [j..<n] e"
  using assms
proof (induction "n - j" arbitrary: j)
  case (Suc d)
  then have j: "j < n" by simp
  have "chain m [Suc j..<n] e" by (rule Suc.hyps(1)) (use Suc.hyps(2) Suc.prems in auto)
  moreover have "hd ([Suc j..<n] @ [e]) = (if Suc j = n then e else Suc j)" using j by (cases "Suc j = n") (auto simp: upt_conv_Cons)
  ultimately show ?case using Suc.prems [of j] j by (simp add: upt_conv_Cons)
qed simp

lemma make_block_ok: "1 \<le> k \<Longrightarrow> block_ok ((make_block (2 ^ k))\<lparr>bk_next := v\<rparr>)"
  by (auto simp: block_ok_def make_block_def)

lemma start_ok:
  assumes "0 < n" "\<And>i. i < n \<Longrightarrow> m i = Some ((make_block (2 ^ k))\<lparr>bk_next := Some (if Suc i = n then 0 else Suc i)\<rparr>)" "\<And>i. n \<le> i \<Longrightarrow> m i = None"
    "1 \<le> k" "1 \<le> j"
  shows "rw_inv (rw_start \<lparr>rq_blocks = m, rq_fresh = n, rq_frontBlock = 0, rq_tailBlock = 0, rq_largestBlockSize = 2 ^ j\<rparr>)" (is "rw_inv (rw_start ?q)")
proof (rule rw_invI)
  show "ring_ok (rw_start ?q) [0] [1..<n]"
  proof (rule ring_okI)
    have "chain m [0..<n] 0" by (rule chain_upt) (use assms(2) in auto)
    moreover have "[0..<n] = [0] @ [1..<n]" using assms(1) by (simp add: upt_conv_Cons)
    ultimately show "chain (rq_blocks (rs_q (rw_start ?q))) ([0] @ [1..<n]) (hd [0])" by (simp add: rw_start_def)
    show "\<exists>bk. rq_blocks (rs_q (rw_start ?q)) b = Some bk \<and> block_ok bk" if "b \<in> set ([0] @ [1..<n])" for b
      using that assms(1) assms(2) [of b] make_block_ok [OF assms(4)] by (auto simp: rw_start_def)
    show "bk_front bk = bk_tail bk" if "b \<in> set [1..<n]" "rq_blocks (rs_q (rw_start ?q)) b = Some bk" for b bk
      using that assms(2) [of b] by (auto simp: rw_start_def make_block_def)
    show "concat (map (items (rs_c (rw_start ?q)) (rq_blocks (rs_q (rw_start ?q)))) [0]) = map Some (drop (length (rs_out (rw_start ?q))) (rs_in (rw_start ?q)))"
      using assms(2) [OF assms(1)] by (simp add: rw_start_def items_def eff_front_def make_block_def)
  qed (use assms(3,5) in \<open>auto simp: rw_start_def\<close>)
qed

lemma new_rw_queue_ok:
  assumes "0 < maxSize" "unat maxSize < 2 ^ 63"
  shows "\<exists>q. new_rw_queue maxSize = Some q \<and> rw_inv (rw_start q)"
proof -
  have "unat (maxSize + 1) = unat maxSize + 1" using assms(2) by (simp add: unat_plus_if_size word_size)
  moreover from this assms obtain k where k: "unat (ceilToPow2 (maxSize + 1)) = 2 ^ k" "unat (maxSize + 1) \<le> 2 ^ k"
    using ceilToPow2_pow [of "maxSize + 1"] by auto
  moreover have "0 < unat maxSize" using assms(1) by (simp add: unat_gt_0 word_gt_0)
  ultimately have "1 \<le> k" by (cases k) auto
  show ?thesis
  proof (cases "2 ^ k > MAX_BLOCK_SIZE * 2")
    case True
    let ?n = "(unat maxSize + MAX_BLOCK_SIZE * 2 - 3) div (MAX_BLOCK_SIZE - 1)"
    have "0 < ?n" by (simp add: MAX_BLOCK_SIZE_def div_greater_zero_iff)
    then have "rw_inv (rw_start \<lparr>rq_blocks = init_blocks ?n, rq_fresh = ?n, rq_frontBlock = 0, rq_tailBlock = 0, rq_largestBlockSize = 2 ^ 9\<rparr>)"
      by (rule start_ok [where k = 9]) (auto simp: init_blocks_nth MAX_BLOCK_SIZE_def)
    then show ?thesis using True k(1) assms(1) by (simp add: new_rw_queue_def Let_def MAX_BLOCK_SIZE_def)
  next
    case False
    have "rw_inv (rw_start \<lparr>rq_blocks = [0 \<mapsto> (make_block (2 ^ k))\<lparr>bk_next := Some 0\<rparr>], rq_fresh = 1, rq_frontBlock = 0, rq_tailBlock = 0, rq_largestBlockSize = 2 ^ k\<rparr>)"
      by (rule start_ok [where k = k]) (use \<open>1 \<le> k\<close> in auto)
    then show ?thesis using False k(1) assms(1) by (simp add: new_rw_queue_def Let_def)
  qed
qed

end
