(* ===== verification/RwProps.thy ===== *)
theory RwProps
  imports RwSteps
begin

text \<open>
  The properties of the reader-writer queue: its steps are safe in every order, it is a first-in first-out queue, each call
  ends after a bounded number of steps of its own thread, and a call that is not disturbed returns the right result.
\<close>

section \<open>The system and its specification\<close>

definition rw_reachable :: "size_t \<Rightarrow> 'a rw_sys \<Rightarrow> bool" where
  "rw_reachable maxSize s \<longleftrightarrow> 0 < maxSize \<and> unat maxSize < 2 ^ 63 \<and>
     (\<exists>q. new_rw_queue maxSize = Some q \<and> reaches rw_can rw_do (rw_start q) s)"

lemma rw_system: "rw_inv (rw_start q) \<Longrightarrow> step_system rw_can rw_do (rw_start q) rw_inv"
  by unfold_locales (simp_all add: rw_do_ok)

lemma rw_reachable_inv:
  fixes s :: "'a rw_sys"
  shows "rw_reachable maxSize s \<Longrightarrow> rw_inv s"
proof -
  assume "rw_reachable maxSize s"
  then obtain q where q: "0 < maxSize" "unat maxSize < 2 ^ 63" "new_rw_queue maxSize = Some q" "reaches rw_can rw_do (rw_start q) s"
    by (auto simp: rw_reachable_def)
  have "rw_inv (rw_start q)" using new_rw_queue_ok [OF q(1,2), where 'a = 'a] q(3) by simp
  then show "rw_inv s" using step_system.reaches_invar [OF rw_system] q(4) by blast
qed

text \<open>The queue that the two threads share, as a list, and what a queue may do.\<close>

definition rw_abs :: "'a rw_sys \<Rightarrow> 'a list" where
  "rw_abs s = drop (length (rs_out s)) (rs_in s)"

datatype 'a queue_event = Tau | Enq 'a | Deq 'a

fun queue_step :: "'a queue_event \<Rightarrow> 'a list \<Rightarrow> 'a list option" where
  "queue_step Tau xs = Some xs"
| "queue_step (Enq x) xs = Some (xs @ [x])"
| "queue_step (Deq x) xs = (case xs of [] \<Rightarrow> None | y # ys \<Rightarrow> if y = x then Some ys else None)"

text \<open>
  The event of a step. An element is in the queue when \<open>enqueue\<close> writes \<open>tail\<close> of the tail block, or \<open>tailBlock\<close>; it is out of
  it when \<open>try_dequeue\<close> takes it.
\<close>

fun rw_event :: "'a rw_op \<Rightarrow> 'a rw_sys \<Rightarrow> 'a queue_event" where
  "rw_event (Producer mem) s = (case rs_p s of P_tail x tb nt \<Rightarrow> Enq x | P_tb x nb \<Rightarrow> Enq x | _ \<Rightarrow> Tau)"
| "rw_event Consumer s =
     (case rs_c s of
        C_read fb f \<Rightarrow> (case rq_blocks (rs_q s) fb of
                          None \<Rightarrow> Tau
                        | Some bk \<Rightarrow> (case bk_data bk ! f of None \<Rightarrow> Tau | Some x \<Rightarrow> Deq x))
      | _ \<Rightarrow> Tau)"
| "rw_event (Enqueue x ca) s = Tau"
| "rw_event Try_dequeue s = Tau"

section \<open>Steps and the queue\<close>

fun p_rank :: "'a ppc \<Rightarrow> nat" where
  "p_rank P_idle = 0" | "p_rank (P_tail x tb nt) = 1" | "p_rank (P_tb x nb) = 1" | "p_rank (P_write x tb t nt) = 2"
| "p_rank (P_link x tb nb) = 2" | "p_rank (P_atail x nb t) = 2" | "p_rank (P_awrite x nb t) = 3" | "p_rank (P_adv x nb) = 4"
| "p_rank (P_next x ca tb) = 5" | "p_rank (P_front x ca tb t nt) = 6"

lemma rw_inv_hist: "rw_inv s \<Longrightarrow> rs_in s = rs_out s @ rw_abs s"
  unfolding rw_inv_def rw_abs_def using ring_okD(9) by blast

lemma enqueue_alloc_hist:
  assumes "enqueue_alloc x tb nx s = Some s'"
  shows "rs_out s' = rs_out s" "rs_c s' = rs_c s" "rs_cres s' = rs_cres s" "rs_empty s' = rs_empty s" "rs_in s' = rs_in s" "p_rank (rs_p s') = 2"
  using assms by (auto simp: enqueue_alloc_def Let_def split: if_splits)

lemma enqueue_next_cases:
  assumes "enqueue_step mem s = Some s'" "rs_p s = P_next x ca tb"
  obtains nb where "s' = s\<lparr>rs_p := P_adv x nb\<rparr>" | nx where "enqueue_alloc x tb nx s = Some s'" | "s' = enqueue_returns False s"
  using assms by (auto simp: enqueue_step_def Let_def bind_eq_Some_conv simp del: split_paired_Ex split: if_splits)

lemma enqueue_step_hist:
  assumes "enqueue_step mem s = Some s'"
  shows "rs_out s' = rs_out s" "rs_c s' = rs_c s" "rs_cres s' = rs_cres s" "rs_empty s' = rs_empty s"
    "rs_in s' = (case rs_p s of P_tail x tb nt \<Rightarrow> rs_in s @ [x] | P_tb x nb \<Rightarrow> rs_in s @ [x] | _ \<Rightarrow> rs_in s)"
proof -
  have "rs_out s' = rs_out s \<and> rs_c s' = rs_c s \<and> rs_cres s' = rs_cres s \<and> rs_empty s' = rs_empty s \<and>
    rs_in s' = (case rs_p s of P_tail x tb nt \<Rightarrow> rs_in s @ [x] | P_tb x nb \<Rightarrow> rs_in s @ [x] | _ \<Rightarrow> rs_in s)"
  proof (cases "rs_p s")
    case (P_next x ca tb)
    with assms show ?thesis by (elim enqueue_next_cases) (auto simp: enqueue_returns_def dest: enqueue_alloc_hist)
  qed (use assms in \<open>auto simp: enqueue_step_def enqueue_returns_def Let_def bind_eq_Some_conv split: if_splits\<close>)
  then show "rs_out s' = rs_out s" "rs_c s' = rs_c s" "rs_cres s' = rs_cres s" "rs_empty s' = rs_empty s"
    "rs_in s' = (case rs_p s of P_tail x tb nt \<Rightarrow> rs_in s @ [x] | P_tb x nb \<Rightarrow> rs_in s @ [x] | _ \<Rightarrow> rs_in s)" by blast+
qed

lemma dequeue_step_hist:
  assumes "dequeue_step s = Some s'"
  shows "rs_in s' = rs_in s" "rs_p s' = rs_p s" "rs_pres s' = rs_pres s"
    "rs_c s = C_read fb f \<Longrightarrow> \<exists>x bk. rq_blocks (rs_q s) fb = Some bk \<and> bk_data bk ! f = Some x \<and> rs_out s' = rs_out s @ [x] \<and> rs_c s' = C_front fb f x"
    "\<nexists>fb f. rs_c s = C_read fb f \<Longrightarrow> rs_out s' = rs_out s"
proof -
  have "rs_in s' = rs_in s \<and> rs_p s' = rs_p s \<and> rs_pres s' = rs_pres s \<and> ((\<nexists>fb f. rs_c s = C_read fb f) \<longrightarrow> rs_out s' = rs_out s)"
    using assms by (cases "rs_c s") (auto simp: dequeue_step_def dequeue_returns_def Let_def bind_eq_Some_conv split: if_splits)
  then show "rs_in s' = rs_in s" "rs_p s' = rs_p s" "rs_pres s' = rs_pres s" "\<nexists>fb f. rs_c s = C_read fb f \<Longrightarrow> rs_out s' = rs_out s" by blast+
  show "\<exists>x bk. rq_blocks (rs_q s) fb = Some bk \<and> bk_data bk ! f = Some x \<and> rs_out s' = rs_out s @ [x] \<and> rs_c s' = C_front fb f x"
    if "rs_c s = C_read fb f" using assms that by (auto simp: dequeue_step_def Let_def bind_eq_Some_conv split: if_splits)
qed

lemma consumer_takes_head:
  assumes "rw_inv s" "dequeue_step s = Some s'" "rs_c s = C_read fb f"
  shows "\<exists>x bk. rq_blocks (rs_q s) fb = Some bk \<and> bk_data bk ! f = Some x \<and> rs_c s' = C_front fb f x \<and> rw_abs s = x # rw_abs s' \<and> rs_out s' = rs_out s @ [x]"
proof -
  obtain x bk where x: "rq_blocks (rs_q s) fb = Some bk" "bk_data bk ! f = Some x" "rs_out s' = rs_out s @ [x]" "rs_c s' = C_front fb f x"
    using dequeue_step_hist(4) [OF assms(2,3)] by blast
  have "rw_inv s'" using dequeue_step_ok [OF assms(1)] assms(2) by simp
  then have "rs_in s = rs_out s @ x # rw_abs s'" using rw_inv_hist [of s'] x(3) dequeue_step_hist(1) [OF assms(2)] by simp
  then have "rw_abs s = x # rw_abs s'" using rw_inv_hist [OF assms(1)] by simp
  then show ?thesis using x by blast
qed

lemma queue_refined:
  assumes "rw_inv s" "rw_do op s = Some s'" "rw_inv s'"
  shows "queue_step (rw_event op s) (rw_abs s) = Some (rw_abs s')"
proof (cases op)
  case (Producer mem)
  then have e: "enqueue_step mem s = Some s'" using assms(2) by simp
  have "rs_out s @ rw_abs s' = (case rs_p s of P_tail x tb nt \<Rightarrow> rs_in s @ [x] | P_tb x nb \<Rightarrow> rs_in s @ [x] | _ \<Rightarrow> rs_in s)"
    using rw_inv_hist [OF assms(3)] enqueue_step_hist [OF e] by simp
  then show ?thesis using Producer rw_inv_hist [OF assms(1)] by (auto split: ppc.splits)
next
  case Consumer
  then have d: "dequeue_step s = Some s'" using assms(2) by simp
  show ?thesis
  proof (cases "\<exists>fb f. rs_c s = C_read fb f")
    case True
    then show ?thesis using consumer_takes_head [OF assms(1) d] Consumer by fastforce
  next
    case False
    then have "rs_out s' = rs_out s" using dequeue_step_hist(5) [OF d] by blast
    then have "rw_abs s' = rw_abs s" using dequeue_step_hist(1) [OF d] by (simp add: rw_abs_def)
    then show ?thesis using Consumer False by (auto split: cpc.splits)
  qed
qed (use assms(2) in \<open>auto simp: inner_enqueue_def try_dequeue_def rw_abs_def Let_def bind_eq_Some_conv split: if_splits\<close>)

section \<open>Bounded calls\<close>

fun c_rank :: "'a cpc \<Rightarrow> nat" where
  "c_rank C_idle = 0" | "c_rank (C_front fb f x) = 1" | "c_rank (C_read fb f) = 2" | "c_rank (C_adv nb f) = 3"
| "c_rank (C_ntail nb) = 4" | "c_rank (C_next fb) = 5" | "c_rank C_recheck = 6" | "c_rank (C_tb fb) = 7" | "c_rank (C_tail fb f) = 8"

lemma p_rank_step: "enqueue_step mem s = Some s' \<Longrightarrow> p_rank (rs_p s') \<le> p_rank (rs_p s) - 1"
proof (cases "rs_p s")
  case (P_next x ca tb)
  assume "enqueue_step mem s = Some s'"
  from this P_next show ?thesis by (rule enqueue_next_cases) (use P_next in \<open>auto simp: enqueue_returns_def dest: enqueue_alloc_hist\<close>)
qed (auto simp: enqueue_step_def enqueue_returns_def Let_def bind_eq_Some_conv split: if_splits)

lemma c_rank_step: "dequeue_step s = Some s' \<Longrightarrow> c_rank (rs_c s') \<le> c_rank (rs_c s) - 1"
  by (cases "rs_c s"; auto simp: dequeue_step_def dequeue_returns_def Let_def bind_eq_Some_conv split: if_splits)

lemma p_rank_0: "p_rank p = 0 \<longleftrightarrow> p = P_idle" "p_rank p \<le> 6"
  by (cases p; simp)+

lemma c_rank_0: "c_rank c = 0 \<longleftrightarrow> c = C_idle" "c_rank c \<le> 8"
  by (cases c; simp)+

section \<open>Runs\<close>

fun rw_run :: "'a rw_op list \<Rightarrow> 'a rw_sys \<Rightarrow> 'a rw_sys option" where
  "rw_run [] s = Some s"
| "rw_run (op # ops) s = (if rw_can s op then do { s1 \<leftarrow> rw_do op s; rw_run ops s1 } else None)"

fun is_producer :: "'a rw_op \<Rightarrow> bool" where
  "is_producer (Producer mem) = True" | "is_producer op = False"

fun is_consumer :: "'a rw_op \<Rightarrow> bool" where
  "is_consumer Consumer = True" | "is_consumer op = False"

fun is_enqueue :: "'a rw_op \<Rightarrow> bool" where
  "is_enqueue (Enqueue x ca) = True" | "is_enqueue op = False"

fun is_dequeue :: "'a rw_op \<Rightarrow> bool" where
  "is_dequeue Try_dequeue = True" | "is_dequeue op = False"

lemma call_other: "inner_enqueue x ca s = Some s' \<Longrightarrow> rs_c s' = rs_c s" "try_dequeue s = Some s' \<Longrightarrow> rs_p s' = rs_p s"
  by (auto simp: inner_enqueue_def try_dequeue_def Let_def bind_eq_Some_conv)

lemma producer_run_rank:
  "rw_run ops s = Some s' \<Longrightarrow> list_all (\<lambda>op. \<not> is_enqueue op) ops \<Longrightarrow> p_rank (rs_p s') \<le> p_rank (rs_p s) - length (filter is_producer ops)"
proof (induction ops arbitrary: s)
  case (Cons op ops)
  then obtain s1 where s1: "rw_do op s = Some s1" "rw_run ops s1 = Some s'" by (auto simp: bind_eq_Some_conv split: if_splits)
  have "p_rank (rs_p s1) \<le> p_rank (rs_p s) - length (filter is_producer [op])"
    using s1(1) Cons.prems(2) p_rank_step dequeue_step_hist(2) call_other(2) by (cases op) fastforce+
  then show ?case using Cons.IH [OF s1(2)] Cons.prems(2) by (auto split: if_splits)
qed simp

lemma consumer_run_rank:
  "rw_run ops s = Some s' \<Longrightarrow> list_all (\<lambda>op. \<not> is_dequeue op) ops \<Longrightarrow> c_rank (rs_c s') \<le> c_rank (rs_c s) - length (filter is_consumer ops)"
proof (induction ops arbitrary: s)
  case (Cons op ops)
  then obtain s1 where s1: "rw_do op s = Some s1" "rw_run ops s1 = Some s'" by (auto simp: bind_eq_Some_conv split: if_splits)
  have "c_rank (rs_c s1) \<le> c_rank (rs_c s) - length (filter is_consumer [op])"
    using s1(1) Cons.prems(2) c_rank_step enqueue_step_hist(2) call_other(1) by (cases op) fastforce+
  then show ?case using Cons.IH [OF s1(2)] Cons.prems(2) by (auto split: if_splits)
qed simp

section \<open>A call on its own\<close>

text \<open>What the consumer has done of a \<open>try_dequeue\<close> that began on the queue \<open>xs\<close>.\<close>

fun dequeue_of :: "'a list \<Rightarrow> 'a rw_sys \<Rightarrow> 'a cpc \<Rightarrow> bool" where
  "dequeue_of xs s C_idle = (rs_cres s = Some (case xs of [] \<Rightarrow> None | x # _ \<Rightarrow> Some x) \<and> rw_abs s = tl xs)"
| "dequeue_of xs s (C_front fb f x) = (xs = x # rw_abs s)"
| "dequeue_of xs s (C_tb fb) = (rw_abs s = xs \<and> rs_empty s = (xs = []))"
| "dequeue_of xs s c = (rw_abs s = xs)"

lemma empty_answer:
  assumes "rw_inv s" "rs_c s = C_tb (rq_tailBlock (rs_q s))"
  shows "rs_empty s"
proof -
  obtain F E where r: "ring_ok s F E" using assms(1) by (auto simp: rw_inv_def)
  then have "rq_frontBlock (rs_q s) = rq_tailBlock (rs_q s)" "tl F = [] \<longrightarrow> rs_empty s" using ring_okD(14) [OF r] assms(2) by auto
  then show ?thesis using ring_ok_front(4) [OF r] by auto
qed

lemma dequeue_of_step:
  assumes "rw_inv s" "dequeue_of xs s (rs_c s)" "dequeue_step s = Some s'"
  shows "dequeue_of xs s' (rs_c s')"
proof (cases "rs_c s")
  case (C_tb fb)
  have "rs_empty s" if "fb = rq_tailBlock (rs_q s)" using empty_answer [OF assms(1)] that C_tb by simp
  then show ?thesis
    using assms(2,3) C_tb by (auto simp: dequeue_step_def dequeue_returns_def rw_abs_def Let_def split: if_splits list.splits)
next
  case (C_read fb f)
  then show ?thesis using consumer_takes_head [OF assms(1,3)] assms(2) by force
next
  case (C_tail fb f)
  have "(rs_in s = rs_out s) = (rw_abs s = [])" using rw_inv_hist [OF assms(1)] by (metis append_Nil2 append_self_conv)
  then show ?thesis
    using assms(2,3) C_tail by (auto simp: dequeue_step_def rw_abs_def Let_def bind_eq_Some_conv split: if_splits)
qed (use assms(2,3) in \<open>auto simp: dequeue_step_def dequeue_returns_def rw_abs_def Let_def bind_eq_Some_conv split: if_splits\<close>)

fun consumer_run :: "nat \<Rightarrow> 'a rw_sys \<Rightarrow> 'a rw_sys option" where
  "consumer_run 0 s = Some s"
| "consumer_run (Suc n) s = do { s1 \<leftarrow> dequeue_step s; consumer_run n s1 }"

lemma consumer_run_ok:
  "rw_inv s \<Longrightarrow> dequeue_of xs s (rs_c s) \<Longrightarrow> c_rank (rs_c s) \<le> n \<Longrightarrow>
   \<exists>s'. consumer_run n s = Some s' \<and> rw_inv s' \<and> rs_c s' = C_idle \<and> dequeue_of xs s' C_idle"
proof (induction n arbitrary: s)
  case 0
  then show ?case using c_rank_0(1) [of "rs_c s"] by auto
next
  case (Suc n)
  obtain s1 where s1: "dequeue_step s = Some s1" "rw_inv s1" using dequeue_step_ok [OF Suc.prems(1)] by blast
  have "dequeue_of xs s1 (rs_c s1)" by (rule dequeue_of_step [OF Suc.prems(1,2) s1(1)])
  moreover have "c_rank (rs_c s1) \<le> n" using c_rank_step [OF s1(1)] Suc.prems(3) by simp
  ultimately show ?case using Suc.IH [OF s1(2)] s1(1) by simp
qed

text \<open>The same for the producer, when it may allocate.\<close>

fun enqueue_of :: "'a \<Rightarrow> 'a list \<Rightarrow> 'a rw_sys \<Rightarrow> 'a ppc \<Rightarrow> bool" where
  "enqueue_of y xs s P_idle = (rs_pres s = Some True \<and> rs_in s = xs @ [y])"
| "enqueue_of y xs s (P_front x ca tb t nt) = (x = y \<and> ca \<and> rs_in s = xs)"
| "enqueue_of y xs s (P_write x tb t nt) = (x = y \<and> rs_in s = xs)"
| "enqueue_of y xs s (P_tail x tb nt) = (x = y \<and> rs_in s = xs)"
| "enqueue_of y xs s (P_next x ca tb) = (x = y \<and> ca \<and> rs_in s = xs)"
| "enqueue_of y xs s (P_adv x nb) = (x = y \<and> rs_in s = xs)"
| "enqueue_of y xs s (P_awrite x nb t) = (x = y \<and> rs_in s = xs)"
| "enqueue_of y xs s (P_atail x nb t) = (x = y \<and> rs_in s = xs)"
| "enqueue_of y xs s (P_link x tb nb) = (x = y \<and> rs_in s = xs)"
| "enqueue_of y xs s (P_tb x nb) = (x = y \<and> rs_in s = xs)"

lemma enqueue_of_step:
  assumes "enqueue_of y xs s (rs_p s)" "rs_p s \<noteq> P_idle" "enqueue_step True s = Some s'"
  shows "enqueue_of y xs s' (rs_p s')"
proof (cases "rs_p s")
  case (P_next x ca tb)
  then obtain nx nb where "s' = s\<lparr>rs_p := P_adv x nb\<rparr> \<or> enqueue_alloc x tb nx s = Some s'"
    using assms(1,3) by (auto simp: enqueue_step_def Let_def bind_eq_Some_conv split: if_splits)
  then show ?thesis using assms(1) P_next by (auto simp: enqueue_alloc_def Let_def split: if_splits)
qed (use assms in \<open>auto simp: enqueue_step_def enqueue_returns_def Let_def bind_eq_Some_conv split: if_splits\<close>)

fun producer_run :: "nat \<Rightarrow> 'a rw_sys \<Rightarrow> 'a rw_sys option" where
  "producer_run 0 s = Some s"
| "producer_run (Suc n) s = do { s1 \<leftarrow> enqueue_step True s; producer_run n s1 }"

lemma producer_run_ok:
  "rw_inv s \<Longrightarrow> enqueue_of y xs s (rs_p s) \<Longrightarrow> p_rank (rs_p s) \<le> n \<Longrightarrow>
   \<exists>s'. producer_run n s = Some s' \<and> rw_inv s' \<and> rs_p s' = P_idle \<and> enqueue_of y xs s' P_idle \<and> rs_out s' = rs_out s"
proof (induction n arbitrary: s)
  case 0
  then show ?case using p_rank_0(1) [of "rs_p s"] by auto
next
  case (Suc n)
  obtain s1 where s1: "enqueue_step True s = Some s1" "rw_inv s1" using enqueue_step_ok [OF Suc.prems(1)] by blast
  have "enqueue_of y xs s1 (rs_p s1)"
  proof (cases "rs_p s = P_idle")
    case True
    then have "s1 = s" using s1(1) by (simp add: enqueue_step_def)
    then show ?thesis using Suc.prems(2) by simp
  qed (use enqueue_of_step [OF Suc.prems(2) _ s1(1)] in blast)
  moreover have "p_rank (rs_p s1) \<le> n" using p_rank_step [OF s1(1)] Suc.prems(3) by simp
  ultimately show ?case using Suc.IH [OF s1(2)] s1(1) enqueue_step_hist(1) [OF s1(1)] by simp
qed

section \<open>Properties\<close>

text \<open>A queue of one block with two cells.\<close>

definition small_queue :: "nat rw_queue" where
  "small_queue = \<lparr>rq_blocks = [0 \<mapsto> (make_block 2)\<lparr>bk_next := Some 0\<rparr>], rq_fresh = 1, rq_frontBlock = 0, rq_tailBlock = 0, rq_largestBlockSize = 2\<rparr>"

lemma small_queue_new: "new_rw_queue 1 = Some small_queue"
  by (simp add: new_rw_queue_def ceilToPow2_def MAX_BLOCK_SIZE_def small_queue_def Let_def)

lemma small_queue_reachable: "rw_reachable 1 (rw_start small_queue)"
  unfolding rw_reachable_def using small_queue_new reaches_start by auto

text \<open>
  C13. The reader-writer queue refines a queue: in every interleaving of the two threads each step succeeds - no assertion of the
  source fails, no cell without an element is read, no pointer is bad - and it is a step of a first-in first-out list: an
  element enters it once, at its end, by the step that publishes it, and leaves it once, at its head, by the step that
  takes it; \<open>try_dequeue\<close> answers that there is nothing only if the list was empty when it looked.
\<close>

theorem rw_queue_refines:
  assumes "rw_reachable n s" "rw_can s op"
  shows "\<exists>s'. rw_do op s = Some s' \<and> rw_reachable n s' \<and> queue_step (rw_event op s) (rw_abs s) = Some (rw_abs s') \<and>
    (op = Consumer \<and> rs_c s \<noteq> C_idle \<and> rs_c s' = C_idle \<and> rs_cres s' = Some None \<longrightarrow> rs_empty s)"
proof -
  have inv: "rw_inv s" by (rule rw_reachable_inv [OF assms(1)])
  obtain s' where s': "rw_do op s = Some s'" "rw_inv s'" using rw_do_ok [OF inv assms(2)] by blast
  have "rw_reachable n s'" using assms s'(1) reaches_step unfolding rw_reachable_def by metis
  moreover have "queue_step (rw_event op s) (rw_abs s) = Some (rw_abs s')" by (rule queue_refined [OF inv s'])
  moreover have "rs_empty s" if "op = Consumer" "rs_c s \<noteq> C_idle" "rs_c s' = C_idle" "rs_cres s' = Some None"
  proof -
    have d: "dequeue_step s = Some s'" using s'(1) that(1) by simp
    then have "rs_c s = C_tb (rq_tailBlock (rs_q s))"
      using that(2-4) by (cases "rs_c s") (auto simp: dequeue_step_def dequeue_returns_def Let_def bind_eq_Some_conv split: if_splits)
    then show ?thesis by (rule empty_answer [OF inv])
  qed
  ultimately show ?thesis using s'(1) by blast
qed

lemma rw_queue_refines_witness:
  "rw_reachable 1 (rw_start small_queue) \<and> rw_can (rw_start small_queue) (Enqueue 7 True) \<and>
   (\<exists>s'. rw_do (Enqueue 7 True) (rw_start small_queue) = Some s' \<and> rw_reachable 1 s')"
proof -
  have "rw_can (rw_start small_queue) (Enqueue 7 True)" by (simp add: rw_start_def)
  then show ?thesis using rw_queue_refines [OF small_queue_reachable] small_queue_reachable by blast
qed

text \<open>
  C17. The queue is wait-free: a call of \<open>enqueue\<close> or \<open>try_enqueue\<close> ends after at most six steps of the producer, and a call of \<open>try_dequeue\<close>
  after at most eight steps of the consumer, whatever the other thread does in the meantime.
\<close>

theorem rw_queue_wait_free:
  assumes "rw_run ops s = Some s'"
  shows "(list_all (\<lambda>op. \<not> is_enqueue op) ops \<and> 6 \<le> length (filter is_producer ops) \<longrightarrow> rs_p s' = P_idle) \<and>
    (list_all (\<lambda>op. \<not> is_dequeue op) ops \<and> 8 \<le> length (filter is_consumer ops) \<longrightarrow> rs_c s' = C_idle)"
proof (intro conjI impI)
  assume a: "list_all (\<lambda>op. \<not> is_enqueue op) ops \<and> 6 \<le> length (filter is_producer ops)"
  then have "p_rank (rs_p s') = 0" using producer_run_rank [OF assms] p_rank_0(2) [of "rs_p s"] by fastforce
  then show "rs_p s' = P_idle" by (simp add: p_rank_0(1))
next
  assume a: "list_all (\<lambda>op. \<not> is_dequeue op) ops \<and> 8 \<le> length (filter is_consumer ops)"
  then have "c_rank (rs_c s') = 0" using consumer_run_rank [OF assms] c_rank_0(2) [of "rs_c s"] by fastforce
  then show "rs_c s' = C_idle" by (simp add: c_rank_0(1))
qed

lemma rw_queue_wait_free_witness:
  "\<exists>s'. rw_run (Try_dequeue # replicate 6 (Producer True)) ((rw_start small_queue)\<lparr>rs_p := P_write 7 0 0 1\<rparr>) = Some s' \<and> rs_p s' = P_idle"
proof -
  let ?ops = "Try_dequeue # replicate 6 (Producer True)"
  have "\<exists>s'. rw_run ?ops ((rw_start small_queue)\<lparr>rs_p := P_write 7 0 0 1\<rparr>) = Some s'"
    by (simp add: eval_nat_numeral rw_start_def small_queue_def make_block_def try_dequeue_def enqueue_step_def write_cell_def upd_block_def enqueue_returns_def Let_def)
  then obtain s' where s': "rw_run ?ops ((rw_start small_queue)\<lparr>rs_p := P_write 7 0 0 1\<rparr>) = Some s'" ..
  have "list_all (\<lambda>op. \<not> is_enqueue op) ?ops" "6 \<le> length (filter is_producer ?ops)" by (simp_all add: eval_nat_numeral)
  then show ?thesis using rw_queue_wait_free [OF s'] s' by blast
qed

text \<open>
  C16. A call that the other thread does not disturb does what it should, from whatever point the other thread has reached:
  \<open>try_dequeue\<close> ends with the first element of the queue and removes it, or answers that there is none when the queue is
  empty, and \<open>enqueue\<close>, when memory suffices, returns true with the element at the end of the queue.
\<close>

theorem rw_queue_calls:
  assumes "rw_reachable n s"
  shows "(rs_c s = C_idle \<longrightarrow> (\<exists>s1 s'. try_dequeue s = Some s1 \<and> consumer_run 8 s1 = Some s' \<and> rs_c s' = C_idle \<and>
      rs_cres s' = Some (case rw_abs s of [] \<Rightarrow> None | x # _ \<Rightarrow> Some x) \<and> rw_abs s' = tl (rw_abs s))) \<and>
    (rs_p s = P_idle \<longrightarrow> (\<exists>s1 s'. inner_enqueue x True s = Some s1 \<and> producer_run 6 s1 = Some s' \<and> rs_p s' = P_idle \<and>
      rs_pres s' = Some True \<and> rw_abs s' = rw_abs s @ [x]))"
proof (intro conjI impI)
  have inv: "rw_inv s" by (rule rw_reachable_inv [OF assms])
  show "\<exists>s1 s'. try_dequeue s = Some s1 \<and> consumer_run 8 s1 = Some s' \<and> rs_c s' = C_idle \<and>
      rs_cres s' = Some (case rw_abs s of [] \<Rightarrow> None | x # _ \<Rightarrow> Some x) \<and> rw_abs s' = tl (rw_abs s)" if idle: "rs_c s = C_idle"
  proof -
    obtain s1 where s1: "try_dequeue s = Some s1" "rw_inv s1" using try_dequeue_ok [OF inv idle] by blast
    then have "dequeue_of (rw_abs s) s1 (rs_c s1)" by (auto simp: try_dequeue_def rw_abs_def Let_def bind_eq_Some_conv)
    then show ?thesis using consumer_run_ok [OF s1(2), of "rw_abs s" 8] c_rank_0(2) s1(1) by auto
  qed
  show "\<exists>s1 s'. inner_enqueue x True s = Some s1 \<and> producer_run 6 s1 = Some s' \<and> rs_p s' = P_idle \<and>
      rs_pres s' = Some True \<and> rw_abs s' = rw_abs s @ [x]" if idle: "rs_p s = P_idle"
  proof -
    obtain s1 where s1: "inner_enqueue x True s = Some s1" "rw_inv s1" using inner_enqueue_ok [OF inv idle] by blast
    then have e: "enqueue_of x (rs_in s) s1 (rs_p s1)" "rs_out s1 = rs_out s" by (auto simp: inner_enqueue_def Let_def bind_eq_Some_conv)
    obtain s' where s': "producer_run 6 s1 = Some s'" "rs_p s' = P_idle" "rs_pres s' = Some True" "rs_in s' = rs_in s @ [x]" "rs_out s' = rs_out s"
      using producer_run_ok [OF s1(2) e(1) p_rank_0(2)] e(2) by auto
    have "rw_abs s' = rw_abs s @ [x]" using s'(4,5) arg_cong [OF rw_inv_hist [OF inv], of length] by (simp add: rw_abs_def)
    then show ?thesis using s1(1) s' by blast
  qed
qed

lemma rw_queue_calls_witness:
  "\<exists>s1 s'. rw_reachable 1 (rw_start small_queue) \<and> inner_enqueue 7 True (rw_start small_queue) = Some s1 \<and> producer_run 6 s1 = Some s' \<and>
     rs_pres s' = Some True \<and> rw_abs s' = [7]"
proof -
  have "rs_p (rw_start small_queue) = P_idle" "rw_abs (rw_start small_queue) = []" by (simp_all add: rw_start_def rw_abs_def)
  then show ?thesis using rw_queue_calls [OF small_queue_reachable, of 7] small_queue_reachable by auto
qed

end
