(* ===== verification/MyUtil.thy ===== *)
theory MyUtil
  imports RoundUp
begin

text \<open>
  \<^verbatim>\<open>src/base/MyUtil.cpp\<close>: the string utilities. A string in memory is the list of its characters from the pointer on, with the
  NUL; a pointer into it is an offset. \<open>char\<close> is signed. An access outside an array and an argument of \<open>toupper\<close> outside
  its range are \<open>None\<close>. \<open>std::string\<close> is a list, whose \<open>operator[]\<close> may also read the NUL behind the last character. The comparisons of
  floating-point numbers are not modelled.
\<close>

section \<open>Hexadecimal text\<close>

definition HEX :: string where
  "HEX = ''0123456789ABCDEF''"

definition int_to_hex_char :: "int \<Rightarrow> char option" where
  "int_to_hex_char x = (if 0 \<le> x \<and> x < 16 then Some (HEX ! nat x) else None)"

text \<open>The value of a \<open>char\<close>, and the functions of \<^verbatim>\<open>ctype.h\<close> in the C locale.\<close>

definition char_value :: "char \<Rightarrow> int" where
  "char_value c = (let n = of_char c :: int in if n < 128 then n else n - 256)"

definition c_toupper :: "int \<Rightarrow> int" where
  "c_toupper x = (if 97 \<le> x \<and> x \<le> 122 then x - 32 else x)"

definition c_isdigit :: "int \<Rightarrow> bool" where
  "c_isdigit x \<longleftrightarrow> 48 \<le> x \<and> x \<le> 57"

definition c_isalpha :: "int \<Rightarrow> bool" where
  "c_isalpha x \<longleftrightarrow> 65 \<le> x \<and> x \<le> 90 \<or> 97 \<le> x \<and> x \<le> 122"

definition hex_char_to_int :: "char \<Rightarrow> int option" where
  "hex_char_to_int hex =
     (if char_value hex < - 1 then None
      else let nHex = c_toupper (char_value hex) in
        Some (if c_isdigit nHex then char_value hex - 48
              else if c_isalpha nHex then char_value hex - 65 + 10
              else 0))"

function bytes_to_hex_loop :: "byte list \<Rightarrow> nat \<Rightarrow> nat \<Rightarrow> string \<Rightarrow> string option" where
  "bytes_to_hex_loop inp sz i str =
     (if i < sz then
        if i < length inp then do {
          let t = uint (inp ! i);
          a \<leftarrow> int_to_hex_char (t div 16);
          b \<leftarrow> int_to_hex_char (t mod 16);
          bytes_to_hex_loop inp sz (i + 1) (str @ [a, b] @ (if i \<noteq> sz - 1 then '' '' else []))
        }
        else None
      else Some str)"
  by auto
termination
  by (relation "measure (\<lambda>(inp, sz, i, str). sz - i)") auto

declare bytes_to_hex_loop.simps [simp del]

definition bytes_to_hex_string :: "byte list \<Rightarrow> nat \<Rightarrow> string option" where
  "bytes_to_hex_string inp sz = bytes_to_hex_loop inp sz 0 []"

text \<open>\<open>find\<close>, \<open>substr\<close> and \<open>operator[]\<close> of \<open>std::string\<close>.\<close>

definition str_find :: "char \<Rightarrow> nat \<Rightarrow> string \<Rightarrow> nat option" where
  "str_find c pos s =
     (let k = pos + length (takeWhile (\<lambda>x. x \<noteq> c) (drop pos s)) in if k < length s then Some k else None)"

definition str_substr :: "nat \<Rightarrow> nat \<Rightarrow> string \<Rightarrow> string" where
  "str_substr pos n s = take n (drop pos s)"

definition str_at :: "string \<Rightarrow> nat \<Rightarrow> char option" where
  "str_at s i = (if i < length s then Some (s ! i) else if i = length s then Some (CHR 0x00) else None)"

lemma str_find_bounds: "str_find c pos s = Some k \<Longrightarrow> pos \<le> k \<and> k < length s"
  by (auto simp: str_find_def Let_def split: if_splits)

function words_loop :: "string \<Rightarrow> nat \<Rightarrow> string list \<Rightarrow> string list \<times> nat" where
  "words_loop str prevPos vec =
     (case str_find (CHR '' '') prevPos str of
        None \<Rightarrow> (vec, prevPos)
      | Some currPos \<Rightarrow> words_loop str (currPos + 1) (vec @ [str_substr prevPos (currPos - prevPos) str]))"
  by auto
termination
  by (relation "measure (\<lambda>(str, prevPos, vec). length str - prevPos)") (auto dest: str_find_bounds)

declare words_loop.simps [simp del]

fun hex_out_loop :: "string list \<Rightarrow> nat \<Rightarrow> byte list \<Rightarrow> byte list option" where
  "hex_out_loop [] i out = Some out"
| "hex_out_loop (w # ws) i out = do {
     c0 \<leftarrow> str_at w 0;
     a \<leftarrow> hex_char_to_int c0;
     c1 \<leftarrow> str_at w 1;
     b \<leftarrow> hex_char_to_int c1;
     if i < length out then hex_out_loop ws (i + 1) (out[i := word_of_int (a * 16 + b)]) else None
   }"

definition hex_string_to_bytes :: "string \<Rightarrow> byte list \<Rightarrow> (nat \<times> byte list) option" where
  "hex_string_to_bytes str out =
     (let (vec, prevPos) = words_loop str 0 [];
          vec = (if prevPos < length str then vec @ [drop prevPos str] else vec)
      in map_option (\<lambda>out. (length vec, out)) (hex_out_loop vec 0 out))"

section \<open>Splitting\<close>

text \<open>
  \<open>split\<close> cuts the string in place. The result is the memory after it and the pointers stored in \<open>av\<close>, an array of \<open>av_max\<close>
  pointers.
\<close>

definition c_strlen :: "string \<Rightarrow> nat option" where
  "c_strlen m = (if CHR 0x00 \<in> set m then Some (length (c_text m)) else None)"

definition av_push :: "int \<Rightarrow> 'a \<Rightarrow> 'a list \<Rightarrow> 'a list option" where
  "av_push av_max p av = (if int (length av) < av_max then Some (av @ [p]) else None)"

function split_loop ::
  "char \<Rightarrow> int \<Rightarrow> int \<Rightarrow> nat \<Rightarrow> nat \<Rightarrow> string \<Rightarrow> nat list \<Rightarrow> (nat \<times> nat \<times> string \<times> nat list) option" where
  "split_loop c str_len av_max i j m av =
     (if int i < str_len \<and> int (length av) < av_max then
        if i < length m then
          if m ! i \<noteq> c then split_loop c str_len av_max (i + 1) j m av
          else do {
            av1 \<leftarrow> av_push av_max j av;
            split_loop c str_len av_max (i + 1) (i + 1) (m[i := CHR 0x00]) av1
          }
        else None
      else Some (i, j, m, av))"
  by auto
termination
  by (relation "measure (\<lambda>(c, str_len, av_max, i, j, m, av). nat str_len - i)") auto

declare split_loop.simps [simp del]

definition split_str :: "string \<Rightarrow> int \<Rightarrow> int \<Rightarrow> char \<Rightarrow> (string \<times> nat list) option" where
  "split_str m str_len av_max c = do {
     n \<leftarrow> (if str_len = 0 then map_option int (c_strlen m) else Some str_len);
     (i, j, m1, av) \<leftarrow> split_loop c n av_max 0 0 m [];
     av1 \<leftarrow> (if j < i then av_push av_max j av else Some av);
     Some (m1, av1)
   }"

text \<open>
  \<open>atoi\<close>: blanks, a sign, digits; its behaviour is undefined when the number does not fit an \<open>int\<close>, and here also when the string does not
  end. The blanks of \<open>isspace\<close> are the space and the characters from 9 to 13.
\<close>

definition c_isspace :: "char \<Rightarrow> bool" where
  "c_isspace c \<longleftrightarrow> c = CHR '' '' \<or> 9 \<le> char_value c \<and> char_value c \<le> 13"

definition digits_value :: "string \<Rightarrow> int" where
  "digits_value ds = foldl (\<lambda>n d. n * 10 + (char_value d - 48)) 0 ds"

definition atoi_text :: "string \<Rightarrow> int option" where
  "atoi_text t =
     (let s = dropWhile c_isspace t;
          neg = (s \<noteq> [] \<and> hd s = CHR ''-'');
          s = (if s \<noteq> [] \<and> (hd s = CHR ''-'' \<or> hd s = CHR ''+'') then tl s else s);
          v = digits_value (takeWhile (\<lambda>c. c_isdigit (char_value c)) s);
          v = (if neg then - v else v)
      in if - (2 ^ 31) \<le> v \<and> v < 2 ^ 31 then Some v else None)"

definition c_atoi :: "string \<Rightarrow> int option" where
  "c_atoi m = (if CHR 0x00 \<in> set m then atoi_text (c_text m) else None)"

text \<open>\<open>split_ip\<close> stores the numbers in the eight bytes of \<open>_num\<close>; what it does not store keeps its old value.\<close>

type_synonym ip_num_array = "byte list"

definition ip_store :: "string \<Rightarrow> nat \<Rightarrow> nat \<Rightarrow> ip_num_array \<Rightarrow> ip_num_array option" where
  "ip_store m j k num = do {
     n \<leftarrow> c_atoi (drop j m);
     if k < length num then Some (num[k := word_of_int n]) else None
   }"

function split_ip_loop ::
  "int \<Rightarrow> nat \<Rightarrow> nat \<Rightarrow> nat \<Rightarrow> string \<Rightarrow> ip_num_array \<Rightarrow> (nat \<times> nat \<times> nat \<times> string \<times> ip_num_array) option" where
  "split_ip_loop str_len i j k m num =
     (if int i < str_len \<and> k < 8 then
        if i < length m then
          if m ! i \<noteq> CHR ''.'' then split_ip_loop str_len (i + 1) j k m num
          else do {
            let m1 = m[i := CHR 0x00];
            num1 \<leftarrow> ip_store m1 j k num;
            split_ip_loop str_len (i + 1) (i + 1) (k + 1) m1 num1
          }
        else None
      else Some (i, j, k, m, num))"
  by auto
termination
  by (relation "measure (\<lambda>(str_len, i, j, k, m, num). nat str_len - i)") auto

declare split_ip_loop.simps [simp del]

definition split_ip :: "string \<Rightarrow> int \<Rightarrow> ip_num_array \<Rightarrow> (nat \<times> string \<times> ip_num_array) option" where
  "split_ip m str_len num = do {
     n \<leftarrow> (if str_len = 0 then map_option int (c_strlen m) else Some str_len);
     (i, j, k, m1, num1) \<leftarrow> split_ip_loop n 0 0 0 m num;
     if j < i then do { num2 \<leftarrow> ip_store m1 j k num1; Some (k + 1, m1, num2) }
     else Some (k, m1, num1)
   }"

section \<open>Formulas\<close>

datatype FORMULA_TEST_FLAG =
    FORMULA_TEST_UNKNOWN | FORMULA_TEST_EQUAL | FORMULA_TEST_NOT_EQUAL | FORMULA_TEST_LESS_THAN | FORMULA_TEST_GREATER_THAN
  | FORMULA_TEST_LESS_OR_EQ | FORMULA_TEST_GREATER_OR_EQ

record simple_formula =
  sf_left :: string
  sf_right :: string
  sf_test_flag :: FORMULA_TEST_FLAG

definition put_char :: "nat \<Rightarrow> char \<Rightarrow> string \<Rightarrow> string option" where
  "put_char j c a = (if j < length a then Some (a[j := c]) else None)"

definition is_blank :: "char \<Rightarrow> bool" where
  "is_blank c \<longleftrightarrow> c = CHR '' '' \<or> c = CHR 0x09"

definition is_test_char :: "char \<Rightarrow> bool" where
  "is_test_char c \<longleftrightarrow> c = CHR ''>'' \<or> c = CHR ''<'' \<or> c = CHR ''='' \<or> c = CHR ''!''"

text \<open>The loops that trim the blanks at the end of \<open>_left\<close> and \<open>_right\<close>.\<close>

fun trim_tail :: "nat \<Rightarrow> string \<Rightarrow> string option" where
  "trim_tail 0 a = Some a"
| "trim_tail (Suc j) a =
     (if j \<ge> 1 \<and> j < length a \<and> is_blank (a ! j) then trim_tail j (a[j := CHR 0x00])
      else if j \<ge> 1 \<and> \<not> j < length a then None else Some a)"

text \<open>The operator at position \<open>i\<close>: the flag, unless it keeps its old value, and where the right side starts.\<close>

definition formula_test :: "string \<Rightarrow> int \<Rightarrow> nat \<Rightarrow> (FORMULA_TEST_FLAG option \<times> int) option" where
  "formula_test m formula_len i = (if \<not> is_test_char (m ! i) then Some (None, - 1) else do {
     eq \<leftarrow> (if int i + 1 < formula_len
           then if i + 1 < length m then Some (m ! (i + 1) = CHR ''='') else None
           else Some False);
     Some (if m ! i = CHR ''>'' then
             if eq then (Some FORMULA_TEST_GREATER_OR_EQ, int i + 2) else (Some FORMULA_TEST_GREATER_THAN, int i + 1)
           else if m ! i = CHR ''<'' then
             if eq then (Some FORMULA_TEST_LESS_OR_EQ, int i + 2) else (Some FORMULA_TEST_LESS_THAN, int i + 1)
           else if m ! i = CHR ''!'' then
             if eq then (Some FORMULA_TEST_NOT_EQUAL, int i + 2) else (Some FORMULA_TEST_UNKNOWN, int i + 1)
           else
             if eq then (Some FORMULA_TEST_EQUAL, int i + 2) else (Some FORMULA_TEST_EQUAL, int i + 1))
   })"

function formula_left :: "string \<Rightarrow> int \<Rightarrow> nat \<Rightarrow> nat \<Rightarrow> simple_formula \<Rightarrow> (int \<times> simple_formula) option" where
  "formula_left m formula_len i j f =
     (if int i < formula_len then
        if i < length m then
          if j + 1 < 64 \<and> \<not> is_test_char (m ! i) then
            if j > 0 \<or> \<not> is_blank (m ! i)
            then do { l \<leftarrow> put_char j (m ! i) (sf_left f); formula_left m formula_len (i + 1) (j + 1) (f\<lparr>sf_left := l\<rparr>) }
            else formula_left m formula_len (i + 1) j f
          else do {
            l \<leftarrow> put_char j (CHR 0x00) (sf_left f);
            l1 \<leftarrow> trim_tail j l;
            (fl, k) \<leftarrow> formula_test m formula_len i;
            let f1 = f\<lparr>sf_left := l1\<rparr>;
            Some (k, case fl of None \<Rightarrow> f1 | Some t \<Rightarrow> f1\<lparr>sf_test_flag := t\<rparr>)
          }
        else None
      else Some (- 1, f))"
  by auto
termination
  by (relation "measure (\<lambda>(m, formula_len, i, j, f). nat formula_len - i)") auto

declare formula_left.simps [simp del]

function formula_right :: "string \<Rightarrow> int \<Rightarrow> int \<Rightarrow> nat \<Rightarrow> string \<Rightarrow> (nat \<times> string) option" where
  "formula_right m formula_len i j r =
     (if i < formula_len then
        if 0 \<le> i \<and> nat i < length m then
          if j > 0 \<or> \<not> is_blank (m ! nat i)
          then do { r1 \<leftarrow> put_char j (m ! nat i) r; formula_right m formula_len (i + 1) (j + 1) r1 }
          else formula_right m formula_len (i + 1) j r
        else None
      else Some (j, r))"
  by auto
termination
  by (relation "measure (\<lambda>(m, formula_len, i, j, r). nat (formula_len - i))") auto

declare formula_right.simps [simp del]

definition split_simple_formula :: "string \<Rightarrow> int \<Rightarrow> simple_formula \<Rightarrow> (FORMULA_TEST_FLAG \<times> simple_formula) option" where
  "split_simple_formula m formula_len f = do {
     n \<leftarrow> (if formula_len = 0 then map_option int (c_strlen m) else Some formula_len);
     (k, f1) \<leftarrow> formula_left m n 0 0 f;
     r0 \<leftarrow> put_char 0 (CHR 0x00) (sf_right f1);
     (j, r1) \<leftarrow> formula_right m n k 0 r0;
     r2 \<leftarrow> put_char j (CHR 0x00) r1;
     r3 \<leftarrow> trim_tail j r2;
     Some (sf_test_flag f1, f1\<lparr>sf_right := r3\<rparr>)
   }"

section \<open>Bounded copies\<close>

function strlcpy_loop :: "nat \<Rightarrow> nat \<Rightarrow> string \<Rightarrow> string \<Rightarrow> (nat \<times> string) option" where
  "strlcpy_loop sz n src dst =
     (if n < sz - 1 then
        if n < length src then
          if src ! n \<noteq> CHR 0x00 then do { d \<leftarrow> put_char n (src ! n) dst; strlcpy_loop sz (n + 1) src d }
          else Some (n, dst)
        else None
      else Some (n, dst))"
  by auto
termination
  by (relation "measure (\<lambda>(sz, n, src, dst). sz - n)") auto

declare strlcpy_loop.simps [simp del]

definition util_strlcpy :: "string \<Rightarrow> string \<Rightarrow> nat \<Rightarrow> (nat \<times> string) option" where
  "util_strlcpy dst src sz =
     (if sz = 0 then Some (0, dst)
      else do { (n, d) \<leftarrow> strlcpy_loop sz 0 src dst; d1 \<leftarrow> put_char n (CHR 0x00) d; Some (n, d1) })"

text \<open>\<open>util_strlcat\<close>: the end of the destination is looked for in its first \<open>sz\<close> characters.\<close>

function strlcat_end :: "nat \<Rightarrow> nat \<Rightarrow> string \<Rightarrow> nat option" where
  "strlcat_end sz n dst =
     (if n < sz then
        if n < length dst then if dst ! n \<noteq> CHR 0x00 then strlcat_end sz (n + 1) dst else Some n
        else None
      else Some n)"
  by auto
termination
  by (relation "measure (\<lambda>(sz, n, dst). sz - n)") auto

declare strlcat_end.simps [simp del]

function strlcat_loop :: "nat \<Rightarrow> nat \<Rightarrow> string \<Rightarrow> string \<Rightarrow> (nat \<times> string) option" where
  "strlcat_loop sz n src dst =
     (if n < sz - 1 then
        case src of
          [] \<Rightarrow> None
        | c # cs \<Rightarrow>
            if c \<noteq> CHR 0x00 then do { d \<leftarrow> put_char n c dst; strlcat_loop sz (n + 1) cs d }
            else Some (n, dst)
      else Some (n, dst))"
  by pat_completeness auto
termination
  by (relation "measure (\<lambda>(sz, n, src, dst). sz - n)") auto

declare strlcat_loop.simps [simp del]

definition util_strlcat :: "string \<Rightarrow> string \<Rightarrow> nat \<Rightarrow> (nat \<times> string) option" where
  "util_strlcat dst src sz =
     (if sz = 0 then Some (0, dst)
      else do {
        n \<leftarrow> strlcat_end sz 0 dst;
        if n = sz then Some (n, dst)
        else do { (n1, d) \<leftarrow> strlcat_loop sz n src dst; d1 \<leftarrow> put_char n1 (CHR 0x00) d; Some (n1, d1) }
      })"

section \<open>Powers of two\<close>

text \<open>\<open>unsigned long\<close> has 64 bits; the source smears 32 bits only.\<close>

definition next_pot :: "64 word \<Rightarrow> 64 word" where
  "next_pot x =
     (let x = x - 1;
          x = x OR drop_bit 1 x;
          x = x OR drop_bit 2 x;
          x = x OR drop_bit 4 x;
          x = x OR drop_bit 8 x;
          x = x OR drop_bit 16 x
      in x + 1)"

end
