(* ===== verification/MyUtilProps.thy ===== *)
theory MyUtilProps
  imports MyUtil
begin

text \<open>
  What the string utilities compute: \<open>split\<close> and \<open>split_ip\<close> find the fields of a text, hexadecimal text can be read back, and the bounded
  copies stay inside their destination.
\<close>

section \<open>Fields\<close>

text \<open>The fields of a text, separated by \<open>c\<close>; nothing behind the last separator is not a field.\<close>

fun text_fields :: "char \<Rightarrow> string \<Rightarrow> string list" where
  "text_fields c [] = []"
| "text_fields c (x # xs) =
     (if x = c then [] # text_fields c xs else case text_fields c xs of [] \<Rightarrow> [[x]] | f # fs \<Rightarrow> (x # f) # fs)"

lemma fields_sep: "c \<notin> set w \<Longrightarrow> text_fields c (w @ c # s) = w # text_fields c s"
  by (induction w) auto

lemma fields_last: "c \<notin> set w \<Longrightarrow> text_fields c w = (if w = [] then [] else [w])"
  by (induction w) auto

lemma list_update_at: "length pre = i \<Longrightarrow> (pre @ x # xs)[i := y] = pre @ y # xs"
  by auto

text \<open>
  The loop of \<open>split\<close> in the middle of its work: \<open>pre\<close> is done, \<open>cur\<close> is the part of the current field that was seen, \<open>rest\<close> is what is left.
\<close>

lemma split_loop_fields:
  fixes pre cur rest tail :: string and av :: "nat list"
  assumes "c \<notin> set cur" "c \<noteq> CHR 0x00" "c_string (cur @ rest)" "cur \<noteq> [] \<Longrightarrow> int (length av) < av_max"
  shows "\<exists>i j m av' ps. split_loop c (int (length (pre @ cur @ rest))) av_max (length (pre @ cur)) (length pre) (pre @ cur @ rest @ CHR 0x00 # tail) av =
      Some (i, j, pre @ m, av') \<and> (if j < i then av_push av_max j av' else Some av') = Some (av @ ps) \<and>
      drop (length (cur @ rest)) m = CHR 0x00 # tail \<and> length m = length (cur @ rest @ CHR 0x00 # tail) \<and>
      map (\<lambda>p. c_text (drop p (pre @ m))) ps = take (nat av_max - length av) (text_fields c (cur @ rest))"
  using assms
proof (induction rest arbitrary: pre cur av)
  case Nil
  show ?case
  proof (cases "cur = []")
    case True
    then show ?thesis by (subst split_loop.simps) auto
  next
    case False
    then have "int (length av) < av_max" using Nil by simp
    then have "take (nat av_max - length av) [cur] = [cur]" by simp
    then show ?thesis
      using False Nil \<open>int (length av) < av_max\<close>
      by (subst split_loop.simps) (auto simp: av_push_def fields_last intro!: exI [of _ "cur @ CHR 0x00 # tail"] exI [of _ "[length pre]"])
  qed
next
  case (Cons x xs)
  let ?m = "pre @ cur @ (x # xs) @ CHR 0x00 # tail"
  show ?case
  proof (cases "int (length av) < av_max")
    case False
    then have "cur = []" using Cons.prems(4) by blast
    moreover have "nat av_max - length av = 0" using False by simp
    ultimately show ?thesis using False by (subst split_loop.simps) (auto intro!: exI [of _ "(x # xs) @ CHR 0x00 # tail"])
  next
    case av: True
    have x: "?m ! length (pre @ cur) = x" by (metis append_Cons append_assoc nth_append_length)
    show ?thesis
    proof (cases "x = c")
      case False
      then show ?thesis
        using Cons.IH [of "cur @ [x]" av pre] Cons.prems av x
        by (subst split_loop.simps) (simp add: add.assoc)
    next
      case True
      let ?pre = "pre @ cur @ [CHR 0x00]" and ?av = "av @ [length pre]"
      obtain i j m av' ps where r: "split_loop c (int (length (?pre @ [] @ xs))) av_max (length (?pre @ [])) (length ?pre) (?pre @ [] @ xs @ CHR 0x00 # tail) ?av =
          Some (i, j, ?pre @ m, av')" "(if j < i then av_push av_max j av' else Some av') = Some (?av @ ps)"
        "drop (length ([] @ xs)) m = CHR 0x00 # tail" "length m = length ([] @ xs @ CHR 0x00 # tail)"
        "map (\<lambda>p. c_text (drop p (?pre @ m))) ps = take (nat av_max - length ?av) (text_fields c ([] @ xs))"
        using Cons.IH [of "[]" ?av ?pre] Cons.prems by auto
      have upd: "?m[length (pre @ cur) := CHR 0x00] = ?pre @ [] @ xs @ CHR 0x00 # tail"
        using list_update_at [of "pre @ cur"] by simp
      have "split_loop c (int (length (pre @ cur @ x # xs))) av_max (length (pre @ cur)) (length pre) ?m av = Some (i, j, pre @ cur @ CHR 0x00 # m, av')"
        using r(1) av x True upd by (subst split_loop.simps) (simp add: av_push_def)
      moreover have "take (nat av_max - length av) (text_fields c (cur @ x # xs)) = cur # take (nat av_max - length ?av) (text_fields c xs)"
        using True Cons.prems(1) av by (simp add: fields_sep take_Cons' nat_less_iff)
      moreover have "c_text (drop (length pre) (pre @ cur @ CHR 0x00 # m)) = cur" using Cons.prems(3) by simp
      ultimately show ?thesis
        using r(2-5) by (intro exI [of _ i] exI [of _ j] exI [of _ "cur @ CHR 0x00 # m"] exI [of _ av'] exI [of _ "length pre # ps"]) simp
    qed
  qed
qed


lemma c_strlen_text: "c_string s \<Longrightarrow> c_strlen (s @ CHR 0x00 # tail) = Some (length s)"
  by (simp add: c_strlen_def)

text \<open>The length argument of the splitting functions: the length of the string, or 0 for it.\<close>

lemma str_len_arg:
  "c_string s \<Longrightarrow> n = int (length s) \<or> n = 0 \<Longrightarrow>
   (if n = 0 then map_option int (c_strlen (s @ CHR 0x00 # tail)) else Some n) = Some (int (length s))"
  by (auto simp: c_strlen_text)

section \<open>Addresses\<close>

lemma c_atoi_text: "c_string s \<Longrightarrow> c_atoi (s @ CHR 0x00 # tail) = atoi_text s"
  by (simp add: c_atoi_def)

text \<open>The byte that is stored for a field.\<close>

definition ip_byte :: "string \<Rightarrow> byte" where
  "ip_byte f = word_of_int (the (atoi_text f))"

lemma split_ip_loop_fields:
  fixes pre cur rest tail :: string
  assumes "CHR ''.'' \<notin> set cur" "c_string (cur @ rest)" "cur \<noteq> [] \<Longrightarrow> k < 8" "k \<le> 8" "length num = 8"
    "\<forall>f \<in> set (take (8 - k) (text_fields (CHR ''.'') (cur @ rest))). atoi_text f \<noteq> None"
  shows "\<exists>i j k' m num'. split_ip_loop (int (length (pre @ cur @ rest))) (length (pre @ cur)) (length pre) k (pre @ cur @ rest @ CHR 0x00 # tail) num =
      Some (i, j, k', pre @ m, num') \<and> drop (length (cur @ rest)) m = CHR 0x00 # tail \<and> length m = length (cur @ rest @ CHR 0x00 # tail) \<and>
      (let vs = map ip_byte (take (8 - k) (text_fields (CHR ''.'') (cur @ rest))) in
       (if j < i then map_option (\<lambda>n. (k' + 1, n)) (ip_store (pre @ m) j k' num') else Some (k', num')) =
       Some (k + length vs, take k num @ vs @ drop (k + length vs) num))"
  using assms
proof (induction rest arbitrary: pre cur k num)
  case Nil
  show ?case
  proof (cases "cur = []")
    case True
    then show ?thesis by (subst split_ip_loop.simps) auto
  next
    case False
    then have k: "k < 8" using Nil by simp
    then have tk: "take (8 - k) [cur] = [cur]" by simp
    then obtain v where "atoi_text cur = Some v" using Nil(1,6) False by (auto simp: fields_last)
    then show ?thesis
      using False Nil k tk
      by (subst split_ip_loop.simps)
        (auto simp: fields_last ip_store_def c_atoi_text ip_byte_def upd_conv_take_nth_drop Let_def intro!: exI [of _ "cur @ CHR 0x00 # tail"])
  qed
next
  case (Cons x xs)
  let ?m = "pre @ cur @ (x # xs) @ CHR 0x00 # tail"
  show ?case
  proof (cases "k < 8")
    case False
    then have "cur = []" "k = 8" using Cons.prems(3,4) by auto
    then show ?thesis using Cons.prems(5) by (subst split_ip_loop.simps) (auto intro!: exI [of _ "(x # xs) @ CHR 0x00 # tail"])
  next
    case k: True
    have x: "?m ! length (pre @ cur) = x" by (metis append_Cons append_assoc nth_append_length)
    show ?thesis
    proof (cases "x = CHR ''.''")
      case False
      then show ?thesis
        using Cons.IH [of "cur @ [x]" k num pre] Cons.prems k x
        by (subst split_ip_loop.simps) (simp add: add.assoc)
    next
      case True
      let ?pre = "pre @ cur @ [CHR 0x00]" and ?num = "num[k := ip_byte cur]"
      have f: "take (8 - k) (text_fields (CHR ''.'') (cur @ x # xs)) = cur # take (8 - Suc k) (text_fields (CHR ''.'') xs)"
        using True Cons.prems(1) k by (simp add: fields_sep take_Cons' Suc_diff_Suc)
      then obtain v where v: "atoi_text cur = Some v" using Cons.prems(6) by auto
      obtain i j k' m num' where r: "split_ip_loop (int (length (?pre @ [] @ xs))) (length (?pre @ [])) (length ?pre) (Suc k) (?pre @ [] @ xs @ CHR 0x00 # tail) ?num =
          Some (i, j, k', ?pre @ m, num')" "drop (length ([] @ xs)) m = CHR 0x00 # tail" "length m = length ([] @ xs @ CHR 0x00 # tail)"
        "let vs = map ip_byte (take (8 - Suc k) (text_fields (CHR ''.'') ([] @ xs))) in
         (if j < i then map_option (\<lambda>n. (k' + 1, n)) (ip_store (?pre @ m) j k' num') else Some (k', num')) =
         Some (Suc k + length vs, take (Suc k) ?num @ vs @ drop (Suc k + length vs) ?num)"
        using Cons.IH [of "[]" "Suc k" ?num ?pre] Cons.prems k f by auto
      have upd: "?m[length (pre @ cur) := CHR 0x00] = ?pre @ [] @ xs @ CHR 0x00 # tail"
        using list_update_at [of "pre @ cur"] by simp
      have "ip_store (?pre @ [] @ xs @ CHR 0x00 # tail) (length pre) k num = Some ?num"
        using v Cons.prems(2,5) k by (simp add: ip_store_def c_atoi_text ip_byte_def)
      then have l: "split_ip_loop (int (length (pre @ cur @ x # xs))) (length (pre @ cur)) (length pre) k ?m num = Some (i, j, k', pre @ cur @ CHR 0x00 # m, num')"
        using r(1) k x True upd by (subst split_ip_loop.simps) (simp add: Let_def)
      have "take (Suc k) ?num = take k num @ [ip_byte cur]" using k Cons.prems(5) by (simp add: take_Suc_conv_app_nth)
      then have "(let vs = map ip_byte (take (8 - k) (text_fields (CHR ''.'') (cur @ x # xs))) in
         (if j < i then map_option (\<lambda>n. (k' + 1, n)) (ip_store (pre @ cur @ CHR 0x00 # m) j k' num') else Some (k', num')) =
         Some (k + length vs, take k num @ vs @ drop (k + length vs) num))"
        using r(4) f by (simp add: Let_def cong: if_cong)
      then show ?thesis using l r(2,3) by fastforce
    qed
  qed
qed

lemma split_ip_fields:
  assumes "c_string s" "n = int (length s) \<or> n = 0" "length num = 8" "\<forall>f \<in> set (take 8 (text_fields (CHR ''.'') s)). atoi_text f \<noteq> None"
  shows "\<exists>m. split_ip (s @ CHR 0x00 # tail) n num =
    (let vs = map ip_byte (take 8 (text_fields (CHR ''.'') s)) in Some (length vs, m, vs @ drop (length vs) num))"
proof -
  obtain i j k m num' where r: "split_ip_loop (int (length s)) 0 0 0 (s @ CHR 0x00 # tail) num = Some (i, j, k, m, num')"
    "let vs = map ip_byte (take 8 (text_fields (CHR ''.'') s)) in
     (if j < i then map_option (\<lambda>n. (k + 1, n)) (ip_store m j k num') else Some (k, num')) = Some (length vs, vs @ drop (length vs) num)"
    using split_ip_loop_fields [of "[]" s 0 num "[]" tail, unfolded append_Nil] assms by auto
  have "split_ip (s @ CHR 0x00 # tail) n num =
    (if j < i then map_option (\<lambda>n. (k + 1, n)) (ip_store m j k num') else Some (k, num')) \<bind> (\<lambda>(k, num). Some (k, m, num))"
    using str_len_arg [OF assms(1,2)] r(1) by (cases "ip_store m j k num'") (simp_all add: split_ip_def)
  then show ?thesis using r(2) by (intro exI [of _ m]) (simp add: Let_def)
qed


section \<open>Hexadecimal text\<close>

definition hex_pair :: "byte \<Rightarrow> string" where
  "hex_pair b = [HEX ! (unat b div 16), HEX ! (unat b mod 16)]"

fun hex_text :: "byte list \<Rightarrow> string" where
  "hex_text [] = []"
| "hex_text (b # bs) = hex_pair b @ (if bs = [] then [] else CHR '' '' # hex_text bs)"

lemma int_to_hex_nat: "n < 16 \<Longrightarrow> int_to_hex_char (int n) = Some (HEX ! n)"
  by (simp add: int_to_hex_char_def)

lemma unat_byte [simp]: "unat (b :: byte) div 16 < 16" "unat b mod 16 < 16"
proof -
  have "unat b < 256" using unsigned_less [of b] by simp
  then show "unat b div 16 < 16" "unat b mod 16 < 16" by auto
qed

lemma bytes_to_hex_loop_text: "i \<le> length bs \<Longrightarrow> bytes_to_hex_loop bs (length bs) i str = Some (str @ hex_text (drop i bs))"
proof (induction "length bs - i" arbitrary: i str)
  case 0
  then show ?case by (subst bytes_to_hex_loop.simps) simp
next
  case (Suc n)
  then have i: "i < length bs" and n: "n = length bs - Suc i" by auto
  have b: "int_to_hex_char (uint (bs ! i) div 16) = Some (HEX ! (unat (bs ! i) div 16))"
    "int_to_hex_char (uint (bs ! i) mod 16) = Some (HEX ! (unat (bs ! i) mod 16))"
    using int_to_hex_nat [of "unat (bs ! i) div 16"] int_to_hex_nat [of "unat (bs ! i) mod 16"]
    by (simp_all only: uint_nat zdiv_int zmod_int of_nat_numeral unat_byte)
  have "drop i bs = bs ! i # drop (Suc i) bs" using i by (simp add: Cons_nth_drop_Suc)
  moreover have "drop (Suc i) bs = [] \<longleftrightarrow> i = length bs - 1" using i by auto
  ultimately show ?case using Suc.hyps(1) [OF n] i b by (subst bytes_to_hex_loop.simps) (simp add: hex_pair_def Let_def)
qed

lemma words_loop_fields:
  "p \<le> length s \<Longrightarrow> words_loop s p vec = (v, q) \<Longrightarrow> (if q < length s then v @ [drop q s] else v) = vec @ text_fields (CHR '' '') (drop p s)"
proof (induction s p vec rule: words_loop.induct)
  case (1 s p vec)
  let ?w = "takeWhile (\<lambda>x. x \<noteq> CHR '' '') (drop p s)"
  show ?case
  proof (cases "str_find (CHR '' '') p s")
    case None
    then have "\<not> p + length ?w < length s" by (auto simp: str_find_def Let_def split: if_splits)
    moreover have "length ?w \<le> length (drop p s)" by (rule length_takeWhile_le)
    ultimately have "length ?w = length (drop p s)" using 1(2) by simp
    then have "?w = drop p s" by (metis takeWhile_eq_take take_all order_refl)
    then have "CHR '' '' \<notin> set (drop p s)" by (metis set_takeWhileD)
    then show ?thesis using None 1(2,3) by (subst (asm) words_loop.simps) (auto simp: fields_last)
  next
    case (Some k)
    then have k: "k = p + length ?w" "k < length s" by (auto simp: str_find_def Let_def split: if_splits)
    have "str_substr p (k - p) s = ?w" using k by (simp add: str_substr_def takeWhile_eq_take [symmetric])
    moreover have "drop p s = ?w @ CHR '' '' # drop (Suc k) s"
    proof -
      have "drop p s = ?w @ drop k s" using k by (metis dropWhile_eq_drop drop_drop takeWhile_dropWhile_id add.commute)
      moreover have "s ! k = CHR '' ''" using k nth_length_takeWhile [of "\<lambda>x. x \<noteq> CHR '' ''" "drop p s"] by simp
      ultimately show ?thesis using k(2) by (metis Cons_nth_drop_Suc)
    qed
    moreover have "CHR '' '' \<notin> set ?w" by (metis set_takeWhileD)
    ultimately have "text_fields (CHR '' '') (drop p s) = str_substr p (k - p) s # text_fields (CHR '' '') (drop (Suc k) s)"
      by (metis fields_sep)
    then show ?thesis using 1(1) [OF Some] 1(3) Some k by (subst (asm) words_loop.simps) simp
  qed
qed

lemma hex_chars: "n < 16 \<Longrightarrow> hex_char_to_int (HEX ! n) = Some (int n) \<and> HEX ! n \<noteq> CHR '' ''"
proof -
  have "list_all (\<lambda>n. hex_char_to_int (HEX ! n) = Some (int n) \<and> HEX ! n \<noteq> CHR '' '') [0..<16]" by code_simp
  then show "n < 16 \<Longrightarrow> hex_char_to_int (HEX ! n) = Some (int n) \<and> HEX ! n \<noteq> CHR '' ''" by (simp add: list_all_iff)
qed

lemma fields_hex_text: "text_fields (CHR '' '') (hex_text bs) = map hex_pair bs"
proof (induction bs)
  case (Cons b bs)
  have "CHR '' '' \<notin> set (hex_pair b)" using hex_chars [OF unat_byte(1) [of b]] hex_chars [OF unat_byte(2) [of b]] by (auto simp: hex_pair_def)
  then show ?case using Cons by (simp add: fields_sep fields_last) (simp add: hex_pair_def)
qed simp

lemma hex_out_loop_pairs:
  "i + length bs \<le> length out \<Longrightarrow> hex_out_loop (map hex_pair bs) i out = Some (take i out @ bs @ drop (i + length bs) out)"
proof (induction bs arbitrary: i out)
  case (Cons b bs)
  have "int (unat b div 16 * 16 + unat b mod 16) = uint b" by (simp only: div_mult_mod_eq uint_nat)
  then have "int (unat b div 16) * 16 + int (unat b mod 16) = uint b" by (simp only: of_nat_add of_nat_mult of_nat_numeral)
  then have "(word_of_int (int (unat b div 16) * 16 + int (unat b mod 16)) :: byte) = b" by simp
  moreover have "take (Suc i) (out[i := b]) = take i out @ [b]" using Cons.prems by (simp add: take_Suc_conv_app_nth)
  ultimately show ?case
    using Cons hex_chars [OF unat_byte(1) [of b]] hex_chars [OF unat_byte(2) [of b]]
    by (simp add: hex_pair_def [of b] str_at_def)
qed simp

section \<open>Bounded copies\<close>

lemma put_char_append: "length pre = j \<Longrightarrow> put_char j c (pre @ x # a) = Some (pre @ c # a)"
  by (simp add: put_char_def list_update_at)

lemma strlcpy_loop_copies:
  "i \<le> min (sz - 1) (length s) \<Longrightarrow> c_string s \<Longrightarrow> sz \<le> i + length d \<Longrightarrow>
   strlcpy_loop sz i (s @ CHR 0x00 # tail) (take i s @ d) =
     (let n = min (sz - 1) (length s) in Some (n, take n s @ drop (n - i) d))"
proof (induction "min (sz - 1) (length s) - i" arbitrary: i d)
  case 0
  then have "i = sz - 1 \<or> i = length s" by (auto simp: min_def split: if_splits)
  then show ?case using 0 by (subst strlcpy_loop.simps) (auto simp: Let_def min_def)
next
  case (Suc k)
  then have i: "i < sz - 1" "i < length s" and k: "k = min (sz - 1) (length s) - Suc i" by auto
  then obtain y d' where d: "d = y # d'" using Suc.prems(3) by (cases d) auto
  have "s ! i \<noteq> CHR 0x00" using Suc.prems(2) i(2) by (metis c_string_def nth_mem)
  moreover have "put_char i (s ! i) (take i s @ y # d') = Some (take (Suc i) s @ d')"
    using i(2) put_char_append [of "take i s" i "s ! i" y d'] by (simp add: take_Suc_conv_app_nth)
  moreover have "min (sz - 1) (length s) - i = Suc (min (sz - 1) (length s) - Suc i)" using i by simp
  ultimately show ?case
    using Suc.hyps(1) [OF k, of d'] Suc.prems d i by (subst strlcpy_loop.simps) (simp add: nth_append Let_def)
qed

lemma util_strlcpy_copies:
  assumes "c_string s" "0 < sz" "sz \<le> length dst"
  shows "util_strlcpy dst (s @ CHR 0x00 # tail) sz =
    (let n = min (sz - 1) (length s) in Some (n, take n s @ CHR 0x00 # drop (Suc n) dst))"
proof -
  define n where "n = min (sz - 1) (length s)"
  then have n: "n < length dst" "n \<le> length s" using assms by auto
  then have "drop n dst = dst ! n # drop (Suc n) dst" by (simp add: Cons_nth_drop_Suc)
  then have "put_char n (CHR 0x00) (take n s @ drop n dst) = Some (take n s @ CHR 0x00 # drop (Suc n) dst)"
    using put_char_append [of "take n s" n] n(2) by simp
  then show ?thesis
    using strlcpy_loop_copies [of 0 sz s dst tail] assms by (simp add: util_strlcpy_def Let_def n_def)
qed

lemma strlcat_end_text: "c_string d \<Longrightarrow> i \<le> length d \<Longrightarrow> length d < sz \<Longrightarrow> strlcat_end sz i (d @ CHR 0x00 # a) = Some (length d)"
proof (induction "length d - i" arbitrary: i)
  case 0
  then have "i = length d" by simp
  then show ?case using 0(4) by (subst strlcat_end.simps) simp
next
  case (Suc k)
  then have "d ! i \<noteq> CHR 0x00" by (metis c_string_def nth_mem zero_less_Suc zero_less_diff)
  then show ?case using Suc by (subst strlcat_end.simps) (simp add: nth_append)
qed

lemma strlcat_loop_copies:
  "c_string s \<Longrightarrow> length d < sz \<Longrightarrow> sz \<le> length d + length a \<Longrightarrow>
   strlcat_loop sz (length d) (s @ CHR 0x00 # tail) (d @ a) =
     (let k = min (sz - 1 - length d) (length s) in Some (length d + k, d @ take k s @ drop k a))"
proof (induction s arbitrary: d a)
  case Nil
  then show ?case by (subst strlcat_loop.simps) (simp add: Let_def)
next
  case (Cons c s)
  show ?case
  proof (cases "length d < sz - 1")
    case True
    then obtain y a' where a: "a = y # a'" using Cons.prems(3) by (cases a) auto
    have "strlcat_loop sz (length d) ((c # s) @ CHR 0x00 # tail) (d @ a) = strlcat_loop sz (length (d @ [c])) (s @ CHR 0x00 # tail) ((d @ [c]) @ a')"
      using True Cons.prems(1) a by (subst strlcat_loop.simps) (simp add: put_char_append)
    moreover have "sz - 1 - length d = Suc (sz - 1 - length (d @ [c]))" using True by simp
    ultimately show ?thesis using Cons.IH [of "d @ [c]" a'] Cons.prems True a by (simp add: Let_def)
  next
    case False
    then have "sz - 1 - length d = 0" by simp
    then show ?thesis using False by (subst strlcat_loop.simps) simp
  qed
qed

lemma util_strlcat_appends:
  assumes "c_string d" "c_string s" "length d < sz" "sz \<le> length (d @ CHR 0x00 # a)"
  shows "util_strlcat (d @ CHR 0x00 # a) (s @ CHR 0x00 # tail) sz =
    (let k = min (sz - 1 - length d) (length s) in Some (length d + k, d @ take k s @ CHR 0x00 # drop (Suc k) (CHR 0x00 # a)))"
proof -
  define k where "k = min (sz - 1 - length d) (length s)"
  let ?a = "CHR 0x00 # a"
  have k: "k < length ?a" "k \<le> length s" using assms by (auto simp: k_def)
  then have "drop k ?a = ?a ! k # drop (Suc k) ?a" by (metis Cons_nth_drop_Suc)
  then have "put_char (length d + k) (CHR 0x00) (d @ take k s @ drop k ?a) = Some (d @ take k s @ CHR 0x00 # drop (Suc k) ?a)"
    using put_char_append [of "d @ take k s" "length d + k"] k(2) by simp
  then show ?thesis
    using strlcat_end_text [OF assms(1), of 0 sz a] strlcat_loop_copies [OF assms(2), of d sz ?a tail] assms(3,4)
    by (simp add: util_strlcat_def Let_def k_def)
qed

section \<open>Powers of two\<close>

lemma next_pot_smear:
  fixes y :: "64 word"
  assumes "2 ^ m \<le> unat y" "unat y < 2 ^ Suc m" "m < 32"
  shows "next_pot (y + 1) = 2 ^ Suc m"
proof -
  let ?x1 = "y OR drop_bit 1 y" let ?x2 = "?x1 OR drop_bit 2 ?x1" let ?x4 = "?x2 OR drop_bit 4 ?x2"
  let ?x8 = "?x4 OR drop_bit 8 ?x4" let ?x16 = "?x8 OR drop_bit 16 ?x8"
  have b2: "bit ?x1 i \<longleftrightarrow> (\<exists>j<2. bit y (i + j))" for i by (rule smear_first)
  have b4: "bit ?x2 i \<longleftrightarrow> (\<exists>j<4. bit y (i + j))" for i using smear_step [OF b2] by simp
  have b8: "bit ?x4 i \<longleftrightarrow> (\<exists>j<8. bit y (i + j))" for i using smear_step [OF b4] by simp
  have b16: "bit ?x8 i \<longleftrightarrow> (\<exists>j<16. bit y (i + j))" for i using smear_step [OF b8] by simp
  have b32: "bit ?x16 i \<longleftrightarrow> (\<exists>j<32. bit y (i + j))" for i using smear_step [OF b16] by simp
  have high: "\<not> bit y j" if "32 \<le> j" for j
  proof -
    have "unat y < 2 ^ j" using assms(2,3) that by (meson Suc_leI less_le_trans one_le_numeral power_increasing le_trans)
    then have "\<not> bit (unat y) j" by (simp add: bit_iff_odd)
    then show ?thesis by (simp add: bit_unsigned_iff)
  qed
  have "bit ?x16 i \<longleftrightarrow> (\<exists>j<LENGTH(64). bit y (i + j))" for i
  proof -
    have "j < 32" if "bit y (i + j)" for j using high [of "i + j"] that by (cases "j < 32") auto
    then have "(\<exists>j<64. bit y (i + j)) \<longleftrightarrow> (\<exists>j<32. bit y (i + j))" by (meson less_trans numeral_less_iff semiring_norm(76,78,80))
    then show ?thesis using b32 by simp
  qed
  then show ?thesis using smeared_succ [of ?x16 y m] assms(1,2) by (simp add: next_pot_def Let_def)
qed


lemma next_pot_correct:
  assumes "1 \<le> unat x" "unat x \<le> 2 ^ 32"
  shows "\<exists>k \<le> 32. next_pot x = 2 ^ k \<and> unat x \<le> 2 ^ k \<and> 2 ^ k < 2 * unat x"
proof (cases "unat x = 1")
  case True
  then have "x = 1" by (simp add: word_unat_eq_iff)
  then show ?thesis by (intro exI [of _ 0]) (simp add: next_pot_def)
next
  case False
  define y where "y = x - 1"
  have y: "unat y = unat x - 1" using assms(1) unfolding y_def by (metis unat_minus_one unat_0 not_one_le_zero)
  with False assms have "1 \<le> unat y" by simp
  then obtain m where m: "2 ^ m \<le> unat y" "unat y < 2 ^ Suc m" using ex_power_ivl1 [of 2 "unat y"] by auto
  then have "(2 :: nat) ^ m < 2 ^ 32" using y assms by linarith
  then have "m < 32" by (rule power_less_imp_less_exp [rotated]) simp
  then show ?thesis using next_pot_smear [OF m] m y assms(1) by (intro exI [of _ "Suc m"]) (auto simp: y_def)
qed

section \<open>Properties\<close>

text \<open>
  C31. A byte array that is written as hexadecimal text can be read back: \<open>bytes_to_hex_string\<close> always succeeds, and \<open>hex_string_to_bytes\<close> of its
  result stores the same bytes, returns their number, and touches nothing behind them.
\<close>

theorem hex_roundtrip:
  assumes "length bs \<le> length out"
  shows "\<exists>str. bytes_to_hex_string bs (length bs) = Some str \<and> hex_string_to_bytes str out = Some (length bs, bs @ drop (length bs) out)"
proof -
  have "bytes_to_hex_string bs (length bs) = Some (hex_text bs)" using bytes_to_hex_loop_text [of 0 bs] by (simp add: bytes_to_hex_string_def)
  moreover obtain v q where w: "words_loop (hex_text bs) 0 [] = (v, q)" by fastforce
  then have "(if q < length (hex_text bs) then v @ [drop q (hex_text bs)] else v) = map hex_pair bs"
    using words_loop_fields [of 0 "hex_text bs" "[]" v q] fields_hex_text by simp
  then have "hex_string_to_bytes (hex_text bs) out = Some (length bs, bs @ drop (length bs) out)"
    using w hex_out_loop_pairs [of 0 bs out] assms by (simp add: hex_string_to_bytes_def Let_def)
  ultimately show ?thesis by blast
qed

lemma hex_roundtrip_witness:
  "\<exists>str. bytes_to_hex_string [175, 7] 2 = Some str \<and> hex_string_to_bytes str [1, 2, 3] = Some (2, [175, 7, 3])"
  using hex_roundtrip [of "[175, 7]" "[1, 2, 3]"] by (simp add: numeral_2_eq_2)

text \<open>
  \<open>split\<close> cuts a string into its fields: the pointers it stores point to the first \<open>av_max\<close> fields, in order, each ended by a NUL, it never
  stores more than \<open>av_max\<close> pointers, and the memory from the end of the string on is not changed.
\<close>

theorem split_finds_fields:
  assumes "c_string s" "c \<noteq> CHR 0x00" "n = int (length s) \<or> n = 0"
  shows "\<exists>m av. split_str (s @ CHR 0x00 # tail) n av_max c = Some (m, av) \<and> length m = length (s @ CHR 0x00 # tail) \<and>
    drop (length s) m = CHR 0x00 # tail \<and> map (\<lambda>p. c_text (drop p m)) av = take (nat av_max) (text_fields c s)"
proof -
  obtain i j m av ps where r: "split_loop c (int (length s)) av_max 0 0 (s @ CHR 0x00 # tail) [] = Some (i, j, m, av)"
    "(if j < i then av_push av_max j av else Some av) = Some ps" "drop (length s) m = CHR 0x00 # tail"
    "length m = length (s @ CHR 0x00 # tail)" "map (\<lambda>p. c_text (drop p m)) ps = take (nat av_max) (text_fields c s)"
    using split_loop_fields [of c "[]" s "[]" av_max "[]" tail] assms(1,2) by auto
  then show ?thesis using str_len_arg [OF assms(1,3)] by (simp add: split_str_def)
qed

lemma split_finds_fields_witness:
  "\<exists>m av. split_str (''a,bc,,d'' @ [CHR 0x00]) 0 3 (CHR '','') = Some (m, av) \<and> map (\<lambda>p. c_text (drop p m)) av = [''a'', ''bc'', []]"
  using split_finds_fields [of "''a,bc,,d''" "CHR '',''" 0 "[]" 3] by auto

text \<open>
  \<open>util_strlcpy\<close> and \<open>util_strlcat\<close> write at most \<open>size\<close> characters, end the text with a NUL, copy as much of the source as fits, and return the
  length of the text.
\<close>

theorem util_strl_copies:
  assumes "c_string s" "c_string d" "length d < sz" "sz \<le> length (d @ CHR 0x00 # a)"
  shows "util_strlcpy (d @ CHR 0x00 # a) (s @ CHR 0x00 # tail) sz =
      (let n = min (sz - 1) (length s) in Some (n, take n s @ CHR 0x00 # drop (Suc n) (d @ CHR 0x00 # a))) \<and>
    util_strlcat (d @ CHR 0x00 # a) (s @ CHR 0x00 # tail) sz =
      (let k = min (sz - 1 - length d) (length s) in Some (length d + k, d @ take k s @ CHR 0x00 # drop (Suc k) (CHR 0x00 # a)))"
proof -
  have "0 < sz" using assms(3) by simp
  then show ?thesis using util_strlcpy_copies [OF assms(1) _ assms(4)] util_strlcat_appends [OF assms(2,1,3,4)] by blast
qed

lemma util_strl_copies_witness:
  "util_strlcat (''ab'' @ CHR 0x00 # ''xyz'') (''cdef'' @ [CHR 0x00]) 5 = Some (4, ''abcd'' @ CHR 0x00 # ''z'')"
  using util_strl_copies [of "''cdef''" "''ab''" 5 "''xyz''" "[]"] by (simp add: Let_def)

end
