(* ===== verification/FormulaProps.thy ===== *)
theory FormulaProps
  imports MyUtilProps
begin

text \<open>
  \<open>split_simple_formula\<close>: a formula is split at its first operator into the two sides without the blanks around them; without an operator the
  function reads in front of the string.
\<close>

section \<open>Formulas\<close>

definition strip :: "string \<Rightarrow> string" where
  "strip s = rev (dropWhile is_blank (rev (dropWhile is_blank s)))"

lemma trim_tail_strip:
  "c_string t \<Longrightarrow> t = [] \<or> \<not> is_blank (hd t) \<Longrightarrow>
   \<exists>a. trim_tail (length t) (t @ CHR 0x00 # rest) = Some a \<and> c_text a = rev (dropWhile is_blank (rev t)) \<and> length a = length t + Suc (length rest)"
proof (induction t arbitrary: rest rule: rev_induct)
  case (snoc x u)
  show ?case
  proof (cases "u \<noteq> [] \<and> is_blank x")
    case True
    then obtain a where "trim_tail (length u) (u @ CHR 0x00 # CHR 0x00 # rest) = Some a" "c_text a = rev (dropWhile is_blank (rev u))"
      "length a = length u + Suc (Suc (length rest))"
      using snoc.IH [of "CHR 0x00 # rest"] snoc.prems by auto
    moreover have "(u @ x # CHR 0x00 # rest)[length u := CHR 0x00] = u @ CHR 0x00 # CHR 0x00 # rest" by simp
    moreover have "(u @ x # CHR 0x00 # rest) ! length u = x" by simp
    moreover have "length u \<ge> 1" using True by (simp add: Suc_le_eq)
    ultimately show ?thesis using True by auto
  next
    case False
    then have "\<not> is_blank x" using snoc.prems(2) by (cases u) auto
    moreover have "c_text ((u @ [x]) @ CHR 0x00 # rest) = u @ [x]" by (rule c_text_append) (rule snoc.prems(1))
    ultimately show ?thesis using False by auto
  qed
qed (simp add: c_text_def)

text \<open>The left side up to an operator at the end of \<open>l\<close>; \<open>t\<close> is what is stored.\<close>

definition stored :: "string \<Rightarrow> string \<Rightarrow> string" where
  "stored buf s = buf @ (if buf = [] then dropWhile is_blank s else s)"

lemma stored_simps [simp]:
  "stored buf [] = buf" "buf \<noteq> [] \<Longrightarrow> stored buf (x # s) = stored (buf @ [x]) s" "is_blank x \<Longrightarrow> stored [] (x # s) = stored [] s"
  "\<not> is_blank x \<Longrightarrow> stored [] (x # s) = stored [x] s"
  by (simp_all add: stored_def)

lemma formula_left_stored:
  fixes pre l :: string and f :: simple_formula
  assumes "\<forall>c \<in> set l. \<not> is_test_char c" "is_test_char c" "sf_left f = buf @ a" "length (sf_left f) = 64" "length (stored buf l) \<le> 63"
    "int (length (pre @ l)) < n"
  shows "\<exists>a. length (stored buf l @ CHR 0x00 # a) = 64 \<and> formula_left (pre @ l @ c # m) n (length pre) (length buf) f = do {
    l1 \<leftarrow> trim_tail (length (stored buf l)) (stored buf l @ CHR 0x00 # a);
    (fl, k) \<leftarrow> formula_test (pre @ l @ c # m) n (length (pre @ l));
    Some (k, case fl of None \<Rightarrow> f\<lparr>sf_left := l1\<rparr> | Some t \<Rightarrow> f\<lparr>sf_left := l1, sf_test_flag := t\<rparr>) }"
  using assms
proof (induction l arbitrary: pre buf f a)
  case Nil
  then obtain y a' where a: "a = y # a'" by (cases a) auto
  then show ?case
    using Nil by (subst formula_left.simps) (auto simp: put_char_append nth_append Let_def intro!: exI [of _ a'])
next
  case (Cons x l)
  have x: "(pre @ (x # l) @ c # m) ! length pre = x" by simp
  show ?case
  proof (cases "buf = [] \<and> is_blank x")
    case True
    then show ?thesis
      using Cons.IH [where pre = "pre @ [x]" and buf = "[]" and f = f and a = a] Cons.prems x
      by (subst formula_left.simps) (simp add: add.commute)
  next
    case False
    have st: "stored buf (x # l) = stored (buf @ [x]) l" using False by (cases "buf = []") auto
    have len: "length (buf @ [x]) \<le> length (stored (buf @ [x]) l)" by (simp add: stored_def)
    then obtain y a' where a: "a = y # a'" using Cons.prems(3-5) st by (cases a) auto
    let ?f = "f\<lparr>sf_left := buf @ x # a'\<rparr>"
    have "formula_left (pre @ (x # l) @ c # m) n (length pre) (length buf) f = formula_left ((pre @ [x]) @ l @ c # m) n (length (pre @ [x])) (length (buf @ [x])) ?f"
      using Cons.prems a False x len st by (subst formula_left.simps) (auto simp: put_char_append)
    moreover have "\<exists>a. length (stored (buf @ [x]) l @ CHR 0x00 # a) = 64 \<and>
      formula_left ((pre @ [x]) @ l @ c # m) n (length (pre @ [x])) (length (buf @ [x])) ?f = do {
        l1 \<leftarrow> trim_tail (length (stored (buf @ [x]) l)) (stored (buf @ [x]) l @ CHR 0x00 # a);
        (fl, k) \<leftarrow> formula_test ((pre @ [x]) @ l @ c # m) n (length ((pre @ [x]) @ l));
        Some (k, case fl of None \<Rightarrow> ?f\<lparr>sf_left := l1\<rparr> | Some t \<Rightarrow> ?f\<lparr>sf_left := l1, sf_test_flag := t\<rparr>) }"
      by (rule Cons.IH) (use Cons.prems a st in auto)
    ultimately show ?thesis using st by (simp cong: option.case_cong)
  qed
qed

lemma formula_right_stored:
  assumes "length (stored buf r) \<le> length (buf @ a)"
  shows "formula_right (pre @ r @ tail) (int (length (pre @ r))) (int (length pre)) (length buf) (buf @ a) =
    Some (length (stored buf r), stored buf r @ drop (length (stored buf r)) (buf @ a))"
  using assms
proof (induction r arbitrary: pre buf a)
  case Nil
  show ?case by (subst formula_right.simps) simp
next
  case (Cons x r)
  show ?case
  proof (cases "buf = [] \<and> is_blank x")
    case True
    then show ?thesis using Cons.IH [of "[]" a "pre @ [x]"] Cons.prems by (subst formula_right.simps) (simp add: nat_add_distrib add.commute)
  next
    case False
    have st: "stored buf (x # r) = stored (buf @ [x]) r" using False by (cases "buf = []") auto
    have len: "length (buf @ [x]) \<le> length (stored (buf @ [x]) r)" by (simp add: stored_def)
    then obtain y a' where a: "a = y # a'" using Cons.prems st by (cases a) auto
    have "formula_right (pre @ (x # r) @ tail) (int (length (pre @ x # r))) (int (length pre)) (length buf) (buf @ a) =
      formula_right ((pre @ [x]) @ r @ tail) (int (length ((pre @ [x]) @ r))) (int (length (pre @ [x]))) (length (buf @ [x])) ((buf @ [x]) @ a')"
      using a False by (subst formula_right.simps) (auto simp: put_char_append add.commute)
    also have "\<dots> = Some (length (stored (buf @ [x]) r), stored (buf @ [x]) r @ drop (length (stored (buf @ [x]) r)) ((buf @ [x]) @ a'))"
      by (rule Cons.IH) (use Cons.prems a st in auto)
    finally show ?thesis using st len a by (simp add: drop_Cons')
  qed
qed


text \<open>The operators and their flags.\<close>

definition test_ops :: "(string \<times> FORMULA_TEST_FLAG) list" where
  "test_ops = [(''>='', FORMULA_TEST_GREATER_OR_EQ), (''>'', FORMULA_TEST_GREATER_THAN), (''<='', FORMULA_TEST_LESS_OR_EQ), (''<'', FORMULA_TEST_LESS_THAN),
     (''!='', FORMULA_TEST_NOT_EQUAL), (''!'', FORMULA_TEST_UNKNOWN), (''=='', FORMULA_TEST_EQUAL), (''='', FORMULA_TEST_EQUAL)]"

lemma formula_test_op:
  assumes "(op, fl) \<in> set test_ops" "length op = 1 \<Longrightarrow> r = [] \<or> hd r \<noteq> CHR ''=''"
  shows "formula_test (l @ op @ r @ tail) (int (length (l @ op @ r))) (length l) = Some (Some fl, int (length (l @ op)))"
proof (cases "length op = 1")
  case True
  then obtain c where c: "op = [c]" by (auto simp: length_Suc_conv)
  have "r \<noteq> [] \<Longrightarrow> (l @ op @ r @ tail) ! Suc (length l) = hd r" using c by (cases r) (simp_all add: nth_append)
  then show ?thesis
    using assms c by (cases r) (auto simp: test_ops_def formula_test_def is_test_char_def nth_append)
next
  case False
  then show ?thesis using assms(1) by (auto simp: test_ops_def formula_test_def is_test_char_def nth_append)
qed

lemma strip_stored: "strip s = rev (dropWhile is_blank (rev (stored [] s)))"
  by (simp add: strip_def stored_def)

lemma stored_head: "stored [] s = [] \<or> \<not> is_blank (hd (stored [] s))"
  using hd_dropWhile [of is_blank s] by (auto simp: stored_def)

lemma stored_c_string: "c_string s \<Longrightarrow> c_string (stored [] s)"
  by (auto simp: stored_def c_string_def dest: set_dropWhileD)

lemma right_side:
  assumes "c_string r" "length (stored [] r) \<le> 63" "length a = 64"
  shows "\<exists>r1 r2 r3. formula_right (pre @ r @ tail) (int (length (pre @ r))) (int (length pre)) 0 a = Some (length (stored [] r), r1) \<and>
    put_char (length (stored [] r)) (CHR 0x00) r1 = Some r2 \<and> trim_tail (length (stored [] r)) r2 = Some r3 \<and> c_text r3 = strip r"
proof -
  let ?t = "stored [] r"
  obtain y a' where a: "drop (length ?t) a = y # a'" using assms(2,3) by (cases "drop (length ?t) a") auto
  have "formula_right (pre @ r @ tail) (int (length (pre @ r))) (int (length pre)) 0 a = Some (length ?t, ?t @ y # a')"
    using formula_right_stored [of "[]" r a pre tail] assms a by simp
  moreover have "put_char (length ?t) (CHR 0x00) (?t @ y # a') = Some (?t @ CHR 0x00 # a')" by (rule put_char_append) simp
  ultimately show ?thesis
    using trim_tail_strip [OF stored_c_string [OF assms(1)] stored_head, of a'] by (auto simp: strip_stored)
qed

text \<open>Without an operator the right side is read from position \<open>-1\<close>.\<close>

lemma formula_left_no_test:
  "formula_left m n i j f = Some (k, f') \<Longrightarrow> \<forall>c \<in> set (take (nat n) m). \<not> is_test_char c \<Longrightarrow> k = - 1"
proof (induction m n i j f rule: formula_left.induct)
  case (1 m n i j f)
  have "\<not> is_test_char (m ! i)" if "int i < n" "i < length m"
  proof -
    have "i < length (take (nat n) m)" "take (nat n) m ! i = m ! i" using that by auto
    then show ?thesis using 1(4) by (metis nth_mem)
  qed
  then show ?case
    using 1(3) [unfolded formula_left.simps [of m n i j f]] 1(1,2,4)
    by (auto simp: formula_test_def Let_def bind_eq_Some_conv split: if_splits)
qed

lemma formula_right_stops: "i < 0 \<Longrightarrow> 0 \<le> n \<Longrightarrow> formula_right m n i j r = None"
  by (subst formula_right.simps) simp

section \<open>Properties\<close>

text \<open>
  A formula of a left side, an operator and a right side is split as it should be: the flag of the operator is returned, and the two sides
  are stored without the blanks around them, as long as each fits its array of 64 characters.
\<close>

theorem split_simple_formula_parses:
  assumes "(op, fl) \<in> set test_ops" "length op = 1 \<Longrightarrow> r = [] \<or> hd r \<noteq> CHR ''=''" "c_string (l @ r)" "\<forall>c \<in> set l. \<not> is_test_char c"
    "length (stored [] l) \<le> 63" "length (stored [] r) \<le> 63" "length (sf_left f) = 64" "length (sf_right f) = 64"
    "n = int (length (l @ op @ r)) \<or> n = 0"
  shows "\<exists>f'. split_simple_formula ((l @ op @ r) @ CHR 0x00 # tail) n f = Some (fl, f') \<and> sf_test_flag f' = fl \<and>
    c_text (sf_left f') = strip l \<and> c_text (sf_right f') = strip r"
proof -
  let ?n = "int (length (l @ op @ r))" and ?m = "(l @ op @ r) @ CHR 0x00 # tail"
  have op: "c_string op" "op \<noteq> []" "is_test_char (hd op)" using assms(1) by (auto simp: test_ops_def is_test_char_def)
  have n: "(if n = 0 then map_option int (c_strlen ?m) else Some n) = Some ?n" using str_len_arg [of "l @ op @ r" n tail] op(1) assms(3,9) by simp
  have lt: "0 < int (length op) + int (length r)" using op(2) by (cases op) auto
  have m: "?m = [] @ l @ hd op # (tl op @ r @ CHR 0x00 # tail)" using op(2) by simp
  obtain a where a: "formula_left ?m ?n 0 0 f = do {
      l1 \<leftarrow> trim_tail (length (stored [] l)) (stored [] l @ CHR 0x00 # a);
      (fl, k) \<leftarrow> formula_test ?m ?n (length l);
      Some (k, case fl of None \<Rightarrow> f\<lparr>sf_left := l1\<rparr> | Some t \<Rightarrow> f\<lparr>sf_left := l1, sf_test_flag := t\<rparr>) }"
    using formula_left_stored [OF assms(4) op(3), of f "[]" "sf_left f" "[]" ?n "tl op @ r @ CHR 0x00 # tail", folded m] assms(5,7) lt by auto
  obtain l1 where l1: "trim_tail (length (stored [] l)) (stored [] l @ CHR 0x00 # a) = Some l1" "c_text l1 = strip l"
    using trim_tail_strip [OF stored_c_string [of l] stored_head, of a] assms(3) by (auto simp: strip_stored)
  have "formula_test ?m ?n (length l) = Some (Some fl, int (length (l @ op)))" using formula_test_op [OF assms(1,2), of l "CHR 0x00 # tail"] by simp
  then have left: "formula_left ?m ?n 0 0 f = Some (int (length (l @ op)), f\<lparr>sf_left := l1, sf_test_flag := fl\<rparr>)" using a l1(1) by simp
  obtain r0 where r0: "put_char 0 (CHR 0x00) (sf_right f) = Some r0" "length r0 = 64" using assms(8) by (auto simp: put_char_def)
  obtain r1 r2 r3 where "formula_right ?m ?n (int (length (l @ op))) 0 r0 = Some (length (stored [] r), r1)"
    "put_char (length (stored [] r)) (CHR 0x00) r1 = Some r2" "trim_tail (length (stored [] r)) r2 = Some r3" "c_text r3 = strip r"
    using right_side [of r r0 "l @ op" "CHR 0x00 # tail"] assms(3,6) r0(2) by auto
  then show ?thesis unfolding split_simple_formula_def n using left r0(1) l1(2) by simp
qed

lemma split_simple_formula_parses_witness:
  "\<exists>f'. split_simple_formula ((''hp '' @ ''>='' @ '' 10'') @ [CHR 0x00]) 0
      \<lparr>sf_left = replicate 64 (CHR ''x''), sf_right = replicate 64 (CHR ''y''), sf_test_flag = FORMULA_TEST_UNKNOWN\<rparr> = Some (FORMULA_TEST_GREATER_OR_EQ, f') \<and>
     c_text (sf_left f') = ''hp'' \<and> c_text (sf_right f') = ''10''"
  using split_simple_formula_parses [of "''>=''" FORMULA_TEST_GREATER_OR_EQ "'' 10''" "''hp ''"
    "\<lparr>sf_left = replicate 64 (CHR ''x''), sf_right = replicate 64 (CHR ''y''), sf_test_flag = FORMULA_TEST_UNKNOWN\<rparr>" 0 "[]"]
  by (auto simp: test_ops_def is_test_char_def stored_def strip_def is_blank_def)

text \<open>
  A formula without an operator makes \<open>split_simple_formula\<close> read the character in front of the string, whatever the formula is.
\<close>

theorem split_simple_formula_undefined:
  assumes "c_string s" "\<forall>c \<in> set s. \<not> is_test_char c" "n = int (length s) \<or> n = 0"
  shows "split_simple_formula (s @ CHR 0x00 # tail) n f = None"
proof -
  let ?m = "s @ CHR 0x00 # tail"
  show ?thesis
  proof (cases "formula_left ?m (int (length s)) 0 0 f")
    case None
    then show ?thesis using str_len_arg [OF assms(1,3)] by (simp add: split_simple_formula_def)
  next
    case (Some kf)
    obtain k f' where kf: "kf = (k, f')" by fastforce
    then have "k = - 1" using formula_left_no_test [of ?m "int (length s)" 0 0 f k f'] Some assms(2) by simp
    then show ?thesis
      using str_len_arg [OF assms(1,3)] Some kf
      by (cases "put_char 0 (CHR 0x00) (sf_right f')") (simp_all add: split_simple_formula_def formula_right_stops)
  qed
qed

lemma split_simple_formula_undefined_witness:
  "split_simple_formula (''abc'' @ [CHR 0x00]) 3
     \<lparr>sf_left = replicate 64 (CHR ''x''), sf_right = replicate 64 (CHR ''y''), sf_test_flag = FORMULA_TEST_UNKNOWN\<rparr> = None"
  by (rule split_simple_formula_undefined) (auto simp: is_test_char_def)

end
