(* ===== verification/ZoneManager.thy ===== *)
theory ZoneManager
  imports MyUtilProps SnprintfProps StepSystem "HOL-Library.AList"
begin

text \<open>
  \<^verbatim>\<open>src/lobby/SimpleZoneManager.cpp\<close>: the zones (game servers) that have registered, their channels, the peers of the channels, and the white list of
  addresses. A hash map is an association list in the order of its iteration, which the library leaves open; an erasing loop is a filter. Identifiers are 32-bit
  numbers. The contents of an uninitialised local array are an argument. \<open>None\<close> is undefined behaviour of the callees. The member \<open>misc\<close> of a zone is never
  written and left out.
\<close>

section \<open>State\<close>

record zone_info =
  zi_nZoneId :: cint
  zi_nType :: cint
  zi_chName :: string
  zi_chIp :: string
  zi_chDomain :: string
  zi_nPort :: "16 word"
  zi_uConnId :: "32 word"

record channel_info =
  ci_nChannelId :: cint
  ci_nChannelType :: cint
  ci_chChannelDesc :: string
  ci_bHasLock :: bool
  ci_nZoneId :: cint

record channel_peer =
  cp_nPeerId :: cint
  cp_chNick :: string
  cp_nSex :: cint
  cp_nTitleId :: cint
  cp_nFlag :: cint

record zone_manager =
  zm_zones :: "(cint \<times> zone_info) list"
  zm_channels :: "(cint \<times> channel_info) list"
  zm_peers :: "(cint \<times> channel_peer list) list"
  zm_white :: "(ip_num_array \<times> ip_num_array) list"

definition zm_new :: zone_manager where
  "zm_new = \<lparr>zm_zones = [], zm_channels = [], zm_peers = [], zm_white = []\<rparr>"

text \<open>The value that \<open>operator[]\<close> of the map creates.\<close>

definition zi_zero :: zone_info where
  "zi_zero = \<lparr>zi_nZoneId = 0, zi_nType = 0, zi_chName = replicate 32 (CHR 0x00), zi_chIp = replicate 32 (CHR 0x00),
     zi_chDomain = replicate 64 (CHR 0x00), zi_nPort = 0, zi_uConnId = 0\<rparr>"

section \<open>Lookups\<close>

definition GetZone :: "cint \<Rightarrow> zone_manager \<Rightarrow> zone_info option" where
  "GetZone nZoneId z = map_of (zm_zones z) nZoneId"

definition GetZoneWithCreate :: "cint \<Rightarrow> zone_manager \<Rightarrow> zone_info \<times> zone_manager" where
  "GetZoneWithCreate nZoneId z =
     (case map_of (zm_zones z) nZoneId of
        Some zi \<Rightarrow> (zi, z)
      | None \<Rightarrow> (zi_zero, z\<lparr>zm_zones := AList.update nZoneId zi_zero (zm_zones z)\<rparr>))"

definition GetChannel :: "cint \<Rightarrow> zone_manager \<Rightarrow> channel_info option" where
  "GetChannel nChannelId z = map_of (zm_channels z) nChannelId"

definition GetZoneByChannel :: "cint \<Rightarrow> zone_manager \<Rightarrow> zone_info option" where
  "GetZoneByChannel nChannelId z =
     (if sint nChannelId > 0 then do { ci \<leftarrow> GetChannel nChannelId z; GetZone (ci_nZoneId ci) z } else None)"

definition GetChannelPeers :: "cint \<Rightarrow> zone_manager \<Rightarrow> channel_peer list option" where
  "GetChannelPeers nChannelId z = map_of (zm_peers z) nChannelId"

text \<open>\<open>uConnId\<close> of a zone is an \<open>unsigned int\<close>, that of a connection an \<open>uint64_t\<close>; the comparison is one of 64 bits.\<close>

definition has_connid :: "64 word \<Rightarrow> zone_info \<Rightarrow> bool" where
  "has_connid uConnId zi \<longleftrightarrow> ucast (zi_uConnId zi) = uConnId"

definition GetZoneByConnId :: "64 word \<Rightarrow> zone_manager \<Rightarrow> zone_info option" where
  "GetZoneByConnId uConnId z = List.find (has_connid uConnId) (map snd (zm_zones z))"

section \<open>The white list\<close>

text \<open>
  \<open>SetWhiteName\<close> cuts the two strings of its caller; \<open>junkIp\<close> and \<open>junkMask\<close> are the contents of the local \<open>ip_pair\<close>.
\<close>

definition SetWhiteName ::
  "ip_num_array \<Rightarrow> ip_num_array \<Rightarrow> string \<Rightarrow> string \<Rightarrow> zone_manager \<Rightarrow> (string \<times> string \<times> zone_manager) option" where
  "SetWhiteName junkIp junkMask sIp sMask z = do {
     n \<leftarrow> c_strlen sIp;
     (k1, sIp1, ip) \<leftarrow> split_ip sIp (int n) junkIp;
     n2 \<leftarrow> c_strlen sMask;
     (k2, sMask1, msk) \<leftarrow> split_ip sMask (int n2) junkMask;
     Some (sIp1, sMask1, z\<lparr>zm_white := zm_white z @ [(ip, msk)]\<rparr>)
   }"

definition ip_match :: "ip_num_array \<Rightarrow> ip_num_array \<times> ip_num_array \<Rightarrow> bool" where
  "ip_match ip = (\<lambda>(lip, lmask). list_all (\<lambda>i. (ip ! i AND lmask ! i) = (lip ! i AND lmask ! i)) [0..<8])"

definition CheckIpInWhiteList :: "'f fmt_env \<Rightarrow> string \<Rightarrow> ip_num_array \<Rightarrow> string \<Rightarrow> zone_manager \<Rightarrow> bool option" where
  "CheckIpInWhiteList env scratch junk sIp z =
     (if zm_white z = [] then Some True
      else do {
        chIp \<leftarrow> print_fmt env scratch (replicate 32 (CHR 0x00)) ''%s'' [VStr (Some sIp)];
        n \<leftarrow> c_strlen chIp;
        (k, chIp1, ip) \<leftarrow> split_ip chIp (int n) junk;
        Some (list_ex (ip_match ip) (zm_white z))
      })"

section \<open>Zones\<close>

definition RemoveDirtyChannels :: "cint \<Rightarrow> zone_manager \<Rightarrow> zone_manager" where
  "RemoveDirtyChannels nZoneId z = z\<lparr>zm_channels := filter (\<lambda>(k, ci). ci_nZoneId ci \<noteq> nZoneId) (zm_channels z)\<rparr>"

definition RemoveDirtyPeers :: "cint \<Rightarrow> zone_manager \<Rightarrow> zone_manager" where
  "RemoveDirtyPeers nZoneId z =
     z\<lparr>zm_peers := filter (\<lambda>(k, l). case GetZoneByChannel k z of None \<Rightarrow> False | Some zi \<Rightarrow> zi_nZoneId zi \<noteq> nZoneId) (zm_peers z)\<rparr>"

definition zm_Register ::
  "'f fmt_env \<Rightarrow> string \<Rightarrow> ip_num_array \<Rightarrow> cint \<Rightarrow> 64 word \<Rightarrow> string \<Rightarrow> string \<Rightarrow> 16 word \<Rightarrow> zone_manager \<Rightarrow> zone_manager option" where
  "zm_Register env scratch junk nZoneId uConnId sDomain sIp nPort z = do {
     bInWhiteList \<leftarrow> CheckIpInWhiteList env scratch junk sIp z;
     if \<not> bInWhiteList then Some z
     else do {
       let (zi, z1) = GetZoneWithCreate nZoneId z;
       name \<leftarrow> print_fmt env scratch (zi_chName zi) ''Server%d'' [VInt nZoneId];
       ip \<leftarrow> print_fmt env scratch (zi_chIp zi) ''%s'' [VStr (Some sIp)];
       dom \<leftarrow> print_fmt env scratch (zi_chDomain zi) ''%s'' [VStr (Some sDomain)];
       let zi1 = zi\<lparr>zi_nZoneId := nZoneId, zi_nType := 0, zi_chName := name, zi_chIp := ip, zi_chDomain := dom, zi_nPort := nPort,
         zi_uConnId := ucast uConnId\<rparr>;
       let z2 = z1\<lparr>zm_zones := AList.update nZoneId zi1 (zm_zones z1)\<rparr>;
       Some (RemoveDirtyChannels nZoneId (RemoveDirtyPeers nZoneId z2))
     }
   }"

definition zm_Unregister :: "cint \<Rightarrow> zone_manager \<Rightarrow> zone_manager" where
  "zm_Unregister nZoneId z =
     (if map_of (zm_zones z) nZoneId \<noteq> None
      then RemoveDirtyChannels nZoneId (RemoveDirtyPeers nZoneId (z\<lparr>zm_zones := AList.delete nZoneId (zm_zones z)\<rparr>))
      else z)"

definition zm_UnregisterByConnId :: "64 word \<Rightarrow> zone_manager \<Rightarrow> zone_manager" where
  "zm_UnregisterByConnId uConnId z = z\<lparr>zm_zones := filter (\<lambda>(k, zi). \<not> has_connid uConnId zi) (zm_zones z)\<rparr>"

section \<open>Channels and their peers\<close>

definition RegisterChannel :: "channel_info \<Rightarrow> zone_manager \<Rightarrow> zone_manager" where
  "RegisterChannel ci z =
     (if sint (ci_nChannelId ci) \<ge> 0 then z\<lparr>zm_channels := AList.update (ci_nChannelId ci) ci (zm_channels z)\<rparr> else z)"

definition new_peer :: "cint \<Rightarrow> channel_peer" where
  "new_peer nPeerId = \<lparr>cp_nPeerId = nPeerId, cp_chNick = replicate 36 (CHR 0x00), cp_nSex = - 1, cp_nTitleId = 0, cp_nFlag = 0\<rparr>"

text \<open>The result is the position of the peer in its list.\<close>

definition AddChannelPeer :: "cint \<Rightarrow> cint \<Rightarrow> zone_manager \<Rightarrow> nat \<times> zone_manager" where
  "AddChannelPeer nChannelId nPeerId z =
     (let l = (case map_of (zm_peers z) nChannelId of None \<Rightarrow> [] | Some l \<Rightarrow> l);
          i = length (takeWhile (\<lambda>p. cp_nPeerId p \<noteq> nPeerId) l);
          l1 = (if i < length l then l else l @ [new_peer nPeerId])
      in (i, z\<lparr>zm_peers := AList.update nChannelId l1 (zm_peers z)\<rparr>))"

fun erase_peer :: "cint \<Rightarrow> channel_peer list \<Rightarrow> channel_peer list" where
  "erase_peer nPeerId [] = []"
| "erase_peer nPeerId (p # ps) = (if nPeerId = cp_nPeerId p then ps else p # erase_peer nPeerId ps)"

definition RemoveChannelPeer :: "cint \<Rightarrow> cint \<Rightarrow> zone_manager \<Rightarrow> zone_manager" where
  "RemoveChannelPeer nChannelId nPeerId z =
     (case map_of (zm_peers z) nChannelId of
        None \<Rightarrow> z
      | Some l \<Rightarrow> z\<lparr>zm_peers := AList.update nChannelId (erase_peer nPeerId l) (zm_peers z)\<rparr>)"

end
