(* ===== verification/ZoneProps.thy ===== *)
theory ZoneProps
  imports ZoneManager
begin

text \<open>
  What the zone manager guarantees: the maps stay consistent over every sequence of calls, a registration leaves exactly the channels and peers of the
  other registered zones, and the white list depends on bytes that nobody has set.
\<close>

section \<open>The invariant\<close>

definition zone_ok :: "cint \<times> zone_info \<Rightarrow> bool" where
  "zone_ok = (\<lambda>(k, zi). zi_nZoneId zi = k \<and> length (zi_chName zi) = 32 \<and> length (zi_chIp zi) = 32 \<and> length (zi_chDomain zi) = 64)"

definition zm_inv :: "zone_manager \<Rightarrow> bool" where
  "zm_inv z \<longleftrightarrow>
     distinct (map fst (zm_zones z)) \<and> distinct (map fst (zm_channels z)) \<and> distinct (map fst (zm_peers z)) \<and>
     (\<forall>e \<in> set (zm_zones z). zone_ok e) \<and>
     (\<forall>(k, ci) \<in> set (zm_channels z). ci_nChannelId ci = k \<and> 0 \<le> sint k) \<and>
     (\<forall>(k, l) \<in> set (zm_peers z). distinct (map cp_nPeerId l)) \<and>
     (\<forall>(ip, msk) \<in> set (zm_white z). length ip = 8 \<and> length msk = 8)"

lemma zm_new_inv: "zm_inv zm_new"
  by (simp add: zm_new_def zm_inv_def)

lemma distinct_map_filter_fst: "distinct (map fst xs) \<Longrightarrow> distinct (map fst (filter P xs))"
  by (induction xs) auto

lemma set_update_subset: "distinct (map fst xs) \<Longrightarrow> set (AList.update k v xs) \<subseteq> insert (k, v) (set xs)"
  by (induction xs) auto

lemma RemoveDirty_inv: "zm_inv z \<Longrightarrow> zm_inv (RemoveDirtyChannels n z)" "zm_inv z \<Longrightarrow> zm_inv (RemoveDirtyPeers n z)"
  by (auto simp: zm_inv_def RemoveDirtyChannels_def RemoveDirtyPeers_def intro!: distinct_map_filter_fst)

lemma zone_update_inv: "zm_inv z \<Longrightarrow> zone_ok (k, zi) \<Longrightarrow> zm_inv (z\<lparr>zm_zones := AList.update k zi (zm_zones z)\<rparr>)"
  using set_update_subset [of "zm_zones z" k zi] by (auto simp: zm_inv_def distinct_update)

lemma zm_Unregister_inv: "zm_inv z \<Longrightarrow> zm_inv (zm_Unregister n z)"
proof -
  assume z: "zm_inv z"
  have "set (AList.delete n (zm_zones z)) \<subseteq> set (zm_zones z)" by (auto simp: AList.delete_eq)
  then have "zm_inv (z\<lparr>zm_zones := AList.delete n (zm_zones z)\<rparr>)" using z by (auto simp: zm_inv_def distinct_delete)
  then show ?thesis using z by (simp add: zm_Unregister_def RemoveDirty_inv)
qed

lemma zm_UnregisterByConnId_inv: "zm_inv z \<Longrightarrow> zm_inv (zm_UnregisterByConnId c z)"
  by (auto simp: zm_inv_def zm_UnregisterByConnId_def intro!: distinct_map_filter_fst)

lemma RegisterChannel_inv: "zm_inv z \<Longrightarrow> zm_inv (RegisterChannel ci z)"
  using set_update_subset [of "zm_channels z" "ci_nChannelId ci" ci] by (auto simp: zm_inv_def RegisterChannel_def distinct_update)

lemma peer_update_inv:
  "zm_inv z \<Longrightarrow> distinct (map cp_nPeerId l) \<Longrightarrow> zm_inv (z\<lparr>zm_peers := AList.update c l (zm_peers z)\<rparr>)"
  using set_update_subset [of "zm_peers z" c l] by (auto simp: zm_inv_def distinct_update)

lemma peers_distinct: "zm_inv z \<Longrightarrow> map_of (zm_peers z) c = Some l \<Longrightarrow> distinct (map cp_nPeerId l)"
  by (auto simp: zm_inv_def dest!: map_of_SomeD)

lemma AddChannelPeer_inv:
  assumes "zm_inv z"
  shows "zm_inv (snd (AddChannelPeer c p z))"
proof -
  let ?l = "case map_of (zm_peers z) c of None \<Rightarrow> [] | Some l \<Rightarrow> l"
  have l: "distinct (map cp_nPeerId ?l)" using peers_distinct [OF assms] by (auto split: option.splits)
  have "p \<notin> cp_nPeerId ` set ?l" if "\<not> length (takeWhile (\<lambda>q. cp_nPeerId q \<noteq> p) ?l) < length ?l"
  proof -
    have "takeWhile (\<lambda>q. cp_nPeerId q \<noteq> p) ?l = ?l" using that by (metis takeWhile_eq_take take_all not_less)
    then show ?thesis by (metis (mono_tags, lifting) image_iff set_takeWhileD)
  qed
  then show ?thesis using peer_update_inv [OF assms] l by (auto simp: AddChannelPeer_def new_peer_def Let_def)
qed

lemma erase_peer_subset: "set (erase_peer p l) \<subseteq> set l"
  by (induction l) auto

lemma erase_peer_distinct: "distinct (map cp_nPeerId l) \<Longrightarrow> distinct (map cp_nPeerId (erase_peer p l))"
  by (induction l) (auto dest: set_mp [OF erase_peer_subset])

lemma RemoveChannelPeer_inv: "zm_inv z \<Longrightarrow> zm_inv (RemoveChannelPeer c p z)"
  using peer_update_inv [of z] erase_peer_distinct peers_distinct by (auto simp: RemoveChannelPeer_def split: option.splits)

section \<open>Addresses\<close>

text \<open>An address text of which every number can be read, and the array that \<open>split_ip\<close> makes of it.\<close>

definition ip_text_ok :: "string \<Rightarrow> bool" where
  "ip_text_ok s \<longleftrightarrow> c_string s \<and> (\<forall>f \<in> set (take 8 (text_fields (CHR ''.'') s)). atoi_text f \<noteq> None)"

definition ip_numbers :: "ip_num_array \<Rightarrow> string \<Rightarrow> ip_num_array" where
  "ip_numbers junk s = (let vs = map ip_byte (take 8 (text_fields (CHR ''.'') s)) in vs @ drop (length vs) junk)"

lemma length_ip_numbers [simp]: "length junk = 8 \<Longrightarrow> length (ip_numbers junk s) = 8"
  by (simp add: ip_numbers_def Let_def)

lemma split_ip_numbers:
  assumes "ip_text_ok s" "length junk = 8"
  shows "\<exists>k m. split_ip (s @ CHR 0x00 # tail) (int (length s)) junk = Some (k, m, ip_numbers junk s)"
  using split_ip_fields [of s "int (length s)" junk tail] assms by (auto simp: ip_text_ok_def ip_numbers_def Let_def)

lemma SetWhiteName_eff:
  assumes "ip_text_ok sIp" "ip_text_ok sMask" "length junk = 8" "length junk2 = 8"
  shows "\<exists>m1 m2. SetWhiteName junk junk2 (sIp @ CHR 0x00 # t1) (sMask @ CHR 0x00 # t2) z =
    Some (m1, m2, z\<lparr>zm_white := zm_white z @ [(ip_numbers junk sIp, ip_numbers junk2 sMask)]\<rparr>)"
  using split_ip_numbers [OF assms(1,3), of t1] split_ip_numbers [OF assms(2,4), of t2] assms(1,2)
  by (auto simp: SetWhiteName_def c_strlen_text ip_text_ok_def)

lemma print_s:
  assumes "length s < length buf" "length buf \<le> 64" "length scratch = 32"
  shows "print_fmt env scratch buf ''%s'' [VStr (Some s)] = Some (s @ CHR 0x00 # drop (Suc (length s)) buf)"
  using print_fmt_items [of "[Str s]" scratch buf env] assms by (simp add: INT_MAX_def)

lemma CheckIp_eff:
  assumes "ip_text_ok sIp" "length sIp < 32" "length junk = 8" "length scratch = 32"
  shows "CheckIpInWhiteList env scratch junk sIp z = Some (zm_white z = [] \<or> list_ex (ip_match (ip_numbers junk sIp)) (zm_white z))"
proof -
  let ?t = "drop (Suc (length sIp)) (replicate 32 (CHR 0x00))"
  obtain k m where "split_ip (sIp @ CHR 0x00 # ?t) (int (length sIp)) junk = Some (k, m, ip_numbers junk sIp)"
    using split_ip_numbers [OF assms(1,3)] by blast
  moreover have "c_strlen (sIp @ CHR 0x00 # ?t) = Some (length sIp)" using assms(1) by (intro c_strlen_text) (simp add: ip_text_ok_def)
  ultimately show ?thesis
    using print_s [of sIp "replicate 32 (CHR 0x00)" scratch env] assms(2,4) by (auto simp: CheckIpInWhiteList_def)
qed


section \<open>Names\<close>

lemma dec_digit_not_NUL: "d < 10 \<Longrightarrow> dec_digit d \<noteq> CHR 0x00"
proof -
  have "list_all (\<lambda>d. dec_digit d \<noteq> CHR 0x00) [0..<10]" by code_simp
  then show "d < 10 \<Longrightarrow> dec_digit d \<noteq> CHR 0x00" by (simp add: list_all_iff)
qed

lemma c_string_dec: "c_string (dec_string n)"
proof (induction n rule: dec_string.induct)
  case (1 n)
  then show ?case by (subst dec_string.simps) (auto simp: dec_digit_not_NUL)
qed

lemma c_string_int: "c_string (int_string v)"
  by (simp add: int_string_def c_string_dec)

lemma length_dec_string: "n < 10 ^ Suc k \<Longrightarrow> length (dec_string n) \<le> Suc k"
proof (induction k arbitrary: n)
  case 0
  then show ?case by (simp add: dec_string_small)
next
  case (Suc k)
  show ?case
  proof (cases "n < 10")
    case False
    have "n div 10 < 10 ^ Suc k" using Suc.prems by (simp add: less_mult_imp_div_less mult.commute)
    then show ?thesis using Suc.IH [of "n div 10"] False by (simp add: dec_string_step)
  qed (simp add: dec_string_small)
qed

lemma length_zone_id: "length (int_string (sint (n :: cint))) \<le> 11"
proof -
  have "- (2 ^ 31) \<le> sint n" "sint n < 2 ^ 31" using sint_ge [of n] sint_less [of n] by simp_all
  then have "nat (sint n) < 10 ^ Suc 9" "nat (- sint n) < 10 ^ Suc 9" by auto
  then have "length (dec_string (nat (sint n))) \<le> Suc 9" "length (dec_string (nat (- sint n))) \<le> Suc 9" using length_dec_string by blast+
  then show ?thesis by (simp add: int_string_def)
qed

lemma print_server:
  assumes "length buf = 32" "length scratch = 32" "sint n \<noteq> - (2 ^ 31)"
  shows "\<exists>b. print_fmt env scratch buf ''Server%d'' [VInt n] = Some b \<and> c_text b = ''Server'' @ int_string (sint n) \<and> length b = 32"
proof -
  let ?its = "[Lit ''Server'', Dec ''d'' (VInt n)]" and ?tx = "''Server'' @ int_string (sint n)"
  have its: "list_all item_ok ?its" "concat (map item_text ?its) = ?tx" "concat (map item_fmt ?its) = ''Server%d''" "concat (map item_args ?its) = [VInt n]"
    using assms(3) by (simp_all add: fast_value_def literal_def)
  have len: "length ?tx < length buf" using length_zone_id [of n] assms(1) by simp
  have "print_fmt env scratch buf ''Server%d'' [VInt n] = Some (?tx @ CHR 0x00 # drop (Suc (length ?tx)) buf)"
    using print_fmt_items [OF its(1) assms(2), of buf env] len assms(1) unfolding its by (simp add: INT_MAX_def)
  moreover have "c_text (?tx @ CHR 0x00 # drop (Suc (length ?tx)) buf) = ?tx" by (rule c_text_append) (simp add: c_string_int)
  ultimately show ?thesis using len assms(1) by simp
qed

lemma print_text_buf:
  assumes "c_string s" "length s < length buf" "length buf \<le> 64" "length scratch = 32"
  shows "\<exists>b. print_fmt env scratch buf ''%s'' [VStr (Some s)] = Some b \<and> c_text b = s \<and> length b = length buf"
  using print_s [OF assms(2-4), of env] assms(1,2) by simp

section \<open>Registration\<close>

definition zm_clean :: "cint \<Rightarrow> zone_manager \<Rightarrow> zone_manager" where
  "zm_clean n z = RemoveDirtyChannels n (RemoveDirtyPeers n z)"

lemma zm_clean_simps [simp]: "zm_zones (zm_clean n z) = zm_zones z" "zm_white (zm_clean n z) = zm_white z"
  by (simp_all add: zm_clean_def RemoveDirtyChannels_def RemoveDirtyPeers_def)

lemma map_of_filter:
  "distinct (map fst xs) \<Longrightarrow> map_of (filter P xs) k = (case map_of xs k of None \<Rightarrow> None | Some v \<Rightarrow> if P (k, v) then Some v else None)"
  by (induction xs) (auto split: option.splits simp: map_of_eq_None_iff rev_image_eqI)

lemma GetZone_id: "zm_inv z \<Longrightarrow> GetZone n z = Some zi \<Longrightarrow> zi_nZoneId zi = n"
  by (auto simp: zm_inv_def GetZone_def zone_ok_def dest!: map_of_SomeD)

lemma clean_channel:
  "zm_inv z \<Longrightarrow> GetChannel c (zm_clean n z) = (case GetChannel c z of None \<Rightarrow> None | Some ci \<Rightarrow> if ci_nZoneId ci = n then None else Some ci)"
  by (auto simp: GetChannel_def zm_clean_def RemoveDirtyChannels_def RemoveDirtyPeers_def zm_inv_def map_of_filter split: option.splits)

lemma clean_zone_by_channel:
  assumes "zm_inv z"
  shows "GetZoneByChannel c (zm_clean n z) = (case GetZoneByChannel c z of None \<Rightarrow> None | Some zi \<Rightarrow> if zi_nZoneId zi = n then None else Some zi)"
proof -
  have "GetZone k (zm_clean n z) = GetZone k z" for k by (simp add: GetZone_def)
  then show ?thesis
    using GetZone_id [OF assms] by (auto simp: GetZoneByChannel_def clean_channel [OF assms] split: option.splits bind_splits)
qed

lemma clean_peers:
  assumes "zm_inv z"
  shows "GetChannelPeers c (zm_clean n z) = (if GetZoneByChannel c (zm_clean n z) = None then None else GetChannelPeers c z)"
proof -
  have "GetChannelPeers c (zm_clean n z) = (case GetZoneByChannel c z of None \<Rightarrow> None | Some zi \<Rightarrow> if zi_nZoneId zi = n then None else GetChannelPeers c z)"
    using assms by (auto simp: GetChannelPeers_def zm_clean_def RemoveDirtyChannels_def RemoveDirtyPeers_def zm_inv_def map_of_filter split: option.splits)
  then show ?thesis using clean_zone_by_channel [OF assms] by (simp split: option.splits)
qed

text \<open>What a registration stores.\<close>

definition zone_data :: "cint \<Rightarrow> 64 word \<Rightarrow> string \<Rightarrow> string \<Rightarrow> 16 word \<Rightarrow> zone_info \<Rightarrow> bool" where
  "zone_data n uConnId sDomain sIp nPort zi \<longleftrightarrow>
     zi_nZoneId zi = n \<and> c_text (zi_chName zi) = ''Server'' @ int_string (sint n) \<and> c_text (zi_chIp zi) = sIp \<and>
     c_text (zi_chDomain zi) = sDomain \<and> zi_nPort zi = nPort \<and> zi_uConnId zi = ucast uConnId"

definition reg_args_ok :: "cint \<Rightarrow> string \<Rightarrow> string \<Rightarrow> ip_num_array \<Rightarrow> string \<Rightarrow> bool" where
  "reg_args_ok n sDomain sIp junk scratch \<longleftrightarrow>
     sint n \<noteq> - (2 ^ 31) \<and> ip_text_ok sIp \<and> length sIp < 32 \<and> c_string sDomain \<and> length sDomain < 64 \<and> length junk = 8 \<and> length scratch = 32"

definition admitted :: "ip_num_array \<Rightarrow> string \<Rightarrow> zone_manager \<Rightarrow> bool" where
  "admitted junk sIp z \<longleftrightarrow> zm_white z = [] \<or> list_ex (ip_match (ip_numbers junk sIp)) (zm_white z)"

lemma Register_eff:
  assumes "zm_inv z" "reg_args_ok n sDomain sIp junk scratch"
  shows "\<exists>zi. zone_ok (n, zi) \<and> zone_data n uConnId sDomain sIp nPort zi \<and>
    zm_Register env scratch junk n uConnId sDomain sIp nPort z =
      Some (if admitted junk sIp z then zm_clean n (z\<lparr>zm_zones := AList.update n zi (zm_zones z)\<rparr>) else z)"
proof -
  obtain zi z1 where c: "GetZoneWithCreate n z = (zi, z1)" by fastforce
  then have zi: "length (zi_chName zi) = 32" "length (zi_chIp zi) = 32" "length (zi_chDomain zi) = 64"
    using assms(1) by (auto simp: GetZoneWithCreate_def zi_zero_def zm_inv_def zone_ok_def dest!: map_of_SomeD split: option.splits)
  have z1: "z1\<lparr>zm_zones := AList.update n x (zm_zones z1)\<rparr> = z\<lparr>zm_zones := AList.update n x (zm_zones z)\<rparr>" for x
    using c by (auto simp: GetZoneWithCreate_def split: option.splits)
  note a = assms(2) [unfolded reg_args_ok_def]
  obtain nm where nm: "print_fmt env scratch (zi_chName zi) ''Server%d'' [VInt n] = Some nm" "c_text nm = ''Server'' @ int_string (sint n)" "length nm = 32"
    using print_server [OF zi(1)] a by blast
  obtain ip where ip: "print_fmt env scratch (zi_chIp zi) ''%s'' [VStr (Some sIp)] = Some ip" "c_text ip = sIp" "length ip = 32"
    using print_text_buf [of sIp "zi_chIp zi" scratch env] a zi(2) by (auto simp: ip_text_ok_def)
  obtain dom where dom: "print_fmt env scratch (zi_chDomain zi) ''%s'' [VStr (Some sDomain)] = Some dom" "c_text dom = sDomain" "length dom = 64"
    using print_text_buf [of sDomain "zi_chDomain zi" scratch env] a zi(3) by auto
  let ?zi = "zi\<lparr>zi_nZoneId := n, zi_nType := 0, zi_chName := nm, zi_chIp := ip, zi_chDomain := dom, zi_nPort := nPort, zi_uConnId := ucast uConnId\<rparr>"
  have "CheckIpInWhiteList env scratch junk sIp z = Some (admitted junk sIp z)"
    using CheckIp_eff [of sIp junk scratch env z] a by (simp add: admitted_def)
  then have "zm_Register env scratch junk n uConnId sDomain sIp nPort z =
    Some (if admitted junk sIp z then zm_clean n (z\<lparr>zm_zones := AList.update n ?zi (zm_zones z)\<rparr>) else z)"
    using c z1 nm(1) ip(1) dom(1) by (simp add: zm_Register_def zm_clean_def Let_def)
  moreover have "zone_ok (n, ?zi)" "zone_data n uConnId sDomain sIp nPort ?zi" using nm ip dom by (simp_all add: zone_ok_def zone_data_def)
  ultimately show ?thesis by blast
qed


section \<open>Sequences of calls\<close>

datatype zm_op =
    ZRegister cint "64 word" string string "16 word" ip_num_array string
  | ZUnregister cint
  | ZUnregisterByConnId "64 word"
  | ZSetWhiteName string string ip_num_array ip_num_array
  | ZRegisterChannel channel_info
  | ZAddPeer cint cint
  | ZRemovePeer cint cint

fun zm_do :: "'f fmt_env \<Rightarrow> zm_op \<Rightarrow> zone_manager \<Rightarrow> zone_manager option" where
  "zm_do env (ZRegister n uConnId sDomain sIp nPort junk scratch) z = zm_Register env scratch junk n uConnId sDomain sIp nPort z"
| "zm_do env (ZUnregister n) z = Some (zm_Unregister n z)"
| "zm_do env (ZUnregisterByConnId uConnId) z = Some (zm_UnregisterByConnId uConnId z)"
| "zm_do env (ZSetWhiteName sIp sMask junk junk2) z =
     map_option (\<lambda>(m1, m2, z). z) (SetWhiteName junk junk2 (sIp @ [CHR 0x00]) (sMask @ [CHR 0x00]) z)"
| "zm_do env (ZRegisterChannel ci) z = Some (RegisterChannel ci z)"
| "zm_do env (ZAddPeer c p) z = Some (snd (AddChannelPeer c p z))"
| "zm_do env (ZRemovePeer c p) z = Some (RemoveChannelPeer c p z)"

fun zm_can :: "zone_manager \<Rightarrow> zm_op \<Rightarrow> bool" where
  "zm_can z (ZRegister n uConnId sDomain sIp nPort junk scratch) = reg_args_ok n sDomain sIp junk scratch"
| "zm_can z (ZSetWhiteName sIp sMask junk junk2) = (ip_text_ok sIp \<and> ip_text_ok sMask \<and> length junk = 8 \<and> length junk2 = 8)"
| "zm_can z op = True"

lemma zm_do_inv:
  assumes "zm_inv z" "zm_can z op"
  shows "\<exists>z'. zm_do env op z = Some z' \<and> zm_inv z'"
proof (cases op)
  case (ZRegister n uConnId sDomain sIp nPort junk scratch)
  then show ?thesis
    using Register_eff [OF assms(1), of n sDomain sIp junk scratch uConnId nPort env] assms zone_update_inv [OF assms(1)]
    by (auto simp: zm_clean_def RemoveDirty_inv)
next
  case (ZSetWhiteName sIp sMask junk junk2)
  then show ?thesis
    using SetWhiteName_eff [of sIp sMask junk junk2 "[]" "[]" z] assms by (auto simp: zm_inv_def)
qed (use assms(1) in \<open>auto simp: zm_Unregister_inv zm_UnregisterByConnId_inv RegisterChannel_inv AddChannelPeer_inv RemoveChannelPeer_inv\<close>)

interpretation zones: step_system zm_can "zm_do env" zm_new zm_inv
  by unfold_locales (auto simp: zm_new_inv zm_do_inv)

definition zm_reachable :: "'f fmt_env \<Rightarrow> zone_manager \<Rightarrow> bool" where
  "zm_reachable env z \<longleftrightarrow> reaches zm_can (zm_do env) zm_new z"

lemma zm_reachable_inv: "zm_reachable env z \<Longrightarrow> zm_inv z"
  unfolding zm_reachable_def by (rule zones.reaches_invar)

section \<open>Properties\<close>


lemma home_ok: "ip_text_ok ''10.0.0.1''"
  unfolding ip_text_ok_def by code_simp


text \<open>
  C27. A registration that the white list admits stores the data of the zone, leaves the other zones alone, removes the channels of the zone and
  no other, and leaves the peers of exactly those channels that belong to a registered zone; one that is not admitted changes nothing.
\<close>

theorem zone_registered:
  assumes "zm_reachable env z" "reg_args_ok n sDomain sIp junk scratch"
  shows "\<exists>z'. zm_Register env scratch junk n uConnId sDomain sIp nPort z = Some z' \<and>
    (if admitted junk sIp z
     then (\<exists>zi. GetZone n z' = Some zi \<and> zone_data n uConnId sDomain sIp nPort zi) \<and> (\<forall>k. k \<noteq> n \<longrightarrow> GetZone k z' = GetZone k z) \<and>
       (\<forall>c. GetChannel c z' = (case GetChannel c z of None \<Rightarrow> None | Some ci \<Rightarrow> if ci_nZoneId ci = n then None else Some ci)) \<and>
       (\<forall>c. GetChannelPeers c z' = (if GetZoneByChannel c z' = None then None else GetChannelPeers c z))
     else z' = z)"
proof -
  obtain zi where zi: "zone_ok (n, zi)" "zone_data n uConnId sDomain sIp nPort zi" "zm_Register env scratch junk n uConnId sDomain sIp nPort z =
      Some (if admitted junk sIp z then zm_clean n (z\<lparr>zm_zones := AList.update n zi (zm_zones z)\<rparr>) else z)"
    using Register_eff [OF zm_reachable_inv [OF assms(1)] assms(2)] by blast
  let ?z = "z\<lparr>zm_zones := AList.update n zi (zm_zones z)\<rparr>"
  have inv: "zm_inv ?z" by (rule zone_update_inv [OF zm_reachable_inv [OF assms(1)] zi(1)])
  have "GetZone k (zm_clean n ?z) = (if k = n then Some zi else GetZone k z)" for k by (simp add: GetZone_def update_conv')
  moreover have "GetChannel c ?z = GetChannel c z" "GetChannelPeers c ?z = GetChannelPeers c z" for c by (simp_all add: GetChannel_def GetChannelPeers_def)
  ultimately show ?thesis using zi(2,3) clean_channel [OF inv, of _ n] clean_peers [OF inv, of _ n] by simp
qed

lemma zone_registered_witness:
  "\<exists>z'. zm_Register c_env (replicate 32 (CHR 0x00)) (replicate 8 0) 7 1000000001 ''game'' ''10.0.0.1'' 80 zm_new = Some z' \<and>
     (\<exists>zi. GetZone 7 z' = Some zi \<and> c_text (zi_chDomain zi) = ''game'')"
proof -
  have "zm_reachable c_env zm_new" by (simp add: zm_reachable_def reaches_start)
  moreover have "reg_args_ok 7 ''game'' ''10.0.0.1'' (replicate 8 0) (replicate 32 (CHR 0x00))" using home_ok by (simp add: reg_args_ok_def)
  moreover have "admitted (replicate 8 0) ''10.0.0.1'' zm_new" by (simp add: admitted_def zm_new_def)
  ultimately show ?thesis using zone_registered [of c_env zm_new 7 "''game''" "''10.0.0.1''" "replicate 8 0" "replicate 32 (CHR 0x00)" 1000000001 80]
    by (auto simp: zone_data_def)
qed


lemma ip_numbers_nth:
  assumes "length junk = 8" "i < 8"
  shows "ip_numbers junk s ! i = (if i < length (text_fields (CHR ''.'') s) then ip_byte (text_fields (CHR ''.'') s ! i) else junk ! i)"
  using assms by (auto simp: ip_numbers_def Let_def nth_append min_def)


lemma ip_match_numbers:
  assumes "length (text_fields (CHR ''.'') m) \<le> length (text_fields (CHR ''.'') s)" "length (text_fields (CHR ''.'') s) < 8"
  shows "ip_match (ip_numbers (replicate 8 1) s) (ip_numbers (replicate 8 0) s, ip_numbers (replicate 8 0) m)"
    "\<not> ip_match (ip_numbers (replicate 8 1) s) (ip_numbers (replicate 8 0) s, ip_numbers (replicate 8 255) m)"
proof -
  show "ip_match (ip_numbers (replicate 8 1) s) (ip_numbers (replicate 8 0) s, ip_numbers (replicate 8 0) m)"
    using assms by (auto simp: ip_match_def list_all_iff ip_numbers_nth)
  have "ip_numbers (replicate 8 1) s ! 7 = 1" "ip_numbers (replicate 8 0) s ! 7 = 0" "ip_numbers (replicate 8 255) m ! 7 = 255"
    using assms by (simp_all add: ip_numbers_nth)
  then show "\<not> ip_match (ip_numbers (replicate 8 1) s) (ip_numbers (replicate 8 0) s, ip_numbers (replicate 8 255) m)"
    by (auto simp: ip_match_def list_all_iff intro!: bexI [of _ 7])
qed

text \<open>
  C37. The white list compares eight bytes of an address, but \<open>split_ip\<close> sets only as many as the address has numbers, and the rest is uninitialised: for
  an address that was itself put on the list, the same calls with the same arguments admit it or refuse it, depending on the old contents of the
  local arrays.
\<close>

theorem white_list_uninitialised:
  assumes "ip_text_ok s" "ip_text_ok m" "length s < 32" "length (text_fields (CHR ''.'') m) \<le> length (text_fields (CHR ''.'') s)"
    "length (text_fields (CHR ''.'') s) < 8" "zm_white z = []" "length scratch = 32"
  shows "\<exists>m1 m2 z1 n1 n2 z2. SetWhiteName (replicate 8 0) (replicate 8 0) (s @ [CHR 0x00]) (m @ [CHR 0x00]) z = Some (m1, m2, z1) \<and>
    CheckIpInWhiteList env scratch (replicate 8 1) s z1 = Some True \<and>
    SetWhiteName (replicate 8 0) (replicate 8 255) (s @ [CHR 0x00]) (m @ [CHR 0x00]) z = Some (n1, n2, z2) \<and>
    CheckIpInWhiteList env scratch (replicate 8 1) s z2 = Some False"
proof -
  let ?z = "\<lambda>j. z\<lparr>zm_white := [(ip_numbers (replicate 8 0) s, ip_numbers (replicate 8 j) m)]\<rparr>"
  have set: "\<exists>m1 m2. SetWhiteName (replicate 8 0) (replicate 8 j) (s @ [CHR 0x00]) (m @ [CHR 0x00]) z = Some (m1, m2, ?z j)" for j
    using SetWhiteName_eff [OF assms(1,2), of "replicate 8 0" "replicate 8 j" "[]" "[]" z] assms(6) by simp
  have "CheckIpInWhiteList env scratch (replicate 8 1) s (?z 0) = Some True" "CheckIpInWhiteList env scratch (replicate 8 1) s (?z 255) = Some False"
    using CheckIp_eff [OF assms(1,3) _ assms(7), of "replicate 8 1" env "?z 0"] CheckIp_eff [OF assms(1,3) _ assms(7), of "replicate 8 1" env "?z 255"]
      ip_match_numbers [OF assms(4,5)] by simp_all
  then show ?thesis using set [of 0] set [of 255] by blast
qed

lemma mask_ok: "ip_text_ok ''255.255.0.0''"
  unfolding ip_text_ok_def by code_simp

lemma white_list_uninitialised_witness:
  "\<exists>m1 m2 z1 n1 n2 z2.
    SetWhiteName (replicate 8 0) (replicate 8 0) (''10.0.0.1'' @ [CHR 0x00]) (''255.255.0.0'' @ [CHR 0x00]) zm_new = Some (m1, m2, z1) \<and>
    CheckIpInWhiteList c_env (replicate 32 (CHR 0x00)) (replicate 8 1) ''10.0.0.1'' z1 = Some True \<and>
    SetWhiteName (replicate 8 0) (replicate 8 255) (''10.0.0.1'' @ [CHR 0x00]) (''255.255.0.0'' @ [CHR 0x00]) zm_new = Some (n1, n2, z2) \<and>
    CheckIpInWhiteList c_env (replicate 32 (CHR 0x00)) (replicate 8 1) ''10.0.0.1'' z2 = Some False"
  by (rule white_list_uninitialised) (use home_ok mask_ok in \<open>simp_all add: zm_new_def\<close>)

lemma has_connid_low: "has_connid u zi \<Longrightarrow> unat u < 2 ^ 32"
proof -
  assume "has_connid u zi"
  then have "unat u = unat (from_u32 (zi_uConnId zi))" by (simp add: has_connid_def from_u32_def)
  moreover have "unat (zi_uConnId zi) < 2 ^ 32" using unsigned_less [of "zi_uConnId zi"] by simp
  ultimately show ?thesis by simp
qed

lemma has_connid_ucast: "unat (u :: 64 word) < 2 ^ 32 \<Longrightarrow> zi_uConnId zi = ucast u \<Longrightarrow> has_connid u zi"
  by (simp add: has_connid_def word_unat_eq_iff unsigned_ucast_eq take_bit_nat_eq_self)

text \<open>
  C38. A zone keeps only the low 32 bits of the identifier of its connection, while identifiers go up to \<open>TCP_CONNID_MAX\<close>, which is larger: a zone
  that has just registered is found by its connection exactly if the identifier is below \<open>2\<^sup>3\<^sup>2\<close>, and otherwise \<open>UnregisterByConnId\<close> does nothing when the connection is lost.
\<close>

theorem zone_connid_truncated:
  assumes "zm_reachable env z" "reg_args_ok n sDomain sIp junk scratch" "admitted junk sIp z"
  shows "\<exists>z'. zm_Register env scratch junk n uConnId sDomain sIp nPort z = Some z' \<and> GetZone n z' \<noteq> None \<and>
    (GetZoneByConnId uConnId z' \<noteq> None \<longleftrightarrow> unat uConnId < 2 ^ 32) \<and> (\<not> unat uConnId < 2 ^ 32 \<longrightarrow> zm_UnregisterByConnId uConnId z' = z')"
proof -
  obtain zi where zi: "zone_data n uConnId sDomain sIp nPort zi" "zm_Register env scratch junk n uConnId sDomain sIp nPort z =
      Some (zm_clean n (z\<lparr>zm_zones := AList.update n zi (zm_zones z)\<rparr>))"
    using Register_eff [OF zm_reachable_inv [OF assms(1)] assms(2), of uConnId nPort env] assms(3) by auto
  let ?z = "zm_clean n (z\<lparr>zm_zones := AList.update n zi (zm_zones z)\<rparr>)"
  have get: "GetZone n ?z = Some zi" by (simp add: GetZone_def update_conv')
  then have "(n, zi) \<in> set (zm_zones ?z)" by (auto simp: GetZone_def dest!: map_of_SomeD)
  then have "zi \<in> set (map snd (zm_zones ?z))" by force
  then have "GetZoneByConnId uConnId ?z \<noteq> None \<longleftrightarrow> unat uConnId < 2 ^ 32"
    using has_connid_low [of uConnId] has_connid_ucast [of uConnId zi] zi(1) unfolding GetZoneByConnId_def zone_data_def by (metis find_None_iff2 find_None_iff)
  moreover have "zm_UnregisterByConnId uConnId ?z = ?z" if "\<not> unat uConnId < 2 ^ 32"
  proof -
    have "filter (\<lambda>(k, zi). \<not> has_connid uConnId zi) (zm_zones ?z) = zm_zones ?z" using has_connid_low [of uConnId] that by (intro filter_True) auto
    then show ?thesis by (simp add: zm_UnregisterByConnId_def)
  qed
  ultimately show ?thesis using zi(2) get by blast
qed

lemma zone_connid_truncated_witness:
  "\<exists>z'. zm_Register c_env (replicate 32 (CHR 0x00)) (replicate 8 0) 7 5000000000 ''game'' ''10.0.0.1'' 80 zm_new = Some z' \<and> GetZone 7 z' \<noteq> None \<and>
     GetZoneByConnId 5000000000 z' = None \<and> zm_UnregisterByConnId 5000000000 z' = z'"
proof -
  have "zm_reachable c_env zm_new" by (simp add: zm_reachable_def reaches_start)
  moreover have "reg_args_ok 7 ''game'' ''10.0.0.1'' (replicate 8 0) (replicate 32 (CHR 0x00))" using home_ok by (simp add: reg_args_ok_def)
  moreover have "admitted (replicate 8 0) ''10.0.0.1'' zm_new" by (simp add: admitted_def zm_new_def)
  ultimately show ?thesis using zone_connid_truncated [of c_env zm_new 7 "''game''" "''10.0.0.1''" "replicate 8 0" "replicate 32 (CHR 0x00)" 5000000000 80] by simp
qed

end
