(* ===== verification/Spec2Isabelle.thy ===== *)
theory Spec2Isabelle
  imports BipBuf FastStrstr Freelist TcpProps FastMemcpy SnprintfConv AccountManager UvIsolatedProps KjProps RwProps FormulaProps ZoneProps
begin

text \<open>
  A verification development for \<^verbatim>\<open>netsystem\<close>, a C and C++ networking library: TCP transports over libuv, kj and libevent, the framing of packets,
  a lobby with accounts and zones, HTTP helpers, and the buffers, queues, allocators and text functions below them. Paths are relative to \<^verbatim>\<open>src/src\<close>.

  \<^bold>\<open>The program.\<close> A transport reads from a socket into the bip buffer of the connection (\<^verbatim>\<open>base/bip_buf.c\<close>) and asks the packet object of the connection to
  decode it (\<^verbatim>\<open>tcp/TcpInnerPacket.cpp\<close>, \<^verbatim>\<open>tcp/TcpOuterPacket.cpp\<close>): pages are reassembled into packets, which go to the event manager. Sending frames a packet into
  pages and hands them to the connection. The connection manager (\<^verbatim>\<open>tcp/TcpConnManager.cpp\<close>) owns the connections of a factory by server and identifier, and deletes
  removed ones through a recycler. The libuv transport (\<^verbatim>\<open>tcp/uv\<close>) runs in one thread; the kj transport (\<^verbatim>\<open>tcp/kj\<close>) has a front end and a back end that
  exchange commands and callbacks through lock-free queues (\<^verbatim>\<open>base/concurrent/readerwriterqueue.h\<close>) and count for each connection what was sent and handled. The
  lobby (\<^verbatim>\<open>lobby\<close>) registers accounts in an object pool (\<^verbatim>\<open>base/ObjectPool.hpp\<close>) with caches keyed by a string hash (\<^verbatim>\<open>base/cityhash\<close>), and prints their fields with the
  library's own \<open>o_snprintf\<close> (\<^verbatim>\<open>base/snprintf\<close>).

  \<^bold>\<open>Conventions.\<close> Integers have the width of the source. Undefined behaviour (an access outside a block, freed memory, a null dereference, a failed assertion) is
  the result \<open>None\<close>, in the formatted output an error value; the safety theorems say that it does not occur, the theorems of kind error say where it does. What
  code outside the repository does is an argument: the results of libuv calls, the contents of fresh memory, the locale and the floating-point arithmetic of the
  formatted output, the result of \<open>SendRaw\<close> for the packets. Loops are terminating functions, or partial functions of type
  option that are proved to return (the free lists, \<open>Post\<close>). Three loops have a bound: \<open>RunOnce\<close> has one in the source, \<open>BlockingCommit\<close> waits for as many commands as the
  queue holds, and the waiting loop of \<open>OnDelete\<close> takes a number of rounds, since it is proved that no number of them is enough.

  \<^bold>\<open>Shared theories.\<close>
  \<^item> \<open>Prelude\<close>: machine types, blocks of memory, C strings, the allocator, lemmas on lists and words. \<open>RoundUp\<close>: rounding up to a power of two by smearing bits.
  \<^item> \<open>ByteQueue\<close>, \<open>UnitStream\<close>: the locales \<open>byte_queue\<close> (a bounded queue of bytes) and \<open>unit_stream\<close> (receiving self-delimiting units through it, whatever the sizes of
    the reads), interpreted by the bip buffer (\<open>bq\<close>) and by the bip buffer with the packet decoder (\<open>tcps\<close>).
  \<^item> \<open>Freelist\<close>: the locale \<open>freelist\<close> of an allocator with an intrusive free list, interpreted by the handles, requests and buffers of \<^verbatim>\<open>tcp/uv/uv_tls_alloc.c\<close> and, in
    \<open>PacketBuffer\<close>, by the packet buffers.
  \<^item> \<open>StepSystem\<close>: the locale \<open>step_system\<close> of a system that runs in steps with an invariant, interpreted by the client connections (\<open>clients\<close>), the isolated
    connections (\<open>isolated\<close>), the kj factory (\<open>factory\<close>) and the zone manager (\<open>zones\<close>).
  \<^item> \<open>ObjectPool\<close>: the locale \<open>id_pool\<close> of a pool of identifiers, interpreted by the object pool.

  \<^bold>\<open>Components.\<close>
  \<^item> \<open>BipBuf\<close>, \<open>FastStrstr\<close> (\<^verbatim>\<open>base/bip_buf.c\<close>): every operation; no sequence of them has undefined behaviour, reserve, commit and decommit implement a byte queue, and
    when the substring search is right.
  \<^item> \<open>TcpPacketDef\<close>, \<open>PacketBuffer\<close>, \<open>TcpPacket\<close>, \<open>TcpReceive\<close>, \<open>TcpSend\<close>, \<open>TcpStream\<close>, \<open>TcpProps\<close> (\<^verbatim>\<open>tcp/tcp_packet_def.h\<close>, both packet classes): the wire layout, \<open>Post\<close> and \<open>DecodeStream\<close> with their
    buffers; any bytes of a peer are safe, and posted packets are delivered in order however the stream is cut.
  \<^item> \<open>FastMemcpy\<close> (\<^verbatim>\<open>base/snprintf/fast_memcpy.h\<close>): the copy equals \<open>memcpy\<close> for every size and alignment.
  \<^item> \<open>MySnprintf\<close>, \<open>SnprintfProps\<close>, \<open>SnprintfConv\<close> (\<^verbatim>\<open>base/snprintf/mysnprintf.c\<close>): the format automaton; it stays in its buffers, its fast paths and \<open>fmtint\<close> print the
    right digits and layout.
  \<^item> \<open>City\<close>, \<open>ObjectPool\<close>, \<open>AccountList\<close>, \<open>AccountManager\<close> (\<^verbatim>\<open>base/cityhash/city.cc\<close>, \<^verbatim>\<open>base/ObjectPool.hpp\<close>, \<^verbatim>\<open>lobby/AccountStateList.cpp\<close>, \<^verbatim>\<open>lobby/SimpleAccountManager.cpp\<close>): the invariant
    of the caches and conflict marks over every sequence of calls, the result of a registration on every branch, the lookups.
  \<^item> \<open>UvWorld\<close>, \<open>ConnManager\<close>, \<open>UvServer\<close>, \<open>UvClientProps\<close>, \<open>UvServerProps\<close>, \<open>UvIsolated\<close>, \<open>UvIsolatedProps\<close> (\<^verbatim>\<open>tcp/TcpConnManager.cpp\<close>, \<^verbatim>\<open>tcp/uv\<close>): sockets, handles, connections and the manager as
    one world; the calls of the application and the callbacks of libuv are steps, and every order of them is safe within the limits that the theories state; the
    recycler deletes each client once, an isolated connection reconnects, and the places where the code fails.
  \<^item> \<open>RwQueue\<close>, \<open>RwInvariant\<close>, \<open>RwSteps\<close>, \<open>RwProps\<close> (\<^verbatim>\<open>base/concurrent/readerwriterqueue.h\<close>): producer and consumer step by step, one shared access each, sequentially consistent; the
    queue refines a first-in first-out list, is wait-free, and undisturbed calls return the right result.
  \<^item> \<open>KjFactory\<close>, \<open>KjInvariant\<close>, \<open>KjSteps\<close>, \<open>KjProps\<close> (\<^verbatim>\<open>tcp/kj\<close>, \<^verbatim>\<open>base/CamelReaderWriterQueueWL.cpp\<close>): the two threads with their queues as lists, which the previous group justifies; no entry of
    a queue refers to a deleted connection, drained queues let the recycler delete everything, and a function that is scheduled without being counted can outlive
    its connection.
  \<^item> \<open>MyUtil\<close>, \<open>MyUtilProps\<close>, \<open>FormulaProps\<close> (\<^verbatim>\<open>base/MyUtil.cpp\<close>): hexadecimal text, splitting, formulas and bounded copies.
  \<^item> \<open>ZoneManager\<close>, \<open>ZoneProps\<close> (\<^verbatim>\<open>lobby/SimpleZoneManager.cpp\<close>): zones, channels, peers and the white list; the maps stay consistent, what a registration leaves, and two
    defects of the white list and of the lookup by connection.

  \<^bold>\<open>Not modelled.\<close> The libevent transport (\<^verbatim>\<open>tcp/ev\<close>) and the gate variants (\<^verbatim>\<open>tcp/uvgate\<close>, \<^verbatim>\<open>tcp/kjgate\<close>) repeat the libuv and kj code with other packet classes; the kj
  isolated connections, streams and threads are calls of the kj library; the lobby facades, the event manager and the plug-in wire objects together;
  \<^verbatim>\<open>http\<close> calls libevent, evhtp and libcurl; \<^verbatim>\<open>_concurrent_atomicops.h\<close> wraps the atomics of the compiler, whose memory order the queue model takes to be sequentially
  consistent. Log output, statistics counters and peer addresses are left out of the models.
\<close>

end
